(* ===== verification/Prelude.thy ===== *)
theory Prelude
  imports Main "HOL-Library.Multiset"
begin

text \<open>
  Shared vocabulary of the development: Rust's fixed-width unsigned arithmetic on
  natural numbers, the error monad used for fallible code, and the generic list facts
  that several components rely on.

  The daemon is built for 64-bit Unix hosts, so both \<^verbatim>\<open>u64\<close> and \<^verbatim>\<open>usize\<close>
  range over \<open>{0..2^64 - 1}\<close>.  Quantities are \<open>nat\<close>; every operation of the source whose
  behaviour at the boundary matters is one of the functions below, so that a checked,
  a saturating and a wrapping (atomic) addition are three different functions of the model.
\<close>

named_theorems arith_defs \<open>definitions of the fixed-width operations\<close>

type_synonym u64 = nat
type_synonym usize = nat
type_synonym byte = nat

definition U64_MAX :: nat where
  "U64_MAX = 2 ^ 64 - 1"

definition I64_MAX :: nat where
  "I64_MAX = 2 ^ 63 - 1"

definition USIZE_MAX :: nat where
  "USIZE_MAX = 2 ^ 64 - 1"

definition checked_add :: "nat \<Rightarrow> nat \<Rightarrow> nat option" where
  [arith_defs]: "checked_add a b = (if a + b \<le> U64_MAX then Some (a + b) else None)"

definition checked_mul :: "nat \<Rightarrow> nat \<Rightarrow> nat option" where
  [arith_defs]: "checked_mul a b = (if a * b \<le> U64_MAX then Some (a * b) else None)"

definition checked_sub :: "nat \<Rightarrow> nat \<Rightarrow> nat option" where
  [arith_defs]: "checked_sub a b = (if b \<le> a then Some (a - b) else None)"

definition saturating_add :: "nat \<Rightarrow> nat \<Rightarrow> nat" where
  [arith_defs]: "saturating_add a b = min (a + b) U64_MAX"

definition saturating_mul :: "nat \<Rightarrow> nat \<Rightarrow> nat" where
  [arith_defs]: "saturating_mul a b = min (a * b) U64_MAX"

definition saturating_sub :: "nat \<Rightarrow> nat \<Rightarrow> nat" where
  [arith_defs]: "saturating_sub a b = a - b"

definition wrapping_add :: "nat \<Rightarrow> nat \<Rightarrow> nat" where
  "wrapping_add a b = (a + b) mod 2 ^ 64"

definition wrapping_sub :: "nat \<Rightarrow> nat \<Rightarrow> nat" where
  "wrapping_sub a b = (a + (2 ^ 64 - b mod 2 ^ 64)) mod 2 ^ 64"

definition div_ceil :: "nat \<Rightarrow> nat \<Rightarrow> nat" where
  "div_ceil a b = (if a mod b = 0 then a div b else a div b + 1)"

text \<open>\<^verbatim>\<open>usize::try_from\<close> of a \<^verbatim>\<open>u64\<close>.\<close>

definition usize_try_from :: "nat \<Rightarrow> nat option" where
  [arith_defs]: "usize_try_from n = (if n \<le> USIZE_MAX then Some n else None)"

lemma max_values:
  "U64_MAX = 18446744073709551615" "USIZE_MAX = 18446744073709551615"
  "I64_MAX = 9223372036854775807"
  by (simp_all add: U64_MAX_def USIZE_MAX_def I64_MAX_def)

lemma USIZE_MAX_eq_U64_MAX: "USIZE_MAX = U64_MAX"
  by (simp add: U64_MAX_def USIZE_MAX_def)

lemma checked_add_Some [simp]:
  "checked_add a b = Some c \<longleftrightarrow> c = a + b \<and> a + b \<le> U64_MAX"
  by (auto simp: arith_defs)

lemma checked_add_None [simp]: "checked_add a b = None \<longleftrightarrow> U64_MAX < a + b"
  by (auto simp: arith_defs)

lemma checked_mul_Some [simp]:
  "checked_mul a b = Some c \<longleftrightarrow> c = a * b \<and> a * b \<le> U64_MAX"
  by (auto simp: arith_defs)

lemma checked_mul_None [simp]: "checked_mul a b = None \<longleftrightarrow> U64_MAX < a * b"
  by (auto simp: arith_defs)

lemma checked_sub_Some [simp]: "checked_sub a b = Some c \<longleftrightarrow> c = a - b \<and> b \<le> a"
  by (auto simp: arith_defs)

lemma saturating_add_le: "saturating_add a b \<le> U64_MAX"
  by (simp add: arith_defs)

lemma saturating_add_exact [simp]: "a + b \<le> U64_MAX \<Longrightarrow> saturating_add a b = a + b"
  by (simp add: arith_defs)

lemma wrapping_add_exact: "a + b \<le> U64_MAX \<Longrightarrow> wrapping_add a b = a + b"
  by (simp add: wrapping_add_def U64_MAX_def)

lemma wrapping_sub_exact:
  assumes "b \<le> a" "a \<le> U64_MAX"
  shows "wrapping_sub a b = a - b"
proof -
  have b: "b mod 2 ^ 64 = b"
    using assms by (simp add: U64_MAX_def)
  have le: "a - b < 2 ^ 64"
    using assms by (simp add: U64_MAX_def)
  have "a + (2 ^ 64 - b) = (a - b) + 2 ^ 64"
    using assms by (simp add: U64_MAX_def)
  then show ?thesis
    unfolding wrapping_sub_def b using le by simp
qed

lemma div_ceil_lower: "0 < b \<Longrightarrow> a \<le> div_ceil a b * b"
proof -
  assume b: "0 < b"
  have a: "a = a div b * b + a mod b" by simp
  show ?thesis
  proof (cases "a mod b = 0")
    case True
    with a show ?thesis by (simp add: div_ceil_def)
  next
    case False
    have "a mod b \<le> b" using b by simp
    then have "a \<le> a div b * b + b"
      by (subst a) (rule add_left_mono)
    with False show ?thesis by (simp add: div_ceil_def)
  qed
qed

lemma div_ceil_le: "0 < b \<Longrightarrow> div_ceil a b \<le> a div b + 1"
  by (simp add: div_ceil_def)

subsection \<open>Results\<close>

text \<open>
  A fallible operation returns \<open>'e + 'a\<close>: \<open>Inl\<close> is Rust's \<^verbatim>\<open>Err\<close>, \<open>Inr\<close> its
  \<^verbatim>\<open>Ok\<close>; \<open>and_then\<close> is the \<^verbatim>\<open>?\<close> operator.
\<close>

definition and_then :: "'e + 'a \<Rightarrow> ('a \<Rightarrow> 'e + 'b) \<Rightarrow> 'e + 'b" where
  "and_then r f = (case r of Inl e \<Rightarrow> Inl e | Inr a \<Rightarrow> f a)"

definition ok_or :: "'e \<Rightarrow> 'a option \<Rightarrow> 'e + 'a" where
  "ok_or e m = (case m of None \<Rightarrow> Inl e | Some a \<Rightarrow> Inr a)"

definition require :: "bool \<Rightarrow> 'e \<Rightarrow> 'e + unit" where
  "require c e = (if c then Inr () else Inl e)"

lemma and_then_simps [simp]: "and_then (Inl e) f = Inl e" "and_then (Inr a) f = f a"
  by (simp_all add: and_then_def)

lemma and_then_Inr [simp]:
  "and_then r f = Inr b \<longleftrightarrow> (\<exists>a. r = Inr a \<and> f a = Inr b)"
  by (cases r) auto

lemma ok_or_simps [simp]: "ok_or e None = Inl e" "ok_or e (Some a) = Inr a"
  by (simp_all add: ok_or_def)

lemma ok_or_Inr [simp]: "ok_or e m = Inr a \<longleftrightarrow> m = Some a"
  by (cases m) auto

lemma require_Inr [simp]: "require c e = Inr u \<longleftrightarrow> c"
  by (simp add: require_def)

lemma require_Inl [simp]: "require c e = Inl e' \<longleftrightarrow> \<not> c \<and> e' = e"
  by (auto simp: require_def)

text \<open>A \<^verbatim>\<open>for\<close> loop that returns the first error.\<close>

fun for_each :: "('a \<Rightarrow> 'e + unit) \<Rightarrow> 'a list \<Rightarrow> 'e + unit" where
  "for_each f [] = Inr ()"
| "for_each f (x # xs) = and_then (f x) (\<lambda>_. for_each f xs)"

lemma for_each_Inr: "for_each f xs = Inr u \<longleftrightarrow> (\<forall>x\<in>set xs. f x = Inr ())"
  by (induction xs) auto

subsection \<open>Lists\<close>

lemma sum_list_remove1:
  fixes f :: "'a \<Rightarrow> nat"
  shows "x \<in> set xs \<Longrightarrow> sum_list (map f (remove1 x xs)) + f x = sum_list (map f xs)"
  by (induction xs) auto

lemma sum_list_mem_le:
  fixes f :: "'a \<Rightarrow> nat"
  shows "x \<in> set xs \<Longrightarrow> f x \<le> sum_list (map f xs)"
  using sum_list_remove1 [of x xs f] by linarith

lemma min_shift:
  fixes a b c n :: nat
  shows "n \<le> a \<Longrightarrow> n \<le> b \<Longrightarrow> n \<le> c \<Longrightarrow> n + min (min (a - n) (b - n)) (c - n) = min (min a b) c"
  by (simp add: min_def) linarith

end
