(* ===== verification/Resources.thy ===== *)
theory Resources
  imports Prelude
begin

text \<open>
  Operator resource policy, \<^verbatim>\<open>crates/ctxmux-daemon/src/resources.rs\<close>: the snapshot
  \<open>resource_limits\<close>, the sparse start-up choices \<open>resource_config\<close>, their resolution and
  validation, the SQLite side-file arithmetic, and the shared byte budget with its permits.

  What the source takes from the host is a parameter record \<open>host\<close>: tokio's
  \<^verbatim>\<open>Semaphore::MAX_PERMITS\<close>, whether a deadline that many milliseconds ahead is
  representable (\<^verbatim>\<open>Instant::checked_add\<close>), the observed parallelism and the size of the
  diagnostic envelope (\<^verbatim>\<open>size_of::<Message>()\<close>).

  The locale \<open>byte_ledger\<close> is the contract of a byte budget towards the owners that hold
  its permits; it is interpreted on the model of \<^verbatim>\<open>ByteBudget\<close>.
\<close>

section \<open>Policy records\<close>

definition DEFAULT_HOT_REPLAY_BYTES :: nat where
  "DEFAULT_HOT_REPLAY_BYTES = 1024 * 1024 * 1024"

definition SQLITE_PAGE_BYTES :: nat where "SQLITE_PAGE_BYTES = 4096"
definition WAL_HEADER_BYTES :: nat where "WAL_HEADER_BYTES = 32"
definition WAL_FRAME_BYTES :: nat where "WAL_FRAME_BYTES = SQLITE_PAGE_BYTES + 24"
definition SHM_BLOCK_BYTES :: nat where "SHM_BLOCK_BYTES = 32768"
definition SHM_FRAME_SLOTS :: nat where "SHM_FRAME_SLOTS = 4096"
definition SHM_FIRST_FRAME_SLOTS :: nat where "SHM_FIRST_FRAME_SLOTS = 4062"
definition MAX_FRAME_BYTES :: nat where "MAX_FRAME_BYTES = 1024 * 1024"

lemmas resource_consts = DEFAULT_HOT_REPLAY_BYTES_def SQLITE_PAGE_BYTES_def WAL_HEADER_BYTES_def
  WAL_FRAME_BYTES_def SHM_BLOCK_BYTES_def SHM_FRAME_SLOTS_def SHM_FIRST_FRAME_SLOTS_def
  MAX_FRAME_BYTES_def

record host =
  max_permits :: nat
  deadline_fits :: "u64 \<Rightarrow> bool"
  available_parallelism :: "nat option"
  envelope_bytes :: nat

record resource_limits =
  live_runs :: "usize option"
  retained_runs :: "usize option"
  hot_output_bytes :: u64
  live_event_bytes :: u64
  run_output_bytes :: usize
  metadata_bytes :: u64
  durable_replay_bytes :: "u64 option"
  durable_run_output_bytes :: "u64 option"
  database_bytes :: "u64 option"
  wal_checkpoint_bytes :: u64
  handoff_bytes :: u64
  control_state_bytes :: u64
  diagnostic_queue_bytes :: u64
  diagnostic_record_bytes :: usize
  creation_workers :: usize
  foreground_observation_workers :: usize
  foreground_observation_bytes :: u64
  foreground_observation_timeout_ms :: u64
  input_turn_commands :: usize
  input_turn_bytes :: usize
  stop_admission_timeout_ms :: u64
  cleanup_workers :: usize
  finalize_workers :: usize
  input_queue_commands :: usize
  input_queue_bytes :: usize
  input_result_entries :: usize
  input_result_bytes :: usize
  tmux_discovery_bytes :: usize

record resource_config =
  cfg_live_runs :: "usize option option"
  cfg_retained_runs :: "usize option option"
  cfg_hot_output_bytes :: "u64 option"
  cfg_live_event_bytes :: "u64 option"
  cfg_run_output_bytes :: "usize option"
  cfg_metadata_bytes :: "u64 option"
  cfg_durable_replay_bytes :: "u64 option option"
  cfg_durable_run_output_bytes :: "u64 option option"
  cfg_database_bytes :: "u64 option option"
  cfg_wal_checkpoint_bytes :: "u64 option"
  cfg_handoff_bytes :: "u64 option"
  cfg_control_state_bytes :: "u64 option"
  cfg_diagnostic_queue_bytes :: "u64 option"
  cfg_diagnostic_record_bytes :: "usize option"
  cfg_creation_workers :: "usize option"
  cfg_foreground_observation_workers :: "usize option"
  cfg_foreground_observation_bytes :: "u64 option"
  cfg_foreground_observation_timeout_ms :: "u64 option"
  cfg_input_turn_commands :: "usize option"
  cfg_input_turn_bytes :: "usize option"
  cfg_stop_admission_timeout_ms :: "u64 option"
  cfg_cleanup_workers :: "usize option"
  cfg_finalize_workers :: "usize option"
  cfg_input_queue_commands :: "usize option"
  cfg_input_queue_bytes :: "usize option"
  cfg_input_result_entries :: "usize option"
  cfg_input_result_bytes :: "usize option"
  cfg_tmux_discovery_bytes :: "usize option"

text \<open>One field of \<^verbatim>\<open>apply\<close>: \<^verbatim>\<open>if let Some(value) = self.field { limits.field = value }\<close>.\<close>

definition chosen :: "'a option \<Rightarrow> 'a \<Rightarrow> 'a" where
  "chosen c d = (case c of None \<Rightarrow> d | Some v \<Rightarrow> v)"

lemma chosen_simps [simp]: "chosen None d = d" "chosen (Some v) d = v"
  by (simp_all add: chosen_def)

lemma chosen_idem [simp]: "chosen c (chosen c d) = chosen c d"
  by (simp add: chosen_def split: option.splits)

definition apply_config :: "resource_config \<Rightarrow> resource_limits \<Rightarrow> resource_limits" where
  "apply_config c l = \<lparr>
     live_runs = chosen (cfg_live_runs c) (live_runs l),
     retained_runs = chosen (cfg_retained_runs c) (retained_runs l),
     hot_output_bytes = chosen (cfg_hot_output_bytes c) (hot_output_bytes l),
     live_event_bytes = chosen (cfg_live_event_bytes c) (live_event_bytes l),
     run_output_bytes = chosen (cfg_run_output_bytes c) (run_output_bytes l),
     metadata_bytes = chosen (cfg_metadata_bytes c) (metadata_bytes l),
     durable_replay_bytes = chosen (cfg_durable_replay_bytes c) (durable_replay_bytes l),
     durable_run_output_bytes =
       chosen (cfg_durable_run_output_bytes c) (durable_run_output_bytes l),
     database_bytes = chosen (cfg_database_bytes c) (database_bytes l),
     wal_checkpoint_bytes = chosen (cfg_wal_checkpoint_bytes c) (wal_checkpoint_bytes l),
     handoff_bytes = chosen (cfg_handoff_bytes c) (handoff_bytes l),
     control_state_bytes = chosen (cfg_control_state_bytes c) (control_state_bytes l),
     diagnostic_queue_bytes = chosen (cfg_diagnostic_queue_bytes c) (diagnostic_queue_bytes l),
     diagnostic_record_bytes =
       chosen (cfg_diagnostic_record_bytes c) (diagnostic_record_bytes l),
     creation_workers = chosen (cfg_creation_workers c) (creation_workers l),
     foreground_observation_workers =
       chosen (cfg_foreground_observation_workers c) (foreground_observation_workers l),
     foreground_observation_bytes =
       chosen (cfg_foreground_observation_bytes c) (foreground_observation_bytes l),
     foreground_observation_timeout_ms =
       chosen (cfg_foreground_observation_timeout_ms c) (foreground_observation_timeout_ms l),
     input_turn_commands = chosen (cfg_input_turn_commands c) (input_turn_commands l),
     input_turn_bytes = chosen (cfg_input_turn_bytes c) (input_turn_bytes l),
     stop_admission_timeout_ms =
       chosen (cfg_stop_admission_timeout_ms c) (stop_admission_timeout_ms l),
     cleanup_workers = chosen (cfg_cleanup_workers c) (cleanup_workers l),
     finalize_workers = chosen (cfg_finalize_workers c) (finalize_workers l),
     input_queue_commands = chosen (cfg_input_queue_commands c) (input_queue_commands l),
     input_queue_bytes = chosen (cfg_input_queue_bytes c) (input_queue_bytes l),
     input_result_entries = chosen (cfg_input_result_entries c) (input_result_entries l),
     input_result_bytes = chosen (cfg_input_result_bytes c) (input_result_bytes l),
     tmux_discovery_bytes = chosen (cfg_tmux_discovery_bytes c) (tmux_discovery_bytes l) \<rparr>"

definition LIMITS_DEFAULT :: resource_limits where
  "LIMITS_DEFAULT = \<lparr>
     live_runs = None,
     retained_runs = None,
     hot_output_bytes = DEFAULT_HOT_REPLAY_BYTES,
     live_event_bytes = 64 * 1024 * 1024,
     run_output_bytes = DEFAULT_HOT_REPLAY_BYTES,
     metadata_bytes = 64 * 1024 * 1024,
     durable_replay_bytes = None,
     durable_run_output_bytes = None,
     database_bytes = None,
     wal_checkpoint_bytes = 8 * 1024 * 1024,
     handoff_bytes = 256 * 1024 * 1024,
     control_state_bytes = 128 * 1024 * 1024,
     diagnostic_queue_bytes = 64 * 1024 * 1024,
     diagnostic_record_bytes = MAX_FRAME_BYTES,
     creation_workers = 8,
     foreground_observation_workers = 1,
     foreground_observation_bytes = MAX_FRAME_BYTES,
     foreground_observation_timeout_ms = 1000,
     input_turn_commands = 64,
     input_turn_bytes = 256 * 1024,
     stop_admission_timeout_ms = 250,
     cleanup_workers = 8,
     finalize_workers = 8,
     input_queue_commands = 1024,
     input_queue_bytes = 4 * 1024 * 1024,
     input_result_entries = 256,
     input_result_bytes = 1024 * 1024,
     tmux_discovery_bytes = 128 * 1024 \<rparr>"

definition observation_bytes :: "usize \<Rightarrow> string + u64" where
  "observation_bytes workers =
     ok_or ''foreground observation worker funding overflows''
       (checked_mul workers MAX_FRAME_BYTES)"

datatype policy_failure =
    Panicked string    \<comment> \<open>an \<^verbatim>\<open>expect\<close> that fails\<close>
  | Refused string     \<comment> \<open>\<^verbatim>\<open>Err(message)\<close>\<close>

definition refuse :: "string + 'a \<Rightarrow> policy_failure + 'a" where
  "refuse r = (case r of Inl e \<Rightarrow> Inl (Refused e) | Inr a \<Rightarrow> Inr a)"

lemma refuse_Inr [simp]: "refuse r = Inr a \<longleftrightarrow> r = Inr a"
  by (cases r) (auto simp: refuse_def)

lemma refuse_of_Inr [simp]: "refuse (Inr a) = Inr a"
  by (simp add: refuse_def)

definition default_limits :: "host \<Rightarrow> policy_failure + resource_limits" where
  "default_limits h =
     (let workers = (case available_parallelism h of None \<Rightarrow> 1 | Some cpus \<Rightarrow> max (cpus div 4) 1)
      in case observation_bytes workers of
           Inl _ \<Rightarrow> Inl (Panicked ''available host CPU width fits observation funding'')
         | Inr bytes \<Rightarrow>
             Inr (LIMITS_DEFAULT\<lparr>foreground_observation_workers := workers,
                                 foreground_observation_bytes := bytes\<rparr>))"

section \<open>SQLite side files\<close>

definition wal_bytes :: "resource_limits \<Rightarrow> u64" where
  "wal_bytes l = wal_checkpoint_bytes l * 2"

definition shm_bytes :: "resource_limits \<Rightarrow> u64" where
  "shm_bytes l =
     (let frames = saturating_sub (wal_bytes l) WAL_HEADER_BYTES div WAL_FRAME_BYTES;
          additional = saturating_sub frames SHM_FIRST_FRAME_SLOTS
      in (1 + div_ceil additional SHM_FRAME_SLOTS) * SHM_BLOCK_BYTES)"

definition storage_overflow :: string where
  "storage_overflow = ''combined storage budgets overflow''"

definition state_file_bytes :: "resource_limits \<Rightarrow> string + u64 option" where
  "state_file_bytes l =
     and_then (ok_or storage_overflow (checked_mul (wal_checkpoint_bytes l) 2)) (\<lambda>wal.
     and_then (ok_or storage_overflow
        (Option.bind (checked_add wal (shm_bytes l)) (\<lambda>bytes. checked_add bytes (1024 * 1024))))
       (\<lambda>fixed.
     and_then (case durable_replay_bytes l of
                 None \<Rightarrow> Inr None
               | Some bytes \<Rightarrow> and_then (ok_or storage_overflow (checked_mul bytes 3)) (\<lambda>r. Inr (Some r)))
       (\<lambda>replay.
     and_then (case database_bytes l of
                 None \<Rightarrow> Inr ()
               | Some database \<Rightarrow>
                   and_then (ok_or storage_overflow (checked_add database fixed)) (\<lambda>_. Inr ()))
       (\<lambda>_.
     and_then (case replay of
                 None \<Rightarrow> Inr ()
               | Some replay \<Rightarrow>
                   and_then (ok_or storage_overflow (checked_add replay fixed)) (\<lambda>_. Inr ()))
       (\<lambda>_.
     case (database_bytes l, replay) of
       (Some database, Some replay) \<Rightarrow>
         and_then (ok_or storage_overflow
             (Option.bind (checked_add database replay) (\<lambda>bytes. checked_add bytes fixed)))
           (\<lambda>sum. Inr (Some sum))
     | _ \<Rightarrow> Inr None)))))"

section \<open>Validation and resolution\<close>

definition byte_count_ok :: "u64 \<Rightarrow> bool" where
  "byte_count_ok bytes \<longleftrightarrow> \<not> (bytes = 0 \<or> bytes > I64_MAX \<or> usize_try_from bytes = None)"

definition validate_diagnostic_limits :: "host \<Rightarrow> usize \<Rightarrow> usize \<Rightarrow> string + unit" where
  "validate_diagnostic_limits h queue_bytes record_bytes =
     (if record_bytes = 0 \<or>
         (case checked_add record_bytes (envelope_bytes h) of
            None \<Rightarrow> True | Some required \<Rightarrow> required > queue_bytes)
      then Inl ''diagnostic queue must fund one positive-size record and its envelope''
      else Inr ())"

definition named_byte_counts :: "resource_limits \<Rightarrow> (string \<times> u64) list" where
  "named_byte_counts l =
     [(''hot_output_bytes'', hot_output_bytes l),
      (''live_event_bytes'', live_event_bytes l),
      (''run_output_bytes'', run_output_bytes l),
      (''metadata_bytes'', metadata_bytes l),
      (''wal_checkpoint_bytes'', wal_checkpoint_bytes l),
      (''handoff_bytes'', handoff_bytes l),
      (''control_state_bytes'', control_state_bytes l),
      (''foreground_observation_bytes'', foreground_observation_bytes l),
      (''diagnostic_queue_bytes'', diagnostic_queue_bytes l),
      (''diagnostic_record_bytes'', diagnostic_record_bytes l)]"

definition named_quotas :: "resource_limits \<Rightarrow> (string \<times> u64 option) list" where
  "named_quotas l =
     [(''durable_replay_bytes'', durable_replay_bytes l),
      (''durable_run_output_bytes'', durable_run_output_bytes l),
      (''database_bytes'', database_bytes l)]"

definition named_owner_counts :: "resource_limits \<Rightarrow> (string \<times> usize) list" where
  "named_owner_counts l =
     [(''creation_workers'', creation_workers l),
      (''foreground_observation_workers'', foreground_observation_workers l),
      (''input_turn_commands'', input_turn_commands l),
      (''input_turn_bytes'', input_turn_bytes l),
      (''cleanup_workers'', cleanup_workers l),
      (''finalize_workers'', finalize_workers l),
      (''input_queue_commands'', input_queue_commands l),
      (''input_queue_bytes'', input_queue_bytes l),
      (''input_result_entries'', input_result_entries l),
      (''input_result_bytes'', input_result_bytes l),
      (''tmux_discovery_bytes'', tmux_discovery_bytes l)]"

definition validate :: "host \<Rightarrow> resource_limits \<Rightarrow> string + unit" where
  "validate h l =
     and_then (require (\<not> (live_runs l = Some 0 \<or> retained_runs l = Some 0))
       ''population limits must be positive or null'') (\<lambda>_.
     and_then (for_each (\<lambda>(name, bytes). require (byte_count_ok bytes)
         (name @ '' must fit a positive host/SQLite byte count'')) (named_byte_counts l)) (\<lambda>_.
     and_then (for_each (\<lambda>(name, quota).
         require (case quota of None \<Rightarrow> True | Some bytes \<Rightarrow> byte_count_ok bytes)
         (name @ '' must fit a positive host/SQLite byte count or null'')) (named_quotas l)) (\<lambda>_.
     and_then (require (case database_bytes l of None \<Rightarrow> True
                        | Some bytes \<Rightarrow> bytes mod SQLITE_PAGE_BYTES = 0)
       ''database_bytes must be a multiple of the 4096-byte SQLite page'') (\<lambda>_.
     and_then (require (\<not> wal_checkpoint_bytes l < WAL_HEADER_BYTES + WAL_FRAME_BYTES)
       ''wal_checkpoint_bytes must fund a WAL header and page frame'') (\<lambda>_.
     and_then (for_each (\<lambda>(name, count). require (\<not> (count = 0 \<or> count > max_permits h))
         (name @ '' must fit a positive owner count'')) (named_owner_counts l)) (\<lambda>_.
     and_then (require (\<not> (stop_admission_timeout_ms l = 0
                          \<or> \<not> deadline_fits h (stop_admission_timeout_ms l)))
       ''stop_admission_timeout_ms must fit a positive host deadline'') (\<lambda>_.
     and_then (require (\<not> (foreground_observation_timeout_ms l = 0
                          \<or> \<not> deadline_fits h (foreground_observation_timeout_ms l)))
       ''foreground_observation_timeout_ms must fit a positive host deadline'') (\<lambda>_.
     and_then (ok_or ''diagnostic_queue_bytes must fit the host''
         (usize_try_from (diagnostic_queue_bytes l))) (\<lambda>queue.
     and_then (validate_diagnostic_limits h queue (diagnostic_record_bytes l)) (\<lambda>_.
     and_then (state_file_bytes l) (\<lambda>_. Inr ())))))))))))"

text \<open>The three derivations of \<^verbatim>\<open>resolve\<close> for omitted quotas, in the order of the source.\<close>

definition derive_run_output :: "resource_config \<Rightarrow> resource_limits \<Rightarrow> policy_failure + resource_limits" where
  "derive_run_output c l =
     (if cfg_run_output_bytes c = None
      then and_then (refuse (ok_or ''hot_output_bytes must fit the host''
               (usize_try_from (hot_output_bytes l)))) (\<lambda>n. Inr (l\<lparr>run_output_bytes := n\<rparr>))
      else Inr l)"

definition derive_durable_run_output :: "resource_config \<Rightarrow> resource_limits \<Rightarrow> resource_limits" where
  "derive_durable_run_output c l =
     (if cfg_durable_run_output_bytes c = None
      then l\<lparr>durable_run_output_bytes := durable_replay_bytes l\<rparr> else l)"

definition derive_observation :: "resource_config \<Rightarrow> resource_limits \<Rightarrow> policy_failure + resource_limits" where
  "derive_observation c l =
     (if cfg_foreground_observation_bytes c = None
      then and_then (refuse (observation_bytes (foreground_observation_workers l)))
             (\<lambda>n. Inr (l\<lparr>foreground_observation_bytes := n\<rparr>))
      else Inr l)"

definition resolve :: "host \<Rightarrow> resource_config \<Rightarrow> policy_failure + resource_limits" where
  "resolve h c =
     and_then (default_limits h) (\<lambda>d.
     and_then (derive_run_output c (apply_config c d)) (\<lambda>l.
     and_then (derive_observation c (derive_durable_run_output c l)) (\<lambda>l.
     and_then (refuse (validate h l)) (\<lambda>_. Inr l))))"

lemmas derive_defs = derive_run_output_def derive_durable_run_output_def derive_observation_def

text \<open>The start-up choices that spell out every field of a snapshot.\<close>

definition explicit_config :: "resource_limits \<Rightarrow> resource_config" where
  "explicit_config l = \<lparr>
     cfg_live_runs = Some (live_runs l),
     cfg_retained_runs = Some (retained_runs l),
     cfg_hot_output_bytes = Some (hot_output_bytes l),
     cfg_live_event_bytes = Some (live_event_bytes l),
     cfg_run_output_bytes = Some (run_output_bytes l),
     cfg_metadata_bytes = Some (metadata_bytes l),
     cfg_durable_replay_bytes = Some (durable_replay_bytes l),
     cfg_durable_run_output_bytes = Some (durable_run_output_bytes l),
     cfg_database_bytes = Some (database_bytes l),
     cfg_wal_checkpoint_bytes = Some (wal_checkpoint_bytes l),
     cfg_handoff_bytes = Some (handoff_bytes l),
     cfg_control_state_bytes = Some (control_state_bytes l),
     cfg_diagnostic_queue_bytes = Some (diagnostic_queue_bytes l),
     cfg_diagnostic_record_bytes = Some (diagnostic_record_bytes l),
     cfg_creation_workers = Some (creation_workers l),
     cfg_foreground_observation_workers = Some (foreground_observation_workers l),
     cfg_foreground_observation_bytes = Some (foreground_observation_bytes l),
     cfg_foreground_observation_timeout_ms = Some (foreground_observation_timeout_ms l),
     cfg_input_turn_commands = Some (input_turn_commands l),
     cfg_input_turn_bytes = Some (input_turn_bytes l),
     cfg_stop_admission_timeout_ms = Some (stop_admission_timeout_ms l),
     cfg_cleanup_workers = Some (cleanup_workers l),
     cfg_finalize_workers = Some (finalize_workers l),
     cfg_input_queue_commands = Some (input_queue_commands l),
     cfg_input_queue_bytes = Some (input_queue_bytes l),
     cfg_input_result_entries = Some (input_result_entries l),
     cfg_input_result_bytes = Some (input_result_bytes l),
     cfg_tmux_discovery_bytes = Some (tmux_discovery_bytes l) \<rparr>"

definition empty_config :: resource_config where
  "empty_config = \<lparr>
     cfg_live_runs = None, cfg_retained_runs = None, cfg_hot_output_bytes = None,
     cfg_live_event_bytes = None, cfg_run_output_bytes = None, cfg_metadata_bytes = None,
     cfg_durable_replay_bytes = None, cfg_durable_run_output_bytes = None,
     cfg_database_bytes = None, cfg_wal_checkpoint_bytes = None, cfg_handoff_bytes = None,
     cfg_control_state_bytes = None, cfg_diagnostic_queue_bytes = None,
     cfg_diagnostic_record_bytes = None, cfg_creation_workers = None,
     cfg_foreground_observation_workers = None, cfg_foreground_observation_bytes = None,
     cfg_foreground_observation_timeout_ms = None, cfg_input_turn_commands = None,
     cfg_input_turn_bytes = None, cfg_stop_admission_timeout_ms = None,
     cfg_cleanup_workers = None, cfg_finalize_workers = None,
     cfg_input_queue_commands = None, cfg_input_queue_bytes = None,
     cfg_input_result_entries = None, cfg_input_result_bytes = None,
     cfg_tmux_discovery_bytes = None \<rparr>"

section \<open>The byte budget\<close>

record byte_budget =
  bb_limit :: u64
  bb_used :: u64

text \<open>A permit remembers its charge; dropping it subtracts exactly that (\<^verbatim>\<open>fetch_sub\<close> wraps).\<close>

type_synonym byte_permit = u64

definition budget_new :: "u64 \<Rightarrow> byte_budget" where
  "budget_new limit = \<lparr>bb_limit = limit, bb_used = 0\<rparr>"

definition reserve :: "byte_budget \<Rightarrow> usize \<Rightarrow> (byte_budget \<times> byte_permit) option" where
  "reserve b bytes =
     (case checked_add (bb_used b) bytes of
        None \<Rightarrow> None
      | Some next \<Rightarrow> if next \<le> bb_limit b then Some (b\<lparr>bb_used := next\<rparr>, bytes) else None)"

definition permit_drop :: "byte_budget \<Rightarrow> byte_permit \<Rightarrow> byte_budget" where
  "permit_drop b p = b\<lparr>bb_used := wrapping_sub (bb_used b) p\<rparr>"

text \<open>Concurrent owners: each reservation and each permit drop is one atomic step.\<close>

inductive budget_step :: "byte_budget \<times> byte_permit list \<Rightarrow> byte_budget \<times> byte_permit list \<Rightarrow> bool" where
  granted: "reserve b n = Some (b', p) \<Longrightarrow> budget_step (b, ps) (b', p # ps)"
| refused: "reserve b n = None \<Longrightarrow> budget_step (b, ps) (b, ps)"
| dropped: "p \<in> set ps \<Longrightarrow> budget_step (b, ps) (permit_drop b p, remove1 p ps)"

inductive budget_reachable :: "u64 \<Rightarrow> byte_budget \<times> byte_permit list \<Rightarrow> bool" for limit where
  start: "budget_reachable limit (budget_new limit, [])"
| step: "budget_reachable limit s \<Longrightarrow> budget_step s t \<Longrightarrow> budget_reachable limit t"

inductive_cases budget_stepE: "budget_step (b, ps) t"

section \<open>The contract of a byte budget\<close>

text \<open>
  What an owner that charges its allocations to a budget may rely on.  \<open>ledger b ps\<close> says
  that \<open>ps\<close> are exactly the outstanding permits of \<open>b\<close>.
\<close>

locale byte_ledger =
  fixes take_permit :: "'b \<Rightarrow> nat \<Rightarrow> ('b \<times> 'p) option"
    and give_back :: "'b \<Rightarrow> 'p \<Rightarrow> 'b"
    and used :: "'b \<Rightarrow> nat"
    and limit :: "'b \<Rightarrow> nat"
    and cost :: "'p \<Rightarrow> nat"
    and good :: "'b \<Rightarrow> bool"
  assumes take_permit_Some:
      "good b \<Longrightarrow> take_permit b n = Some (b', p) \<Longrightarrow>
         good b' \<and> used b' = used b + n \<and> limit b' = limit b \<and> cost p = n"
    and take_permit_None: "good b \<Longrightarrow> take_permit b n = None \<longleftrightarrow> limit b < used b + n"
    and give_back_spec:
      "good b \<Longrightarrow> cost p \<le> used b \<Longrightarrow>
         good (give_back b p) \<and> used (give_back b p) = used b - cost p \<and> limit (give_back b p) = limit b"
    and good_bounded: "good b \<Longrightarrow> used b \<le> limit b"
begin

definition ledger :: "'b \<Rightarrow> 'p list \<Rightarrow> bool" where
  "ledger b ps \<longleftrightarrow> good b \<and> used b = sum_list (map cost ps)"

lemma ledger_take:
  "ledger b ps \<Longrightarrow> take_permit b n = Some (b', p) \<Longrightarrow> ledger b' (p # ps) \<and> limit b' = limit b"
  using take_permit_Some [of b n b' p] by (simp add: ledger_def)

lemma ledger_give_back:
  assumes "ledger b ps" "p \<in> set ps"
  shows "ledger (give_back b p) (remove1 p ps)" "limit (give_back b p) = limit b"
proof -
  have "cost p \<le> used b"
    using assms sum_list_mem_le [of p ps cost] by (simp add: ledger_def)
  then have g: "good (give_back b p)" "used (give_back b p) = used b - cost p"
    "limit (give_back b p) = limit b"
    using give_back_spec [of b p] assms by (simp_all add: ledger_def)
  show "ledger (give_back b p) (remove1 p ps)"
    using g sum_list_remove1 [of p ps cost] assms by (simp add: ledger_def)
  show "limit (give_back b p) = limit b"
    by (rule g)
qed

lemma ledger_bounded: "ledger b ps \<Longrightarrow> sum_list (map cost ps) \<le> limit b"
  using good_bounded [of b] by (simp add: ledger_def)

lemma ledger_drained: "ledger b [] \<Longrightarrow> used b = 0"
  by (simp add: ledger_def)

text \<open>A request that fits beside everything outstanding is always granted.\<close>

lemma ledger_admits:
  "ledger b ps \<Longrightarrow> sum_list (map cost ps) + n \<le> limit b \<Longrightarrow> \<exists>b' p. take_permit b n = Some (b', p)"
  using take_permit_None [of b n] by (cases "take_permit b n") (auto simp: ledger_def)

end

definition budget_good :: "byte_budget \<Rightarrow> bool" where
  "budget_good b \<longleftrightarrow> bb_used b \<le> bb_limit b \<and> bb_limit b \<le> U64_MAX"

lemma reserve_Some:
  "reserve b n = Some (b', p) \<longleftrightarrow>
     p = n \<and> b' = b\<lparr>bb_used := bb_used b + n\<rparr> \<and> bb_used b + n \<le> bb_limit b \<and> bb_used b + n \<le> U64_MAX"
  by (auto simp: reserve_def split: option.splits if_splits)

lemma reserve_None:
  "budget_good b \<Longrightarrow> reserve b n = None \<longleftrightarrow> bb_limit b < bb_used b + n"
  by (auto simp: reserve_def budget_good_def split: option.splits)

interpretation bb: byte_ledger reserve permit_drop bb_used bb_limit "\<lambda>p. p" budget_good
proof unfold_locales
  show "budget_good b \<Longrightarrow> reserve b n = Some (b', p) \<Longrightarrow>
      budget_good b' \<and> bb_used b' = bb_used b + n \<and> bb_limit b' = bb_limit b \<and> p = n" for b n b' p
    by (simp add: reserve_Some budget_good_def)
  show "budget_good b \<Longrightarrow> (reserve b n = None) = (bb_limit b < bb_used b + n)" for b n
    by (rule reserve_None)
  show "budget_good b \<Longrightarrow> p \<le> bb_used b \<Longrightarrow> budget_good (permit_drop b p) \<and>
      bb_used (permit_drop b p) = bb_used b - p \<and> bb_limit (permit_drop b p) = bb_limit b" for b p
    by (auto simp: permit_drop_def budget_good_def wrapping_sub_exact)
  show "budget_good b \<Longrightarrow> bb_used b \<le> bb_limit b" for b
    by (simp add: budget_good_def)
qed

lemma budget_new_ledger: "limit \<le> U64_MAX \<Longrightarrow> bb.ledger (budget_new limit) []"
  by (simp add: bb.ledger_def budget_new_def budget_good_def)

lemma budget_step_ledger:
  assumes "budget_step s t" "bb.ledger (fst s) (snd s)"
  shows "bb.ledger (fst t) (snd t) \<and> bb_limit (fst t) = bb_limit (fst s)"
  using assms
  by (induction rule: budget_step.induct)
     (auto dest: bb.ledger_take intro: bb.ledger_give_back simp: bb.ledger_give_back)

lemma budget_reachable_ledger:
  assumes "limit \<le> U64_MAX"
  shows "budget_reachable limit s \<Longrightarrow> bb.ledger (fst s) (snd s) \<and> bb_limit (fst s) = limit"
proof (induction rule: budget_reachable.induct)
  case start
  show ?case using assms budget_new_ledger by (simp add: budget_new_def)
next
  case (step s t)
  then show ?case using budget_step_ledger [of s t] by simp
qed

text \<open>
  C1.  Whatever the owners do concurrently, the byte counter of a budget is exactly the sum of
  the outstanding permits, never exceeds the configured limit, and returns to zero when the
  last permit is dropped: no charge is lost and the wrapping \<^verbatim>\<open>fetch_sub\<close> never wraps.
\<close>

theorem byte_budget_exact:
  assumes "limit \<le> U64_MAX" and "budget_reachable limit (b, ps)"
  shows "bb_used b = sum_list ps \<and> bb_used b \<le> limit \<and> (ps = [] \<longrightarrow> bb_used b = 0)"
proof -
  have "bb.ledger b ps" and "bb_limit b = limit"
    using budget_reachable_ledger [OF assms] by simp_all
  then show ?thesis
    using bb.ledger_bounded [of b ps] by (simp add: bb.ledger_def)
qed

theorem byte_budget_exact_witness:
  "budget_reachable 10 (\<lparr>bb_limit = 10, bb_used = 3\<rparr>, [3]) \<and> bb_used \<lparr>bb_limit = 10, bb_used = 3\<rparr> \<le> 10"
proof -
  have s: "budget_step (budget_new 10, []) (\<lparr>bb_limit = 10, bb_used = 3\<rparr>, [3])"
    by (rule budget_step.granted [where n = 3]) (simp add: reserve_Some budget_new_def max_values)
  have r: "budget_reachable 10 (\<lparr>bb_limit = 10, bb_used = 3\<rparr>, [3])"
    by (rule budget_reachable.step [OF budget_reachable.start s])
  show ?thesis
    using r byte_budget_exact [OF _ r] by (simp add: max_values)
qed

section \<open>Validation facts\<close>

lemma validate_conditions:
  assumes "validate h l = Inr u"
  shows "byte_count_ok (wal_checkpoint_bytes l)" "byte_count_ok (hot_output_bytes l)"
    "byte_count_ok (run_output_bytes l)" "byte_count_ok (metadata_bytes l)"
    "byte_count_ok (control_state_bytes l)"
    "WAL_HEADER_BYTES + WAL_FRAME_BYTES \<le> wal_checkpoint_bytes l"
    "\<exists>x. state_file_bytes l = Inr x" "live_runs l \<noteq> Some 0" "creation_workers l \<noteq> 0"
    "input_queue_commands l \<noteq> 0" "input_turn_commands l \<noteq> 0" "input_turn_bytes l \<noteq> 0"
  using assms
  by (auto simp: validate_def for_each_Inr named_byte_counts_def named_owner_counts_def)

lemma byte_count_ok_bounds: "byte_count_ok n \<Longrightarrow> 0 < n \<and> n \<le> I64_MAX"
  by (auto simp: byte_count_ok_def)

lemma shm_bytes_bound: "shm_bytes l \<le> SHM_BLOCK_BYTES * (2 + wal_bytes l div WAL_FRAME_BYTES div SHM_FRAME_SLOTS)"
proof -
  let ?frames = "saturating_sub (wal_bytes l) WAL_HEADER_BYTES div WAL_FRAME_BYTES"
  let ?more = "saturating_sub ?frames SHM_FIRST_FRAME_SLOTS"
  have "?frames \<le> wal_bytes l div WAL_FRAME_BYTES"
    by (simp add: arith_defs div_le_mono)
  then have "?more div SHM_FRAME_SLOTS \<le> wal_bytes l div WAL_FRAME_BYTES div SHM_FRAME_SLOTS"
    by (intro div_le_mono) (simp add: arith_defs)
  then have "1 + div_ceil ?more SHM_FRAME_SLOTS \<le> 2 + wal_bytes l div WAL_FRAME_BYTES div SHM_FRAME_SLOTS"
    using div_ceil_le [of SHM_FRAME_SLOTS ?more] by (simp add: SHM_FRAME_SLOTS_def)
  then show ?thesis
    unfolding shm_bytes_def Let_def by (metis mult.commute mult_le_mono2)
qed

lemma shm_bytes_fits:
  assumes "wal_bytes l \<le> U64_MAX" shows "shm_bytes l \<le> U64_MAX"
proof -
  have "wal_bytes l div WAL_FRAME_BYTES div SHM_FRAME_SLOTS \<le> U64_MAX div 4120 div 4096"
    using assms by (simp add: resource_consts div_le_mono)
  also have "\<dots> = 1093106705672"
    by (simp add: max_values)
  finally show ?thesis
    using shm_bytes_bound [of l] by (simp add: SHM_BLOCK_BYTES_def max_values)
qed

text \<open>The WAL-index blocks hold a slot for every frame the WAL window can contain.\<close>

definition shm_slots :: "u64 \<Rightarrow> nat" where
  "shm_slots bytes = SHM_FIRST_FRAME_SLOTS + (bytes div SHM_BLOCK_BYTES - 1) * SHM_FRAME_SLOTS"

lemma shm_covers_frames:
  "saturating_sub (wal_bytes l) WAL_HEADER_BYTES div WAL_FRAME_BYTES \<le> shm_slots (shm_bytes l)"
proof -
  let ?frames = "saturating_sub (wal_bytes l) WAL_HEADER_BYTES div WAL_FRAME_BYTES"
  have "?frames - SHM_FIRST_FRAME_SLOTS
      \<le> div_ceil (?frames - SHM_FIRST_FRAME_SLOTS) SHM_FRAME_SLOTS * SHM_FRAME_SLOTS"
    by (rule div_ceil_lower) (simp add: SHM_FRAME_SLOTS_def)
  moreover have "shm_bytes l div SHM_BLOCK_BYTES
      = 1 + div_ceil (?frames - SHM_FIRST_FRAME_SLOTS) SHM_FRAME_SLOTS"
    by (simp add: shm_bytes_def Let_def saturating_sub_def SHM_BLOCK_BYTES_def)
  ultimately show ?thesis
    by (simp add: shm_slots_def)
qed

lemma state_file_bytes_Some:
  "state_file_bytes l = Inr (Some bytes) \<longleftrightarrow>
     (\<exists>database replay. database_bytes l = Some database \<and> durable_replay_bytes l = Some replay \<and>
        bytes = database + 3 * replay + wal_bytes l + shm_bytes l + 1024 * 1024 \<and> bytes \<le> U64_MAX)"
  by (auto simp: state_file_bytes_def wal_bytes_def bind_eq_Some_conv split: option.splits)

text \<open>
  C2.  A validated policy has a storage reservation without overflow: the doubled WAL window and
  the shared-memory index fit 64 bits, the index blocks cover every frame of the window, and
  when both the database and the replay quota are bounded the reservation is exactly database,
  three times the replay quota, WAL, index and the one admitted megabyte.
\<close>

theorem validated_storage_reservation:
  assumes "validate h l = Inr ()"
  shows "wal_bytes l \<le> U64_MAX \<and> shm_bytes l \<le> U64_MAX
     \<and> (wal_bytes l - WAL_HEADER_BYTES) div WAL_FRAME_BYTES \<le> shm_slots (shm_bytes l)
     \<and> (\<forall>database replay. database_bytes l = Some database \<longrightarrow> durable_replay_bytes l = Some replay \<longrightarrow>
          database + 3 * replay + wal_bytes l + shm_bytes l + 1024 * 1024 \<le> U64_MAX \<and>
          state_file_bytes l =
            Inr (Some (database + 3 * replay + wal_bytes l + shm_bytes l + 1024 * 1024)))"
proof -
  have "wal_checkpoint_bytes l \<le> I64_MAX"
    using validate_conditions(1) [OF assms] byte_count_ok_bounds by blast
  then have wal: "wal_bytes l \<le> U64_MAX"
    by (simp add: wal_bytes_def max_values)
  obtain x where x: "state_file_bytes l = Inr x"
    using validate_conditions(7) [OF assms] ..
  have sum: "x = Some (database + 3 * replay + wal_bytes l + shm_bytes l + 1024 * 1024)"
    if "database_bytes l = Some database" "durable_replay_bytes l = Some replay" for database replay
    using x that by (auto simp: state_file_bytes_def wal_bytes_def bind_eq_Some_conv)
  show ?thesis
    using wal shm_bytes_fits [OF wal] shm_covers_frames [of l] x sum state_file_bytes_Some [of l]
    by (auto simp: saturating_sub_def)
qed

definition sample_host :: host where
  "sample_host = \<lparr>max_permits = 2 ^ 61 - 1, deadline_fits = (\<lambda>ms. ms \<le> 2 ^ 62),
     available_parallelism = Some 16, envelope_bytes = 64\<rparr>"

lemmas validate_eval = validate_def named_byte_counts_def named_quotas_def named_owner_counts_def
  byte_count_ok_def usize_try_from_def require_def validate_diagnostic_limits_def checked_add_def
  checked_mul_def state_file_bytes_def shm_bytes_def wal_bytes_def saturating_sub_def div_ceil_def
  resource_consts max_values sample_host_def

theorem validated_storage_reservation_witness:
  "state_file_bytes (LIMITS_DEFAULT\<lparr>database_bytes := Some 40960, durable_replay_bytes := Some 1000\<rparr>)
     = Inr (Some 17935288)"
proof -
  let ?l = "LIMITS_DEFAULT\<lparr>database_bytes := Some 40960, durable_replay_bytes := Some 1000\<rparr>"
  have "validate sample_host ?l = Inr ()"
    by (simp add: LIMITS_DEFAULT_def validate_eval)
  from validated_storage_reservation [OF this] show ?thesis
    by (simp add: LIMITS_DEFAULT_def wal_bytes_def shm_bytes_def saturating_sub_def div_ceil_def
        resource_consts)
qed

section \<open>Resolution facts\<close>

lemma apply_explicit [simp]: "apply_config (explicit_config l) d = l"
  by (simp add: apply_config_def explicit_config_def)

text \<open>
  C3.  A resolved snapshot is a fixed point: start-up choices that spell out every field of a
  valid policy resolve to that very policy on any host whose default exists.  In particular an
  explicit \<^verbatim>\<open>null\<close> per-Run quota survives the round trip instead of being re-derived.
\<close>

theorem resolve_explicit_roundtrip:
  assumes "default_limits h = Inr d" and "validate h l = Inr ()"
  shows "resolve h (explicit_config l) = Inr l"
proof -
  have "cfg_run_output_bytes (explicit_config l) = Some (run_output_bytes l)"
    "cfg_durable_run_output_bytes (explicit_config l) = Some (durable_run_output_bytes l)"
    "cfg_foreground_observation_bytes (explicit_config l) = Some (foreground_observation_bytes l)"
    by (simp_all add: explicit_config_def)
  with assms show ?thesis
    by (simp add: resolve_def derive_defs)
qed

theorem resolve_explicit_roundtrip_witness:
  "resolve sample_host
     (explicit_config (LIMITS_DEFAULT\<lparr>durable_replay_bytes := Some 4096, durable_run_output_bytes := None\<rparr>))
   = Inr (LIMITS_DEFAULT\<lparr>durable_replay_bytes := Some 4096, durable_run_output_bytes := None\<rparr>)"
proof -
  let ?l = "LIMITS_DEFAULT\<lparr>durable_replay_bytes := Some 4096, durable_run_output_bytes := None\<rparr>"
  have d: "default_limits sample_host = Inr (LIMITS_DEFAULT\<lparr>foreground_observation_workers := 4,
      foreground_observation_bytes := 4194304\<rparr>)"
    by (simp add: default_limits_def sample_host_def observation_bytes_def checked_mul_def
        resource_consts max_values)
  have "validate sample_host ?l = Inr ()"
    by (simp add: LIMITS_DEFAULT_def validate_eval)
  then show ?thesis
    by (rule resolve_explicit_roundtrip [OF d])
qed

lemma apply_config_idem:
  "apply_config c (apply_config c d) = apply_config c d"
  by (simp add: apply_config_def)

lemma apply_config_unchosen:
  "cfg_run_output_bytes c = None \<Longrightarrow>
     apply_config c (l\<lparr>run_output_bytes := n\<rparr>) = (apply_config c l)\<lparr>run_output_bytes := n\<rparr>"
  "cfg_durable_run_output_bytes c = None \<Longrightarrow>
     apply_config c (l\<lparr>durable_run_output_bytes := q\<rparr>) = (apply_config c l)\<lparr>durable_run_output_bytes := q\<rparr>"
  "cfg_foreground_observation_bytes c = None \<Longrightarrow>
     apply_config c (l\<lparr>foreground_observation_bytes := n\<rparr>)
       = (apply_config c l)\<lparr>foreground_observation_bytes := n\<rparr>"
  by (simp_all add: apply_config_def)

text \<open>
  C4.  Resolution yields only validated policies, keeps every explicit choice (re-applying the
  choices changes nothing), and derives each omitted per-owner quota from its aggregate: the
  per-Run replay allowance from the hot allowance, the durable per-Run quota from the durable
  replay quota, and the observation memory as one maximal frame per observation worker.
\<close>

theorem resolve_result:
  assumes "resolve h c = Inr l"
  shows "validate h l = Inr () \<and> apply_config c l = l
    \<and> (cfg_run_output_bytes c = None \<longrightarrow> run_output_bytes l = hot_output_bytes l)
    \<and> (cfg_durable_run_output_bytes c = None \<longrightarrow> durable_run_output_bytes l = durable_replay_bytes l)
    \<and> (cfg_foreground_observation_bytes c = None \<longrightarrow>
         foreground_observation_bytes l = foreground_observation_workers l * MAX_FRAME_BYTES)"
proof -
  obtain d l1 where l1: "derive_run_output c (apply_config c d) = Inr l1"
    and l: "derive_observation c (derive_durable_run_output c l1) = Inr l"
    and v: "validate h l = Inr ()"
    using assms unfolding resolve_def by auto
  have s1: "apply_config c l1 = l1 \<and> (cfg_run_output_bytes c = None \<longrightarrow> run_output_bytes l1 = hot_output_bytes l1)"
    using l1 by (cases "cfg_run_output_bytes c")
       (auto simp: derive_run_output_def usize_try_from_def apply_config_idem apply_config_unchosen
             split: if_splits)
  define l2 where "l2 = derive_durable_run_output c l1"
  have s2: "apply_config c l2 = l2 \<and> run_output_bytes l2 = run_output_bytes l1
      \<and> hot_output_bytes l2 = hot_output_bytes l1
      \<and> (cfg_durable_run_output_bytes c = None \<longrightarrow> durable_run_output_bytes l2 = durable_replay_bytes l2)"
    using s1 by (cases "cfg_durable_run_output_bytes c")
       (auto simp: l2_def derive_durable_run_output_def apply_config_unchosen)
  show ?thesis
    using s1 s2 l v by (cases "cfg_foreground_observation_bytes c")
       (auto simp: l2_def [symmetric] derive_observation_def observation_bytes_def apply_config_unchosen)
qed

lemma default_limits_wide:
  assumes "available_parallelism h = Some cpus" "cpus \<le> 2 ^ 40"
  shows "default_limits h = Inr (LIMITS_DEFAULT\<lparr>foreground_observation_workers := max (cpus div 4) 1,
      foreground_observation_bytes := max (cpus div 4) 1 * MAX_FRAME_BYTES\<rparr>)"
proof -
  have "max (cpus div 4) 1 * MAX_FRAME_BYTES \<le> U64_MAX"
    using assms(2) by (auto simp: max_def resource_consts max_values)
  then show ?thesis
    using assms(1) by (simp add: default_limits_def observation_bytes_def Let_def ok_or_def split: option.splits)
qed

text \<open>
  The defaults are always acceptable: with no configuration at all, every host with up to
  \<open>2 ^ 40\<close> logical CPUs, semaphores of at least that width, representable sub-second deadlines and
  a diagnostic envelope under a megabyte resolves, and its observation memory follows the CPU count.
\<close>

theorem resolve_defaults:
  assumes "available_parallelism h = Some cpus" "cpus \<le> 2 ^ 40" "2 ^ 40 \<le> max_permits h"
    and "deadline_fits h 250" "deadline_fits h 1000" "envelope_bytes h \<le> 1024 * 1024"
  shows "resolve h empty_config
    = Inr (LIMITS_DEFAULT\<lparr>foreground_observation_workers := max (cpus div 4) 1,
        foreground_observation_bytes := max (cpus div 4) 1 * MAX_FRAME_BYTES\<rparr>)"
proof -
  define w where "w = max (cpus div 4) 1"
  let ?l = "LIMITS_DEFAULT\<lparr>foreground_observation_workers := w,
        foreground_observation_bytes := w * MAX_FRAME_BYTES\<rparr>"
  have w: "w \<noteq> 0" "w \<le> max_permits h" "w \<le> 2 ^ 40"
    using assms(2,3) by (auto simp: max_def w_def)
  have v: "validate h ?l = Inr ()"
    using w assms(3-6)
    by (simp add: LIMITS_DEFAULT_def validate_def named_byte_counts_def named_quotas_def
        named_owner_counts_def byte_count_ok_def usize_try_from_def require_def
        validate_diagnostic_limits_def checked_add_def checked_mul_def state_file_bytes_def
        shm_bytes_def wal_bytes_def saturating_sub_def div_ceil_def resource_consts max_values)
  have a: "apply_config empty_config ?l = ?l"
    by (simp add: apply_config_def empty_config_def)
  have o: "observation_bytes w = Inr (w * MAX_FRAME_BYTES)"
    using w by (simp add: observation_bytes_def resource_consts max_values ok_or_def split: option.splits)
  have d: "derive_run_output empty_config ?l = Inr ?l" "derive_durable_run_output empty_config ?l = ?l"
    "derive_observation empty_config ?l = Inr ?l"
    using o by (simp_all add: derive_defs empty_config_def LIMITS_DEFAULT_def usize_try_from_def
        resource_consts max_values)
  have "default_limits h = Inr ?l"
    unfolding w_def by (rule default_limits_wide [OF assms(1,2)])
  then have "resolve h empty_config = Inr ?l"
    using v by (simp add: resolve_def a d)
  then show ?thesis
    unfolding w_def .
qed

theorem resolve_defaults_example:
  "resolve sample_host empty_config
    = Inr (LIMITS_DEFAULT\<lparr>foreground_observation_workers := 4,
        foreground_observation_bytes := 4194304\<rparr>)"
  using resolve_defaults [of sample_host 16] by (simp add: sample_host_def MAX_FRAME_BYTES_def)

theorem resolve_result_witness:
  "run_output_bytes (LIMITS_DEFAULT\<lparr>foreground_observation_workers := 4,
        foreground_observation_bytes := 4194304\<rparr>) = 1073741824
   \<and> resolve sample_host empty_config
    = Inr (LIMITS_DEFAULT\<lparr>foreground_observation_workers := 4,
        foreground_observation_bytes := 4194304\<rparr>)"
proof -
  let ?l = "LIMITS_DEFAULT\<lparr>foreground_observation_workers := 4, foreground_observation_bytes := 4194304\<rparr>"
  have r: "resolve sample_host empty_config = Inr ?l"
    by (simp add: resolve_def default_limits_def LIMITS_DEFAULT_def validate_eval empty_config_def
        apply_config_def observation_bytes_def derive_defs)
  show ?thesis
    using r resolve_result [OF r] by (simp add: LIMITS_DEFAULT_def resource_consts empty_config_def)
qed

end
