(* ===== verification/Fd_Budget.thy ===== *)
theory Fd_Budget
  imports Resources
begin

text \<open>
  Host descriptor admission, \<^verbatim>\<open>crates/ctxmux-daemon/src/fd_budget.rs\<close>.

  A resource limit is \<open>u64 option\<close>, \<open>None\<close> being unlimited.  The kernel's \<^verbatim>\<open>setrlimit\<close> is
  the parameter \<open>setrlimit\<close>: from the limits in force and the limits requested it gives whether
  the call succeeded and the limits in force afterwards, which is what the second
  \<^verbatim>\<open>getrlimit\<close> reads.  \<open>owner_bytes\<close> stands for \<^verbatim>\<open>resident_run_owner_bytes()\<close>, a
  sum of \<^verbatim>\<open>size_of\<close> values.
\<close>

definition FDS_PER_RUN :: nat where "FDS_PER_RUN = 3"
definition FD_BASELINE :: nat where "FD_BASELINE = 16"
definition FD_ATTACHMENT_HEADROOM :: nat where "FD_ATTACHMENT_HEADROOM = 64"

lemmas fd_consts = FDS_PER_RUN_def FD_BASELINE_def FD_ATTACHMENT_HEADROOM_def

record rlimit =
  current :: "u64 option"
  maximum :: "u64 option"

record fd_budget_outcome =
  provisioned_runs :: usize
  provisioned_fds :: u64
  effective_soft :: "u64 option"
  run_ceiling :: usize
  raised :: bool
  clamped :: bool
  original_soft :: "u64 option"
  hard_limit :: "u64 option"

definition run_ceiling_with_reserved :: "u64 option \<Rightarrow> usize \<Rightarrow> usize" where
  "run_ceiling_with_reserved soft reserved =
     (case soft of
        None \<Rightarrow> USIZE_MAX
      | Some soft \<Rightarrow>
          (case usize_try_from (saturating_sub soft reserved div FDS_PER_RUN) of
             None \<Rightarrow> USIZE_MAX | Some n \<Rightarrow> n))"

definition provision_runs :: "nat \<Rightarrow> resource_limits \<Rightarrow> usize" where
  "provision_runs owner_bytes resources =
     (case live_runs resources of
        Some n \<Rightarrow> n
      | None \<Rightarrow> max (case usize_try_from (metadata_bytes resources div owner_bytes) of
                        None \<Rightarrow> USIZE_MAX | Some n \<Rightarrow> n) 1)"

definition reserved_descriptors :: "resource_limits \<Rightarrow> usize" where
  "reserved_descriptors resources =
     saturating_add (saturating_add FD_BASELINE FD_ATTACHMENT_HEADROOM)
       (saturating_mul (creation_workers resources) FDS_PER_RUN)"

definition descriptor_budget :: "nat \<Rightarrow> resource_limits \<Rightarrow> u64" where
  "descriptor_budget owner_bytes resources =
     saturating_add (saturating_mul (provision_runs owner_bytes resources) FDS_PER_RUN)
       (reserved_descriptors resources)"

definition desired_soft :: "u64 option \<Rightarrow> u64 \<Rightarrow> u64" where
  "desired_soft hard budget = (case hard of None \<Rightarrow> budget | Some hard \<Rightarrow> min budget hard)"

definition raise_soft ::
  "(rlimit \<Rightarrow> rlimit \<Rightarrow> bool \<times> rlimit) \<Rightarrow> rlimit \<Rightarrow> u64 \<Rightarrow> bool \<times> rlimit" where
  "raise_soft setrlimit limits desired =
     (case current limits of
        None \<Rightarrow> (False, limits)
      | Some soft \<Rightarrow>
          if soft < desired
          then setrlimit limits \<lparr>current = Some desired, maximum = maximum limits\<rparr>
          else (False, limits))"

definition apply_fd_budget ::
  "(rlimit \<Rightarrow> rlimit \<Rightarrow> bool \<times> rlimit) \<Rightarrow> nat \<Rightarrow> rlimit \<Rightarrow> resource_limits
     \<Rightarrow> fd_budget_outcome \<times> rlimit" where
  "apply_fd_budget setrlimit owner_bytes limits resources =
     (let provisioned = provision_runs owner_bytes resources;
          reserved = reserved_descriptors resources;
          budget = descriptor_budget owner_bytes resources;
          desired = desired_soft (maximum limits) budget;
          (raised_now, after) = raise_soft setrlimit limits desired;
          ceiling = min (run_ceiling_with_reserved (current after) reserved)
                      (case live_runs resources of None \<Rightarrow> USIZE_MAX | Some n \<Rightarrow> n)
      in (\<lparr>provisioned_runs = provisioned, provisioned_fds = budget,
           effective_soft = current after, run_ceiling = ceiling, raised = raised_now,
           clamped = ceiling < provisioned, original_soft = current limits,
           hard_limit = maximum limits\<rparr>, after))"

section \<open>Facts\<close>

lemma apply_fd_budget_fields:
  assumes "apply_fd_budget k ob lim res = (out, after)"
  shows "effective_soft out = current after"
    "run_ceiling out = min (run_ceiling_with_reserved (current after) (reserved_descriptors res))
       (case live_runs res of None \<Rightarrow> USIZE_MAX | Some n \<Rightarrow> n)"
    "provisioned_runs out = provision_runs ob res"
    "clamped out \<longleftrightarrow> run_ceiling out < provisioned_runs out"
    "(raised out, after) = raise_soft k lim (desired_soft (maximum lim) (descriptor_budget ob res))"
    "original_soft out = current lim" "hard_limit out = maximum lim"
    "provisioned_fds out = descriptor_budget ob res"
  using assms by (auto simp: apply_fd_budget_def Let_def split: prod.splits)

lemma run_ceiling_funded:
  assumes "soft \<le> U64_MAX"
  shows "run_ceiling_with_reserved (Some soft) reserved * FDS_PER_RUN \<le> soft - reserved"
    "soft - reserved < (run_ceiling_with_reserved (Some soft) reserved + 1) * FDS_PER_RUN"
proof -
  have "(soft - reserved) div 3 \<le> USIZE_MAX"
    using assms by (simp add: max_values)
  then have e: "run_ceiling_with_reserved (Some soft) reserved = (soft - reserved) div 3"
    by (simp add: run_ceiling_with_reserved_def arith_defs FDS_PER_RUN_def)
  show "run_ceiling_with_reserved (Some soft) reserved * FDS_PER_RUN \<le> soft - reserved"
    unfolding e FDS_PER_RUN_def by linarith
  show "soft - reserved < (run_ceiling_with_reserved (Some soft) reserved + 1) * FDS_PER_RUN"
    unfolding e FDS_PER_RUN_def by presburger
qed


text \<open>
  The documented behaviour of \<^verbatim>\<open>setrlimit\<close> for a request within the hard limit: it
  succeeds and the requested limits are in force.
\<close>

definition grants_within_hard :: "(rlimit \<Rightarrow> rlimit \<Rightarrow> bool \<times> rlimit) \<Rightarrow> bool" where
  "grants_within_hard setrlimit \<longleftrightarrow>
     (\<forall>lim req soft. current req = Some soft \<longrightarrow> maximum req = maximum lim \<longrightarrow>
        (case maximum lim of None \<Rightarrow> True | Some hard \<Rightarrow> soft \<le> hard) \<longrightarrow>
        setrlimit lim req = (True, req))"

lemma desired_soft_within: "case hard of None \<Rightarrow> True | Some h \<Rightarrow> desired_soft hard budget \<le> h"
  by (cases hard) (simp_all add: desired_soft_def)

lemma raise_soft_granted:
  assumes "grants_within_hard k"
  shows "raise_soft k lim (desired_soft (maximum lim) budget) =
     (case current lim of
        None \<Rightarrow> (False, lim)
      | Some soft \<Rightarrow>
          if soft < desired_soft (maximum lim) budget
          then (True, \<lparr>current = Some (desired_soft (maximum lim) budget), maximum = maximum lim\<rparr>)
          else (False, lim))"
proof -
  have "k lim \<lparr>current = Some (desired_soft (maximum lim) budget), maximum = maximum lim\<rparr>
      = (True, \<lparr>current = Some (desired_soft (maximum lim) budget), maximum = maximum lim\<rparr>)"
    using assms desired_soft_within [of "maximum lim" budget] unfolding grants_within_hard_def by auto
  then show ?thesis
    by (simp add: raise_soft_def split: option.splits)
qed

lemma raise_soft_idle:
  "(case current lim of None \<Rightarrow> True | Some soft \<Rightarrow> desired \<le> soft) \<Longrightarrow>
     raise_soft k lim desired = (False, lim)"
  by (auto simp: raise_soft_def split: option.splits)

text \<open>
  Start-up only ever raises: on a kernel that grants requests within the hard limit the hard
  limit is untouched, the soft limit never falls and reaches the desired value (the budget, capped by
  the hard limit); and the re-executed image, which inherits the raised limit, changes nothing and
  computes the same ceiling.
\<close>

theorem fd_budget_raise_only:
  assumes "grants_within_hard setrlimit"
    and "apply_fd_budget setrlimit owner_bytes limits resources = (out, after)"
  shows "maximum after = maximum limits
    \<and> (\<forall>s. current limits = Some s \<longrightarrow> (\<exists>s'. current after = Some s' \<and> s \<le> s' \<and>
          desired_soft (maximum limits) (descriptor_budget owner_bytes resources) \<le> s'))
    \<and> snd (apply_fd_budget setrlimit owner_bytes after resources) = after
    \<and> \<not> raised (fst (apply_fd_budget setrlimit owner_bytes after resources))
    \<and> run_ceiling (fst (apply_fd_budget setrlimit owner_bytes after resources)) = run_ceiling out"
proof -
  let ?d = "desired_soft (maximum limits) (descriptor_budget owner_bytes resources)"
  have r: "(raised out, after) = (case current limits of
        None \<Rightarrow> (False, limits)
      | Some soft \<Rightarrow> if soft < ?d then (True, \<lparr>current = Some ?d, maximum = maximum limits\<rparr>)
          else (False, limits))"
    using apply_fd_budget_fields(5) [OF assms(2)] raise_soft_granted [OF assms(1)] by simp
  have m: "maximum after = maximum limits"
    using r by (auto split: option.splits if_splits)
  have s: "\<exists>s'. current after = Some s' \<and> s \<le> s' \<and> ?d \<le> s'" if "current limits = Some s" for s
    using r that by (auto split: if_splits)
  obtain out2 after2 where two: "apply_fd_budget setrlimit owner_bytes after resources = (out2, after2)"
    by (cases "apply_fd_budget setrlimit owner_bytes after resources") auto
  have "case current after of None \<Rightarrow> True | Some soft \<Rightarrow> ?d \<le> soft"
    using r by (auto split: option.splits if_splits)
  then have again: "raised out2 = False" "after2 = after"
    using apply_fd_budget_fields(5) [OF two] raise_soft_idle [where lim = after and desired = ?d and k = setrlimit] m
    by simp_all
  have "run_ceiling out2 = run_ceiling out"
    using apply_fd_budget_fields(2) [OF two] apply_fd_budget_fields(2) [OF assms(2)] again by simp
  then show ?thesis
    using m s two again by auto
qed

lemma granting_kernel: "grants_within_hard (\<lambda>lim req. (True, req))"
  by (simp add: grants_within_hard_def)


theorem fd_budget_raise_only_example:
  "maximum (snd (apply_fd_budget (\<lambda>lim req. (True, req)) 1000
      \<lparr>current = Some 256, maximum = Some 404\<rparr> LIMITS_DEFAULT)) = Some 404"
  using fd_budget_raise_only [OF granting_kernel, of 1000 "\<lparr>current = Some 256, maximum = Some 404\<rparr>"
      LIMITS_DEFAULT] prod.collapse by (metis rlimit.select_convs(2))

end
