(* ===== verification/Protocol_Types.thy ===== *)
theory Protocol_Types
  imports Prelude
begin

text \<open>
  Wire data of \<^verbatim>\<open>crates/ctxmux-protocol/src/lib.rs\<close> that several owners share: output
  ranges and replays, terminal geometry and checkpoints, gap causes, service snapshots and
  Run events.  Identities (Run ids, keys) are opaque ordered values, modelled as \<open>nat\<close>;
  records keep the field names of the source.
\<close>

type_synonym run_id = nat

record output_chunk =
  start_byte :: u64
  end_byte :: u64
  chunk_data :: "byte list"

record output_replay =
  rp_chunks :: "output_chunk list"
  rp_first_available_byte :: u64
  rp_latest_output_bytes :: u64
  rp_truncated :: bool

text \<open>A chunk is a half-open byte range that carries exactly its bytes.\<close>

definition chunk_ok :: "output_chunk \<Rightarrow> bool" where
  "chunk_ok c \<longleftrightarrow> end_byte c = start_byte c + length (chunk_data c) \<and> chunk_data c \<noteq> []"

text \<open>Consecutive chunks that start at \<open>b\<close>: each begins where its predecessor ends.\<close>

fun contiguous :: "u64 \<Rightarrow> output_chunk list \<Rightarrow> bool" where
  "contiguous b [] = True"
| "contiguous b (c # cs) = (start_byte c = b \<and> chunk_ok c \<and> contiguous (end_byte c) cs)"

fun chunks_end :: "u64 \<Rightarrow> output_chunk list \<Rightarrow> u64" where
  "chunks_end b [] = b"
| "chunks_end b (c # cs) = chunks_end (end_byte c) cs"

definition chunk_bytes :: "output_chunk list \<Rightarrow> byte list" where
  "chunk_bytes cs = concat (map chunk_data cs)"

lemma chunk_bytes_simps [simp]:
  "chunk_bytes [] = []" "chunk_bytes (c # cs) = chunk_data c @ chunk_bytes cs"
  "chunk_bytes (cs @ ds) = chunk_bytes cs @ chunk_bytes ds"
  by (simp_all add: chunk_bytes_def)

lemma contiguous_append [simp]:
  "contiguous b (cs @ ds) \<longleftrightarrow> contiguous b cs \<and> contiguous (chunks_end b cs) ds"
  by (induction cs arbitrary: b) auto

lemma chunks_end_append [simp]: "chunks_end b (cs @ ds) = chunks_end (chunks_end b cs) ds"
  by (induction cs arbitrary: b) auto

lemma contiguous_end: "contiguous b cs \<Longrightarrow> chunks_end b cs = b + length (chunk_bytes cs)"
  by (induction cs arbitrary: b) (auto simp: chunk_ok_def)

lemma contiguous_le: "contiguous b cs \<Longrightarrow> b \<le> chunks_end b cs"
  by (simp add: contiguous_end)

record terminal_size =
  rows :: nat
  cols :: nat

record terminal_resize =
  tr_through_byte :: u64
  tr_resize_revision :: u64
  tr_size :: terminal_size

record terminal_checkpoint_header =
  cp_run_id :: run_id
  cp_through_byte :: u64
  cp_resize_revision :: u64
  cp_size :: terminal_size
  cp_restore_size :: terminal_size
  cp_restore_scrollback_rows :: "u64 option"
  cp_resize_after_restore_bytes :: u64
  cp_restore_bytes :: u64

datatype unavailable_reason =
  OriginUnknown | SourceGap | TailEvicted | CheckpointTooLarge | InvalidCheckpoint

datatype terminal_continuation =
    NotRequested
  | BasicVt terminal_checkpoint_header "terminal_resize list"
  | ContinuationUnknown unavailable_reason
  | ContinuationUnavailable unavailable_reason

datatype fault_stage = StageProcess | StageResize | StageExport | StageRecovery

record native_terminal_fault =
  fault_at :: fault_stage
  fault_through_byte :: u64

section \<open>Service snapshots\<close>

datatype owner_io_stage = Poll | WakeDrain

datatype service_failure =
    OwnerStopped
  | OwnerUnwound
  | OwnerIoFailed owner_io_stage "int option"
  | ReadFailed
  | WriteFailed
  | Historical
  | ControlClosed

datatype owner_status =
  OwnerStarting | OwnerServing | OwnerDraining | OwnerStoppedWith service_failure

datatype output_status =
  OutPending | OutServing | OutBackpressured | OutClosed | OutUnavailable service_failure

datatype input_phase = InOpen | InClosed | InUnavailable service_failure

record input_status =
  in_phase :: input_phase
  unsettled_commands :: usize
  unsettled_request_bytes :: usize
  write_blocked :: bool
  completed_input_bytes :: "u64 option"
  current_size :: "terminal_size option"
  active_confirmed_bytes :: usize

record service_snapshot =
  sv_revision :: u64
  sv_owner :: owner_status
  sv_output :: output_status
  sv_input :: input_status
  sv_terminal_fault :: "native_terminal_fault option"

section \<open>Run events\<close>

datatype interruption_reason =
  DaemonRestart | TmuxServerUnavailable | TmuxProtocolError | TmuxTargetChanged

datatype run_state =
    Running
  | Exited nat "string option"
  | Interrupted interruption_reason

record output_gap_causes =
  live_event_pressure :: bool
  subscriber_lag :: bool
  source_discontinuity :: bool
  terminal_catchup :: bool
  geometry_lag :: bool
  client_view_pressure :: bool
  unknown_cause :: bool

definition CAUSES_NONE :: output_gap_causes where
  "CAUSES_NONE = \<lparr>live_event_pressure = False, subscriber_lag = False, source_discontinuity = False,
     terminal_catchup = False, geometry_lag = False, client_view_pressure = False, unknown_cause = False\<rparr>"

definition CAUSES_LIVE_EVENT_PRESSURE :: output_gap_causes where
  "CAUSES_LIVE_EVENT_PRESSURE = CAUSES_NONE\<lparr>live_event_pressure := True\<rparr>"

datatype tmux_run_event = SessionRenamed "byte list" | Paused | Continued

datatype run_event =
    EvOutput output_chunk
  | EvServiceChanged service_snapshot
  | EvResized terminal_size u64 u64
  | EvExited run_state
  | EvInterrupted interruption_reason
  | EvTmux tmux_run_event
  | EvObservationDiscontinuity
  | EvGap u64 output_gap_causes

section \<open>Errors and control outcomes\<close>

datatype error_code =
  VersionMismatch | InvalidRequest | RunNotFound | InvalidRunState | SpawnFailed | IoError | PersistenceError
  | BackendUnavailable | UnsupportedBackendVersion | UnsupportedCapability | TargetChanged | CreationConflict
  | InputOperationConflict | StopOperationConflict | InputCursorMismatch | DaemonInstanceMismatch | RunCapacity
  | ControlBackpressure | ResponseTooLarge | InternalError

record protocol_error =
  pe_code :: error_code
  pe_message :: string

datatype disposition = NotApplied | DispositionUnknown

record control_failure =
  cf_error :: protocol_error
  cf_disposition :: disposition
  cf_confirmed_input_bytes :: "usize option"

record applied_range =
  ar_start :: u64
  ar_end :: u64

section \<open>Operation keys\<close>

text \<open>Input, Stop and creation keys share one check at their own bound; a key is its UTF-8 bytes.\<close>

datatype key_error = KeyEmpty | KeyTooLong usize usize

definition operation_key_validate :: "usize \<Rightarrow> string \<Rightarrow> key_error + unit" where
  "operation_key_validate maximum key =
     (if length key = 0 then Inl KeyEmpty
      else if length key > maximum then Inl (KeyTooLong (length key) maximum) else Inr ())"

definition MAX_INPUT_OPERATION_KEY_BYTES :: usize where
  "MAX_INPUT_OPERATION_KEY_BYTES = 128"

end
