(* ===== verification/Terminal_Model.thy ===== *)
theory Terminal_Model
  imports Protocol_Types
begin

text \<open>
  The derived terminal model, \<^verbatim>\<open>crates/ctxmux-daemon/src/terminal_checkpoint.rs\<close>.

  The VT emulator (the vendored \<^verbatim>\<open>vt100\<close> parser) is the parameter record \<open>vt_parser\<close> over an
  abstract screen type \<open>'p\<close>; each of its mutators returns \<open>None\<close> when it unwinds, which
  \<^verbatim>\<open>derive_terminal\<close> catches.  Its \<^verbatim>\<open>process\<close> is the byte loop of
  \<^verbatim>\<open>third_party/vt100/src/parser.rs\<close> over \<open>vt_advance\<close>.  A function of the model that
  may unwind is therefore in the option monad; \<^verbatim>\<open>recover\<close>, whose caller flattens both an
  unwind and its own refusal, has one \<open>None\<close> for both.
\<close>

record geometry_seed =
  seed_source_rows :: nat
  seed_source_cols :: nat
  seed_rows :: nat
  seed_cols :: nat
  seed_restore_bytes :: "byte list"
  seed_final_bytes :: "byte list"
  seed_scrollback_rows :: "nat option"

record 'p vt_parser =
  vt_new :: "nat \<Rightarrow> nat \<Rightarrow> nat \<Rightarrow> 'p option"
  vt_advance :: "'p \<Rightarrow> byte \<Rightarrow> 'p option"
  vt_set_size :: "'p \<Rightarrow> nat \<Rightarrow> nat \<Rightarrow> 'p option"
  vt_size :: "'p \<Rightarrow> nat \<times> nat"
  vt_is_ground :: "'p \<Rightarrow> bool"
  vt_set_scrollback_limit :: "'p \<Rightarrow> nat \<Rightarrow> 'p option"
  vt_geometry :: "'p \<Rightarrow> geometry_seed option"

fun vt_process :: "'p vt_parser \<Rightarrow> 'p \<Rightarrow> byte list \<Rightarrow> 'p option" where
  "vt_process vt p [] = Some p"
| "vt_process vt p (b # bs) = Option.bind (vt_advance vt p b) (\<lambda>q. vt_process vt q bs)"

text \<open>\<^verbatim>\<open>basic_restore_geometry_checkpoint\<close>: the outer \<open>None\<close> is an unwind of the
  export, the inner one a parser in the middle of a control sequence.\<close>

definition vt_geometry_checkpoint :: "'p vt_parser \<Rightarrow> 'p \<Rightarrow> geometry_seed option option" where
  "vt_geometry_checkpoint vt p =
     (if vt_is_ground vt p then map_option Some (vt_geometry vt p) else Some None)"

definition HISTORY_ROWS :: nat where "HISTORY_ROWS = 10000"
definition MAX_RESTORE_BYTES :: nat where "MAX_RESTORE_BYTES = 32 * 1024 * 1024"
definition MAX_RESIZE_TAIL :: nat where "MAX_RESIZE_TAIL = 1024"

record stored_checkpoint =
  sc_checkpoint :: terminal_checkpoint_header
  sc_restore :: "byte list"
  sc_resizes :: "terminal_resize list"

record 'p terminal_model =
  tm_parser :: 'p
  tm_checkpoint :: "stored_checkpoint option"
  tm_resize_revision :: u64
  tm_geometry_valid :: bool

definition stored_of_seed :: "run_id \<Rightarrow> u64 \<Rightarrow> u64 \<Rightarrow> geometry_seed \<Rightarrow> stored_checkpoint" where
  "stored_of_seed rid through_byte revision seed =
     (let restore = seed_restore_bytes seed @ seed_final_bytes seed in
      \<lparr>sc_checkpoint = \<lparr>cp_run_id = rid, cp_through_byte = through_byte, cp_resize_revision = revision,
          cp_size = \<lparr>rows = seed_source_rows seed, cols = seed_source_cols seed\<rparr>,
          cp_restore_size = \<lparr>rows = seed_rows seed, cols = seed_cols seed\<rparr>,
          cp_restore_scrollback_rows = seed_scrollback_rows seed,
          cp_resize_after_restore_bytes = length (seed_restore_bytes seed),
          cp_restore_bytes = length restore\<rparr>,
        sc_restore = restore, sc_resizes = []\<rparr>)"

definition tm_cut :: "'p vt_parser \<Rightarrow> run_id \<Rightarrow> u64 \<Rightarrow> 'p terminal_model \<Rightarrow> (bool \<times> 'p terminal_model) option" where
  "tm_cut vt rid through_byte m =
     Option.bind (vt_geometry_checkpoint vt (tm_parser m)) (\<lambda>exported.
       case exported of
         None \<Rightarrow> Some (False, m)
       | Some seed \<Rightarrow>
           (case checked_add (length (seed_restore_bytes seed)) (length (seed_final_bytes seed)) of
              None \<Rightarrow> Some (False, m)
            | Some bytes \<Rightarrow>
                if bytes > MAX_RESTORE_BYTES then Some (False, m)
                else Some (True,
                  m\<lparr>tm_checkpoint := Some (stored_of_seed rid through_byte (tm_resize_revision m) seed),
                    tm_geometry_valid := True\<rparr>)))"

definition tm_new :: "'p vt_parser \<Rightarrow> run_id \<Rightarrow> terminal_size \<Rightarrow> 'p terminal_model option" where
  "tm_new vt rid sz =
     Option.bind (vt_new vt (rows sz) (cols sz) HISTORY_ROWS) (\<lambda>p.
       map_option snd (tm_cut vt rid 0
         \<lparr>tm_parser = p, tm_checkpoint = None, tm_resize_revision = 0, tm_geometry_valid = True\<rparr>))"

definition tm_process :: "'p vt_parser \<Rightarrow> byte list \<Rightarrow> 'p terminal_model \<Rightarrow> 'p terminal_model option" where
  "tm_process vt data m = map_option (\<lambda>p. m\<lparr>tm_parser := p\<rparr>) (vt_process vt (tm_parser m) data)"

definition tm_terminal_size :: "'p vt_parser \<Rightarrow> 'p terminal_model \<Rightarrow> terminal_size" where
  "tm_terminal_size vt m =
     (let (r, c) = vt_size vt (tm_parser m) in \<lparr>rows = r, cols = c\<rparr>)"

definition tm_resize ::
  "'p vt_parser \<Rightarrow> terminal_size \<Rightarrow> u64 \<Rightarrow> 'p terminal_model \<Rightarrow> (terminal_resize \<times> 'p terminal_model) option" where
  "tm_resize vt sz through_byte m =
     (let revision = tm_resize_revision m + 1;
          resize = \<lparr>tr_through_byte = through_byte, tr_resize_revision = revision, tr_size = sz\<rparr>
      in map_option (\<lambda>p.
           let m = m\<lparr>tm_parser := p, tm_resize_revision := revision\<rparr> in
           (resize,
            case tm_checkpoint m of
              None \<Rightarrow> m
            | Some cp \<Rightarrow>
                if length (sc_resizes cp) = MAX_RESIZE_TAIL
                then m\<lparr>tm_geometry_valid := False\<rparr>
                else m\<lparr>tm_checkpoint := Some (cp\<lparr>sc_resizes := sc_resizes cp @ [resize]\<rparr>)\<rparr>))
         (vt_set_size vt (tm_parser m) (rows sz) (cols sz)))"

definition tm_retention_cut ::
  "'p vt_parser \<Rightarrow> run_id \<Rightarrow> u64 \<Rightarrow> u64 \<Rightarrow> 'p terminal_model \<Rightarrow> (bool \<times> 'p terminal_model) option" where
  "tm_retention_cut vt rid first latest m =
     (if (case tm_checkpoint m of None \<Rightarrow> True | Some c \<Rightarrow> cp_through_byte (sc_checkpoint c) < first)
      then tm_cut vt rid latest m else Some (False, m))"

definition tm_continuation ::
  "'p vt_parser \<Rightarrow> run_id \<Rightarrow> u64 \<Rightarrow> u64 \<Rightarrow> 'p terminal_model
     \<Rightarrow> ((terminal_continuation \<times> byte list) \<times> 'p terminal_model) option" where
  "tm_continuation vt rid first latest m =
     map_option (\<lambda>(_, m).
       (case tm_checkpoint m of
          None \<Rightarrow> (ContinuationUnavailable CheckpointTooLarge, [])
        | Some saved \<Rightarrow>
            if \<not> tm_geometry_valid m then (ContinuationUnavailable InvalidCheckpoint, [])
            else if cp_through_byte (sc_checkpoint saved) < first
            then (ContinuationUnavailable TailEvicted, [])
            else (BasicVt (sc_checkpoint saved) (sc_resizes saved), sc_restore saved), m))
       (tm_cut vt rid latest m)"

definition tm_stored :: "'p terminal_model \<Rightarrow> stored_checkpoint option" where
  "tm_stored m = (if tm_geometry_valid m then tm_checkpoint m else None)"

section \<open>Recovery from a stored checkpoint\<close>

text \<open>The header checks of \<^verbatim>\<open>recover\<close>.\<close>

definition header_acceptable :: "run_id \<Rightarrow> stored_checkpoint \<Rightarrow> output_replay \<Rightarrow> bool" where
  "header_acceptable rid saved replay \<longleftrightarrow>
     (let cp = sc_checkpoint saved in
      \<not> (cp_run_id cp \<noteq> rid
         \<or> rows (cp_size cp) = 0 \<or> cols (cp_size cp) = 0
         \<or> rows (cp_restore_size cp) = 0 \<or> cols (cp_restore_size cp) = 0
         \<or> cp_resize_after_restore_bytes cp > cp_restore_bytes cp
         \<or> cp_restore_bytes cp \<noteq> length (sc_restore saved)
         \<or> length (sc_restore saved) > MAX_RESTORE_BYTES
         \<or> cp_through_byte cp < rp_first_available_byte replay
         \<or> cp_through_byte cp > rp_latest_output_bytes replay
         \<or> length (sc_resizes saved) > MAX_RESIZE_TAIL))"

text \<open>One acknowledged resize: next revision, non-empty geometry, applied to the screen.\<close>

definition apply_resize :: "'p vt_parser \<Rightarrow> terminal_resize \<Rightarrow> 'p \<times> u64 \<Rightarrow> ('p \<times> u64) option" where
  "apply_resize vt r = (\<lambda>(p, revision).
     if tr_resize_revision r \<noteq> revision + 1 \<or> rows (tr_size r) = 0 \<or> cols (tr_size r) = 0 then None
     else map_option (\<lambda>q. (q, tr_resize_revision r))
            (vt_set_size vt p (rows (tr_size r)) (cols (tr_size r))))"

text \<open>The inner \<^verbatim>\<open>while let\<close>: the resizes fenced exactly at the cursor.\<close>

fun resizes_at ::
  "'p vt_parser \<Rightarrow> u64 \<Rightarrow> terminal_resize list \<Rightarrow> 'p \<times> u64 \<Rightarrow> (('p \<times> u64) \<times> terminal_resize list) option" where
  "resizes_at vt cursor [] s = Some (s, [])"
| "resizes_at vt cursor (r # rs) s =
     (if tr_through_byte r = cursor
      then Option.bind (apply_resize vt r s) (resizes_at vt cursor rs)
      else Some (s, r # rs))"

lemma resizes_at_next: "resizes_at vt cursor rs s = Some (s', r # rs') \<Longrightarrow> tr_through_byte r \<noteq> cursor"
  by (induction rs arbitrary: s) (auto simp: bind_eq_Some_conv split: if_splits)

text \<open>\<^verbatim>\<open>data.get(a..b)\<close>\<close>

definition slice_get :: "'a list \<Rightarrow> nat \<Rightarrow> nat \<Rightarrow> 'a list option" where
  "slice_get xs a b = (if a \<le> b \<and> b \<le> length xs then Some (take (b - a) (drop a xs)) else None)"

text \<open>The \<^verbatim>\<open>while cursor < chunk.end_byte\<close> loop; it terminates because every turn first
  consumes the resizes at the cursor, so the next fence lies strictly ahead.\<close>

function feed_chunk ::
  "'p vt_parser \<Rightarrow> output_chunk \<Rightarrow> u64 \<Rightarrow> terminal_resize list \<Rightarrow> 'p \<times> u64
     \<Rightarrow> (u64 \<times> terminal_resize list \<times> ('p \<times> u64)) option" where
  "feed_chunk vt chunk cursor rs s =
     (if cursor < end_byte chunk
      then (case resizes_at vt cursor rs s of
              None \<Rightarrow> None
            | Some ((p, revision), rs') \<Rightarrow>
                (if (case rs' of [] \<Rightarrow> False | r # _ \<Rightarrow> tr_through_byte r < cursor) then None
                 else
                   (let stop = (case rs' of [] \<Rightarrow> end_byte chunk
                                 | r # _ \<Rightarrow> min (tr_through_byte r) (end_byte chunk))
                    in (case slice_get (chunk_data chunk) (cursor - start_byte chunk) (stop - start_byte chunk) of
                          None \<Rightarrow> None
                        | Some data \<Rightarrow>
                            (case vt_process vt p data of
                               None \<Rightarrow> None
                             | Some q \<Rightarrow> feed_chunk vt chunk stop rs' (q, revision))))))
      else Some (cursor, rs, s))"
  by pat_completeness auto
termination
proof (relation "measure (\<lambda>(vt, chunk, cursor, rs, s). end_byte chunk - cursor)", goal_cases)
  case 1
  show ?case by simp
next
  case (2 vt chunk cursor rs s a rs' p revision stop data q)
  then show ?case
    by (auto split: list.splits dest: resizes_at_next)
qed

declare feed_chunk.simps [simp del]

fun feed_chunks ::
  "'p vt_parser \<Rightarrow> output_chunk list \<Rightarrow> u64 \<Rightarrow> terminal_resize list \<Rightarrow> 'p \<times> u64
     \<Rightarrow> (u64 \<times> terminal_resize list \<times> ('p \<times> u64)) option" where
  "feed_chunks vt [] cursor rs s = Some (cursor, rs, s)"
| "feed_chunks vt (chunk # chunks) cursor rs s =
     (if end_byte chunk \<le> cursor then feed_chunks vt chunks cursor rs s
      else if start_byte chunk > cursor then None
      else (case feed_chunk vt chunk cursor rs s of
              None \<Rightarrow> None
            | Some (cursor', rs', s') \<Rightarrow> feed_chunks vt chunks cursor' rs' s'))"

text \<open>The resizes left after the last byte must all be fenced at the head.\<close>

fun final_resizes :: "'p vt_parser \<Rightarrow> u64 \<Rightarrow> terminal_resize list \<Rightarrow> 'p \<times> u64 \<Rightarrow> ('p \<times> u64) option" where
  "final_resizes vt cursor [] s = Some s"
| "final_resizes vt cursor (r # rs) s =
     (if tr_through_byte r \<noteq> cursor then None
      else Option.bind (apply_resize vt r s) (final_resizes vt cursor rs))"

text \<open>Restoring the screen from the two sections of the seed.\<close>

definition restore_seed :: "'p vt_parser \<Rightarrow> stored_checkpoint \<Rightarrow> 'p option" where
  "restore_seed vt saved =
     (let cp = sc_checkpoint saved;
          history = (case cp_restore_scrollback_rows cp of None \<Rightarrow> HISTORY_ROWS | Some n \<Rightarrow> n);
          split = cp_resize_after_restore_bytes cp
      in Option.bind (vt_new vt (rows (cp_restore_size cp)) (cols (cp_restore_size cp)) history) (\<lambda>p0.
         Option.bind (vt_process vt p0 (take split (sc_restore saved))) (\<lambda>p1.
         if \<not> vt_is_ground vt p1 then None else
         Option.bind (vt_set_scrollback_limit vt p1 HISTORY_ROWS) (\<lambda>p2.
         Option.bind (if cp_restore_size cp \<noteq> cp_size cp
                      then vt_set_size vt p2 (rows (cp_size cp)) (cols (cp_size cp)) else Some p2) (\<lambda>p3.
         Option.bind (vt_process vt p3 (drop split (sc_restore saved))) (\<lambda>p4.
         if \<not> vt_is_ground vt p4 then None else Some p4))))))"

definition tm_recover ::
  "'p vt_parser \<Rightarrow> run_id \<Rightarrow> stored_checkpoint \<Rightarrow> output_replay \<Rightarrow> 'p terminal_model option" where
  "tm_recover vt rid saved replay =
     (let cp = sc_checkpoint saved in
      if \<not> header_acceptable rid saved replay then None else
      Option.bind (restore_seed vt saved) (\<lambda>p.
      Option.bind (feed_chunks vt (rp_chunks replay) (cp_through_byte cp) (sc_resizes saved)
                     (p, cp_resize_revision cp)) (\<lambda>(cursor, rs, s).
      if cursor \<noteq> rp_latest_output_bytes replay then None else
      Option.bind (final_resizes vt cursor rs s) (\<lambda>(q, revision).
      Some \<lparr>tm_parser = q, tm_checkpoint = Some saved, tm_resize_revision = revision,
            tm_geometry_valid = True\<rparr>))))"

section \<open>Reference semantics of recovery\<close>

text \<open>
  What the chunked loops compute, byte by byte: before each byte the resizes fenced at its
  offset are applied, after the last byte the remaining ones.
\<close>

fun feed :: "'p vt_parser \<Rightarrow> u64 \<Rightarrow> byte list \<Rightarrow> terminal_resize list \<Rightarrow> 'p \<times> u64 \<Rightarrow> ('p \<times> u64) option" where
  "feed vt c [] rs s = final_resizes vt c rs s"
| "feed vt c (b # bs) rs s =
     (case resizes_at vt c rs s of
        None \<Rightarrow> None
      | Some ((p, revision), rs') \<Rightarrow>
          Option.bind (vt_advance vt p b) (\<lambda>q. feed vt (c + 1) bs rs' (q, revision)))"

text \<open>The live history after a cut: output and acknowledged resizes in their order.\<close>

datatype live_op = LiveBytes "byte list" | LiveResize terminal_size

fun live_run :: "'p vt_parser \<Rightarrow> live_op list \<Rightarrow> u64 \<Rightarrow> 'p terminal_model \<Rightarrow> 'p terminal_model option" where
  "live_run vt [] latest m = Some m"
| "live_run vt (LiveBytes d # ops) latest m =
     Option.bind (tm_process vt d m) (live_run vt ops (latest + length d))"
| "live_run vt (LiveResize sz # ops) latest m =
     Option.bind (tm_resize vt sz latest m) (\<lambda>(_, m'). live_run vt ops latest m')"

fun live_bytes :: "live_op list \<Rightarrow> byte list" where
  "live_bytes [] = []"
| "live_bytes (LiveBytes d # ops) = d @ live_bytes ops"
| "live_bytes (LiveResize _ # ops) = live_bytes ops"

fun live_resizes :: "live_op list \<Rightarrow> u64 \<Rightarrow> u64 \<Rightarrow> terminal_resize list" where
  "live_resizes [] latest revision = []"
| "live_resizes (LiveBytes d # ops) latest revision = live_resizes ops (latest + length d) revision"
| "live_resizes (LiveResize sz # ops) latest revision =
     \<lparr>tr_through_byte = latest, tr_resize_revision = revision + 1, tr_size = sz\<rparr>
       # live_resizes ops latest (revision + 1)"

definition positive_sizes :: "live_op list \<Rightarrow> bool" where
  "positive_sizes ops \<longleftrightarrow> (\<forall>sz. LiveResize sz \<in> set ops \<longrightarrow> 0 < rows sz \<and> 0 < cols sz)"

subsection \<open>The loops implement the reference\<close>

lemma vt_process_append:
  "vt_process vt p (xs @ ys) = Option.bind (vt_process vt p xs) (\<lambda>q. vt_process vt q ys)"
  by (induction xs arbitrary: p) (auto split: Option.bind_splits)

lemma resizes_at_idle:
  "(case rs of [] \<Rightarrow> True | r # _ \<Rightarrow> tr_through_byte r \<noteq> c) \<Longrightarrow> resizes_at vt c rs s = Some (s, rs)"
  by (cases rs) auto

lemma resizes_at_idem:
  "resizes_at vt c rs s = Some (s', rs') \<Longrightarrow> resizes_at vt c rs' s' = Some (s', rs')"
  by (rule resizes_at_idle) (auto split: list.splits dest: resizes_at_next)

lemma feed_resizes_at:
  "resizes_at vt c rs s = Some (s', rs') \<Longrightarrow> feed vt c (b # bs) rs s = feed vt c (b # bs) rs' s'"
  by (simp add: resizes_at_idem)

lemma feed_stuck: "tr_through_byte r < c \<Longrightarrow> feed vt c bs (r # rs) s = None"
  by (induction bs arbitrary: c s) (auto simp: bind_eq_None_conv split: prod.splits)

lemma feed_segment:
  assumes "case rs of [] \<Rightarrow> True | r # _ \<Rightarrow> c + length seg \<le> tr_through_byte r"
  shows "feed vt c (seg @ bs) rs (p, revision) =
    Option.bind (vt_process vt p seg) (\<lambda>q. feed vt (c + length seg) bs rs (q, revision))"
  using assms
proof (induction seg arbitrary: c p)
  case (Cons b seg)
  have "resizes_at vt c rs (p, revision) = Some ((p, revision), rs)"
    using Cons.prems by (intro resizes_at_idle) (auto split: list.splits)
  moreover have "case rs of [] \<Rightarrow> True | r # _ \<Rightarrow> (c + 1) + length seg \<le> tr_through_byte r"
    using Cons.prems by (auto split: list.splits)
  ultimately show ?case
    using Cons.IH [of "c + 1"] by (cases "vt_advance vt p b") simp_all
qed simp

lemma feed_to:
  assumes "case rs of [] \<Rightarrow> True | r # _ \<Rightarrow> stop \<le> tr_through_byte r" "stop = c + length seg"
  shows "feed vt c (seg @ bs) rs (p, revision) =
    Option.bind (vt_process vt p seg) (\<lambda>q. feed vt stop bs rs (q, revision))"
  using assms feed_segment by auto

text \<open>Where one turn of the chunk loop stops.\<close>

definition turn_stop :: "output_chunk \<Rightarrow> terminal_resize list \<Rightarrow> u64" where
  "turn_stop chunk rs = (case rs of [] \<Rightarrow> end_byte chunk | r # _ \<Rightarrow> min (tr_through_byte r) (end_byte chunk))"

lemma slice_get_chunk:
  assumes "chunk_ok chunk" "start_byte chunk \<le> c" "c \<le> stop" "stop \<le> end_byte chunk"
  obtains seg where "slice_get (chunk_data chunk) (c - start_byte chunk) (stop - start_byte chunk) = Some seg"
    and "length seg = stop - c"
    and "drop (c - start_byte chunk) (chunk_data chunk) = seg @ drop (stop - start_byte chunk) (chunk_data chunk)"
proof
  let ?seg = "take (stop - c) (drop (c - start_byte chunk) (chunk_data chunk))"
  show "slice_get (chunk_data chunk) (c - start_byte chunk) (stop - start_byte chunk) = Some ?seg"
    using assms by (auto simp: slice_get_def chunk_ok_def)
  show "length ?seg = stop - c"
    using assms by (simp add: chunk_ok_def)
  have "drop (stop - c) (drop (c - start_byte chunk) (chunk_data chunk)) = drop (stop - start_byte chunk) (chunk_data chunk)"
    using assms by simp
  then show "drop (c - start_byte chunk) (chunk_data chunk) = ?seg @ drop (stop - start_byte chunk) (chunk_data chunk)"
    by (metis append_take_drop_id)
qed

lemma feed_chunk_done: "\<not> c < end_byte chunk \<Longrightarrow> feed_chunk vt chunk c rs s = Some (c, rs, s)"
  by (subst feed_chunk.simps) simp

lemma feed_chunk_turn:
  assumes "c < end_byte chunk" "resizes_at vt c rs s = Some ((p, revision), rs')"
    "\<not> (case rs' of [] \<Rightarrow> False | r # _ \<Rightarrow> tr_through_byte r < c)"
    "slice_get (chunk_data chunk) (c - start_byte chunk) (turn_stop chunk rs' - start_byte chunk) = Some seg"
  shows "feed_chunk vt chunk c rs s =
    Option.bind (vt_process vt p seg) (\<lambda>q. feed_chunk vt chunk (turn_stop chunk rs') rs' (q, revision))"
  using assms by (subst feed_chunk.simps)
    (simp add: turn_stop_def Let_def split: option.splits)

lemma feed_chunk_end:
  "feed_chunk vt chunk c rs s = Some (c', rs', s') \<Longrightarrow> c \<le> end_byte chunk \<Longrightarrow> c' = end_byte chunk"
proof (induction vt chunk c rs s rule: feed_chunk.induct)
  case (1 vt chunk c rs s)
  show ?case
  proof (cases "c < end_byte chunk")
    case False
    with 1 show ?thesis by (simp add: feed_chunk_done)
  next
    case True
    then obtain p revision rs1 seg q where
      "resizes_at vt c rs s = Some ((p, revision), rs1)"
      "\<not> (case rs1 of [] \<Rightarrow> False | r # _ \<Rightarrow> tr_through_byte r < c)"
      "slice_get (chunk_data chunk) (c - start_byte chunk) (turn_stop chunk rs1 - start_byte chunk) = Some seg"
      "vt_process vt p seg = Some q"
      "feed_chunk vt chunk (turn_stop chunk rs1) rs1 (q, revision) = Some (c', rs', s')"
      using "1.prems"(1) by (subst (asm) feed_chunk.simps)
        (auto simp: turn_stop_def Let_def split: option.splits if_splits)
    with True show ?thesis
      using "1.IH" [OF True _ _ _ _ refl] by (auto simp: turn_stop_def split: list.splits)
  qed
qed

lemma feed_chunk_refines:
  assumes "chunk_ok chunk" "start_byte chunk \<le> c" "c \<le> end_byte chunk"
  shows "(case feed_chunk vt chunk c rs s of
            None \<Rightarrow> None | Some (c', rs', s') \<Rightarrow> (if c' = end_byte chunk then feed vt c' rest rs' s' else None))
    = feed vt c (drop (c - start_byte chunk) (chunk_data chunk) @ rest) rs s"
  using assms
proof (induction "end_byte chunk - c" arbitrary: c rs s rule: less_induct)
  case less
  show ?case
  proof (cases "c < end_byte chunk")
    case False
    then have "c = end_byte chunk" using less.prems by simp
    then show ?thesis using less.prems by (simp add: feed_chunk_done chunk_ok_def)
  next
    case True
    have ne: "drop (c - start_byte chunk) (chunk_data chunk) \<noteq> []"
      using True less.prems by (simp add: chunk_ok_def)
    then obtain b bs where bbs: "drop (c - start_byte chunk) (chunk_data chunk) @ rest = b # bs"
      by (cases "drop (c - start_byte chunk) (chunk_data chunk)") auto
    show ?thesis
    proof (cases "resizes_at vt c rs s")
      case None
      then show ?thesis using True by (subst feed_chunk.simps) (simp add: bbs)
    next
      case (Some res)
      obtain p revision rs' where res: "res = ((p, revision), rs')" by (cases res) auto
      note at = Some [unfolded res]
      show ?thesis
      proof (cases "case rs' of [] \<Rightarrow> False | r # _ \<Rightarrow> tr_through_byte r < c")
        case True
        then obtain r rs'' where r: "rs' = r # rs''" "tr_through_byte r < c"
          by (auto split: list.splits)
        then have "feed vt c (b # bs) rs s = None"
          using feed_resizes_at [OF at] feed_stuck by metis
        moreover have "feed_chunk vt chunk c rs s = None"
          using at r \<open>c < end_byte chunk\<close> by (subst feed_chunk.simps) simp
        ultimately show ?thesis by (simp add: bbs)
      next
        case False
        let ?stop = "turn_stop chunk rs'"
        have stop: "c < ?stop" "?stop \<le> end_byte chunk"
          "case rs' of [] \<Rightarrow> True | r # _ \<Rightarrow> ?stop \<le> tr_through_byte r"
          using False True at by (auto simp: turn_stop_def split: list.splits dest: resizes_at_next)
        obtain seg where seg: "slice_get (chunk_data chunk) (c - start_byte chunk) (?stop - start_byte chunk) = Some seg"
          "length seg = ?stop - c"
          "drop (c - start_byte chunk) (chunk_data chunk) = seg @ drop (?stop - start_byte chunk) (chunk_data chunk)"
          using slice_get_chunk [OF less.prems(1,2), of ?stop] stop by auto
        have IH: "(case feed_chunk vt chunk ?stop rs' (q, revision) of
            None \<Rightarrow> None | Some (c', rs', s') \<Rightarrow> (if c' = end_byte chunk then feed vt c' rest rs' s' else None))
          = feed vt ?stop (drop (?stop - start_byte chunk) (chunk_data chunk) @ rest) rs' (q, revision)" for q
          using less.hyps [of ?stop] less.prems stop by simp
        have "feed vt c (drop (c - start_byte chunk) (chunk_data chunk) @ rest) rs s
            = feed vt c (seg @ (drop (?stop - start_byte chunk) (chunk_data chunk) @ rest)) rs' (p, revision)"
          using feed_resizes_at [OF at, of b bs] bbs seg(3) by simp
        also have "\<dots> = Option.bind (vt_process vt p seg) (\<lambda>q.
            feed vt ?stop (drop (?stop - start_byte chunk) (chunk_data chunk) @ rest) rs' (q, revision))"
          using stop seg(2) by (intro feed_to) auto
        finally show ?thesis
          using feed_chunk_turn [OF True at False seg(1)] IH
          by (cases "vt_process vt p seg") auto
      qed
    qed
  qed
qed

lemma feed_chunks_refines:
  assumes "contiguous b chunks" "b \<le> c" "c \<le> chunks_end b chunks"
  shows "(case feed_chunks vt chunks c rs s of
            None \<Rightarrow> None
          | Some (c', rs', s') \<Rightarrow> (if c' = chunks_end b chunks then final_resizes vt c' rs' s' else None))
    = feed vt c (drop (c - b) (chunk_bytes chunks)) rs s"
  using assms
proof (induction chunks arbitrary: b c rs s)
  case Nil
  then show ?case by simp
next
  case (Cons chunk chunks)
  have ok: "chunk_ok chunk" "start_byte chunk = b" and rest: "contiguous (end_byte chunk) chunks"
    using Cons.prems by auto
  show ?case
  proof (cases "end_byte chunk \<le> c")
    case True
    then have d: "drop (c - b) (chunk_bytes (chunk # chunks)) = drop (c - end_byte chunk) (chunk_bytes chunks)"
      using ok by (simp add: chunk_ok_def)
    show ?thesis
      unfolding d chunks_end.simps using Cons.IH [OF rest] True Cons.prems by simp
  next
    case False
    have d: "drop (c - b) (chunk_bytes (chunk # chunks)) = drop (c - b) (chunk_data chunk) @ chunk_bytes chunks"
      using False ok by (simp add: chunk_ok_def)
    note one = feed_chunk_refines [OF ok(1), where c = c and rest = "chunk_bytes chunks" and vt = vt and rs = rs and s = s]
    have IH: "(case feed_chunks vt chunks (end_byte chunk) rs' s' of
            None \<Rightarrow> None
          | Some (c', rs', s') \<Rightarrow> (if c' = chunks_end (end_byte chunk) chunks then final_resizes vt c' rs' s' else None))
      = feed vt (end_byte chunk) (chunk_bytes chunks) rs' s'" for rs' s'
      using Cons.IH [OF rest, of "end_byte chunk"] contiguous_le [OF rest] by simp
    show ?thesis
    proof (cases "feed_chunk vt chunk c rs s")
      case None
      with one False Cons.prems ok show ?thesis unfolding d by simp
    next
      case (Some res)
      obtain c' rs' s' where res: "res = (c', rs', s')" by (cases res) auto
      with Some False have e: "c' = end_byte chunk" by (auto intro: feed_chunk_end)
      with one Some res False Cons.prems ok IH [of rs' s'] show ?thesis
        unfolding d chunks_end.simps by simp
    qed
  qed
qed

subsection \<open>Live histories\<close>

lemma feed_resize_now:
  "tr_through_byte r = c \<Longrightarrow> feed vt c bs (r # rs) s = Option.bind (apply_resize vt r s) (feed vt c bs rs)"
  by (cases bs; cases "apply_resize vt r s") auto

lemma live_resizes_ahead:
  "case live_resizes ops latest revision of [] \<Rightarrow> True | r # _ \<Rightarrow> latest \<le> tr_through_byte r"
proof (induction ops arbitrary: latest revision)
  case (Cons op ops)
  show ?case
  proof (cases op)
    case (LiveBytes d)
    then show ?thesis using Cons.IH [of "latest + length d" revision] by (auto split: list.splits)
  qed simp
qed simp

lemma live_run_invalid:
  "live_run vt ops latest m = Some m' \<Longrightarrow> \<not> tm_geometry_valid m \<Longrightarrow> \<not> tm_geometry_valid m'"
proof (induction vt ops latest m rule: live_run.induct)
  case (2 vt d ops latest m)
  then show ?case by (auto simp: bind_eq_Some_conv tm_process_def)
next
  case (3 vt sz ops latest m)
  then obtain r m1 where r: "tm_resize vt sz latest m = Some (r, m1)" "live_run vt ops latest m1 = Some m'"
    by (auto simp: bind_eq_Some_conv)
  then have "\<not> tm_geometry_valid m1"
    using "3.prems"(2) by (auto simp: tm_resize_def Let_def split: option.splits if_splits)
  with "3.IH" [OF r(1) refl r(2)] show ?case .
qed auto

lemma tm_resize_step:
  assumes "tm_resize vt sz latest m = Some (r, m1)" "tm_checkpoint m = Some cp" "tm_geometry_valid m1"
    "0 < rows sz" "0 < cols sz"
  shows "apply_resize vt \<lparr>tr_through_byte = latest, tr_resize_revision = tm_resize_revision m + 1, tr_size = sz\<rparr>
           (tm_parser m, tm_resize_revision m) = Some (tm_parser m1, tm_resize_revision m1)"
    "tm_resize_revision m1 = tm_resize_revision m + 1"
    "tm_checkpoint m1 = Some (cp\<lparr>sc_resizes := sc_resizes cp @
       [\<lparr>tr_through_byte = latest, tr_resize_revision = tm_resize_revision m + 1, tr_size = sz\<rparr>]\<rparr>)"
    "length (sc_resizes cp) \<noteq> MAX_RESIZE_TAIL" "tm_geometry_valid m = tm_geometry_valid m1"
  using assms by (auto simp: tm_resize_def apply_resize_def Let_def split: if_splits)

lemma live_run_feed:
  assumes "live_run vt ops latest m = Some m'" "tm_checkpoint m = Some cp"
    "tm_geometry_valid m'" "positive_sizes ops" "length (sc_resizes cp) \<le> MAX_RESIZE_TAIL"
  shows "feed vt latest (live_bytes ops) (live_resizes ops latest (tm_resize_revision m))
           (tm_parser m, tm_resize_revision m) = Some (tm_parser m', tm_resize_revision m')
    \<and> tm_checkpoint m' = Some (cp\<lparr>sc_resizes := sc_resizes cp @ live_resizes ops latest (tm_resize_revision m)\<rparr>)
    \<and> length (sc_resizes cp @ live_resizes ops latest (tm_resize_revision m)) \<le> MAX_RESIZE_TAIL"
  using assms
proof (induction vt ops latest m arbitrary: cp rule: live_run.induct)
  case (1 vt latest m)
  then show ?case by simp
next
  case (2 vt d ops latest m)
  then obtain p where p: "vt_process vt (tm_parser m) d = Some p"
    and run: "live_run vt ops (latest + length d) (m\<lparr>tm_parser := p\<rparr>) = Some m'"
    by (auto simp: bind_eq_Some_conv tm_process_def)
  have "positive_sizes ops" using "2.prems"(4) by (simp add: positive_sizes_def)
  then have IH: "feed vt (latest + length d) (live_bytes ops)
      (live_resizes ops (latest + length d) (tm_resize_revision m)) (p, tm_resize_revision m)
        = Some (tm_parser m', tm_resize_revision m')
    \<and> tm_checkpoint m' = Some (cp\<lparr>sc_resizes := sc_resizes cp @ live_resizes ops (latest + length d) (tm_resize_revision m)\<rparr>)
    \<and> length (sc_resizes cp @ live_resizes ops (latest + length d) (tm_resize_revision m)) \<le> MAX_RESIZE_TAIL"
    using "2.IH" [of "m\<lparr>tm_parser := p\<rparr>" cp] "2.prems" p run by (simp add: tm_process_def)
  moreover have "feed vt latest (d @ live_bytes ops) (live_resizes ops (latest + length d) (tm_resize_revision m))
      (tm_parser m, tm_resize_revision m)
    = Option.bind (vt_process vt (tm_parser m) d) (\<lambda>q. feed vt (latest + length d) (live_bytes ops)
        (live_resizes ops (latest + length d) (tm_resize_revision m)) (q, tm_resize_revision m))"
    by (rule feed_to [OF live_resizes_ahead refl])
  ultimately show ?case
    using p by simp
next
  case (3 vt sz ops latest m)
  then obtain r m1 where r: "tm_resize vt sz latest m = Some (r, m1)" "live_run vt ops latest m1 = Some m'"
    by (auto simp: bind_eq_Some_conv)
  have pos: "positive_sizes ops" "0 < rows sz" "0 < cols sz"
    using "3.prems"(4) by (auto simp: positive_sizes_def)
  have v: "tm_geometry_valid m1"
    using live_run_invalid [OF r(2)] "3.prems"(3) by blast
  note st = tm_resize_step [OF r(1) "3.prems"(2) v pos(2,3)]
  have len: "length (sc_resizes cp) < MAX_RESIZE_TAIL"
    using st(4) "3.prems"(5) by simp
  show ?case
    using "3.IH" [OF r(1) refl r(2) st(3) "3.prems"(3) pos(1)] len st(1,2)
    by (simp add: feed_resize_now)
qed

lemma restore_seed_resizes [simp]: "restore_seed vt (cp\<lparr>sc_resizes := rs\<rparr>) = restore_seed vt cp"
  by (simp add: restore_seed_def cong del: if_weak_cong)

lemma tm_cut_True:
  assumes "tm_cut vt rid latest m0 = Some (True, m)"
  obtains seed where "tm_checkpoint m = Some (stored_of_seed rid latest (tm_resize_revision m) seed)"
    "vt_geometry vt (tm_parser m) = Some seed" "tm_geometry_valid m"
    "tm_parser m = tm_parser m0" "tm_resize_revision m = tm_resize_revision m0"
    "length (seed_restore_bytes seed) + length (seed_final_bytes seed) \<le> MAX_RESTORE_BYTES"
  using assms
  by (auto simp: tm_cut_def vt_geometry_checkpoint_def bind_eq_Some_conv split: option.splits if_splits)

lemma tm_recover_by_feed:
  assumes "header_acceptable rid saved replay" "restore_seed vt saved = Some p"
    "contiguous b (rp_chunks replay)" "b \<le> cp_through_byte (sc_checkpoint saved)"
    "rp_latest_output_bytes replay = chunks_end b (rp_chunks replay)"
    "feed vt (cp_through_byte (sc_checkpoint saved))
        (drop (cp_through_byte (sc_checkpoint saved) - b) (chunk_bytes (rp_chunks replay)))
        (sc_resizes saved) (p, cp_resize_revision (sc_checkpoint saved)) = Some (q, revision)"
  shows "tm_recover vt rid saved replay = Some \<lparr>tm_parser = q, tm_checkpoint = Some saved,
      tm_resize_revision = revision, tm_geometry_valid = True\<rparr>"
proof -
  have "cp_through_byte (sc_checkpoint saved) \<le> chunks_end b (rp_chunks replay)"
    using assms(1,5) by (simp add: header_acceptable_def Let_def)
  from feed_chunks_refines [OF assms(3,4) this, of vt "sc_resizes saved" "(p, cp_resize_revision (sc_checkpoint saved))"]
  obtain rs' s' where "feed_chunks vt (rp_chunks replay) (cp_through_byte (sc_checkpoint saved)) (sc_resizes saved)
      (p, cp_resize_revision (sc_checkpoint saved)) = Some (chunks_end b (rp_chunks replay), rs', s')"
    "final_resizes vt (chunks_end b (rp_chunks replay)) rs' s' = Some (q, revision)"
    using assms(6) by (auto split: option.splits if_splits prod.splits)
  then show ?thesis
    using assms(1,2,5) by (simp add: tm_recover_def)
qed

text \<open>
  C8.  Recovery reproduces the live terminal: cut a checkpoint at some byte, let the live model
  process any interleaving of output and acknowledged resizes while the bounded resize tail stays
  valid, and store it.  If the emulator's own seed restores the screen it was exported from, then
  recovering the stored checkpoint against a retained window that still covers the fence rebuilds
  the live model exactly: the same screen, the same geometry revision, the same checkpoint.
\<close>

theorem terminal_recovery_roundtrip:
  assumes "tm_cut vt rid latest m0 = Some (True, m)"
    and "live_run vt ops latest m = Some m'" and "tm_stored m' = Some saved" and "positive_sizes ops"
    and seed_restores: "\<And>seed. vt_geometry vt (tm_parser m) = Some seed \<Longrightarrow>
          restore_seed vt (stored_of_seed rid latest (tm_resize_revision m) seed) = Some (tm_parser m)
          \<and> 0 < seed_rows seed \<and> 0 < seed_cols seed \<and> 0 < seed_source_rows seed \<and> 0 < seed_source_cols seed"
    and "contiguous b (rp_chunks replay)" and "b \<le> latest" and "latest \<le> chunks_end b (rp_chunks replay)"
    and "drop (latest - b) (chunk_bytes (rp_chunks replay)) = live_bytes ops"
    and "rp_first_available_byte replay \<le> latest"
    and "rp_latest_output_bytes replay = latest + length (live_bytes ops)"
  shows "tm_recover vt rid saved replay = Some m'"
proof -
  obtain seed where seed: "vt_geometry vt (tm_parser m) = Some seed"
    and cp: "tm_checkpoint m = Some (stored_of_seed rid latest (tm_resize_revision m) seed)"
    and small: "length (seed_restore_bytes seed) + length (seed_final_bytes seed) \<le> MAX_RESTORE_BYTES"
    using tm_cut_True [OF assms(1)] by blast
  let ?cp = "stored_of_seed rid latest (tm_resize_revision m) seed"
  let ?rs = "live_resizes ops latest (tm_resize_revision m)"
  have g: "tm_geometry_valid m'" and sv: "tm_checkpoint m' = Some saved"
    using assms(3) by (auto simp: tm_stored_def split: if_splits)
  have empty: "sc_resizes ?cp = []" by (simp add: stored_of_seed_def Let_def)
  have live: "feed vt latest (live_bytes ops) ?rs (tm_parser m, tm_resize_revision m)
      = Some (tm_parser m', tm_resize_revision m')"
    and saved: "saved = ?cp\<lparr>sc_resizes := ?rs\<rparr>" and len: "length ?rs \<le> MAX_RESIZE_TAIL"
    using live_run_feed [OF assms(2) cp g assms(4)] sv by (auto simp: empty)
  have head: "chunks_end b (rp_chunks replay) = latest + length (live_bytes ops)"
    using assms(7,8) contiguous_end [OF assms(6)] arg_cong [OF assms(9), of length] by simp
  have "header_acceptable rid saved replay"
    using small len seed_restores [OF seed] assms(10,11)
    by (simp add: saved header_acceptable_def stored_of_seed_def Let_def)
  moreover have "restore_seed vt saved = Some (tm_parser m)"
    using seed_restores [OF seed] by (simp add: saved)
  moreover have "cp_through_byte (sc_checkpoint saved) = latest" "sc_resizes saved = ?rs"
    "cp_resize_revision (sc_checkpoint saved) = tm_resize_revision m"
    by (simp_all add: saved stored_of_seed_def Let_def)
  ultimately have "tm_recover vt rid saved replay = Some \<lparr>tm_parser = tm_parser m', tm_checkpoint = Some saved,
      tm_resize_revision = tm_resize_revision m', tm_geometry_valid = True\<rparr>"
    using tm_recover_by_feed [where saved = saved and replay = replay and b = b and p = "tm_parser m"
        and q = "tm_parser m'" and revision = "tm_resize_revision m'" and vt = vt and rid = rid]
      assms(6,7,9,11) live head by simp
  then show ?thesis
    using g sv by simp
qed

text \<open>An emulator whose screen is its size and the bytes it has seen.\<close>

definition echo_vt :: "(nat \<times> nat \<times> byte list) vt_parser" where
  "echo_vt = \<lparr>vt_new = (\<lambda>r c _. Some (r, c, [])),
     vt_advance = (\<lambda>(r, c, bs) b. Some (r, c, bs @ [b])),
     vt_set_size = (\<lambda>(_, _, bs) r c. Some (r, c, bs)),
     vt_size = (\<lambda>(r, c, _). (r, c)),
     vt_is_ground = (\<lambda>_. True),
     vt_set_scrollback_limit = (\<lambda>p _. Some p),
     vt_geometry = (\<lambda>(r, c, bs). Some \<lparr>seed_source_rows = r, seed_source_cols = c, seed_rows = r,
        seed_cols = c, seed_restore_bytes = bs, seed_final_bytes = [], seed_scrollback_rows = None\<rparr>)\<rparr>"

theorem terminal_recovery_roundtrip_witness:
  "\<exists>m' saved. tm_stored m' = Some saved \<and> tm_parser m' = (30, 90, [1, 2, 7, 8, 9]) \<and>
     tm_recover echo_vt 5 saved \<lparr>rp_chunks = [\<lparr>start_byte = 1, end_byte = 5, chunk_data = [2, 7, 8, 9]\<rparr>],
        rp_first_available_byte = 1, rp_latest_output_bytes = 5, rp_truncated = False\<rparr> = Some m'"
proof -
  let ?m0 = "\<lparr>tm_parser = (24, 80, [1, 2]), tm_checkpoint = None, tm_resize_revision = 0,
     tm_geometry_valid = True\<rparr> :: (nat \<times> nat \<times> byte list) terminal_model"
  let ?ops = "[LiveBytes [7, 8], LiveResize \<lparr>rows = 30, cols = 90\<rparr>, LiveBytes [9]]"
  let ?replay = "\<lparr>rp_chunks = [\<lparr>start_byte = 1, end_byte = 5, chunk_data = [2, 7, 8, 9]\<rparr>],
        rp_first_available_byte = 1, rp_latest_output_bytes = 5, rp_truncated = False\<rparr>"
  obtain m where m: "tm_cut echo_vt 5 2 ?m0 = Some (True, m)" "tm_parser m = (24, 80, [1, 2])"
    "tm_resize_revision m = 0"
    "tm_geometry_valid m" "\<exists>cp. tm_checkpoint m = Some cp \<and> sc_resizes cp = []"
    by (simp add: tm_cut_def vt_geometry_checkpoint_def echo_vt_def checked_add_def max_values
        MAX_RESTORE_BYTES_def stored_of_seed_def)
  then obtain m' where run: "live_run echo_vt ?ops 2 m = Some m'" and p: "tm_parser m' = (30, 90, [1, 2, 7, 8, 9])"
    and "tm_geometry_valid m'" "\<exists>cp. tm_checkpoint m' = Some cp"
    by (auto simp: tm_process_def tm_resize_def echo_vt_def Let_def MAX_RESIZE_TAIL_def)
  then obtain saved where sv: "tm_stored m' = Some saved"
    by (auto simp: tm_stored_def)
  have pos: "positive_sizes ?ops" by (simp add: positive_sizes_def)
  have seed: "restore_seed echo_vt (stored_of_seed 5 2 (tm_resize_revision m) seed) = Some (tm_parser m)
          \<and> 0 < seed_rows seed \<and> 0 < seed_cols seed \<and> 0 < seed_source_rows seed \<and> 0 < seed_source_cols seed"
    if "vt_geometry echo_vt (tm_parser m) = Some seed" for seed
    using that m(2) by (auto simp: echo_vt_def restore_seed_def stored_of_seed_def Let_def)
  have "tm_recover echo_vt 5 saved ?replay = Some m'"
    by (rule terminal_recovery_roundtrip [OF m(1) run sv pos seed, where b = 1])
       (simp_all add: chunk_ok_def chunk_bytes_def)
  with p sv show ?thesis by blast
qed

end
