(* ===== verification/Native_Service.thy ===== *)
theory Native_Service
  imports Protocol_Types
begin

text \<open>
  The revisioned projection of native service transitions,
  \<^verbatim>\<open>crates/ctxmux-daemon/src/native_service.rs\<close>.  The service cell is its snapshot; each
  operation is the closure the source hands to \<^verbatim>\<open>update\<close>, and \<open>service_update\<close> runs one
  under the cell's lock, giving the new cell and the \<^verbatim>\<open>ServiceChanged\<close> event it publishes to
  the bound Run, if anything changed.  \<open>None\<close> is the panic of an exhausted revision counter.
\<close>

definition service_new :: "bool \<Rightarrow> service_snapshot" where
  "service_new historical = \<lparr>
     sv_revision = 0,
     sv_owner = (if historical then OwnerStoppedWith Historical else OwnerStarting),
     sv_output = (if historical then OutClosed else OutPending),
     sv_input = \<lparr>in_phase = (if historical then InClosed else InOpen),
        unsettled_commands = 0, unsettled_request_bytes = 0, write_blocked = False,
        completed_input_bytes = (if historical then None else Some 0),
        current_size = None, active_confirmed_bytes = 0\<rparr>,
     sv_terminal_fault = None\<rparr>"

fun owner_loss :: "service_failure \<Rightarrow> bool" where
  "owner_loss OwnerStopped = True"
| "owner_loss OwnerUnwound = True"
| "owner_loss (OwnerIoFailed _ _) = True"
| "owner_loss _ = False"

definition mark_output_lost :: "service_failure \<Rightarrow> service_snapshot \<Rightarrow> service_snapshot" where
  "mark_output_lost reason s =
     (if sv_output s = OutClosed then s else s\<lparr>sv_output := OutUnavailable reason\<rparr>)"

definition update_input :: "input_status \<Rightarrow> service_snapshot \<Rightarrow> service_snapshot" where
  "update_input input s =
     (let s = (case in_phase input of
                 InUnavailable reason \<Rightarrow>
                   if owner_loss reason
                   then mark_output_lost reason (s\<lparr>sv_owner := OwnerStoppedWith reason\<rparr>) else s
               | _ \<Rightarrow> s)
      in s\<lparr>sv_input := input\<rparr>)"

definition update_output :: "output_status \<Rightarrow> service_snapshot \<Rightarrow> service_snapshot" where
  "update_output out s = s\<lparr>sv_output := out\<rparr>"

definition update_output_pressure :: "bool \<Rightarrow> service_snapshot \<Rightarrow> service_snapshot" where
  "update_output_pressure pressured s =
     (if sv_output s \<in> {OutServing, OutBackpressured} \<and> sv_owner s \<in> {OwnerServing, OwnerDraining}
      then s\<lparr>sv_output := (if pressured then OutBackpressured else OutServing)\<rparr> else s)"

definition service_ready :: "service_snapshot \<Rightarrow> service_snapshot" where
  "service_ready s = s\<lparr>sv_owner := OwnerServing, sv_output := OutServing\<rparr>"

definition service_draining :: "service_snapshot \<Rightarrow> service_snapshot" where
  "service_draining s = s\<lparr>sv_owner := OwnerDraining\<rparr>"

definition service_stopped :: "service_failure \<Rightarrow> service_snapshot \<Rightarrow> service_snapshot" where
  "service_stopped reason s =
     (let s = mark_output_lost reason (s\<lparr>sv_owner := OwnerStoppedWith reason\<rparr>)
      in if in_phase (sv_input s) = InClosed then s
         else s\<lparr>sv_input := (sv_input s)\<lparr>in_phase := InUnavailable reason, write_blocked := False\<rparr>\<rparr>)"

definition service_terminal_fault :: "native_terminal_fault \<Rightarrow> service_snapshot \<Rightarrow> service_snapshot" where
  "service_terminal_fault fault s =
     (if sv_terminal_fault s = None then s\<lparr>sv_terminal_fault := Some fault\<rparr> else s)"

definition service_update ::
  "(service_snapshot \<Rightarrow> service_snapshot) \<Rightarrow> service_snapshot \<Rightarrow> (service_snapshot \<times> run_event option) option" where
  "service_update change before =
     (let after = change before in
      if after = before then Some (before, None)
      else map_option (\<lambda>revision.
             (after\<lparr>sv_revision := revision\<rparr>,
              Some (EvServiceChanged (after\<lparr>sv_revision := revision\<rparr>))))
           (checked_add (sv_revision before) 1))"

datatype service_op =
    OpInput input_status
  | OpOutput output_status
  | OpPressure bool
  | OpReady
  | OpDraining
  | OpStopped service_failure
  | OpFault native_terminal_fault

fun service_change :: "service_op \<Rightarrow> service_snapshot \<Rightarrow> service_snapshot" where
  "service_change (OpInput i) = update_input i"
| "service_change (OpOutput out) = update_output out"
| "service_change (OpPressure b) = update_output_pressure b"
| "service_change OpReady = service_ready"
| "service_change OpDraining = service_draining"
| "service_change (OpStopped r) = service_stopped r"
| "service_change (OpFault f) = service_terminal_fault f"

fun service_run :: "service_op list \<Rightarrow> service_snapshot \<Rightarrow> (service_snapshot \<times> run_event list) option" where
  "service_run [] s = Some (s, [])"
| "service_run (opn # ops) s =
     (case service_update (service_change opn) s of
        None \<Rightarrow> None
      | Some (s', ev) \<Rightarrow>
          map_option (\<lambda>(s'', evs). (s'', (case ev of None \<Rightarrow> evs | Some e \<Rightarrow> e # evs))) (service_run ops s'))"

lemmas service_defs = update_input_def update_output_def update_output_pressure_def service_ready_def
  service_draining_def service_stopped_def service_terminal_fault_def mark_output_lost_def

section \<open>Facts\<close>

lemma service_change_revision: "sv_revision (service_change opn s) = sv_revision s"
  by (cases opn) (auto simp: service_defs Let_def split: input_phase.splits)

lemma service_change_fault:
  "sv_terminal_fault s = Some f \<Longrightarrow> sv_terminal_fault (service_change opn s) = Some f"
  by (cases opn) (auto simp: service_defs Let_def split: input_phase.splits)

lemma service_update_cases:
  assumes "service_update (service_change opn) s = Some (s', ev)"
  shows "(ev = None \<and> s' = s) \<or> (ev = Some (EvServiceChanged s') \<and> sv_revision s' = sv_revision s + 1)"
  using assms by (auto simp: service_update_def Let_def split: if_splits)

text \<open>
  Service revisions count exactly the published transitions: over any sequence of owner
  transitions the events carry consecutive revisions, each event is the snapshot it announces, the
  last one is the current snapshot, and a transition that changes nothing publishes nothing.
\<close>

theorem service_revisions_consecutive:
  assumes "service_run ops s = Some (s', evs)"
  shows "sv_revision s' = sv_revision s + length evs
    \<and> (\<exists>snaps. evs = map EvServiceChanged snaps
         \<and> map sv_revision snaps = [sv_revision s + 1 ..< sv_revision s + length evs + 1]
         \<and> s' = last (s # snaps))"
  using assms
proof (induction ops arbitrary: s evs)
  case Nil
  then show ?case by auto
next
  case (Cons opn ops)
  obtain s1 ev where u: "service_update (service_change opn) s = Some (s1, ev)"
    using Cons.prems by (auto split: option.splits)
  then obtain evs1 where r: "service_run ops s1 = Some (s', evs1)"
    and evs: "evs = (case ev of None \<Rightarrow> evs1 | Some e \<Rightarrow> e # evs1)"
    using Cons.prems by auto
  obtain snaps where IH: "sv_revision s' = sv_revision s1 + length evs1" "evs1 = map EvServiceChanged snaps"
    "map sv_revision snaps = [sv_revision s1 + 1 ..< sv_revision s1 + length evs1 + 1]" "s' = last (s1 # snaps)"
    using Cons.IH [OF r] by blast
  from service_update_cases [OF u] show ?case
  proof
    assume "ev = None \<and> s1 = s"
    then have "evs = evs1" "s1 = s" using evs by auto
    then show ?thesis using IH by blast
  next
    assume e: "ev = Some (EvServiceChanged s1) \<and> sv_revision s1 = sv_revision s + 1"
    have n: "length evs = length evs1 + 1" using e evs by simp
    have "[sv_revision s + 1 ..< sv_revision s + length evs + 1]
        = (sv_revision s + 1) # [sv_revision s1 + 1 ..< sv_revision s1 + length evs1 + 1]"
      using e n by (subst upt_conv_Cons) simp_all
    then have "map sv_revision (s1 # snaps) = [sv_revision s + 1 ..< sv_revision s + length evs + 1]"
      using e IH(3) by (simp only: list.map)
    moreover have "evs = map EvServiceChanged (s1 # snaps)" "s' = last (s # s1 # snaps)"
      using e IH(2,4) evs by simp_all
    moreover have "sv_revision s' = sv_revision s + length evs"
      using e IH(1) n by simp
    ultimately show ?thesis by blast
  qed
qed

theorem service_revisions_consecutive_example:
  "\<exists>s' evs. service_run [OpReady, OpReady, OpPressure True, OpStopped OwnerUnwound] (service_new False) = Some (s', evs)
     \<and> sv_revision s' = 3 \<and> length evs = 3"
proof -
  obtain s' evs where r: "service_run [OpReady, OpReady, OpPressure True, OpStopped OwnerUnwound] (service_new False)
      = Some (s', evs)" and l: "length evs = 3"
    by (simp add: service_update_def service_defs service_new_def checked_add_def max_values)
  with service_revisions_consecutive [OF r] show ?thesis
    by (auto simp: service_new_def)
qed

text \<open>The operations a lost owner can still perform: none of them re-opens the owner.\<close>

fun late_observation :: "service_op \<Rightarrow> bool" where
  "late_observation (OpPressure _) = True"
| "late_observation (OpFault _) = True"
| "late_observation (OpStopped _) = True"
| "late_observation (OpInput i) = (in_phase i \<noteq> InOpen)"
| "late_observation _ = False"

definition owner_lost :: "service_snapshot \<Rightarrow> bool" where
  "owner_lost s \<longleftrightarrow> (\<exists>r. sv_owner s = OwnerStoppedWith r) \<and>
     (sv_output s = OutClosed \<or> (\<exists>r. sv_output s = OutUnavailable r)) \<and> in_phase (sv_input s) \<noteq> InOpen"

lemma stopped_owner_lost: "owner_lost (service_stopped r s)"
  by (auto simp: owner_lost_def service_stopped_def mark_output_lost_def Let_def)

lemma late_keeps_lost: "owner_lost s \<Longrightarrow> late_observation opn \<Longrightarrow> owner_lost (service_change opn s)"
  by (cases opn) (auto simp: owner_lost_def service_defs Let_def split: input_phase.splits)

lemma owner_lost_revision [simp]: "owner_lost (s\<lparr>sv_revision := n\<rparr>) = owner_lost s"
  by (simp add: owner_lost_def)

lemma service_update_lost:
  "owner_lost (service_change opn s) \<Longrightarrow> service_update (service_change opn) s = Some (s', ev) \<Longrightarrow> owner_lost s'"
  by (auto simp: service_update_def Let_def split: if_splits)

lemma service_run_lost:
  "owner_lost s \<Longrightarrow> list_all late_observation ops \<Longrightarrow> service_run ops s = Some (s', evs) \<Longrightarrow> owner_lost s'"
proof (induction ops arbitrary: s evs)
  case (Cons opn ops)
  obtain t ev es where u: "service_update (service_change opn) s = Some (t, ev)"
    and r: "service_run ops t = Some (s', es)"
    using Cons.prems(3) by (auto split: option.splits)
  have "owner_lost t"
    using Cons.prems(1,2) late_keeps_lost service_update_lost [OF _ u] by simp
  then show ?case
    using Cons.IH [OF _ _ r] Cons.prems(2) by simp
qed simp

text \<open>
  A lost owner stays lost: once the owner has stopped, no late pressure observation, terminal
  fault, further stop or settlement of a non-open input lane makes the owner, the output or the
  input lane serve again, in any number and order.
\<close>

theorem stopped_service_stays_lost:
  assumes "list_all late_observation ops" and "service_run (OpStopped reason # ops) s = Some (s', evs)"
  shows "owner_lost s'"
proof -
  obtain t ev es where u: "service_update (service_change (OpStopped reason)) s = Some (t, ev)"
    and r: "service_run ops t = Some (s', es)"
    using assms(2) by (auto split: option.splits)
  have "owner_lost t"
    using service_update_lost [OF _ u] stopped_owner_lost by simp
  from service_run_lost [OF this assms(1) r] show ?thesis .
qed

theorem stopped_service_stays_lost_example:
  "\<exists>s' evs. service_run [OpStopped OwnerUnwound, OpPressure False] (service_ready (service_new False)) = Some (s', evs)
     \<and> owner_lost s'"
proof -
  obtain s' evs where r: "service_run [OpStopped OwnerUnwound, OpPressure False] (service_ready (service_new False))
      = Some (s', evs)"
    by (simp add: service_update_def service_defs service_new_def checked_add_def max_values)
  with stopped_service_stays_lost [OF _ r] show ?thesis by auto
qed

end
