(* ===== verification/Output_Log.thy ===== *)
theory Output_Log
  imports Terminal_Model Native_Service
begin

text \<open>
  The per-Run retained-output ring \<^verbatim>\<open>OutputLog\<close> (\<^verbatim>\<open>crates/ctxmux-daemon/src/lib.rs\<close>) with
  the daemon-wide byte counter its bytes count against (\<^verbatim>\<open>RetentionBudget::add/sub\<close>,
  \<^verbatim>\<open>retention.rs\<close>).  Operations take the log and the shared counter and return both.

  \<open>None\<close> as the result of an operation is a Rust panic (an empty chunk, an exhausted byte
  counter, a slice out of range); the theorems show which of them cannot occur.  The calls the log
  makes on its bound service handle are recorded in order in \<open>ol_service_faults\<close> (\<open>None\<close> before
  a service is bound).
\<close>

section \<open>The shared counter\<close>

record retention_counter =
  rb_limit :: u64
  rb_per_run_limit :: usize
  rb_total :: u64

definition budget_add :: "usize \<Rightarrow> retention_counter \<Rightarrow> retention_counter" where
  "budget_add bytes b = b\<lparr>rb_total := wrapping_add (rb_total b) bytes\<rparr>"

definition budget_sub :: "usize \<Rightarrow> retention_counter \<Rightarrow> retention_counter" where
  "budget_sub bytes b = b\<lparr>rb_total := saturating_sub (rb_total b) bytes\<rparr>"

lemma budget_sub_sub [simp]: "budget_sub m (budget_sub n b) = budget_sub (n + m) b"
  by (simp add: budget_sub_def saturating_sub_def)

lemma budget_sub_0 [simp]: "budget_sub 0 b = b"
  by (simp add: budget_sub_def saturating_sub_def)

lemma budget_fields [simp]:
  "rb_limit (budget_add n b) = rb_limit b" "rb_limit (budget_sub n b) = rb_limit b"
  "rb_per_run_limit (budget_add n b) = rb_per_run_limit b"
  "rb_per_run_limit (budget_sub n b) = rb_per_run_limit b"
  "rb_total (budget_sub n b) = rb_total b - n"
  by (simp_all add: budget_add_def budget_sub_def saturating_sub_def)

section \<open>State\<close>

definition REPLAY_CACHE_BLOCK_BYTES :: nat where
  "REPLAY_CACHE_BLOCK_BYTES = 64 * 1024"

record output_facts =
  of_latest_output_bytes :: u64
  of_first_available_byte :: u64
  of_retained_bytes :: usize

record 'p output_log =
  ol_chunks :: "output_chunk list"
  front_skip :: usize
  retained_bytes :: usize
  latest_output_bytes :: u64
  source_gap_after_byte :: "u64 option"
  ol_terminal :: "'p terminal_model option"
  terminal_absence :: unavailable_reason
  ol_resize_revision :: u64
  checkpoint_dirty :: bool
  ol_terminal_fault :: "native_terminal_fault option"
  ol_service_faults :: "native_terminal_fault list option"
  ol_facts :: "output_facts option"

definition first_available_byte :: "'p output_log \<Rightarrow> u64" where
  "first_available_byte l =
     (case ol_chunks l of [] \<Rightarrow> latest_output_bytes l | chunk # _ \<Rightarrow> start_byte chunk + front_skip l)"

definition current_facts :: "'p output_log \<Rightarrow> output_facts" where
  "current_facts l = \<lparr>of_latest_output_bytes = latest_output_bytes l,
     of_first_available_byte = first_available_byte l, of_retained_bytes = retained_bytes l\<rparr>"

definition publish_facts :: "'p output_log \<Rightarrow> 'p output_log" where
  "publish_facts l = l\<lparr>ol_facts := map_option (\<lambda>_. current_facts l) (ol_facts l)\<rparr>"

definition log_new :: "'p output_log" where
  "log_new = \<lparr>ol_chunks = [], front_skip = 0, retained_bytes = 0, latest_output_bytes = 0,
     source_gap_after_byte = None, ol_terminal = None, terminal_absence = OriginUnknown,
     ol_resize_revision = 0, checkpoint_dirty = False, ol_terminal_fault = None,
     ol_service_faults = None, ol_facts = None\<rparr>"

definition log_with_initial_truncation :: "'p output_log" where
  "log_with_initial_truncation = log_new\<lparr>source_gap_after_byte := Some 0\<rparr>"

definition log_from_replay ::
  "output_replay \<Rightarrow> u64 option \<Rightarrow> retention_counter \<Rightarrow> 'p output_log \<times> retention_counter" where
  "log_from_replay replay source_gap b =
     (let retained = sum_list (map (\<lambda>c. length (chunk_data c)) (rp_chunks replay)) in
      (log_new\<lparr>ol_chunks := rp_chunks replay, retained_bytes := retained,
         latest_output_bytes := rp_latest_output_bytes replay,
         source_gap_after_byte :=
           (case source_gap of
              Some g \<Rightarrow> Some g
            | None \<Rightarrow> if rp_truncated replay \<and> rp_first_available_byte replay = 0
                       then Some (rp_latest_output_bytes replay) else None)\<rparr>,
       budget_add retained b))"

text \<open>\<^verbatim>\<open>OutputOwner::new\<close> attaches the published facts cell.\<close>

definition output_owner_new :: "'p output_log \<Rightarrow> 'p output_log" where
  "output_owner_new l = l\<lparr>ol_facts := Some (current_facts l)\<rparr>"

section \<open>The derived terminal\<close>

definition note_terminal_fault :: "fault_stage \<Rightarrow> 'p output_log \<Rightarrow> 'p output_log" where
  "note_terminal_fault stage l =
     (if ol_terminal_fault l = None
      then (let fault = \<lparr>fault_at = stage, fault_through_byte = latest_output_bytes l\<rparr> in
            l\<lparr>ol_service_faults := map_option (\<lambda>fs. fs @ [fault]) (ol_service_faults l),
              ol_terminal_fault := Some fault\<rparr>)
      else l)"

definition bind_service :: "'p output_log \<Rightarrow> 'p output_log" where
  "bind_service l =
     l\<lparr>ol_service_faults := Some (case ol_terminal_fault l of None \<Rightarrow> [] | Some f \<Rightarrow> [f])\<rparr>"

definition log_derive_terminal ::
  "fault_stage \<Rightarrow> ('p terminal_model \<Rightarrow> ('a \<times> 'p terminal_model) option) \<Rightarrow> 'p output_log
     \<Rightarrow> 'a option \<times> 'p output_log" where
  "log_derive_terminal stage derive l =
     (case ol_terminal l of
        None \<Rightarrow> (None, l)
      | Some t \<Rightarrow>
          (case derive t of
             Some (v, t') \<Rightarrow> (Some v, l\<lparr>ol_terminal := Some t'\<rparr>)
           | None \<Rightarrow> (None, note_terminal_fault stage
                 (l\<lparr>ol_terminal := None, terminal_absence := InvalidCheckpoint, checkpoint_dirty := False\<rparr>))))"

definition log_new_native :: "'p vt_parser \<Rightarrow> run_id \<Rightarrow> terminal_size option \<Rightarrow> 'p output_log" where
  "log_new_native vt rid sz =
     (case sz of
        None \<Rightarrow> log_new
      | Some sz \<Rightarrow>
          (case tm_new vt rid sz of
             Some t \<Rightarrow> log_new\<lparr>ol_terminal := Some t\<rparr>
           | None \<Rightarrow> note_terminal_fault StageProcess (log_new\<lparr>terminal_absence := InvalidCheckpoint\<rparr>)))"

definition resize_terminal ::
  "'p vt_parser \<Rightarrow> terminal_size \<Rightarrow> 'p output_log \<Rightarrow> terminal_resize \<times> 'p output_log" where
  "resize_terminal vt sz l =
     (let l = l\<lparr>ol_resize_revision := ol_resize_revision l + 1\<rparr>;
          through = latest_output_bytes l;
          (derived, l) = log_derive_terminal StageResize (tm_resize vt sz through) l;
          resize = (case derived of
                      Some r \<Rightarrow> r
                    | None \<Rightarrow> \<lparr>tr_through_byte = through, tr_resize_revision = ol_resize_revision l, tr_size = sz\<rparr>)
      in (resize, l\<lparr>checkpoint_dirty := (ol_terminal l \<noteq> None)\<rparr>))"

definition terminal_snapshot ::
  "'p vt_parser \<Rightarrow> run_id \<Rightarrow> 'p output_log \<Rightarrow> (terminal_continuation \<times> byte list) \<times> 'p output_log" where
  "terminal_snapshot vt rid l =
     (let (derived, l) = log_derive_terminal StageExport
            (tm_continuation vt rid (first_available_byte l) (latest_output_bytes l)) l
      in (case derived of
            Some v \<Rightarrow> v
          | None \<Rightarrow> (if terminal_absence l = InvalidCheckpoint
                      then ContinuationUnavailable (terminal_absence l)
                      else ContinuationUnknown (terminal_absence l), []), l))"

definition terminal_pressure :: "'p vt_parser \<Rightarrow> run_id \<Rightarrow> 'p output_log \<Rightarrow> 'p output_log" where
  "terminal_pressure vt rid l =
     (let (derived, l) = log_derive_terminal StageExport
            (tm_retention_cut vt rid (first_available_byte l) (latest_output_bytes l)) l
      in if derived = Some True then l\<lparr>checkpoint_dirty := True\<rparr> else l)"

definition take_stored_checkpoint :: "'p output_log \<Rightarrow> stored_checkpoint option \<times> 'p output_log" where
  "take_stored_checkpoint l =
     (if \<not> checkpoint_dirty l then (None, l)
      else (let (derived, l) = log_derive_terminal StageExport (\<lambda>t. Some (tm_stored t, t))
                  (l\<lparr>checkpoint_dirty := False\<rparr>)
            in (Option.bind derived (\<lambda>v. v), l)))"

definition mark_history_gap :: "'p output_log \<Rightarrow> u64 \<times> 'p output_log" where
  "mark_history_gap l =
     (latest_output_bytes l, l\<lparr>source_gap_after_byte := Some (latest_output_bytes l)\<rparr>)"

definition mark_source_gap :: "'p output_log \<Rightarrow> u64 \<times> 'p output_log" where
  "mark_source_gap l = mark_history_gap (l\<lparr>ol_terminal := None, terminal_absence := SourceGap\<rparr>)"

section \<open>Admission and trimming\<close>

text \<open>One cache block: extend the tail when it is adjacent and the block stays within 64 KiB.\<close>

definition push_block :: "u64 \<Rightarrow> byte list \<Rightarrow> output_chunk list \<Rightarrow> output_chunk list" where
  "push_block start data cs =
     (if cs \<noteq> [] \<and> end_byte (last cs) = start
         \<and> length (chunk_data (last cs)) + length data \<le> REPLAY_CACHE_BLOCK_BYTES
      then butlast cs @ [(last cs)\<lparr>chunk_data := chunk_data (last cs) @ data,
                                   end_byte := start + length data\<rparr>]
      else cs @ [\<lparr>start_byte = start, end_byte = start + length data, chunk_data = data\<rparr>])"

function push_blocks :: "u64 \<Rightarrow> byte list \<Rightarrow> output_chunk list \<Rightarrow> output_chunk list" where
  "push_blocks start data cs =
     (if data = [] then cs
      else push_blocks (start + length (take REPLAY_CACHE_BLOCK_BYTES data))
             (drop REPLAY_CACHE_BLOCK_BYTES data)
             (push_block start (take REPLAY_CACHE_BLOCK_BYTES data) cs))"
  by pat_completeness auto
termination
  by (relation "measure (\<lambda>(start, data, cs). length data)") (auto simp: REPLAY_CACHE_BLOCK_BYTES_def)

declare push_blocks.simps [simp del]

text \<open>The eviction loop; its state is the ring, the logical head inside the first block, the
  retained count, the shared counter and the bytes freed so far.\<close>

function trim_loop ::
  "usize \<Rightarrow> usize \<Rightarrow> output_chunk list \<Rightarrow> usize \<Rightarrow> usize \<Rightarrow> retention_counter \<Rightarrow> usize
     \<Rightarrow> output_chunk list \<times> usize \<times> usize \<times> retention_counter \<times> usize" where
  "trim_loop drop_at_least maximum cs skip retained b freed =
     (if freed < drop_at_least \<and> freed < maximum
      then (case cs of
              [] \<Rightarrow> (cs, skip, retained, b, freed)
            | evicted # cs' \<Rightarrow>
                (let available = length (chunk_data evicted) - skip;
                     bytes = min (min available (drop_at_least - freed)) (maximum - freed)
                 in if bytes < available
                    then trim_loop drop_at_least maximum (evicted # cs') (skip + bytes) (retained - bytes)
                           (budget_sub bytes b) (freed + bytes)
                    else trim_loop drop_at_least maximum cs' 0 (retained - bytes)
                           (budget_sub bytes b) (freed + bytes)))
      else (cs, skip, retained, b, freed))"
  by pat_completeness auto
termination
  by (relation "measures [\<lambda>(d, m, cs, skip, r, b, freed). length cs, \<lambda>(d, m, cs, skip, r, b, freed). d - freed]")
     (auto simp: min_def)

declare trim_loop.simps [simp del]

definition trim_front_bounded ::
  "usize \<Rightarrow> usize \<Rightarrow> 'p output_log \<times> retention_counter \<Rightarrow> usize \<times> 'p output_log \<times> retention_counter" where
  "trim_front_bounded drop_at_least maximum = (\<lambda>(l, b).
     (let (cs, skip, retained, b, freed) =
            trim_loop drop_at_least maximum (ol_chunks l) (front_skip l) (retained_bytes l) b 0
      in (freed, publish_facts (l\<lparr>ol_chunks := cs, front_skip := skip, retained_bytes := retained\<rparr>), b)))"

definition push_protected ::
  "'p vt_parser \<Rightarrow> byte list \<Rightarrow> u64 \<Rightarrow> 'p output_log \<times> retention_counter
     \<Rightarrow> (output_chunk \<times> 'p output_log \<times> retention_counter) option" where
  "push_protected vt data protected = (\<lambda>(l, b).
     (if data = [] then None
      else Option.bind (checked_add (latest_output_bytes l) (length data)) (\<lambda>end_byte.
        let chunk = \<lparr>start_byte = latest_output_bytes l, end_byte = end_byte, chunk_data = data\<rparr>;
            b = budget_add (length data) b;
            l = publish_facts (l\<lparr>latest_output_bytes := end_byte,
                  retained_bytes := saturating_add (retained_bytes l) (length data),
                  ol_chunks := push_blocks (latest_output_bytes l) data (ol_chunks l)\<rparr>);
            (_, l) = log_derive_terminal StageProcess
                       (\<lambda>t. map_option (\<lambda>t'. ((), t')) (tm_process vt data t)) l;
            excess = saturating_sub (retained_bytes l) (rb_per_run_limit b);
            reclaimable = (case usize_try_from (saturating_sub protected (first_available_byte l)) of
                             None \<Rightarrow> USIZE_MAX | Some n \<Rightarrow> n);
            (_, l, b) = trim_front_bounded excess reclaimable (l, b)
        in Some (chunk, l, b))))"

text \<open>\<^verbatim>\<open>Drop for OutputLog\<close>\<close>

definition log_drop :: "'p output_log \<Rightarrow> retention_counter \<Rightarrow> retention_counter" where
  "log_drop l b = budget_sub (retained_bytes l) b"

section \<open>Replay\<close>

definition retained_after :: "output_chunk \<Rightarrow> u64 \<Rightarrow> output_chunk option" where
  "retained_after chunk after_byte =
     (if end_byte chunk \<le> after_byte then None
      else if start_byte chunk \<ge> after_byte then Some chunk
      else (let offset = after_byte - start_byte chunk in
            if offset \<le> length (chunk_data chunk)
            then Some \<lparr>start_byte = after_byte, end_byte = end_byte chunk,
                       chunk_data = drop offset (chunk_data chunk)\<rparr>
            else None))"

definition gap_at_or_after :: "'p output_log \<Rightarrow> u64 \<Rightarrow> bool" where
  "gap_at_or_after l after_byte =
     (case source_gap_after_byte l of None \<Rightarrow> False | Some gap \<Rightarrow> after_byte \<le> gap)"

definition log_replay :: "'p output_log \<Rightarrow> u64 \<Rightarrow> output_replay" where
  "log_replay l after_byte =
     (let first = first_available_byte l in
      \<lparr>rp_chunks = List.map_filter (\<lambda>chunk. retained_after chunk (max after_byte first)) (ol_chunks l),
       rp_first_available_byte = first,
       rp_latest_output_bytes = latest_output_bytes l,
       rp_truncated = (gap_at_or_after l after_byte \<or> after_byte < first)\<rparr>)"

definition durable_replay :: "'p output_log \<Rightarrow> u64 \<Rightarrow> output_replay" where
  "durable_replay l after_byte =
     (log_replay l after_byte)\<lparr>rp_first_available_byte := 0,
        rp_truncated := (source_gap_after_byte l \<noteq> None)\<rparr>"

fun page_chunks :: "u64 \<Rightarrow> u64 \<Rightarrow> output_chunk list \<Rightarrow> output_chunk list option" where
  "page_chunks first lst [] = Some []"
| "page_chunks first lst (chunk # cs) =
     (let start = max (start_byte chunk) first; stop = min (end_byte chunk) lst in
      if start < stop
      then (case slice_get (chunk_data chunk) (start - start_byte chunk) (stop - start_byte chunk) of
              None \<Rightarrow> None
            | Some data \<Rightarrow> map_option (Cons \<lparr>start_byte = start, end_byte = stop, chunk_data = data\<rparr>)
                              (page_chunks first lst cs))
      else page_chunks first lst cs)"

definition replay_page :: "'p output_log \<Rightarrow> u64 \<Rightarrow> u64 \<Rightarrow> output_replay option" where
  "replay_page l after_byte through =
     (let first = max after_byte (first_available_byte l);
          lst = min through (saturating_add first (64 * 1024))
      in map_option (\<lambda>cs.
           \<lparr>rp_chunks = cs, rp_first_available_byte = first_available_byte l,
            rp_latest_output_bytes = min through (latest_output_bytes l),
            rp_truncated = (after_byte < first_available_byte l \<or> gap_at_or_after l after_byte)\<rparr>)
         (page_chunks first lst (ol_chunks l)))"

definition offer_replay :: "'p output_log \<Rightarrow> u64 \<Rightarrow> output_replay option" where
  "offer_replay l after_byte =
     map_option (\<lambda>replay.
        replay\<lparr>rp_first_available_byte := 0,
          rp_truncated := (source_gap_after_byte l \<noteq> None),
          rp_latest_output_bytes :=
            (if rp_chunks replay = [] then after_byte else end_byte (last (rp_chunks replay)))\<rparr>)
      (replay_page l after_byte (latest_output_bytes l))"

text \<open>Recovery of the derived terminal from what persistence saved for this Run.\<close>

definition recover_terminal ::
  "'p vt_parser \<Rightarrow> run_id \<Rightarrow> stored_checkpoint option \<Rightarrow> terminal_size option \<Rightarrow> 'p output_log \<Rightarrow> 'p output_log" where
  "recover_terminal vt rid saved confirmed l =
     (case saved of
        None \<Rightarrow> l
      | Some saved \<Rightarrow>
          (let t = tm_recover vt rid saved (log_replay l 0);
               t = (case t of
                      None \<Rightarrow> None
                    | Some t \<Rightarrow> (case confirmed of
                                    None \<Rightarrow> Some t
                                  | Some sz \<Rightarrow> if sz \<noteq> tm_terminal_size vt t then None else Some t));
               l = l\<lparr>ol_terminal := t\<rparr>
           in (case t of
                 Some t \<Rightarrow> l\<lparr>ol_resize_revision := tm_resize_revision t\<rparr>
               | None \<Rightarrow> note_terminal_fault StageRecovery (l\<lparr>terminal_absence := InvalidCheckpoint\<rparr>))))"

section \<open>The retained window\<close>

text \<open>The bytes the log still holds: those of its blocks, less the consumed head.\<close>

definition log_window :: "'p output_log \<Rightarrow> byte list" where
  "log_window l = drop (front_skip l) (chunk_bytes (ol_chunks l))"

definition ring_start :: "'p output_log \<Rightarrow> u64" where
  "ring_start l = (case ol_chunks l of [] \<Rightarrow> latest_output_bytes l | chunk # _ \<Rightarrow> start_byte chunk)"

text \<open>The consumed head lies strictly inside the first block.\<close>

fun head_inside :: "output_chunk list \<Rightarrow> usize \<Rightarrow> bool" where
  "head_inside [] skip \<longleftrightarrow> skip = 0"
| "head_inside (c # cs) skip \<longleftrightarrow> skip < length (chunk_data c)"

definition facts_current :: "'p output_log \<Rightarrow> bool" where
  "facts_current l \<longleftrightarrow> ol_facts l \<in> {None, Some (current_facts l)}"

definition log_ok :: "'p output_log \<Rightarrow> bool" where
  "log_ok l \<longleftrightarrow> contiguous (ring_start l) (ol_chunks l)
     \<and> chunks_end (ring_start l) (ol_chunks l) = latest_output_bytes l
     \<and> head_inside (ol_chunks l) (front_skip l)
     \<and> retained_bytes l = length (log_window l)
     \<and> list_all (\<lambda>c. length (chunk_data c) \<le> REPLAY_CACHE_BLOCK_BYTES) (ol_chunks l)
     \<and> latest_output_bytes l \<le> U64_MAX
     \<and> facts_current l"

lemma contiguous_shape: "contiguous b cs \<Longrightarrow> cs \<noteq> [] \<Longrightarrow> start_byte (hd cs) = b"
  by (cases cs) auto

lemma first_available_eq: "head_inside (ol_chunks l) (front_skip l) \<Longrightarrow> first_available_byte l = ring_start l + front_skip l"
  by (cases "ol_chunks l") (auto simp: first_available_byte_def ring_start_def)

lemma log_ok_window:
  assumes "log_ok l"
  shows "latest_output_bytes l = first_available_byte l + length (log_window l)"
    "first_available_byte l \<le> latest_output_bytes l"
proof -
  have c: "contiguous (ring_start l) (ol_chunks l)"
    and e: "chunks_end (ring_start l) (ol_chunks l) = latest_output_bytes l"
    and h: "head_inside (ol_chunks l) (front_skip l)"
    using assms by (auto simp: log_ok_def)
  have "front_skip l \<le> length (chunk_bytes (ol_chunks l))"
    using h by (cases "ol_chunks l") auto
  then show "latest_output_bytes l = first_available_byte l + length (log_window l)"
    using contiguous_end [OF c] e first_available_eq [OF h] by (simp add: log_window_def)
  then show "first_available_byte l \<le> latest_output_bytes l" by simp
qed

text \<open>What an observer of the ring sees; the derived terminal is not part of it.\<close>

lemma log_fields_derive [simp]:
  assumes "log_derive_terminal stage f l = (v, l')"
  shows "ol_chunks l' = ol_chunks l" "front_skip l' = front_skip l" "retained_bytes l' = retained_bytes l"
    "latest_output_bytes l' = latest_output_bytes l" "source_gap_after_byte l' = source_gap_after_byte l"
    "ol_facts l' = ol_facts l" "ol_resize_revision l' = ol_resize_revision l"
  using assms
  by (auto simp: log_derive_terminal_def note_terminal_fault_def Let_def split: option.splits if_splits)

lemma log_ok_cong:
  assumes "ol_chunks l' = ol_chunks l" "front_skip l' = front_skip l" "retained_bytes l' = retained_bytes l"
    "latest_output_bytes l' = latest_output_bytes l" "ol_facts l' = ol_facts l"
  shows "log_ok l' \<longleftrightarrow> log_ok l" "log_window l' = log_window l" "first_available_byte l' = first_available_byte l"
proof -
  have "ring_start l' = ring_start l" and f: "first_available_byte l' = first_available_byte l"
    using assms by (cases "ol_chunks l"; simp add: ring_start_def first_available_byte_def)+
  moreover from f have "facts_current l' = facts_current l"
    using assms by (simp add: facts_current_def current_facts_def)
  ultimately show "log_ok l' \<longleftrightarrow> log_ok l" "log_window l' = log_window l" "first_available_byte l' = first_available_byte l"
    using assms by (simp_all add: log_ok_def log_window_def)
qed

subsection \<open>Trimming\<close>

lemma publish_facts_simps [simp]:
  "ol_chunks (publish_facts l) = ol_chunks l" "front_skip (publish_facts l) = front_skip l"
  "retained_bytes (publish_facts l) = retained_bytes l"
  "latest_output_bytes (publish_facts l) = latest_output_bytes l"
  "source_gap_after_byte (publish_facts l) = source_gap_after_byte l"
  "first_available_byte (publish_facts l) = first_available_byte l"
  "log_window (publish_facts l) = log_window l" "ring_start (publish_facts l) = ring_start l"
  "facts_current (publish_facts l)"
  by (auto simp: publish_facts_def first_available_byte_def log_window_def ring_start_def
      facts_current_def current_facts_def split: list.split)

lemma trim_loop_spec:
  assumes "head_inside cs skip" "contiguous b0 cs" "retained = length (drop skip (chunk_bytes cs))" "freed \<le> d" "freed \<le> mx"
    "trim_loop d mx cs skip retained b freed = (cs', skip', retained', b', freed')"
  shows "head_inside cs' skip' \<and> (\<exists>b1. contiguous b1 cs' \<and> chunks_end b1 cs' = chunks_end b0 cs
          \<and> (cs' \<noteq> [] \<longrightarrow> b1 + skip' = b0 + skip + (freed' - freed)))
    \<and> drop skip' (chunk_bytes cs') = drop (freed' - freed) (drop skip (chunk_bytes cs))
    \<and> retained' = length (drop skip' (chunk_bytes cs'))
    \<and> freed' = freed + min (min (d - freed) (mx - freed)) retained
    \<and> b' = budget_sub (freed' - freed) b
    \<and> set cs' \<subseteq> set cs"
  using assms
proof (induction d mx cs skip retained b freed arbitrary: b0 rule: trim_loop.induct)
  case (1 d mx cs skip retained b freed)
  show ?case
  proof (cases "freed < d \<and> freed < mx \<and> cs \<noteq> []")
    case False
    then have "(cs', skip', retained', b', freed') = (cs, skip, retained, b, freed)"
      using "1.prems"(6) by (subst (asm) trim_loop.simps) (auto split: list.splits if_splits)
    then show ?thesis
      using False "1.prems" by (auto intro!: exI [of _ b0])
  next
    case True
    then obtain c rest where cs: "cs = c # rest" by (cases cs) auto
    have ok: "chunk_ok c" "start_byte c = b0" "contiguous (end_byte c) rest"
      using "1.prems"(2) by (auto simp: cs)
    have skip: "skip < length (chunk_data c)" using "1.prems"(1) by (simp add: cs)
    define av where "av = length (chunk_data c) - skip"
    define n where "n = min (min av (d - freed)) (mx - freed)"
    have av: "0 < av" "av \<le> retained" and n: "0 < n" "n \<le> av" "n \<le> d - freed" "n \<le> mx - freed"
      using skip True "1.prems"(3) by (auto simp: av_def n_def cs)
    show ?thesis
    proof (cases "n < av")
      case True
      then have full: "n = min (d - freed) (mx - freed)" by (simp add: n_def min_def split: if_splits)
      have "trim_loop d mx cs (skip + n) (retained - n) (budget_sub n b) (freed + n) = (cs', skip', retained', b', freed')"
        using "1.prems"(6) \<open>freed < d \<and> freed < mx \<and> cs \<noteq> []\<close> True
        by (subst (asm) trim_loop.simps) (simp add: cs av_def [symmetric] n_def [symmetric] Let_def)
      moreover have "\<not> (freed + n < d \<and> freed + n < mx)" using full n by auto
      ultimately have r: "cs' = cs" "skip' = skip + n" "retained' = retained - n" "b' = budget_sub n b" "freed' = freed + n"
        by (subst (asm) trim_loop.simps, simp)+
      have "skip + n < length (chunk_data c)" using True by (simp add: av_def)
      then have "head_inside cs' skip'" by (simp add: r cs)
      moreover have "min (min (d - freed) (mx - freed)) retained = n" using full n av by simp
      ultimately show ?thesis
        using r "1.prems"(2,3) by (intro conjI exI [of _ b0]) (simp_all add: add.commute)
    next
      case False
      then have eq: "n = av" using n by simp
      have run: "trim_loop d mx rest 0 (retained - n) (budget_sub n b) (freed + n) = (cs', skip', retained', b', freed')"
        using "1.prems"(6) \<open>freed < d \<and> freed < mx \<and> cs \<noteq> []\<close> False
        by (subst (asm) trim_loop.simps) (simp add: cs av_def [symmetric] n_def [symmetric] Let_def)
      have h0: "head_inside rest 0" using ok(3) by (cases rest) (auto simp: chunk_ok_def)
      have r0: "retained - n = length (drop 0 (chunk_bytes rest))"
        using "1.prems"(3) skip eq by (simp add: cs av_def)
      have "freed + n \<le> d" "freed + n \<le> mx" using n True by auto
      have cond: "freed < d \<and> freed < mx" using True by simp
      note IH = "1.IH"(2) [OF cond cs av_def, folded n_def, OF refl False h0 ok(3) r0 \<open>freed + n \<le> d\<close> \<open>freed + n \<le> mx\<close> run]
      have e: "end_byte c = b0 + skip + n"
        using ok skip eq by (simp add: chunk_ok_def av_def)
      have d: "drop skip (chunk_bytes cs) = drop skip (chunk_data c) @ chunk_bytes rest" "length (drop skip (chunk_data c)) = n"
        using skip eq by (simp_all add: cs av_def)
      note i = IH [THEN conjunct1] IH [THEN conjunct2, THEN conjunct1] IH [THEN conjunct2, THEN conjunct2, THEN conjunct1]
        IH [THEN conjunct2, THEN conjunct2, THEN conjunct2]
      define k where "k = min (min (d - (freed + n)) (mx - (freed + n))) (retained - n)"
      have f: "freed' = freed + n + k" using i(4) by (simp only: k_def)
      have k: "freed' - (freed + n) = k" "freed' - freed = n + k" using f by simp_all
      have "head_inside cs' skip'" by (rule i(1))
      moreover have "retained' = length (drop skip' (chunk_bytes cs'))" using i(4) by blast
      moreover have "set cs' \<subseteq> set cs" using i(4) by (simp only: cs list.set) blast
      moreover have "drop skip' (chunk_bytes cs') = drop (freed' - freed) (drop skip (chunk_bytes cs))"
        using i(3) d unfolding k by (simp add: add.commute)
      moreover have "freed' = freed + min (min (d - freed) (mx - freed)) retained"
        unfolding f k_def using n av(2) min_shift [of n "d - freed" "mx - freed" retained] by simp
      moreover have "b' = budget_sub (freed' - freed) b"
        using i(4) unfolding k by (simp only: budget_sub_sub)
      moreover have "\<exists>b1. contiguous b1 cs' \<and> chunks_end b1 cs' = chunks_end b0 cs
          \<and> (cs' \<noteq> [] \<longrightarrow> b1 + skip' = b0 + skip + (freed' - freed))"
        using i(2) unfolding k by (simp add: cs e add.assoc)
      ultimately show ?thesis by blast
    qed
  qed
qed

lemma trim_front_bounded_spec:
  assumes "log_ok l" "trim_front_bounded d mx (l, b) = (freed, l', b')"
  shows "log_ok l'" "freed = min (min d mx) (retained_bytes l)"
    "log_window l' = drop freed (log_window l)" "retained_bytes l' = retained_bytes l - freed"
    "first_available_byte l' = first_available_byte l + freed"
    "latest_output_bytes l' = latest_output_bytes l" "b' = budget_sub freed b"
    "source_gap_after_byte l' = source_gap_after_byte l"
proof -
  obtain cs skip retained where loop:
      "trim_loop d mx (ol_chunks l) (front_skip l) (retained_bytes l) b 0 = (cs, skip, retained, b', freed)"
    and l': "l' = publish_facts (l\<lparr>ol_chunks := cs, front_skip := skip, retained_bytes := retained\<rparr>)"
    using assms(2) by (auto simp: trim_front_bounded_def split: prod.splits)
  have ok: "head_inside (ol_chunks l) (front_skip l)" "contiguous (ring_start l) (ol_chunks l)"
    "retained_bytes l = length (drop (front_skip l) (chunk_bytes (ol_chunks l)))"
    "chunks_end (ring_start l) (ol_chunks l) = latest_output_bytes l"
    using assms(1) by (auto simp: log_ok_def log_window_def)
  note t = trim_loop_spec [OF ok(1-3) le0 le0 loop]
  from t have t1: "head_inside cs skip" "retained = length (drop skip (chunk_bytes cs))" "set cs \<subseteq> set (ol_chunks l)"
    by blast+
  from t have w: "drop skip (chunk_bytes cs) = drop freed (log_window l)" and b': "b' = budget_sub freed b"
    unfolding log_window_def diff_zero by blast+
  from t have f: "freed = min (min d mx) (retained_bytes l)"
    unfolding diff_zero add_0 by blast
  obtain b1 where b1: "contiguous b1 cs" "chunks_end b1 cs = latest_output_bytes l"
    "cs \<noteq> [] \<longrightarrow> b1 + skip = ring_start l + front_skip l + freed"
    using t ok(4) by auto
  show W: "log_window l' = drop freed (log_window l)"
    using w by (simp add: l') (simp add: log_window_def)
  show "retained_bytes l' = retained_bytes l - freed"
    using t1(2) w ok(3) by (simp add: l' log_window_def)
  show lat: "latest_output_bytes l' = latest_output_bytes l" "b' = budget_sub freed b"
    "source_gap_after_byte l' = source_gap_after_byte l" "freed = min (min d mx) (retained_bytes l)"
    by (simp_all add: l' b' f)
  have rs: "ring_start l' = (if cs = [] then latest_output_bytes l else b1)"
    using contiguous_shape [OF b1(1)] by (cases cs) (simp_all add: l' ring_start_def publish_facts_def)
  have c': "contiguous (ring_start l') cs" "chunks_end (ring_start l') cs = latest_output_bytes l"
    using b1 by (cases cs; simp add: rs)+
  have cs': "ol_chunks l' = cs" "front_skip l' = skip" "retained_bytes l' = retained" "facts_current l'"
    by (simp_all add: l')
  show ok': "log_ok l'"
    using assms(1) t1 c' cs' lat W w by (auto simp: log_ok_def list_all_iff)
  show "first_available_byte l' = first_available_byte l + freed"
  proof -
    have "length (log_window l') = length (log_window l) - freed" using W by simp
    moreover have "freed \<le> length (log_window l)" using f ok(3) by (simp add: log_window_def)
    ultimately show ?thesis
      using log_ok_window(1) [OF ok'] log_ok_window(1) [OF assms(1)] lat(1) by linarith
  qed
qed

subsection \<open>Admission\<close>

lemma push_block_spec:
  assumes "contiguous b0 cs" "chunks_end b0 cs = start" "data \<noteq> []" "length data \<le> REPLAY_CACHE_BLOCK_BYTES"
    "list_all (\<lambda>c. length (chunk_data c) \<le> REPLAY_CACHE_BLOCK_BYTES) cs"
  shows "contiguous b0 (push_block start data cs)" "chunks_end b0 (push_block start data cs) = start + length data"
    "chunk_bytes (push_block start data cs) = chunk_bytes cs @ data"
    "list_all (\<lambda>c. length (chunk_data c) \<le> REPLAY_CACHE_BLOCK_BYTES) (push_block start data cs)"
    "cs \<noteq> [] \<Longrightarrow> start_byte (hd (push_block start data cs)) = start_byte (hd cs)
        \<and> length (chunk_data (hd cs)) \<le> length (chunk_data (hd (push_block start data cs)))"
    "push_block start data cs \<noteq> []"
proof -
  have "contiguous b0 (push_block start data cs) \<and> chunks_end b0 (push_block start data cs) = start + length data
    \<and> chunk_bytes (push_block start data cs) = chunk_bytes cs @ data
    \<and> list_all (\<lambda>c. length (chunk_data c) \<le> REPLAY_CACHE_BLOCK_BYTES) (push_block start data cs)
    \<and> (cs \<noteq> [] \<longrightarrow> start_byte (hd (push_block start data cs)) = start_byte (hd cs)
        \<and> length (chunk_data (hd cs)) \<le> length (chunk_data (hd (push_block start data cs))))
    \<and> push_block start data cs \<noteq> []"
  proof (cases cs rule: rev_cases)
    case Nil
    then show ?thesis using assms by (simp add: push_block_def chunk_ok_def)
  next
    case (snoc ys y)
    then show ?thesis using assms by (cases ys) (auto simp: push_block_def chunk_ok_def)
  qed
  then show "contiguous b0 (push_block start data cs)" "chunks_end b0 (push_block start data cs) = start + length data"
    "chunk_bytes (push_block start data cs) = chunk_bytes cs @ data"
    "list_all (\<lambda>c. length (chunk_data c) \<le> REPLAY_CACHE_BLOCK_BYTES) (push_block start data cs)"
    "cs \<noteq> [] \<Longrightarrow> start_byte (hd (push_block start data cs)) = start_byte (hd cs)
        \<and> length (chunk_data (hd cs)) \<le> length (chunk_data (hd (push_block start data cs)))"
    "push_block start data cs \<noteq> []"
    by blast+
qed

lemma push_blocks_Nil [simp]: "push_blocks start [] cs = cs"
  by (simp add: push_blocks.simps)

lemma push_blocks_spec:
  assumes "contiguous b0 cs" "chunks_end b0 cs = start"
    "list_all (\<lambda>c. length (chunk_data c) \<le> REPLAY_CACHE_BLOCK_BYTES) cs"
  shows "contiguous b0 (push_blocks start data cs) \<and> chunks_end b0 (push_blocks start data cs) = start + length data
    \<and> chunk_bytes (push_blocks start data cs) = chunk_bytes cs @ data
    \<and> list_all (\<lambda>c. length (chunk_data c) \<le> REPLAY_CACHE_BLOCK_BYTES) (push_blocks start data cs)
    \<and> (cs \<noteq> [] \<longrightarrow> push_blocks start data cs \<noteq> []
        \<and> length (chunk_data (hd cs)) \<le> length (chunk_data (hd (push_blocks start data cs))))"
  using assms
proof (induction start data cs rule: push_blocks.induct)
  case (1 start data cs)
  show ?case
  proof (cases "data = []")
    case True
    with 1 show ?thesis by simp
  next
    case False
    let ?d = "take REPLAY_CACHE_BLOCK_BYTES data"
    have d: "?d \<noteq> []" "length ?d \<le> REPLAY_CACHE_BLOCK_BYTES" using False by (simp_all add: REPLAY_CACHE_BLOCK_BYTES_def)
    note pb = push_block_spec [OF "1.prems"(1,2) d "1.prems"(3)]
    note IH = "1.IH" [OF False pb(1,2,4)]
    have e: "push_blocks start data cs = push_blocks (start + length ?d) (drop REPLAY_CACHE_BLOCK_BYTES data) (push_block start ?d cs)"
      using False by (simp add: push_blocks.simps [of start data cs])
    have "start + length ?d + length (drop REPLAY_CACHE_BLOCK_BYTES data) = start + length data"
      by simp
    then show ?thesis
      unfolding e using IH pb(3,5,6) by (auto simp del: length_take length_drop)
  qed
qed

text \<open>Admission before the per-Run trim: the ring, the facts and the head.\<close>

definition admit_chunk :: "byte list \<Rightarrow> 'p output_log \<Rightarrow> 'p output_log" where
  "admit_chunk data l = publish_facts (l\<lparr>latest_output_bytes := latest_output_bytes l + length data,
     retained_bytes := saturating_add (retained_bytes l) (length data),
     ol_chunks := push_blocks (latest_output_bytes l) data (ol_chunks l)\<rparr>)"

lemma admit_chunk_spec:
  assumes "log_ok l" "data \<noteq> []" "latest_output_bytes l + length data \<le> U64_MAX"
  shows "log_ok (admit_chunk data l)" "log_window (admit_chunk data l) = log_window l @ data"
    "latest_output_bytes (admit_chunk data l) = latest_output_bytes l + length data"
    "first_available_byte (admit_chunk data l) = first_available_byte l"
    "retained_bytes (admit_chunk data l) = retained_bytes l + length data"
    "source_gap_after_byte (admit_chunk data l) = source_gap_after_byte l"
proof -
  let ?l = "admit_chunk data l" and ?cs = "push_blocks (latest_output_bytes l) data (ol_chunks l)"
  have ok: "contiguous (ring_start l) (ol_chunks l)" "chunks_end (ring_start l) (ol_chunks l) = latest_output_bytes l"
    "head_inside (ol_chunks l) (front_skip l)" "retained_bytes l = length (log_window l)"
    "list_all (\<lambda>c. length (chunk_data c) \<le> REPLAY_CACHE_BLOCK_BYTES) (ol_chunks l)"
    using assms(1) by (auto simp: log_ok_def)
  note p = push_blocks_spec [OF ok(1,2,5), of data]
  have ne: "?cs \<noteq> []"
    using p assms(2) by (metis chunk_bytes_simps(1) append_is_Nil_conv)
  have skip: "front_skip l \<le> length (chunk_bytes (ol_chunks l))"
    using ok(3) by (cases "ol_chunks l") auto
  have rs: "ring_start ?l = ring_start l"
    using contiguous_shape [of "ring_start l" ?cs] p ne
    by (cases ?cs) (auto simp: admit_chunk_def ring_start_def publish_facts_def split: list.splits)
  have "ol_chunks ?l = ?cs" "front_skip ?l = front_skip l" "facts_current ?l"
    by (simp_all add: admit_chunk_def)
  note f = this
  show W: "log_window ?l = log_window l @ data"
    using p skip f by (simp add: log_window_def)
  show L: "latest_output_bytes ?l = latest_output_bytes l + length data"
    "source_gap_after_byte ?l = source_gap_after_byte l"
    by (simp_all add: admit_chunk_def)
  have "retained_bytes l \<le> latest_output_bytes l"
    using log_ok_window(1) [OF assms(1)] ok(4) by simp
  then show R: "retained_bytes ?l = retained_bytes l + length data"
    using assms(3) by (simp add: admit_chunk_def)
  have "head_inside ?cs (front_skip l)"
    using p ok(3) ne assms(2) by (cases "ol_chunks l"; cases ?cs) (auto simp: chunk_ok_def)
  then show K: "log_ok ?l"
    using p f rs W L R ok(4) assms(3) by (simp add: log_ok_def)
  show "first_available_byte ?l = first_available_byte l"
    using log_ok_window(1) [OF K] log_ok_window(1) [OF assms(1)] W L by simp
qed

lemma push_protected_eq:
  assumes "log_ok l" "data \<noteq> []" "latest_output_bytes l + length data \<le> U64_MAX" "protected \<le> U64_MAX"
  obtains l1 l2 b2 freed v where
    "log_derive_terminal StageProcess (\<lambda>t. map_option (\<lambda>t'. ((), t')) (tm_process vt data t)) (admit_chunk data l) = (v, l1)"
    "trim_front_bounded (retained_bytes l1 - rb_per_run_limit b) (protected - first_available_byte l1)
        (l1, budget_add (length data) b) = (freed, l2, b2)"
    "push_protected vt data protected (l, b) =
       Some (\<lparr>start_byte = latest_output_bytes l, end_byte = latest_output_bytes l + length data, chunk_data = data\<rparr>, l2, b2)"
proof -
  obtain v l1 where d: "log_derive_terminal StageProcess (\<lambda>t. map_option (\<lambda>t'. ((), t')) (tm_process vt data t))
      (admit_chunk data l) = (v, l1)" by fastforce
  obtain freed l2 b2 where t: "trim_front_bounded (retained_bytes l1 - rb_per_run_limit b)
      (protected - first_available_byte l1) (l1, budget_add (length data) b) = (freed, l2, b2)"
    using prod_cases3 by blast
  have "protected - first_available_byte l1 \<le> USIZE_MAX"
    using assms(4) by (simp add: USIZE_MAX_eq_U64_MAX)
  then have "push_protected vt data protected (l, b) =
       Some (\<lparr>start_byte = latest_output_bytes l, end_byte = latest_output_bytes l + length data, chunk_data = data\<rparr>, l2, b2)"
    using assms(2,3) d t
    by (simp add: push_protected_def checked_add_def admit_chunk_def saturating_sub_def usize_try_from_def)
  with d t that show ?thesis by blast
qed

lemma push_protected_spec:
  assumes "log_ok l" "data \<noteq> []" "latest_output_bytes l + length data \<le> U64_MAX" "protected \<le> U64_MAX"
  obtains chunk l' b' freed where "push_protected vt data protected (l, b) = Some (chunk, l', b')"
    "chunk_ok chunk" "start_byte chunk = latest_output_bytes l" "chunk_data chunk = data"
    "log_ok l'" "latest_output_bytes l' = latest_output_bytes l + length data"
    "freed = min (min (retained_bytes l + length data - rb_per_run_limit b) (protected - first_available_byte l))
               (retained_bytes l + length data)"
    "log_window l' = drop freed (log_window l @ data)" "first_available_byte l' = first_available_byte l + freed"
    "retained_bytes l' = retained_bytes l + length data - freed"
    "b' = budget_sub freed (budget_add (length data) b)" "source_gap_after_byte l' = source_gap_after_byte l"
proof -
  obtain l1 l2 b2 freed v where
    d: "log_derive_terminal StageProcess (\<lambda>t. map_option (\<lambda>t'. ((), t')) (tm_process vt data t)) (admit_chunk data l) = (v, l1)"
    and t: "trim_front_bounded (retained_bytes l1 - rb_per_run_limit b) (protected - first_available_byte l1)
        (l1, budget_add (length data) b) = (freed, l2, b2)"
    and p: "push_protected vt data protected (l, b) =
       Some (\<lparr>start_byte = latest_output_bytes l, end_byte = latest_output_bytes l + length data, chunk_data = data\<rparr>, l2, b2)"
    by (rule push_protected_eq [OF assms])
  note a = admit_chunk_spec [OF assms(1-3)]
  note f = log_fields_derive [OF d]
  note c = log_ok_cong [OF f(1-4,6)]
  have "log_ok l1" using c(1) a(1) by simp
  note tr = trim_front_bounded_spec [OF this t]
  have e: "retained_bytes l1 = retained_bytes l + length data" "first_available_byte l1 = first_available_byte l"
    "latest_output_bytes l1 = latest_output_bytes l + length data" "log_window l1 = log_window l @ data"
    "source_gap_after_byte l1 = source_gap_after_byte l"
    using f(3-5) c(2,3) a(2-6) by simp_all
  show ?thesis
    by (rule that [OF p _ _ _ tr(1) _ tr(2) [unfolded e] tr(3) [unfolded e] tr(5) [unfolded e] tr(4) [unfolded e] tr(7)])
       (simp_all add: chunk_ok_def assms(2) tr(6,8) e)
qed



section \<open>Replay serves the window\<close>

text \<open>The bytes at offsets \<open>{x..<y}\<close> of a stream whose first byte has offset \<open>b\<close>.\<close>

definition byte_range :: "u64 \<Rightarrow> byte list \<Rightarrow> u64 \<Rightarrow> u64 \<Rightarrow> byte list" where
  "byte_range b bs x y = take (y - max b x) (drop (x - b) bs)"

lemma byte_range_Nil [simp]: "byte_range b [] x y = []"
  by (simp add: byte_range_def)

lemma byte_range_empty: "y \<le> b \<or> y \<le> x \<or> b + length bs \<le> x \<Longrightarrow> byte_range b bs x y = []"
  by (auto simp: byte_range_def max_def)

lemma byte_range_append:
  "byte_range b (ds @ bs) x y = byte_range b ds x y @ byte_range (b + length ds) bs x y"
proof -
  consider "x \<le> b" | "b < x" "x \<le> b + length ds" | "b + length ds < x" by linarith
  then show ?thesis
    by cases (auto simp: byte_range_def max_def add.commute intro!: arg_cong2 [where f = take])
qed

lemma byte_range_length: "length (byte_range b bs x y) = min y (b + length bs) - max b x"
  by (auto simp: byte_range_def min_def max_def)

lemma byte_range_drop: "b \<le> c \<Longrightarrow> c \<le> x \<Longrightarrow> byte_range c (drop (c - b) bs) x y = byte_range b bs x y"
  by (simp add: byte_range_def)

lemma page_chunks_spec:
  assumes "contiguous b cs"
  shows "\<exists>ps. page_chunks x y cs = Some ps \<and> chunk_bytes ps = byte_range b (chunk_bytes cs) x y
    \<and> contiguous (max b x) ps
    \<and> (ps = [] \<or> end_byte (last ps) = min y (chunks_end b cs))"
  using assms
proof (induction cs arbitrary: b)
  case Nil
  then show ?case by simp
next
  case (Cons c cs)
  have ok: "chunk_ok c" "start_byte c = b" "contiguous (end_byte c) cs" "end_byte c = b + length (chunk_data c)"
    using Cons.prems by (auto simp: chunk_ok_def)
  have lt: "b < end_byte c" using ok(1,2) by (simp add: chunk_ok_def)
  obtain ps where ps: "page_chunks x y cs = Some ps" "chunk_bytes ps = byte_range (end_byte c) (chunk_bytes cs) x y"
    "contiguous (max (end_byte c) x) ps" "ps = [] \<or> end_byte (last ps) = min y (chunks_end (end_byte c) cs)"
    using Cons.IH [OF ok(3)] by blast
  let ?x = "max b x" and ?y = "min (end_byte c) y"
  show ?case
  proof (cases "?x < ?y")
    case False
    then have e: "byte_range b (chunk_data c) x y = []"
      using ok(4) lt by (intro byte_range_empty) (auto simp: max_def min_def split: if_splits)
    have "ps = []" if "x < end_byte c"
    proof -
      have "y \<le> end_byte c" using False that lt by linarith
      then have "chunk_bytes ps = []" using ps(2) by (simp add: byte_range_empty)
      then show "ps = []" using ps(3) by (cases ps) (auto simp: chunk_ok_def)
    qed
    then have "contiguous (max b x) ps"
      using ps(3) ok(4) by (cases "x < end_byte c") (auto simp: max_def)
    moreover have "page_chunks x y (c # cs) = Some ps"
      by (simp only: page_chunks.simps Let_def ok(2) False if_False ps(1))
    moreover have "byte_range b (chunk_bytes (c # cs)) x y = chunk_bytes ps"
      using e ps(2) ok(4) by (simp add: byte_range_append)
    ultimately show ?thesis
      using ps(4) by simp
  next
    case True
    let ?data = "take (?y - ?x) (drop (?x - b) (chunk_data c))"
    have sl: "slice_get (chunk_data c) (?x - b) (?y - b) = Some ?data"
      using True ok(4) by (auto simp: slice_get_def)
    have br: "byte_range b (chunk_data c) x y = ?data"
      using True ok(4) by (auto simp: byte_range_def min_def max_def)
    have pc: "page_chunks x y (c # cs) = Some (\<lparr>start_byte = ?x, end_byte = ?y, chunk_data = ?data\<rparr> # ps)"
      using True sl ps(1) ok(2) by (simp add: Let_def)
    have len: "length ?data = ?y - ?x" using True ok(4) by simp
    have rest: "contiguous ?y ps \<and> (ps = [] \<longrightarrow> ?y = min y (chunks_end b (c # cs)))"
    proof (cases "y \<le> end_byte c")
      case True
      then have "chunk_bytes ps = []" using ps(2) by (simp add: byte_range_empty)
      then have "ps = []" using ps(3) by (cases ps) (auto simp: chunk_ok_def)
      then show ?thesis using True contiguous_le [OF ok(3)] by auto
    next
      case False
      then have "contiguous ?y ps" using ps(3) \<open>?x < ?y\<close> by (simp add: max_def min_def split: if_splits)
      moreover have "cs = []" if "ps = []"
      proof (rule ccontr)
        assume "cs \<noteq> []"
        then have "chunk_bytes cs \<noteq> []" using ok(3) by (cases cs) (auto simp: chunk_ok_def)
        then have "length (byte_range (end_byte c) (chunk_bytes cs) x y) \<noteq> 0"
          using False \<open>?x < ?y\<close> by (auto simp: byte_range_length min_def)
        then show False using ps(2) that by simp
      qed
      ultimately show ?thesis using False by auto
    qed
    let ?q = "\<lparr>start_byte = ?x, end_byte = ?y, chunk_data = ?data\<rparr>"
    have "?data \<noteq> []" using len True by (metis length_0_conv less_numeral_extra(3) zero_less_diff)
    then have "chunk_ok ?q" using len True by (simp only: chunk_ok_def output_chunk.select_convs) simp
    then have "contiguous (max b x) (?q # ps)" using rest by simp
    moreover have "chunk_bytes (?q # ps) = byte_range b (chunk_bytes (c # cs)) x y"
      using br ps(2) ok(4) by (simp only: chunk_bytes_simps byte_range_append output_chunk.select_convs)
    moreover have "end_byte (last (?q # ps)) = min y (chunks_end b (c # cs))"
      using rest ps(4) by (cases "ps = []") auto
    ultimately show ?thesis
      using pc by blast
  qed
qed

lemma replay_page_spec:
  fixes after_byte through :: u64
  assumes "log_ok l"
  defines "first \<equiv> max after_byte (first_available_byte l)"
  defines "page_end \<equiv> min through (min U64_MAX (first + 65536))"
  obtains ps where "replay_page l after_byte through = Some
      \<lparr>rp_chunks = ps, rp_first_available_byte = first_available_byte l,
       rp_latest_output_bytes = min through (latest_output_bytes l),
       rp_truncated = (after_byte < first_available_byte l \<or> gap_at_or_after l after_byte)\<rparr>"
    "chunk_bytes ps = byte_range (first_available_byte l) (log_window l) first page_end"
    "contiguous first ps" "length (chunk_bytes ps) = min page_end (latest_output_bytes l) - first"
proof -
  let ?f = "first_available_byte l"
  have ok: "contiguous (ring_start l) (ol_chunks l)" "head_inside (ol_chunks l) (front_skip l)"
    using assms(1) by (auto simp: log_ok_def)
  have f: "?f = ring_start l + front_skip l" by (rule first_available_eq [OF ok(2)])
  have pe: "min through (saturating_add first 65536) = page_end"
    by (simp add: page_end_def saturating_add_def min.commute)
  obtain ps where ps: "page_chunks first page_end (ol_chunks l) = Some ps"
    "chunk_bytes ps = byte_range (ring_start l) (chunk_bytes (ol_chunks l)) first page_end"
    "contiguous (max (ring_start l) first) ps"
    using page_chunks_spec [OF ok(1), of first page_end] by blast
  have fr: "ring_start l \<le> ?f" "?f \<le> first" using f by (simp_all add: first_def)
  have bytes: "chunk_bytes ps = byte_range ?f (log_window l) first page_end"
    using ps(2) fr byte_range_drop [of "ring_start l" ?f first "chunk_bytes (ol_chunks l)" page_end]
    by (simp add: log_window_def f)
  have lat: "latest_output_bytes l = ?f + length (log_window l)" by (rule log_ok_window [OF assms(1)])
  have len: "length (chunk_bytes ps) = min page_end (latest_output_bytes l) - first"
    unfolding bytes byte_range_length using fr lat by simp
  have "contiguous first ps" using ps(3) fr by (simp add: max_absorb2)
  moreover have "replay_page l after_byte through = Some
      \<lparr>rp_chunks = ps, rp_first_available_byte = first_available_byte l,
       rp_latest_output_bytes = min through (latest_output_bytes l),
       rp_truncated = (after_byte < first_available_byte l \<or> gap_at_or_after l after_byte)\<rparr>"
    using ps(1) by (simp add: replay_page_def Let_def first_def [symmetric] pe)
  ultimately show ?thesis using that bytes len by blast
qed

lemma contiguous_last: "contiguous b cs \<Longrightarrow> cs \<noteq> [] \<Longrightarrow> end_byte (last cs) = chunks_end b cs"
  by (induction cs arbitrary: b) auto

text \<open>An offer from a retained start carries the next page of the window, and its head is the offset
  just past what it carries.\<close>

lemma offer_replay_spec:
  assumes "log_ok l" "first_available_byte l \<le> start" "start \<le> latest_output_bytes l"
  obtains rp where "offer_replay l start = Some rp" "contiguous start (rp_chunks rp)"
    "chunk_bytes (rp_chunks rp) = take 65536 (drop (start - first_available_byte l) (log_window l))"
    "chunks_end start (rp_chunks rp) = rp_latest_output_bytes rp"
    "start < latest_output_bytes l \<Longrightarrow> start < rp_latest_output_bytes rp"
    "rp_latest_output_bytes rp \<le> latest_output_bytes l"
proof -
  let ?f = "first_available_byte l" and ?e = "min (latest_output_bytes l) (min U64_MAX (start + 65536))"
  have m: "max start ?f = start" using assms(2) by simp
  have le: "latest_output_bytes l \<le> U64_MAX" using assms(1) by (simp add: log_ok_def)
  have lat: "latest_output_bytes l = ?f + length (log_window l)" by (rule log_ok_window [OF assms(1)])
  obtain ps where ps: "replay_page l start (latest_output_bytes l) = Some
      \<lparr>rp_chunks = ps, rp_first_available_byte = ?f,
       rp_latest_output_bytes = min (latest_output_bytes l) (latest_output_bytes l),
       rp_truncated = (start < ?f \<or> gap_at_or_after l start)\<rparr>"
    "chunk_bytes ps = byte_range ?f (log_window l) start ?e"
    "contiguous start ps" "length (chunk_bytes ps) = min ?e (latest_output_bytes l) - start"
    by (rule replay_page_spec [OF assms(1), of start "latest_output_bytes l", unfolded m])
  have b: "chunk_bytes ps = take 65536 (drop (start - ?f) (log_window l))"
    using ps(2) m le lat assms(2,3)
    by (auto simp: byte_range_def max.commute min_def)
  have ce: "chunks_end start ps = start + length (chunk_bytes ps)" by (rule contiguous_end [OF ps(3)])
  let ?rp = "\<lparr>rp_chunks = ps, rp_first_available_byte = 0, rp_latest_output_bytes = chunks_end start ps,
    rp_truncated = (source_gap_after_byte l \<noteq> None)\<rparr>"
  have "(if ps = [] then start else end_byte (last ps)) = chunks_end start ps"
    using contiguous_last [OF ps(3)] by auto
  then have "offer_replay l start = Some ?rp"
    by (auto simp: offer_replay_def ps(1))
  then show ?thesis
    by (rule that) (use ps(3,4) b ce assms(2,3) le in auto)
qed

text \<open>
  C12.  A replay page never faults and serves exactly the retained bytes it covers: the page is a
  contiguous run of chunks from the cursor (or from the first retained byte), at most 64 KiB, whose
  bytes are those of the window; it is non-empty while the cursor is behind both the target and the
  head, so paging makes progress; and truncation is reported exactly when bytes at the cursor are
  gone or a source gap lies at or after it.
\<close>

theorem replay_page_exact:
  assumes "log_ok l" "after_byte \<le> U64_MAX"
  shows "\<exists>rp. replay_page l after_byte through = Some rp
    \<and> (let first = max after_byte (first_available_byte l); page_end = min through (min U64_MAX (first + 65536)) in
        chunk_bytes (rp_chunks rp) = byte_range (first_available_byte l) (log_window l) first page_end
      \<and> contiguous first (rp_chunks rp)
      \<and> length (chunk_bytes (rp_chunks rp)) \<le> 65536
      \<and> (first < through \<and> first < latest_output_bytes l \<longrightarrow> chunk_bytes (rp_chunks rp) \<noteq> []))
    \<and> (rp_truncated rp \<longleftrightarrow> after_byte < first_available_byte l \<or> gap_at_or_after l after_byte)"
proof -
  let ?f = "first_available_byte l"
  let ?first = "max after_byte ?f" and ?stop = "min through (min U64_MAX (max after_byte ?f + 65536))"
  obtain ps where ps: "replay_page l after_byte through = Some
      \<lparr>rp_chunks = ps, rp_first_available_byte = ?f,
       rp_latest_output_bytes = min through (latest_output_bytes l),
       rp_truncated = (after_byte < ?f \<or> gap_at_or_after l after_byte)\<rparr>"
    "chunk_bytes ps = byte_range ?f (log_window l) ?first ?stop"
    "contiguous ?first ps" "length (chunk_bytes ps) = min ?stop (latest_output_bytes l) - ?first"
    by (rule replay_page_spec [OF assms(1), of after_byte through])
  have "latest_output_bytes l \<le> U64_MAX" using assms(1) by (simp add: log_ok_def)
  then have "chunk_bytes ps \<noteq> []" if "?first < through \<and> ?first < latest_output_bytes l"
    using that ps(4) by auto
  moreover have "length (chunk_bytes ps) \<le> 65536" using ps(4) by linarith
  ultimately show ?thesis using ps(1-3) by (simp add: Let_def)
qed

theorem replay_page_exact_witness:
  "\<exists>rp. replay_page (admit_chunk [5, 6, 7, 8] log_new :: (nat \<times> nat \<times> byte list) output_log) 1 3 = Some rp
     \<and> chunk_bytes (rp_chunks rp) = [6, 7]"
proof -
  let ?l = "admit_chunk [5, 6, 7, 8] log_new :: (nat \<times> nat \<times> byte list) output_log"
  have new: "log_ok (log_new :: (nat \<times> nat \<times> byte list) output_log)"
    "log_window (log_new :: (nat \<times> nat \<times> byte list) output_log) = []"
    "first_available_byte (log_new :: (nat \<times> nat \<times> byte list) output_log) = 0"
    by (simp_all add: log_ok_def log_new_def ring_start_def log_window_def facts_current_def first_available_byte_def)
  have a: "log_ok ?l" "log_window ?l = [5, 6, 7, 8]" "first_available_byte ?l = 0"
    using admit_chunk_spec [OF new(1), of "[5, 6, 7, 8]"] new(2,3) by (simp_all add: log_new_def max_values)
  show ?thesis
    using replay_page_exact [OF a(1), of 1 3] by (auto simp: a max_values byte_range_def Let_def)
qed

lemma map_filter_retained:
  assumes "contiguous b cs" "b \<le> c"
  shows "chunk_bytes (List.map_filter (\<lambda>ch. retained_after ch c) cs) = drop (c - b) (chunk_bytes cs)
    \<and> (c \<le> chunks_end b cs \<longrightarrow> contiguous c (List.map_filter (\<lambda>ch. retained_after ch c) cs)
         \<and> chunks_end c (List.map_filter (\<lambda>ch. retained_after ch c) cs) = chunks_end b cs)"
  using assms
proof (induction cs arbitrary: b)
  case Nil
  then show ?case by (simp add: List.map_filter_def)
next
  case (Cons ch cs)
  have ok: "chunk_ok ch" "start_byte ch = b" "contiguous (end_byte ch) cs" "end_byte ch = b + length (chunk_data ch)"
    using Cons.prems by (auto simp: chunk_ok_def)
  let ?r = "List.map_filter (\<lambda>ch. retained_after ch c)"
  show ?case
  proof (cases "end_byte ch \<le> c")
    case True
    then have "?r (ch # cs) = ?r cs" by (simp add: List.map_filter_def retained_after_def)
    then show ?thesis
      using Cons.IH [OF ok(3) True] True ok(4) by simp
  next
    case False
    have rest: "?r cs = cs"
    proof -
      have "end_byte ch \<le> start_byte x \<and> chunk_ok x" if "x \<in> set cs" for x
        using that ok(3)
      proof (induction cs arbitrary: ch)
        case (Cons y ys)
        then show ?case by (fastforce simp: chunk_ok_def)
      qed simp
      then have "retained_after x c = Some x" if "x \<in> set cs" for x
        using that False by (fastforce simp: retained_after_def chunk_ok_def)
      then show ?thesis by (induction cs) (auto simp: List.map_filter_def)
    qed
    let ?ch = "\<lparr>start_byte = c, end_byte = end_byte ch, chunk_data = drop (c - b) (chunk_data ch)\<rparr>"
    have "retained_after ch c = Some ?ch"
      using False ok Cons.prems(2) by (auto simp: retained_after_def Let_def)
    then have "?r (ch # cs) = ?ch # cs" using rest by (simp add: List.map_filter_def)
    moreover have "chunk_ok ?ch" using False ok(4) Cons.prems(2) by (simp add: chunk_ok_def)
    ultimately show ?thesis
      using ok False by simp
  qed
qed

text \<open>
  The full replay is the retained window from the requested byte: a contiguous run of chunks
  from the cursor (or the first retained byte) to the head, carrying exactly the window's bytes;
  it claims to be complete only if nothing at or after the cursor was evicted and no source gap lies
  there.  A cursor beyond the head yields no chunk.
\<close>

theorem log_replay_exact:
  assumes "log_ok l"
  shows "chunk_bytes (rp_chunks (log_replay l after_byte)) = drop (after_byte - first_available_byte l) (log_window l)
    \<and> (after_byte \<le> latest_output_bytes l \<longrightarrow>
         contiguous (max after_byte (first_available_byte l)) (rp_chunks (log_replay l after_byte))
         \<and> chunks_end (max after_byte (first_available_byte l)) (rp_chunks (log_replay l after_byte))
             = rp_latest_output_bytes (log_replay l after_byte))
    \<and> (\<not> rp_truncated (log_replay l after_byte) \<longrightarrow> first_available_byte l \<le> after_byte
         \<and> (\<forall>gap. source_gap_after_byte l = Some gap \<longrightarrow> gap < after_byte))"
proof -
  have ok: "contiguous (ring_start l) (ol_chunks l)" "head_inside (ol_chunks l) (front_skip l)"
    "chunks_end (ring_start l) (ol_chunks l) = latest_output_bytes l"
    using assms by (auto simp: log_ok_def)
  note f = first_available_eq [OF ok(2)]
  let ?c = "max after_byte (first_available_byte l)"
  have "ring_start l \<le> ?c" using f by simp
  note m = map_filter_retained [OF ok(1) this]
  have "drop (?c - ring_start l) (chunk_bytes (ol_chunks l)) = drop (after_byte - first_available_byte l) (log_window l)"
    using f by (auto simp: log_window_def max_def)
  moreover have "after_byte \<le> latest_output_bytes l \<longrightarrow> ?c \<le> latest_output_bytes l"
    using log_ok_window(2) [OF assms] by simp
  moreover have "source_gap_after_byte l = Some gap \<Longrightarrow> \<not> gap_at_or_after l after_byte \<Longrightarrow> gap < after_byte" for gap
    by (simp add: gap_at_or_after_def)
  ultimately show ?thesis
    using m ok(3) by (auto simp: log_replay_def Let_def)
qed

theorem log_replay_exact_example:
  "chunk_bytes (rp_chunks (log_replay (admit_chunk [5, 6, 7, 8] log_new :: (nat \<times> nat \<times> byte list) output_log) 1)) = [6, 7, 8]"
proof -
  let ?l = "admit_chunk [5, 6, 7, 8] log_new :: (nat \<times> nat \<times> byte list) output_log"
  have new: "log_ok (log_new :: (nat \<times> nat \<times> byte list) output_log)"
    "log_window (log_new :: (nat \<times> nat \<times> byte list) output_log) = []"
    "first_available_byte (log_new :: (nat \<times> nat \<times> byte list) output_log) = 0"
    by (simp_all add: log_ok_def log_new_def ring_start_def log_window_def facts_current_def first_available_byte_def)
  have a: "log_ok ?l" "log_window ?l = [5, 6, 7, 8]" "first_available_byte ?l = 0"
    using admit_chunk_spec [OF new(1), of "[5, 6, 7, 8]"] new(2,3) by (simp_all add: log_new_def max_values)
  show ?thesis
    using log_replay_exact [OF a(1), of 1] by (simp add: a)
qed

section \<open>Geometry revisions\<close>

text \<open>The log and its derived model agree on the number of confirmed resizes.\<close>

definition revisions_agree :: "'p output_log \<Rightarrow> bool" where
  "revisions_agree l \<longleftrightarrow> (case ol_terminal l of None \<Rightarrow> True | Some t \<Rightarrow> tm_resize_revision t = ol_resize_revision l)"

text \<open>What a resize does to the model, and what an attempt on the log's model leaves behind.\<close>

lemma tm_resize_result:
  assumes "tm_resize vt sz b t = Some (r, t')"
  shows "r = \<lparr>tr_through_byte = b, tr_resize_revision = tm_resize_revision t + 1, tr_size = sz\<rparr>"
    "tm_resize_revision t' = tm_resize_revision t + 1"
  using assms by (auto simp: tm_resize_def Let_def split: option.splits)

lemma note_terminal_fault_frame:
  "ol_terminal (note_terminal_fault stage l) = ol_terminal l"
  "terminal_absence (note_terminal_fault stage l) = terminal_absence l"
  "checkpoint_dirty (note_terminal_fault stage l) = checkpoint_dirty l"
  "ol_terminal_fault (note_terminal_fault stage l) \<noteq> None"
  by (auto simp: note_terminal_fault_def Let_def split: option.splits)

lemma log_derive_terminal_none:
  "ol_terminal l = None \<Longrightarrow> log_derive_terminal stage f l = (None, l)"
  by (simp add: log_derive_terminal_def)

lemma log_derive_terminal_some:
  "ol_terminal l = Some t \<Longrightarrow> f t = Some (v, t') \<Longrightarrow>
     log_derive_terminal stage f l = (Some v, l\<lparr>ol_terminal := Some t'\<rparr>)"
  by (simp add: log_derive_terminal_def)

lemma log_derive_terminal_unwound:
  "ol_terminal l = Some t \<Longrightarrow> f t = None \<Longrightarrow>
     log_derive_terminal stage f l = (None, note_terminal_fault stage
       (l\<lparr>ol_terminal := None, terminal_absence := InvalidCheckpoint, checkpoint_dirty := False\<rparr>))"
  by (simp add: log_derive_terminal_def)

text \<open>
  Every confirmed resize gets the next revision at the current output head, whether the derived
  terminal handles it, is absent, or unwinds on it: the receipt, the log and the surviving model agree,
  a model that unwound is discarded and its fault reported once, and no retained byte changes.
\<close>

theorem resize_receipt_exact:
  assumes "revisions_agree l" "resize_terminal vt sz l = (r, l')"
  shows "r = \<lparr>tr_through_byte = latest_output_bytes l, tr_resize_revision = ol_resize_revision l + 1, tr_size = sz\<rparr>
    \<and> ol_resize_revision l' = ol_resize_revision l + 1 \<and> revisions_agree l'
    \<and> log_window l' = log_window l \<and> latest_output_bytes l' = latest_output_bytes l
    \<and> (ol_terminal l \<noteq> None \<and> ol_terminal l' = None \<longrightarrow>
         terminal_absence l' = InvalidCheckpoint \<and> ol_terminal_fault l' \<noteq> None \<and> \<not> checkpoint_dirty l')"
proof -
  let ?l = "l\<lparr>ol_resize_revision := ol_resize_revision l + 1\<rparr>"
  let ?f = "tm_resize vt sz (latest_output_bytes l)"
  obtain d m where d: "log_derive_terminal StageResize ?f ?l = (d, m)" by fastforce
  note fr = log_fields_derive [OF d]
  have l': "l' = m\<lparr>checkpoint_dirty := (ol_terminal m \<noteq> None)\<rparr>"
    and r: "r = (case d of Some r \<Rightarrow> r
               | None \<Rightarrow> \<lparr>tr_through_byte = latest_output_bytes l, tr_resize_revision = ol_resize_revision m, tr_size = sz\<rparr>)"
    using assms(2) d by (auto simp: resize_terminal_def Let_def split: option.splits)
  have w: "log_window l' = log_window l"
    using fr by (simp add: l' log_window_def)
  show ?thesis
  proof (cases "ol_terminal l")
    case None
    then have "d = None" "m = ?l" using d by (simp_all add: log_derive_terminal_none)
    then show ?thesis using None w r l' by (simp add: revisions_agree_def)
  next
    case (Some t)
    then have agree: "tm_resize_revision t = ol_resize_revision l" using assms(1) by (simp add: revisions_agree_def)
    show ?thesis
    proof (cases "?f t")
      case None
      then have "d = None" and m: "m = note_terminal_fault StageResize
          (?l\<lparr>ol_terminal := None, terminal_absence := InvalidCheckpoint, checkpoint_dirty := False\<rparr>)"
        using d Some by (simp_all add: log_derive_terminal_unwound)
      then show ?thesis
        using w r l' fr(4,7) by (simp add: revisions_agree_def note_terminal_fault_frame)
    next
      case (Some rt)
      then obtain v t' where vt: "?f t = Some (v, t')" by (cases rt) simp
      then have "d = Some v" "m = ?l\<lparr>ol_terminal := Some t'\<rparr>"
        using d \<open>ol_terminal l = Some t\<close> by (simp_all add: log_derive_terminal_some)
      then show ?thesis
        using w r l' tm_resize_result [OF vt] agree by (simp add: revisions_agree_def)
    qed
  qed
qed

theorem resize_receipt_exact_example:
  "tr_resize_revision (fst (resize_terminal echo_vt \<lparr>rows = 30, cols = 90\<rparr> (log_new :: (nat \<times> nat \<times> byte list) output_log))) = 1"
proof -
  have "revisions_agree (log_new :: (nat \<times> nat \<times> byte list) output_log)"
    by (simp add: revisions_agree_def log_new_def)
  from resize_receipt_exact [OF this prod.collapse [symmetric]] show ?thesis
    by (simp add: log_new_def)
qed

end
