(* ===== verification/Persistent_Run.thy ===== *)
theory Persistent_Run
  imports Output_Log
begin

text \<open>
  The writer side of the persistence actor as one Run sees it: \<^verbatim>\<open>PersistentRun\<close> and the shared
  \<^verbatim>\<open>Persistence\<close> handle (\<^verbatim>\<open>crates/ctxmux-daemon/src/persistence.rs\<close>).  The bounded
  \<^verbatim>\<open>sync_channel\<close> is the list of its unreceived commands; \<open>pi_connected\<close> tells whether the actor
  still holds the receiver.  A Run keeps two watermarks: \<open>pr_durable_head\<close>, the bytes confirmed
  settled, and \<open>pr_offered_head\<close>, the bytes handed over; bytes below the first may leave memory,
  bytes below the second are never offered again.
\<close>

definition PERSISTENCE_QUEUE_CAPACITY :: nat where "PERSISTENCE_QUEUE_CAPACITY = 16"

datatype persist_command =
    CmdAppend run_id output_replay
  | CmdTerminalCheckpoint run_id "stored_checkpoint option"
  | CmdLifecycleWake

record persistence_inner =
  pi_failure :: bool
  pi_connected :: bool
  pi_commands :: "persist_command list"
  pi_queue_depth :: usize
  pi_output_wake_requested :: bool

record persistent_run =
  pr_durable_head :: u64
  pr_offered_head :: u64

definition try_send :: "persist_command \<Rightarrow> persistence_inner \<Rightarrow> persistence_inner option" where
  "try_send c p =
     (if pi_connected p \<and> length (pi_commands p) < PERSISTENCE_QUEUE_CAPACITY
      then Some (p\<lparr>pi_commands := pi_commands p @ [c]\<rparr>) else None)"

definition request_output_wake :: "persistence_inner \<Rightarrow> persistence_inner" where
  "request_output_wake p = p\<lparr>pi_output_wake_requested := True\<rparr>"

definition queue_has_room :: "persistence_inner \<Rightarrow> bool \<times> persistence_inner" where
  "queue_has_room p =
     (if pi_queue_depth p < PERSISTENCE_QUEUE_CAPACITY then (True, p)
      else (pi_queue_depth p < PERSISTENCE_QUEUE_CAPACITY, request_output_wake p))"

definition next_replay_start :: "persistent_run \<Rightarrow> u64" where
  "next_replay_start d = pr_offered_head d"

definition retention_protected_from :: "persistent_run \<Rightarrow> u64" where
  "retention_protected_from d = pr_durable_head d"

definition pr_append ::
  "run_id \<Rightarrow> output_replay \<Rightarrow> persistent_run \<times> persistence_inner \<Rightarrow> bool \<times> persistent_run \<times> persistence_inner" where
  "pr_append rid replay = (\<lambda>(d, p).
     (if pi_failure p then (False, d, p)
      else if \<not> pi_queue_depth p < PERSISTENCE_QUEUE_CAPACITY then (False, d, request_output_wake p)
      else (let p = p\<lparr>pi_queue_depth := pi_queue_depth p + 1\<rparr> in
            case try_send (CmdAppend rid replay) p of
              Some p \<Rightarrow> (True, d\<lparr>pr_offered_head := max (pr_offered_head d) (rp_latest_output_bytes replay)\<rparr>, p)
            | None \<Rightarrow> (False, d, request_output_wake (p\<lparr>pi_queue_depth := pi_queue_depth p - 1\<rparr>)))))"

definition offer_terminal_checkpoint :: "run_id \<Rightarrow> stored_checkpoint \<Rightarrow> persistence_inner \<Rightarrow> bool \<times> persistence_inner" where
  "offer_terminal_checkpoint rid saved p =
     (case try_send (CmdTerminalCheckpoint rid (Some saved)) p of
        Some p \<Rightarrow> (True, p) | None \<Rightarrow> (False, p))"

section \<open>The debt of one Run\<close>

text \<open>The append payloads of one Run still in the channel, in order.\<close>

fun run_appends :: "run_id \<Rightarrow> persist_command list \<Rightarrow> output_chunk list" where
  "run_appends rid [] = []"
| "run_appends rid (CmdAppend i replay # cs) = (if i = rid then rp_chunks replay else []) @ run_appends rid cs"
| "run_appends rid (_ # cs) = run_appends rid cs"

lemma run_appends_append [simp]: "run_appends rid (as @ bs) = run_appends rid as @ run_appends rid bs"
  by (induction as rule: run_appends.induct) auto

lemma try_send_SomeD:
  assumes "try_send c p = Some p'"
  shows "pi_commands p' = pi_commands p @ [c]" "pi_queue_depth p' = pi_queue_depth p"
    "pi_failure p' = pi_failure p" "pi_connected p' = pi_connected p"
    "length (pi_commands p) < PERSISTENCE_QUEUE_CAPACITY"
  using assms by (auto simp: try_send_def split: if_splits)

lemma request_output_wake_frame [simp]:
  "pi_commands (request_output_wake p) = pi_commands p" "pi_queue_depth (request_output_wake p) = pi_queue_depth p"
  "pi_failure (request_output_wake p) = pi_failure p" "pi_connected (request_output_wake p) = pi_connected p"
  by (simp_all add: request_output_wake_def)

lemma pr_append_cases:
  assumes "pr_append rid replay (d, p) = (ok, d', p')"
  obtains (accepted) "ok" "pi_commands p' = pi_commands p @ [CmdAppend rid replay]"
      "d' = d\<lparr>pr_offered_head := max (pr_offered_head d) (rp_latest_output_bytes replay)\<rparr>"
      "pi_queue_depth p' = pi_queue_depth p + 1"
  | (refused) "\<not> ok" "pi_commands p' = pi_commands p" "d' = d" "pi_queue_depth p' = pi_queue_depth p"
  using assms
  by (auto simp: pr_append_def try_send_def Let_def split: if_splits)

lemma pr_append_durable [simp]:
  "pr_append rid replay (d, p) = (ok, d', p') \<Longrightarrow> pr_durable_head d' = pr_durable_head d"
  by (erule pr_append_cases) simp_all

end
