(* ===== verification/Retention.thy ===== *)
theory Retention
  imports Resources Persistent_Run "HOL-Library.Product_Lexorder" "HOL-Library.Option_ord" "HOL-Library.Multiset"
begin

text \<open>
  The daemon-wide retention budget (\<^verbatim>\<open>crates/ctxmux-daemon/src/retention.rs\<close>), the Run as its
  eviction victim (\<^verbatim>\<open>impl RetentionVictim for Run\<close>, \<^verbatim>\<open>lib.rs\<close>).

  A Run is modelled by the part of it these operations read and write.  Whether a non-blocking
  lock attempt on the Run's output or persistence mutex succeeds is a field of the Run
  (\<open>run_output_busy\<close>, \<open>run_persistence_busy\<close>); the wake-up notices a released guard sends are
  not modelled.  A \<^verbatim>\<open>Weak\<close> participant handle is the Run's id: upgrading it looks the id up
  among the live Runs.
\<close>

section \<open>Runs\<close>

record 'p run =
  run_rid :: run_id
  run_log :: "'p output_log"
  run_memory_only :: bool
  run_durable :: "persistent_run option"
  run_running :: bool
  run_attachments :: usize
  run_published :: "run_event list"
  run_output_busy :: bool
  run_persistence_busy :: bool

definition usize_or_max :: "u64 \<Rightarrow> usize" where
  "usize_or_max n = (case usize_try_from n of None \<Rightarrow> USIZE_MAX | Some m \<Rightarrow> m)"

definition try_output_protected_from :: "'p run \<Rightarrow> u64 option" where
  "try_output_protected_from r =
     (if run_memory_only r then Some U64_MAX
      else if run_persistence_busy r then None
      else Some (case run_durable r of None \<Rightarrow> 0 | Some d \<Rightarrow> retention_protected_from d))"

definition retained_output_bytes :: "'p run \<Rightarrow> usize option" where
  "retained_output_bytes r = (if run_output_busy r then None else Some (retained_bytes (run_log r)))"

definition reclaimable_output_bytes :: "'p run \<Rightarrow> usize" where
  "reclaimable_output_bytes r =
     (case try_output_protected_from r of
        None \<Rightarrow> 0
      | Some protected \<Rightarrow>
          if run_output_busy r then 0
          else min (retained_bytes (run_log r))
                 (usize_or_max (saturating_sub protected (first_available_byte (run_log r)))))"

definition is_attached :: "'p run \<Rightarrow> bool" where
  "is_attached r \<longleftrightarrow> run_attachments r \<noteq> 0"

definition reclaim_output ::
  "'p vt_parser \<Rightarrow> usize \<Rightarrow> 'p run \<times> retention_counter \<Rightarrow> usize \<times> 'p run \<times> retention_counter" where
  "reclaim_output vt drop_at_least = (\<lambda>(r, b).
     (case try_output_protected_from r of
        None \<Rightarrow> (0, r, b)
      | Some protected \<Rightarrow>
          if run_output_busy r then (0, r, b)
          else (let reclaimable = saturating_sub protected (first_available_byte (run_log r));
                    (freed, l, b) = trim_front_bounded drop_at_least (usize_or_max reclaimable) (run_log r, b);
                    l = terminal_pressure vt (run_rid r) l
                in (freed, r\<lparr>run_log := l\<rparr>, b))))"

section \<open>The budget and its participants\<close>

text \<open>\<^verbatim>\<open>std::cmp::Reverse\<close> on the observed retention.\<close>

datatype reverse = Reverse (unreverse: "usize option")

instantiation reverse :: linorder
begin

definition less_eq_reverse :: "reverse \<Rightarrow> reverse \<Rightarrow> bool" where
  "less_eq_reverse a b \<longleftrightarrow> unreverse b \<le> unreverse a"

definition less_reverse :: "reverse \<Rightarrow> reverse \<Rightarrow> bool" where
  "less_reverse a b \<longleftrightarrow> unreverse b < unreverse a"

instance
  by standard (auto simp: less_eq_reverse_def less_reverse_def reverse.expand)

end

record 'p fleet =
  fl_budget :: retention_counter
  fl_participants :: "run_id list"
  fl_runs :: "run_id \<Rightarrow> 'p run option"
  fl_reclaiming :: bool
  fl_persistence :: persistence_inner

definition with_resources :: "resource_limits \<Rightarrow> retention_counter \<times> byte_budget" where
  "with_resources rs =
     (\<lparr>rb_limit = hot_output_bytes rs, rb_per_run_limit = run_output_bytes rs, rb_total = 0\<rparr>,
      budget_new (live_event_bytes rs))"

definition register :: "run_id \<Rightarrow> 'p fleet \<Rightarrow> 'p fleet" where
  "register i s = (if i \<in> set (fl_participants s) then s else s\<lparr>fl_participants := fl_participants s @ [i]\<rparr>)"

definition unregister :: "run_id \<Rightarrow> 'p fleet \<Rightarrow> 'p fleet" where
  "unregister i s = s\<lparr>fl_participants := removeAll i (fl_participants s)\<rparr>"

definition upgrade_all :: "'p fleet \<Rightarrow> 'p run list" where
  "upgrade_all s = List.map_filter (fl_runs s) (fl_participants s)"

text \<open>The funding scan stops as soon as the wanted bytes are covered.\<close>

fun fund_scan :: "run_id \<Rightarrow> u64 \<Rightarrow> 'p run list \<Rightarrow> u64 \<Rightarrow> u64" where
  "fund_scan except wanted [] available = available"
| "fund_scan except wanted (v # vs) available =
     (let available = (if run_rid v \<noteq> except then saturating_add available (reclaimable_output_bytes v) else available)
      in if available \<ge> wanted then available else fund_scan except wanted vs available)"

definition available_for_read :: "run_id \<Rightarrow> usize \<Rightarrow> usize \<Rightarrow> 'p fleet \<Rightarrow> usize" where
  "available_for_read except wanted own_reclaimable s =
     (let wanted = min wanted (rb_limit (fl_budget s));
          available = saturating_add (saturating_sub (rb_limit (fl_budget s)) (rb_total (fl_budget s))) own_reclaimable;
          available = (if available < wanted then fund_scan except wanted (upgrade_all s) available else available)
      in usize_or_max (min available wanted))"

definition victim_key :: "run_id \<Rightarrow> 'p run \<Rightarrow> bool \<times> bool \<times> reverse \<times> run_id" where
  "victim_key except v = (run_rid v = except, is_attached v, Reverse (retained_output_bytes v), run_rid v)"

fun reclaim_victims ::
  "'p vt_parser \<Rightarrow> u64 \<Rightarrow> 'p run list \<Rightarrow> retention_counter \<Rightarrow> 'p run list \<times> retention_counter" where
  "reclaim_victims vt remaining [] b = ([], b)"
| "reclaim_victims vt remaining (v # vs) b =
     (if remaining = 0 then (v # vs, b)
      else (let (freed, v, b) = reclaim_output vt (usize_or_max remaining) (v, b);
                (vs, b) = reclaim_victims vt (saturating_sub remaining freed) vs b
            in (v # vs, b)))"

definition store_runs :: "'p run list \<Rightarrow> (run_id \<Rightarrow> 'p run option) \<Rightarrow> run_id \<Rightarrow> 'p run option" where
  "store_runs rs m = foldl (\<lambda>m r. m(run_rid r \<mapsto> r)) m rs"

definition reclaim_to :: "'p vt_parser \<Rightarrow> run_id \<Rightarrow> u64 \<Rightarrow> 'p fleet \<Rightarrow> 'p fleet" where
  "reclaim_to vt except target s =
     (if rb_total (fl_budget s) \<le> target then s
      else if fl_reclaiming s then s
      else (let over = saturating_sub (rb_total (fl_budget s)) target in
            if over = 0 then s
            else (let s = s\<lparr>fl_participants := filter (\<lambda>i. fl_runs s i \<noteq> None) (fl_participants s)\<rparr>;
                      victims = sort_key (victim_key except) (upgrade_all s);
                      (victims, b) = reclaim_victims vt over victims (fl_budget s)
                  in s\<lparr>fl_runs := store_runs victims (fl_runs s), fl_budget := b\<rparr>)))"

definition reclaim_excess :: "'p vt_parser \<Rightarrow> run_id \<Rightarrow> 'p fleet \<Rightarrow> 'p fleet" where
  "reclaim_excess vt except s = reclaim_to vt except (rb_limit (fl_budget s)) s"

text \<open>The durable binding an output turn works with: none for a memory-only Run.\<close>

definition active_durable :: "'p run \<Rightarrow> persistent_run option" where
  "active_durable r = (if run_memory_only r then None else run_durable r)"

section \<open>One victim\<close>

definition run_ok :: "'p run \<Rightarrow> bool" where
  "run_ok r \<longleftrightarrow> log_ok (run_log r) \<and> latest_output_bytes (run_log r) \<le> U64_MAX
     \<and> (\<forall>d. active_durable r = Some d \<longrightarrow> first_available_byte (run_log r) \<le> pr_durable_head d
          \<and> pr_durable_head d \<le> pr_offered_head d \<and> pr_offered_head d \<le> latest_output_bytes (run_log r))"

lemma usize_or_max_eq: "usize_or_max n = min n USIZE_MAX"
  by (auto simp: usize_or_max_def usize_try_from_def)

lemma usize_or_max_id [simp]: "n \<le> U64_MAX \<Longrightarrow> usize_or_max n = n"
  by (simp add: usize_or_max_eq max_values)

lemma terminal_pressure_frame:
  "ol_chunks (terminal_pressure vt i l) = ol_chunks l" "front_skip (terminal_pressure vt i l) = front_skip l"
  "retained_bytes (terminal_pressure vt i l) = retained_bytes l"
  "latest_output_bytes (terminal_pressure vt i l) = latest_output_bytes l"
  "source_gap_after_byte (terminal_pressure vt i l) = source_gap_after_byte l"
  "ol_facts (terminal_pressure vt i l) = ol_facts l"
proof -
  obtain v m where d: "log_derive_terminal StageExport
      (tm_retention_cut vt i (first_available_byte l) (latest_output_bytes l)) l = (v, m)" by fastforce
  show "ol_chunks (terminal_pressure vt i l) = ol_chunks l" "front_skip (terminal_pressure vt i l) = front_skip l"
    "retained_bytes (terminal_pressure vt i l) = retained_bytes l"
    "latest_output_bytes (terminal_pressure vt i l) = latest_output_bytes l"
    "source_gap_after_byte (terminal_pressure vt i l) = source_gap_after_byte l"
    "ol_facts (terminal_pressure vt i l) = ol_facts l"
    using log_fields_derive [OF d] d by (simp_all add: terminal_pressure_def)
qed

lemma terminal_pressure_keeps [simp]:
  "log_ok (terminal_pressure vt i l) = log_ok l" "log_window (terminal_pressure vt i l) = log_window l"
  "first_available_byte (terminal_pressure vt i l) = first_available_byte l"
  "latest_output_bytes (terminal_pressure vt i l) = latest_output_bytes l"
  "retained_bytes (terminal_pressure vt i l) = retained_bytes l"
  using log_ok_cong [OF terminal_pressure_frame(1,2,3,4,6)] terminal_pressure_frame by metis+

lemma log_ok_retained: "log_ok l \<Longrightarrow> retained_bytes l = length (log_window l)"
  by (simp add: log_ok_def)

lemma log_ok_span: "log_ok l \<Longrightarrow> latest_output_bytes l = first_available_byte l + retained_bytes l"
  using log_ok_window(1) log_ok_retained by metis

lemma protected_le: "run_ok r \<Longrightarrow> try_output_protected_from r = Some p \<Longrightarrow> p \<le> U64_MAX"
  by (auto simp: try_output_protected_from_def run_ok_def active_durable_def retention_protected_from_def max_values
      split: if_splits option.splits)

lemma reclaimable_le: "reclaimable_output_bytes r \<le> retained_bytes (run_log r)"
  by (simp add: reclaimable_output_bytes_def split: option.split)

lemma reclaim_output_spec:
  assumes "run_ok r" "reclaim_output vt n (r, b) = (freed, r', b')"
  shows "freed = min n (reclaimable_output_bytes r)" "r' = r\<lparr>run_log := run_log r'\<rparr>" "run_ok r'"
    "log_window (run_log r') = drop freed (log_window (run_log r))"
    "retained_bytes (run_log r') = retained_bytes (run_log r) - freed"
    "first_available_byte (run_log r') = first_available_byte (run_log r) + freed"
    "latest_output_bytes (run_log r') = latest_output_bytes (run_log r)"
    "b' = budget_sub freed b" "reclaimable_output_bytes r' = reclaimable_output_bytes r - freed"
proof -
  have "freed = min n (reclaimable_output_bytes r) \<and> r' = r\<lparr>run_log := run_log r'\<rparr> \<and> run_ok r'
    \<and> log_window (run_log r') = drop freed (log_window (run_log r))
    \<and> retained_bytes (run_log r') = retained_bytes (run_log r) - freed
    \<and> first_available_byte (run_log r') = first_available_byte (run_log r) + freed
    \<and> latest_output_bytes (run_log r') = latest_output_bytes (run_log r)
    \<and> b' = budget_sub freed b \<and> reclaimable_output_bytes r' = reclaimable_output_bytes r - freed"
  proof (cases "try_output_protected_from r = None \<or> run_output_busy r")
    case True
    then have "freed = 0" "r' = r" "b' = b" "reclaimable_output_bytes r = 0"
      using assms(2) by (auto simp: reclaim_output_def reclaimable_output_bytes_def split: option.splits)
    then show ?thesis using assms(1) by simp
  next
    case False
    then obtain p where p: "try_output_protected_from r = Some p" by auto
    let ?l = "run_log r"
    let ?m = "usize_or_max (p - first_available_byte ?l)"
    obtain l1 where t: "trim_front_bounded n ?m (?l, b) = (freed, l1, b')"
      and r': "r' = r\<lparr>run_log := terminal_pressure vt (run_rid r) l1\<rparr>"
      using assms(2) p False by (auto simp: reclaim_output_def saturating_sub_def split: prod.splits)
    have lok: "log_ok ?l" using assms(1) by (simp add: run_ok_def)
    note sp = trim_front_bounded_spec [OF lok t]
    have m: "?m = p - first_available_byte ?l"
      using protected_le [OF assms(1) p] by simp
    have rc: "reclaimable_output_bytes r = min (retained_bytes ?l) (p - first_available_byte ?l)"
      using p False m by (simp add: reclaimable_output_bytes_def saturating_sub_def)
    have freed: "freed = min n (reclaimable_output_bytes r)"
      using sp(2) m rc by (simp add: min.assoc min.commute min.left_commute)
    have p': "try_output_protected_from r' = Some p"
      using p r' by (simp add: try_output_protected_from_def split: if_splits)
    have durable: "\<forall>d. active_durable r = Some d \<longrightarrow> p = pr_durable_head d"
      using p by (auto simp: try_output_protected_from_def active_durable_def retention_protected_from_def split: if_splits)
    have "reclaimable_output_bytes r' = min (retained_bytes ?l - freed) (p - (first_available_byte ?l + freed))"
      using p' False r' sp(4,5) protected_le [OF assms(1) p]
      by (simp add: reclaimable_output_bytes_def saturating_sub_def)
    then have "reclaimable_output_bytes r' = reclaimable_output_bytes r - freed"
      using rc by linarith
    moreover have "first_available_byte ?l + freed \<le> pr_durable_head d" if d: "active_durable r = Some d" for d
    proof -
      have "first_available_byte ?l \<le> pr_durable_head d" "p = pr_durable_head d"
        using d durable assms(1) by (auto simp: run_ok_def)
      then show ?thesis using freed rc by simp
    qed
    then have "run_ok r'"
      using assms(1) sp(1,5,6) r' by (auto simp: run_ok_def active_durable_def)
    ultimately show ?thesis
      using freed r' sp(3-7) by simp
  qed
  then show "freed = min n (reclaimable_output_bytes r)" "r' = r\<lparr>run_log := run_log r'\<rparr>" "run_ok r'"
    "log_window (run_log r') = drop freed (log_window (run_log r))"
    "retained_bytes (run_log r') = retained_bytes (run_log r) - freed"
    "first_available_byte (run_log r') = first_available_byte (run_log r) + freed"
    "latest_output_bytes (run_log r') = latest_output_bytes (run_log r)"
    "b' = budget_sub freed b" "reclaimable_output_bytes r' = reclaimable_output_bytes r - freed"
    by blast+
qed

section \<open>The victim contract\<close>

text \<open>
  What the reclaimer relies on of \<^verbatim>\<open>dyn RetentionVictim\<close>: a reclaim call frees exactly the
  smaller of what is asked and what is reclaimable, and takes it off the victim's retention and the
  shared total.  From that alone: shedding a list of victims frees exactly the smaller of the
  excess and what they can give, in list order.
\<close>

lemma min_split: "min n a + min (n - min n a) s = min n (a + s :: nat)"
  by linarith

locale retention_victim =
  fixes reclaim :: "usize \<Rightarrow> 'r \<times> 'b \<Rightarrow> usize \<times> 'r \<times> 'b"
    and reclaimable retained :: "'r \<Rightarrow> usize"
    and total :: "'b \<Rightarrow> u64"
    and good :: "'r \<Rightarrow> bool"
  assumes frees: "good r \<Longrightarrow> reclaim n (r, b) = (f, r', b') \<Longrightarrow> f = min n (reclaimable r)"
    and stays_good: "good r \<Longrightarrow> reclaim n (r, b) = (f, r', b') \<Longrightarrow> good r'"
    and off_total: "good r \<Longrightarrow> reclaim n (r, b) = (f, r', b') \<Longrightarrow> total b' = total b - f"
    and off_retained: "good r \<Longrightarrow> reclaim n (r, b) = (f, r', b') \<Longrightarrow> retained r' = retained r - f"
    and off_reclaimable: "good r \<Longrightarrow> reclaim n (r, b) = (f, r', b') \<Longrightarrow> reclaimable r' = reclaimable r - f"
    and within: "good r \<Longrightarrow> reclaimable r \<le> retained r"
begin

fun shed :: "nat \<Rightarrow> 'r list \<Rightarrow> 'b \<Rightarrow> 'r list \<times> 'b" where
  "shed n [] b = ([], b)"
| "shed n (v # vs) b =
     (if n = 0 then (v # vs, b)
      else (let (f, v, b) = reclaim n (v, b); (vs, b) = shed (n - f) vs b in (v # vs, b)))"

lemma shed_cases:
  assumes "n \<noteq> 0" "shed n (v # vs) b = (ws, b')"
  obtains f w b1 ws' where "reclaim n (v, b) = (f, w, b1)" "shed (n - f) vs b1 = (ws', b')" "ws = w # ws'"
  using assms by (auto simp: Let_def split: prod.splits)

lemma shed_totals:
  assumes "\<forall>v\<in>set vs. good v" "shed n vs b = (ws, b')"
  shows "total b' = total b - min n (sum_list (map reclaimable vs))
    \<and> sum_list (map retained ws) = sum_list (map retained vs) - min n (sum_list (map reclaimable vs))
    \<and> (\<forall>v\<in>set ws. good v) \<and> length ws = length vs"
  using assms
proof (induction vs arbitrary: n b ws b')
  case Nil
  then show ?case by simp
next
  case (Cons v vs)
  show ?case
  proof (cases "n = 0")
    case True
    then show ?thesis using Cons.prems by auto
  next
    case False
    obtain f w b1 ws' where r: "reclaim n (v, b) = (f, w, b1)"
      and s: "shed (n - f) vs b1 = (ws', b')" and ws: "ws = w # ws'"
      using shed_cases [OF False Cons.prems(2)] by metis
    have gv: "good v" using Cons.prems by simp
    have ih: "total b' = total b1 - min (n - f) (sum_list (map reclaimable vs))"
      "sum_list (map retained ws') = sum_list (map retained vs) - min (n - f) (sum_list (map reclaimable vs))"
      "\<forall>v\<in>set ws'. good v" "length ws' = length vs"
      using Cons.IH [OF _ s] Cons.prems by auto
    have le: "sum_list (map reclaimable vs) \<le> sum_list (map retained vs)"
      using Cons.prems within by (intro sum_list_mono) auto
    let ?x = "min (n - f) (sum_list (map reclaimable vs))"
    have all: "f + ?x = min n (sum_list (map reclaimable (v # vs)))"
      unfolding frees [OF gv r] by (simp add: min_split)
    have f: "f \<le> retained v" using frees [OF gv r] within [OF gv] by simp
    have "total b' = total b - (f + ?x)" using ih(1) off_total [OF gv r] by simp
    moreover have "sum_list (map retained ws) = sum_list (map retained (v # vs)) - (f + ?x)"
      using ih(2) off_retained [OF gv r] f le by (simp add: ws)
    ultimately show ?thesis
      unfolding all using ih(3,4) stays_good [OF gv r] ws by simp
  qed
qed

text \<open>Victims give in order: whoever gave or was passed before a later giver has nothing left, and
  after the point where the excess was covered nobody is touched.\<close>

lemma shed_order:
  assumes "\<forall>v\<in>set vs. good v" "shed n vs b = (ws, b')" "i < j" "j < length vs" "ws ! j \<noteq> vs ! j"
  shows "reclaimable (ws ! i) = 0"
  using assms
proof (induction vs arbitrary: n b ws b' i j)
  case Nil
  then show ?case by simp
next
  case (Cons v vs)
  have n: "n \<noteq> 0" using Cons.prems(2,5) by (cases "n = 0") auto
  obtain f w b1 ws' where r: "reclaim n (v, b) = (f, w, b1)"
    and s: "shed (n - f) vs b1 = (ws', b')" and ws: "ws = w # ws'"
    using shed_cases [OF n Cons.prems(2)] by metis
  obtain j' where j: "j = Suc j'" using Cons.prems(3) by (cases j) auto
  show ?case
  proof (cases i)
    case 0
    have "n - f \<noteq> 0"
    proof
      assume "n - f = 0"
      then have "ws' = vs" using s by (cases vs) auto
      then show False using Cons.prems(4,5) ws j by simp
    qed
    then have "reclaimable w = 0"
      using frees [OF _ r] off_reclaimable [OF _ r] Cons.prems(1) by auto
    then show ?thesis using 0 ws by simp
  next
    case (Suc i')
    then have "reclaimable (ws' ! i') = 0"
      using Cons.IH [of "n - f" b1 ws' b' i' j'] Cons.prems s ws j by auto
    then show ?thesis using Suc ws by simp
  qed
qed

end

interpretation rv: retention_victim "reclaim_output vt" reclaimable_output_bytes "\<lambda>r. retained_bytes (run_log r)"
  rb_total run_ok
  for vt :: "'p vt_parser"
proof unfold_locales
  fix r :: "'p run" and n b f r' b'
  assume g: "run_ok r" and e: "reclaim_output vt n (r, b) = (f, r', b')"
  note sp = reclaim_output_spec [OF g e]
  show "f = min n (reclaimable_output_bytes r)" "run_ok r'" "rb_total b' = rb_total b - f"
    "retained_bytes (run_log r') = retained_bytes (run_log r) - f"
    "reclaimable_output_bytes r' = reclaimable_output_bytes r - f"
    using sp by simp_all
qed (simp add: reclaimable_le)

section \<open>Fleet-wide reclamation\<close>

definition fleet_retained :: "'p fleet \<Rightarrow> nat" where
  "fleet_retained s = sum_list (map (\<lambda>r. retained_bytes (run_log r)) (upgrade_all s))"

definition fleet_reclaimable :: "'p fleet \<Rightarrow> nat" where
  "fleet_reclaimable s = sum_list (map reclaimable_output_bytes (upgrade_all s))"

definition fleet_ok :: "'p fleet \<Rightarrow> bool" where
  "fleet_ok s \<longleftrightarrow> distinct (fl_participants s) \<and> dom (fl_runs s) \<subseteq> set (fl_participants s)
     \<and> (\<forall>i r. fl_runs s i = Some r \<longrightarrow> run_rid r = i \<and> run_ok r)
     \<and> rb_total (fl_budget s) = fleet_retained s \<and> rb_total (fl_budget s) \<le> U64_MAX"

text \<open>What a reclaim call may do to a Run: drop a prefix of at most its reclaimable bytes.\<close>

definition shortened :: "'p run \<Rightarrow> 'p run \<Rightarrow> bool" where
  "shortened r r' \<longleftrightarrow> r' = r\<lparr>run_log := run_log r'\<rparr> \<and> run_ok r'
     \<and> latest_output_bytes (run_log r') = latest_output_bytes (run_log r)
     \<and> (\<exists>freed \<le> reclaimable_output_bytes r. log_window (run_log r') = drop freed (log_window (run_log r))
          \<and> first_available_byte (run_log r') = first_available_byte (run_log r) + freed
          \<and> reclaimable_output_bytes r' = reclaimable_output_bytes r - freed)"

lemma shortened_refl: "run_ok r \<Longrightarrow> shortened r r"
  unfolding shortened_def by (auto intro!: exI [of _ 0])

lemma shortened_rid: "shortened r r' \<Longrightarrow> run_rid r' = run_rid r"
  unfolding shortened_def by (metis run.select_convs(1) run.surjective run.update_convs(2))

lemma reclaim_output_shortens:
  "run_ok r \<Longrightarrow> reclaim_output vt n (r, b) = (f, r', b') \<Longrightarrow> shortened r r'"
  using reclaim_output_spec [of r vt n b f r' b'] by (auto simp: shortened_def)

lemma reclaim_victims_shed: "n \<le> U64_MAX \<Longrightarrow> reclaim_victims vt n vs b = rv.shed vt n vs b"
proof (induction vs arbitrary: n b)
  case (Cons v vs)
  obtain f w b1 where r: "reclaim_output vt n (v, b) = (f, w, b1)" using prod_cases3 by blast
  have "n - f \<le> U64_MAX" using Cons.prems by simp
  then show ?case using Cons r by (simp add: saturating_sub_def)
qed simp

lemma reclaim_victims_shorten:
  assumes "\<forall>v\<in>set vs. run_ok v" "reclaim_victims vt n vs b = (ws, b')"
  shows "list_all2 shortened vs ws"
  using assms
proof (induction vs arbitrary: n b ws b')
  case (Cons v vs)
  show ?case
  proof (cases "n = 0")
    case True
    then show ?thesis using Cons.prems by (auto intro!: list.rel_refl_strong shortened_refl)
  next
    case False
    obtain f w b1 where r: "reclaim_output vt (usize_or_max n) (v, b) = (f, w, b1)" using prod_cases3 by blast
    obtain ws' b2 where s: "reclaim_victims vt (saturating_sub n f) vs b1 = (ws', b2)" by fastforce
    have "ws = w # ws'" using False r s Cons.prems(2) by simp
    then show ?thesis
      using reclaim_output_shortens [OF _ r] Cons.IH [OF _ s] Cons.prems(1) by simp
  qed
qed simp

lemma reclaim_victims_limits:
  assumes "\<forall>v\<in>set vs. run_ok v" "reclaim_victims vt n vs b = (ws, b')"
  shows "rb_limit b' = rb_limit b" "rb_per_run_limit b' = rb_per_run_limit b"
proof -
  have "rb_limit b' = rb_limit b \<and> rb_per_run_limit b' = rb_per_run_limit b"
    using assms
  proof (induction vs arbitrary: n b ws b')
    case (Cons v vs)
    obtain f w b1 where r: "reclaim_output vt (usize_or_max n) (v, b) = (f, w, b1)" using prod_cases3 by blast
    obtain ws' b2 where s: "reclaim_victims vt (saturating_sub n f) vs b1 = (ws', b2)" by fastforce
    have "b' = (if n = 0 then b else b2)" using r s Cons.prems(2) by (simp split: if_splits)
    then show ?case
      using reclaim_output_spec(8) [OF _ r] Cons.IH [OF _ s] Cons.prems(1) by simp
  qed simp
  then show "rb_limit b' = rb_limit b" "rb_per_run_limit b' = rb_per_run_limit b" by simp_all
qed

lemma store_runs_other: "i \<notin> run_rid ` set rs \<Longrightarrow> store_runs rs m i = m i"
  by (induction rs arbitrary: m) (auto simp: store_runs_def)

lemma store_runs_here:
  "distinct (map run_rid rs) \<Longrightarrow> r \<in> set rs \<Longrightarrow> store_runs rs m (run_rid r) = Some r"
proof (induction rs arbitrary: m)
  case (Cons a rs)
  have e: "store_runs (a # rs) m = store_runs rs (m(run_rid a \<mapsto> a))" by (simp add: store_runs_def)
  show ?case
  proof (cases "r \<in> set rs")
    case True
    then show ?thesis using Cons e by simp
  next
    case False
    then show ?thesis using Cons.prems e by (simp add: store_runs_other)
  qed
qed simp

lemma upgrade_all_set: "r \<in> set (upgrade_all s) \<longleftrightarrow> (\<exists>i\<in>set (fl_participants s). fl_runs s i = Some r)"
  by (force simp: upgrade_all_def List.map_filter_def)

lemma map_filter_rids:
  assumes "\<forall>i r. m i = Some r \<longrightarrow> run_rid r = i" "distinct is"
  shows "distinct (map run_rid (List.map_filter m is))"
proof -
  have "map run_rid (List.map_filter m is) = filter (\<lambda>i. m i \<noteq> None) is"
    using assms(1) by (induction "is") (auto simp: List.map_filter_simps split: option.split)
  then show ?thesis using assms(2) by simp
qed

lemma fleet_rids: "fleet_ok s \<Longrightarrow> distinct (map run_rid (upgrade_all s))"
  unfolding upgrade_all_def fleet_ok_def by (blast intro: map_filter_rids)

lemma fleet_live: "fleet_ok s \<Longrightarrow> r \<in> set (upgrade_all s) \<longleftrightarrow> fl_runs s (run_rid r) = Some r"
  by (auto simp: upgrade_all_set fleet_ok_def)

lemma upgrade_pruned:
  "List.map_filter m (filter (\<lambda>i. m i \<noteq> None) is) = List.map_filter m is"
  by (induction "is") (auto simp: List.map_filter_simps split: option.split)

lemma list_all2_shortened_rids: "list_all2 shortened vs ws \<Longrightarrow> map run_rid ws = map run_rid vs"
  by (induction rule: list_all2_induct) (auto simp: shortened_rid)

lemma sum_list_sort_key: "sum_list (map f (sort_key k xs)) = (sum_list (map f xs) :: nat)"
  by (metis mset_map mset_sort sum_mset_sum_list)

lemma reclaim_excess_over:
  assumes "fleet_ok s" "\<not> fl_reclaiming s" "rb_total (fl_budget s) > rb_limit (fl_budget s)"
  obtains vs ws b' where "vs = sort_key (victim_key except) (upgrade_all s)"
    "rv.shed vt (rb_total (fl_budget s) - rb_limit (fl_budget s)) vs (fl_budget s) = (ws, b')"
    "list_all2 shortened vs ws" "distinct (map run_rid ws)" "\<forall>v\<in>set vs. run_ok v"
    "rb_limit b' = rb_limit (fl_budget s)" "rb_per_run_limit b' = rb_per_run_limit (fl_budget s)"
    "reclaim_excess vt except s = s\<lparr>fl_participants := filter (\<lambda>i. fl_runs s i \<noteq> None) (fl_participants s),
       fl_runs := store_runs ws (fl_runs s), fl_budget := b'\<rparr>"
proof -
  let ?n = "rb_total (fl_budget s) - rb_limit (fl_budget s)"
  define vs where "vs = sort_key (victim_key except) (upgrade_all s)"
  obtain ws b' where r: "reclaim_victims vt ?n vs (fl_budget s) = (ws, b')" by fastforce
  have good: "\<forall>v\<in>set vs. run_ok v"
    using assms(1) by (auto simp: vs_def upgrade_all_set fleet_ok_def)
  have l2: "list_all2 shortened vs ws" by (rule reclaim_victims_shorten [OF good r])
  have "mset (map run_rid vs) = mset (map run_rid (upgrade_all s))" by (simp add: vs_def)
  then have "distinct (map run_rid vs)" using fleet_rids [OF assms(1)] mset_eq_imp_distinct_iff by metis
  then have d: "distinct (map run_rid ws)" using list_all2_shortened_rids [OF l2] by simp
  have "rb_total (fl_budget s) \<le> U64_MAX" using assms(1) by (simp add: fleet_ok_def)
  then have n: "?n \<le> U64_MAX" by linarith
  have e: "reclaim_excess vt except s = s\<lparr>fl_participants := filter (\<lambda>i. fl_runs s i \<noteq> None) (fl_participants s),
       fl_runs := store_runs ws (fl_runs s), fl_budget := b'\<rparr>"
    using assms(2,3) r
    by (simp add: reclaim_excess_def reclaim_to_def saturating_sub_def Let_def vs_def upgrade_all_def
        upgrade_pruned [unfolded not_None_eq])
  have "rv.shed vt ?n vs (fl_budget s) = (ws, b')"
    using r reclaim_victims_shed [OF n, of vt vs "fl_budget s"] by argo
  then show ?thesis
    by (rule that [OF vs_def _ l2 d good reclaim_victims_limits [OF good r] e])
qed

lemma reclaim_excess_idle:
  "fl_reclaiming s \<or> rb_total (fl_budget s) \<le> rb_limit (fl_budget s) \<Longrightarrow> reclaim_excess vt except s = s"
  by (auto simp: reclaim_excess_def reclaim_to_def)

lemma reclaimed_run:
  assumes "list_all2 shortened vs ws" "distinct (map run_rid ws)" "v \<in> set vs"
  obtains w where "w \<in> set ws" "shortened v w" "store_runs ws m (run_rid v) = Some w"
proof -
  obtain k where k: "k < length vs" "vs ! k = v" using assms(3) by (auto simp: in_set_conv_nth)
  then have w: "ws ! k \<in> set ws" "shortened v (ws ! k)"
    using assms(1) by (auto simp: list_all2_conv_all_nth)
  then have "store_runs ws m (run_rid v) = Some (ws ! k)"
    using store_runs_here [OF assms(2) w(1)] shortened_rid [OF w(2)] by simp
  then show ?thesis using that w by blast
qed

lemma reclaim_excess_shortens:
  assumes "fleet_ok s" "fl_runs s i = Some r"
  obtains r' where "fl_runs (reclaim_excess vt except s) i = Some r'" "shortened r r'"
proof (cases "fl_reclaiming s \<or> rb_total (fl_budget s) \<le> rb_limit (fl_budget s)")
  case True
  then have "reclaim_excess vt except s = s" by (rule reclaim_excess_idle)
  then show ?thesis using that [of r] assms by (auto simp: fleet_ok_def intro: shortened_refl)
next
  case False
  then have f: "\<not> fl_reclaiming s" "rb_total (fl_budget s) > rb_limit (fl_budget s)" by auto
  obtain vs ws b' where o: "vs = sort_key (victim_key except) (upgrade_all s)"
    "list_all2 shortened vs ws" "distinct (map run_rid ws)"
    "reclaim_excess vt except s = s\<lparr>fl_participants := filter (\<lambda>i. fl_runs s i \<noteq> None) (fl_participants s),
       fl_runs := store_runs ws (fl_runs s), fl_budget := b'\<rparr>"
    by (rule reclaim_excess_over [OF assms(1) f])
  have i: "run_rid r = i" using assms by (auto simp: fleet_ok_def)
  have "r \<in> set vs" using fleet_live [OF assms(1), of r] assms(2) i o(1) by simp
  then obtain w where "shortened r w" "store_runs ws (fl_runs s) (run_rid r) = Some w"
    using reclaimed_run [OF o(2,3)] by metis
  then show ?thesis using that [of w] o(4) i by simp
qed

lemma shed_target: "(l :: nat) < t \<Longrightarrow> t - min (t - l) r = max l (t - r)"
  by linarith

lemma sum_list_by_rid:
  assumes "distinct (map run_rid xs)" "distinct (map run_rid ys)" "set xs = set ys"
  shows "sum_list (map f xs) = (sum_list (map f ys) :: nat)"
  using assms by (metis distinct_map sum_list_distinct_conv_sum_set)

lemma reclaim_excess_ok:
  assumes "fleet_ok s"
  shows "fleet_ok (reclaim_excess vt except s)"
    "rb_limit (fl_budget (reclaim_excess vt except s)) = rb_limit (fl_budget s)"
    "rb_per_run_limit (fl_budget (reclaim_excess vt except s)) = rb_per_run_limit (fl_budget s)"
    "\<not> fl_reclaiming s \<Longrightarrow> rb_total (fl_budget (reclaim_excess vt except s)) =
       (if rb_total (fl_budget s) \<le> rb_limit (fl_budget s) then rb_total (fl_budget s)
        else max (rb_limit (fl_budget s)) (rb_total (fl_budget s) - fleet_reclaimable s))"
proof -
  let ?s = "reclaim_excess vt except s"
  have "fleet_ok ?s \<and> rb_limit (fl_budget ?s) = rb_limit (fl_budget s)
     \<and> rb_per_run_limit (fl_budget ?s) = rb_per_run_limit (fl_budget s)
     \<and> (\<not> fl_reclaiming s \<longrightarrow> rb_total (fl_budget ?s) =
       (if rb_total (fl_budget s) \<le> rb_limit (fl_budget s) then rb_total (fl_budget s)
        else max (rb_limit (fl_budget s)) (rb_total (fl_budget s) - fleet_reclaimable s)))"
  proof (cases "fl_reclaiming s \<or> rb_total (fl_budget s) \<le> rb_limit (fl_budget s)")
    case True
    then have "?s = s" by (rule reclaim_excess_idle)
    then show ?thesis using assms True by auto
  next
    case False
    then have f: "\<not> fl_reclaiming s" "rb_total (fl_budget s) > rb_limit (fl_budget s)" by auto
    let ?n = "rb_total (fl_budget s) - rb_limit (fl_budget s)"
    obtain vs ws b' where vs: "vs = sort_key (victim_key except) (upgrade_all s)"
      and sh: "rv.shed vt ?n vs (fl_budget s) = (ws, b')"
      and l2: "list_all2 shortened vs ws" and d: "distinct (map run_rid ws)" and good: "\<forall>v\<in>set vs. run_ok v"
      and lim: "rb_limit b' = rb_limit (fl_budget s)" "rb_per_run_limit b' = rb_per_run_limit (fl_budget s)"
      and e: "?s = s\<lparr>fl_participants := filter (\<lambda>i. fl_runs s i \<noteq> None) (fl_participants s),
         fl_runs := store_runs ws (fl_runs s), fl_budget := b'\<rparr>"
      by (rule reclaim_excess_over [OF assms f])
    note tot = rv.shed_totals [OF good sh]
    have rid: "run_rid ` set ws = dom (fl_runs s)"
    proof -
      have "run_rid ` set ws = run_rid ` set (upgrade_all s)"
        using list_all2_shortened_rids [OF l2] vs by (metis set_map set_sort)
      also have "\<dots> = dom (fl_runs s)"
        using assms by (force simp: upgrade_all_set fleet_ok_def image_iff)
      finally show ?thesis .
    qed
    have here: "store_runs ws (fl_runs s) i = Some r \<longleftrightarrow> r \<in> set ws \<and> run_rid r = i" for i r
    proof (cases "i \<in> run_rid ` set ws")
      case True
      then show ?thesis using store_runs_here [OF d, where m = "fl_runs s"] by (metis imageE option.inject)
    next
      case False
      then show ?thesis using store_runs_other [OF False] rid by (auto simp: domIff)
    qed
    have wok: "\<forall>w\<in>set ws. run_ok w" using tot by simp
    have live: "set (upgrade_all ?s) = set ws"
    proof -
      have "i \<in> set (fl_participants s)" "fl_runs s i \<noteq> None" if "i \<in> run_rid ` set ws" for i
        using that rid assms by (auto simp: fleet_ok_def)
      then show ?thesis by (auto simp: e upgrade_all_set here)
    qed
    have part: "distinct (fl_participants ?s)" "dom (fl_runs ?s) \<subseteq> set (fl_participants ?s)"
      using assms rid by (auto simp: e fleet_ok_def here dom_def image_iff)
    have runs: "\<forall>i r. fl_runs ?s i = Some r \<longrightarrow> run_rid r = i \<and> run_ok r"
      using here wok by (simp add: e)
    have "distinct (map run_rid (upgrade_all ?s))"
      unfolding upgrade_all_def by (rule map_filter_rids [OF _ part(1)]) (simp add: runs)
    then have "fleet_retained ?s = sum_list (map (\<lambda>r. retained_bytes (run_log r)) ws)"
      unfolding fleet_retained_def by (rule sum_list_by_rid [OF _ d live])
    moreover have "fleet_retained s = sum_list (map (\<lambda>r. retained_bytes (run_log r)) vs)"
      "fleet_reclaimable s = sum_list (map reclaimable_output_bytes vs)"
      by (simp_all add: fleet_retained_def fleet_reclaimable_def vs sum_list_sort_key)
    ultimately have "rb_total (fl_budget ?s) = fleet_retained ?s"
      "rb_total (fl_budget ?s) = rb_total (fl_budget s) - min ?n (fleet_reclaimable s)"
      using tot assms by (simp_all add: e fleet_ok_def)
    moreover have "rb_total (fl_budget s) \<le> U64_MAX" using assms by (simp add: fleet_ok_def)
    ultimately show ?thesis
      using part runs lim f by (auto simp: fleet_ok_def e shed_target)
  qed
  then show "fleet_ok ?s" "rb_limit (fl_budget ?s) = rb_limit (fl_budget s)"
    "rb_per_run_limit (fl_budget ?s) = rb_per_run_limit (fl_budget s)"
    "\<not> fl_reclaiming s \<Longrightarrow> rb_total (fl_budget ?s) =
       (if rb_total (fl_budget s) \<le> rb_limit (fl_budget s) then rb_total (fl_budget s)
        else max (rb_limit (fl_budget s)) (rb_total (fl_budget s) - fleet_reclaimable s))" by blast+
qed

text \<open>
  C15.  Reclamation brings the daemon-wide total down to the limit whenever the live Runs hold enough
  reclaimable history, and otherwise frees all of it: the shared counter afterwards is exactly the
  larger of the limit and what cannot be reclaimed, it still equals the sum of the Runs' retained
  bytes, and every Run keeps a suffix of its window, its lifetime head, and each byte its durable
  binding still protects.
\<close>

theorem reclaim_excess_exact:
  assumes "fleet_ok s" "\<not> fl_reclaiming s" "rb_total (fl_budget s) > rb_limit (fl_budget s)"
  shows "rb_total (fl_budget (reclaim_excess vt except s))
           = max (rb_limit (fl_budget s)) (rb_total (fl_budget s) - fleet_reclaimable s)
    \<and> rb_total (fl_budget (reclaim_excess vt except s)) = fleet_retained (reclaim_excess vt except s)
    \<and> (\<forall>i r. fl_runs s i = Some r \<longrightarrow> (\<exists>r' freed. fl_runs (reclaim_excess vt except s) i = Some r'
          \<and> log_window (run_log r') = drop freed (log_window (run_log r))
          \<and> first_available_byte (run_log r') = first_available_byte (run_log r) + freed
          \<and> latest_output_bytes (run_log r') = latest_output_bytes (run_log r)
          \<and> freed \<le> reclaimable_output_bytes r
          \<and> (\<forall>d. active_durable r = Some d \<longrightarrow> first_available_byte (run_log r') \<le> pr_durable_head d)))"
proof (intro conjI allI impI)
  let ?s = "reclaim_excess vt except s"
  note ok = reclaim_excess_ok [OF assms(1), of vt except]
  show "rb_total (fl_budget ?s) = max (rb_limit (fl_budget s)) (rb_total (fl_budget s) - fleet_reclaimable s)"
    using ok(4) assms(2,3) by simp
  show "rb_total (fl_budget ?s) = fleet_retained ?s" using ok(1) by (simp add: fleet_ok_def)
  fix i r
  assume "fl_runs s i = Some r"
  then obtain r' where r': "fl_runs ?s i = Some r'" "shortened r r'"
    by (rule reclaim_excess_shortens [OF assms(1)])
  then obtain freed where f: "freed \<le> reclaimable_output_bytes r" "log_window (run_log r') = drop freed (log_window (run_log r))"
    "first_available_byte (run_log r') = first_available_byte (run_log r) + freed"
    by (auto simp: shortened_def)
  have "active_durable r = active_durable r'"
    using r'(2) unfolding shortened_def active_durable_def
    by (metis run.select_convs(3,4) run.surjective run.update_convs(2))
  then have "\<forall>d. active_durable r = Some d \<longrightarrow> first_available_byte (run_log r') \<le> pr_durable_head d"
    using r'(2) by (simp add: shortened_def run_ok_def)
  then show "\<exists>r' freed. fl_runs ?s i = Some r' \<and> log_window (run_log r') = drop freed (log_window (run_log r))
     \<and> first_available_byte (run_log r') = first_available_byte (run_log r) + freed
     \<and> latest_output_bytes (run_log r') = latest_output_bytes (run_log r) \<and> freed \<le> reclaimable_output_bytes r
     \<and> (\<forall>d. active_durable r = Some d \<longrightarrow> first_available_byte (run_log r') \<le> pr_durable_head d)"
    using r' f by (auto simp: shortened_def)
qed

text \<open>
  Victims are drained in policy order: when reclamation took bytes from a Run, every live Run
  ahead of it in the order (unattached before attached, larger before smaller, lower id first, and
  the Run that triggered the reclamation last of all) has no reclaimable byte left.
\<close>

theorem reclaim_order:
  assumes "fleet_ok s" "fl_runs s i = Some a" "fl_runs s j = Some b"
    "victim_key except a < victim_key except b"
    "fl_runs (reclaim_excess vt except s) j \<noteq> Some b"
  shows "\<exists>a'. fl_runs (reclaim_excess vt except s) i = Some a' \<and> reclaimable_output_bytes a' = 0"
proof -
  let ?s = "reclaim_excess vt except s"
  have "\<not> (fl_reclaiming s \<or> rb_total (fl_budget s) \<le> rb_limit (fl_budget s))"
    using assms(3,5) reclaim_excess_idle by metis
  then have f: "\<not> fl_reclaiming s" "rb_total (fl_budget s) > rb_limit (fl_budget s)" by auto
  obtain vs ws b' where vs: "vs = sort_key (victim_key except) (upgrade_all s)"
    and sh: "rv.shed vt (rb_total (fl_budget s) - rb_limit (fl_budget s)) vs (fl_budget s) = (ws, b')"
    and l2: "list_all2 shortened vs ws" and d: "distinct (map run_rid ws)" and good: "\<forall>v\<in>set vs. run_ok v"
    and e: "?s = s\<lparr>fl_participants := filter (\<lambda>i. fl_runs s i \<noteq> None) (fl_participants s),
       fl_runs := store_runs ws (fl_runs s), fl_budget := b'\<rparr>"
    by (rule reclaim_excess_over [OF assms(1) f])
  have rid: "run_rid a = i" "run_rid b = j" using assms(1-3) by (auto simp: fleet_ok_def)
  have "a \<in> set vs" "b \<in> set vs"
    using fleet_live [OF assms(1)] assms(2,3) rid vs by simp_all
  then obtain k m where k: "k < length vs" "vs ! k = a" and m: "m < length vs" "vs ! m = b"
    by (auto simp: in_set_conv_nth)
  have "k < m"
  proof (rule ccontr)
    assume "\<not> k < m"
    then have "victim_key except (vs ! m) \<le> victim_key except (vs ! k)"
      using sorted_nth_mono [of "map (victim_key except) vs" m k] k m vs by simp
    then show False using assms(4) k m by (simp add: not_less [symmetric])
  qed
  have at: "store_runs ws (fl_runs s) (run_rid (vs ! n)) = Some (ws ! n)" if "n < length vs" for n
    using that store_runs_here [OF d, of "ws ! n"] l2 shortened_rid [of "vs ! n" "ws ! n"]
    by (auto simp: list_all2_conv_all_nth)
  have "ws ! m \<noteq> vs ! m" using at [OF m(1)] assms(5) e m(2) rid by auto
  then have "reclaimable_output_bytes (ws ! k) = 0"
    by (rule rv.shed_order [OF good sh \<open>k < m\<close> m(1)])
  then show ?thesis using at [OF k(1)] k(2) rid e by simp
qed

text \<open>A fleet of two memory-only Runs; Run 1 has a client attached.\<close>

definition sample_run :: "run_id \<Rightarrow> byte list \<Rightarrow> nat \<Rightarrow> (nat \<times> nat \<times> byte list) run" where
  "sample_run i bs n = \<lparr>run_rid = i, run_log = admit_chunk bs log_new, run_memory_only = True, run_durable = None,
     run_running = True, run_attachments = n, run_published = [], run_output_busy = False, run_persistence_busy = False\<rparr>"

definition sample_fleet :: "u64 \<Rightarrow> (nat \<times> nat \<times> byte list) fleet" where
  "sample_fleet limit = \<lparr>fl_budget = \<lparr>rb_limit = limit, rb_per_run_limit = 10, rb_total = 5\<rparr>, fl_participants = [1, 2],
     fl_runs = [1 \<mapsto> sample_run 1 [10, 11, 12] 1, 2 \<mapsto> sample_run 2 [20, 21] 0],
     fl_reclaiming = False,
     fl_persistence = \<lparr>pi_failure = False, pi_connected = True, pi_commands = [], pi_queue_depth = 0,
       pi_output_wake_requested = False\<rparr>\<rparr>"

lemma log_new_facts:
  "log_ok (log_new :: 'p output_log)" "log_window (log_new :: 'p output_log) = []"
  "first_available_byte (log_new :: 'p output_log) = 0" "latest_output_bytes (log_new :: 'p output_log) = 0"
  "retained_bytes (log_new :: 'p output_log) = 0"
  by (simp_all add: log_ok_def log_new_def ring_start_def log_window_def facts_current_def first_available_byte_def)

lemma sample_run_facts:
  assumes "bs \<noteq> []" "length bs \<le> U64_MAX"
  shows "run_ok (sample_run i bs n)" "retained_bytes (run_log (sample_run i bs n)) = length bs"
    "reclaimable_output_bytes (sample_run i bs n) = length bs" "run_rid (sample_run i bs n) = i"
    "log_window (run_log (sample_run i bs n)) = bs" "latest_output_bytes (run_log (sample_run i bs n)) = length bs"
    "first_available_byte (run_log (sample_run i bs n)) = 0"
  using admit_chunk_spec [OF log_new_facts(1) [where 'p = "nat \<times> nat \<times> byte list"] assms(1)] assms(2)
    log_new_facts [where 'p = "nat \<times> nat \<times> byte list"]
  by (simp_all add: sample_run_def run_ok_def active_durable_def reclaimable_output_bytes_def
      try_output_protected_from_def saturating_sub_def)

lemma sample_fleet_ok: "limit \<le> U64_MAX \<Longrightarrow> fleet_ok (sample_fleet limit)" "fleet_reclaimable (sample_fleet limit) = 5"
  using sample_run_facts [of "[10, 11, 12]" 1 1] sample_run_facts [of "[20, 21]" 2 0]
  by (auto simp: fleet_ok_def sample_fleet_def fleet_retained_def fleet_reclaimable_def upgrade_all_def
      List.map_filter_simps max_values split: if_splits)

theorem reclaim_excess_exact_witness:
  "rb_total (fl_budget (reclaim_excess echo_vt 1 (sample_fleet 2))) = 2"
proof -
  have "fleet_ok (sample_fleet 2)" "fleet_reclaimable (sample_fleet 2) = 5"
    by (rule sample_fleet_ok; simp add: max_values)+
  then show ?thesis
    using reclaim_excess_exact [of "sample_fleet 2" echo_vt 1] by (simp add: sample_fleet_def)
qed

theorem reclaim_order_example:
  "fl_runs (reclaim_excess echo_vt 7 (sample_fleet 2)) 1 \<noteq> Some (sample_run 1 [10, 11, 12] 1)
   \<and> (\<exists>a'. fl_runs (reclaim_excess echo_vt 7 (sample_fleet 2)) 2 = Some a' \<and> reclaimable_output_bytes a' = 0)"
proof -
  let ?s = "sample_fleet 2" and ?r = "sample_run 1 [10, 11, 12] 1" and ?q = "sample_run 2 [20, 21] 0"
  have ok: "fleet_ok ?s" by (rule sample_fleet_ok) (simp add: max_values)
  have runs: "fl_runs ?s 2 = Some ?q" "fl_runs ?s 1 = Some ?r" by (simp_all add: sample_fleet_def)
  have key: "victim_key 7 ?q < victim_key 7 ?r"
    by (simp add: victim_key_def is_attached_def sample_run_def)
  have "\<not> fl_reclaiming ?s" by (simp add: sample_fleet_def)
  then have tot: "rb_total (fl_budget (reclaim_excess echo_vt 7 ?s)) = 2"
    using reclaim_excess_ok(4) [OF ok, of echo_vt 7] sample_fleet_ok(2) [of 2] by (simp add: sample_fleet_def)
  have moved: "fl_runs (reclaim_excess echo_vt 7 ?s) 1 \<noteq> Some ?r"
  proof
    assume same: "fl_runs (reclaim_excess echo_vt 7 ?s) 1 = Some ?r"
    have ok': "fleet_ok (reclaim_excess echo_vt 7 ?s)" by (rule reclaim_excess_ok [OF ok])
    then have "?r \<in> set (upgrade_all (reclaim_excess echo_vt 7 ?s))"
      using fleet_live [OF ok', of ?r] same by (simp add: sample_run_def)
    then have "retained_bytes (run_log ?r) \<le> fleet_retained (reclaim_excess echo_vt 7 ?s)"
      unfolding fleet_retained_def by (intro member_le_sum_list) simp_all
    then show False using ok' tot sample_run_facts(2) [of "[10, 11, 12]" 1 1] by (simp add: fleet_ok_def max_values)
  qed
  show ?thesis using moved reclaim_order [OF ok runs key moved] by blast
qed

section \<open>Read funding\<close>

lemma fund_scan_exact:
  assumes "wanted \<le> U64_MAX"
  shows "min (fund_scan except wanted vs available) wanted
    = min (available + sum_list (map reclaimable_output_bytes (filter (\<lambda>v. run_rid v \<noteq> except) vs))) wanted"
proof (induction vs arbitrary: available)
  case (Cons v vs)
  let ?a = "if run_rid v \<noteq> except then saturating_add available (reclaimable_output_bytes v) else available"
  show ?case
  proof (cases "?a \<ge> wanted")
    case True
    then show ?thesis by (auto simp: Let_def saturating_add_def)
  next
    case False
    then have "?a = (if run_rid v \<noteq> except then available + reclaimable_output_bytes v else available)"
      using assms by (auto simp: saturating_add_def)
    then show ?thesis using False Cons.IH [of ?a] by (auto simp: Let_def add.assoc)
  qed
qed simp

lemma available_for_read_eq:
  assumes "rb_limit (fl_budget s) \<le> U64_MAX" "own_reclaimable \<le> U64_MAX"
  shows "available_for_read except wanted own_reclaimable s =
    min (min wanted (rb_limit (fl_budget s)))
        ((rb_limit (fl_budget s) - rb_total (fl_budget s)) + own_reclaimable
          + sum_list (map reclaimable_output_bytes (filter (\<lambda>v. run_rid v \<noteq> except) (upgrade_all s))))"
proof -
  let ?w = "min wanted (rb_limit (fl_budget s))"
  let ?free = "rb_limit (fl_budget s) - rb_total (fl_budget s)"
  let ?a = "saturating_add ?free own_reclaimable"
  let ?others = "sum_list (map reclaimable_output_bytes (filter (\<lambda>v. run_rid v \<noteq> except) (upgrade_all s)))"
  have w: "?w \<le> U64_MAX" using assms(1) by simp
  have "min (if ?a < ?w then fund_scan except ?w (upgrade_all s) ?a else ?a) ?w = min (?free + own_reclaimable + ?others) ?w"
  proof (cases "?a < ?w")
    case True
    then have "?a = ?free + own_reclaimable" using w by (auto simp: saturating_add_def)
    then show ?thesis using True fund_scan_exact [OF w, of except "upgrade_all s" ?a] by simp
  next
    case False
    then show ?thesis by (auto simp: saturating_add_def)
  qed
  moreover have "usize_or_max (min x ?w) = min x ?w" for x
    using w by (intro usize_or_max_id) linarith
  ultimately show ?thesis
    unfolding available_for_read_def saturating_sub_def Let_def by (simp only: min.commute [of ?w])
qed

text \<open>
  Read admission reports exactly the funding there is, whatever the order of the participant
  scan and wherever it stops: the smaller of the wanted bytes (never more than the limit) and the
  free budget plus everything the reader itself and the other live Runs could give up; nothing is
  evicted by asking.
\<close>

theorem available_for_read_exact:
  assumes "rb_limit (fl_budget s) \<le> U64_MAX" "own_reclaimable \<le> U64_MAX"
  shows "available_for_read except wanted own_reclaimable s =
    min (min wanted (rb_limit (fl_budget s)))
        ((rb_limit (fl_budget s) - rb_total (fl_budget s)) + own_reclaimable
          + sum_list (map reclaimable_output_bytes (filter (\<lambda>v. run_rid v \<noteq> except) (upgrade_all s))))"
  by (rule available_for_read_eq [OF assms])

theorem available_for_read_exact_example:
  "available_for_read 1 100 3 (sample_fleet 6) = 6"
proof -
  have "filter (\<lambda>v. run_rid v \<noteq> 1) (upgrade_all (sample_fleet 6)) = [sample_run 2 [20, 21] 0]"
    by (simp add: upgrade_all_def sample_fleet_def List.map_filter_simps sample_run_def)
  then show ?thesis
    using available_for_read_exact [of "sample_fleet 6" 3 1 100] sample_run_facts(3) [of "[20, 21]" 2 0]
    by (simp add: sample_fleet_def max_values)
qed

end
