(* ===== verification/Output_Turn.thy ===== *)
theory Output_Turn
  imports Retention
begin

text \<open>
  The native reader's output turn (\<^verbatim>\<open>crates/ctxmux-daemon/src/native_output.rs\<close>,
  \<^verbatim>\<open>Run::record_output_locked\<close> in \<^verbatim>\<open>lib.rs\<close>): how many bytes may be read, and what
  recording them does to the Run, to the durable offer queue and to the fleet's budget.

  A turn holds the Run's transition, output and persistence guards, so it works on the Run itself
  and gives it back when the guards drop.  \<open>None\<close> is a Rust panic; the theorems show that no
  turn on a well-formed Run panics.  Calls of \<^verbatim>\<open>publish_event\<close> are recorded in order in
  \<open>run_published\<close>.
\<close>

section \<open>The output turn\<close>

definition OUTPUT_READ_BUFFER_BYTES :: nat where "OUTPUT_READ_BUFFER_BYTES = 8 * 1024"

definition protected_from :: "'p run \<Rightarrow> u64" where
  "protected_from r =
     (if run_memory_only r then U64_MAX
      else (case active_durable r of None \<Rightarrow> 0 | Some d \<Rightarrow> retention_protected_from d))"

text \<open>Offer the outstanding bytes of a Run with an active durable binding; the second component of
  the result says whether the append was accepted.\<close>

definition offer_outstanding ::
  "'p run \<Rightarrow> persistent_run \<Rightarrow> persistence_inner \<Rightarrow> ('p run \<times> bool \<times> persistence_inner) option" where
  "offer_outstanding r d p =
     map_option (\<lambda>replay.
       let (accepted, d, p) = pr_append (run_rid r) replay (d, p)
       in (r\<lparr>run_durable := Some d\<rparr>, accepted, p))
     (offer_replay (run_log r) (next_replay_start d))"

text \<open>The two durable steps at the start of a turn: ask for a wake while confirmed bytes lag, then offer
  what is outstanding if the queue has room.\<close>

definition capacity_wake :: "'p run \<Rightarrow> persistence_inner \<Rightarrow> persistence_inner" where
  "capacity_wake r p =
     (case active_durable r of
        None \<Rightarrow> p
      | Some d \<Rightarrow> if latest_output_bytes (run_log r) > retention_protected_from d then request_output_wake p else p)"

definition capacity_offer :: "'p run \<Rightarrow> persistence_inner \<Rightarrow> ('p run \<times> persistence_inner) option" where
  "capacity_offer r p =
     (case active_durable r of
        None \<Rightarrow> Some (r, p)
      | Some d \<Rightarrow>
          if pi_failure p then Some (r, p)
          else (let (room, p) = queue_has_room p in
                if room \<and> latest_output_bytes (run_log r) > next_replay_start d
                then map_option (\<lambda>(r, _, p). (r, p)) (offer_outstanding r d (request_output_wake p))
                else Some (r, p)))"

definition capacity :: "'p run \<Rightarrow> 'p fleet \<Rightarrow> (usize \<times> 'p run \<times> 'p fleet) option" where
  "capacity r s =
     map_option (\<lambda>(r, p).
       let protected = protected_from r;
           uncommitted = saturating_sub (latest_output_bytes (run_log r)) protected;
           per_run_available = saturating_sub (rb_per_run_limit (fl_budget s)) (usize_or_max uncommitted);
           reclaimable = min (usize_or_max (saturating_sub protected (first_available_byte (run_log r))))
                           (retained_bytes (run_log r));
           s = s\<lparr>fl_persistence := p\<rparr>
       in (min (available_for_read (run_rid r)
                  (min OUTPUT_READ_BUFFER_BYTES (rb_per_run_limit (fl_budget s))) reclaimable s)
             per_run_available, r, s))
     (capacity_offer r (capacity_wake r (fl_persistence s)))"

text \<open>The offer that follows an admitted chunk, with the dirty checkpoint behind an accepted append.\<close>

definition record_offer :: "'p run \<Rightarrow> persistence_inner \<Rightarrow> ('p run \<times> persistence_inner) option" where
  "record_offer r p =
     (case active_durable r of
        None \<Rightarrow> Some (r, p)
      | Some d \<Rightarrow>
          if pi_failure p then Some (r, p)
          else (let (room, p) = queue_has_room p in
                if room \<and> run_running r
                then map_option (\<lambda>(r, accepted, p).
                       if accepted
                       then (case take_stored_checkpoint (run_log r) of
                               (Some saved, l) \<Rightarrow> (r\<lparr>run_log := l\<rparr>, snd (offer_terminal_checkpoint (run_rid r) saved p))
                             | (None, l) \<Rightarrow> (r\<lparr>run_log := l\<rparr>, p))
                       else (r, p))
                     (offer_outstanding r d p)
                else Some (r, p)))"

definition record_output_locked ::
  "'p vt_parser \<Rightarrow> byte list \<Rightarrow> 'p run \<Rightarrow> retention_counter \<times> persistence_inner
     \<Rightarrow> ('p run \<times> retention_counter \<times> persistence_inner) option" where
  "record_output_locked vt data r = (\<lambda>(b, p).
     (if data = [] then Some (r, b, p)
      else Option.bind (push_protected vt data (protected_from r) (run_log r, b)) (\<lambda>(chunk, l, b).
        let l = terminal_pressure vt (run_rid r) l;
            r = r\<lparr>run_log := l, run_published := run_published r @ [EvOutput chunk]\<rparr>
        in map_option (\<lambda>(r, p). (r, b, p)) (record_offer r p))))"

definition has_unoffered :: "'p run \<Rightarrow> bool" where
  "has_unoffered r \<longleftrightarrow> \<not> run_memory_only r \<and>
     latest_output_bytes (run_log r) > (case active_durable r of None \<Rightarrow> 0 | Some d \<Rightarrow> next_replay_start d)"

definition turn_record :: "'p vt_parser \<Rightarrow> byte list \<Rightarrow> 'p run \<Rightarrow> 'p fleet \<Rightarrow> (bool \<times> 'p fleet) option" where
  "turn_record vt data r s =
     map_option (\<lambda>(r, b, p).
       (has_unoffered r,
        reclaim_excess vt (run_rid r)
          (s\<lparr>fl_runs := (fl_runs s)(run_rid r \<mapsto> r), fl_budget := b, fl_persistence := p\<rparr>)))
     (record_output_locked vt data r (fl_budget s, fl_persistence s))"

section \<open>Offers\<close>

lemma run_ok_log: "run_ok r \<Longrightarrow> log_ok (run_log r)"
  by (simp add: run_ok_def)

lemma active_durable_update [simp]:
  "active_durable (r\<lparr>run_log := l\<rparr>) = active_durable r"
  "active_durable (r\<lparr>run_published := es\<rparr>) = active_durable r"
  "\<not> run_memory_only r \<Longrightarrow> active_durable (r\<lparr>run_durable := d\<rparr>) = d"
  by (simp_all add: active_durable_def)

lemma active_durable_SomeD: "active_durable r = Some d \<Longrightarrow> \<not> run_memory_only r \<and> run_durable r = Some d"
  by (simp add: active_durable_def split: if_splits)

text \<open>
  The queue of a Run whose unreceived appends start at \<open>start\<close>: they are contiguous and end at the
  offered watermark.
\<close>

definition queue_debt :: "run_id \<Rightarrow> u64 \<Rightarrow> persistent_run \<Rightarrow> persistence_inner \<Rightarrow> bool" where
  "queue_debt i start d p \<longleftrightarrow> contiguous start (run_appends i (pi_commands p))
     \<and> chunks_end start (run_appends i (pi_commands p)) = pr_offered_head d"

lemma contiguous_join:
  "contiguous b (as @ bs) \<longleftrightarrow> contiguous b as \<and> contiguous (chunks_end b as) bs"
  "chunks_end b (as @ bs) = chunks_end (chunks_end b as) bs"
  by (induction as arbitrary: b) auto

lemma offer_outstanding_spec:
  assumes "run_ok r" "active_durable r = Some d"
  obtains r' accepted p' d' where "offer_outstanding r d p = Some (r', accepted, p')"
    "r' = r\<lparr>run_durable := Some d'\<rparr>" "pr_durable_head d' = pr_durable_head d"
    "pr_offered_head d \<le> pr_offered_head d'" "run_ok r'" "active_durable r' = Some d'"
    "\<And>start. queue_debt (run_rid r) start d p \<Longrightarrow> queue_debt (run_rid r) start d' p'"
proof -
  let ?l = "run_log r"
  have ok: "first_available_byte ?l \<le> pr_offered_head d" "pr_offered_head d \<le> latest_output_bytes ?l"
    "pr_durable_head d \<le> pr_offered_head d"
    using assms by (auto simp: run_ok_def)
  obtain rp where rp: "offer_replay ?l (pr_offered_head d) = Some rp" "contiguous (pr_offered_head d) (rp_chunks rp)"
    "chunks_end (pr_offered_head d) (rp_chunks rp) = rp_latest_output_bytes rp"
    "rp_latest_output_bytes rp \<le> latest_output_bytes ?l"
    by (rule offer_replay_spec [OF run_ok_log [OF assms(1)] ok(1,2)])
  obtain accepted d' p' where ap: "pr_append (run_rid r) rp (d, p) = (accepted, d', p')" using prod_cases3 by blast
  have le: "pr_offered_head d \<le> rp_latest_output_bytes rp" using contiguous_le [OF rp(2)] rp(3) by simp
  have e: "offer_outstanding r d p = Some (r\<lparr>run_durable := Some d'\<rparr>, accepted, p')"
    using rp(1) ap by (simp add: offer_outstanding_def next_replay_start_def)
  have d': "pr_durable_head d' = pr_durable_head d" "pr_offered_head d \<le> pr_offered_head d'"
    "pr_offered_head d' \<le> latest_output_bytes ?l"
    using ap le rp(4) ok(2) by (auto elim!: pr_append_cases)
  have act: "active_durable (r\<lparr>run_durable := Some d'\<rparr>) = Some d'"
    using assms(2) by (simp add: active_durable_SomeD)
  have rok: "run_ok (r\<lparr>run_durable := Some d'\<rparr>)"
    using assms(1,2) d' act by (auto simp: run_ok_def)
  have debt: "queue_debt (run_rid r) start d' p'" if "queue_debt (run_rid r) start d p" for start
    using ap that rp(2,3) le by (auto simp: queue_debt_def contiguous_join elim!: pr_append_cases)
  show ?thesis by (rule that [OF e refl d'(1,2) rok act debt])
qed

lemma protected_from_durable: "active_durable r = Some d \<Longrightarrow> protected_from r = pr_durable_head d"
  by (auto simp: protected_from_def retention_protected_from_def dest: active_durable_SomeD)

lemma protected_from_try:
  "\<not> run_persistence_busy r \<Longrightarrow> try_output_protected_from r = Some (protected_from r)"
  by (simp add: try_output_protected_from_def protected_from_def active_durable_def)

lemma protected_from_le: "run_ok r \<Longrightarrow> protected_from r \<le> U64_MAX"
  by (auto simp: protected_from_def run_ok_def retention_protected_from_def split: option.split)

section \<open>What a turn may read\<close>

lemma upgrade_all_persistence [simp]: "upgrade_all (s\<lparr>fl_persistence := p\<rparr>) = upgrade_all s"
  by (simp add: upgrade_all_def)

lemma available_for_read_persistence [simp]:
  "available_for_read e w own (s\<lparr>fl_persistence := p\<rparr>) = available_for_read e w own s"
  by (simp add: available_for_read_def Let_def)

lemma queue_has_room_frame:
  "queue_has_room p = (room, p') \<Longrightarrow> pi_commands p' = pi_commands p"
  by (auto simp: queue_has_room_def split: if_splits)

definition turn_allowance :: "'p run \<Rightarrow> 'p fleet \<Rightarrow> nat" where
  "turn_allowance r s =
     (let prot = protected_from r; l = run_log r in
      min (available_for_read (run_rid r) (min OUTPUT_READ_BUFFER_BYTES (rb_per_run_limit (fl_budget s)))
             (min (prot - first_available_byte l) (retained_bytes l)) s)
          (rb_per_run_limit (fl_budget s) - (latest_output_bytes l - prot)))"

lemma queue_debt_cong: "pi_commands p' = pi_commands p \<Longrightarrow> queue_debt i start d p' = queue_debt i start d p"
  by (simp add: queue_debt_def)

lemma capacity_spec:
  assumes "run_ok r"
  obtains r' p' where "capacity r s = Some (turn_allowance r s, r', s\<lparr>fl_persistence := p'\<rparr>)"
    "r' = r\<lparr>run_durable := run_durable r'\<rparr>" "run_ok r'" "protected_from r' = protected_from r"
    "active_durable r = None \<longleftrightarrow> active_durable r' = None"
    "\<And>start d d'. active_durable r = Some d \<Longrightarrow> active_durable r' = Some d' \<Longrightarrow>
       queue_debt (run_rid r) start d (fl_persistence s) \<Longrightarrow> queue_debt (run_rid r) start d' p'"
proof -
  let ?l = "run_log r"
  define q where "q = capacity_wake r (fl_persistence s)"
  define step where "step = capacity_offer r q"
  have q: "pi_commands q = pi_commands (fl_persistence s)"
    by (simp add: q_def capacity_wake_def split: option.split)
  have "\<exists>r' p'. step = Some (r', p') \<and> r' = r\<lparr>run_durable := run_durable r'\<rparr> \<and> run_ok r'
      \<and> protected_from r' = protected_from r \<and> (active_durable r = None \<longleftrightarrow> active_durable r' = None)
      \<and> (\<forall>start d d'. active_durable r = Some d \<longrightarrow> active_durable r' = Some d' \<longrightarrow>
            queue_debt (run_rid r) start d (fl_persistence s) \<longrightarrow> queue_debt (run_rid r) start d' p')"
  proof (cases "active_durable r")
    case None
    then show ?thesis using assms by (simp add: step_def capacity_offer_def)
  next
    case (Some d)
    obtain room p where qr: "queue_has_room q = (room, p)" by fastforce
    have p: "pi_commands p = pi_commands (fl_persistence s)" using queue_has_room_frame [OF qr] q by simp
    show ?thesis
    proof (cases "\<not> pi_failure q \<and> room \<and> latest_output_bytes ?l > next_replay_start d")
      case False
      then have "step = Some (r, if pi_failure q then q else p)"
        using Some qr by (auto simp: step_def capacity_offer_def)
      then show ?thesis using assms Some p q by (auto simp: queue_debt_def)
    next
      case True
      obtain r' acc p' d' where o: "offer_outstanding r d (request_output_wake p) = Some (r', acc, p')"
        "r' = r\<lparr>run_durable := Some d'\<rparr>" "pr_durable_head d' = pr_durable_head d" "run_ok r'"
        "active_durable r' = Some d'"
        "\<And>start. queue_debt (run_rid r) start d (request_output_wake p) \<Longrightarrow> queue_debt (run_rid r) start d' p'"
        using offer_outstanding_spec [OF assms Some] by metis
      have "step = Some (r', p')" using True Some qr o(1) by (simp add: step_def capacity_offer_def)
      moreover have "protected_from r' = protected_from r"
        using protected_from_durable [OF Some] protected_from_durable [OF o(5)] o(3) by simp
      moreover have "queue_debt (run_rid r) start d' p'" if "queue_debt (run_rid r) start d (fl_persistence s)" for start
        using that o(6) [of start] p by (simp add: queue_debt_def)
      ultimately show ?thesis using o(2,4,5) Some by auto
    qed
  qed
  then obtain r' p' where r': "step = Some (r', p')" "r' = r\<lparr>run_durable := run_durable r'\<rparr>" "run_ok r'"
    "protected_from r' = protected_from r" "active_durable r = None \<longleftrightarrow> active_durable r' = None"
    "\<forall>start d d'. active_durable r = Some d \<longrightarrow> active_durable r' = Some d' \<longrightarrow>
       queue_debt (run_rid r) start d (fl_persistence s) \<longrightarrow> queue_debt (run_rid r) start d' p'" by (elim exE conjE) (rule that)
  have same: "run_log r' = ?l" "run_rid r' = run_rid r"
    by (subst r'(2), simp)+
  have u: "usize_or_max (x - y) = x - y" if "x \<le> U64_MAX" for x y
    using that by (intro usize_or_max_id) linarith
  have "latest_output_bytes ?l \<le> U64_MAX" using assms by (simp add: run_ok_def)
  then have "capacity r s = Some (turn_allowance r s, r', s\<lparr>fl_persistence := p'\<rparr>)"
    using r'(1) r'(4) protected_from_le [OF assms]
    by (simp add: capacity_def q_def [symmetric] step_def [symmetric] turn_allowance_def Let_def same u saturating_sub_def)
  then show ?thesis
    by (rule that [OF _ r'(2-5)]) (use r'(6) in blast)
qed

section \<open>What recording does\<close>

lemma take_stored_checkpoint_frame:
  assumes "take_stored_checkpoint l = (v, l')"
  shows "log_ok l' = log_ok l" "log_window l' = log_window l" "first_available_byte l' = first_available_byte l"
    "latest_output_bytes l' = latest_output_bytes l" "retained_bytes l' = retained_bytes l"
proof -
  have "ol_chunks l' = ol_chunks l \<and> front_skip l' = front_skip l \<and> retained_bytes l' = retained_bytes l
    \<and> latest_output_bytes l' = latest_output_bytes l \<and> ol_facts l' = ol_facts l"
  proof (cases "checkpoint_dirty l")
    case False
    then show ?thesis using assms by (simp add: take_stored_checkpoint_def)
  next
    case True
    obtain w m where d: "log_derive_terminal StageExport (\<lambda>t. Some (tm_stored t, t)) (l\<lparr>checkpoint_dirty := False\<rparr>) = (w, m)"
      by fastforce
    then have "l' = m" using assms True by (simp add: take_stored_checkpoint_def)
    then show ?thesis using log_fields_derive [OF d] by simp
  qed
  then show "log_ok l' = log_ok l" "log_window l' = log_window l" "first_available_byte l' = first_available_byte l"
    "latest_output_bytes l' = latest_output_bytes l" "retained_bytes l' = retained_bytes l"
    using log_ok_cong [of l' l] by simp_all
qed

text \<open>What an offer may change of a Run: its derived-terminal bookkeeping and its watermark.\<close>

definition same_output :: "'p run \<Rightarrow> 'p run \<Rightarrow> bool" where
  "same_output r r' \<longleftrightarrow> r' = r\<lparr>run_log := run_log r', run_durable := run_durable r'\<rparr>
     \<and> log_window (run_log r') = log_window (run_log r)
     \<and> first_available_byte (run_log r') = first_available_byte (run_log r)
     \<and> latest_output_bytes (run_log r') = latest_output_bytes (run_log r)
     \<and> retained_bytes (run_log r') = retained_bytes (run_log r)
     \<and> protected_from r' = protected_from r \<and> (active_durable r = None \<longleftrightarrow> active_durable r' = None)"

lemma run_appends_checkpoint:
  "run_appends i (pi_commands (snd (offer_terminal_checkpoint j saved p))) = run_appends i (pi_commands p)"
  by (auto simp: offer_terminal_checkpoint_def try_send_def)

lemma record_offer_spec:
  assumes "run_ok r"
  obtains r' p' where "record_offer r p = Some (r', p')" "run_ok r'" "same_output r r'"
    "\<And>start d d'. active_durable r = Some d \<Longrightarrow> active_durable r' = Some d' \<Longrightarrow>
       queue_debt (run_rid r) start d p \<Longrightarrow> queue_debt (run_rid r) start d' p'"
proof (cases "active_durable r")
  case None
  then show ?thesis
    using that [of r p] assms by (simp add: record_offer_def same_output_def)
next
  case (Some d)
  obtain room q where qr: "queue_has_room p = (room, q)" by fastforce
  have q: "pi_commands q = pi_commands p" by (rule queue_has_room_frame [OF qr])
  show ?thesis
  proof (cases "\<not> pi_failure p \<and> room \<and> run_running r")
    case False
    then have "record_offer r p = Some (r, if pi_failure p then p else q)"
      using Some qr by (auto simp: record_offer_def)
    then show ?thesis
      by (rule that) (use assms q Some in \<open>auto simp: same_output_def queue_debt_def\<close>)
  next
    case True
    obtain r1 acc p1 d' where o: "offer_outstanding r d q = Some (r1, acc, p1)"
      "r1 = r\<lparr>run_durable := Some d'\<rparr>" "pr_durable_head d' = pr_durable_head d" "run_ok r1"
      "active_durable r1 = Some d'"
      "\<And>start. queue_debt (run_rid r) start d q \<Longrightarrow> queue_debt (run_rid r) start d' p1"
      using offer_outstanding_spec [OF assms Some] by metis
    obtain saved l where t: "take_stored_checkpoint (run_log r1) = (saved, l)" by fastforce
    note fr = take_stored_checkpoint_frame [OF t]
    define r' where "r' = (if acc then r1\<lparr>run_log := l\<rparr> else r1)"
    define p' where "p' = (case (acc, saved) of (True, Some sv) \<Rightarrow> snd (offer_terminal_checkpoint (run_rid r) sv p1) | _ \<Rightarrow> p1)"
    have e: "record_offer r p = Some (r', p')"
      using True Some qr o(1,2) t by (auto simp: record_offer_def r'_def p'_def split: option.splits)
    have act: "active_durable r' = Some d'" using o(5) by (simp add: r'_def)
    have rok: "run_ok r'" using o(4) fr by (auto simp: r'_def run_ok_def)
    have "protected_from r' = protected_from r"
      using protected_from_durable [OF Some] protected_from_durable [OF act] o(3) by simp
    then have so: "same_output r r'"
      using fr o(2) Some act by (auto simp: same_output_def r'_def)
    have "run_appends i (pi_commands p') = run_appends i (pi_commands p1)" for i
      by (auto simp: p'_def run_appends_checkpoint split: option.split bool.split)
    then have "queue_debt (run_rid r) start d' p'" if "queue_debt (run_rid r) start d p" for start
      using that o(6) [of start] q by (simp add: queue_debt_def)
    then show ?thesis using that [OF e rok so] Some act by auto
  qed
qed

lemma protected_from_update [simp]:
  "protected_from (r\<lparr>run_log := l\<rparr>) = protected_from r"
  "protected_from (r\<lparr>run_published := es\<rparr>) = protected_from r"
  by (simp_all add: protected_from_def)

text \<open>How a recorded chunk changes a Run: the window is extended and then shortened at the front, the
  chunk is published, and everything but the watermark of the durable binding is kept.\<close>

definition recorded :: "byte list \<Rightarrow> nat \<Rightarrow> 'p run \<Rightarrow> 'p run \<Rightarrow> bool" where
  "recorded data freed r r' \<longleftrightarrow>
     r' = r\<lparr>run_log := run_log r', run_durable := run_durable r',
            run_published := run_published r @ [EvOutput \<lparr>start_byte = latest_output_bytes (run_log r),
              end_byte = latest_output_bytes (run_log r) + length data, chunk_data = data\<rparr>]\<rparr>
     \<and> log_window (run_log r') = drop freed (log_window (run_log r) @ data)
     \<and> first_available_byte (run_log r') = first_available_byte (run_log r) + freed
     \<and> latest_output_bytes (run_log r') = latest_output_bytes (run_log r) + length data
     \<and> retained_bytes (run_log r') = retained_bytes (run_log r) + length data - freed
     \<and> protected_from r' = protected_from r \<and> (active_durable r = None \<longleftrightarrow> active_durable r' = None)"

lemma record_output_locked_spec:
  assumes "run_ok r" "data \<noteq> []" "latest_output_bytes (run_log r) + length data \<le> U64_MAX"
  obtains r' p' freed where
    "record_output_locked vt data r (b, p) = Some (r', budget_sub freed (budget_add (length data) b), p')"
    "run_ok r'" "recorded data freed r r'"
    "freed = min (min (retained_bytes (run_log r) + length data - rb_per_run_limit b)
                      (protected_from r - first_available_byte (run_log r))) (retained_bytes (run_log r) + length data)"
    "\<And>start d d'. active_durable r = Some d \<Longrightarrow> active_durable r' = Some d' \<Longrightarrow>
       queue_debt (run_rid r) start d p \<Longrightarrow> queue_debt (run_rid r) start d' p'"
proof -
  let ?l = "run_log r"
  have lok: "log_ok ?l" using assms(1) by (rule run_ok_log)
  obtain chunk l1 b1 freed where pp: "push_protected vt data (protected_from r) (?l, b) = Some (chunk, l1, b1)"
    and ch: "chunk_ok chunk" "start_byte chunk = latest_output_bytes ?l" "chunk_data chunk = data"
    and l1: "log_ok l1" "latest_output_bytes l1 = latest_output_bytes ?l + length data"
    and fr: "freed = min (min (retained_bytes ?l + length data - rb_per_run_limit b)
        (protected_from r - first_available_byte ?l)) (retained_bytes ?l + length data)"
    and w: "log_window l1 = drop freed (log_window ?l @ data)" "first_available_byte l1 = first_available_byte ?l + freed"
      "retained_bytes l1 = retained_bytes ?l + length data - freed"
    and b1: "b1 = budget_sub freed (budget_add (length data) b)"
    by (rule push_protected_spec [OF lok assms(2,3) protected_from_le [OF assms(1)]])
  define r1 where "r1 = r\<lparr>run_log := terminal_pressure vt (run_rid r) l1, run_published := run_published r @ [EvOutput chunk]\<rparr>"
  have c: "chunk = \<lparr>start_byte = latest_output_bytes ?l, end_byte = latest_output_bytes ?l + length data, chunk_data = data\<rparr>"
    using ch by (simp add: chunk_ok_def)
  have act: "active_durable r1 = active_durable r" by (simp add: r1_def active_durable_def)
  have "first_available_byte l1 \<le> pr_durable_head d" if "active_durable r = Some d" for d
    using that assms(1) w(2) fr protected_from_durable [OF that] by (auto simp: run_ok_def)
  then have ok1: "run_ok r1"
    using l1 assms(1,3) act by (auto simp: r1_def run_ok_def)
  obtain r' p' where ro: "record_offer r1 p = Some (r', p')" "run_ok r'" "same_output r1 r'"
    "\<And>start d d'. active_durable r1 = Some d \<Longrightarrow> active_durable r' = Some d' \<Longrightarrow>
       queue_debt (run_rid r1) start d p \<Longrightarrow> queue_debt (run_rid r1) start d' p'"
    using record_offer_spec [OF ok1] by metis
  have e: "record_output_locked vt data r (b, p) = Some (r', budget_sub freed (budget_add (length data) b), p')"
    using pp ro(1) assms(2) b1 by (simp add: record_output_locked_def r1_def Let_def)
  have pf: "protected_from r1 = protected_from r" by (simp add: r1_def protected_from_def active_durable_def)
  have r'eq: "r' = r1\<lparr>run_log := run_log r', run_durable := run_durable r'\<rparr>" using ro(3) unfolding same_output_def by blast
  have "r' = r\<lparr>run_log := run_log r', run_durable := run_durable r', run_published := run_published r @ [EvOutput chunk]\<rparr>"
    by (subst r'eq) (simp add: r1_def)
  then have rec: "recorded data freed r r'"
    unfolding recorded_def c [symmetric] using ro(3) w l1 act pf by (simp add: same_output_def r1_def)
  have rid: "run_rid r1 = run_rid r" by (simp add: r1_def)
  show ?thesis
    by (rule that [OF e ro(2) rec fr]) (use ro(4) act rid in auto)
qed

section \<open>The turn in the fleet\<close>

lemma upgrade_sum_update:
  assumes "distinct is" "i \<in> set is" "m i = Some r"
  shows "sum_list (map f (List.map_filter (m(i \<mapsto> r')) is)) + f r = sum_list (map f (List.map_filter m is)) + (f r' :: nat)"
  using assms
proof (induction "is")
  case (Cons j js)
  show ?case
  proof (cases "i = j")
    case True
    have "List.map_filter (m(i \<mapsto> r')) js = List.map_filter m js"
      using Cons.prems(1) True by (auto simp: List.map_filter_def intro!: map_cong filter_cong)
    then show ?thesis using True Cons.prems(3) by (simp add: List.map_filter_simps fun_upd_def)
  next
    case False
    then show ?thesis using Cons by (simp add: List.map_filter_simps split: option.split)
  qed
qed simp

lemma sum_others:
  assumes "distinct (map run_rid rs)" "r \<in> set rs"
  shows "sum_list (map f (filter (\<lambda>v. run_rid v \<noteq> run_rid r) rs)) + f r = (sum_list (map f rs) :: nat)"
  using assms
proof (induction rs)
  case (Cons a rs)
  show ?case
  proof (cases "a = r")
    case True
    then have "filter (\<lambda>v. run_rid v \<noteq> run_rid r) rs = rs"
      using Cons.prems(1) by (metis (mono_tags, lifting) distinct.simps(2) filter_True image_eqI list.simps(9) set_map)
    then show ?thesis using True by simp
  next
    case False
    then have "r \<in> set rs" using Cons.prems(2) by simp
    then have "run_rid a \<noteq> run_rid r" using Cons.prems(1) by force
    then show ?thesis using Cons \<open>r \<in> set rs\<close> by simp
  qed
qed simp

lemma fleet_update:
  assumes "fleet_ok s" "fl_runs s i = Some r" "run_rid r' = i" "run_ok r'"
    "rb_total b + retained_bytes (run_log r) = rb_total (fl_budget s) + retained_bytes (run_log r')" "rb_total b \<le> U64_MAX"
  shows "fleet_ok (s\<lparr>fl_runs := (fl_runs s)(i \<mapsto> r'), fl_budget := b, fl_persistence := p\<rparr>)"
    "fleet_reclaimable (s\<lparr>fl_runs := (fl_runs s)(i \<mapsto> r'), fl_budget := b, fl_persistence := p\<rparr>) + reclaimable_output_bytes r
       = fleet_reclaimable s + reclaimable_output_bytes r'"
proof -
  have d: "distinct (fl_participants s)" "i \<in> set (fl_participants s)"
    using assms(1,2) by (auto simp: fleet_ok_def)
  note sum = upgrade_sum_update [where m = "fl_runs s" and r' = r', OF d assms(2)]
  show "fleet_reclaimable (s\<lparr>fl_runs := (fl_runs s)(i \<mapsto> r'), fl_budget := b, fl_persistence := p\<rparr>) + reclaimable_output_bytes r
       = fleet_reclaimable s + reclaimable_output_bytes r'"
    using sum [where f = reclaimable_output_bytes] by (simp add: fleet_reclaimable_def upgrade_all_def)
  have "fleet_retained (s\<lparr>fl_runs := (fl_runs s)(i \<mapsto> r'), fl_budget := b, fl_persistence := p\<rparr>) + retained_bytes (run_log r)
       = fleet_retained s + retained_bytes (run_log r')"
    using sum [where f = "\<lambda>r. retained_bytes (run_log r)"] by (simp add: fleet_retained_def upgrade_all_def)
  then show "fleet_ok (s\<lparr>fl_runs := (fl_runs s)(i \<mapsto> r'), fl_budget := b, fl_persistence := p\<rparr>)"
    using assms d by (auto simp: fleet_ok_def)
qed

text \<open>The arithmetic of a funded chunk: \<open>F\<close> retained bytes from \<open>a\<close>, \<open>n\<close> new ones, \<open>P\<close> the protected offset.\<close>

lemma funded_per_run:
  assumes "n \<le> per - (a + F - P)" "0 < n" "freed = min (min (F + n - per) (P - a)) (F + n :: nat)"
  shows "F + n - freed \<le> per"
proof (cases "F + n - per \<le> P - a")
  case True
  then show ?thesis using assms(3) by simp
next
  case False
  then have "freed = P - a" using assms(3) by simp
  then show ?thesis using assms(1,2) by linarith
qed

lemma funded_total:
  assumes "n \<le> (L - T) + min (P - a) F + others" "T \<le> L"
    "freed = min (min (F + n - per) (P - a)) (F + n :: nat)"
  shows "T + n - freed \<le> L + (min (F + n - freed) (P - (a + freed)) + others)"
proof -
  have "freed \<le> P - a" "freed \<le> F + n" using assms(3) by simp_all
  then have "min (F + n - freed) (P - (a + freed)) + freed = min (F + n) (P - a)" by linarith
  moreover have "min (P - a) F \<le> min (F + n) (P - a)" by linarith
  ultimately show ?thesis using assms(1,2) by linarith
qed

lemma turn_record_spec:
  assumes "fleet_ok s" "\<not> fl_reclaiming s" "fl_runs s i = Some r0" "run_log r = run_log r0" "run_rid r = i"
    "run_ok r" "reclaimable_output_bytes r0 = min (protected_from r - first_available_byte (run_log r)) (retained_bytes (run_log r))"
    "\<not> run_output_busy r" "\<not> run_persistence_busy r"
    and T: "rb_total (fl_budget s) \<le> rb_limit (fl_budget s)" "rb_limit (fl_budget s) \<le> I64_MAX"
    and n: "data \<noteq> []" "latest_output_bytes (run_log r) + length data \<le> U64_MAX" "length data \<le> I64_MAX"
    and fund: "length data \<le> turn_allowance r s"
  obtains u s' r2 r' freed where "turn_record vt data r s = Some (u, s')" "fleet_ok s'"
    "rb_total (fl_budget s') \<le> rb_limit (fl_budget s)" "fl_runs s' i = Some r'" "recorded data freed r r2" "shortened r2 r'"
    "retained_bytes (run_log r2) \<le> rb_per_run_limit (fl_budget s)" "run_ok r2"
proof -
  let ?b = "fl_budget s" and ?l = "run_log r" and ?P = "protected_from r"
  let ?a = "first_available_byte ?l" and ?F = "retained_bytes ?l" and ?n = "length data"
  let ?others = "sum_list (map reclaimable_output_bytes (filter (\<lambda>v. run_rid v \<noteq> run_rid r) (upgrade_all s)))"
  obtain r2 p2 freed where rec: "record_output_locked vt data r (?b, fl_persistence s)
        = Some (r2, budget_sub freed (budget_add ?n ?b), p2)" "run_ok r2" "recorded data freed r r2"
    and fr: "freed = min (min (?F + ?n - rb_per_run_limit ?b) (?P - ?a)) (?F + ?n)"
    using record_output_locked_spec [OF assms(6) n(1,2)] by metis
  let ?b2 = "budget_sub freed (budget_add ?n ?b)"
  have lat: "latest_output_bytes ?l = ?a + ?F" using log_ok_span [OF run_ok_log [OF assms(6)]] .
  have rid: "run_rid r0 = i" using assms(1,3) by (simp add: fleet_ok_def)
  have r0: "r0 \<in> set (upgrade_all s)" using fleet_live [OF assms(1), of r0] assms(3) rid by simp
  have F: "?F \<le> rb_total ?b"
  proof -
    have "retained_bytes (run_log r0) \<le> fleet_retained s"
      unfolding fleet_retained_def using r0 by (intro member_le_sum_list) simp_all
    then show ?thesis using assms(1,4) by (simp add: fleet_ok_def)
  qed
  have add: "rb_total (budget_add ?n ?b) = rb_total ?b + ?n"
    using T n(3) by (simp add: budget_add_def wrapping_add_def max_values)
  have ret: "retained_bytes (run_log r2) = ?F + ?n - freed" "first_available_byte (run_log r2) = ?a + freed"
    "protected_from r2 = ?P" "run_rid r2 = i" "run_output_busy r2 = run_output_busy r"
    "run_persistence_busy r2 = run_persistence_busy r"
  proof -
    show "retained_bytes (run_log r2) = ?F + ?n - freed" "first_available_byte (run_log r2) = ?a + freed"
      "protected_from r2 = ?P" using rec(3) by (simp_all add: recorded_def)
    have eq: "r2 = r\<lparr>run_log := run_log r2, run_durable := run_durable r2,
            run_published := run_published r @ [EvOutput \<lparr>start_byte = latest_output_bytes (run_log r),
              end_byte = latest_output_bytes (run_log r) + length data, chunk_data = data\<rparr>]\<rparr>"
      using rec(3) unfolding recorded_def by blast
    show "run_rid r2 = i" "run_output_busy r2 = run_output_busy r" "run_persistence_busy r2 = run_persistence_busy r"
      by (subst eq, simp add: assms(5))+
  qed
  have frle: "freed \<le> ?F + ?n" using fr by simp
  let ?s1 = "s\<lparr>fl_runs := (fl_runs s)(i \<mapsto> r2), fl_budget := ?b2, fl_persistence := p2\<rparr>"
  have tot: "rb_total ?b2 = rb_total ?b + ?n - freed" using add by simp
  have "rb_total ?b2 \<le> U64_MAX" "rb_total ?b2 + retained_bytes (run_log r0) = rb_total ?b + retained_bytes (run_log r2)"
    using tot T n(3) ret(1) frle F assms(4) by (auto simp: max_values)
  note up = fleet_update [OF assms(1,3) ret(4) rec(2) this(2,1), of p2]
  have rc2: "reclaimable_output_bytes r2 = min (?F + ?n - freed) (?P - (?a + freed))"
  proof -
    have "?P - (?a + freed) \<le> U64_MAX" using protected_from_le [OF assms(6)] by linarith
    then show ?thesis using assms(8,9) ret protected_from_try [of r2]
      by (simp add: reclaimable_output_bytes_def saturating_sub_def)
  qed
  have oth: "?others + reclaimable_output_bytes r0 = fleet_reclaimable s"
    using sum_others [OF fleet_rids [OF assms(1)] r0, of reclaimable_output_bytes] rid assms(5)
    by (simp add: fleet_reclaimable_def)
  have recl: "fleet_reclaimable ?s1 = ?others + reclaimable_output_bytes r2"
    using up(2) oth by simp
  have allow: "?n \<le> rb_per_run_limit ?b - (?a + ?F - ?P)"
    "?n \<le> (rb_limit ?b - rb_total ?b) + min (?P - ?a) ?F + ?others"
  proof -
    show "?n \<le> rb_per_run_limit ?b - (?a + ?F - ?P)" using fund lat by (simp add: turn_allowance_def Let_def)
    have "min (?P - ?a) ?F \<le> U64_MAX" using protected_from_le [OF assms(6)] by linarith
    then show "?n \<le> (rb_limit ?b - rb_total ?b) + min (?P - ?a) ?F + ?others"
      using fund available_for_read_eq [of s "min (?P - ?a) ?F" "run_rid r"
          "min OUTPUT_READ_BUFFER_BYTES (rb_per_run_limit ?b)"] T(2)
      by (simp add: turn_allowance_def Let_def max_values)
  qed
  have per: "retained_bytes (run_log r2) \<le> rb_per_run_limit ?b"
    unfolding ret(1) by (rule funded_per_run [OF allow(1) _ fr]) (use n(1) in simp)
  have "rb_total ?b2 \<le> rb_limit ?b + (reclaimable_output_bytes r2 + ?others)"
    unfolding tot rc2 by (rule funded_total [OF allow(2) T(1) fr])
  then have le: "rb_total (fl_budget ?s1) - fleet_reclaimable ?s1 \<le> rb_limit ?b"
    using recl by simp
  let ?s' = "reclaim_excess vt i ?s1"
  have step: "turn_record vt data r s = Some (has_unoffered r2, ?s')"
    using rec(1) ret(4) by (simp add: turn_record_def)
  have lim: "rb_total (fl_budget ?s') \<le> rb_limit ?b"
    using reclaim_excess_ok(4) [OF up(1), of vt i] assms(2) le by (auto split: if_splits)
  have "fl_runs ?s1 i = Some r2" by simp
  then obtain r' where "fl_runs ?s' i = Some r'" "shortened r2 r'"
    by (rule reclaim_excess_shortens [OF up(1)])
  then show ?thesis
    by (rule that [OF step reclaim_excess_ok(1) [OF up(1)] lim _ rec(3) _ per rec(2)])
qed

lemma turn_allowance_cong:
  assumes "r' = r\<lparr>run_durable := run_durable r'\<rparr>" "protected_from r' = protected_from r"
  shows "turn_allowance r' (s\<lparr>fl_persistence := p\<rparr>) = turn_allowance r s"
proof -
  have "run_log r' = run_log r" "run_rid r' = run_rid r" by (subst assms(1), simp)+
  then show ?thesis using assms(2) by (simp add: turn_allowance_def)
qed

lemma fleet_ok_persistence [simp]: "fleet_ok (s\<lparr>fl_persistence := p\<rparr>) = fleet_ok s"
  by (simp add: fleet_ok_def fleet_retained_def)

lemma turn_allowance_le: "turn_allowance r s \<le> OUTPUT_READ_BUFFER_BYTES"
proof -
  have "usize_or_max (min x (min (min OUTPUT_READ_BUFFER_BYTES y) z)) \<le> OUTPUT_READ_BUFFER_BYTES" for x y z
    unfolding usize_or_max_eq by linarith
  then show ?thesis
    unfolding turn_allowance_def available_for_read_def Let_def by (rule min.coboundedI1)
qed

lemma reclaimable_unlocked:
  assumes "run_ok r" "\<not> run_output_busy r" "\<not> run_persistence_busy r"
  shows "reclaimable_output_bytes r = min (protected_from r - first_available_byte (run_log r)) (retained_bytes (run_log r))"
proof -
  have "protected_from r - first_available_byte (run_log r) \<le> U64_MAX"
    using protected_from_le [OF assms(1)] by linarith
  then show ?thesis
    using assms(2,3) protected_from_try [of r] by (simp add: reclaimable_output_bytes_def saturating_sub_def min.commute)
qed

text \<open>What a recorded turn leaves, after the fleet's reclamation shortened the Run once more.\<close>

lemma turn_outcome:
  assumes "recorded data freed r1 r2" "shortened r2 r'" "run_ok r2" "run_log r1 = run_log r" "run_published r1 = run_published r"
  shows "retained_bytes (run_log r') \<le> retained_bytes (run_log r2)
    \<and> latest_output_bytes (run_log r') = latest_output_bytes (run_log r) + length data
    \<and> (\<exists>k. log_window (run_log r') = drop k (log_window (run_log r) @ data))
    \<and> run_published r' = run_published r @ [EvOutput \<lparr>start_byte = latest_output_bytes (run_log r),
         end_byte = latest_output_bytes (run_log r) + length data, chunk_data = data\<rparr>]"
proof -
  have r2: "log_window (run_log r2) = drop freed (log_window (run_log r) @ data)"
    "latest_output_bytes (run_log r2) = latest_output_bytes (run_log r) + length data"
    using assms(1,4) by (simp_all add: recorded_def)
  have eq: "r2 = r1\<lparr>run_log := run_log r2, run_durable := run_durable r2,
          run_published := run_published r1 @ [EvOutput \<lparr>start_byte = latest_output_bytes (run_log r1),
            end_byte = latest_output_bytes (run_log r1) + length data, chunk_data = data\<rparr>]\<rparr>"
    using assms(1) unfolding recorded_def by blast
  have pub2: "run_published r2 = run_published r @ [EvOutput \<lparr>start_byte = latest_output_bytes (run_log r),
           end_byte = latest_output_bytes (run_log r) + length data, chunk_data = data\<rparr>]"
    by (subst eq, simp add: assms(4,5))
  have "r' = r2\<lparr>run_log := run_log r'\<rparr>" using assms(2) unfolding shortened_def by blast
  then have pub: "run_published r' = run_published r2" by (metis run.select_convs(7) run.surjective run.update_convs(2))
  obtain k where k: "log_window (run_log r') = drop k (log_window (run_log r2))"
    "latest_output_bytes (run_log r') = latest_output_bytes (run_log r2)" "run_ok r'"
    using assms(2) by (auto simp: shortened_def)
  have "retained_bytes (run_log r') \<le> retained_bytes (run_log r2)"
    using k(1) log_ok_retained [OF run_ok_log [OF k(3)]] log_ok_retained [OF run_ok_log [OF assms(3)]] by simp
  moreover have "log_window (run_log r') = drop (k + freed) (log_window (run_log r) @ data)"
    unfolding k(1) r2(1) by (rule drop_drop)
  ultimately show ?thesis using pub pub2 k(2) r2(2) by auto
qed

text \<open>
  C18.  A funded read never breaks either retention bound.  For a well-formed fleet within its
  limit, the turn's capacity is always computed, and any non-empty read within it is recorded: the
  chunk is published once, at the Run's lifetime head, the Run keeps a suffix of its window followed
  by the new bytes, no more than the per-Run limit, and after the reclamation that follows the
  daemon-wide total is again exact and within its limit.
\<close>

theorem turn_within_limits:
  assumes "fleet_ok s" "\<not> fl_reclaiming s" "fl_runs s i = Some r" "\<not> run_output_busy r" "\<not> run_persistence_busy r"
    "rb_total (fl_budget s) \<le> rb_limit (fl_budget s)" "rb_limit (fl_budget s) \<le> I64_MAX"
    "latest_output_bytes (run_log r) + OUTPUT_READ_BUFFER_BYTES \<le> U64_MAX"
  shows "\<exists>n r1 s1. capacity r s = Some (n, r1, s1) \<and>
    (\<forall>data. data \<noteq> [] \<and> length data \<le> n \<longrightarrow>
      (\<exists>u s' r' k. turn_record vt data r1 s1 = Some (u, s') \<and> fleet_ok s'
        \<and> rb_total (fl_budget s') \<le> rb_limit (fl_budget s)
        \<and> fl_runs s' i = Some r' \<and> retained_bytes (run_log r') \<le> rb_per_run_limit (fl_budget s)
        \<and> latest_output_bytes (run_log r') = latest_output_bytes (run_log r) + length data
        \<and> log_window (run_log r') = drop k (log_window (run_log r) @ data)
        \<and> run_published r' = run_published r @ [EvOutput \<lparr>start_byte = latest_output_bytes (run_log r),
             end_byte = latest_output_bytes (run_log r) + length data, chunk_data = data\<rparr>]))"
proof -
  have rok: "run_ok r" "run_rid r = i" using assms(1,3) by (auto simp: fleet_ok_def)
  obtain r1 p1 where c: "capacity r s = Some (turn_allowance r s, r1, s\<lparr>fl_persistence := p1\<rparr>)"
    and r1: "r1 = r\<lparr>run_durable := run_durable r1\<rparr>" "run_ok r1" "protected_from r1 = protected_from r"
    using capacity_spec [OF rok(1)] by metis
  let ?s1 = "s\<lparr>fl_persistence := p1\<rparr>"
  have same: "run_log r1 = run_log r" "run_rid r1 = i" "run_output_busy r1 = run_output_busy r"
    "run_persistence_busy r1 = run_persistence_busy r" "run_published r1 = run_published r"
    by (subst r1(1), simp add: rok(2))+
  have main: "\<exists>u s' r' k. turn_record vt data r1 ?s1 = Some (u, s') \<and> fleet_ok s'
        \<and> rb_total (fl_budget s') \<le> rb_limit (fl_budget s)
        \<and> fl_runs s' i = Some r' \<and> retained_bytes (run_log r') \<le> rb_per_run_limit (fl_budget s)
        \<and> latest_output_bytes (run_log r') = latest_output_bytes (run_log r) + length data
        \<and> log_window (run_log r') = drop k (log_window (run_log r) @ data)
        \<and> run_published r' = run_published r @ [EvOutput \<lparr>start_byte = latest_output_bytes (run_log r),
             end_byte = latest_output_bytes (run_log r) + length data, chunk_data = data\<rparr>]"
    if data: "data \<noteq> []" "length data \<le> turn_allowance r s" for data
  proof -
    have len: "length data \<le> OUTPUT_READ_BUFFER_BYTES" using data(2) turn_allowance_le order_trans by blast
    then have small: "length data \<le> I64_MAX" "latest_output_bytes (run_log r1) + length data \<le> U64_MAX"
      using assms(8) same(1) by (simp_all add: OUTPUT_READ_BUFFER_BYTES_def max_values)
    have fund: "length data \<le> turn_allowance r1 ?s1" using data(2) turn_allowance_cong [OF r1(1,3)] by simp
    have rc: "reclaimable_output_bytes r = min (protected_from r1 - first_available_byte (run_log r1)) (retained_bytes (run_log r1))"
      using reclaimable_unlocked [OF rok(1) assms(4,5)] r1(3) same(1) by simp
    have s1: "fleet_ok ?s1" "\<not> fl_reclaiming ?s1" "fl_runs ?s1 i = Some r" "\<not> run_output_busy r1" "\<not> run_persistence_busy r1"
      "rb_total (fl_budget ?s1) \<le> rb_limit (fl_budget ?s1)" "rb_limit (fl_budget ?s1) \<le> I64_MAX"
      using assms same by simp_all
    obtain u s' r2 r' freed where "turn_record vt data r1 ?s1 = Some (u, s')" "fleet_ok s'"
      "rb_total (fl_budget s') \<le> rb_limit (fl_budget ?s1)" "fl_runs s' i = Some r'"
      "recorded data freed r1 r2" "shortened r2 r'" "retained_bytes (run_log r2) \<le> rb_per_run_limit (fl_budget ?s1)" "run_ok r2"
      by (rule turn_record_spec [OF s1(1-3) same(1,2) r1(2) rc s1(4-7) data(1) small(2,1) fund])
    then have t: "turn_record vt data r1 ?s1 = Some (u, s')" "fleet_ok s'"
      "rb_total (fl_budget s') \<le> rb_limit (fl_budget s)" "fl_runs s' i = Some r'"
      "recorded data freed r1 r2" "shortened r2 r'" "retained_bytes (run_log r2) \<le> rb_per_run_limit (fl_budget s)" "run_ok r2"
      by simp_all
    show ?thesis
      using t(1-4,7) turn_outcome [OF t(5,6,8) same(1,5)] by (meson order_trans)
  qed
  show ?thesis using c main by blast
qed

theorem turn_within_limits_witness:
  "\<exists>n r1 s1. capacity (sample_run 1 [10, 11, 12] 1) (sample_fleet 6) = Some (n, r1, s1) \<and> n = 6
     \<and> (\<exists>u s'. turn_record echo_vt [13, 14, 15, 16] r1 s1 = Some (u, s') \<and> rb_total (fl_budget s') \<le> 6)"
proof -
  let ?r = "sample_run 1 [10, 11, 12] 1" and ?s = "sample_fleet 6"
  have ok: "fleet_ok ?s" by (rule sample_fleet_ok) (simp add: max_values)
  note facts = sample_run_facts [of "[10, 11, 12]" 1 1] sample_run_facts [of "[20, 21]" 2 0]
  have rest: "\<not> fl_reclaiming ?s" "fl_runs ?s 1 = Some ?r" "\<not> run_output_busy ?r" "\<not> run_persistence_busy ?r"
    "rb_total (fl_budget ?s) \<le> rb_limit (fl_budget ?s)" "rb_limit (fl_budget ?s) \<le> I64_MAX"
    "latest_output_bytes (run_log ?r) + OUTPUT_READ_BUFFER_BYTES \<le> U64_MAX"
    using facts by (simp_all add: sample_fleet_def max_values OUTPUT_READ_BUFFER_BYTES_def) (simp_all add: sample_run_def)
  have rok: "run_ok ?r" using facts by (simp add: max_values)
  obtain r1 p1 where c: "capacity ?r ?s = Some (turn_allowance ?r ?s, r1, ?s\<lparr>fl_persistence := p1\<rparr>)"
    by (rule capacity_spec [OF rok])
  let ?n = "turn_allowance ?r ?s"
  have t: "\<exists>u s'. turn_record echo_vt data r1 (?s\<lparr>fl_persistence := p1\<rparr>) = Some (u, s')
        \<and> rb_total (fl_budget s') \<le> rb_limit (fl_budget ?s)" if "data \<noteq> []" "length data \<le> ?n" for data
    using turn_within_limits [OF ok rest, of echo_vt] that unfolding c by fastforce
  have "filter (\<lambda>v. run_rid v \<noteq> 1) (upgrade_all ?s) = [sample_run 2 [20, 21] 0]"
    by (simp add: upgrade_all_def sample_fleet_def List.map_filter_simps sample_run_def)
  moreover have "protected_from ?r = U64_MAX" by (simp add: protected_from_def sample_run_def)
  ultimately have "?n = 6"
    using facts available_for_read_eq [of ?s 3 1 10]
    by (simp add: turn_allowance_def max_values OUTPUT_READ_BUFFER_BYTES_def)
       (simp add: sample_fleet_def numeral_3_eq_3)
  then show ?thesis using c t [of "[13, 14, 15, 16]"] by (simp add: sample_fleet_def)
qed



end
