(* ===== verification/Live_Events.thy ===== *)
theory Live_Events
  imports Resources Protocol_Types
begin

text \<open>
  Live delivery of one Run's events: the funded journal
  (\<^verbatim>\<open>crates/ctxmux-daemon/src/live_event_journal.rs\<close>) and its publication owner with the revision
  cursor (\<^verbatim>\<open>LiveEventOwner\<close>, \<^verbatim>\<open>LiveEventCursor\<close>, \<^verbatim>\<open>GapCauseRevisions\<close> in \<^verbatim>\<open>lib.rs\<close>).

  Every operation takes the journal and the daemon-wide event byte budget and returns both.  What
  the language decides and the source only reads (sizes of its types, what capacity a
  reservation of container slots really yields or that it fails, the capacity behind a byte string)
  is the parameter \<open>layout\<close>.  A funded event is shared by reference count: its lease is paid
  back when neither the journal nor a receiver holds it any more; \<open>js_held\<close> lists the copies in
  receivers' hands.  \<open>None\<close> as a result is a Rust panic or an endless loop; the theorems show
  that well-formed journals have neither.
\<close>

section \<open>Revision cursors\<close>

record gap_cause_revisions =
  gr_live_event_pressure :: u64
  gr_source_discontinuity :: u64
  gr_unknown :: u64

record live_event_cursor =
  lc_output_bytes :: u64
  lc_output_discontinuity_revision :: u64
  lc_latest_output_discontinuity_byte :: u64
  lc_observation_revision :: u64
  lc_terminal_revision :: u64
  lc_resize_revision :: u64
  lc_service_revision :: u64
  lc_gap_causes :: gap_cause_revisions

definition CURSOR_ZERO :: live_event_cursor where
  "CURSOR_ZERO = \<lparr>lc_output_bytes = 0, lc_output_discontinuity_revision = 0,
     lc_latest_output_discontinuity_byte = 0, lc_observation_revision = 0, lc_terminal_revision = 0,
     lc_resize_revision = 0, lc_service_revision = 0,
     lc_gap_causes = \<lparr>gr_live_event_pressure = 0, gr_source_discontinuity = 0, gr_unknown = 0\<rparr>\<rparr>"

definition bump :: "u64 \<Rightarrow> u64 option" where
  "bump n = checked_add n 1"

definition bump_if :: "bool \<Rightarrow> u64 \<Rightarrow> u64 option" where
  "bump_if observed n = (if observed then bump n else Some n)"

definition causes_record :: "output_gap_causes \<Rightarrow> gap_cause_revisions \<Rightarrow> gap_cause_revisions option" where
  "causes_record causes g =
     Option.bind (bump_if (live_event_pressure causes) (gr_live_event_pressure g)) (\<lambda>a.
     Option.bind (bump_if (source_discontinuity causes) (gr_source_discontinuity g)) (\<lambda>b.
     Option.bind (bump_if (unknown_cause causes) (gr_unknown g)) (\<lambda>c.
       Some \<lparr>gr_live_event_pressure = a, gr_source_discontinuity = b, gr_unknown = c\<rparr>)))"

definition causes_since :: "gap_cause_revisions \<Rightarrow> gap_cause_revisions \<Rightarrow> output_gap_causes" where
  "causes_since g before = CAUSES_NONE
     \<lparr>live_event_pressure := gr_live_event_pressure g > gr_live_event_pressure before,
      source_discontinuity := gr_source_discontinuity g > gr_source_discontinuity before,
      unknown_cause := gr_unknown g > gr_unknown before\<rparr>"

fun cursor_record :: "run_event \<Rightarrow> live_event_cursor \<Rightarrow> live_event_cursor option" where
  "cursor_record (EvOutput chunk) c = Some (c\<lparr>lc_output_bytes := max (lc_output_bytes c) (end_byte chunk)\<rparr>)"
| "cursor_record (EvGap latest causes) c =
     Option.bind (bump (lc_output_discontinuity_revision c)) (\<lambda>n.
     Option.bind (causes_record causes (lc_gap_causes c)) (\<lambda>g.
       Some (c\<lparr>lc_output_discontinuity_revision := n, lc_latest_output_discontinuity_byte := latest,
               lc_gap_causes := g\<rparr>)))"
| "cursor_record (EvExited _) c = map_option (\<lambda>n. c\<lparr>lc_terminal_revision := n\<rparr>) (bump (lc_terminal_revision c))"
| "cursor_record (EvInterrupted _) c = map_option (\<lambda>n. c\<lparr>lc_terminal_revision := n\<rparr>) (bump (lc_terminal_revision c))"
| "cursor_record (EvTmux _) c = map_option (\<lambda>n. c\<lparr>lc_observation_revision := n\<rparr>) (bump (lc_observation_revision c))"
| "cursor_record EvObservationDiscontinuity c =
     map_option (\<lambda>n. c\<lparr>lc_observation_revision := n\<rparr>) (bump (lc_observation_revision c))"
| "cursor_record (EvServiceChanged _) c = map_option (\<lambda>n. c\<lparr>lc_service_revision := n\<rparr>) (bump (lc_service_revision c))"
| "cursor_record (EvResized _ _ _) c = map_option (\<lambda>n. c\<lparr>lc_resize_revision := n\<rparr>) (bump (lc_resize_revision c))"

section \<open>Envelopes\<close>

record lease =
  lease_id :: nat
  lease_bytes :: byte_permit

datatype published_event =
    Funded lease run_event
  | OutputGap u64 output_gap_causes
  | PubObservationDiscontinuity
  | SnapshotNeeded

record live_run_event =
  le_published :: published_event
  le_before :: live_event_cursor
  le_after :: live_event_cursor

definition le_event :: "live_run_event \<Rightarrow> run_event option" where
  "le_event e = (case le_published e of
       Funded _ ev \<Rightarrow> Some ev
     | OutputGap latest causes \<Rightarrow> Some (EvGap latest causes)
     | PubObservationDiscontinuity \<Rightarrow> Some EvObservationDiscontinuity
     | SnapshotNeeded \<Rightarrow> None)"

definition is_output_or_gap :: "live_run_event \<Rightarrow> bool" where
  "is_output_or_gap e = (case le_event e of Some (EvOutput _) \<Rightarrow> True | Some (EvGap _ _) \<Rightarrow> True | _ \<Rightarrow> False)"

section \<open>The journal\<close>

record layout =
  sz_shared :: usize
  sz_usize :: usize
  sz_live_event :: usize
  sz_reader :: usize
  sz_funded_event :: usize
  vec_reserve_exact :: "usize \<Rightarrow> usize option"
  deque_reserve_exact :: "usize \<Rightarrow> usize option"
  heap_capacity :: "byte list \<Rightarrow> usize"
  string_capacity :: "string \<Rightarrow> usize"

record journal =
  js_first :: "live_run_event option"
  js_rest :: "live_run_event list"
  js_rest_capacity :: usize
  js_rest_memory :: "byte_permit list"
  js_base :: u64
  js_next :: u64
  js_readers :: "u64 option list"
  js_readers_capacity :: usize
  js_readers_memory :: "byte_permit list"
  js_receiver_count :: usize
  js_closed :: bool
  js_memory :: byte_permit
  js_held :: "lease list"
  js_next_lease :: nat

type_synonym jstate = "journal \<times> byte_budget"

definition contents :: "journal \<Rightarrow> live_run_event list" where
  "contents j = (case js_first j of None \<Rightarrow> [] | Some e \<Rightarrow> [e]) @ js_rest j"

fun envelope_lease :: "published_event \<Rightarrow> lease option" where
  "envelope_lease (Funded l _) = Some l"
| "envelope_lease _ = None"

definition journal_leases :: "journal \<Rightarrow> lease list" where
  "journal_leases j = List.map_filter (\<lambda>e. envelope_lease (le_published e)) (contents j)"

text \<open>Dropping a counted reference pays the lease back once nobody else holds it.\<close>

definition drop_lease :: "lease \<Rightarrow> jstate \<Rightarrow> jstate" where
  "drop_lease l = (\<lambda>(j, b).
     if l \<in> set (journal_leases j) \<or> l \<in> set (js_held j) then (j, b) else (j, permit_drop b (lease_bytes l)))"

definition drop_envelope :: "live_run_event \<Rightarrow> jstate \<Rightarrow> jstate" where
  "drop_envelope e s = (case envelope_lease (le_published e) of None \<Rightarrow> s | Some l \<Rightarrow> drop_lease l s)"

definition drop_permits :: "byte_permit list \<Rightarrow> byte_budget \<Rightarrow> byte_budget" where
  "drop_permits ps b = foldl permit_drop b ps"

text \<open>\<^verbatim>\<open>funded_vec\<close> and \<^verbatim>\<open>funded_deque\<close> with \<^verbatim>\<open>fund_extra\<close>: the actual capacity, the permits
  that pay for it, and the budget; on failure the permits taken so far are paid back.\<close>

definition fund_extra :: "byte_budget \<Rightarrow> usize \<Rightarrow> usize \<Rightarrow> usize \<Rightarrow> (byte_budget \<times> byte_permit list) option" where
  "fund_extra b item requested actual =
     Option.bind (checked_sub actual requested) (\<lambda>slots.
     Option.bind (checked_mul slots item) (\<lambda>extra.
       if extra = 0 then Some (b, []) else map_option (\<lambda>(b, p). (b, [p])) (reserve b extra)))"

definition funded_array ::
  "(usize \<Rightarrow> usize option) \<Rightarrow> usize \<Rightarrow> byte_budget \<Rightarrow> usize \<Rightarrow> (usize \<times> byte_permit list) option \<times> byte_budget" where
  "funded_array reserve_exact item b capacity =
     (case checked_mul capacity item of
        None \<Rightarrow> (None, b)
      | Some bytes \<Rightarrow>
          (case reserve b bytes of
             None \<Rightarrow> (None, b)
           | Some (b1, requested) \<Rightarrow>
               (case reserve_exact capacity of
                  None \<Rightarrow> (None, permit_drop b1 requested)
                | Some actual \<Rightarrow>
                    (case fund_extra b1 item capacity actual of
                       None \<Rightarrow> (None, permit_drop b1 requested)
                     | Some (b2, extra) \<Rightarrow> (Some (actual, requested # extra), b2)))))"

definition sender_new :: "layout \<Rightarrow> byte_budget \<Rightarrow> (journal \<times> byte_budget) option" where
  "sender_new ly b =
     Option.bind (checked_add (sz_shared ly) (2 * sz_usize ly)) (\<lambda>bytes.
       map_option (\<lambda>(b, p).
         (\<lparr>js_first = None, js_rest = [], js_rest_capacity = 0, js_rest_memory = [], js_base = 0, js_next = 0,
           js_readers = [], js_readers_capacity = 0, js_readers_memory = [], js_receiver_count = 0,
           js_closed = False, js_memory = p, js_held = [], js_next_lease = 0\<rparr>, b))
       (reserve b bytes))"

fun find_free :: "'a option list \<Rightarrow> nat option" where
  "find_free [] = None"
| "find_free (None # rs) = Some 0"
| "find_free (Some _ # rs) = map_option Suc (find_free rs)"

definition grow_readers :: "layout \<Rightarrow> jstate \<Rightarrow> bool \<times> jstate" where
  "grow_readers ly = (\<lambda>(j, b).
     if length (js_readers j) = js_readers_capacity j
     then (case checked_mul (js_readers_capacity j) 2 of
             None \<Rightarrow> (False, j, b)
           | Some c \<Rightarrow>
               (case funded_array (vec_reserve_exact ly) (sz_reader ly) b (max c 1) of
                  (None, b) \<Rightarrow> (False, j, b)
                | (Some (actual, memory), b) \<Rightarrow>
                    (True, j\<lparr>js_readers_capacity := actual, js_readers_memory := memory\<rparr>,
                     drop_permits (js_readers_memory j) b)))
     else (True, j, b))"

definition subscribe :: "layout \<Rightarrow> jstate \<Rightarrow> nat option \<times> jstate" where
  "subscribe ly = (\<lambda>(j, b).
     if js_closed j then (None, j, b)
     else (case find_free (js_readers j) of
             Some i \<Rightarrow> (Some i, j\<lparr>js_readers := (js_readers j)[i := Some (js_next j)],
                                  js_receiver_count := js_receiver_count j + 1\<rparr>, b)
           | None \<Rightarrow>
               (case grow_readers ly (j, b) of
                  (False, s) \<Rightarrow> (None, s)
                | (True, j, b) \<Rightarrow>
                    (Some (length (js_readers j)),
                     j\<lparr>js_readers := js_readers j @ [Some (js_next j)],
                       js_receiver_count := js_receiver_count j + 1\<rparr>, b))))"

definition retire :: "jstate \<Rightarrow> bool \<times> jstate" where
  "retire = (\<lambda>(j, b).
     (case js_first j of
        None \<Rightarrow> (False, j, b)
      | Some retired \<Rightarrow>
          (let (first, rest) = (case js_rest j of [] \<Rightarrow> (None, []) | e # es \<Rightarrow> (Some e, es));
               j' = j\<lparr>js_first := first, js_rest := rest, js_base := js_base j + 1\<rparr>;
               (j', b) = (if first = None
                          then (j'\<lparr>js_rest_capacity := 0, js_rest_memory := []\<rparr>, drop_permits (js_rest_memory j') b)
                          else (j', b))
           in (is_output_or_gap retired, drop_envelope retired (j', b)))))"

definition reader_floor :: "journal \<Rightarrow> u64" where
  "reader_floor j = (case List.map_filter (\<lambda>r. r) (js_readers j) of
       [] \<Rightarrow> js_next j | p # ps \<Rightarrow> fold min ps p)"

text \<open>The retirement loop as written: it would spin if it were below its target with nothing to retire.\<close>

partial_function (option) retire_to :: "u64 \<Rightarrow> jstate \<Rightarrow> jstate option" where
  "retire_to through s = (if js_base (fst s) < through then retire_to through (snd (retire s)) else Some s)"

definition reclaim :: "jstate \<Rightarrow> jstate option" where
  "reclaim s = retire_to (reader_floor (fst s)) s"

definition grow_rest :: "layout \<Rightarrow> jstate \<Rightarrow> bool \<times> jstate" where
  "grow_rest ly = (\<lambda>(j, b).
     if js_first j \<noteq> None \<and> length (js_rest j) = js_rest_capacity j
     then (case checked_mul (js_rest_capacity j) 2 of
             None \<Rightarrow> retire (j, b)
           | Some c \<Rightarrow>
               (case funded_array (deque_reserve_exact ly) (sz_live_event ly) b (max c 1) of
                  (None, b) \<Rightarrow> retire (j, b)
                | (Some (actual, memory), b) \<Rightarrow>
                    (False, j\<lparr>js_rest_capacity := actual, js_rest_memory := memory\<rparr>,
                     drop_permits (js_rest_memory j) b)))
     else (False, j, b))"

function fund_event :: "usize \<Rightarrow> bool \<Rightarrow> jstate \<Rightarrow> byte_permit option \<times> bool \<times> jstate" where
  "fund_event bytes retired_output (j, b) =
     (case reserve b bytes of
        Some (b, p) \<Rightarrow> (Some p, retired_output, j, b)
      | None \<Rightarrow>
          if js_first j = None then (None, retired_output, j, b)
          else (let (output, s) = retire (j, b) in fund_event bytes (retired_output \<or> output) s))"
  by pat_completeness auto
termination
proof (relation "measure (\<lambda>(bytes, r, j, b). length (contents j))", goal_cases)
  case (2 bytes r j b x y s)
  obtain e where "js_first j = Some e" using 2 by auto
  then show ?case
    using 2 by (auto simp: retire_def contents_def drop_envelope_def drop_lease_def Let_def
        split: list.splits option.splits if_splits prod.splits)
qed simp

declare fund_event.simps [simp del]

record prepared =
  pp_memory :: "byte_permit option"
  pp_retired_output :: bool

definition prepare :: "layout \<Rightarrow> usize option \<Rightarrow> jstate \<Rightarrow> (prepared \<times> jstate) option" where
  "prepare ly allocation s =
     map_option (\<lambda>s.
       let (retired_output, s) = grow_rest ly s;
           (memory, retired_output, s) =
             (case allocation of
                None \<Rightarrow> (None, retired_output, s)
              | Some bytes \<Rightarrow> fund_event bytes retired_output s)
       in (\<lparr>pp_memory = memory, pp_retired_output = retired_output\<rparr>, s))
     (reclaim s)"

text \<open>An event handed to a journal nobody listens to is dropped at once.\<close>

definition journal_send :: "live_run_event \<Rightarrow> jstate \<Rightarrow> jstate option" where
  "journal_send e = (\<lambda>(j, b).
     if js_closed j \<or> js_receiver_count j = 0 then Some (drop_envelope e (j, b))
     else Option.bind (checked_add (js_next j) 1) (\<lambda>next.
       if js_first j = None then Some (j\<lparr>js_next := next, js_first := Some e\<rparr>, b)
       else if length (js_rest j) < js_rest_capacity j
       then Some (j\<lparr>js_next := next, js_rest := js_rest j @ [e]\<rparr>, b)
       else None))"

definition sender_drop :: "journal \<Rightarrow> journal" where
  "sender_drop j = j\<lparr>js_closed := True\<rparr>"

datatype recv_error = Lagged u64 | Empty | Closed

text \<open>The envelope handed out is a counted copy.\<close>

definition hold_envelope :: "live_run_event \<Rightarrow> journal \<Rightarrow> journal" where
  "hold_envelope e j = (case envelope_lease (le_published e) of None \<Rightarrow> j | Some l \<Rightarrow> j\<lparr>js_held := l # js_held j\<rparr>)"

definition try_recv :: "nat \<Rightarrow> jstate \<Rightarrow> ((recv_error + live_run_event) \<times> jstate) option" where
  "try_recv reader = (\<lambda>(j, b).
     if reader < length (js_readers j)
     then (case js_readers j ! reader of
             None \<Rightarrow> None
           | Some position \<Rightarrow>
               if position < js_base j
               then Some (Inl (Lagged (js_base j - position)), j\<lparr>js_readers := (js_readers j)[reader := Some (js_base j)]\<rparr>, b)
               else if position = js_next j
               then Some (Inl (if js_closed j then Closed else Empty), j, b)
               else (let offset = position - js_base j in
                     Option.bind
                       (if offset = 0 then js_first j
                        else if offset - 1 < length (js_rest j) then Some (js_rest j ! (offset - 1)) else None)
                       (\<lambda>event.
                         map_option (\<lambda>s. (Inr event, s))
                           (reclaim (hold_envelope event (j\<lparr>js_readers := (js_readers j)[reader := Some (position + 1)]\<rparr>), b)))))
     else None)"

definition release_event :: "lease \<Rightarrow> jstate \<Rightarrow> jstate" where
  "release_event l = (\<lambda>(j, b). drop_lease l (j\<lparr>js_held := remove1 l (js_held j)\<rparr>, b))"

definition receiver_drop :: "nat \<Rightarrow> jstate \<Rightarrow> jstate option" where
  "receiver_drop reader = (\<lambda>(j, b).
     if reader < length (js_readers j) \<and> 0 < js_receiver_count j
     then map_option (\<lambda>(j, b).
            if js_receiver_count j = 0
            then (j\<lparr>js_readers := [], js_readers_capacity := 0, js_readers_memory := []\<rparr>, drop_permits (js_readers_memory j) b)
            else (j, b))
          (reclaim (j\<lparr>js_readers := (js_readers j)[reader := None], js_receiver_count := js_receiver_count j - 1\<rparr>, b))
     else None)"

section \<open>The publication owner\<close>

record event_owner =
  eo_sender :: "journal option"
  eo_cursor :: live_event_cursor
  eo_attachments :: usize

definition owner_with_budget :: event_owner where
  "owner_with_budget = \<lparr>eo_sender = None, eo_cursor = CURSOR_ZERO, eo_attachments = 0\<rparr>"

definition event_allocation_bytes :: "layout \<Rightarrow> usize" where
  "event_allocation_bytes ly = sz_funded_event ly + 2 * sz_usize ly"

definition payload_capacity :: "layout \<Rightarrow> run_event \<Rightarrow> usize" where
  "payload_capacity ly event =
     (case event of
        EvOutput chunk \<Rightarrow> heap_capacity ly (chunk_data chunk)
      | EvTmux (SessionRenamed name) \<Rightarrow> heap_capacity ly name
      | EvExited (Exited _ (Some signal)) \<Rightarrow> string_capacity ly signal
      | _ \<Rightarrow> 0)"

definition is_gap :: "run_event \<Rightarrow> bool" where
  "is_gap event = (case event of EvGap _ _ \<Rightarrow> True | _ \<Rightarrow> False)"

text \<open>The unfunded substitute of an event, and the heap-free envelope of what is left unfunded.\<close>

definition degrade :: "run_event \<Rightarrow> run_event" where
  "degrade event =
     (case event of
        EvOutput chunk \<Rightarrow> EvGap (end_byte chunk) CAUSES_LIVE_EVENT_PRESSURE
      | EvTmux _ \<Rightarrow> EvObservationDiscontinuity
      | _ \<Rightarrow> event)"

definition unfunded :: "run_event \<Rightarrow> published_event" where
  "unfunded event =
     (case event of
        EvGap latest causes \<Rightarrow> OutputGap latest causes
      | EvObservationDiscontinuity \<Rightarrow> PubObservationDiscontinuity
      | EvTmux _ \<Rightarrow> PubObservationDiscontinuity
      | _ \<Rightarrow> SnapshotNeeded)"

definition note_retired :: "live_event_cursor \<Rightarrow> live_event_cursor option" where
  "note_retired c =
     Option.bind (bump (lc_output_discontinuity_revision c)) (\<lambda>n.
     Option.bind (causes_record CAUSES_LIVE_EVENT_PRESSURE (lc_gap_causes c)) (\<lambda>g.
       Some (c\<lparr>lc_output_discontinuity_revision := n,
               lc_latest_output_discontinuity_byte := max (lc_output_bytes c) (lc_latest_output_discontinuity_byte c),
               lc_gap_causes := g\<rparr>)))"

text \<open>Without a listening receiver nothing is prepared and the event is recorded as it is.\<close>

definition publish_prepare ::
  "layout \<Rightarrow> run_event \<Rightarrow> event_owner \<times> byte_budget \<Rightarrow> (prepared option \<times> event_owner \<times> byte_budget) option" where
  "publish_prepare ly event = (\<lambda>(ow, b).
     (case eo_sender ow of
        Some j \<Rightarrow>
          if js_receiver_count j > 0
          then map_option (\<lambda>(p, j, b). (Some p, ow\<lparr>eo_sender := Some j\<rparr>, b))
                 (prepare ly (if is_gap event then None
                              else Some (saturating_add (payload_capacity ly event) (event_allocation_bytes ly))) (j, b))
          else Some (None, ow, b)
      | None \<Rightarrow> Some (None, ow, b)))"

definition publish_send ::
  "run_event \<Rightarrow> byte_permit option \<Rightarrow> live_event_cursor \<Rightarrow> event_owner \<times> byte_budget \<Rightarrow> (event_owner \<times> byte_budget) option" where
  "publish_send event memory before = (\<lambda>(ow, b).
     (case eo_sender ow of
        None \<Rightarrow> Some (ow, b)
      | Some j \<Rightarrow>
          (let (published, j) =
                 (case memory of
                    Some m \<Rightarrow> (Funded \<lparr>lease_id = js_next_lease j, lease_bytes = m\<rparr> event, j\<lparr>js_next_lease := js_next_lease j + 1\<rparr>)
                  | None \<Rightarrow> (unfunded event, j));
               envelope = \<lparr>le_published = published, le_before = before, le_after = eo_cursor ow\<rparr>
           in map_option (\<lambda>(j, b). (ow\<lparr>eo_sender := Some j\<rparr>, b)) (journal_send envelope (j, b)))))"

definition publish :: "layout \<Rightarrow> run_event \<Rightarrow> event_owner \<times> byte_budget \<Rightarrow> (event_owner \<times> byte_budget) option" where
  "publish ly event s =
     Option.bind (publish_prepare ly event s) (\<lambda>(prep, ow, b).
     Option.bind (if (case prep of None \<Rightarrow> False | Some p \<Rightarrow> pp_retired_output p)
                  then note_retired (eo_cursor ow) else Some (eo_cursor ow)) (\<lambda>cursor.
       let memory = Option.bind prep pp_memory;
           listening = (case eo_sender ow of None \<Rightarrow> False | Some j \<Rightarrow> js_receiver_count j > 0);
           event = (if memory = None \<and> \<not> is_gap event \<and> listening then degrade event else event)
       in Option.bind (cursor_record event cursor) (\<lambda>after.
            publish_send event memory cursor (ow\<lparr>eo_cursor := after\<rparr>, b))))"

definition publish_event :: "layout \<Rightarrow> run_event \<Rightarrow> event_owner \<times> byte_budget \<Rightarrow> (event_owner \<times> byte_budget) option" where
  "publish_event ly event = (\<lambda>(ow, b). if eo_attachments ow = 0 then Some (ow, b) else publish ly event (ow, b))"

text \<open>\<^verbatim>\<open>Run::try_subscribe\<close>: the reader index and the cursor it starts from, or a refusal that
  leaves the owner as it was.  A refused first subscription drops its fresh journal again.\<close>

definition try_subscribe ::
  "layout \<Rightarrow> event_owner \<times> byte_budget \<Rightarrow> (nat \<times> live_event_cursor) option \<times> event_owner \<times> byte_budget" where
  "try_subscribe ly = (\<lambda>(ow, b).
     (case eo_sender ow of
        Some j \<Rightarrow>
          (case subscribe ly (j, b) of
             (None, j, b) \<Rightarrow> (None, ow\<lparr>eo_sender := Some j\<rparr>, b)
           | (Some r, j, b) \<Rightarrow> (Some (r, eo_cursor ow),
                ow\<lparr>eo_sender := Some j, eo_attachments := eo_attachments ow + 1\<rparr>, b))
      | None \<Rightarrow>
          (case sender_new ly b of
             None \<Rightarrow> (None, ow, b)
           | Some (j, b) \<Rightarrow>
               (case subscribe ly (j, b) of
                  (None, j, b) \<Rightarrow> (None, ow, permit_drop b (js_memory j))
                | (Some r, j, b) \<Rightarrow> (Some (r, eo_cursor ow),
                     ow\<lparr>eo_sender := Some j, eo_attachments := eo_attachments ow + 1\<rparr>, b)))))"

section \<open>Well-formed journals\<close>

text \<open>\<open>hist\<close> is the sequence of all envelopes sent so far; the journal holds its suffix from \<open>js_base\<close>.\<close>

definition slot_free :: "journal \<Rightarrow> bool" where
  "slot_free j \<longleftrightarrow> js_first j = None \<or> length (js_rest j) < js_rest_capacity j"

definition journal_ok :: "live_run_event list \<Rightarrow> journal \<Rightarrow> bool" where
  "journal_ok hist j \<longleftrightarrow> length hist = js_next j \<and> js_next j \<le> U64_MAX \<and> js_base j \<le> js_next j
     \<and> contents j = drop (js_base j) hist
     \<and> (js_first j = None \<longrightarrow> js_rest j = []) \<and> length (js_rest j) \<le> js_rest_capacity j
     \<and> list_all (\<lambda>r. case r of None \<Rightarrow> True | Some p \<Rightarrow> p \<le> js_next j) (js_readers j)
     \<and> length (js_readers j) \<le> js_readers_capacity j
     \<and> js_receiver_count j = length (filter (\<lambda>r. r \<noteq> None) (js_readers j))"

text \<open>What retirement leaves alone.\<close>

definition same_frame :: "journal \<Rightarrow> journal \<Rightarrow> bool" where
  "same_frame j j' \<longleftrightarrow> js_next j' = js_next j \<and> js_readers j' = js_readers j
     \<and> js_readers_capacity j' = js_readers_capacity j \<and> js_readers_memory j' = js_readers_memory j
     \<and> js_receiver_count j' = js_receiver_count j \<and> js_closed j' = js_closed j
     \<and> js_memory j' = js_memory j \<and> js_held j' = js_held j \<and> js_next_lease j' = js_next_lease j"

lemma same_frame_refl [simp]: "same_frame j j"
  by (simp add: same_frame_def)

lemma same_frame_trans [trans]: "same_frame a b \<Longrightarrow> same_frame b c \<Longrightarrow> same_frame a c"
  by (simp add: same_frame_def)

lemma drop_lease_fst [simp]: "fst (drop_lease l s) = fst s"
  by (cases s) (simp add: drop_lease_def)

lemma drop_envelope_fst [simp]: "fst (drop_envelope e s) = fst s"
  by (simp add: drop_envelope_def split: option.split)

lemma contents_Nil: "journal_ok hist j \<Longrightarrow> contents j = [] \<longleftrightarrow> js_first j = None"
  by (auto simp: contents_def journal_ok_def split: option.splits)

lemma retire_spec:
  assumes "js_first j = Some e" "retire (j, b) = (out, j', b')"
  shows "contents j = e # contents j'" "out = is_output_or_gap e" "js_base j' = js_base j + 1" "same_frame j j'"
    "js_first j' = None \<longrightarrow> js_rest j' = []" "length (js_rest j) \<le> js_rest_capacity j \<Longrightarrow> slot_free j'"
    "length (js_rest j) \<le> js_rest_capacity j \<Longrightarrow> length (js_rest j') \<le> js_rest_capacity j'"
proof -
  obtain first rest where fr: "(case js_rest j of [] \<Rightarrow> (None, []) | e # es \<Rightarrow> (Some e, es)) = (first, rest)" by fastforce
  define j1 where "j1 = j\<lparr>js_first := first, js_rest := rest, js_base := js_base j + 1\<rparr>"
  have j': "j' = (if first = None then j1\<lparr>js_rest_capacity := 0, js_rest_memory := []\<rparr> else j1)"
    and out: "out = is_output_or_gap e"
  proof -
    let ?s = "if first = None then (j1\<lparr>js_rest_capacity := 0, js_rest_memory := []\<rparr>, drop_permits (js_rest_memory j1) b) else (j1, b)"
    have "retire (j, b) = (is_output_or_gap e, drop_envelope e ?s)"
      using assms(1) fr by (simp add: retire_def j1_def Let_def)
    then have "(j', b') = drop_envelope e ?s" "out = is_output_or_gap e" using assms(2) by auto
    moreover from this(1) have "j' = fst ?s" by (metis drop_envelope_fst fst_conv)
    ultimately show "j' = (if first = None then j1\<lparr>js_rest_capacity := 0, js_rest_memory := []\<rparr> else j1)"
      "out = is_output_or_gap e" by auto
  qed
  show "contents j = e # contents j'" "js_base j' = js_base j + 1" "same_frame j j'" "js_first j' = None \<longrightarrow> js_rest j' = []"
    using fr assms(1) by (auto simp: j' j1_def contents_def same_frame_def split: list.splits)
  show "out = is_output_or_gap e" by (rule out)
  show "slot_free j'" if "length (js_rest j) \<le> js_rest_capacity j"
    using fr that by (auto simp: j' j1_def slot_free_def split: list.splits)
  show "length (js_rest j') \<le> js_rest_capacity j'" if "length (js_rest j) \<le> js_rest_capacity j"
    using fr that by (auto simp: j' j1_def split: list.splits)
qed

lemma retire_none: "js_first j = None \<Longrightarrow> retire (j, b) = (False, j, b)"
  by (simp add: retire_def)

lemma retire_ok:
  assumes "journal_ok hist j" "js_first j = Some e" "retire (j, b) = (out, j', b')"
  shows "journal_ok hist j'" "js_base j < js_next j"
proof -
  note sp = retire_spec [OF assms(2,3)]
  have c: "drop (js_base j) hist = e # contents j'" using assms(1) sp(1) by (simp add: journal_ok_def)
  then have lt: "js_base j < length hist" by (metis drop_eq_Nil leI list.simps(3))
  then show "js_base j < js_next j" using assms(1) by (simp add: journal_ok_def)
  have "contents j' = drop (js_base j + 1) hist" using c by (metis Suc_eq_plus1 drop_Suc list.sel(3) tl_drop)
  then show "journal_ok hist j'"
    using assms(1) sp lt by (auto simp: journal_ok_def same_frame_def)
qed

lemma retire_to_ok:
  assumes "journal_ok hist j" "through \<le> js_next j"
  obtains j' b' where "retire_to through (j, b) = Some (j', b')" "journal_ok hist j'" "same_frame j j'"
    "js_base j' = max (js_base j) through" "slot_free j \<longrightarrow> slot_free j'"
proof -
  have "\<exists>j' b'. retire_to through (j, b) = Some (j', b') \<and> journal_ok hist j' \<and> same_frame j j'
    \<and> js_base j' = max (js_base j) through \<and> (slot_free j \<longrightarrow> slot_free j')"
    using assms
  proof (induction "through - js_base j" arbitrary: j b)
    case 0
    then show ?case by (simp add: retire_to.simps)
  next
    case (Suc n)
    then have lt: "js_base j < through" by simp
    have "contents j \<noteq> []" using Suc.prems lt by (auto simp: journal_ok_def)
    then obtain e where e: "js_first j = Some e" using contents_Nil [OF Suc.prems(1)] by auto
    obtain out j1 b1 where r: "retire (j, b) = (out, j1, b1)" using prod_cases3 by blast
    note sp = retire_spec [OF e r] and ok1 = retire_ok [OF Suc.prems(1) e r]
    have "n = through - js_base j1" "through \<le> js_next j1"
      using Suc.hyps(2) Suc.prems(2) sp(3,4) by (auto simp: same_frame_def)
    then obtain j' b' where "retire_to through (j1, b1) = Some (j', b')" "journal_ok hist j'" "same_frame j1 j'"
      "js_base j' = max (js_base j1) through" "slot_free j1 \<longrightarrow> slot_free j'"
      using Suc.hyps(1) [of j1 b1] ok1 by blast
    moreover have "retire_to through (j, b) = retire_to through (j1, b1)"
      using lt r by (simp add: retire_to.simps [of through "(j, b)"])
    moreover have "slot_free j1" using sp(6) Suc.prems(1) by (simp add: journal_ok_def)
    ultimately show ?case using lt sp(3,4) same_frame_trans by (metis Suc_leI Suc_eq_plus1 max_absorb2 order_less_imp_le)
  qed
  then show ?thesis using that by blast
qed

text \<open>The reclaim target is the slowest reader.\<close>

definition reader_positions :: "journal \<Rightarrow> u64 set" where
  "reader_positions j = {p. Some p \<in> set (js_readers j)}"

lemma reader_floor_Min:
  "reader_floor j = (if reader_positions j = {} then js_next j else Min (reader_positions j))"
proof -
  have set: "set (List.map_filter (\<lambda>r. r) (js_readers j)) = reader_positions j"
    by (force simp: List.map_filter_def reader_positions_def)
  show ?thesis
  proof (cases "List.map_filter (\<lambda>r. r) (js_readers j)")
    case Nil
    then show ?thesis using set by (simp add: reader_floor_def)
  next
    case (Cons p ps)
    then have "fold min ps p = Min (reader_positions j)" using Min.set_eq_fold [of p ps] set by simp
    moreover have "reader_positions j \<noteq> {}" using Cons set by auto
    ultimately show ?thesis using Cons by (simp add: reader_floor_def)
  qed
qed

lemma finite_reader_positions [simp]: "finite (reader_positions j)"
proof -
  have "reader_positions j \<subseteq> the ` set (js_readers j)" by (force simp: reader_positions_def)
  then show ?thesis by (rule finite_subset) simp
qed

lemma reader_positions_le: "journal_ok hist j \<Longrightarrow> p \<in> reader_positions j \<Longrightarrow> p \<le> js_next j"
  by (fastforce simp: journal_ok_def reader_positions_def list_all_iff)

lemma reader_floor_le: "journal_ok hist j \<Longrightarrow> reader_floor j \<le> js_next j"
  using Min_in [of "reader_positions j"] reader_positions_le [of hist j] by (auto simp: reader_floor_Min)

lemma reclaim_ok:
  assumes "journal_ok hist j"
  obtains j' b' where "reclaim (j, b) = Some (j', b')" "journal_ok hist j'" "same_frame j j'"
    "js_base j' = max (js_base j) (reader_floor j)" "slot_free j \<longrightarrow> slot_free j'"
  unfolding reclaim_def fst_conv
  by (rule retire_to_ok [OF assms reader_floor_le [OF assms], of b])

section \<open>Making room\<close>

lemma funded_array_Some:
  assumes "funded_array f item b c = (Some (actual, memory), b')"
  shows "c \<le> actual"
  using assms
  by (auto simp: funded_array_def fund_extra_def checked_sub_def split: option.splits if_splits bind_splits)

lemma grow_rest_ok:
  assumes "journal_ok hist j" "grow_rest ly (j, b) = (out, j', b')"
  shows "journal_ok hist j'" "same_frame j j'" "slot_free j'"
    "\<exists>k. contents j' = drop k (contents j) \<and> js_base j' = js_base j + k
        \<and> (out \<longleftrightarrow> (\<exists>e\<in>set (take k (contents j)). is_output_or_gap e))"
proof -
  have cap: "length (js_rest j) \<le> js_rest_capacity j" using assms(1) by (simp add: journal_ok_def)
  have "journal_ok hist j' \<and> same_frame j j' \<and> slot_free j' \<and> (\<exists>k. contents j' = drop k (contents j)
      \<and> js_base j' = js_base j + k \<and> (out \<longleftrightarrow> (\<exists>e\<in>set (take k (contents j)). is_output_or_gap e)))"
  proof (cases "js_first j \<noteq> None \<and> length (js_rest j) = js_rest_capacity j")
    case False
    then have "out = False" "j' = j" using assms(2) by (auto simp: grow_rest_def)
    then show ?thesis using assms(1) False cap by (auto simp: slot_free_def intro!: exI [of _ 0])
  next
    case True
    then obtain e where e: "js_first j = Some e" by auto
    have retired: ?thesis if "retire (j, b0) = (out, j', b')" for b0
    proof -
      note sp = retire_spec [OF e that]
      have "contents j' = drop 1 (contents j)" "take 1 (contents j) = [e]" using sp(1) by simp_all
      then show ?thesis
        using retire_ok [OF assms(1) e that] sp cap by (auto intro!: exI [of _ 1])
    qed
    show ?thesis
    proof (cases "checked_mul (js_rest_capacity j) 2")
      case None
      have "grow_rest ly (j, b) = retire (j, b)" using True by (simp add: grow_rest_def None)
      then show ?thesis using retired [of b] assms(2) by simp
    next
      case (Some c)
      note mul = this
      obtain g b1 where g: "funded_array (deque_reserve_exact ly) (sz_live_event ly) b (max c 1) = (g, b1)" by fastforce
      show ?thesis
      proof (cases g)
        case None
        then have "grow_rest ly (j, b) = retire (j, b1)" using True g by (simp add: grow_rest_def mul)
        then show ?thesis using retired [of b1] assms(2) by simp
      next
        case (Some am)
        then obtain actual memory where am: "g = Some (actual, memory)" by (cases am) auto
        then have le: "max c 1 \<le> actual" using funded_array_Some g by metis
        have c: "c = js_rest_capacity j * 2" using mul
          by (simp add: checked_mul_def split: if_splits)
        have "out = False" "j' = j\<lparr>js_rest_capacity := actual, js_rest_memory := memory\<rparr>"
          using assms(2) True g am by (auto simp: grow_rest_def mul)
        then show ?thesis
          using assms(1) True le c
          by (auto simp: journal_ok_def same_frame_def slot_free_def contents_def intro!: exI [of _ 0])
      qed
    qed
  qed
  then show "journal_ok hist j'" "same_frame j j'" "slot_free j'"
    "\<exists>k. contents j' = drop k (contents j) \<and> js_base j' = js_base j + k
        \<and> (out \<longleftrightarrow> (\<exists>e\<in>set (take k (contents j)). is_output_or_gap e))" by blast+
qed

lemma fund_event_ok:
  assumes "journal_ok hist j" "slot_free j" "fund_event bytes r0 (j, b) = (memory, r, j', b')"
  shows "journal_ok hist j' \<and> same_frame j j' \<and> slot_free j' \<and> (\<exists>k. contents j' = drop k (contents j)
    \<and> js_base j' = js_base j + k \<and> (r \<longleftrightarrow> r0 \<or> (\<exists>e\<in>set (take k (contents j)). is_output_or_gap e)))"
  using assms
proof (induction bytes r0 "(j, b)" arbitrary: j b rule: fund_event.induct)
  case (1 bytes r0 j b)
  show ?case
  proof (cases "reserve b bytes")
    case (Some bp)
    then have "j' = j" "r = r0" using 1(4) by (cases bp; simp add: fund_event.simps)+
    then show ?thesis using 1(2,3) by (auto intro!: exI [of _ 0])
  next
    case None
    show ?thesis
    proof (cases "js_first j")
      case None
      then have "j' = j" "r = r0" using 1(4) \<open>reserve b bytes = None\<close> by (simp_all add: fund_event.simps)
      then show ?thesis using 1(2,3) by (auto intro!: exI [of _ 0])
    next
      case (Some e)
      obtain out j1 b1 where rt: "retire (j, b) = (out, j1, b1)" using prod_cases3 by blast
      note sp = retire_spec [OF Some rt]
      have cap: "length (js_rest j) \<le> js_rest_capacity j" using 1(2) by (simp add: journal_ok_def)
      have step: "fund_event bytes r0 (j, b) = fund_event bytes (r0 \<or> out) (j1, b1)"
        using None Some rt by (simp add: fund_event.simps [of bytes r0 j b])
      have "journal_ok hist j' \<and> same_frame j1 j' \<and> slot_free j' \<and> (\<exists>k. contents j' = drop k (contents j1)
        \<and> js_base j' = js_base j1 + k \<and> (r \<longleftrightarrow> (r0 \<or> out) \<or> (\<exists>e\<in>set (take k (contents j1)). is_output_or_gap e)))"
        by (rule 1(1) [OF None _ rt [symmetric] refl])
           (use Some retire_ok(1) [OF 1(2) Some rt] sp(6) [OF cap] 1(4) step in simp_all)
      then obtain k where k: "journal_ok hist j'" "same_frame j1 j'" "slot_free j'" "contents j' = drop k (contents j1)"
        "js_base j' = js_base j1 + k" "r \<longleftrightarrow> (r0 \<or> out) \<or> (\<exists>e\<in>set (take k (contents j1)). is_output_or_gap e)" by blast
      have "contents j' = drop (Suc k) (contents j)" "js_base j' = js_base j + Suc k"
        "r \<longleftrightarrow> r0 \<or> (\<exists>e\<in>set (take (Suc k) (contents j)). is_output_or_gap e)"
        using k(4-6) sp(1-3) by auto
      then show ?thesis using k(1-3) sp(4) same_frame_trans by blast
    qed
  qed
qed

lemma prepare_ok:
  assumes "journal_ok hist j"
  obtains p j' b' k where "prepare ly allocation (j, b) = Some (p, j', b')" "journal_ok hist j'" "same_frame j j'" "slot_free j'"
    "js_base j' = max (js_base j) (reader_floor j) + k"
    "pp_retired_output p \<longleftrightarrow> (\<exists>e\<in>set (take k (drop (max (js_base j) (reader_floor j)) hist)). is_output_or_gap e)"
proof -
  obtain j1 b1 where r: "reclaim (j, b) = Some (j1, b1)" "journal_ok hist j1" "same_frame j j1"
    "js_base j1 = max (js_base j) (reader_floor j)"
    by (rule reclaim_ok [OF assms])
  obtain o1 j2 b2 where g: "grow_rest ly (j1, b1) = (o1, j2, b2)" using prod_cases3 by blast
  note gr = grow_rest_ok [OF r(2) g]
  obtain k1 where k1: "contents j2 = drop k1 (contents j1)" "js_base j2 = js_base j1 + k1"
    "o1 \<longleftrightarrow> (\<exists>e\<in>set (take k1 (contents j1)). is_output_or_gap e)" using gr(4) by blast
  obtain m o2 j3 b3 where f: "(case allocation of None \<Rightarrow> (None, o1, (j2, b2)) | Some bytes \<Rightarrow> fund_event bytes o1 (j2, b2))
      = (m, o2, j3, b3)" by (metis prod_cases4)
  have f3: "journal_ok hist j3 \<and> same_frame j2 j3 \<and> slot_free j3 \<and> (\<exists>k. contents j3 = drop k (contents j2)
    \<and> js_base j3 = js_base j2 + k \<and> (o2 \<longleftrightarrow> o1 \<or> (\<exists>e\<in>set (take k (contents j2)). is_output_or_gap e)))"
  proof (cases allocation)
    case None
    then show ?thesis using f gr by (auto intro!: exI [of _ 0])
  next
    case (Some bytes)
    then show ?thesis using fund_event_ok [OF gr(1,3)] f by simp
  qed
  then obtain k2 where k2: "contents j3 = drop k2 (contents j2)" "js_base j3 = js_base j2 + k2"
    "o2 \<longleftrightarrow> o1 \<or> (\<exists>e\<in>set (take k2 (contents j2)). is_output_or_gap e)" by blast
  have c1: "contents j1 = drop (max (js_base j) (reader_floor j)) hist" using r(2,4) by (simp add: journal_ok_def)
  have "take (k1 + k2) (contents j1) = take k1 (contents j1) @ take k2 (contents j2)"
    using k1(1) by (simp add: take_add)
  then have o2: "o2 \<longleftrightarrow> (\<exists>e\<in>set (take (k1 + k2) (drop (max (js_base j) (reader_floor j)) hist)). is_output_or_gap e)"
    using k1(3) k2(3) c1 by auto
  have e: "prepare ly allocation (j, b) = Some (\<lparr>pp_memory = m, pp_retired_output = o2\<rparr>, j3, b3)"
    using r(1) g f by (simp add: prepare_def)
  have fr: "same_frame j j3" using r(3) gr(2) f3 same_frame_trans by blast
  show ?thesis
    by (rule that [OF e _ fr, of "k1 + k2"]) (use f3 k1(2) k2(2) r(4) o2 f in auto)
qed

lemma send_ok:
  assumes "journal_ok hist j" "slot_free j" "\<not> js_closed j" "0 < js_receiver_count j" "js_next j < U64_MAX"
  obtains j' where "journal_send e (j, b) = Some (j', b)" "journal_ok (hist @ [e]) j'" "js_next j' = js_next j + 1"
    "js_readers j' = js_readers j" "js_base j' = js_base j" "js_receiver_count j' = js_receiver_count j" "js_closed j' = js_closed j"
proof -
  let ?j = "if js_first j = None then j\<lparr>js_next := js_next j + 1, js_first := Some e\<rparr>
            else j\<lparr>js_next := js_next j + 1, js_rest := js_rest j @ [e]\<rparr>"
  have s: "journal_send e (j, b) = Some (?j, b)"
    using assms by (auto simp: journal_send_def slot_free_def checked_add_def)
  have c: "contents ?j = contents j @ [e]"
    using assms(1) by (auto simp: contents_def journal_ok_def split: option.split)
  have "journal_ok (hist @ [e]) ?j"
    using assms c by (auto simp: journal_ok_def slot_free_def list_all_iff split: option.splits)
  then show ?thesis using that [OF s] by simp
qed

text \<open>A concrete host and a journal with one fresh receiver, for the witnesses.\<close>

definition sample_layout :: layout where
  "sample_layout = \<lparr>sz_shared = 200, sz_usize = 8, sz_live_event = 300, sz_reader = 16, sz_funded_event = 100,
     vec_reserve_exact = Some, deque_reserve_exact = Some, heap_capacity = length, string_capacity = length\<rparr>"

definition sample_journal :: journal where
  "sample_journal = \<lparr>js_first = None, js_rest = [], js_rest_capacity = 0, js_rest_memory = [], js_base = 0, js_next = 0,
     js_readers = [Some 0], js_readers_capacity = 1, js_readers_memory = [16], js_receiver_count = 1,
     js_closed = False, js_memory = 216, js_held = [], js_next_lease = 0\<rparr>"

definition sample_owner :: event_owner where
  "sample_owner = \<lparr>eo_sender = Some sample_journal, eo_cursor = CURSOR_ZERO, eo_attachments = 1\<rparr>"

lemma sample_journal_ok: "journal_ok [] sample_journal"
  by (simp add: journal_ok_def sample_journal_def contents_def)

definition sample_envelope :: live_run_event where
  "sample_envelope = \<lparr>le_published = OutputGap 7 CAUSES_LIVE_EVENT_PRESSURE, le_before = CURSOR_ZERO,
     le_after = CURSOR_ZERO\<lparr>lc_output_discontinuity_revision := 1\<rparr>\<rparr>"

section \<open>Receiving\<close>

lemma journal_ok_reader:
  assumes "journal_ok hist j" "reader < length (js_readers j)" "js_readers j ! reader = Some pos" "pos' \<le> js_next j"
  shows "journal_ok hist (j\<lparr>js_readers := (js_readers j)[reader := Some pos']\<rparr>)"
proof -
  have "length (filter (\<lambda>r. r \<noteq> None) ((js_readers j)[reader := Some pos'])) = length (filter (\<lambda>r. r \<noteq> None) (js_readers j))"
    using assms(2,3) by (simp add: length_filter_conv_card) (metis nth_list_update option.distinct(1))
  moreover have "list_all (\<lambda>r. case r of None \<Rightarrow> True | Some p \<Rightarrow> p \<le> js_next j) ((js_readers j)[reader := Some pos'])"
    using assms(1,4) by (auto simp: journal_ok_def list_all_iff dest!: set_update_subset_insert [THEN subsetD])
  ultimately show ?thesis using assms(1) by (auto simp: journal_ok_def contents_def)
qed

lemma hold_envelope_frame [simp]:
  "js_first (hold_envelope e j) = js_first j" "js_rest (hold_envelope e j) = js_rest j" "js_base (hold_envelope e j) = js_base j"
  "js_next (hold_envelope e j) = js_next j" "js_readers (hold_envelope e j) = js_readers j"
  "contents (hold_envelope e j) = contents j" "reader_floor (hold_envelope e j) = reader_floor j"
  "js_closed (hold_envelope e j) = js_closed j" "js_receiver_count (hold_envelope e j) = js_receiver_count j"
  "journal_ok hist (hold_envelope e j) = journal_ok hist j"
  by (simp_all add: hold_envelope_def contents_def reader_floor_def journal_ok_def split: option.split list.split)

lemma try_recv_spec:
  assumes "journal_ok hist j" "reader < length (js_readers j)" "js_readers j ! reader = Some pos"
  shows "\<exists>r j' b'. try_recv reader (j, b) = Some (r, j', b') \<and> journal_ok hist j'
    \<and> (if pos < js_base j
       then r = Inl (Lagged (js_base j - pos)) \<and> js_readers j' = (js_readers j)[reader := Some (js_base j)] \<and> js_base j' = js_base j
       else if pos = length hist
       then r = Inl (if js_closed j then Closed else Empty) \<and> j' = j
       else r = Inr (hist ! pos) \<and> js_readers j' = (js_readers j)[reader := Some (pos + 1)]
            \<and> js_base j' = max (js_base j) (Min (reader_positions j')))"
proof -
  have ok: "js_next j = length hist" "contents j = drop (js_base j) hist" "js_base j \<le> length hist"
    "js_first j = None \<longrightarrow> js_rest j = []"
    using assms(1) by (auto simp: journal_ok_def)
  have le: "pos \<le> js_next j"
    using assms reader_positions_le [OF assms(1), of pos] by (metis mem_Collect_eq nth_mem reader_positions_def)
  consider (lag) "pos < js_base j" | (seen) "\<not> pos < js_base j" "pos = length hist" | (event) "\<not> pos < js_base j" "pos < length hist"
    using le ok(1) by linarith
  then show ?thesis
  proof cases
    case lag
    then show ?thesis
      using assms journal_ok_reader [OF assms, of "js_base j"] ok(1,3) by (simp add: try_recv_def)
  next
    case seen
    then show ?thesis using assms ok(1) by (simp add: try_recv_def)
  next
    case event
    let ?k = "pos - js_base j"
    let ?ev = "if ?k = 0 then js_first j else if ?k - 1 < length (js_rest j) then Some (js_rest j ! (?k - 1)) else None"
    have k: "?k < length (contents j)" "contents j ! ?k = hist ! pos" using event ok by simp_all
    obtain f where f: "js_first j = Some f" using k(1) ok(4) by (cases "js_first j") (auto simp: contents_def)
    then have "contents j = f # js_rest j" by (simp add: contents_def)
    then have ev: "?ev = Some (hist ! pos)" using k f by (cases ?k) auto
    let ?j1 = "j\<lparr>js_readers := (js_readers j)[reader := Some (pos + 1)]\<rparr>"
    have ok1: "journal_ok hist (hold_envelope (hist ! pos) ?j1)"
      using journal_ok_reader [OF assms, of "pos + 1"] event ok(1) by simp
    obtain j' b' where rc: "reclaim (hold_envelope (hist ! pos) ?j1, b) = Some (j', b')" "journal_ok hist j'"
      "same_frame (hold_envelope (hist ! pos) ?j1) j'"
      "js_base j' = max (js_base (hold_envelope (hist ! pos) ?j1)) (reader_floor (hold_envelope (hist ! pos) ?j1))"
      by (rule reclaim_ok [OF ok1])
    have readers: "js_readers j' = (js_readers j)[reader := Some (pos + 1)]" using rc(3) by (simp add: same_frame_def)
    have "reader_floor ?j1 = Min (reader_positions j')"
    proof -
      have "reader_positions j' = reader_positions ?j1" using readers by (simp add: reader_positions_def)
      moreover have "pos + 1 \<in> reader_positions ?j1" using assms(2) by (simp add: reader_positions_def set_update_memI)
      ultimately show ?thesis by (auto simp: reader_floor_Min)
    qed
    moreover have "try_recv reader (j, b) = Some (Inr (hist ! pos), j', b')"
      using assms(2,3) event ok(1) ev rc(1) by (simp add: try_recv_def Let_def)
    ultimately show ?thesis using rc(2,4) readers event by simp
  qed
qed

text \<open>
  A receiver sees exactly what was published, in order.  With \<open>hist\<close> the envelopes sent so
  far and the receiver at position \<open>pos\<close>: if the journal no longer reaches back to \<open>pos\<close> the
  receiver is told exactly how many envelopes it lost and resumes at the oldest one kept; if it has
  seen everything it is told so; otherwise it gets envelope number \<open>pos\<close>, advances by one, and the
  journal releases precisely the envelopes every receiver has consumed.  No call panics or spins.
\<close>

theorem try_recv_exact:
  assumes "journal_ok hist j" "reader < length (js_readers j)" "js_readers j ! reader = Some pos"
  shows "\<exists>r j' b'. try_recv reader (j, b) = Some (r, j', b') \<and> journal_ok hist j'
    \<and> (if pos < js_base j
       then r = Inl (Lagged (js_base j - pos)) \<and> js_readers j' = (js_readers j)[reader := Some (js_base j)] \<and> js_base j' = js_base j
       else if pos = length hist
       then r = Inl (if js_closed j then Closed else Empty) \<and> j' = j
       else r = Inr (hist ! pos) \<and> js_readers j' = (js_readers j)[reader := Some (pos + 1)]
            \<and> js_base j' = max (js_base j) (Min (reader_positions j')))"
  by (rule try_recv_spec [OF assms])

theorem try_recv_exact_example:
  "\<exists>j' b'. try_recv 0 (sample_journal\<lparr>js_first := Some sample_envelope, js_next := 1\<rparr>, budget_new 1000) = Some (Inr sample_envelope, j', b')
     \<and> js_base j' = 1"
proof -
  let ?j = "sample_journal\<lparr>js_first := Some sample_envelope, js_next := 1\<rparr>"
  have ok: "journal_ok [sample_envelope] ?j"
    by (simp add: journal_ok_def sample_journal_def contents_def max_values)
  have r: "0 < length (js_readers ?j)" "js_readers ?j ! 0 = Some 0" by (simp_all add: sample_journal_def)
  have "js_base ?j = 0" by (simp add: sample_journal_def)
  then obtain res j' b' where t: "try_recv 0 (?j, budget_new 1000) = Some (res, j', b')"
    "res = Inr sample_envelope" "js_readers j' = (js_readers ?j)[0 := Some (0 + 1)]" "js_base j' = max 0 (Min (reader_positions j'))"
    using try_recv_exact [OF ok r, of "budget_new 1000"] by auto
  have "reader_positions j' = {1}" using t(3) by (auto simp: reader_positions_def sample_journal_def)
  then show ?thesis using t by simp
qed

section \<open>Publishing\<close>

text \<open>Revisions with room for \<open>n\<close> more steps; one publication takes at most two.\<close>

definition cursor_room :: "nat \<Rightarrow> live_event_cursor \<Rightarrow> bool" where
  "cursor_room n c \<longleftrightarrow> lc_output_discontinuity_revision c + n \<le> U64_MAX \<and> lc_observation_revision c + n \<le> U64_MAX
     \<and> lc_terminal_revision c + n \<le> U64_MAX \<and> lc_resize_revision c + n \<le> U64_MAX \<and> lc_service_revision c + n \<le> U64_MAX
     \<and> gr_live_event_pressure (lc_gap_causes c) + n \<le> U64_MAX \<and> gr_source_discontinuity (lc_gap_causes c) + n \<le> U64_MAX
     \<and> gr_unknown (lc_gap_causes c) + n \<le> U64_MAX"

text \<open>Cursors only ever move forward.\<close>

definition cursor_le :: "live_event_cursor \<Rightarrow> live_event_cursor \<Rightarrow> bool" where
  "cursor_le a b \<longleftrightarrow> lc_output_bytes a \<le> lc_output_bytes b
     \<and> lc_output_discontinuity_revision a \<le> lc_output_discontinuity_revision b
     \<and> lc_observation_revision a \<le> lc_observation_revision b \<and> lc_terminal_revision a \<le> lc_terminal_revision b
     \<and> lc_resize_revision a \<le> lc_resize_revision b \<and> lc_service_revision a \<le> lc_service_revision b
     \<and> gr_live_event_pressure (lc_gap_causes a) \<le> gr_live_event_pressure (lc_gap_causes b)
     \<and> gr_source_discontinuity (lc_gap_causes a) \<le> gr_source_discontinuity (lc_gap_causes b)
     \<and> gr_unknown (lc_gap_causes a) \<le> gr_unknown (lc_gap_causes b)"

lemma cursor_le_refl [simp]: "cursor_le c c"
  by (simp add: cursor_le_def)

lemma cursor_le_trans [trans]: "cursor_le a b \<Longrightarrow> cursor_le b c \<Longrightarrow> cursor_le a c"
  by (auto simp: cursor_le_def)

lemma bump_Some [simp]: "bump n = Some m \<longleftrightarrow> m = n + 1 \<and> n + 1 \<le> U64_MAX"
  by (auto simp: bump_def checked_add_def)

lemma causes_record_Some:
  "causes_record c g = Some g' \<Longrightarrow>
     gr_live_event_pressure g' = gr_live_event_pressure g + (if live_event_pressure c then 1 else 0)
     \<and> gr_source_discontinuity g' = gr_source_discontinuity g + (if source_discontinuity c then 1 else 0)
     \<and> gr_unknown g' = gr_unknown g + (if unknown_cause c then 1 else 0)"
  by (auto simp: causes_record_def bump_if_def bind_eq_Some_conv split: if_splits)

lemma causes_record_total:
  assumes "gr_live_event_pressure g < U64_MAX" "gr_source_discontinuity g < U64_MAX" "gr_unknown g < U64_MAX"
  shows "causes_record c g \<noteq> None"
  using assms by (simp add: causes_record_def bump_if_def bump_def checked_add_def)

lemma cursor_record_le: "cursor_record ev c = Some c' \<Longrightarrow> cursor_le c c'"
  by (cases ev) (auto simp: cursor_le_def bind_eq_Some_conv dest!: causes_record_Some)

lemma cursor_record_total:
  assumes "cursor_room 1 c"
  obtains c' where "cursor_record ev c = Some c'"
proof -
  have "\<exists>c'. cursor_record ev c = Some c'"
  proof (cases "is_gap ev")
    case True
    then obtain latest cs where ev: "ev = EvGap latest cs" by (auto simp: is_gap_def split: run_event.splits)
    have "causes_record cs (lc_gap_causes c) \<noteq> None"
      by (rule causes_record_total) (use assms in \<open>auto simp: cursor_room_def\<close>)
    then obtain g where "causes_record cs (lc_gap_causes c) = Some g" by auto
    then show ?thesis using assms ev by (simp add: cursor_room_def bump_def checked_add_def)
  next
    case False
    then show ?thesis
      using assms by (cases ev) (simp_all add: is_gap_def cursor_room_def bump_def checked_add_def)
  qed
  then show ?thesis using that by blast
qed

lemma note_retired_total:
  assumes "cursor_room 2 c"
  obtains c' where "note_retired c = Some c'" "cursor_room 1 c'" "cursor_le c c'"
    "lc_output_discontinuity_revision c' = lc_output_discontinuity_revision c + 1"
    "gr_live_event_pressure (lc_gap_causes c') = gr_live_event_pressure (lc_gap_causes c) + 1"
    "lc_output_bytes c' = lc_output_bytes c"
proof -
  have "causes_record CAUSES_LIVE_EVENT_PRESSURE (lc_gap_causes c) \<noteq> None"
    by (rule causes_record_total) (use assms in \<open>auto simp: cursor_room_def\<close>)
  then obtain g where g: "causes_record CAUSES_LIVE_EVENT_PRESSURE (lc_gap_causes c) = Some g" by auto
  let ?c = "c\<lparr>lc_output_discontinuity_revision := lc_output_discontinuity_revision c + 1,
     lc_latest_output_discontinuity_byte := max (lc_output_bytes c) (lc_latest_output_discontinuity_byte c), lc_gap_causes := g\<rparr>"
  have "note_retired c = Some ?c"
    using assms g by (simp add: note_retired_def cursor_room_def bump_def checked_add_def)
  then show ?thesis
    by (rule that) (use assms causes_record_Some [OF g] in
      \<open>auto simp: cursor_room_def cursor_le_def CAUSES_LIVE_EVENT_PRESSURE_def CAUSES_NONE_def\<close>)
qed

text \<open>What one publication to a listening journal sends, given the cursor before it, the events it had
  to retire unread and the permit it got.\<close>

definition envelope_for :: "run_event \<Rightarrow> live_event_cursor \<Rightarrow> live_run_event \<Rightarrow> bool" where
  "envelope_for ev c e \<longleftrightarrow>
     (\<exists>l. le_published e = Funded l ev \<and> cursor_record ev (le_before e) = Some (le_after e))
     \<or> (le_published e = unfunded (degrade ev) \<and> cursor_record (degrade ev) (le_before e) = Some (le_after e))"

lemma degrade_gap: "is_gap ev \<Longrightarrow> degrade ev = ev"
  by (cases ev) (auto simp: is_gap_def degrade_def)

lemma publish_ok:
  assumes "eo_sender ow = Some j" "journal_ok hist j" "\<not> js_closed j" "0 < js_receiver_count j" "js_next j < U64_MAX"
    "cursor_room 2 (eo_cursor ow)"
  obtains ow' b' j' e k where "publish ly ev (ow, b) = Some (ow', b')" "eo_sender ow' = Some j'"
    "journal_ok (hist @ [e]) j'" "js_readers j' = js_readers j" "le_after e = eo_cursor ow'"
    "js_base j' = max (js_base j) (reader_floor j) + k" "envelope_for ev (eo_cursor ow) e" "\<not> js_closed j'"
    "js_receiver_count j' = js_receiver_count j" "eo_attachments ow' = eo_attachments ow" "js_base j' \<le> length hist"
    "if (\<exists>x\<in>set (take k (drop (max (js_base j) (reader_floor j)) hist)). is_output_or_gap x)
     then note_retired (eo_cursor ow) = Some (le_before e) else le_before e = eo_cursor ow"
proof -
  let ?alloc = "if is_gap ev then None else Some (saturating_add (payload_capacity ly ev) (event_allocation_bytes ly))"
  obtain p j1 b1 k where pr: "prepare ly ?alloc (j, b) = Some (p, j1, b1)" "journal_ok hist j1" "same_frame j j1" "slot_free j1"
    "js_base j1 = max (js_base j) (reader_floor j) + k"
    "pp_retired_output p \<longleftrightarrow> (\<exists>e\<in>set (take k (drop (max (js_base j) (reader_floor j)) hist)). is_output_or_gap e)"
    by (rule prepare_ok [OF assms(2)])
  have room: "cursor_room 1 (eo_cursor ow)" using assms(6) by (simp add: cursor_room_def)
  obtain cr where cr: "note_retired (eo_cursor ow) = Some cr" "cursor_room 1 cr" by (rule note_retired_total [OF assms(6)])
  define c1 where "c1 = (if pp_retired_output p then cr else eo_cursor ow)"
  have c1: "(if pp_retired_output p then note_retired (eo_cursor ow) else Some (eo_cursor ow)) = Some c1" "cursor_room 1 c1"
    using cr room by (simp_all add: c1_def)
  define ev' where "ev' = (if pp_memory p = None \<and> \<not> is_gap ev then degrade ev else ev)"
  obtain c2 where c2: "cursor_record ev' c1 = Some c2" by (rule cursor_record_total [OF c1(2)])
  define j2 where "j2 = (if pp_memory p = None then j1 else j1\<lparr>js_next_lease := js_next_lease j1 + 1\<rparr>)"
  define e where "e = \<lparr>le_published = (case pp_memory p of
       Some m \<Rightarrow> Funded \<lparr>lease_id = js_next_lease j1, lease_bytes = m\<rparr> ev' | None \<Rightarrow> unfunded ev'), le_before = c1, le_after = c2\<rparr>"
  have j2: "journal_ok hist j2" "slot_free j2" "\<not> js_closed j2" "0 < js_receiver_count j2" "js_next j2 < U64_MAX"
    "js_readers j2 = js_readers j" "js_receiver_count j2 = js_receiver_count j" "js_base j2 = js_base j1"
    using pr(2-4) assms(3-5) by (auto simp: j2_def journal_ok_def contents_def slot_free_def same_frame_def)
  obtain j3 where s: "journal_send e (j2, b1) = Some (j3, b1)" "journal_ok (hist @ [e]) j3"
    "js_readers j3 = js_readers j2" "js_base j3 = js_base j2" "js_receiver_count j3 = js_receiver_count j2" "js_closed j3 = js_closed j2"
    by (rule send_ok [OF j2(1-5)])
  let ?ow = "ow\<lparr>eo_sender := Some j3, eo_cursor := c2\<rparr>"
  have cnt: "0 < js_receiver_count j1" using pr(3) assms(4) by (simp add: same_frame_def)
  have prep: "publish_prepare ly ev (ow, b) = Some (Some p, ow\<lparr>eo_sender := Some j1\<rparr>, b1)"
    using assms(1,4) pr(1) by (simp add: publish_prepare_def)
  have send: "publish_send ev' (pp_memory p) c1 (ow\<lparr>eo_sender := Some j1, eo_cursor := c2\<rparr>, b1) = Some (?ow, b1)"
    using s(1) by (cases "pp_memory p") (simp_all add: publish_send_def Let_def e_def j2_def)
  have pub: "publish ly ev (ow, b) = Some (?ow, b1)"
    unfolding publish_def prep using c1(1) c2 send cnt
    by (cases "pp_retired_output p") (simp_all add: ev'_def [symmetric] Let_def)
  have env: "envelope_for ev (eo_cursor ow) e"
  proof (cases "pp_memory p")
    case (Some m)
    then show ?thesis using c2 by (simp add: envelope_for_def e_def ev'_def)
  next
    case None
    then have "ev' = degrade ev" using degrade_gap by (simp add: ev'_def)
    then show ?thesis using None c2 by (simp add: envelope_for_def e_def)
  qed
  show ?thesis
    by (rule that [OF pub _ s(2) _ _ _ env, of k]) (use s j2 pr(2,5,6) c1 in \<open>auto simp: e_def journal_ok_def split: if_splits\<close>)
qed


lemma sample_owner_ok:
  "eo_sender sample_owner = Some sample_journal" "\<not> js_closed sample_journal" "0 < js_receiver_count sample_journal"
  "js_next sample_journal < U64_MAX" "cursor_room 2 (eo_cursor sample_owner)" "eo_cursor sample_owner = CURSOR_ZERO"
  by (simp_all add: sample_owner_def sample_journal_def cursor_room_def CURSOR_ZERO_def max_values)


section \<open>Loss is visible\<close>

definition records :: "live_run_event \<Rightarrow> bool" where
  "records e = (case le_event e of
       Some ev \<Rightarrow> cursor_record ev (le_before e) = Some (le_after e)
     | None \<Rightarrow> cursor_le (le_before e) (le_after e))"

fun chained :: "live_event_cursor \<Rightarrow> live_run_event list \<Rightarrow> live_event_cursor \<Rightarrow> bool" where
  "chained c [] c' \<longleftrightarrow> cursor_le c c'"
| "chained c (e # es) c' \<longleftrightarrow> cursor_le c (le_before e) \<and> records e \<and> chained (le_after e) es c'"

lemma records_le: "records e \<Longrightarrow> cursor_le (le_before e) (le_after e)"
  by (auto simp: records_def cursor_record_le split: option.splits)

lemma chained_append:
  "chained c (as @ [e]) c' \<longleftrightarrow> (\<exists>m. chained c as m \<and> cursor_le m (le_before e)) \<and> records e \<and> cursor_le (le_after e) c'"
proof (induction as arbitrary: c)
  case Nil
  then show ?case using cursor_le_trans cursor_le_refl by auto
next
  case (Cons a as)
  then show ?case by auto
qed

lemma unfunded_event:
  "le_published e = unfunded d \<Longrightarrow> (\<forall>t. d \<noteq> EvTmux t) \<Longrightarrow> le_event e = Some d \<or> le_event e = None"
  by (cases d) (simp_all add: unfunded_def le_event_def)

lemma degrade_not_tmux: "degrade ev \<noteq> EvTmux t"
  by (cases ev) (simp_all add: degrade_def)

lemma envelope_records: "envelope_for ev c e \<Longrightarrow> records e"
proof -
  assume "envelope_for ev c e"
  then consider l where "le_published e = Funded l ev" "cursor_record ev (le_before e) = Some (le_after e)"
    | "le_published e = unfunded (degrade ev)" "cursor_record (degrade ev) (le_before e) = Some (le_after e)"
    by (auto simp: envelope_for_def)
  then show ?thesis
  proof cases
    case 1
    then show ?thesis by (simp add: records_def le_event_def)
  next
    case 2
    then show ?thesis
      using unfunded_event [OF 2(1)] degrade_not_tmux cursor_record_le [OF 2(2)] by (auto simp: records_def)
  qed
qed

lemma chained_le: "chained c es c' \<Longrightarrow> cursor_le c c'"
proof (induction es arbitrary: c)
  case (Cons e es)
  then have "cursor_le c (le_before e)" "cursor_le (le_before e) (le_after e)" "cursor_le (le_after e) c'"
    by (auto intro: records_le)
  then show ?case using cursor_le_trans by blast
qed simp

lemma chained_from:
  assumes "chained c es c'" "m < length es"
  shows "cursor_le c (le_before (es ! m))" "records (es ! m)"
proof -
  have "cursor_le c (le_before (es ! m)) \<and> records (es ! m)"
    using assms
  proof (induction es arbitrary: c m)
    case (Cons e es)
    show ?case
    proof (cases m)
      case 0
      then show ?thesis using Cons.prems by simp
    next
      case (Suc n)
      then have "cursor_le (le_after e) (le_before (es ! n)) \<and> records (es ! n)"
        using Cons.IH [of "le_after e" n] Cons.prems by simp
      moreover have "cursor_le c (le_before e)" "cursor_le (le_before e) (le_after e)"
        using Cons.prems by (auto intro: records_le)
      ultimately show ?thesis using Suc cursor_le_trans by (metis nth_Cons_Suc)
    qed
  qed simp
  then show "cursor_le c (le_before (es ! m))" "records (es ! m)" by simp_all
qed

lemma chained_between:
  assumes "chained c es c'" "i < k" "k < length es"
  shows "cursor_le (le_after (es ! i)) (le_before (es ! k))"
  using assms
proof (induction es arbitrary: c i k)
  case (Cons e es)
  obtain m where m: "k = Suc m" using Cons.prems(2) by (cases k) auto
  show ?case
  proof (cases i)
    case 0
    then show ?thesis using chained_from(1) [of "le_after e" es c' m] Cons.prems m by simp
  next
    case (Suc n)
    then show ?thesis using Cons.IH [of "le_after e" n m] Cons.prems m by simp
  qed
qed simp

lemma cursor_record_output: "cursor_record (EvOutput chunk) c = Some c' \<Longrightarrow> end_byte chunk \<le> lc_output_bytes c'"
  by auto

lemma cursor_record_gap:
  "cursor_record (EvGap latest causes) c = Some c' \<Longrightarrow>
     lc_output_discontinuity_revision c' = lc_output_discontinuity_revision c + 1"
  by (auto simp: bind_eq_Some_conv)

lemma cursor_record_observation:
  "cursor_record (EvTmux t) c = Some c' \<Longrightarrow> lc_observation_revision c' = lc_observation_revision c + 1"
  "cursor_record EvObservationDiscontinuity c = Some c' \<Longrightarrow> lc_observation_revision c' = lc_observation_revision c + 1"
  by auto

section \<open>Traces of a Run's live delivery\<close>

text \<open>The operations on one journal in any order, with any budget in between (other Runs share it);
  \<open>hist\<close> collects the envelopes sent.  A publication without receivers advances only the cursor.\<close>

inductive live_trace :: "layout \<Rightarrow> live_run_event list \<Rightarrow> event_owner \<Rightarrow> bool" for ly where
  opened: "sender_new ly b = Some (j, b') \<Longrightarrow> eo_sender ow = Some j \<Longrightarrow> live_trace ly [] ow"
| published: "live_trace ly hist ow \<Longrightarrow> eo_sender ow = Some j \<Longrightarrow> \<not> js_closed j \<Longrightarrow> 0 < js_receiver_count j \<Longrightarrow>
    js_next j < U64_MAX \<Longrightarrow> cursor_room 2 (eo_cursor ow) \<Longrightarrow> publish ly ev (ow, b) = Some (ow', b') \<Longrightarrow>
    eo_sender ow' = Some j' \<Longrightarrow> live_trace ly (hist @ [last (contents j')]) ow'"
| unheard: "live_trace ly hist ow \<Longrightarrow> eo_sender ow = Some j \<Longrightarrow> js_receiver_count j = 0 \<Longrightarrow>
    publish ly ev (ow, b) = Some (ow', b') \<Longrightarrow> live_trace ly hist ow'"
| subscribed: "live_trace ly hist ow \<Longrightarrow> eo_sender ow = Some j \<Longrightarrow> subscribe ly (j, b) = (r, j', b') \<Longrightarrow>
    live_trace ly hist (ow\<lparr>eo_sender := Some j'\<rparr>)"
| received: "live_trace ly hist ow \<Longrightarrow> eo_sender ow = Some j \<Longrightarrow> try_recv reader (j, b) = Some (r, j', b') \<Longrightarrow>
    live_trace ly hist (ow\<lparr>eo_sender := Some j'\<rparr>)"
| left: "live_trace ly hist ow \<Longrightarrow> eo_sender ow = Some j \<Longrightarrow> js_readers j ! reader \<noteq> None \<Longrightarrow>
    receiver_drop reader (j, b) = Some (j', b') \<Longrightarrow> live_trace ly hist (ow\<lparr>eo_sender := Some j'\<rparr>)"
| released: "live_trace ly hist ow \<Longrightarrow> eo_sender ow = Some j \<Longrightarrow> release_event l (j, b) = (j', b') \<Longrightarrow>
    live_trace ly hist (ow\<lparr>eo_sender := Some j'\<rparr>)"

lemma find_free_Some: "find_free rs = Some i \<Longrightarrow> i < length rs \<and> rs ! i = None"
  by (induction rs arbitrary: i rule: find_free.induct) auto

lemma count_free_filled:
  "i < length rs \<Longrightarrow> rs ! i = None \<Longrightarrow>
     length (filter (\<lambda>r. r \<noteq> None) (rs[i := Some p])) = Suc (length (filter (\<lambda>r. r \<noteq> None) rs))"
  "i < length rs \<Longrightarrow> rs ! i \<noteq> None \<Longrightarrow>
     Suc (length (filter (\<lambda>r. r \<noteq> None) (rs[i := None]))) = length (filter (\<lambda>r. r \<noteq> None) rs)"
  by (induction rs arbitrary: i) (auto split: nat.splits simp: nth_Cons')

lemma grow_readers_ok:
  assumes "journal_ok hist j" "grow_readers ly (j, b) = (grown, j', b')"
  shows "journal_ok hist j'" "grown \<Longrightarrow> length (js_readers j') < js_readers_capacity j'" "js_readers j' = js_readers j"
    "js_next j' = js_next j" "js_receiver_count j' = js_receiver_count j"
proof -
  have cap: "length (js_readers j) \<le> js_readers_capacity j" using assms(1) by (simp add: journal_ok_def)
  consider (room) "j' = j" "grown" "length (js_readers j) \<noteq> js_readers_capacity j" | (refused) "j' = j" "\<not> grown"
    | (grew) c actual memory b1 where "checked_mul (js_readers_capacity j) 2 = Some c"
        "funded_array (vec_reserve_exact ly) (sz_reader ly) b (max c 1) = (Some (actual, memory), b1)"
        "length (js_readers j) = js_readers_capacity j"
        "j' = j\<lparr>js_readers_capacity := actual, js_readers_memory := memory\<rparr>"
    using assms(2) unfolding grow_readers_def
    by (auto split: if_splits option.splits prod.splits simp del: checked_mul_None checked_mul_Some)
  then have "journal_ok hist j' \<and> (grown \<longrightarrow> length (js_readers j') < js_readers_capacity j') \<and> js_readers j' = js_readers j
    \<and> js_next j' = js_next j \<and> js_receiver_count j' = js_receiver_count j"
  proof cases
    case grew
    then have "c = js_readers_capacity j * 2" by simp
    moreover have "max c 1 \<le> actual" by (rule funded_array_Some [OF grew(2)])
    ultimately show ?thesis using assms(1) grew(3,4) by (auto simp: journal_ok_def contents_def)
  qed (use assms(1) cap in auto)
  then show "journal_ok hist j'" "grown \<Longrightarrow> length (js_readers j') < js_readers_capacity j'" "js_readers j' = js_readers j"
    "js_next j' = js_next j" "js_receiver_count j' = js_receiver_count j" by auto
qed

lemma journal_ok_readers:
  assumes "journal_ok hist j" "\<forall>r\<in>set rs. \<forall>p. r = Some p \<longrightarrow> p \<le> js_next j" "length rs \<le> cap"
    "n = length (filter (\<lambda>r. r \<noteq> None) rs)"
  shows "journal_ok hist (j\<lparr>js_readers := rs, js_readers_capacity := cap, js_receiver_count := n, js_readers_memory := m\<rparr>)"
  using assms by (auto simp: journal_ok_def contents_def list_all_iff split: option.split)

lemma readers_within: "journal_ok hist j \<Longrightarrow> r \<in> set (js_readers j) \<Longrightarrow> r = Some p \<Longrightarrow> p \<le> js_next j"
  using reader_positions_le [of hist j p] by (simp add: reader_positions_def)

lemma journal_update_id:
  "j\<lparr>js_readers := rs, js_receiver_count := n\<rparr>
     = j\<lparr>js_readers := rs, js_readers_capacity := js_readers_capacity j, js_receiver_count := n,
        js_readers_memory := js_readers_memory j\<rparr>"
  by simp

lemma subscribe_ok:
  assumes "journal_ok hist j" "subscribe ly (j, b) = (r, j', b')"
  shows "journal_ok hist j'"
proof (cases "js_closed j")
  case True
  then show ?thesis using assms by (simp add: subscribe_def)
next
  case False
  have cnt: "js_receiver_count j = length (filter (\<lambda>r. r \<noteq> None) (js_readers j))" "length (js_readers j) \<le> js_readers_capacity j"
    using assms(1) by (auto simp: journal_ok_def)
  show ?thesis
  proof (cases "find_free (js_readers j)")
    case (Some i)
    note ff = find_free_Some [OF Some]
    have j': "j' = j\<lparr>js_readers := (js_readers j)[i := Some (js_next j)], js_receiver_count := js_receiver_count j + 1\<rparr>"
      using assms(2) False Some by (simp add: subscribe_def)
    have rs: "\<forall>r\<in>set ((js_readers j)[i := Some (js_next j)]). \<forall>p. r = Some p \<longrightarrow> p \<le> js_next j"
      using readers_within [OF assms(1)] by (auto dest!: set_update_subset_insert [THEN subsetD])
    show ?thesis
      unfolding j' journal_update_id
      by (rule journal_ok_readers [OF assms(1) rs]) (use cnt count_free_filled(1) [of i "js_readers j"] ff in simp_all)
  next
    case None
    obtain grown j1 b1 where g: "grow_readers ly (j, b) = (grown, j1, b1)" using prod_cases3 by blast
    note gr = grow_readers_ok [OF assms(1) g]
    show ?thesis
    proof (cases grown)
      case False
      then show ?thesis using assms(2) \<open>\<not> js_closed j\<close> None g gr(1) by (simp add: subscribe_def)
    next
      case True
      then have j': "j' = j1\<lparr>js_readers := js_readers j1 @ [Some (js_next j1)], js_receiver_count := js_receiver_count j1 + 1\<rparr>"
        using assms(2) False None g by (simp add: subscribe_def)
      show ?thesis
        unfolding j' journal_update_id
        by (rule journal_ok_readers [OF gr(1)])
           (use readers_within [OF gr(1)] gr(2) [OF True] gr(3,5) cnt in auto)
    qed
  qed
qed

lemma receiver_drop_ok:
  assumes "journal_ok hist j" "js_readers j ! reader \<noteq> None" "receiver_drop reader (j, b) = Some (j', b')"
  shows "journal_ok hist j'"
proof -
  let ?j = "j\<lparr>js_readers := (js_readers j)[reader := None], js_receiver_count := js_receiver_count j - 1\<rparr>"
  have r: "reader < length (js_readers j)" "0 < js_receiver_count j"
    using assms(3) by (auto simp: receiver_drop_def split: if_splits)
  have "\<forall>r\<in>set ((js_readers j)[reader := None]). \<forall>p. r = Some p \<longrightarrow> p \<le> js_next j"
    using readers_within [OF assms(1)] by (auto dest!: set_update_subset_insert [THEN subsetD])
  then have "journal_ok hist ?j"
    unfolding journal_update_id
    using assms(1) count_free_filled(2) [OF r(1) assms(2)]
    by (intro journal_ok_readers [OF assms(1)]) (auto simp: journal_ok_def)
  then obtain j1 b1 where rc: "reclaim (?j, b) = Some (j1, b1)" "journal_ok hist j1" "same_frame ?j j1"
    by (rule reclaim_ok)
  have j': "j' = (if js_receiver_count j1 = 0
      then j1\<lparr>js_readers := [], js_readers_capacity := 0, js_readers_memory := []\<rparr> else j1)"
    using assms(3) r rc(1) by (simp add: receiver_drop_def split: if_splits)
  then show ?thesis using rc(2) by (auto simp: journal_ok_def contents_def)
qed

lemma release_event_ok:
  assumes "release_event l (j, b) = (j', b')"
  shows "journal_ok hist j' = journal_ok hist j"
proof -
  have "j' = fst (release_event l (j, b))" using assms by simp
  also have "\<dots> = j\<lparr>js_held := remove1 l (js_held j)\<rparr>" by (simp add: release_event_def)
  finally show ?thesis by (simp add: journal_ok_def contents_def cong: option.case_cong)
qed

lemma publish_unheard:
  assumes "eo_sender ow = Some j" "js_receiver_count j = 0" "publish ly ev (ow, b) = Some (ow', b')"
  shows "eo_sender ow' = Some j \<and> cursor_le (eo_cursor ow) (eo_cursor ow')"
proof -
  obtain c where c: "cursor_record ev (eo_cursor ow) = Some c"
    and s: "publish_send ev None (eo_cursor ow) (ow\<lparr>eo_cursor := c\<rparr>, b) = Some (ow', b')"
    using assms by (auto simp: publish_def publish_prepare_def bind_eq_Some_conv)
  let ?e = "\<lparr>le_published = unfunded ev, le_before = eo_cursor ow, le_after = c\<rparr>"
  obtain j1 b1 where d: "drop_envelope ?e (j, b) = (j1, b1)" by fastforce
  then have "j1 = j" by (metis drop_envelope_fst fst_conv)
  then have "ow' = ow\<lparr>eo_cursor := c, eo_sender := Some j\<rparr>"
    using s d assms(1,2) by (simp add: publish_send_def journal_send_def)
  then show ?thesis using cursor_record_le [OF c] by simp
qed

lemma note_retired_le: "note_retired c = Some c' \<Longrightarrow> cursor_le c c'"
  by (auto simp: note_retired_def cursor_le_def bind_eq_Some_conv dest!: causes_record_Some)

lemma chained_weaken: "chained c es m \<Longrightarrow> cursor_le m m' \<Longrightarrow> chained c es m'"
  by (induction es arbitrary: c) (auto intro: cursor_le_trans)

lemma journal_ok_last: "journal_ok (hist @ [e]) j \<Longrightarrow> js_base j \<le> length hist \<Longrightarrow> last (contents j) = e"
  by (simp add: journal_ok_def)

lemma live_trace_ok:
  assumes "live_trace ly hist ow"
  shows "\<exists>j c0. eo_sender ow = Some j \<and> journal_ok hist j \<and> chained c0 hist (eo_cursor ow)"
  using assms
proof (induction rule: live_trace.induct)
  case (opened b j b' ow)
  then have "journal_ok [] j" by (auto simp: sender_new_def journal_ok_def contents_def bind_eq_Some_conv)
  then show ?case using opened(2) by (auto intro: exI [of _ "eo_cursor ow"])
next
  case (published hist ow j ev b ow' b' j')
  then obtain c0 where ok: "journal_ok hist j" "chained c0 hist (eo_cursor ow)" by auto
  obtain ow2 b2 j2 e k where p: "publish ly ev (ow, b) = Some (ow2, b2)" "eo_sender ow2 = Some j2"
    "journal_ok (hist @ [e]) j2" "le_after e = eo_cursor ow2" "js_base j2 \<le> length hist"
    "envelope_for ev (eo_cursor ow) e"
    "if (\<exists>x\<in>set (take k (drop (max (js_base j) (reader_floor j)) hist)). is_output_or_gap x)
     then note_retired (eo_cursor ow) = Some (le_before e) else le_before e = eo_cursor ow"
    by (rule publish_ok [OF published(2) ok(1) published(3-6), of ly ev b])
  have same: "ow2 = ow'" "j2 = j'" using p(1,2) published(7,8) by auto
  have last: "last (contents j') = e" using journal_ok_last [OF p(3,5)] same by simp
  have "cursor_le (eo_cursor ow) (le_before e)"
    using p(7) note_retired_le by (auto split: if_splits)
  then have "chained c0 (hist @ [e]) (eo_cursor ow')"
    unfolding chained_append using ok(2) envelope_records [OF p(6)] p(4) same by auto
  then show ?case using p(2,3) same last by auto
next
  case (unheard hist ow j ev b ow' b')
  then obtain c0 where ok: "journal_ok hist j" "chained c0 hist (eo_cursor ow)" by auto
  have "eo_sender ow' = Some j" "cursor_le (eo_cursor ow) (eo_cursor ow')"
    using publish_unheard [OF unheard(2,3,4)] by auto
  then show ?case using ok chained_weaken by blast
next
  case (subscribed hist ow j b r j' b')
  then show ?case using subscribe_ok by fastforce
next
  case (received hist ow j reader b r j' b')
  then obtain c0 where ok: "journal_ok hist j" "chained c0 hist (eo_cursor ow)" by auto
  obtain pos where "reader < length (js_readers j)" "js_readers j ! reader = Some pos"
    using received(3) by (auto simp: try_recv_def split: if_splits option.splits)
  then have "journal_ok hist j'" using try_recv_spec [OF ok(1), of reader pos b] received(3) by auto
  then show ?case using ok(2) by auto
next
  case (left hist ow j reader b j' b')
  then show ?case using receiver_drop_ok by fastforce
next
  case (released hist ow j l b j' b')
  then show ?case using release_event_ok by fastforce
qed

text \<open>
  C22.  A receiver that fell behind can always tell.  Along the whole history the cursors in the
  envelopes only grow, and every publication keeps it so; hence when a receiver at position \<open>p\<close> with
  cursor \<open>c\<close> resumes at a later envelope \<open>q\<close>, any output lost in between lies below that
  envelope's output watermark, and any gap lost in between has advanced its discontinuity revision
  past the receiver's.
\<close>

theorem loss_is_visible:
  assumes "live_trace ly hist ow" "p \<le> i" "i < q" "q < length hist" "cursor_le c (le_before (hist ! p))"
  shows "(\<forall>chunk. le_event (hist ! i) = Some (EvOutput chunk) \<longrightarrow> end_byte chunk \<le> lc_output_bytes (le_before (hist ! q)))
    \<and> (\<forall>latest causes. le_event (hist ! i) = Some (EvGap latest causes) \<longrightarrow>
         lc_output_discontinuity_revision c < lc_output_discontinuity_revision (le_before (hist ! q)))
    \<and> (\<forall>t. le_event (hist ! i) = Some (EvTmux t) \<or> le_event (hist ! i) = Some EvObservationDiscontinuity \<longrightarrow>
         lc_observation_revision c < lc_observation_revision (le_before (hist ! q)))"
proof -
  obtain c0 where ch: "chained c0 hist (eo_cursor ow)" using live_trace_ok [OF assms(1)] by blast
  have r: "records (hist ! i)" and le: "cursor_le (le_after (hist ! i)) (le_before (hist ! q))"
    using chained_between [OF ch assms(3,4)] chained_from(2) [OF ch, of i] assms(3,4) by auto
  have "cursor_le (le_before (hist ! p)) (le_before (hist ! i))"
  proof (cases "p = i")
    case False
    then have "p < i" "i < length hist" using assms by auto
    then show ?thesis
      using chained_between [OF ch, of p i] chained_from(2) [OF ch, of p] records_le [of "hist ! p"]
        cursor_le_trans by (metis order_less_trans)
  qed simp
  then have cb: "cursor_le c (le_before (hist ! i))" using assms(5) cursor_le_trans by blast
  have "\<forall>chunk. le_event (hist ! i) = Some (EvOutput chunk) \<longrightarrow> end_byte chunk \<le> lc_output_bytes (le_before (hist ! q))"
  proof (intro allI impI)
    fix chunk
    assume "le_event (hist ! i) = Some (EvOutput chunk)"
    then have "end_byte chunk \<le> lc_output_bytes (le_after (hist ! i))" using r cursor_record_output by (simp add: records_def del: cursor_record.simps)
    then show "end_byte chunk \<le> lc_output_bytes (le_before (hist ! q))" using le by (simp add: cursor_le_def)
  qed
  moreover have "lc_output_discontinuity_revision c < lc_output_discontinuity_revision (le_before (hist ! q))"
    if "le_event (hist ! i) = Some (EvGap latest causes)" for latest causes
  proof -
    have "lc_output_discontinuity_revision (le_after (hist ! i)) = lc_output_discontinuity_revision (le_before (hist ! i)) + 1"
      using r that cursor_record_gap by (simp add: records_def del: cursor_record.simps)
    then show ?thesis using le cb by (simp add: cursor_le_def)
  qed
  moreover have "lc_observation_revision c < lc_observation_revision (le_before (hist ! q))"
    if "le_event (hist ! i) = Some (EvTmux t) \<or> le_event (hist ! i) = Some EvObservationDiscontinuity" for t
  proof -
    have "lc_observation_revision (le_after (hist ! i)) = lc_observation_revision (le_before (hist ! i)) + 1"
      using r that cursor_record_observation by (auto simp: records_def simp del: cursor_record.simps)
    then show ?thesis using le cb by (simp add: cursor_le_def)
  qed
  ultimately show ?thesis by blast
qed

lemma cursor_record_room: "cursor_record ev c = Some c' \<Longrightarrow> cursor_room (n + 1) c \<Longrightarrow> cursor_room n c'"
  by (cases ev) (auto simp: cursor_room_def bind_eq_Some_conv dest!: causes_record_Some)

lemma note_retired_room: "note_retired c = Some c' \<Longrightarrow> cursor_room (n + 1) c \<Longrightarrow> cursor_room n c'"
  by (auto simp: note_retired_def cursor_room_def bind_eq_Some_conv dest!: causes_record_Some)

lemma envelope_room: "envelope_for ev c e \<Longrightarrow> cursor_room (n + 1) (le_before e) \<Longrightarrow> cursor_room n (le_after e)"
  using cursor_record_room [where n = n] by (auto simp: envelope_for_def simp del: cursor_record.simps)

text \<open>One more publication on a trace that has a listening receiver.\<close>

lemma trace_publish:
  assumes "live_trace ly hist ow" "eo_sender ow = Some j" "\<not> js_closed j" "0 < js_receiver_count j" "js_next j < U64_MAX"
    "cursor_room (n + 2) (eo_cursor ow)"
  obtains e ow' j' where "live_trace ly (hist @ [e]) ow'" "eo_sender ow' = Some j'" "\<not> js_closed j'" "0 < js_receiver_count j'"
    "js_next j' = js_next j + 1" "cursor_room n (eo_cursor ow')"
proof -
  have ok: "journal_ok hist j" using live_trace_ok [OF assms(1)] assms(2) by auto
  have room: "cursor_room 2 (eo_cursor ow)" using assms(6) by (simp add: cursor_room_def)
  obtain ow' b' j' e k where p: "publish ly EvObservationDiscontinuity (ow, budget_new 0) = Some (ow', b')" "eo_sender ow' = Some j'"
    "journal_ok (hist @ [e]) j'" "le_after e = eo_cursor ow'" "envelope_for EvObservationDiscontinuity (eo_cursor ow) e"
    "\<not> js_closed j'" "js_receiver_count j' = js_receiver_count j" "js_base j' \<le> length hist"
    "if (\<exists>x\<in>set (take k (drop (max (js_base j) (reader_floor j)) hist)). is_output_or_gap x)
     then note_retired (eo_cursor ow) = Some (le_before e) else le_before e = eo_cursor ow"
    by (rule publish_ok [OF assms(2) ok assms(3-5) room])
  have "cursor_room (n + 1) (le_before e)"
    using p(9) assms(6) note_retired_room [of "eo_cursor ow" "le_before e" "n + 1"]
    by (auto simp: cursor_room_def split: if_splits)
  then have "cursor_room n (eo_cursor ow')" using envelope_room [OF p(5)] p(4) by simp
  moreover have "live_trace ly (hist @ [last (contents j')]) ow'"
    by (rule live_trace.published [OF assms(1-5) room p(1,2)])
  moreover have "js_next j' = js_next j + 1" using p(3) ok by (simp add: journal_ok_def)
  ultimately show ?thesis
    using that [of e ow' j'] journal_ok_last [OF p(3,8)] p(2,6,7) assms(4) by simp
qed

lemma sample_trace: "\<exists>hist ow. live_trace sample_layout hist ow \<and> length hist = 2"
proof -
  let ?j = "sample_journal\<lparr>js_readers := [], js_readers_capacity := 0, js_readers_memory := [], js_receiver_count := 0\<rparr>"
  let ?ow = "sample_owner\<lparr>eo_sender := Some ?j\<rparr>"
  have new: "sender_new sample_layout (budget_new 1000) = Some (?j, \<lparr>bb_limit = 1000, bb_used = 216\<rparr>)"
    by (simp add: sender_new_def sample_layout_def sample_journal_def reserve_def budget_new_def checked_add_def max_values)
  have sub: "subscribe sample_layout (?j, budget_new 1000) = (Some 0, sample_journal, \<lparr>bb_limit = 1000, bb_used = 16\<rparr>)"
    by (simp add: subscribe_def grow_readers_def funded_array_def fund_extra_def sample_layout_def sample_journal_def reserve_def
        budget_new_def drop_permits_def checked_add_def checked_mul_def checked_sub_def max_values)
  have "live_trace sample_layout [] ?ow" by (rule live_trace.opened [OF new]) simp
  then have t0: "live_trace sample_layout [] (?ow\<lparr>eo_sender := Some sample_journal\<rparr>)"
    by (rule live_trace.subscribed [OF _ _ sub]) simp
  have room: "cursor_room (2 + 2) (eo_cursor (?ow\<lparr>eo_sender := Some sample_journal\<rparr>))"
    by (simp add: sample_owner_def cursor_room_def CURSOR_ZERO_def max_values)
  obtain e1 ow1 j1 where t1: "live_trace sample_layout ([] @ [e1]) ow1" "eo_sender ow1 = Some j1" "\<not> js_closed j1"
    "0 < js_receiver_count j1" "js_next j1 = js_next sample_journal + 1" "cursor_room 2 (eo_cursor ow1)"
    by (rule trace_publish [OF t0 _ sample_owner_ok(2-4) room]) simp
  have n1: "js_next j1 < U64_MAX" using t1(5) by (simp add: sample_journal_def max_values)
  have room1: "cursor_room (0 + 2) (eo_cursor ow1)" using t1(6) by (simp add: numeral_2_eq_2)
  obtain e2 ow2 j2 where "live_trace sample_layout (([] @ [e1]) @ [e2]) ow2"
    by (rule trace_publish [OF t1(1-4) n1 room1])
  then show ?thesis by fastforce
qed

theorem loss_is_visible_witness:
  "\<exists>hist ow. live_trace sample_layout hist ow \<and> length hist = 2
     \<and> (\<forall>latest causes. le_event (hist ! 0) = Some (EvGap latest causes) \<longrightarrow>
          lc_output_discontinuity_revision (le_before (hist ! 0)) < lc_output_discontinuity_revision (le_before (hist ! 1)))"
proof -
  obtain hist ow where t: "live_trace sample_layout hist ow" "length hist = 2" using sample_trace by blast
  then show ?thesis
    using loss_is_visible [OF t(1), of 0 0 1 "le_before (hist ! 0)"] by auto
qed

end
