(* ===== verification/Upgrade_Gate.thy ===== *)
theory Upgrade_Gate
  imports Prelude
begin

text \<open>
  The gate that drains request work before an exec-in-place upgrade (\<^verbatim>\<open>UpgradeRequestGate\<close>,
  \<^verbatim>\<open>UpgradeRequestPermit\<close>, \<^verbatim>\<open>UpgradeRequestFence\<close>) and the first-failure latch of an incarnation
  (\<^verbatim>\<open>IncarnationFailure\<close>), all in \<^verbatim>\<open>crates/ctxmux-daemon/src/lib.rs\<close>.

  Every critical section under the gate's mutex is one operation.  \<^verbatim>\<open>begin_drain\<close> releases the
  mutex while it waits, so it is two operations: the entry, and one turn of its loop, given whether
  the deadline has passed.  The step relation interleaves them with admissions, permit drops and
  fence drops in any order.
\<close>

section \<open>Operations\<close>

datatype upgrade_phase = PhaseOpen | PhaseDraining | PhaseSealed

record upgrade_gate =
  ug_phase :: upgrade_phase
  ug_active :: usize

definition gate_default :: upgrade_gate where
  "gate_default = \<lparr>ug_phase = PhaseOpen, ug_active = 0\<rparr>"

datatype admission = Execute | Retry | RefusedSealed

definition admit :: "upgrade_gate \<Rightarrow> admission \<times> upgrade_gate" where
  "admit g =
     (case ug_phase g of
        PhaseSealed \<Rightarrow> (RefusedSealed, g)
      | _ \<Rightarrow> (let g = g\<lparr>ug_active := ug_active g + 1\<rparr> in
              (if ug_phase g = PhaseOpen then Execute else Retry, g)))"

definition drain_enter :: "upgrade_gate \<Rightarrow> string + upgrade_gate" where
  "drain_enter g =
     (if ug_phase g \<noteq> PhaseOpen
      then Inl ''another exec-in-place upgrade is already draining requests''
      else Inr (g\<lparr>ug_phase := PhaseDraining\<rparr>))"

datatype drain_turn = Fenced | TimedOut usize | Waiting

definition drain_poll :: "bool \<Rightarrow> upgrade_gate \<Rightarrow> drain_turn \<times> upgrade_gate" where
  "drain_poll past_deadline g =
     (if ug_active g \<noteq> 0
      then if past_deadline then (TimedOut (ug_active g), g\<lparr>ug_phase := PhaseOpen\<rparr>) else (Waiting, g)
      else (Fenced, g\<lparr>ug_phase := PhaseSealed\<rparr>))"

text \<open>\<open>None\<close> is the panic on an unbalanced permit.\<close>

definition permit_release :: "upgrade_gate \<Rightarrow> upgrade_gate option" where
  "permit_release g = map_option (\<lambda>n. g\<lparr>ug_active := n\<rparr>) (checked_sub (ug_active g) 1)"

definition fence_drop :: "bool \<Rightarrow> upgrade_gate \<Rightarrow> upgrade_gate" where
  "fence_drop committed g = (if committed then g else g\<lparr>ug_phase := PhaseOpen\<rparr>)"

text \<open>The first-failure latch.\<close>

definition failure_record :: "string \<Rightarrow> string option \<Rightarrow> string option" where
  "failure_record message current = (case current of None \<Rightarrow> Some message | Some m \<Rightarrow> Some m)"

section \<open>Interleavings\<close>

text \<open>The gate with what its users hold: how many permits of each kind are out, whether a drain is
  in its loop, and the fence with its commit flag.\<close>

record gate_system =
  gs_gate :: upgrade_gate
  gs_executing :: nat
  gs_retrying :: nat
  gs_draining :: bool
  gs_fence :: "bool option"

definition gate_start :: gate_system where
  "gate_start = \<lparr>gs_gate = gate_default, gs_executing = 0, gs_retrying = 0, gs_draining = False, gs_fence = None\<rparr>"

inductive gate_step :: "gate_system \<Rightarrow> gate_system \<Rightarrow> bool" where
  execute: "admit (gs_gate s) = (Execute, g) \<Longrightarrow> gate_step s (s\<lparr>gs_gate := g, gs_executing := gs_executing s + 1\<rparr>)"
| retry: "admit (gs_gate s) = (Retry, g) \<Longrightarrow> gate_step s (s\<lparr>gs_gate := g, gs_retrying := gs_retrying s + 1\<rparr>)"
| refuse: "admit (gs_gate s) = (RefusedSealed, g) \<Longrightarrow> gate_step s (s\<lparr>gs_gate := g\<rparr>)"
| executed: "0 < gs_executing s \<Longrightarrow> permit_release (gs_gate s) = Some g \<Longrightarrow>
    gate_step s (s\<lparr>gs_gate := g, gs_executing := gs_executing s - 1\<rparr>)"
| retried: "0 < gs_retrying s \<Longrightarrow> permit_release (gs_gate s) = Some g \<Longrightarrow>
    gate_step s (s\<lparr>gs_gate := g, gs_retrying := gs_retrying s - 1\<rparr>)"
| enter: "drain_enter (gs_gate s) = Inr g \<Longrightarrow> gate_step s (s\<lparr>gs_gate := g, gs_draining := True\<rparr>)"
| wait: "gs_draining s \<Longrightarrow> drain_poll past (gs_gate s) = (Waiting, g) \<Longrightarrow> gate_step s (s\<lparr>gs_gate := g\<rparr>)"
| timeout: "gs_draining s \<Longrightarrow> drain_poll past (gs_gate s) = (TimedOut n, g) \<Longrightarrow>
    gate_step s (s\<lparr>gs_gate := g, gs_draining := False\<rparr>)"
| fence: "gs_draining s \<Longrightarrow> drain_poll past (gs_gate s) = (Fenced, g) \<Longrightarrow>
    gate_step s (s\<lparr>gs_gate := g, gs_draining := False, gs_fence := Some False\<rparr>)"
| commit: "gs_fence s = Some False \<Longrightarrow> gate_step s (s\<lparr>gs_fence := Some True\<rparr>)"
| unfence: "gs_fence s = Some False \<Longrightarrow> gate_step s (s\<lparr>gs_gate := fence_drop False (gs_gate s), gs_fence := None\<rparr>)"

inductive gate_reachable :: "gate_system \<Rightarrow> bool" where
  start: "gate_reachable gate_start"
| step: "gate_reachable s \<Longrightarrow> gate_step s t \<Longrightarrow> gate_reachable t"

inductive_cases gate_stepE: "gate_step s t"

definition gate_inv :: "gate_system \<Rightarrow> bool" where
  "gate_inv s \<longleftrightarrow> ug_active (gs_gate s) = gs_executing s + gs_retrying s
     \<and> (ug_phase (gs_gate s) = PhaseDraining \<longleftrightarrow> gs_draining s)
     \<and> (ug_phase (gs_gate s) = PhaseSealed \<longleftrightarrow> gs_fence s \<noteq> None)
     \<and> (gs_fence s \<noteq> None \<longrightarrow> ug_active (gs_gate s) = 0)"

lemma admit_cases:
  assumes "admit g = (a, g')"
  obtains "a = Execute" "ug_phase g = PhaseOpen" "g' = g\<lparr>ug_active := ug_active g + 1\<rparr>"
  | "a = Retry" "ug_phase g = PhaseDraining" "g' = g\<lparr>ug_active := ug_active g + 1\<rparr>"
  | "a = RefusedSealed" "ug_phase g = PhaseSealed" "g' = g"
  using assms by (cases "ug_phase g") (auto simp: admit_def)

lemma gate_step_inv: "gate_step s t \<Longrightarrow> gate_inv s \<Longrightarrow> gate_inv t"
proof (induction rule: gate_step.induct)
  case (execute s g)
  then show ?case by (auto simp: gate_inv_def elim!: admit_cases)
next
  case (retry s g)
  then show ?case by (auto simp: gate_inv_def elim!: admit_cases)
next
  case (refuse s g)
  then show ?case by (auto simp: gate_inv_def elim!: admit_cases)
next
  case (executed s g)
  then show ?case by (auto simp: gate_inv_def permit_release_def checked_sub_def split: if_splits)
next
  case (retried s g)
  then show ?case by (auto simp: gate_inv_def permit_release_def checked_sub_def split: if_splits)
next
  case (enter s g)
  then show ?case by (auto simp: gate_inv_def drain_enter_def split: if_splits)
next
  case (wait s past g)
  then show ?case by (auto simp: gate_inv_def drain_poll_def split: if_splits)
next
  case (timeout s past n g)
  then show ?case by (auto simp: gate_inv_def drain_poll_def split: if_splits)
next
  case (fence s past g)
  then show ?case by (auto simp: gate_inv_def drain_poll_def split: if_splits)
next
  case (commit s)
  then show ?case by (auto simp: gate_inv_def)
next
  case (unfence s)
  then show ?case by (auto simp: gate_inv_def fence_drop_def)
qed

lemma gate_reachable_inv: "gate_reachable s \<Longrightarrow> gate_inv s"
proof (induction rule: gate_reachable.induct)
  case start
  then show ?case by (simp add: gate_inv_def gate_start_def gate_default_def)
next
  case (step s t)
  then show ?case using gate_step_inv by blast
qed

text \<open>An idle gate can be fenced.\<close>

definition fenced_system :: "bool \<Rightarrow> gate_system" where
  "fenced_system committed = \<lparr>gs_gate = \<lparr>ug_phase = PhaseSealed, ug_active = 0\<rparr>, gs_executing = 0, gs_retrying = 0,
     gs_draining = False, gs_fence = Some committed\<rparr>"

lemma fenced_reachable: "gate_reachable (fenced_system committed)"
proof -
  let ?s1 = "gate_start\<lparr>gs_gate := \<lparr>ug_phase = PhaseDraining, ug_active = 0\<rparr>, gs_draining := True\<rparr>"
  have "gate_step gate_start ?s1"
    by (rule gate_step.enter) (simp add: drain_enter_def gate_start_def gate_default_def)
  then have r1: "gate_reachable ?s1" by (rule gate_reachable.step [OF gate_reachable.start])
  have "gate_step ?s1 (?s1\<lparr>gs_gate := \<lparr>ug_phase = PhaseSealed, ug_active = 0\<rparr>, gs_draining := False, gs_fence := Some False\<rparr>)"
    by (rule gate_step.fence [where past = False]) (simp_all add: drain_poll_def gate_start_def)
  then have "gate_step ?s1 (fenced_system False)" by (simp add: fenced_system_def gate_start_def)
  then have r2: "gate_reachable (fenced_system False)" by (rule gate_reachable.step [OF r1])
  have "gate_step (fenced_system False) ((fenced_system False)\<lparr>gs_fence := Some True\<rparr>)"
    by (rule gate_step.commit) (simp add: fenced_system_def)
  then have "gate_reachable ((fenced_system False)\<lparr>gs_fence := Some True\<rparr>)" by (rule gate_reachable.step [OF r2])
  then show ?thesis using r2 by (cases committed) (simp_all add: fenced_system_def)
qed

text \<open>
  C23.  While the upgrade fence is up no request is in flight: in every interleaving the gate counts
  exactly the permits out, releasing one never panics, and a fence (committed or not) is only ever
  held with no permit out and with the gate sealed, so that every further request is refused.
\<close>

theorem fence_excludes_requests:
  assumes "gate_reachable s"
  shows "ug_active (gs_gate s) = gs_executing s + gs_retrying s
    \<and> (0 < gs_executing s + gs_retrying s \<longrightarrow> permit_release (gs_gate s) \<noteq> None)
    \<and> (gs_fence s \<noteq> None \<longrightarrow> gs_executing s = 0 \<and> gs_retrying s = 0 \<and> admit (gs_gate s) = (RefusedSealed, gs_gate s))"
  using gate_reachable_inv [OF assms]
  by (auto simp: gate_inv_def permit_release_def checked_sub_def admit_def)

theorem fence_excludes_requests_witness:
  "admit (gs_gate (fenced_system False)) = (RefusedSealed, gs_gate (fenced_system False))"
  using fence_excludes_requests [OF fenced_reachable, of False] by (simp add: fenced_system_def)

lemma committed_step: "gate_step s t \<Longrightarrow> gate_inv s \<Longrightarrow> gs_fence s = Some True \<Longrightarrow> gs_fence t = Some True"
  by (erule gate_stepE)
     (auto simp: gate_inv_def drain_enter_def split: if_splits)

text \<open>
  A committed fence is final: once the upgrade commits, no later step of any request, drain or
  fence owner reopens the gate or admits work.
\<close>

theorem committed_gate_stays_sealed:
  assumes "gate_reachable s" "gs_fence s = Some True" "gate_step\<^sup>*\<^sup>* s t"
  shows "ug_phase (gs_gate t) = PhaseSealed \<and> gs_executing t = 0 \<and> gs_retrying t = 0"
proof -
  have "gs_fence t = Some True \<and> gate_inv t"
    using assms(3)
  proof (induction rule: rtranclp_induct)
    case base
    then show ?case using assms(1,2) gate_reachable_inv by simp
  next
    case (step y z)
    then show ?case using committed_step gate_step_inv by blast
  qed
  then show ?thesis by (auto simp: gate_inv_def)
qed

theorem committed_gate_stays_sealed_example:
  "ug_phase (gs_gate (fenced_system True)) = PhaseSealed"
  using committed_gate_stays_sealed [OF fenced_reachable _ rtranclp.rtrancl_refl, of True]
  by (simp add: fenced_system_def)

end
