(* ===== verification/Tmux_Control.thy ===== *)
theory Tmux_Control
  imports Prelude
begin

text \<open>
  The tmux control client of a tmux-backed Run (\<^verbatim>\<open>crates/ctxmux-daemon/src/lib.rs\<close>): correlation of
  command results with the adapter's own pending commands (\<^verbatim>\<open>TmuxCommandTracker\<close>,
  \<^verbatim>\<open>TmuxCommandWriter\<close>) and the one-shot cleanup receipt (\<^verbatim>\<open>TmuxCompletion\<close>, \<^verbatim>\<open>TmuxRunControl\<close>).

  Writing to the client's standard input is given by its outcome: whether \<^verbatim>\<open>write_all\<close> and
  \<^verbatim>\<open>flush\<close> succeeded.  The receiving half of the completion channel is the message waiting in it,
  if any, and whether the sender is gone.
\<close>

section \<open>Command correlation\<close>

datatype tmux_command_kind = TargetProbe | ContinuePane

datatype tmux_command_result_kind = Bootstrap | PendingResult tmux_command_kind

record tmux_command_tracker =
  session_established :: bool
  bootstrap_result_seen :: bool
  last_result_number :: "u64 option"
  pending :: "tmux_command_kind list"

definition tracker_default :: tmux_command_tracker where
  "tracker_default = \<lparr>session_established = False, bootstrap_result_seen = False, last_result_number = None, pending = []\<rparr>"

definition MAX_PENDING :: nat where "MAX_PENDING = 2"

definition observe_session :: "tmux_command_tracker \<Rightarrow> bool \<times> tmux_command_tracker" where
  "observe_session t = (if session_established t then (False, t) else (True, t\<lparr>session_established := True\<rparr>))"

definition prepare_enqueue :: "tmux_command_kind \<Rightarrow> tmux_command_tracker \<Rightarrow> string + bool" where
  "prepare_enqueue kind t =
     (if \<not> session_established t then Inl ''tmux adapter command arrived before session establishment''
      else if kind \<in> set (pending t) then Inr False
      else if length (pending t) \<ge> MAX_PENDING then Inl ''tmux adapter command queue exceeded its bound''
      else Inr True)"

definition commit_enqueue :: "tmux_command_kind \<Rightarrow> tmux_command_tracker \<Rightarrow> tmux_command_tracker" where
  "commit_enqueue kind t = t\<lparr>pending := pending t @ [kind]\<rparr>"

definition correlate_result ::
  "u64 \<Rightarrow> tmux_command_tracker \<Rightarrow> (string + tmux_command_result_kind) \<times> tmux_command_tracker" where
  "correlate_result number t =
     (if (case last_result_number t of None \<Rightarrow> False | Some prev \<Rightarrow> number \<le> prev)
      then (Inl ''tmux command result number did not advance'', t)
      else (let t = t\<lparr>last_result_number := Some number\<rparr> in
            case pending t of
              kind # rest \<Rightarrow> (Inr (PendingResult kind), t\<lparr>pending := rest\<rparr>)
            | [] \<Rightarrow>
                if \<not> session_established t \<and> \<not> bootstrap_result_seen t
                then (Inr Bootstrap, t\<lparr>bootstrap_result_seen := True\<rparr>)
                else (Inl ''tmux returned a command result without a pending adapter command'', t)))"

text \<open>\<open>sent\<close> is the outcome of writing and flushing the command.  The second component of the result
  says whether the command went out.\<close>

definition write_command ::
  "bool \<Rightarrow> tmux_command_kind \<Rightarrow> tmux_command_tracker \<Rightarrow> (string + bool) \<times> tmux_command_tracker" where
  "write_command sent kind t =
     (case prepare_enqueue kind t of
        Inl message \<Rightarrow> (Inl message, t)
      | Inr False \<Rightarrow> (Inr False, t)
      | Inr True \<Rightarrow> if sent then (Inr True, commit_enqueue kind t) else (Inl ''write failed'', t))"

definition establish_session_and_write ::
  "bool \<Rightarrow> tmux_command_kind \<Rightarrow> tmux_command_tracker \<Rightarrow> (string + bool) \<times> tmux_command_tracker" where
  "establish_session_and_write sent kind t =
     (case observe_session t of
        (False, t) \<Rightarrow> (Inr False, t)
      | (True, t) \<Rightarrow> write_command sent kind t)"

definition write_periodic_probe :: "bool \<Rightarrow> tmux_command_tracker \<Rightarrow> (string + bool) \<times> tmux_command_tracker" where
  "write_periodic_probe sent t =
     (if \<not> session_established t then (Inr False, t) else write_command sent TargetProbe t)"

section \<open>The completion receipt\<close>

type_synonym cleanup_result = "string + unit"

record completion_channel =
  cc_message :: "cleanup_result option"
  cc_sender_gone :: bool

datatype tmux_completion = CompletionPending completion_channel | CompletionDone cleanup_result

definition lost_receipt :: cleanup_result where
  "lost_receipt = Inl ''tmux control waiter ended without a completion receipt''"

definition completion_observe :: "tmux_completion \<Rightarrow> cleanup_result option \<times> tmux_completion" where
  "completion_observe c =
     (case c of
        CompletionDone result \<Rightarrow> (Some result, c)
      | CompletionPending ch \<Rightarrow>
          (case cc_message ch of
             Some result \<Rightarrow> (Some result, CompletionDone result)
           | None \<Rightarrow> if cc_sender_gone ch then (Some lost_receipt, CompletionDone lost_receipt) else (None, c)))"

text \<open>\<open>arrival\<close> is the channel as it stands when the bounded wait ends; an empty channel whose sender
  still lives is the timeout.\<close>

definition completion_wait :: "completion_channel \<Rightarrow> tmux_completion \<Rightarrow> cleanup_result \<times> tmux_completion" where
  "completion_wait arrival c =
     (case c of
        CompletionDone result \<Rightarrow> (result, c)
      | CompletionPending _ \<Rightarrow>
          (case cc_message arrival of
             Some result \<Rightarrow> (result, CompletionDone result)
           | None \<Rightarrow> if cc_sender_gone arrival then (lost_receipt, CompletionDone lost_receipt)
                     else (Inl ''timed out waiting for tmux control cleanup'', CompletionPending arrival)))"

record tmux_run_control =
  tr_writer :: "tmux_command_tracker option"
  tr_completion :: tmux_completion

definition control_correlate_result ::
  "u64 \<Rightarrow> tmux_run_control \<Rightarrow> (string + tmux_command_result_kind) \<times> tmux_run_control" where
  "control_correlate_result number c =
     (case tr_writer c of
        None \<Rightarrow> (Inl ''tmux control client is closed'', c)
      | Some t \<Rightarrow> (let (r, t) = correlate_result number t in (r, c\<lparr>tr_writer := Some t\<rparr>)))"

definition close_writer :: "tmux_run_control \<Rightarrow> bool \<times> tmux_run_control" where
  "close_writer c = (tr_writer c \<noteq> None, c\<lparr>tr_writer := None\<rparr>)"

definition closed_quiescence_result :: "tmux_run_control \<Rightarrow> cleanup_result \<times> tmux_run_control" where
  "closed_quiescence_result c =
     (if tr_writer c \<noteq> None then (Inl ''tmux control writer is still open'', c)
      else (case completion_observe (tr_completion c) of
              (Some result, done_c) \<Rightarrow> (result, c\<lparr>tr_completion := done_c\<rparr>)
            | (None, done_c) \<Rightarrow> (Inl ''tmux control cleanup is still pending'', c\<lparr>tr_completion := done_c\<rparr>)))"

section \<open>Correlation is first-in first-out\<close>

datatype tracker_op =
    OpEstablish bool tmux_command_kind
  | OpWrite bool tmux_command_kind
  | OpProbe bool
  | OpResult u64

text \<open>What a run of operations put on the wire, and which of the sent commands were answered.\<close>

record tracker_log =
  tl_sent :: "tmux_command_kind list"
  tl_answered :: "tmux_command_kind list"
  tl_bootstraps :: nat
  tl_numbers :: "u64 list"

definition log_write :: "tmux_command_kind \<Rightarrow> (string + bool) \<times> tmux_command_tracker \<Rightarrow> tracker_log
    \<Rightarrow> tmux_command_tracker \<times> tracker_log" where
  "log_write kind r lg =
     (snd r, if fst r = Inr True then lg\<lparr>tl_sent := tl_sent lg @ [kind]\<rparr> else lg)"

fun tracker_step :: "tracker_op \<Rightarrow> tmux_command_tracker \<times> tracker_log \<Rightarrow> tmux_command_tracker \<times> tracker_log" where
  "tracker_step (OpEstablish sent kind) (t, lg) = log_write kind (establish_session_and_write sent kind t) lg"
| "tracker_step (OpWrite sent kind) (t, lg) = log_write kind (write_command sent kind t) lg"
| "tracker_step (OpProbe sent) (t, lg) = log_write TargetProbe (write_periodic_probe sent t) lg"
| "tracker_step (OpResult number) (t, lg) =
     (case correlate_result number t of
        (Inl _, t) \<Rightarrow> (t, lg)
      | (Inr Bootstrap, t) \<Rightarrow> (t, lg\<lparr>tl_bootstraps := tl_bootstraps lg + 1, tl_numbers := tl_numbers lg @ [number]\<rparr>)
      | (Inr (PendingResult kind), t) \<Rightarrow>
          (t, lg\<lparr>tl_answered := tl_answered lg @ [kind], tl_numbers := tl_numbers lg @ [number]\<rparr>))"

definition tracker_run :: "tracker_op list \<Rightarrow> tmux_command_tracker \<times> tracker_log" where
  "tracker_run ops = foldl (\<lambda>s op. tracker_step op s)
     (tracker_default, \<lparr>tl_sent = [], tl_answered = [], tl_bootstraps = 0, tl_numbers = []\<rparr>) ops"

definition tracker_inv :: "tmux_command_tracker \<times> tracker_log \<Rightarrow> bool" where
  "tracker_inv s \<longleftrightarrow> (case s of (t, lg) \<Rightarrow>
     tl_sent lg = tl_answered lg @ pending t \<and> distinct (pending t) \<and> length (pending t) \<le> MAX_PENDING
     \<and> (\<not> session_established t \<longrightarrow> pending t = [])
     \<and> tl_bootstraps lg = (if bootstrap_result_seen t then 1 else 0)
     \<and> sorted_wrt (<) (tl_numbers lg)
     \<and> (\<forall>n\<in>set (tl_numbers lg). \<exists>m. last_result_number t = Some m \<and> n \<le> m))"

lemma write_command_inv:
  assumes "tracker_inv (t, lg)" "write_command sent kind t = (r, t')"
  shows "tracker_inv (log_write kind (r, t') lg)"
  using assms
  by (auto simp: write_command_def prepare_enqueue_def commit_enqueue_def tracker_inv_def log_write_def MAX_PENDING_def
      split: if_splits)

lemma observe_session_inv: "tracker_inv (t, lg) \<Longrightarrow> tracker_inv (t\<lparr>session_established := True\<rparr>, lg)"
  by (simp add: tracker_inv_def)

lemma log_write_idle: "fst r \<noteq> Inr True \<Longrightarrow> log_write kind r lg = (snd r, lg)"
  by (simp add: log_write_def)

lemma correlate_result_inv:
  assumes "tracker_inv (t, lg)"
  shows "tracker_inv (tracker_step (OpResult number) (t, lg))"
proof (cases "case last_result_number t of None \<Rightarrow> False | Some prev \<Rightarrow> number \<le> prev")
  case True
  then show ?thesis using assms by (simp add: correlate_result_def)
next
  case False
  have above: "n < number" if "n \<in> set (tl_numbers lg)" for n
    using that False assms by (fastforce simp: tracker_inv_def split: option.splits)
  then have bound: "\<forall>n\<in>set (tl_numbers lg). n \<le> number" "\<forall>n\<in>set (tl_numbers lg). n < number"
    by (auto intro: less_imp_le)
  show ?thesis
  proof (cases "pending t")
    case (Cons kind rest)
    then show ?thesis
      using assms False bound
      by (simp add: correlate_result_def tracker_inv_def Let_def sorted_wrt_append less_imp_le)
  next
    case Nil
    then show ?thesis
      using assms False bound
      by (simp add: correlate_result_def tracker_inv_def Let_def sorted_wrt_append less_imp_le)
  qed
qed

lemma tracker_step_inv:
  assumes "tracker_inv s"
  shows "tracker_inv (tracker_step op s)"
proof -
  obtain t lg where s: "s = (t, lg)" by fastforce
  show ?thesis
  proof (cases op)
    case (OpEstablish sent kind)
    show ?thesis
    proof (cases "session_established t")
      case True
      then show ?thesis using assms s OpEstablish
        by (simp add: establish_session_and_write_def observe_session_def log_write_def)
    next
      case False
      obtain r t' where "write_command sent kind (t\<lparr>session_established := True\<rparr>) = (r, t')" by fastforce
      then show ?thesis
        using write_command_inv [OF observe_session_inv [OF assms [unfolded s]]] False s OpEstablish
        by (simp add: establish_session_and_write_def observe_session_def)
    qed
  next
    case (OpWrite sent kind)
    obtain r t' where "write_command sent kind t = (r, t')" by fastforce
    then show ?thesis using write_command_inv [OF assms [unfolded s]] s OpWrite by simp
  next
    case (OpProbe sent)
    obtain r t' where "write_command sent TargetProbe t = (r, t')" by fastforce
    then have "tracker_inv (log_write TargetProbe (write_command sent TargetProbe t) lg)"
      using write_command_inv [OF assms [unfolded s], of sent TargetProbe] by simp
    then show ?thesis
      using assms s OpProbe by (cases "session_established t") (simp_all add: write_periodic_probe_def log_write_idle)
  next
    case (OpResult number)
    then show ?thesis using correlate_result_inv assms s by simp
  qed
qed

lemma tracker_run_inv: "tracker_inv (tracker_run ops)"
proof -
  have "tracker_inv s \<Longrightarrow> tracker_inv (foldl (\<lambda>s op. tracker_step op s) s ops)" for s
    by (induction ops arbitrary: s) (auto simp: tracker_step_inv)
  then show ?thesis
    unfolding tracker_run_def by (simp add: tracker_inv_def tracker_default_def MAX_PENDING_def)
qed

text \<open>
  C25.  Command results are attributed first-in first-out and exactly once.  Whatever mixture of
  writes (failed or not), probes and result blocks a control client sees, the commands answered are
  a prefix of the commands sent, at most one of each kind is outstanding and never more than the
  bound, at most one result is taken for the bootstrap, and accepted result numbers strictly
  increase.
\<close>

theorem tmux_results_fifo:
  "case tracker_run ops of (t, lg) \<Rightarrow>
     tl_sent lg = tl_answered lg @ pending t \<and> distinct (pending t) \<and> length (pending t) \<le> MAX_PENDING
     \<and> tl_bootstraps lg \<le> 1 \<and> sorted_wrt (<) (tl_numbers lg)"
  using tracker_run_inv [of ops] by (simp add: tracker_inv_def split: prod.splits)

text \<open>
  The cleanup receipt is one-shot and final: once a tmux control reports its completion
  outcome, every later observation, wait or quiescence check reports the same outcome, and
  quiescence is never reported while the writer is open or the outcome is a failure.
\<close>

theorem completion_receipt_stable:
  assumes "completion_observe c = (Some result, c')"
  shows "completion_observe c' = (Some result, c') \<and> completion_wait arrival c' = (result, c')
    \<and> (\<forall>w. fst (closed_quiescence_result \<lparr>tr_writer = w, tr_completion = c\<rparr>) = Inr () \<longleftrightarrow> w = None \<and> result = Inr ())"
proof -
  have c': "c' = CompletionDone result"
    using assms by (auto simp: completion_observe_def split: tmux_completion.splits option.splits if_splits)
  then show ?thesis
    using assms by (auto simp: completion_observe_def completion_wait_def closed_quiescence_result_def)
qed

theorem completion_receipt_stable_example:
  "completion_wait \<lparr>cc_message = None, cc_sender_gone = False\<rparr> (CompletionDone (Inr ())) = (Inr (), CompletionDone (Inr ()))"
  using completion_receipt_stable
    [of "CompletionPending \<lparr>cc_message = Some (Inr ()), cc_sender_gone = True\<rparr>" "Inr ()" "CompletionDone (Inr ())"]
  by (simp add: completion_observe_def)

end
