(* ===== verification/Tmux_Parser.thy ===== *)
theory Tmux_Parser
  imports Tmux_Control Protocol_Types
begin

text \<open>
  The byte-level half of the tmux adapter (\<^verbatim>\<open>crates/ctxmux-daemon/src/tmux.rs\<close>): the bounded line reader over a buffered stream,
  the Control Mode parser with its command blocks, octal escapes and identifiers, the versions and pane lines of discovery,
  and the target probe.

  Strings that come from tmux are byte lists.  A buffered reader is the list of slices \<^verbatim>\<open>fill_buf\<close> is going to return, each
  possibly an error; an empty slice is the end of the stream.
\<close>

section \<open>Byte strings\<close>

definition ascii :: "string \<Rightarrow> byte list" where
  "ascii s = map of_char s"

definition strip_prefix :: "byte list \<Rightarrow> byte list \<Rightarrow> byte list option" where
  "strip_prefix p xs = (if take (length p) xs = p then Some (drop (length p) xs) else None)"

definition starts_with :: "byte list \<Rightarrow> byte list \<Rightarrow> bool" where
  "starts_with p xs \<longleftrightarrow> take (length p) xs = p"

fun position :: "byte \<Rightarrow> byte list \<Rightarrow> nat option" where
  "position b [] = None"
| "position b (x # xs) = (if x = b then Some 0 else map_option Suc (position b xs))"

definition split_once :: "byte list \<Rightarrow> byte \<Rightarrow> (byte list \<times> byte list) option" where
  "split_once xs separator = map_option (\<lambda>i. (take i xs, drop (i + 1) xs)) (position separator xs)"

text \<open>The fields of \<^verbatim>\<open>slice::split\<close>: there is always at least one.\<close>

fun split_on :: "byte \<Rightarrow> byte list \<Rightarrow> byte list list" where
  "split_on separator [] = [[]]"
| "split_on separator (x # xs) =
     (if x = separator then [] # split_on separator xs
      else (case split_on separator xs of [] \<Rightarrow> [[x]] | part # parts \<Rightarrow> (x # part) # parts))"

text \<open>The first place where a window of the needle's length equals it.\<close>

fun position_window :: "byte list \<Rightarrow> byte list \<Rightarrow> nat option" where
  "position_window needle [] = None"
| "position_window needle (x # xs) =
     (if take (length needle) (x # xs) = needle then Some 0 else map_option Suc (position_window needle xs))"

definition is_digit :: "byte \<Rightarrow> bool" where "is_digit b \<longleftrightarrow> 48 \<le> b \<and> b \<le> 57"
definition is_lowercase :: "byte \<Rightarrow> bool" where "is_lowercase b \<longleftrightarrow> 97 \<le> b \<and> b \<le> 122"

definition digits_value :: "byte list \<Rightarrow> nat" where
  "digits_value ds = foldl (\<lambda>n d. n * 10 + (d - 48)) 0 ds"

text \<open>\<^verbatim>\<open>from_utf8\<close> and \<^verbatim>\<open>parse\<close> into an unsigned type: an optional plus sign, at least one digit, and no overflow.\<close>

definition parse_unsigned :: "nat \<Rightarrow> byte list \<Rightarrow> nat option" where
  "parse_unsigned maximum xs =
     (let ds = (case xs of [] \<Rightarrow> [] | x # rest \<Rightarrow> if x = 43 then rest else xs)
      in if ds = [] \<or> \<not> list_all is_digit ds then None
         else if digits_value ds \<le> maximum then Some (digits_value ds) else None)"

section \<open>Versions\<close>

definition MINIMUM_TMUX_MAJOR :: nat where "MINIMUM_TMUX_MAJOR = 3"
definition MINIMUM_TMUX_MINOR :: nat where "MINIMUM_TMUX_MINOR = 4"
definition U16_MAX :: nat where "U16_MAX = 2 ^ 16 - 1"
definition U32_MAX :: nat where "U32_MAX = 2 ^ 32 - 1"

record parsed_version =
  pv_major :: nat
  pv_minor :: nat

definition parse_version :: "byte list \<Rightarrow> parsed_version option" where
  "parse_version xs =
     Option.bind (split_once xs 46) (\<lambda>(major, remainder).
       let minor = takeWhile is_digit remainder; suffix = dropWhile is_digit remainder
       in if major = [] \<or> \<not> list_all is_digit major then None
          else if minor = [] then None
          else if \<not> (case suffix of [] \<Rightarrow> True | b # more_bytes \<Rightarrow> is_lowercase b \<and> more_bytes = []) then None
          else Option.bind (parse_unsigned U32_MAX major) (\<lambda>m. map_option (\<lambda>n. \<lparr>pv_major = m, pv_minor = n\<rparr>) (parse_unsigned U32_MAX minor)))"

text \<open>Errors of discovery are given by their code; the message only formats the offending value.\<close>

definition validate_supported_version :: "byte list \<Rightarrow> error_code + unit" where
  "validate_supported_version version =
     (case parse_version version of
        None \<Rightarrow> Inl UnsupportedBackendVersion
      | Some parsed \<Rightarrow>
          require (\<not> (pv_major parsed \<noteq> MINIMUM_TMUX_MAJOR \<or> pv_minor parsed < MINIMUM_TMUX_MINOR)) UnsupportedBackendVersion)"

section \<open>Identifiers and pane lines\<close>

definition valid_id :: "byte \<Rightarrow> byte list \<Rightarrow> bool" where
  "valid_id sigil xs = (case xs of [] \<Rightarrow> False | x # ds \<Rightarrow> x = sigil \<and> ds \<noteq> [] \<and> list_all is_digit ds)"

definition parse_id :: "byte list \<Rightarrow> byte \<Rightarrow> error_code + byte list" where
  "parse_id xs sigil = (if valid_id sigil xs then Inr xs else Inl BackendUnavailable)"

definition validate_pane_id :: "byte list \<Rightarrow> error_code + unit" where
  "validate_pane_id xs = require (valid_id 37 xs) InvalidRequest"

record tmux_pane_info =
  tp_socket_path :: "byte list"
  tp_tmux_version :: "byte list"
  tp_server_pid :: nat
  tp_server_started_at :: u64
  tp_session_id :: "byte list"
  tp_window_id :: "byte list"
  tp_pane_id :: "byte list"
  tp_pane_pid :: nat
  tp_size :: terminal_size

definition parse_number :: "nat \<Rightarrow> byte list \<Rightarrow> error_code + nat" where
  "parse_number maximum xs = ok_or BackendUnavailable (parse_unsigned maximum xs)"

definition parse_pane_line :: "byte list \<Rightarrow> byte list \<Rightarrow> error_code + byte list \<times> tmux_pane_info option" where
  "parse_pane_line line socket_path =
     (case split_on 9 line of
        [version, spid, started, session, window, pane, ppid, columns, lines, dead] \<Rightarrow>
          and_then (validate_supported_version version) (\<lambda>_.
          if dead = ascii ''1'' then Inr (version, None)
          else and_then (require (dead = ascii ''0'') BackendUnavailable) (\<lambda>_.
          and_then (parse_number U32_MAX spid) (\<lambda>server_pid.
          and_then (parse_number U64_MAX started) (\<lambda>server_started_at.
          and_then (parse_id session 36) (\<lambda>session_id.
          and_then (parse_id window 64) (\<lambda>window_id.
          and_then (parse_id pane 37) (\<lambda>pane_target.
          and_then (parse_number U32_MAX ppid) (\<lambda>process_id.
          and_then (parse_number U16_MAX columns) (\<lambda>columns.
          and_then (parse_number U16_MAX lines) (\<lambda>lines.
          and_then (require (\<not> (columns = 0 \<or> lines = 0)) BackendUnavailable) (\<lambda>_.
            Inr (version, Some \<lparr>tp_socket_path = socket_path, tp_tmux_version = version, tp_server_pid = server_pid,
              tp_server_started_at = server_started_at, tp_session_id = session_id, tp_window_id = window_id, tp_pane_id = pane_target,
              tp_pane_pid = process_id, tp_size = \<lparr>rows = lines, cols = columns\<rparr>\<rparr>))))))))))))
      | _ \<Rightarrow> Inl BackendUnavailable)"

section \<open>The target probe\<close>

definition parse_control_number :: "nat \<Rightarrow> string \<Rightarrow> byte list \<Rightarrow> string + nat" where
  "parse_control_number maximum label xs = ok_or (''tmux target probe returned an invalid '' @ label) (parse_unsigned maximum xs)"

definition control_id :: "byte list \<Rightarrow> byte \<Rightarrow> string \<Rightarrow> string + byte list" where
  "control_id xs sigil label = (if valid_id sigil xs then Inr xs else Inl (''invalid tmux '' @ label @ '' ID''))"

record target_identity =
  ti_server_pid :: nat
  ti_server_started_at :: u64
  ti_session_id :: "byte list"
  ti_window_id :: "byte list"
  ti_pane_id :: "byte list"
  ti_pane_pid :: nat

definition target_identity_of :: "tmux_pane_info \<Rightarrow> target_identity" where
  "target_identity_of t = \<lparr>ti_server_pid = tp_server_pid t, ti_server_started_at = tp_server_started_at t, ti_session_id = tp_session_id t,
     ti_window_id = tp_window_id t, ti_pane_id = tp_pane_id t, ti_pane_pid = tp_pane_pid t\<rparr>"

definition target_identity_matches :: "tmux_pane_info \<Rightarrow> byte list \<Rightarrow> string + bool" where
  "target_identity_matches target output =
     (case split_on 9 output of
        [spid, started, session, window, pane, ppid] \<Rightarrow>
          and_then (parse_control_number U32_MAX ''server PID'' spid) (\<lambda>server_pid.
          and_then (parse_control_number U64_MAX ''server start time'' started) (\<lambda>server_started_at.
          and_then (control_id session 36 ''session'') (\<lambda>session_id.
          and_then (control_id window 64 ''window'') (\<lambda>window_id.
          and_then (control_id pane 37 ''pane'') (\<lambda>pane_id.
          and_then (parse_control_number U32_MAX ''pane PID'' ppid) (\<lambda>pane_pid.
            Inr (\<lparr>ti_server_pid = server_pid, ti_server_started_at = server_started_at, ti_session_id = session_id, ti_window_id = window_id,
                  ti_pane_id = pane_id, ti_pane_pid = pane_pid\<rparr> = target_identity_of target)))))))
      | _ \<Rightarrow> Inl ''tmux target probe returned an unexpected field count'')"

section \<open>Octal escapes\<close>

definition is_octal :: "byte \<Rightarrow> bool" where "is_octal b \<longleftrightarrow> 48 \<le> b \<and> b \<le> 55"

fun decode_octal :: "byte list \<Rightarrow> string + byte list" where
  "decode_octal [] = Inr []"
| "decode_octal (x # xs) =
     (if x \<noteq> 92 then and_then (decode_octal xs) (\<lambda>ys. Inr (x # ys))
      else (case xs of
              a # b # c # rest \<Rightarrow>
                if \<not> (is_octal a \<and> is_octal b \<and> is_octal c) then Inl ''invalid tmux octal escape''
                else (let octal = (a - 48) * 64 + (b - 48) * 8 + (c - 48)
                      in if octal > 255 then Inl ''tmux octal escape exceeds one byte''
                         else and_then (decode_octal rest) (\<lambda>ys. Inr (octal # ys)))
            | _ \<Rightarrow> Inl ''truncated tmux octal escape''))"

section \<open>Control Mode lines\<close>

definition MAX_CONTROL_LINE_BYTES :: nat where "MAX_CONTROL_LINE_BYTES = 1024 * 1024"
definition MAX_COMMAND_BLOCK_LINES :: nat where "MAX_COMMAND_BLOCK_LINES = 32 * 1024"

datatype control_item =
    ControlOutput "byte list" "byte list" "u64 option"
  | ControlResult u64 bool "byte list list"
  | ControlSessionChanged "byte list"
  | ControlSessionRenamed "byte list" "byte list"
  | ControlWindowClosed "byte list"
  | ControlPaused "byte list"
  | ControlContinued "byte list"
  | ControlExit
  | ControlNotification

record command_block =
  cb_header :: "u64 \<times> u64 \<times> u64"
  cb_payload_bytes :: usize
  cb_line_count :: usize
  cb_output :: "byte list list"

type_synonym control_parser = "command_block option"

definition push_block_output :: "byte list \<Rightarrow> command_block \<Rightarrow> string + command_block" where
  "push_block_output line block =
     (if cb_line_count block \<ge> MAX_COMMAND_BLOCK_LINES then Inl ''tmux command block has too many output lines''
      else (case checked_add (cb_payload_bytes block) (length line) of
              None \<Rightarrow> Inl ''tmux command block output exceeds 1 MiB''
            | Some payload_bytes \<Rightarrow>
                if payload_bytes > MAX_CONTROL_LINE_BYTES then Inl ''tmux command block output exceeds 1 MiB''
                else Inr (block\<lparr>cb_payload_bytes := payload_bytes, cb_line_count := cb_line_count block + 1, cb_output := cb_output block @ [line]\<rparr>)))"

definition ascii_u64 :: "byte list \<Rightarrow> string + u64" where
  "ascii_u64 xs = ok_or ''invalid tmux control integer'' (parse_unsigned U64_MAX xs)"

definition parse_block_header :: "byte list \<Rightarrow> byte list \<Rightarrow> string + u64 \<times> u64 \<times> u64" where
  "parse_block_header lead line =
     and_then (ok_or ''invalid tmux command block prefix'' (strip_prefix lead line)) (\<lambda>rest.
       case split_on 32 rest of
         [a, b, c] \<Rightarrow> and_then (ascii_u64 a) (\<lambda>time. and_then (ascii_u64 b) (\<lambda>number. and_then (ascii_u64 c) (\<lambda>flags. Inr (time, number, flags))))
       | _ \<Rightarrow> Inl ''invalid tmux command block header'')"

definition reject_stray_block_terminator :: "byte list \<Rightarrow> string + unit" where
  "reject_stray_block_terminator line =
     require (\<not> (starts_with (ascii ''%end '') line \<or> starts_with (ascii ''%error '') line)) ''tmux command block terminator without begin''"

definition parse_session_renamed :: "byte list \<Rightarrow> string + control_item" where
  "parse_session_renamed xs =
     and_then (ok_or ''malformed tmux session-renamed notification'' (split_once xs 32)) (\<lambda>(session, name).
     and_then (control_id session 36 ''session'') (\<lambda>session_id.
     and_then (decode_octal name) (\<lambda>name. Inr (ControlSessionRenamed session_id name))))"

definition parse_output :: "byte list \<Rightarrow> string + control_item" where
  "parse_output rest =
     and_then (ok_or ''malformed tmux output notification'' (split_once rest 32)) (\<lambda>(pane, payload).
     and_then (control_id pane 37 ''pane'') (\<lambda>pane_id.
     and_then (decode_octal payload) (\<lambda>data. Inr (ControlOutput pane_id data None))))"

definition parse_extended_output :: "byte list \<Rightarrow> string + control_item" where
  "parse_extended_output rest =
     and_then (ok_or ''malformed tmux extended-output separator'' (position_window (ascii '' : '') rest)) (\<lambda>separator.
       let header = take separator rest; payload = drop (separator + 3) rest; parts = split_on 32 header
       in and_then (case parts of [] \<Rightarrow> Inl ''tmux extended-output has no pane'' | pane # more_parts \<Rightarrow> Inr (pane, more_parts)) (\<lambda>(pane, more_parts).
          and_then (ok_or ''tmux extended-output has invalid age'' (case more_parts of [] \<Rightarrow> None | age # _ \<Rightarrow> parse_unsigned U64_MAX age)) (\<lambda>age.
          and_then (control_id pane 37 ''pane'') (\<lambda>pane_id.
          and_then (decode_octal payload) (\<lambda>data. Inr (ControlOutput pane_id data (Some age)))))))"

definition parse_session_changed :: "byte list \<Rightarrow> string + control_item" where
  "parse_session_changed rest =
     and_then (ok_or ''malformed tmux session-changed notification'' (split_once rest 32)) (\<lambda>(session, _).
     and_then (control_id session 36 ''session'') (\<lambda>session_id. Inr (ControlSessionChanged session_id)))"

definition parse_block_line :: "command_block \<Rightarrow> byte list \<Rightarrow> string + control_item option \<times> control_parser" where
  "parse_block_line block line =
     (if starts_with (ascii ''%begin '') line then Inl ''nested tmux command block''
      else if starts_with (ascii ''%end '') line \<or> starts_with (ascii ''%error '') line then
        (let success = starts_with (ascii ''%end '') line
         in and_then (parse_block_header (if success then ascii ''%end '' else ascii ''%error '') line) (\<lambda>header.
            and_then (require (cb_header block = header) ''tmux command block terminator does not match begin'') (\<lambda>_.
              Inr (Some (ControlResult (fst (snd (cb_header block))) success (cb_output block)), None))))
      else and_then (push_block_output line block) (\<lambda>block. Inr (None, Some block)))"

definition parse_notification :: "byte list \<Rightarrow> string + control_item" where
  "parse_notification line =
     (case strip_prefix (ascii ''%output '') line of Some rest \<Rightarrow> parse_output rest | None \<Rightarrow>
      case strip_prefix (ascii ''%extended-output '') line of Some rest \<Rightarrow> parse_extended_output rest | None \<Rightarrow>
      case strip_prefix (ascii ''%session-changed '') line of Some rest \<Rightarrow> parse_session_changed rest | None \<Rightarrow>
      case strip_prefix (ascii ''%session-renamed '') line of Some rest \<Rightarrow> parse_session_renamed rest | None \<Rightarrow>
      case strip_prefix (ascii ''%window-close '') line of
        Some window \<Rightarrow> and_then (control_id window 64 ''window'') (\<lambda>window_id. Inr (ControlWindowClosed window_id)) | None \<Rightarrow>
      case strip_prefix (ascii ''%pause '') line of
        Some pane \<Rightarrow> and_then (control_id pane 37 ''pane'') (\<lambda>pane_id. Inr (ControlPaused pane_id)) | None \<Rightarrow>
      case strip_prefix (ascii ''%continue '') line of
        Some pane \<Rightarrow> and_then (control_id pane 37 ''pane'') (\<lambda>pane_id. Inr (ControlContinued pane_id)) | None \<Rightarrow>
      if line = ascii ''%exit'' \<or> starts_with (ascii ''%exit '') line then Inr ControlExit
      else and_then (reject_stray_block_terminator line) (\<lambda>_.
        if starts_with (ascii ''%'') line then Inr ControlNotification else Inl ''tmux emitted an unframed control line''))"

definition parse_line :: "control_parser \<Rightarrow> byte list \<Rightarrow> string + control_item option \<times> control_parser" where
  "parse_line parser line =
     (case parser of
        Some block \<Rightarrow> parse_block_line block line
      | None \<Rightarrow>
          if line = [] then Inr (None, None)
          else if starts_with (ascii ''%begin '') line
          then and_then (parse_block_header (ascii ''%begin '') line) (\<lambda>header.
                 Inr (None, Some \<lparr>cb_header = header, cb_payload_bytes = 0, cb_line_count = 0, cb_output = []\<rparr>))
          else and_then (parse_notification line) (\<lambda>item. Inr (Some item, None)))"

definition parser_finish :: "control_parser \<Rightarrow> string + unit" where
  "parser_finish parser = require (parser = None) ''tmux Control Mode stream ended inside a command block''"

section \<open>The bounded line reader\<close>

datatype bounded_line_read = LineRead | EofRead

type_synonym buf_reader = "(string + byte list) list"

definition trim_line_end :: "byte list \<Rightarrow> byte list" where
  "trim_line_end line = (let line = butlast line in if line \<noteq> [] \<and> last line = 13 then butlast line else line)"

text \<open>When no newline ends the line, the whole slice was consumed.\<close>

fun read_bounded_line :: "byte list \<Rightarrow> buf_reader \<Rightarrow> (string + bounded_line_read \<times> byte list) \<times> buf_reader" where
  "read_bounded_line line [] = (Inr (if line = [] then EofRead else LineRead, line), [])"
| "read_bounded_line line (Inl failure # reader) = (Inl failure, reader)"
| "read_bounded_line line (Inr available # reader) =
     (if available = [] then (Inr (if line = [] then EofRead else LineRead, line), Inr available # reader)
      else let taken = (case position 10 available of None \<Rightarrow> length available | Some i \<Rightarrow> i + 1);
               rest = drop taken available;
               consumed = (if rest = [] then reader else Inr rest # reader)
           in if saturating_add (length line) taken > MAX_CONTROL_LINE_BYTES then (Inl ''tmux Control Mode line exceeds 1 MiB'', consumed)
              else let grown = line @ take taken available
                   in if last grown = 10 then (Inr (LineRead, trim_line_end grown), consumed)
                      else read_bounded_line grown reader)"


section \<open>The wire format\<close>

text \<open>
  The other side, as tmux writes it in Control Mode: bytes below the space and the backslash as three octal digits,
  identifiers and numbers in decimal, one line for a notification and a bracketed block for the result of a command.
\<close>

definition escape_byte :: "byte \<Rightarrow> byte list" where
  "escape_byte b = (if b < 32 \<or> b = 92 then [92, 48 + b div 64, 48 + b div 8 mod 8, 48 + b mod 8] else [b])"

definition escape :: "byte list \<Rightarrow> byte list" where
  "escape bs = concat (map escape_byte bs)"

fun decimal :: "nat \<Rightarrow> byte list" where
  "decimal n = (if n < 10 then [48 + n] else decimal (n div 10) @ [48 + n mod 10])"

declare decimal.simps [simp del]

datatype wire_record =
    WireNote control_item
  | WireResult u64 u64 u64 bool "byte list list"

definition block_header :: "u64 \<Rightarrow> u64 \<Rightarrow> u64 \<Rightarrow> byte list" where
  "block_header time number flags = decimal time @ 32 # decimal number @ 32 # decimal flags"

fun render_note :: "control_item \<Rightarrow> byte list" where
  "render_note (ControlOutput pane data None) = ascii ''%output '' @ pane @ 32 # escape data"
| "render_note (ControlOutput pane data (Some age)) = ascii ''%extended-output '' @ pane @ 32 # decimal age @ ascii '' : '' @ escape data"
| "render_note (ControlSessionChanged session) = ascii ''%session-changed '' @ session @ ascii '' main''"
| "render_note (ControlSessionRenamed session name) = ascii ''%session-renamed '' @ session @ 32 # escape name"
| "render_note (ControlWindowClosed window) = ascii ''%window-close '' @ window"
| "render_note (ControlPaused pane) = ascii ''%pause '' @ pane"
| "render_note (ControlContinued pane) = ascii ''%continue '' @ pane"
| "render_note ControlExit = ascii ''%exit''"
| "render_note _ = ascii ''%layout-change''"

fun render :: "wire_record \<Rightarrow> byte list list" where
  "render (WireNote item) = [render_note item]"
| "render (WireResult time number flags success output) =
     (ascii ''%begin '' @ block_header time number flags) # output @ [(if success then ascii ''%end '' else ascii ''%error '') @ block_header time number flags]"

fun record_item :: "wire_record \<Rightarrow> control_item" where
  "record_item (WireNote item) = item"
| "record_item (WireResult time number flags success output) = ControlResult number success output"

definition is_bytes :: "byte list \<Rightarrow> bool" where "is_bytes bs \<longleftrightarrow> list_all (\<lambda>b. b < 256) bs"

fun note_ok :: "control_item \<Rightarrow> bool" where
  "note_ok (ControlOutput pane data age) \<longleftrightarrow> valid_id 37 pane \<and> is_bytes data \<and> (case age of None \<Rightarrow> True | Some n \<Rightarrow> n \<le> U64_MAX)"
| "note_ok (ControlSessionChanged session) \<longleftrightarrow> valid_id 36 session"
| "note_ok (ControlSessionRenamed session name) \<longleftrightarrow> valid_id 36 session \<and> is_bytes name"
| "note_ok (ControlWindowClosed window) \<longleftrightarrow> valid_id 64 window"
| "note_ok (ControlPaused pane) \<longleftrightarrow> valid_id 37 pane"
| "note_ok (ControlContinued pane) \<longleftrightarrow> valid_id 37 pane"
| "note_ok (ControlResult _ _ _) \<longleftrightarrow> False"
| "note_ok _ \<longleftrightarrow> True"

text \<open>An output line of a block is not itself a block bracket, and the block stays within the parser's budgets.\<close>

definition block_line_ok :: "byte list \<Rightarrow> bool" where
  "block_line_ok line \<longleftrightarrow> \<not> starts_with (ascii ''%begin '') line \<and> \<not> starts_with (ascii ''%end '') line \<and> \<not> starts_with (ascii ''%error '') line"

fun record_ok :: "wire_record \<Rightarrow> bool" where
  "record_ok (WireNote item) \<longleftrightarrow> note_ok item"
| "record_ok (WireResult time number flags success output) \<longleftrightarrow> time \<le> U64_MAX \<and> number \<le> U64_MAX \<and> flags \<le> U64_MAX \<and> list_all block_line_ok output
     \<and> length output \<le> MAX_COMMAND_BLOCK_LINES \<and> length (concat output) \<le> MAX_CONTROL_LINE_BYTES"

section \<open>Parsing what was written\<close>

lemma decode_escape: "is_bytes bs \<Longrightarrow> decode_octal (escape bs) = Inr bs"
proof (induction bs)
  case (Cons b bs)
  then have b: "b < 256" and IH: "decode_octal (escape bs) = Inr bs" by (simp_all add: is_bytes_def)
  show ?case
  proof (cases "b < 32 \<or> b = 92")
    case True
    have d: "b div 64 \<le> 7" "b div 8 mod 8 \<le> 7" "b mod 8 \<le> 7" using b by auto
    have "b div 64 = b div 8 div 8" by (simp add: div_mult2_eq [symmetric])
    moreover have "b div 8 div 8 * 8 + b div 8 mod 8 = b div 8" "b div 8 * 8 + b mod 8 = b" by simp_all
    ultimately have "b div 64 * 64 + b div 8 mod 8 * 8 + b mod 8 = b" by linarith
    then show ?thesis using True d b IH by (simp add: escape_def escape_byte_def is_octal_def Let_def)
  next
    case False
    then show ?thesis using IH by (simp add: escape_def escape_byte_def)
  qed
qed (simp add: escape_def)

lemma decimal_nonempty [simp]: "decimal n \<noteq> []"
  by (subst decimal.simps) simp

lemma decimal_digits: "list_all is_digit (decimal n)"
proof (induction n rule: decimal.induct)
  case (1 n)
  then show ?case by (subst decimal.simps) (auto simp: is_digit_def list_all_iff)
qed

lemma digits_value_snoc: "digits_value (ds @ [d]) = digits_value ds * 10 + (d - 48)"
  by (simp add: digits_value_def)

lemma decimal_value: "digits_value (decimal n) = n"
proof (induction n rule: decimal.induct)
  case (1 n)
  then show ?case by (subst decimal.simps) (auto simp: digits_value_snoc, simp add: digits_value_def)
qed

lemma parse_decimal: "n \<le> maximum \<Longrightarrow> parse_unsigned maximum (decimal n) = Some n"
  using decimal_digits [of n] decimal_value [of n]
  by (cases "decimal n") (auto simp: parse_unsigned_def is_digit_def)

lemma decimal_no_sep: "c < 48 \<or> c > 57 \<Longrightarrow> c \<notin> set (decimal n)"
  using decimal_digits [of n] by (auto simp: list_all_iff is_digit_def)

lemma valid_id_no_sep: "valid_id sigil xs \<Longrightarrow> c < 48 \<or> c > 57 \<Longrightarrow> c \<noteq> sigil \<Longrightarrow> c \<notin> set xs"
  by (cases xs) (auto simp: valid_id_def list_all_iff is_digit_def)

lemma position_first: "b \<notin> set xs \<Longrightarrow> position b (xs @ b # ys) = Some (length xs)"
  by (induction xs) auto

lemma position_none: "b \<notin> set xs \<Longrightarrow> position b xs = None"
  by (induction xs) auto

lemma split_once_first: "b \<notin> set xs \<Longrightarrow> split_once (xs @ b # ys) b = Some (xs, ys)"
  by (simp add: split_once_def position_first)

lemma split_on_one: "b \<notin> set xs \<Longrightarrow> split_on b xs = [xs]"
  by (induction xs) auto

lemma split_on_first: "b \<notin> set xs \<Longrightarrow> split_on b (xs @ b # ys) = xs # split_on b ys"
  by (induction xs) auto

lemma strip_prefix_append [simp]: "strip_prefix p (p @ xs) = Some xs"
  by (simp add: strip_prefix_def)

lemma starts_with_append [simp]: "starts_with p (p @ xs)"
  by (simp add: starts_with_def)


lemma valid_id_nonempty: "valid_id sigil xs \<Longrightarrow> xs \<noteq> []"
  by (auto simp: valid_id_def)

lemmas literal = ascii_def strip_prefix_def starts_with_def

lemma parse_note_output:
  "valid_id 37 pane \<Longrightarrow> is_bytes data \<Longrightarrow> parse_output (pane @ 32 # escape data) = Inr (ControlOutput pane data None)"
  by (simp add: parse_output_def split_once_first valid_id_no_sep ok_or_def control_id_def decode_escape)

lemma extended_separator:
  assumes "valid_id 37 pane"
  shows "position_window (ascii '' : '') (pane @ 32 # decimal age @ ascii '' : '' @ ys) = Some (length pane + Suc (length (decimal age)))"
proof -
  have skip: "32 \<notin> set xs \<Longrightarrow> position_window (ascii '' : '') (xs @ zs) = map_option (\<lambda>i. i + length xs) (position_window (ascii '' : '') zs)" for xs zs
    by (induction xs) (auto simp: ascii_def option.map_comp comp_def option.map_ident)
  obtain d ds where d: "decimal age = d # ds" by (cases "decimal age") auto
  have nd: "32 \<notin> set (decimal age)" "d \<noteq> 58" using decimal_no_sep [of 32 age] decimal_no_sep [of 58 age] d by auto
  have "position_window (ascii '' : '') (decimal age @ ascii '' : '' @ ys) = Some (length (decimal age))"
    using nd(1) by (subst skip) (simp_all add: ascii_def)
  then have "position_window (ascii '' : '') (32 # decimal age @ ascii '' : '' @ ys) = Some (Suc (length (decimal age)))"
    using d nd(2) by (simp add: ascii_def)
  moreover have "32 \<notin> set pane" using assms valid_id_no_sep by simp
  ultimately show ?thesis by (simp add: skip)
qed

lemma parse_note_extended:
  assumes "valid_id 37 pane" "is_bytes data" "age \<le> U64_MAX"
  shows "parse_extended_output (pane @ 32 # decimal age @ ascii '' : '' @ escape data) = Inr (ControlOutput pane data (Some age))"
proof -
  have no: "32 \<notin> set pane" "32 \<notin> set (decimal age)" using assms(1) valid_id_no_sep decimal_no_sep by simp_all
  let ?rest = "pane @ 32 # decimal age @ ascii '' : '' @ escape data"
  have whole: "?rest = (pane @ 32 # decimal age @ ascii '' : '') @ escape data"
    "length (pane @ 32 # decimal age @ ascii '' : '') = length pane + Suc (length (decimal age)) + 3" by (simp_all add: ascii_def)
  have cut: "take (length pane + Suc (length (decimal age))) ?rest = pane @ 32 # decimal age"
    "drop (length pane + Suc (length (decimal age)) + 3) ?rest = escape data"
    by simp (metis append_eq_conv_conj whole)
  have "split_on 32 (pane @ 32 # decimal age) = [pane, decimal age]" using no by (simp add: split_on_first split_on_one)
  then show ?thesis unfolding parse_extended_output_def extended_separator [OF assms(1)] ok_or_def option.case and_then_simps Let_def cut
    using assms by (simp add: parse_decimal ok_or_def control_id_def decode_escape)
qed

lemma parse_note: "note_ok item \<Longrightarrow> parse_line None (render_note item) = Inr (Some item, None)"
proof (cases item)
  case (ControlOutput pane data age)
  then show "note_ok item \<Longrightarrow> ?thesis"
    using parse_note_output [of pane data] parse_note_extended [of pane data "the age"]
    by (cases age) (simp_all add: parse_line_def parse_notification_def literal)
qed (auto simp: parse_line_def parse_notification_def literal parse_session_changed_def parse_session_renamed_def split_once_first valid_id_no_sep ok_or_def
      control_id_def decode_escape reject_stray_block_terminator_def require_def)


subsection \<open>Records and streams of records\<close>

fun parse_lines :: "('s \<Rightarrow> 'l \<Rightarrow> 'e + 'i option \<times> 's) \<Rightarrow> 's \<Rightarrow> 'l list \<Rightarrow> 'e + 'i list \<times> 's" where
  "parse_lines parse s [] = Inr ([], s)"
| "parse_lines parse s (l # ls) =
     and_then (parse s l) (\<lambda>(i, s'). and_then (parse_lines parse s' ls) (\<lambda>(is, s''). Inr ((case i of None \<Rightarrow> is | Some x \<Rightarrow> x # is), s'')))"

lemma parse_lines_append:
  "parse_lines parse s (ls @ ms) =
     and_then (parse_lines parse s ls) (\<lambda>(is, s'). and_then (parse_lines parse s' ms) (\<lambda>(js, s''). Inr (is @ js, s'')))"
proof (induction ls arbitrary: s)
  case Nil
  show ?case by (cases "parse_lines parse s ms") auto
next
  case (Cons l ls)
  show ?case
  proof (cases "parse s l")
    case (Inr p)
    then show ?thesis using Cons.IH [of "snd p"]
      by (cases p; cases "parse_lines parse (snd p) ls"; cases "parse_lines parse (snd p) (ls @ ms)") (auto simp: and_then_def split: sum.splits option.splits)
  qed simp
qed

text \<open>A line-oriented parser that, between records, reads back every good record.\<close>

locale record_codec =
  fixes parse :: "'s \<Rightarrow> 'l \<Rightarrow> 'e + 'i option \<times> 's" and idle :: 's and render :: "'r \<Rightarrow> 'l list" and decoded :: "'r \<Rightarrow> 'i" and good :: "'r \<Rightarrow> bool"
  assumes parse_render: "good r \<Longrightarrow> parse_lines parse idle (render r) = Inr ([decoded r], idle)"
begin

lemma parse_stream: "list_all good rs \<Longrightarrow> parse_lines parse idle (concat (map render rs)) = Inr (map decoded rs, idle)"
  by (induction rs) (simp_all add: parse_lines_append parse_render)

end

lemma header_parsed:
  assumes "time \<le> U64_MAX" "number \<le> U64_MAX" "flags \<le> U64_MAX"
  shows "parse_block_header lead (lead @ block_header time number flags) = Inr (time, number, flags)"
  using assms decimal_no_sep [of 32]
  by (simp add: parse_block_header_def block_header_def ok_or_def split_on_first split_on_one ascii_u64_def parse_decimal)

lemma block_lines_parsed:
  assumes "list_all block_line_ok body" "cb_line_count block + length body \<le> MAX_COMMAND_BLOCK_LINES"
    "cb_payload_bytes block + length (concat body) \<le> MAX_CONTROL_LINE_BYTES"
  shows "parse_lines parse_line (Some block) body = Inr ([], Some (block\<lparr>cb_payload_bytes := cb_payload_bytes block + length (concat body),
     cb_line_count := cb_line_count block + length body, cb_output := cb_output block @ body\<rparr>))"
  using assms
proof (induction body arbitrary: block)
  case (Cons line body)
  let ?next = "block\<lparr>cb_payload_bytes := cb_payload_bytes block + length line, cb_line_count := cb_line_count block + 1, cb_output := cb_output block @ [line]\<rparr>"
  have "cb_payload_bytes block + length line \<le> U64_MAX" using Cons.prems(3) by (simp add: MAX_CONTROL_LINE_BYTES_def max_values)
  then have "parse_line (Some block) line = Inr (None, Some ?next)"
    using Cons.prems by (simp add: parse_line_def parse_block_line_def block_line_ok_def push_block_output_def checked_add_def)
  then show ?case using Cons.IH [of ?next] Cons.prems by (simp add: add_ac)
qed simp

lemma parse_record:
  assumes "record_ok r"
  shows "parse_lines parse_line None (render r) = Inr ([record_item r], None)"
proof (cases r)
  case (WireNote item)
  then show ?thesis using assms parse_note by simp
next
  case (WireResult time number flags success body)
  let ?block = "\<lparr>cb_header = (time, number, flags), cb_payload_bytes = 0, cb_line_count = 0, cb_output = []\<rparr>"
  let ?full = "?block\<lparr>cb_payload_bytes := length (concat body), cb_line_count := length body, cb_output := body\<rparr>"
  have begins: "parse_line None (ascii ''%begin '' @ block_header time number flags) = Inr (None, Some ?block)"
    using header_parsed [of time number flags] assms WireResult by (simp add: parse_line_def) (simp add: ascii_def)
  have lines: "parse_lines parse_line (Some ?block) body = Inr ([], Some ?full)"
    using block_lines_parsed [of body ?block] assms WireResult by simp
  have ends: "parse_line (Some ?full) ((if success then ascii ''%end '' else ascii ''%error '') @ block_header time number flags)
      = Inr (Some (ControlResult number success body), None)"
    using header_parsed [of time number flags] assms WireResult
    by (cases success) (simp_all add: parse_line_def parse_block_line_def require_def Let_def, simp_all add: literal)
  show ?thesis using begins lines ends WireResult by (simp add: parse_lines_append)
qed

interpretation control_mode: record_codec parse_line None render record_item record_ok
  by unfold_locales (rule parse_record)

subsection \<open>Lines out of slices\<close>

definition line_ok :: "byte list \<Rightarrow> bool" where
  "line_ok line \<longleftrightarrow> 10 \<notin> set line \<and> (line \<noteq> [] \<longrightarrow> last line \<noteq> 13) \<and> length line < MAX_CONTROL_LINE_BYTES"

definition framed :: "byte list list \<Rightarrow> byte list" where
  "framed lines = concat (map (\<lambda>line. line @ [10]) lines)"

lemma trim_line: "line_ok line \<Longrightarrow> trim_line_end (line @ [10]) = line"
  by (auto simp: trim_line_end_def line_ok_def)

lemma read_line_slices:
  assumes "concat slices = line @ 10 # rest" "list_all (\<lambda>s. s \<noteq> []) slices" "10 \<notin> set line" "length (front @ line) < MAX_CONTROL_LINE_BYTES"
  shows "\<exists>slices'. read_bounded_line front (map Inr slices) = (Inr (LineRead, trim_line_end (front @ line @ [10])), map Inr slices')
     \<and> concat slices' = rest \<and> list_all (\<lambda>s. s \<noteq> []) slices'"
  using assms
proof (induction slices arbitrary: front line)
  case (Cons s slices)
  have sane: "s \<noteq> []" "list_all (\<lambda>s. s \<noteq> []) slices" using Cons.prems(2) by simp_all
  have bound: "saturating_add a b \<le> MAX_CONTROL_LINE_BYTES" if "a + b \<le> MAX_CONTROL_LINE_BYTES" for a b
    using that by (simp add: saturating_add_def MAX_CONTROL_LINE_BYTES_def)
  from Cons.prems(1) have "s @ concat slices = line @ 10 # rest" by simp
  then consider (part) line' where "line = s @ line'" "concat slices = line' @ 10 # rest" | (ends) s' where "s = line @ 10 # s'" "rest = s' @ concat slices"
    by (auto simp: append_eq_append_conv2 append_eq_Cons_conv Cons_eq_append_conv)
  then show ?case
  proof cases
    case part
    have no: "10 \<notin> set s" "position 10 s = None" using Cons.prems(3) part(1) by (simp_all add: position_none)
    have len: "length front + length s \<le> MAX_CONTROL_LINE_BYTES" using Cons.prems(4) part(1) by simp
    have "last (front @ s) \<noteq> 10" using no(1) sane(1) by (simp add: in_set_conv_decomp) (metis append_butlast_last_id)
    then have "read_bounded_line front (map Inr (s # slices)) = read_bounded_line (front @ s) (map Inr slices)"
      using no(2) sane(1) bound [OF len] by simp
    then show ?thesis using Cons.IH [OF part(2) sane(2), of "front @ s"] Cons.prems(3,4) part(1) by simp
  next
    case ends
    have pos: "position 10 s = Some (length line)" using Cons.prems(3) ends(1) position_first by simp
    have len: "length front + (length line + 1) \<le> MAX_CONTROL_LINE_BYTES" using Cons.prems(4) by simp
    let ?slices = "if s' = [] then slices else s' # slices"
    have "read_bounded_line front (map Inr (s # slices)) = (Inr (LineRead, trim_line_end (front @ line @ [10])), map Inr ?slices)"
      using pos ends(1) bound [OF len] by simp
    then show ?thesis using ends(2) sane(2) by (intro exI [of _ ?slices]) auto
  qed
qed simp

end
