(* ===== verification/Tmux_Reader.thy ===== *)
theory Tmux_Reader
  imports Tmux_Parser
begin

text \<open>
  The reader thread of a tmux-backed Run (\<^verbatim>\<open>read_tmux_output\<close>, \<^verbatim>\<open>handle_tmux_control_item\<close> and \<^verbatim>\<open>handle_tmux_command_result\<close> of
  \<^verbatim>\<open>crates/ctxmux-daemon/src/lib.rs\<close>): lines are read and parsed one by one, and each item is applied to the Run until one of
  them ends the adapter.

  What the reader does to the Run is a log of effects.  \<open>sent\<close> tells, for the n-th item, whether writing a command that it
  provokes succeeds.  A termination is the error's code with the interruption reason.
\<close>

section \<open>Items\<close>

datatype tmux_effect =
    RecordOutput "byte list"
  | MarkSourceGap
  | PublishTmux tmux_run_event
  | PublishSourceGap
  | SignalReady

record tmux_reader =
  rd_control :: tmux_run_control
  rd_ready :: bool
  rd_handled :: nat
  rd_effects :: "tmux_effect list"

type_synonym tmux_termination = "error_code \<times> interruption_reason"

definition with_writer ::
  "(tmux_command_tracker \<Rightarrow> (string + bool) \<times> tmux_command_tracker) \<Rightarrow> tmux_run_control \<Rightarrow> (string + bool) \<times> tmux_run_control" where
  "with_writer f c =
     (case tr_writer c of
        None \<Rightarrow> (Inl ''tmux control client is closed'', c)
      | Some t \<Rightarrow> (let (r, t') = f t in (r, c\<lparr>tr_writer := Some t'\<rparr>)))"

definition effect :: "tmux_effect \<Rightarrow> tmux_reader \<Rightarrow> tmux_reader" where
  "effect e rd = rd\<lparr>rd_effects := rd_effects rd @ [e]\<rparr>"

definition protocol_or_unavailable :: "tmux_reader \<Rightarrow> interruption_reason" where
  "protocol_or_unavailable rd = (if rd_ready rd then TmuxProtocolError else TmuxServerUnavailable)"

definition write_or_fail :: "(string + bool) \<times> tmux_run_control \<Rightarrow> tmux_reader \<Rightarrow> tmux_termination option \<times> tmux_reader" where
  "write_or_fail answer rd =
     (case answer of (Inl _, c) \<Rightarrow> (Some (BackendUnavailable, TmuxServerUnavailable), rd\<lparr>rd_control := c\<rparr>) | (Inr _, c) \<Rightarrow> (None, rd\<lparr>rd_control := c\<rparr>))"

definition handle_tmux_command_result ::
  "tmux_pane_info \<Rightarrow> u64 \<Rightarrow> bool \<Rightarrow> byte list list \<Rightarrow> tmux_reader \<Rightarrow> tmux_termination option \<times> tmux_reader" where
  "handle_tmux_command_result target number success output rd0 =
     (case control_correlate_result number (rd_control rd0) of
        (Inl _, c) \<Rightarrow> (Some (BackendUnavailable, protocol_or_unavailable rd0), rd0\<lparr>rd_control := c\<rparr>)
      | (Inr kind, c) \<Rightarrow>
          (let rd = rd0\<lparr>rd_control := c\<rparr>
           in if kind = Bootstrap
              then (if success \<and> output = [] then (None, rd) else (Some (BackendUnavailable, TmuxServerUnavailable), rd))
              else if \<not> success then (Some (TargetChanged, TmuxTargetChanged), rd)
              else if kind = PendingResult TargetProbe
              then (case output of
                      [line] \<Rightarrow>
                        (case target_identity_matches target line of
                           Inr True \<Rightarrow> (None, if rd_ready rd then rd else effect SignalReady (rd\<lparr>rd_ready := True\<rparr>))
                         | Inr False \<Rightarrow> (Some (TargetChanged, TmuxTargetChanged), rd)
                         | Inl _ \<Rightarrow> (Some (BackendUnavailable, TmuxProtocolError), rd))
                    | _ \<Rightarrow> (Some (BackendUnavailable, TmuxProtocolError), rd))
              else if output \<noteq> [] then (Some (BackendUnavailable, TmuxProtocolError), rd)
              else (None, rd)))"

definition handle_tmux_control_item :: "tmux_pane_info \<Rightarrow> bool \<Rightarrow> control_item \<Rightarrow> tmux_reader \<Rightarrow> tmux_termination option \<times> tmux_reader" where
  "handle_tmux_control_item target sent item rd =
     (case item of
        ControlOutput pane_id data _ \<Rightarrow> (None, if pane_id = tp_pane_id target then effect (RecordOutput data) rd else rd)
      | ControlSessionChanged session_id \<Rightarrow>
          if session_id = tp_session_id target
          then write_or_fail (with_writer (establish_session_and_write sent TargetProbe) (rd_control rd)) rd
          else (Some (TargetChanged, TmuxTargetChanged), rd)
      | ControlResult number success output \<Rightarrow> handle_tmux_command_result target number success output rd
      | ControlSessionRenamed session_id name \<Rightarrow>
          (None, if session_id = tp_session_id target then effect (PublishTmux (SessionRenamed name)) rd else rd)
      | ControlWindowClosed window_id \<Rightarrow> (if window_id = tp_window_id target then Some (TargetChanged, TmuxTargetChanged) else None, rd)
      | ControlPaused pane_id \<Rightarrow>
          if pane_id = tp_pane_id target
          then write_or_fail (with_writer (write_command sent ContinuePane) (rd_control rd))
                 (effect PublishSourceGap (effect (PublishTmux Paused) (effect MarkSourceGap rd)))
          else (None, rd)
      | ControlContinued pane_id \<Rightarrow> (None, if pane_id = tp_pane_id target then effect (PublishTmux Continued) rd else rd)
      | ControlExit \<Rightarrow> (Some (BackendUnavailable, TmuxServerUnavailable), rd)
      | ControlNotification \<Rightarrow> (None, rd))"

definition handle_item :: "tmux_pane_info \<Rightarrow> (nat \<Rightarrow> bool) \<Rightarrow> control_item \<Rightarrow> tmux_reader \<Rightarrow> tmux_termination option \<times> tmux_reader" where
  "handle_item target sent item rd =
     (case handle_tmux_control_item target (sent (rd_handled rd)) item rd of (failure, rd') \<Rightarrow> (failure, rd'\<lparr>rd_handled := rd_handled rd + 1\<rparr>))"

section \<open>The reader loop\<close>

definition reader_bytes :: "buf_reader \<Rightarrow> nat" where
  "reader_bytes reader = sum_list (map (\<lambda>slice. case slice of Inl _ \<Rightarrow> 1 | Inr available \<Rightarrow> Suc (length available)) reader)"

lemma reader_bytes_simps [simp]:
  "reader_bytes [] = 0" "reader_bytes (Inl failure # reader) = Suc (reader_bytes reader)"
  "reader_bytes (Inr available # reader) = Suc (length available) + reader_bytes reader"
  by (simp_all add: reader_bytes_def)

lemma read_line_progress:
  "read_bounded_line front reader = (Inr (LineRead, line), reader') \<Longrightarrow> reader_bytes reader' < reader_bytes reader \<or> front \<noteq> [] \<and> reader' = reader"
proof (induction front reader rule: read_bounded_line.induct)
  case (3 front available reader)
  show ?case
  proof (cases "available = []")
    case True
    then show ?thesis using 3(2) by (auto split: if_splits)
  next
    case False
    let ?taken = "case position 10 available of None \<Rightarrow> length available | Some i \<Rightarrow> i + 1"
    have taken: "0 < ?taken" using False by (simp split: option.splits)
    let ?rest = "drop ?taken available"
    let ?consumed = "if ?rest = [] then reader else Inr ?rest # reader"
    have less: "reader_bytes ?consumed < reader_bytes (Inr available # reader)" using taken False by auto
    show ?thesis
    proof (cases "reader' = ?consumed")
      case True
      then show ?thesis using less by blast
    next
      case ne: False
      have "\<not> saturating_add (length front) ?taken > MAX_CONTROL_LINE_BYTES" "last (front @ take ?taken available) \<noteq> 10"
        "read_bounded_line (front @ take ?taken available) reader = (Inr (LineRead, line), reader')"
        using 3(2) False ne by (auto simp add: Let_def simp del: last_appendR split: if_splits)
      from 3(1) [OF False refl refl refl this(1) refl this(2,3)] show ?thesis by auto
    qed
  qed
qed (auto split: if_splits)


function read_tmux_output ::
  "tmux_pane_info \<Rightarrow> (nat \<Rightarrow> bool) \<Rightarrow> control_parser \<Rightarrow> buf_reader \<Rightarrow> tmux_reader \<Rightarrow> tmux_termination \<times> tmux_reader" where
  "read_tmux_output target sent parser reader rd =
     (case read_bounded_line [] reader of
        (Inl _, _) \<Rightarrow> ((BackendUnavailable, protocol_or_unavailable rd), rd)
      | (Inr (EofRead, _), _) \<Rightarrow>
          (case parser_finish parser of
             Inl _ \<Rightarrow> ((BackendUnavailable, protocol_or_unavailable rd), rd)
           | Inr _ \<Rightarrow> ((BackendUnavailable, TmuxServerUnavailable), rd))
      | (Inr (LineRead, line), reader') \<Rightarrow>
          (case parse_line parser line of
             Inl _ \<Rightarrow> ((BackendUnavailable, protocol_or_unavailable rd), rd)
           | Inr (None, parser') \<Rightarrow> read_tmux_output target sent parser' reader' rd
           | Inr (Some item, parser') \<Rightarrow>
               (case handle_item target sent item rd of
                  (Some failure, rd') \<Rightarrow> (failure, rd')
                | (None, rd') \<Rightarrow> read_tmux_output target sent parser' reader' rd')))"
  by pat_completeness auto

termination
proof (relation "measure (\<lambda>(target, sent, parser, reader, rd). reader_bytes reader)", goal_cases)
  case 1
  show ?case by simp
qed (auto dest: read_line_progress [OF sym])

declare read_tmux_output.simps [simp del]

section \<open>Fragmentation does not matter\<close>

text \<open>What the reader should do with the items themselves, with no bytes in between.\<close>

fun apply_items :: "tmux_pane_info \<Rightarrow> (nat \<Rightarrow> bool) \<Rightarrow> control_item list \<Rightarrow> tmux_reader \<Rightarrow> tmux_termination \<times> tmux_reader" where
  "apply_items target sent [] rd = ((BackendUnavailable, TmuxServerUnavailable), rd)"
| "apply_items target sent (item # items) rd =
     (case handle_item target sent item rd of (Some failure, rd') \<Rightarrow> (failure, rd') | (None, rd') \<Rightarrow> apply_items target sent items rd')"

lemma reader_of_lines:
  assumes "concat slices = framed lines" "list_all (\<lambda>s. s \<noteq> []) slices" "list_all line_ok lines" "parse_lines parse_line parser lines = Inr (items, None)"
  shows "read_tmux_output target sent parser (map Inr slices) rd = apply_items target sent items rd"
  using assms
proof (induction lines arbitrary: parser slices items rd)
  case Nil
  then have "slices = []" by (cases slices) (auto simp: framed_def)
  then show ?case using Nil.prems(4) by (subst read_tmux_output.simps) (simp add: parser_finish_def require_def)
next
  case (Cons line lines)
  have line: "line_ok line" using Cons.prems(3) by simp
  have "concat slices = line @ 10 # framed lines" using Cons.prems(1) by (simp add: framed_def)
  from read_line_slices [OF this Cons.prems(2), of "[]"] line obtain slices' where
    read: "read_bounded_line [] (map Inr slices) = (Inr (LineRead, line), map Inr slices')" "concat slices' = framed lines" "list_all (\<lambda>s. s \<noteq> []) slices'"
    using trim_line [OF line] by (auto simp: line_ok_def)
  obtain i parser' items' where p: "parse_line parser line = Inr (i, parser')" "parse_lines parse_line parser' lines = Inr (items', None)"
    "items = (case i of None \<Rightarrow> items' | Some x \<Rightarrow> x # items')"
    using Cons.prems(4) by (auto simp: and_then_def split: sum.splits prod.splits)
  have IH: "read_tmux_output target sent parser' (map Inr slices') rd' = apply_items target sent items' rd'" for rd'
    using Cons.IH [OF read(2,3) _ p(2)] Cons.prems(3) by simp
  show ?case using p(3) by (subst read_tmux_output.simps) (simp add: read(1) p(1) IH split: option.splits prod.splits)
qed

text \<open>The bytes of the target pane among the items.\<close>

fun pane_output :: "tmux_pane_info \<Rightarrow> control_item list \<Rightarrow> byte list" where
  "pane_output target [] = []"
| "pane_output target (ControlOutput pane data age # items) = (if pane = tp_pane_id target then data else []) @ pane_output target items"
| "pane_output target (_ # items) = pane_output target items"

definition recorded :: "tmux_reader \<Rightarrow> byte list" where
  "recorded rd = concat (map (\<lambda>e. case e of RecordOutput data \<Rightarrow> data | _ \<Rightarrow> []) (rd_effects rd))"

lemma recorded_effect [simp]: "recorded (effect e rd) = recorded rd @ (case e of RecordOutput data \<Rightarrow> data | _ \<Rightarrow> [])"
  by (simp add: recorded_def effect_def)

lemma recorded_cong [simp]:
  "recorded (rd\<lparr>rd_control := c\<rparr>) = recorded rd" "recorded (rd\<lparr>rd_ready := r\<rparr>) = recorded rd" "recorded (rd\<lparr>rd_handled := n\<rparr>) = recorded rd"
  by (simp_all add: recorded_def)

lemma recorded_write: "recorded (snd (write_or_fail answer rd)) = recorded rd"
  by (cases answer) (auto simp: write_or_fail_def split: sum.splits)

lemma recorded_result: "recorded (snd (handle_tmux_command_result target number success results rd)) = recorded rd"
  by (auto simp: handle_tmux_command_result_def Let_def split: prod.splits sum.splits list.splits bool.splits)

lemma recorded_item: "recorded (snd (handle_item target sent item rd)) = recorded rd @ pane_output target [item]"
  by (cases item) (auto simp: handle_item_def handle_tmux_control_item_def split_beta recorded_write recorded_result split: option.splits)

lemma handled_item: "rd_handled (snd (handle_item target sent item rd)) = rd_handled rd + 1"
  by (simp add: handle_item_def split_beta)

lemma pane_output_Cons: "pane_output target (item # items) = pane_output target [item] @ pane_output target items"
  by (cases item) simp_all

lemma apply_items_recorded:
  assumes "apply_items target sent items rd = (failure, rd')"
  shows "rd_handled rd \<le> rd_handled rd' \<and> rd_handled rd' \<le> rd_handled rd + length items
     \<and> recorded rd' = recorded rd @ pane_output target (take (rd_handled rd' - rd_handled rd) items)"
  using assms
proof (induction items arbitrary: rd)
  case (Cons item items)
  obtain outcome rd1 where h: "handle_item target sent item rd = (outcome, rd1)" by force
  have r1: "recorded rd1 = recorded rd @ pane_output target [item]" "rd_handled rd1 = rd_handled rd + 1"
    using recorded_item [of target sent item rd] handled_item [of target sent item rd] h by simp_all
  show ?case
  proof (cases outcome)
    case None
    then have "apply_items target sent items rd1 = (failure, rd')" using Cons.prems h by simp
    from Cons.IH [OF this] obtain k where k: "rd_handled rd' = rd_handled rd1 + k" "k \<le> length items" "recorded rd' = recorded rd1 @ pane_output target (take k items)"
      by (metis add_diff_cancel_left' le_iff_add nat_add_left_cancel_le)
    then show ?thesis using r1 pane_output_Cons [of target item "take k items"] by simp
  next
    case (Some f)
    then show ?thesis using Cons.prems h r1 by simp
  qed
qed auto



text \<open>One output notification with a newline in its data, cut inside the keyword and inside the escape.\<close>

definition sample_pane :: tmux_pane_info where
  "sample_pane = \<lparr>tp_socket_path = [], tp_tmux_version = ascii ''3.4'', tp_server_pid = 1, tp_server_started_at = 1, tp_session_id = ascii ''$0'',
     tp_window_id = ascii ''@0'', tp_pane_id = ascii ''%1'', tp_pane_pid = 2, tp_size = \<lparr>rows = 24, cols = 80\<rparr>\<rparr>"

definition sample_reader :: tmux_reader where
  "sample_reader = \<lparr>rd_control = \<lparr>tr_writer = Some tracker_default, tr_completion = CompletionDone (Inr ())\<rparr>, rd_ready = True, rd_handled = 0, rd_effects = []\<rparr>"


end
