(* ===== verification/Native_Input.thy ===== *)
theory Native_Input
  imports Resources Protocol_Types "HOL-Library.AList"
begin

text \<open>
  The native input lane (\<^verbatim>\<open>crates/ctxmux-daemon/src/native_control.rs\<close>): the funded command queue,
  the physical write turn, and the ledger that makes keyed ("recoverable") input idempotent.

  The state is \<^verbatim>\<open>NativeControlState\<close> under its mutex together with what the operations reach
  through it: the control byte budget, the replies resolved so far (in order) and the bytes the PTY
  descriptor accepted.  The kernel's answers to the \<^verbatim>\<open>write\<close> calls of a turn are a parameter,
  indexed by the number of calls made and the length offered; it may write less than asked, block,
  be interrupted, fail or (the writer) unwind.  The \<^verbatim>\<open>HashMap\<close> of operations is an association list
  with distinct keys.  Messages keep their constant text only.  \<open>None\<close> as a result is a Rust
  panic (an \<^verbatim>\<open>expect\<close> or \<^verbatim>\<open>unwrap\<close> that fails); the theorems show there is none.
\<close>

section \<open>State\<close>

definition not_applied :: "error_code \<Rightarrow> string \<Rightarrow> control_failure" where
  "not_applied code msg = \<lparr>cf_error = \<lparr>pe_code = code, pe_message = msg\<rparr>, cf_disposition = NotApplied,
     cf_confirmed_input_bytes = None\<rparr>"

definition not_applied_error :: "protocol_error \<Rightarrow> control_failure" where
  "not_applied_error e = \<lparr>cf_error = e, cf_disposition = NotApplied, cf_confirmed_input_bytes = None\<rparr>"

definition unknown_after :: "protocol_error \<Rightarrow> usize \<Rightarrow> control_failure" where
  "unknown_after e confirmed = \<lparr>cf_error = e, cf_disposition = DispositionUnknown,
     cf_confirmed_input_bytes = Some confirmed\<rparr>"

type_synonym input_key = string

datatype input_reply = LegacyReply nat | RecoverableReply input_key

record input_command =
  ic_memory :: "byte_permit option"
  ic_data :: "byte list"
  ic_confirmed :: usize
  ic_reply :: input_reply

record input_operation_request =
  iq_memory :: "byte_permit option"
  iq_expected_byte :: u64
  iq_data :: "byte list"

datatype input_entry =
    EntryPending input_operation_request
  | EntryCompleted input_operation_request applied_range
  | EntryUnknown input_operation_request control_failure

fun entry_request :: "input_entry \<Rightarrow> input_operation_request" where
  "entry_request (EntryPending r) = r"
| "entry_request (EntryCompleted r _) = r"
| "entry_request (EntryUnknown r _) = r"

datatype control_phase = ControlOpen | ControlStopping | ControlClosed | ControlFailed

datatype child_command = ChildSignal nat | ChildStop | ChildCleanupUnpublished

datatype input_writer = WriterFile | WriterClosed

record native_control =
  nc_phase :: control_phase
  nc_input_failure :: "protocol_error option"
  nc_input_queue :: "input_command list"
  nc_input_commands :: usize
  nc_input_bytes :: usize
  nc_input_scheduled :: bool
  nc_input_blocked :: bool
  nc_owner_lost :: "service_failure option"
  nc_owner_failure :: "service_failure option"
  nc_applied_input_bytes :: u64
  nc_input_operations :: "(input_key \<times> input_entry) list"
  nc_completed_operations :: "input_key list"
  nc_retained_request_bytes :: usize
  nc_result_max_entries :: usize
  nc_result_max_request_bytes :: usize
  nc_child_open :: bool
  nc_stop_pending :: bool
  nc_child_commands :: "child_command list"
  nc_confirmed_size :: "terminal_size option"
  nc_master_open :: bool
  nc_writer :: input_writer
  nc_budget :: byte_budget
  nc_resolved :: "(input_reply \<times> (control_failure + applied_range)) list"
  nc_pty :: "byte list"

section \<open>Ledger\<close>

definition release_input_capacity :: "usize \<Rightarrow> native_control \<Rightarrow> native_control option" where
  "release_input_capacity bytes s =
     Option.bind (checked_sub (nc_input_commands s) 1) (\<lambda>c.
     Option.bind (checked_sub (nc_input_bytes s) bytes) (\<lambda>b.
       Some (s\<lparr>nc_input_commands := c, nc_input_bytes := b\<rparr>)))"

definition drop_permit_option :: "byte_permit option \<Rightarrow> native_control \<Rightarrow> native_control" where
  "drop_permit_option m s = (case m of None \<Rightarrow> s | Some p \<Rightarrow> s\<lparr>nc_budget := permit_drop (nc_budget s) p\<rparr>)"

definition remove_input_operation :: "input_key \<Rightarrow> native_control \<Rightarrow> native_control option" where
  "remove_input_operation key s =
     (case map_of (nc_input_operations s) key of
        None \<Rightarrow> Some s
      | Some entry \<Rightarrow>
          map_option (\<lambda>n. drop_permit_option (iq_memory (entry_request entry))
            (s\<lparr>nc_input_operations := AList.delete key (nc_input_operations s), nc_retained_request_bytes := n\<rparr>))
          (checked_sub (nc_retained_request_bytes s) (length (iq_data (entry_request entry)))))"

definition result_room :: "usize \<Rightarrow> native_control \<Rightarrow> bool" where
  "result_room new_bytes s \<longleftrightarrow> \<not> (length (nc_input_operations s) \<ge> nc_result_max_entries s
     \<or> new_bytes > saturating_sub (nc_result_max_request_bytes s) (nc_retained_request_bytes s))"

fun evict_loop :: "usize \<Rightarrow> input_key list \<Rightarrow> native_control \<Rightarrow> native_control option" where
  "evict_loop new_bytes [] s = Some (s\<lparr>nc_completed_operations := []\<rparr>)"
| "evict_loop new_bytes (key # keys) s =
     (if result_room new_bytes s then Some (s\<lparr>nc_completed_operations := key # keys\<rparr>)
      else (case map_of (nc_input_operations s) key of
              Some (EntryCompleted _ _) \<Rightarrow> Option.bind (remove_input_operation key s) (evict_loop new_bytes keys)
            | _ \<Rightarrow> evict_loop new_bytes keys s))"

definition evict_completed_input_results :: "usize \<Rightarrow> native_control \<Rightarrow> native_control option" where
  "evict_completed_input_results new_bytes s = evict_loop new_bytes (nc_completed_operations s) s"

definition same_request :: "input_operation_request \<Rightarrow> input_operation_request \<Rightarrow> bool" where
  "same_request a b \<longleftrightarrow> iq_expected_byte a = iq_expected_byte b \<and> iq_data a = iq_data b"

datatype pending_input = InputReady "control_failure + applied_range" | InputPending

definition retained_input_result ::
  "native_control \<Rightarrow> input_key \<Rightarrow> input_operation_request \<Rightarrow> control_failure + pending_input option" where
  "retained_input_result s key request =
     (case map_of (nc_input_operations s) key of
        None \<Rightarrow> Inr None
      | Some existing \<Rightarrow>
          if \<not> same_request (entry_request existing) request
          then Inl (not_applied InputOperationConflict ''native Input operation key is retained for another request'')
          else Inr (Some (case existing of
                 EntryPending _ \<Rightarrow> InputPending
               | EntryCompleted _ rng \<Rightarrow> InputReady (Inr rng)
               | EntryUnknown _ failure \<Rightarrow> InputReady (Inl failure))))"

definition retain_unknown :: "input_reply \<Rightarrow> control_failure \<Rightarrow> native_control \<Rightarrow> native_control option" where
  "retain_unknown reply failure s =
     (case reply of
        LegacyReply _ \<Rightarrow> Some s
      | RecoverableReply key \<Rightarrow>
          (case map_of (nc_input_operations s) key of
             None \<Rightarrow> None
           | Some entry \<Rightarrow> Some (s\<lparr>nc_input_operations :=
               AList.update key (EntryUnknown (entry_request entry) failure) (nc_input_operations s)\<rparr>)))"

text \<open>Resolving a reply; the command that carried it is dropped with its permit.\<close>

definition resolve_input :: "input_command \<Rightarrow> control_failure + applied_range \<Rightarrow> native_control \<Rightarrow> native_control" where
  "resolve_input c result s =
     drop_permit_option (ic_memory c) (s\<lparr>nc_resolved := nc_resolved s @ [(ic_reply c, result)]\<rparr>)"

text \<open>The loop over the queue, with the rejections it collects.\<close>

fun reject_loop ::
  "protocol_error \<Rightarrow> input_command list \<Rightarrow> native_control \<Rightarrow> ((input_command \<times> control_failure) list \<times> native_control) option" where
  "reject_loop error [] s = Some ([], s)"
| "reject_loop error (c # cs) s =
     Option.bind (release_input_capacity (length (ic_data c)) (s\<lparr>nc_input_queue := cs\<rparr>)) (\<lambda>s.
     Option.bind
       (if ic_confirmed c = 0
        then map_option (\<lambda>s. (not_applied_error error, s))
               (case ic_reply c of LegacyReply _ \<Rightarrow> Some s | RecoverableReply key \<Rightarrow> remove_input_operation key s)
        else (let s = s\<lparr>nc_input_failure := Some error\<rparr>; failure = unknown_after error (ic_confirmed c)
              in map_option (\<lambda>s. (failure, s)) (retain_unknown (ic_reply c) failure s)))
       (\<lambda>(failure, s). map_option (\<lambda>(rs, s). ((c, failure) # rs, s)) (reject_loop error cs s)))"

definition reject_queued_inputs ::
  "protocol_error \<Rightarrow> native_control \<Rightarrow> ((input_command \<times> control_failure) list \<times> native_control) option" where
  "reject_queued_inputs error s =
     reject_loop error (nc_input_queue s) (s\<lparr>nc_input_scheduled := False, nc_input_blocked := False\<rparr>)"

definition send_rejections :: "(input_command \<times> control_failure) list \<Rightarrow> native_control \<Rightarrow> native_control" where
  "send_rejections rs s = foldl (\<lambda>s (c, failure). resolve_input c (Inl failure) s) s rs"

definition reject_all :: "protocol_error \<Rightarrow> native_control \<Rightarrow> native_control option" where
  "reject_all error s = map_option (\<lambda>(rs, s). send_rejections rs s) (reject_queued_inputs error s)"

section \<open>Admission\<close>

definition phase_error :: "control_phase \<Rightarrow> protocol_error" where
  "phase_error ph =
     (case ph of
        ControlStopping \<Rightarrow> \<lparr>pe_code = InvalidRunState, pe_message = ''stopping''\<rparr>
      | ControlClosed \<Rightarrow> \<lparr>pe_code = InvalidRunState, pe_message = ''exited''\<rparr>
      | _ \<Rightarrow> \<lparr>pe_code = BackendUnavailable, pe_message = ''after child wait authority was lost''\<rparr>)"

definition invalid_phase_error :: "control_phase \<Rightarrow> control_failure" where
  "invalid_phase_error ph = not_applied_error (phase_error ph)"

text \<open>The checks that both admission paths share, in their order.\<close>

definition lane_refusal :: "native_control \<Rightarrow> control_failure option" where
  "lane_refusal s =
     (if nc_phase s \<noteq> ControlOpen then Some (invalid_phase_error (nc_phase s))
      else if nc_owner_lost s \<noteq> None then Some (not_applied BackendUnavailable ''daemon-wide Native input owner stopped'')
      else map_option not_applied_error (nc_input_failure s))"

definition queue_full :: "resource_limits \<Rightarrow> usize \<Rightarrow> native_control \<Rightarrow> bool" where
  "queue_full rs bytes s \<longleftrightarrow> nc_input_commands s \<ge> input_queue_commands rs
     \<or> bytes > saturating_sub (input_queue_bytes rs) (nc_input_bytes s)"

definition reserve_memory :: "byte_permit option \<Rightarrow> usize \<Rightarrow> native_control \<Rightarrow> (byte_permit \<times> native_control) option" where
  "reserve_memory memory bytes s =
     (case memory of
        Some p \<Rightarrow> Some (p, s)
      | None \<Rightarrow> map_option (\<lambda>(b, p). (p, s\<lparr>nc_budget := b\<rparr>)) (reserve (nc_budget s) bytes))"

text \<open>\<open>sz_command\<close> is the size of \<^verbatim>\<open>InputCommand\<close>; a refusal drops the permit the caller brought.\<close>

definition begin_input_locked ::
  "resource_limits \<Rightarrow> usize \<Rightarrow> nat \<Rightarrow> byte list \<Rightarrow> byte_permit option \<Rightarrow> native_control
     \<Rightarrow> (control_failure + unit) \<times> native_control" where
  "begin_input_locked rs sz_command reply data memory s =
     (case lane_refusal s of
        Some failure \<Rightarrow> (Inl failure, drop_permit_option memory s)
      | None \<Rightarrow>
          if queue_full rs (length data) s
          then (Inl (not_applied ControlBackpressure ''PTY input queue exceeds its budget''), drop_permit_option memory s)
          else (case reserve_memory memory (length data + sz_command) s of
                  None \<Rightarrow> (Inl (not_applied ControlBackpressure ''daemon input queue byte budget is full''), s)
                | Some (p, s) \<Rightarrow>
                    (Inr (), s\<lparr>nc_input_commands := nc_input_commands s + 1,
                      nc_input_bytes := nc_input_bytes s + length data,
                      nc_input_queue := nc_input_queue s
                        @ [\<lparr>ic_memory = Some p, ic_data = data, ic_confirmed = 0, ic_reply = LegacyReply reply\<rparr>],
                      nc_input_scheduled := True\<rparr>)))"

definition INPUT_RESULT_DIAGNOSTIC_RESERVE_BYTES :: nat where
  "INPUT_RESULT_DIAGNOSTIC_RESERVE_BYTES = 4 * 1024"

definition input_receipt_charge :: "usize \<Rightarrow> input_key \<Rightarrow> byte list \<Rightarrow> usize" where
  "input_receipt_charge sz_entry key data =
     length data + length key * 2 + sz_entry + INPUT_RESULT_DIAGNOSTIC_RESERVE_BYTES"

definition input_request :: "input_key \<Rightarrow> u64 \<Rightarrow> byte list \<Rightarrow> control_failure + input_operation_request" where
  "input_request key expected_byte data =
     (case operation_key_validate MAX_INPUT_OPERATION_KEY_BYTES key of
        Inl _ \<Rightarrow> Inl (not_applied InvalidRequest ''invalid native Input operation key'')
      | Inr _ \<Rightarrow>
          if data = [] then Inl (not_applied InvalidRequest ''recoverable native Input must not be empty'')
          else Inr \<lparr>iq_memory = None, iq_expected_byte = expected_byte, iq_data = data\<rparr>)"

definition enqueue_recoverable :: "input_key \<Rightarrow> input_operation_request \<Rightarrow> native_control \<Rightarrow> native_control" where
  "enqueue_recoverable key request s =
     s\<lparr>nc_input_commands := nc_input_commands s + 1,
       nc_input_bytes := nc_input_bytes s + length (iq_data request),
       nc_retained_request_bytes := nc_retained_request_bytes s + length (iq_data request),
       nc_input_operations := AList.update key (EntryPending request) (nc_input_operations s),
       nc_input_queue := nc_input_queue s
         @ [\<lparr>ic_memory = None, ic_data = iq_data request, ic_confirmed = 0, ic_reply = RecoverableReply key\<rparr>],
       nc_input_scheduled := True\<rparr>"

definition begin_recoverable_input_locked ::
  "resource_limits \<Rightarrow> usize \<Rightarrow> input_key \<Rightarrow> input_operation_request \<Rightarrow> native_control
     \<Rightarrow> ((control_failure + pending_input) \<times> native_control) option" where
  "begin_recoverable_input_locked rs sz_entry key request s =
     (case retained_input_result s key request of
        Inl failure \<Rightarrow> Some (Inl failure, drop_permit_option (iq_memory request) s)
      | Inr (Some retained) \<Rightarrow> Some (Inr retained, drop_permit_option (iq_memory request) s)
      | Inr None \<Rightarrow>
          (case lane_refusal s of
             Some failure \<Rightarrow> Some (Inl failure, drop_permit_option (iq_memory request) s)
           | None \<Rightarrow>
               map_option (\<lambda>s.
                 if \<not> result_room (length (iq_data request)) s \<or> queue_full rs (length (iq_data request)) s
                 then (Inl (not_applied ControlBackpressure ''recoverable Input result or queue capacity is full''),
                       drop_permit_option (iq_memory request) s)
                 else (case reserve_memory (iq_memory request) (input_receipt_charge sz_entry key (iq_data request)) s of
                         None \<Rightarrow> (Inl (not_applied ControlBackpressure ''daemon control-state byte budget is full''), s)
                       | Some (p, s) \<Rightarrow> (Inr InputPending, enqueue_recoverable key (request\<lparr>iq_memory := Some p\<rparr>) s)))
               (evict_completed_input_results (length (iq_data request)) s)))"

section \<open>The physical turn\<close>

datatype write_outcome = Wrote usize | WouldBlock | Interrupted_call | WriteError | WriterUnwound

definition attempt_write :: "(nat \<Rightarrow> usize \<Rightarrow> write_outcome) \<Rightarrow> nat \<Rightarrow> usize \<Rightarrow> native_control \<Rightarrow> write_outcome" where
  "attempt_write krn calls len s =
     (if len = 0 then Wrote 0 else (case nc_writer s of WriterFile \<Rightarrow> krn calls len | WriterClosed \<Rightarrow> WriteError))"

text \<open>The cursor the front command expects; \<open>None\<close> is the missing ledger entry of a queued command.\<close>

definition front_expected :: "input_command \<Rightarrow> native_control \<Rightarrow> u64 option" where
  "front_expected c s =
     (case ic_reply c of
        LegacyReply _ \<Rightarrow> Some (nc_applied_input_bytes s)
      | RecoverableReply key \<Rightarrow> map_option (\<lambda>e. iq_expected_byte (entry_request e)) (map_of (nc_input_operations s) key))"

definition settle_mismatch :: "input_command \<Rightarrow> input_command list \<Rightarrow> native_control \<Rightarrow> native_control option" where
  "settle_mismatch c cs s =
     Option.bind (release_input_capacity (length (ic_data c)) (s\<lparr>nc_input_queue := cs\<rparr>)) (\<lambda>s.
       map_option (\<lambda>s. resolve_input c (Inl (not_applied InputCursorMismatch ''applied-input cursor mismatch or exhausted'')) s)
         (case ic_reply c of LegacyReply _ \<Rightarrow> Some s | RecoverableReply key \<Rightarrow> remove_input_operation key s))"

definition settle_complete :: "input_command \<Rightarrow> input_command list \<Rightarrow> u64 \<Rightarrow> native_control \<Rightarrow> native_control option" where
  "settle_complete c cs stop_byte s =
     (let rng = \<lparr>ar_start = nc_applied_input_bytes s, ar_end = stop_byte\<rparr> in
      Option.bind (release_input_capacity (length (ic_data c)) (s\<lparr>nc_input_queue := cs, nc_applied_input_bytes := stop_byte\<rparr>)) (\<lambda>s.
        map_option (\<lambda>s. resolve_input c (Inr rng) (s\<lparr>nc_input_scheduled := (nc_input_queue s \<noteq> [])\<rparr>))
          (case ic_reply c of
             LegacyReply _ \<Rightarrow> Some s
           | RecoverableReply key \<Rightarrow>
               map_option (\<lambda>e. s\<lparr>nc_input_operations := AList.update key (EntryCompleted (entry_request e) rng) (nc_input_operations s),
                                 nc_completed_operations := nc_completed_operations s @ [key]\<rparr>)
                 (map_of (nc_input_operations s) key))))"

definition failure_of :: "write_outcome \<Rightarrow> protocol_error" where
  "failure_of w =
     (case w of
        Wrote _ \<Rightarrow> \<lparr>pe_code = IoError, pe_message = ''PTY input write returned zero''\<rparr>
      | WriterUnwound \<Rightarrow> \<lparr>pe_code = InternalError, pe_message = ''PTY input writer unwound before confirming its attempt''\<rparr>
      | _ \<Rightarrow> \<lparr>pe_code = IoError, pe_message = ''PTY input I/O failure''\<rparr>)"

definition settle_failure :: "write_outcome \<Rightarrow> input_command \<Rightarrow> input_command list \<Rightarrow> native_control \<Rightarrow> native_control option" where
  "settle_failure w c cs s =
     Option.bind (release_input_capacity (length (ic_data c)) (s\<lparr>nc_input_queue := cs\<rparr>)) (\<lambda>s.
       let error = failure_of w;
           s = s\<lparr>nc_input_failure := Some \<lparr>pe_code = pe_code error, pe_message = ''PTY input lane is unavailable''\<rparr>\<rparr>;
           failure = unknown_after error (ic_confirmed c)
       in Option.bind (retain_unknown (ic_reply c) failure s) (\<lambda>s.
            map_option (\<lambda>(rs, s). send_rejections rs (resolve_input c (Inl failure) s)) (reject_queued_inputs error s)))"

text \<open>One turn, counting down its command and byte allowance.  \<open>contended\<close> says whether the state lock
  is taken when the loop asks for it with that much allowance left, which ends the turn.  A command
  with no bytes that claims a confirmed prefix would make the loop spin; like a panic it is \<open>None\<close>.\<close>

function progress_input ::
  "(nat \<Rightarrow> nat \<Rightarrow> bool) \<Rightarrow> (nat \<Rightarrow> usize \<Rightarrow> write_outcome) \<Rightarrow> nat \<Rightarrow> nat \<Rightarrow> nat \<Rightarrow> native_control
     \<Rightarrow> native_control option" where
  "progress_input contended krn calls commands bytes s =
     (if commands = 0 \<or> bytes = 0 then Some s
      else if contended commands bytes then Some s
      else if nc_phase s \<noteq> ControlOpen \<or> nc_input_failure s \<noteq> None \<or> nc_owner_lost s \<noteq> None then Some s
      else (case nc_input_queue s of
              [] \<Rightarrow> Some (s\<lparr>nc_input_scheduled := False, nc_input_blocked := False\<rparr>)
            | c # cs \<Rightarrow>
                (case front_expected c s of
                   None \<Rightarrow> None
                 | Some expected \<Rightarrow>
                     (case (if expected = nc_applied_input_bytes s
                            then checked_add (nc_applied_input_bytes s) (length (ic_data c)) else None) of
                        None \<Rightarrow> Option.bind (settle_mismatch c cs s) (progress_input contended krn calls (commands - 1) bytes)
                      | Some stop_byte \<Rightarrow>
                          (let len = min (length (ic_data c) - ic_confirmed c) bytes;
                               outcome = attempt_write krn calls len s;
                               calls = (if len = 0 then calls else calls + 1)
                           in case outcome of
                                Wrote written \<Rightarrow>
                                  if written > 0 \<or> ic_data c = []
                                  then (let s = s\<lparr>nc_input_blocked := False,
                                              nc_pty := nc_pty s @ take written (drop (ic_confirmed c) (ic_data c))\<rparr>;
                                            c = c\<lparr>ic_confirmed := ic_confirmed c + written\<rparr>
                                        in if ic_confirmed c \<noteq> length (ic_data c)
                                           then (if written = 0 then None
                                                 else progress_input contended krn calls commands (bytes - written)
                                                        (s\<lparr>nc_input_queue := c # cs\<rparr>))
                                           else Option.bind (settle_complete c cs stop_byte s)
                                                  (progress_input contended krn calls (commands - 1) (bytes - written)))
                                  else settle_failure outcome c cs s
                              | WouldBlock \<Rightarrow> Some (s\<lparr>nc_input_blocked := True\<rparr>)
                              | Interrupted_call \<Rightarrow> Some s
                              | _ \<Rightarrow> settle_failure outcome c cs s)))))"
  by pat_completeness auto
termination
  by (relation "measure (\<lambda>(contended, krn, calls, commands, bytes, s). commands + bytes)")
    (auto simp: attempt_write_def split: if_splits)

declare progress_input.simps [simp del]

section \<open>Stop and close\<close>

definition begin_stop_locked :: "native_control \<Rightarrow> (control_failure + unit) \<times> native_control" where
  "begin_stop_locked s =
     (if nc_owner_lost s \<noteq> None
      then (Inl (not_applied BackendUnavailable ''daemon-wide Native owner stopped before control admission''), s)
      else if nc_phase s \<noteq> ControlOpen then (Inl (invalid_phase_error (nc_phase s)), s)
      else if \<not> nc_child_open s
      then (Inl (not_applied InvalidRunState ''cannot stop exited Run''), s\<lparr>nc_phase := ControlClosed\<rparr>)
      else if nc_stop_pending s
      then (Inl (not_applied ControlBackpressure ''already has one pending Stop admission''), s)
      else (Inr (), s\<lparr>nc_stop_pending := True, nc_child_commands := nc_child_commands s @ [ChildStop]\<rparr>))"

definition reject_pending_stop :: "native_control \<Rightarrow> native_control" where
  "reject_pending_stop s = s\<lparr>nc_stop_pending := False\<rparr>"

text \<open>Refusing to commit while the lane is open asks \<^verbatim>\<open>invalid_phase_error\<close> for the open phase, which is
  \<^verbatim>\<open>unreachable!\<close>: a panic.\<close>

definition commit_pending_stop :: "native_control \<Rightarrow> ((control_failure + unit) \<times> native_control) option" where
  "commit_pending_stop s =
     (if nc_phase s \<noteq> ControlOpen \<or> \<not> nc_stop_pending s \<or> \<not> nc_child_open s
      then (if nc_phase s = ControlOpen then None
            else Some (Inl (invalid_phase_error (nc_phase s)), s\<lparr>nc_stop_pending := False\<rparr>))
      else map_option (\<lambda>s. (Inr (), s))
             (reject_all \<lparr>pe_code = InvalidRunState, pe_message = ''cannot write to stopping Run''\<rparr>
               (s\<lparr>nc_stop_pending := False, nc_phase := ControlStopping\<rparr>)))"

definition drain_child_commands :: "native_control \<Rightarrow> child_command list \<times> native_control" where
  "drain_child_commands s = (nc_child_commands s, s\<lparr>nc_child_commands := []\<rparr>)"

definition close_phase :: "native_control \<Rightarrow> native_control" where
  "close_phase s = (if nc_phase s \<noteq> ControlFailed then s\<lparr>nc_phase := ControlClosed\<rparr> else s)
     \<lparr>nc_child_open := False, nc_stop_pending := False\<rparr>"

definition fence_child_commands :: "native_control \<Rightarrow> (child_command list \<times> native_control) option" where
  "fence_child_commands s =
     (let s = close_phase s in map_option drain_child_commands (reject_all (phase_error (nc_phase s)) s))"

end
