(* ===== verification/Input_Ledger.thy ===== *)
theory Input_Ledger
  imports Native_Input
begin

text \<open>
  What the native input lane (\<open>Native_Input\<close>) promises.  The invariant \<open>input_ok\<close> ties the queue's
  counters, the ledger of keyed operations and the bytes on the wire together; every operation of the
  lane keeps it and none panics under it.  On top of it: a write turn settles commands in order and
  puts every accepted byte on the wire exactly once (C27), a keyed request is applied at most once
  however often it is repeated (C28).
\<close>

section \<open>The ledger's accounts\<close>

definition op_bytes :: "(input_key \<times> input_entry) list \<Rightarrow> nat" where
  "op_bytes ops = sum_list (map (\<lambda>(k, e). length (iq_data (entry_request e))) ops)"

lemma op_bytes_delete:
  "distinct (map fst ops) \<Longrightarrow> map_of ops k = Some e \<Longrightarrow>
     op_bytes (AList.delete k ops) + length (iq_data (entry_request e)) = op_bytes ops"
proof (induction ops)
  case (Cons a ops)
  obtain k' e' where a: "a = (k', e')" by fastforce
  show ?case
  proof (cases "k = k'")
    case True
    then have "AList.delete k ops = ops" using Cons.prems(1) a by (simp add: AList.delete_id)
    then show ?thesis using True Cons.prems(2) a by (simp add: op_bytes_def)
  next
    case False
    then show ?thesis using Cons a by (simp add: op_bytes_def)
  qed
qed simp

lemma op_bytes_update_new: "k \<notin> fst ` set ops \<Longrightarrow> op_bytes (AList.update k e ops) = op_bytes ops + length (iq_data (entry_request e))"
  by (induction ops) (auto simp: op_bytes_def)

lemma op_bytes_update_same:
  "map_of ops k = Some e \<Longrightarrow> iq_data (entry_request e') = iq_data (entry_request e) \<Longrightarrow>
     op_bytes (AList.update k e' ops) = op_bytes ops"
  by (induction ops) (auto simp: op_bytes_def split: if_splits)

lemma length_update_same: "map_of ops k = Some e \<Longrightarrow> length (AList.update k e' ops) = length ops"
  by (induction ops) (auto split: if_splits)

lemma length_update_new: "k \<notin> fst ` set ops \<Longrightarrow> length (AList.update k e ops) = Suc (length ops)"
  by (induction ops) auto

lemma map_of_None_iff: "map_of ops k = None \<longleftrightarrow> k \<notin> fst ` set ops"
  by (rule map_of_eq_None_iff)

definition queue_keys :: "input_command list \<Rightarrow> input_key list" where
  "queue_keys q = List.map_filter (\<lambda>c. case ic_reply c of LegacyReply _ \<Rightarrow> None | RecoverableReply k \<Rightarrow> Some k) q"

lemma queue_keys_simps [simp]:
  "queue_keys [] = []"
  "queue_keys (c # q) = (case ic_reply c of LegacyReply _ \<Rightarrow> [] | RecoverableReply k \<Rightarrow> [k]) @ queue_keys q"
  "queue_keys (p @ q) = queue_keys p @ queue_keys q"
  by (auto simp: queue_keys_def List.map_filter_def split: input_reply.splits)

text \<open>The bytes of the front command already on the wire.\<close>

fun partial_bytes :: "input_command list \<Rightarrow> byte list" where
  "partial_bytes [] = []"
| "partial_bytes (c # _) = take (ic_confirmed c) (ic_data c)"

lemma queue_keys_member: "c \<in> set q \<Longrightarrow> ic_reply c = RecoverableReply k \<Longrightarrow> k \<in> set (queue_keys q)"
  by (induction q) auto

section \<open>The invariant\<close>

text \<open>Ledger, queue and completion order: the pending entries are exactly the queued keyed commands,
  the completed ones exactly the keys in completion order, and the byte count is exact.\<close>

definition ledger :: "(input_key \<times> input_entry) list \<Rightarrow> input_command list \<Rightarrow> input_key list \<Rightarrow> nat \<Rightarrow> bool" where
  "ledger ops q done_keys n \<longleftrightarrow> distinct (map fst ops) \<and> n = op_bytes ops
     \<and> distinct (queue_keys q)
     \<and> (\<forall>k. k \<in> set (queue_keys q) \<longleftrightarrow> (\<exists>r. map_of ops k = Some (EntryPending r)))
     \<and> (\<forall>c\<in>set q. \<forall>k. ic_reply c = RecoverableReply k \<longrightarrow>
          (\<exists>r. map_of ops k = Some (EntryPending r) \<and> iq_data r = ic_data c))
     \<and> distinct done_keys
     \<and> (\<forall>k. k \<in> set done_keys \<longleftrightarrow> (\<exists>r rng. map_of ops k = Some (EntryCompleted r rng)))"

definition queue_ok :: "native_control \<Rightarrow> bool" where
  "queue_ok s \<longleftrightarrow> nc_input_commands s = length (nc_input_queue s)
     \<and> nc_input_bytes s = sum_list (map (\<lambda>c. length (ic_data c)) (nc_input_queue s))
     \<and> (\<forall>c\<in>set (tl (nc_input_queue s)). ic_confirmed c = 0)"

definition ledger_ok :: "native_control \<Rightarrow> bool" where
  "ledger_ok s \<longleftrightarrow> ledger (nc_input_operations s) (nc_input_queue s) (nc_completed_operations s) (nc_retained_request_bytes s)"

text \<open>A retained receipt names the bytes it wrote; \<open>origin\<close> is the cursor at which this
  incarnation's descriptor started (receipts before it were written by a predecessor).\<close>

definition receipt_ok :: "u64 \<Rightarrow> u64 \<Rightarrow> byte list \<Rightarrow> input_operation_request \<Rightarrow> applied_range \<Rightarrow> bool" where
  "receipt_ok origin applied pty r rng \<longleftrightarrow>
     ar_start rng = iq_expected_byte r \<and> ar_end rng = ar_start rng + length (iq_data r)
     \<and> ar_end rng \<le> applied
     \<and> (origin \<le> ar_start rng \<longrightarrow> take (length (iq_data r)) (drop (ar_start rng - origin) pty) = iq_data r)"

definition history_ok :: "u64 \<Rightarrow> u64 \<Rightarrow> byte list \<Rightarrow> (input_key \<times> input_entry) list \<Rightarrow> bool" where
  "history_ok origin applied pty ops \<longleftrightarrow>
     (\<forall>k r rng. map_of ops k = Some (EntryCompleted r rng) \<longrightarrow> receipt_ok origin applied pty r rng)"

fun front_ok :: "native_control \<Rightarrow> input_command list \<Rightarrow> bool" where
  "front_ok s [] = True"
| "front_ok s (c # cs) \<longleftrightarrow> ic_confirmed c = 0
     \<or> ic_confirmed c < length (ic_data c) \<and> front_expected c s = Some (nc_applied_input_bytes s)
       \<and> nc_applied_input_bytes s + length (ic_data c) \<le> U64_MAX"

definition wire_ok :: "u64 \<Rightarrow> native_control \<Rightarrow> bool" where
  "wire_ok origin s \<longleftrightarrow> origin \<le> nc_applied_input_bytes s \<and> nc_applied_input_bytes s \<le> U64_MAX
     \<and> nc_applied_input_bytes s - origin \<le> length (nc_pty s)
     \<and> (if nc_input_failure s = None
         then drop (nc_applied_input_bytes s - origin) (nc_pty s) = partial_bytes (nc_input_queue s)
         else nc_input_queue s = [])
     \<and> front_ok s (nc_input_queue s)
     \<and> history_ok origin (nc_applied_input_bytes s) (nc_pty s) (nc_input_operations s)"

definition input_ok :: "u64 \<Rightarrow> native_control \<Rightarrow> bool" where
  "input_ok origin s \<longleftrightarrow> queue_ok s \<and> ledger_ok s \<and> wire_ok origin s"

lemma drop_permit_frame [simp]:
  "nc_input_queue (drop_permit_option m s) = nc_input_queue s" "nc_input_commands (drop_permit_option m s) = nc_input_commands s"
  "nc_input_bytes (drop_permit_option m s) = nc_input_bytes s" "nc_input_operations (drop_permit_option m s) = nc_input_operations s"
  "nc_completed_operations (drop_permit_option m s) = nc_completed_operations s"
  "nc_retained_request_bytes (drop_permit_option m s) = nc_retained_request_bytes s"
  "nc_applied_input_bytes (drop_permit_option m s) = nc_applied_input_bytes s"
  "nc_input_failure (drop_permit_option m s) = nc_input_failure s" "nc_pty (drop_permit_option m s) = nc_pty s"
  "nc_phase (drop_permit_option m s) = nc_phase s" "nc_resolved (drop_permit_option m s) = nc_resolved s"
  "nc_input_scheduled (drop_permit_option m s) = nc_input_scheduled s" "nc_owner_lost (drop_permit_option m s) = nc_owner_lost s"
  "nc_result_max_entries (drop_permit_option m s) = nc_result_max_entries s"
  "nc_result_max_request_bytes (drop_permit_option m s) = nc_result_max_request_bytes s"
  "nc_writer (drop_permit_option m s) = nc_writer s"
  by (simp_all add: drop_permit_option_def split: option.split)

lemma resolve_frame [simp]:
  "nc_input_queue (resolve_input c r s) = nc_input_queue s" "nc_input_commands (resolve_input c r s) = nc_input_commands s"
  "nc_input_bytes (resolve_input c r s) = nc_input_bytes s" "nc_input_operations (resolve_input c r s) = nc_input_operations s"
  "nc_completed_operations (resolve_input c r s) = nc_completed_operations s"
  "nc_retained_request_bytes (resolve_input c r s) = nc_retained_request_bytes s"
  "nc_applied_input_bytes (resolve_input c r s) = nc_applied_input_bytes s"
  "nc_input_failure (resolve_input c r s) = nc_input_failure s" "nc_pty (resolve_input c r s) = nc_pty s"
  "nc_phase (resolve_input c r s) = nc_phase s" "nc_owner_lost (resolve_input c r s) = nc_owner_lost s" "nc_resolved (resolve_input c r s) = nc_resolved s @ [(ic_reply c, r)]"
  by (simp_all add: resolve_input_def)

lemma input_ok_cong:
  assumes "nc_input_queue t = nc_input_queue s" "nc_input_commands t = nc_input_commands s" "nc_input_bytes t = nc_input_bytes s"
    "nc_input_operations t = nc_input_operations s" "nc_completed_operations t = nc_completed_operations s"
    "nc_retained_request_bytes t = nc_retained_request_bytes s" "nc_applied_input_bytes t = nc_applied_input_bytes s"
    "nc_input_failure t = nc_input_failure s" "nc_pty t = nc_pty s"
  shows "input_ok origin t = input_ok origin s"
proof -
  have "front_ok t q = front_ok s q" for q
    using assms(4,7) by (cases q) (simp_all add: front_expected_def split: input_reply.split)
  then show ?thesis
    unfolding input_ok_def queue_ok_def ledger_ok_def wire_ok_def using assms by simp
qed

lemma input_ok_drop_permit [simp]: "input_ok o1 (drop_permit_option m s) = input_ok o1 s"
  by (rule input_ok_cong) simp_all

lemma input_ok_resolve [simp]: "input_ok o1 (resolve_input c r s) = input_ok o1 s"
  by (rule input_ok_cong) simp_all

section \<open>Ledger transitions\<close>

lemma ledger_facts:
  assumes "ledger ops q d n"
  shows "distinct (map fst ops)" "n = op_bytes ops" "distinct (queue_keys q)" "distinct d"
    "k \<in> set (queue_keys q) \<longleftrightarrow> (\<exists>r. map_of ops k = Some (EntryPending r))"
    "k \<in> set d \<longleftrightarrow> (\<exists>r rng. map_of ops k = Some (EntryCompleted r rng))"
  using assms unfolding ledger_def by blast+

lemma ledgerI:
  assumes "distinct (map fst ops)" "distinct (queue_keys q)" "distinct d"
    and "\<And>k. k \<in> set (queue_keys q) \<longleftrightarrow> (\<exists>r. map_of ops k = Some (EntryPending r))"
    and "\<And>c k. c \<in> set q \<Longrightarrow> ic_reply c = RecoverableReply k \<Longrightarrow>
           \<exists>r. map_of ops k = Some (EntryPending r) \<and> iq_data r = ic_data c"
    and "\<And>k. k \<in> set d \<longleftrightarrow> (\<exists>r rng. map_of ops k = Some (EntryCompleted r rng))"
  shows "ledger ops q d (op_bytes ops)"
  unfolding ledger_def using assms by blast

lemma ledger_front:
  assumes "ledger ops (c # cs) d n" and "ic_reply c = RecoverableReply k"
  obtains r where "map_of ops k = Some (EntryPending r)" "iq_data r = ic_data c"
    "k \<notin> set (queue_keys cs)" "k \<notin> set d" "length (ic_data c) \<le> n"
proof -
  obtain r where r: "map_of ops k = Some (EntryPending r)" "iq_data r = ic_data c"
    using assms unfolding ledger_def by auto
  have "op_bytes (AList.delete k ops) + length (iq_data r) = op_bytes ops"
    using op_bytes_delete [OF ledger_facts(1) [OF assms(1)] r(1)] by simp
  then have "length (ic_data c) \<le> n" using r(2) ledger_facts(2) [OF assms(1)] by simp
  moreover have "k \<notin> set (queue_keys cs)" using ledger_facts(3) [OF assms(1)] assms(2) by simp
  moreover have "k \<notin> set d" using ledger_facts(6) [OF assms(1), of k] r(1) by simp
  ultimately show thesis using that r by blast
qed

lemma ledger_pop_legacy:
  assumes "ledger ops (c # cs) d n" and "ic_reply c = LegacyReply i"
  shows "ledger ops cs d n"
  using assms unfolding ledger_def by (simp del: map_of_eq_Some_iff)

lemma map_of_delete: "map_of (AList.delete k ops) k' = (if k' = k then None else map_of ops k')"
  by (simp add: AList.delete_conv)

lemma map_of_update: "map_of (AList.update k e ops) k' = (if k' = k then Some e else map_of ops k')"
  by (simp add: AList.update_conv)

lemma distinct_delete: "distinct (map fst ops) \<Longrightarrow> distinct (map fst (AList.delete k ops))"
  by (rule AList.distinct_delete)

lemma distinct_update: "distinct (map fst ops) \<Longrightarrow> distinct (map fst (AList.update k e ops))"
  by (rule AList.distinct_update)

text \<open>The front command leaves the queue and its entry changes to a settled one, or disappears.\<close>

lemma ledger_pop_at:
  assumes "ledger ops (c # cs) d n" and "ic_reply c = RecoverableReply k"
    and "distinct (map fst ops')" and "\<And>k'. k' \<noteq> k \<Longrightarrow> map_of ops' k' = map_of ops k'"
    and "\<And>r. map_of ops' k \<noteq> Some (EntryPending r)"
    and "d' = (if \<exists>r rng. map_of ops' k = Some (EntryCompleted r rng) then d @ [k] else d)"
  shows "ledger ops' cs d' (op_bytes ops')"
proof -
  obtain r where r: "map_of ops k = Some (EntryPending r)" "iq_data r = ic_data c"
    "k \<notin> set (queue_keys cs)" "k \<notin> set d"
    by (rule ledger_front [OF assms(1,2)])
  have keys: "k' \<in> set (queue_keys cs) \<longleftrightarrow> (\<exists>r. map_of ops' k' = Some (EntryPending r))" for k'
    using ledger_facts(5) [OF assms(1), of k'] assms(2,4,5) r(3)
    by (cases "k' = k") (simp_all del: map_of_eq_Some_iff)
  have data: "\<exists>r. map_of ops' k' = Some (EntryPending r) \<and> iq_data r = ic_data c'"
    if "c' \<in> set cs" "ic_reply c' = RecoverableReply k'" for c' k'
  proof -
    have "k' \<noteq> k" using queue_keys_member [OF that] r(3) by blast
    moreover have "\<exists>r. map_of ops k' = Some (EntryPending r) \<and> iq_data r = ic_data c'"
      using assms(1) that unfolding ledger_def by (simp del: map_of_eq_Some_iff)
    ultimately show ?thesis using assms(4) by simp
  qed
  have dn: "k' \<in> set d' \<longleftrightarrow> (\<exists>r rng. map_of ops' k' = Some (EntryCompleted r rng))" for k'
    using ledger_facts(6) [OF assms(1), of k'] assms(4,6) r(4) by (cases "k' = k") (auto simp del: map_of_eq_Some_iff)
  have dd: "distinct d'" "distinct (queue_keys cs)"
    using ledger_facts(3,4) [OF assms(1)] r(4) by (simp_all add: assms(6))
  show ?thesis
    by (rule ledgerI [OF assms(3) dd(2,1) keys data dn])
qed

lemma ledger_pop_remove:
  assumes "ledger ops (c # cs) d n" and "ic_reply c = RecoverableReply k"
  shows "ledger (AList.delete k ops) cs d (n - length (ic_data c))"
proof -
  obtain r where r: "map_of ops k = Some (EntryPending r)" "iq_data r = ic_data c"
    by (rule ledger_front [OF assms])
  have "n - length (ic_data c) = op_bytes (AList.delete k ops)"
    using op_bytes_delete [OF ledger_facts(1) [OF assms(1)] r(1)] r(2) ledger_facts(2) [OF assms(1)] by simp
  then show ?thesis
    using ledger_pop_at [OF assms, of "AList.delete k ops" d] ledger_facts(1) [OF assms(1)]
    by (simp add: map_of_delete distinct_delete del: map_of_eq_Some_iff)
qed

lemma ledger_pop_update:
  assumes "ledger ops (c # cs) d n" and "ic_reply c = RecoverableReply k"
    and "map_of ops k = Some e" and "\<And>r. e' \<noteq> EntryPending r" and "entry_request e' = entry_request e"
  shows "ledger (AList.update k e' ops) cs (if \<exists>r rng. e' = EntryCompleted r rng then d @ [k] else d) n"
proof -
  have "op_bytes (AList.update k e' ops) = n"
    using op_bytes_update_same [OF assms(3), of e'] assms(5) ledger_facts(2) [OF assms(1)] by simp
  then show ?thesis
    using ledger_pop_at [OF assms(1,2), of "AList.update k e' ops" "if \<exists>r rng. e' = EntryCompleted r rng then d @ [k] else d"]
      ledger_facts(1) [OF assms(1)] assms(4)
    by (simp add: map_of_update distinct_update del: map_of_eq_Some_iff)
qed

lemma ledger_push_legacy:
  assumes "ledger ops q d n" and "ic_reply c = LegacyReply i"
  shows "ledger ops (q @ [c]) d n"
  using assms unfolding ledger_def by (simp del: map_of_eq_Some_iff)

lemma ledger_push_keyed:
  assumes "ledger ops q d n" and "ic_reply c = RecoverableReply k" and "map_of ops k = None"
    and "iq_data r = ic_data c"
  shows "ledger (AList.update k (EntryPending r) ops) (q @ [c]) d (n + length (iq_data r))"
proof -
  have new: "k \<notin> set (queue_keys q)" "k \<notin> set d"
    using ledger_facts(5,6) [OF assms(1), of k] assms(3) by simp_all
  let ?ops = "AList.update k (EntryPending r) ops"
  have b: "n + length (iq_data r) = op_bytes ?ops"
    using op_bytes_update_new [of k ops "EntryPending r"] assms(3) ledger_facts(2) [OF assms(1)]
    by (simp add: map_of_eq_None_iff)
  have keys: "k' \<in> set (queue_keys (q @ [c])) \<longleftrightarrow> (\<exists>r. map_of ?ops k' = Some (EntryPending r))" for k'
    using ledger_facts(5) [OF assms(1), of k'] assms(2) by (auto simp: map_of_update simp del: map_of_eq_Some_iff)
  have data: "\<exists>r. map_of ?ops k' = Some (EntryPending r) \<and> iq_data r = ic_data c'"
    if m: "c' \<in> set (q @ [c])" and k: "ic_reply c' = RecoverableReply k'" for c' k'
  proof (cases "c' \<in> set q")
    case True
    then have "k' \<noteq> k" using queue_keys_member [OF True k] new by blast
    moreover have "\<exists>r. map_of ops k' = Some (EntryPending r) \<and> iq_data r = ic_data c'"
      using assms(1) True k unfolding ledger_def by (simp del: map_of_eq_Some_iff)
    ultimately show ?thesis by (simp add: map_of_update del: map_of_eq_Some_iff)
  next
    case False
    then show ?thesis using m k assms(2,4) by (simp add: map_of_update del: map_of_eq_Some_iff)
  qed
  have dn: "k' \<in> set d \<longleftrightarrow> (\<exists>r rng. map_of ?ops k' = Some (EntryCompleted r rng))" for k'
    using ledger_facts(6) [OF assms(1), of k'] new by (auto simp: map_of_update simp del: map_of_eq_Some_iff)
  have "distinct (queue_keys (q @ [c]))" using ledger_facts(3) [OF assms(1)] new assms(2) by simp
  then show ?thesis
    unfolding b by (rule ledgerI [OF distinct_update [OF ledger_facts(1) [OF assms(1)]] _ ledger_facts(4) [OF assms(1)] keys data dn])
qed

lemma ledger_evict:
  assumes "ledger ops q (k # d) n"
  obtains r rng where "map_of ops k = Some (EntryCompleted r rng)" "length (iq_data r) \<le> n"
    "ledger (AList.delete k ops) q d (n - length (iq_data r))"
proof -
  obtain r rng where r: "map_of ops k = Some (EntryCompleted r rng)"
    using ledger_facts(6) [OF assms, of k] by auto
  have b: "op_bytes (AList.delete k ops) + length (iq_data r) = n"
    using op_bytes_delete [OF ledger_facts(1) [OF assms] r] ledger_facts(2) [OF assms] by simp
  have nk: "k \<notin> set (queue_keys q)" using ledger_facts(5) [OF assms, of k] r by simp
  have keys: "k' \<in> set (queue_keys q) \<longleftrightarrow> (\<exists>r. map_of (AList.delete k ops) k' = Some (EntryPending r))" for k'
    using ledger_facts(5) [OF assms, of k'] nk by (auto simp: map_of_delete simp del: map_of_eq_Some_iff)
  have data: "\<exists>r. map_of (AList.delete k ops) k' = Some (EntryPending r) \<and> iq_data r = ic_data c'"
    if "c' \<in> set q" "ic_reply c' = RecoverableReply k'" for c' k'
  proof -
    have "k' \<noteq> k" using queue_keys_member [OF that] nk by blast
    then show ?thesis
      using assms that unfolding ledger_def by (simp add: map_of_delete del: map_of_eq_Some_iff)
  qed
  have dn: "k' \<in> set d \<longleftrightarrow> (\<exists>r rng. map_of (AList.delete k ops) k' = Some (EntryCompleted r rng))" for k'
    using ledger_facts(6) [OF assms, of k'] ledger_facts(4) [OF assms]
    by (auto simp: map_of_delete simp del: map_of_eq_Some_iff)
  have "ledger (AList.delete k ops) q d (op_bytes (AList.delete k ops))"
    using ledgerI [OF distinct_delete [OF ledger_facts(1) [OF assms]] ledger_facts(3) [OF assms] _ keys data dn]
      ledger_facts(4) [OF assms] by simp
  moreover have "n - length (iq_data r) = op_bytes (AList.delete k ops)" "length (iq_data r) \<le> n" using b by simp_all
  ultimately show thesis using that [OF r] by simp
qed

section \<open>Retained receipts\<close>

lemma history_delete: "history_ok o1 a p ops \<Longrightarrow> history_ok o1 a p (AList.delete k ops)"
  unfolding history_ok_def by (simp add: map_of_delete del: map_of_eq_Some_iff)

lemma history_update_other:
  "history_ok o1 a p ops \<Longrightarrow> (\<And>r rng. e \<noteq> EntryCompleted r rng) \<Longrightarrow> history_ok o1 a p (AList.update k e ops)"
  unfolding history_ok_def by (simp add: map_of_update del: map_of_eq_Some_iff)

lemma receipt_grow:
  assumes "receipt_ok o1 a p r rng" "a - o1 \<le> length p" "a \<le> a'"
  shows "receipt_ok o1 a' (p @ ys) r rng"
proof -
  have h: "ar_start rng = iq_expected_byte r" "ar_end rng = ar_start rng + length (iq_data r)" "ar_end rng \<le> a"
    "o1 \<le> ar_start rng \<Longrightarrow> take (length (iq_data r)) (drop (ar_start rng - o1) p) = iq_data r"
    using assms(1) by (auto simp: receipt_ok_def)
  have "take (length (iq_data r)) (drop (ar_start rng - o1) (p @ ys)) = iq_data r" if "o1 \<le> ar_start rng"
  proof -
    have "ar_start rng - o1 + length (iq_data r) \<le> length p" using h(2,3) assms(2) that by linarith
    then show ?thesis using h(4) [OF that] by simp
  qed
  then show ?thesis using h(1-3) assms(3) by (simp add: receipt_ok_def)
qed

lemma history_grow:
  assumes "history_ok o1 a p ops" "a - o1 \<le> length p" "a \<le> a'"
  shows "history_ok o1 a' (p @ ys) ops"
  using assms(1) receipt_grow [OF _ assms(2,3)] unfolding history_ok_def by blast

lemma history_complete:
  assumes "history_ok o1 a p ops" "receipt_ok o1 a p r rng"
  shows "history_ok o1 a p (AList.update k (EntryCompleted r rng) ops)"
  using assms unfolding history_ok_def by (simp add: map_of_update del: map_of_eq_Some_iff)

section \<open>Rejecting the queue\<close>

text \<open>What a rejection leaves alone.\<close>

definition same_lane :: "native_control \<Rightarrow> native_control \<Rightarrow> bool" where
  "same_lane s t \<longleftrightarrow> nc_phase t = nc_phase s \<and> nc_owner_lost t = nc_owner_lost s \<and> nc_owner_failure t = nc_owner_failure s
     \<and> nc_child_commands t = nc_child_commands s \<and> nc_confirmed_size t = nc_confirmed_size s \<and> nc_master_open t = nc_master_open s
     \<and> nc_applied_input_bytes t = nc_applied_input_bytes s \<and> nc_pty t = nc_pty s \<and> nc_resolved t = nc_resolved s
     \<and> nc_writer t = nc_writer s \<and> nc_child_open t = nc_child_open s \<and> nc_stop_pending t = nc_stop_pending s
     \<and> nc_input_scheduled t = nc_input_scheduled s \<and> nc_input_blocked t = nc_input_blocked s"

text \<open>The control facts no settlement touches.\<close>

definition same_control :: "native_control \<Rightarrow> native_control \<Rightarrow> bool" where
  "same_control s t \<longleftrightarrow> nc_owner_lost t = nc_owner_lost s \<and> nc_owner_failure t = nc_owner_failure s
     \<and> nc_child_commands t = nc_child_commands s \<and> nc_confirmed_size t = nc_confirmed_size s
     \<and> nc_master_open t = nc_master_open s \<and> nc_writer t = nc_writer s
     \<and> nc_child_open t = nc_child_open s \<and> nc_stop_pending t = nc_stop_pending s"

lemma same_control_resolve [simp]: "same_control s (resolve_input c r t) = same_control s t"
  by (simp add: same_control_def resolve_input_def drop_permit_option_def split: option.split)

lemma same_lane_trans: "same_lane s t \<Longrightarrow> same_lane t u \<Longrightarrow> same_lane s u"
  by (simp add: same_lane_def)

definition reject_outcome :: "protocol_error \<Rightarrow> input_command \<Rightarrow> control_failure" where
  "reject_outcome error c = (if ic_confirmed c = 0 then not_applied_error error else unknown_after error (ic_confirmed c))"

text \<open>The ledger entry of a rejected keyed command: gone if nothing was written, else of unknown outcome.\<close>

definition rejected_entry :: "protocol_error \<Rightarrow> input_command \<Rightarrow> input_entry option \<Rightarrow> bool" where
  "rejected_entry error c e \<longleftrightarrow>
     (if ic_confirmed c = 0 then e = None
      else (\<exists>r. e = Some (EntryUnknown r (unknown_after error (ic_confirmed c))) \<and> iq_data r = ic_data c))"

lemma release_front:
  assumes "nc_input_commands s = length (c # cs)"
    and "nc_input_bytes s = sum_list (map (\<lambda>c. length (ic_data c)) (c # cs))"
  shows "release_input_capacity (length (ic_data c)) s
     = Some (s\<lparr>nc_input_commands := length cs, nc_input_bytes := sum_list (map (\<lambda>c. length (ic_data c)) cs)\<rparr>)"
  using assms by (simp add: release_input_capacity_def checked_sub_def)

lemma remove_front:
  assumes "ledger (nc_input_operations s) (c # cs) (nc_completed_operations s) (nc_retained_request_bytes s)"
    and "ic_reply c = RecoverableReply k"
  obtains m where "remove_input_operation k s = Some (drop_permit_option m
      (s\<lparr>nc_input_operations := AList.delete k (nc_input_operations s),
         nc_retained_request_bytes := nc_retained_request_bytes s - length (ic_data c)\<rparr>))"
proof -
  obtain r where r: "map_of (nc_input_operations s) k = Some (EntryPending r)" "iq_data r = ic_data c"
    "length (ic_data c) \<le> nc_retained_request_bytes s"
    by (rule ledger_front [OF assms])
  then show thesis
    using that [of "iq_memory r"] by (simp add: remove_input_operation_def checked_sub_def del: map_of_eq_Some_iff)
qed

lemma same_lane_drop [simp]: "same_lane s (drop_permit_option m t) = same_lane s t"
  by (simp add: same_lane_def drop_permit_option_def split: option.split)

text \<open>The part of the invariant that survives while the queue is taken apart.\<close>

definition lane_accounts :: "u64 \<Rightarrow> input_command list \<Rightarrow> native_control \<Rightarrow> bool" where
  "lane_accounts origin q s \<longleftrightarrow> nc_input_commands s = length q
     \<and> nc_input_bytes s = sum_list (map (\<lambda>c. length (ic_data c)) q)
     \<and> ledger (nc_input_operations s) q (nc_completed_operations s) (nc_retained_request_bytes s)
     \<and> history_ok origin (nc_applied_input_bytes s) (nc_pty s) (nc_input_operations s)"

text \<open>One turn of the loop: the front command is released and its entry settled.\<close>

lemma reject_step:
  assumes "lane_accounts o1 (c # cs) s"
  obtains t where "reject_loop error (c # cs) s
      = map_option (\<lambda>(rs, u). ((c, reject_outcome error c) # rs, u)) (reject_loop error cs t)"
    "lane_accounts o1 cs t" "same_lane s t" "nc_input_queue t = cs"
    "nc_input_failure t = (if ic_confirmed c = 0 then nc_input_failure s else Some error)"
    "\<forall>k. ic_reply c \<noteq> RecoverableReply k \<longrightarrow> map_of (nc_input_operations t) k = map_of (nc_input_operations s) k"
    "\<forall>k. ic_reply c = RecoverableReply k \<longrightarrow> rejected_entry error c (map_of (nc_input_operations t) k)"
proof -
  have L: "ledger (nc_input_operations s) (c # cs) (nc_completed_operations s) (nc_retained_request_bytes s)"
    and H: "history_ok o1 (nc_applied_input_bytes s) (nc_pty s) (nc_input_operations s)"
    using assms by (simp_all add: lane_accounts_def)
  define s1 where "s1 = s\<lparr>nc_input_queue := cs, nc_input_commands := length cs,
      nc_input_bytes := sum_list (map (\<lambda>c. length (ic_data c)) cs)\<rparr>"
  have rel: "release_input_capacity (length (ic_data c)) (s\<lparr>nc_input_queue := cs\<rparr>) = Some s1"
    using assms release_front [of "s\<lparr>nc_input_queue := cs\<rparr>" c cs] by (simp add: lane_accounts_def s1_def)
  show thesis
  proof (cases "ic_reply c")
    case (LegacyReply i)
    define t where "t = (if ic_confirmed c = 0 then s1 else s1\<lparr>nc_input_failure := Some error\<rparr>)"
    have ok: "lane_accounts o1 cs t" "same_lane s t" "nc_input_queue t = cs"
      using ledger_pop_legacy [OF L LegacyReply] H by (simp_all add: lane_accounts_def same_lane_def t_def s1_def)
    have eq: "reject_loop error (c # cs) s
      = map_option (\<lambda>(rs, u). ((c, reject_outcome error c) # rs, u)) (reject_loop error cs t)"
      by (simp add: rel LegacyReply t_def reject_outcome_def retain_unknown_def)
    show thesis
      by (rule that [OF eq ok]) (simp_all add: LegacyReply t_def s1_def)
  next
    case (RecoverableReply k)
    obtain r where r: "map_of (nc_input_operations s) k = Some (EntryPending r)" "iq_data r = ic_data c"
      by (rule ledger_front [OF L RecoverableReply])
    show thesis
    proof (cases "ic_confirmed c = 0")
      case True
      have L1: "ledger (nc_input_operations s1) (c # cs) (nc_completed_operations s1) (nc_retained_request_bytes s1)"
        using L by (simp add: s1_def)
      obtain m where m: "remove_input_operation k s1 = Some (drop_permit_option m
          (s1\<lparr>nc_input_operations := AList.delete k (nc_input_operations s1),
             nc_retained_request_bytes := nc_retained_request_bytes s1 - length (ic_data c)\<rparr>))" (is "_ = Some ?t")
        by (rule remove_front [OF L1 RecoverableReply])
      have ok: "lane_accounts o1 cs ?t" "same_lane s ?t" "nc_input_queue ?t = cs"
        using ledger_pop_remove [OF L RecoverableReply] history_delete [OF H]
        by (simp_all add: lane_accounts_def s1_def) (simp add: same_lane_def)
      have eq: "reject_loop error (c # cs) s
        = map_option (\<lambda>(rs, u). ((c, reject_outcome error c) # rs, u)) (reject_loop error cs ?t)"
        by (simp add: rel RecoverableReply True m reject_outcome_def)
      show thesis
        by (rule that [OF eq ok]) (simp_all add: RecoverableReply True s1_def map_of_delete rejected_entry_def)
    next
      case False
      define t where "t = s1\<lparr>nc_input_failure := Some error, nc_input_operations :=
        AList.update k (EntryUnknown r (unknown_after error (ic_confirmed c))) (nc_input_operations s1)\<rparr>"
      have ok: "lane_accounts o1 cs t" "same_lane s t" "nc_input_queue t = cs"
        using ledger_pop_update [OF L RecoverableReply r(1), of "EntryUnknown r (unknown_after error (ic_confirmed c))"]
          history_update_other [OF H]
        by (simp_all add: lane_accounts_def t_def s1_def same_lane_def)
      have eq: "reject_loop error (c # cs) s
        = map_option (\<lambda>(rs, u). ((c, reject_outcome error c) # rs, u)) (reject_loop error cs t)"
        using r(1) by (simp add: rel RecoverableReply False t_def reject_outcome_def retain_unknown_def Let_def s1_def
            del: map_of_eq_Some_iff)
      show thesis
        by (rule that [OF eq ok]) (simp_all add: RecoverableReply r(2) False t_def s1_def map_of_update rejected_entry_def)
    qed
  qed
qed

definition any_partial :: "input_command list \<Rightarrow> bool" where
  "any_partial q \<longleftrightarrow> (\<exists>c\<in>set q. ic_confirmed c \<noteq> 0)"

lemma reject_loop_ok:
  assumes "lane_accounts o1 q s" and "nc_input_queue s = q"
  shows "\<exists>t. reject_loop error q s = Some (map (\<lambda>c. (c, reject_outcome error c)) q, t)
    \<and> lane_accounts o1 [] t \<and> same_lane s t \<and> nc_input_queue t = []
    \<and> nc_input_failure t = (if any_partial q then Some error else nc_input_failure s)
    \<and> (\<forall>k. k \<notin> set (queue_keys q) \<longrightarrow> map_of (nc_input_operations t) k = map_of (nc_input_operations s) k)
    \<and> (\<forall>c\<in>set q. \<forall>k. ic_reply c = RecoverableReply k \<longrightarrow> rejected_entry error c (map_of (nc_input_operations t) k))"
  using assms
proof (induction q arbitrary: s)
  case Nil
  then show ?case by (simp add: same_lane_def any_partial_def)
next
  case (Cons c cs)
  obtain t where t: "reject_loop error (c # cs) s
      = map_option (\<lambda>(rs, u). ((c, reject_outcome error c) # rs, u)) (reject_loop error cs t)"
    "lane_accounts o1 cs t" "same_lane s t" "nc_input_queue t = cs"
    "nc_input_failure t = (if ic_confirmed c = 0 then nc_input_failure s else Some error)"
    "\<forall>k. ic_reply c \<noteq> RecoverableReply k \<longrightarrow> map_of (nc_input_operations t) k = map_of (nc_input_operations s) k"
    "\<forall>k. ic_reply c = RecoverableReply k \<longrightarrow> rejected_entry error c (map_of (nc_input_operations t) k)"
    by (rule reject_step [OF Cons.prems(1), where error = error])
  obtain u where u: "reject_loop error cs t = Some (map (\<lambda>c. (c, reject_outcome error c)) cs, u)"
    "lane_accounts o1 [] u" "same_lane t u" "nc_input_queue u = []"
    "nc_input_failure u = (if any_partial cs then Some error else nc_input_failure t)"
    "\<And>k. k \<notin> set (queue_keys cs) \<Longrightarrow> map_of (nc_input_operations u) k = map_of (nc_input_operations t) k"
    "\<And>c k. c \<in> set cs \<Longrightarrow> ic_reply c = RecoverableReply k \<Longrightarrow> rejected_entry error c (map_of (nc_input_operations u) k)"
    using Cons.IH [OF t(2,4)] by blast
  have front: "rejected_entry error c (map_of (nc_input_operations u) k)" if "ic_reply c = RecoverableReply k" for k
  proof -
    have "k \<notin> set (queue_keys cs)"
      using Cons.prems(1) that ledger_facts(3) by (fastforce simp: lane_accounts_def)
    then show ?thesis using t(7) that u(6) by simp
  qed
  have other: "map_of (nc_input_operations u) k = map_of (nc_input_operations s) k" if "k \<notin> set (queue_keys (c # cs))" for k
    using that t(6) u(6) [of k] by (auto split: input_reply.splits)
  have fail: "nc_input_failure u = (if any_partial (c # cs) then Some error else nc_input_failure s)"
    using t(5) u(5) by (auto simp: any_partial_def)
  have rej: "\<forall>c\<in>set (c # cs). \<forall>k. ic_reply c = RecoverableReply k \<longrightarrow> rejected_entry error c (map_of (nc_input_operations u) k)"
    using front u(7) by simp
  have "reject_loop error (c # cs) s = Some (map (\<lambda>c. (c, reject_outcome error c)) (c # cs), u)"
    using t(1) u(1) by simp
  then show ?case using u(2,4) same_lane_trans [OF t(3) u(3)] fail other rej by blast
qed

lemma send_rejections_frame:
  "nc_resolved (send_rejections rs s) = nc_resolved s @ map (\<lambda>(c, f). (ic_reply c, Inl f)) rs"
  "input_ok o1 (send_rejections rs s) = input_ok o1 s"
  "nc_input_queue (send_rejections rs s) = nc_input_queue s" "nc_pty (send_rejections rs s) = nc_pty s"
  "nc_input_operations (send_rejections rs s) = nc_input_operations s" "nc_phase (send_rejections rs s) = nc_phase s"
  "nc_applied_input_bytes (send_rejections rs s) = nc_applied_input_bytes s"
  "nc_input_failure (send_rejections rs s) = nc_input_failure s" "same_control u (send_rejections rs s) = same_control u s"
  by (induction rs arbitrary: s) (auto simp: send_rejections_def)

lemma input_ok_accounts: "input_ok o1 s \<Longrightarrow> lane_accounts o1 (nc_input_queue s) s"
  by (simp add: input_ok_def queue_ok_def ledger_ok_def wire_ok_def lane_accounts_def)

text \<open>From the accounts back to the invariant, for a queue none of whose commands has started.\<close>

lemma input_okI:
  assumes "lane_accounts o1 (nc_input_queue t) t" "\<not> any_partial (nc_input_queue t)"
    and "o1 \<le> nc_applied_input_bytes t" "nc_applied_input_bytes t \<le> U64_MAX"
    and "nc_applied_input_bytes t - o1 \<le> length (nc_pty t)"
    and "nc_input_failure t = None \<Longrightarrow> length (nc_pty t) = nc_applied_input_bytes t - o1"
    and "nc_input_failure t \<noteq> None \<Longrightarrow> nc_input_queue t = []"
  shows "input_ok o1 t"
proof -
  have z: "\<forall>c\<in>set (nc_input_queue t). ic_confirmed c = 0" using assms(2) by (simp add: any_partial_def)
  then have "partial_bytes (nc_input_queue t) = []" "front_ok t (nc_input_queue t)"
    by (cases "nc_input_queue t"; simp)+
  moreover have "\<forall>c\<in>set (tl (nc_input_queue t)). ic_confirmed c = 0" using z by (cases "nc_input_queue t") simp_all
  ultimately show ?thesis
    using assms(1,3-7) unfolding input_ok_def queue_ok_def ledger_ok_def wire_ok_def lane_accounts_def by simp
qed

lemma wire_parts:
  assumes "wire_ok o1 s"
  shows "o1 \<le> nc_applied_input_bytes s" "nc_applied_input_bytes s \<le> U64_MAX"
    "nc_applied_input_bytes s - o1 \<le> length (nc_pty s)"
    "nc_input_failure s = None \<Longrightarrow>
       nc_pty s = take (nc_applied_input_bytes s - o1) (nc_pty s) @ partial_bytes (nc_input_queue s)"
    "nc_input_failure s \<noteq> None \<Longrightarrow> nc_input_queue s = []"
  using assms unfolding wire_ok_def by (auto split: if_splits) (metis append_take_drop_id)

lemma fresh_tail:
  assumes "queue_ok s" "nc_input_queue s = c # cs"
  shows "\<not> any_partial cs"
  using assms by (simp add: queue_ok_def any_partial_def)

text \<open>Every queued command is rejected, in order, with the outcome its confirmed prefix warrants.\<close>

lemma reject_queued_ok:
  assumes "lane_accounts o1 (nc_input_queue s) s"
    and "o1 \<le> nc_applied_input_bytes s" "nc_applied_input_bytes s \<le> U64_MAX"
    and "nc_applied_input_bytes s - o1 \<le> length (nc_pty s)"
    and "nc_input_failure s = None \<Longrightarrow> \<not> any_partial (nc_input_queue s) \<Longrightarrow> length (nc_pty s) = nc_applied_input_bytes s - o1"
  shows "\<exists>t. reject_queued_inputs error s = Some (map (\<lambda>c. (c, reject_outcome error c)) (nc_input_queue s), t)
    \<and> input_ok o1 t \<and> nc_input_queue t = [] \<and> nc_pty t = nc_pty s \<and> nc_resolved t = nc_resolved s
    \<and> nc_phase t = nc_phase s \<and> same_control s t \<and> nc_applied_input_bytes t = nc_applied_input_bytes s
    \<and> (nc_input_failure s \<noteq> None \<longrightarrow> nc_input_failure t \<noteq> None)
    \<and> (\<forall>k. k \<notin> set (queue_keys (nc_input_queue s)) \<longrightarrow> map_of (nc_input_operations t) k = map_of (nc_input_operations s) k)
    \<and> (\<forall>c\<in>set (nc_input_queue s). \<forall>k. ic_reply c = RecoverableReply k \<longrightarrow>
          rejected_entry error c (map_of (nc_input_operations t) k))"
proof -
  let ?s = "s\<lparr>nc_input_scheduled := False, nc_input_blocked := False\<rparr>"
  have "lane_accounts o1 (nc_input_queue s) ?s" "nc_input_queue ?s = nc_input_queue s"
    using assms(1) by (simp_all add: lane_accounts_def)
  from reject_loop_ok [OF this, of error] obtain t where
    t: "reject_loop error (nc_input_queue s) ?s = Some (map (\<lambda>c. (c, reject_outcome error c)) (nc_input_queue s), t)"
    "lane_accounts o1 [] t" "same_lane ?s t" "nc_input_queue t = []"
    "nc_input_failure t = (if any_partial (nc_input_queue s) then Some error else nc_input_failure s)"
    "\<forall>k. k \<notin> set (queue_keys (nc_input_queue s)) \<longrightarrow> map_of (nc_input_operations t) k = map_of (nc_input_operations s) k"
    "\<forall>c\<in>set (nc_input_queue s). \<forall>k. ic_reply c = RecoverableReply k \<longrightarrow> rejected_entry error c (map_of (nc_input_operations t) k)"
    by auto
  have lane: "nc_pty t = nc_pty s" "nc_resolved t = nc_resolved s" "nc_phase t = nc_phase s" "same_control s t"
    "nc_applied_input_bytes t = nc_applied_input_bytes s"
    using t(3) by (simp_all add: same_lane_def same_control_def)
  have "input_ok o1 t"
    by (rule input_okI) (use assms(2-5) t(2,4,5) lane in \<open>auto simp: any_partial_def split: if_splits\<close>)
  then show ?thesis
    unfolding reject_queued_inputs_def using t(1,4,6,7) t(5) lane by auto
qed

section \<open>Settling the front command\<close>

text \<open>The released state every settlement starts from.\<close>

definition popped :: "input_command list \<Rightarrow> native_control \<Rightarrow> native_control" where
  "popped cs s = s\<lparr>nc_input_queue := cs, nc_input_commands := length cs,
     nc_input_bytes := sum_list (map (\<lambda>c. length (ic_data c)) cs)\<rparr>"

lemma popped_fields [simp]:
  "nc_input_queue (popped cs s) = cs" "nc_input_commands (popped cs s) = length cs"
  "nc_input_bytes (popped cs s) = sum_list (map (\<lambda>c. length (ic_data c)) cs)"
  "nc_input_operations (popped cs s) = nc_input_operations s" "nc_completed_operations (popped cs s) = nc_completed_operations s"
  "nc_retained_request_bytes (popped cs s) = nc_retained_request_bytes s" "nc_pty (popped cs s) = nc_pty s"
  "nc_applied_input_bytes (popped cs s) = nc_applied_input_bytes s" "nc_input_failure (popped cs s) = nc_input_failure s"
  "nc_resolved (popped cs s) = nc_resolved s" "nc_phase (popped cs s) = nc_phase s"
  "nc_owner_lost (popped cs s) = nc_owner_lost s" "nc_writer (popped cs s) = nc_writer s"
  by (simp_all add: popped_def)

lemma release_popped:
  assumes "queue_ok s" "nc_input_queue s = c # cs"
  shows "release_input_capacity (length (ic_data c)) (s\<lparr>nc_input_queue := cs\<rparr>) = Some (popped cs s)"
    and "release_input_capacity (length (ic_data c)) (s\<lparr>nc_input_queue := cs, nc_applied_input_bytes := n\<rparr>)
      = Some ((popped cs s)\<lparr>nc_applied_input_bytes := n\<rparr>)"
  using assms release_front [of "s\<lparr>nc_input_queue := cs\<rparr>" c cs]
    release_front [of "s\<lparr>nc_input_queue := cs, nc_applied_input_bytes := n\<rparr>" c cs]
  by (simp_all add: queue_ok_def popped_def)

lemma input_ok_ledger:
  "input_ok o1 s \<Longrightarrow> ledger (nc_input_operations s) (nc_input_queue s) (nc_completed_operations s) (nc_retained_request_bytes s)"
  by (simp add: input_ok_def ledger_ok_def)

lemma input_ok_history:
  "input_ok o1 s \<Longrightarrow> history_ok o1 (nc_applied_input_bytes s) (nc_pty s) (nc_input_operations s)"
  by (simp add: input_ok_def wire_ok_def)

lemma settle_mismatch_ok:
  assumes "input_ok o1 s" "nc_input_queue s = c # cs" "ic_confirmed c = 0" "nc_input_failure s = None"
  shows "\<exists>t f. settle_mismatch c cs s = Some t \<and> input_ok o1 t \<and> nc_input_queue t = cs \<and> nc_pty t = nc_pty s
    \<and> nc_applied_input_bytes t = nc_applied_input_bytes s
    \<and> nc_resolved t = nc_resolved s @ [(ic_reply c, Inl f)] \<and> cf_disposition f = NotApplied \<and> cf_confirmed_input_bytes f = None"
proof -
  note q = assms(1)[unfolded input_ok_def, THEN conjunct1] and w = wire_parts [OF assms(1)[unfolded input_ok_def, THEN conjunct2, THEN conjunct2]]
  have len: "length (nc_pty s) = nc_applied_input_bytes s - o1"
    using arg_cong [OF w(4) [OF assms(4)], of length] w(3) assms(2,3) by simp
  have L: "ledger (nc_input_operations s) (c # cs) (nc_completed_operations s) (nc_retained_request_bytes s)"
    using input_ok_ledger [OF assms(1)] assms(2) by simp
  note H = input_ok_history [OF assms(1)] and fresh = fresh_tail [OF q assms(2)]
  have fin: "input_ok o1 t" if "nc_input_queue t = cs" "nc_pty t = nc_pty s" "nc_applied_input_bytes t = nc_applied_input_bytes s"
    "nc_input_failure t = None" "lane_accounts o1 cs t" for t
    by (rule input_okI) (use that w len fresh in auto)
  show ?thesis
  proof (cases "ic_reply c")
    case (LegacyReply i)
    have "lane_accounts o1 cs (popped cs s)"
      using ledger_pop_legacy [OF L LegacyReply] H by (simp add: lane_accounts_def)
    then have "input_ok o1 (popped cs s)" by (intro fin) (simp_all add: assms(4))
    then show ?thesis
      by (simp add: settle_mismatch_def release_popped [OF q assms(2)] LegacyReply not_applied_def)
  next
    case (RecoverableReply k)
    obtain m where m: "remove_input_operation k (popped cs s) = Some (drop_permit_option m
        ((popped cs s)\<lparr>nc_input_operations := AList.delete k (nc_input_operations s),
           nc_retained_request_bytes := nc_retained_request_bytes s - length (ic_data c)\<rparr>))" (is "_ = Some ?t")
      using remove_front [of "popped cs s" c cs k] L RecoverableReply by auto
    have "lane_accounts o1 cs ?t"
      using ledger_pop_remove [OF L RecoverableReply] history_delete [OF H] by (simp add: lane_accounts_def)
    then have "input_ok o1 ?t" by (intro fin) (simp_all add: assms(4))
    then show ?thesis
      by (simp add: settle_mismatch_def release_popped [OF q assms(2)] RecoverableReply not_applied_def m)
  qed
qed

lemma settle_complete_ok:
  assumes "input_ok o1 s" "nc_input_queue s = c # cs" "nc_input_failure s = None"
    and "front_expected c s = Some (nc_applied_input_bytes s)" "nc_applied_input_bytes s + length (ic_data c) \<le> U64_MAX"
    and "nc_pty s' = nc_pty s @ drop (ic_confirmed c) (ic_data c)" "s' = s\<lparr>nc_input_blocked := False, nc_pty := nc_pty s'\<rparr>"
    and "c' = c\<lparr>ic_confirmed := length (ic_data c)\<rparr>"
  shows "\<exists>t rng. settle_complete c' cs (nc_applied_input_bytes s + length (ic_data c)) s' = Some t \<and> input_ok o1 t
    \<and> nc_input_queue t = cs \<and> nc_pty t = nc_pty s'
    \<and> nc_applied_input_bytes t = nc_applied_input_bytes s + length (ic_data c)
    \<and> nc_resolved t = nc_resolved s @ [(ic_reply c, Inr rng)]
    \<and> rng = \<lparr>ar_start = nc_applied_input_bytes s, ar_end = nc_applied_input_bytes s + length (ic_data c)\<rparr>"
proof -
  let ?a = "nc_applied_input_bytes s" and ?n = "length (ic_data c)"
  let ?rng = "\<lparr>ar_start = ?a, ar_end = ?a + ?n\<rparr>"
  note q = assms(1)[unfolded input_ok_def, THEN conjunct1] and w = wire_parts [OF assms(1)[unfolded input_ok_def, THEN conjunct2, THEN conjunct2]]
  have pty: "nc_pty s' = take (?a - o1) (nc_pty s) @ ic_data c"
    using w(4) [OF assms(3)] assms(2,6) by (metis append.assoc append_take_drop_id partial_bytes.simps(2))
  have len: "length (nc_pty s') = ?a + ?n - o1" using w(1,3) by (simp add: pty)
  have L: "ledger (nc_input_operations s) (c # cs) (nc_completed_operations s) (nc_retained_request_bytes s)"
    using input_ok_ledger [OF assms(1)] assms(2) by simp
  have H: "history_ok o1 (?a + ?n) (nc_pty s') (nc_input_operations s)"
    using history_grow [OF input_ok_history [OF assms(1)] w(3), of "?a + ?n"] assms(6) by simp
  note fresh = fresh_tail [OF q assms(2)]
  define u where "u = (popped cs s')\<lparr>nc_applied_input_bytes := ?a + ?n, nc_input_scheduled := (cs \<noteq> [])\<rparr>"
  have s': "nc_input_operations s' = nc_input_operations s" "nc_completed_operations s' = nc_completed_operations s"
    "nc_retained_request_bytes s' = nc_retained_request_bytes s" "nc_resolved s' = nc_resolved s" "nc_input_failure s' = None"
    "nc_applied_input_bytes s' = ?a" "nc_input_queue s' = c # cs" "nc_input_commands s' = nc_input_commands s"
    "nc_input_bytes s' = nc_input_bytes s"
    by (subst assms(7), simp add: assms(2,3))+
  have rel: "release_input_capacity ?n (s'\<lparr>nc_input_queue := cs, nc_applied_input_bytes := ?a + ?n\<rparr>)
      = Some ((popped cs s')\<lparr>nc_applied_input_bytes := ?a + ?n\<rparr>)"
    using release_popped(2) [of s' c cs "?a + ?n"] q assms(2) by (simp add: queue_ok_def s')
  have fin: "input_ok o1 t" if "nc_input_queue t = cs" "nc_pty t = nc_pty s'" "nc_applied_input_bytes t = ?a + ?n"
    "nc_input_failure t = None" "lane_accounts o1 cs t" for t
    by (rule input_okI) (use that w(1) len fresh assms(5) in auto)
  show ?thesis
  proof (cases "ic_reply c")
    case (LegacyReply i)
    have "lane_accounts o1 cs u"
      using ledger_pop_legacy [OF L LegacyReply] H by (simp add: lane_accounts_def u_def s')
    then have "input_ok o1 u" by (intro fin) (simp_all add: u_def s')
    then show ?thesis
      by (simp add: settle_complete_def assms(8) rel LegacyReply Let_def u_def s')
  next
    case (RecoverableReply k)
    obtain r where r: "map_of (nc_input_operations s) k = Some (EntryPending r)" "iq_data r = ic_data c"
      by (rule ledger_front [OF L RecoverableReply])
    define t where "t = (popped cs s')\<lparr>nc_applied_input_bytes := ?a + ?n,
      nc_input_operations := AList.update k (EntryCompleted r ?rng) (nc_input_operations s),
      nc_completed_operations := nc_completed_operations s @ [k], nc_input_scheduled := (cs \<noteq> [])\<rparr>"
    have "iq_expected_byte r = ?a" using assms(4) r(1) RecoverableReply by (simp add: front_expected_def)
    then have "receipt_ok o1 (?a + ?n) (nc_pty s') r ?rng"
      using r(2) w(1,3) by (simp add: receipt_ok_def pty)
    then have "lane_accounts o1 cs t"
      using ledger_pop_update [OF L RecoverableReply r(1), of "EntryCompleted r ?rng"] history_complete [OF H]
      by (simp add: lane_accounts_def t_def s')
    then have "input_ok o1 t" by (intro fin) (simp_all add: t_def s')
    then show ?thesis
      using r(1) by (simp add: settle_complete_def assms(8) rel RecoverableReply Let_def t_def s' del: map_of_eq_Some_iff)
  qed
qed

lemma settle_failure_ok:
  assumes "input_ok o1 s" "nc_input_queue s = c # cs" "nc_input_failure s = None"
  shows "\<exists>t. settle_failure w c cs s = Some t \<and> input_ok o1 t \<and> nc_input_queue t = [] \<and> nc_pty t = nc_pty s
    \<and> nc_applied_input_bytes t = nc_applied_input_bytes s
    \<and> nc_resolved t = nc_resolved s @ (ic_reply c, Inl (unknown_after (failure_of w) (ic_confirmed c)))
        # map (\<lambda>c. (ic_reply c, Inl (reject_outcome (failure_of w) c))) cs"
proof -
  note q = assms(1)[unfolded input_ok_def, THEN conjunct1] and wp = wire_parts [OF assms(1)[unfolded input_ok_def, THEN conjunct2, THEN conjunct2]]
  have L: "ledger (nc_input_operations s) (c # cs) (nc_completed_operations s) (nc_retained_request_bytes s)"
    using input_ok_ledger [OF assms(1)] assms(2) by simp
  note H = input_ok_history [OF assms(1)]
  let ?lane = "Some \<lparr>pe_code = pe_code (failure_of w), pe_message = ''PTY input lane is unavailable''\<rparr>"
  let ?f = "unknown_after (failure_of w) (ic_confirmed c)"
  have "\<exists>u. retain_unknown (ic_reply c) ?f ((popped cs s)\<lparr>nc_input_failure := ?lane\<rparr>) = Some u
      \<and> lane_accounts o1 cs u \<and> nc_input_queue u = cs \<and> nc_pty u = nc_pty s \<and> nc_resolved u = nc_resolved s
      \<and> nc_applied_input_bytes u = nc_applied_input_bytes s \<and> nc_input_failure u \<noteq> None"
  proof (cases "ic_reply c")
    case (LegacyReply i)
    then show ?thesis
      using ledger_pop_legacy [OF L LegacyReply] H by (simp add: retain_unknown_def lane_accounts_def)
  next
    case (RecoverableReply k)
    obtain r where r: "map_of (nc_input_operations s) k = Some (EntryPending r)"
      by (rule ledger_front [OF L RecoverableReply])
    then show ?thesis
      using ledger_pop_update [OF L RecoverableReply r, of "EntryUnknown r ?f"] history_update_other [OF H]
      by (simp add: retain_unknown_def lane_accounts_def RecoverableReply del: map_of_eq_Some_iff)
  qed
  then obtain u where u: "retain_unknown (ic_reply c) ?f ((popped cs s)\<lparr>nc_input_failure := ?lane\<rparr>) = Some u"
    "lane_accounts o1 cs u" "nc_input_queue u = cs" "nc_pty u = nc_pty s" "nc_resolved u = nc_resolved s"
    "nc_applied_input_bytes u = nc_applied_input_bytes s" "nc_input_failure u \<noteq> None"
    by blast
  have "\<exists>t. reject_queued_inputs (failure_of w) u = Some (map (\<lambda>c. (c, reject_outcome (failure_of w) c)) cs, t)
      \<and> input_ok o1 t \<and> nc_input_queue t = [] \<and> nc_pty t = nc_pty s \<and> nc_resolved t = nc_resolved s
      \<and> nc_applied_input_bytes t = nc_applied_input_bytes s"
    using reject_queued_ok [of o1 u "failure_of w"] u wp(1-3) by auto
  then obtain t where t: "reject_queued_inputs (failure_of w) u = Some (map (\<lambda>c. (c, reject_outcome (failure_of w) c)) cs, t)"
    "input_ok o1 t" "nc_input_queue t = []" "nc_pty t = nc_pty s" "nc_resolved t = nc_resolved s"
    "nc_applied_input_bytes t = nc_applied_input_bytes s"
    by blast
  have "settle_failure w c cs s
      = Some (send_rejections (map (\<lambda>c. (c, reject_outcome (failure_of w) c)) cs) (resolve_input c (Inl ?f) t))"
    using u(1) t(1) by (simp add: settle_failure_def release_popped [OF q assms(2)] Let_def)
  then show ?thesis using t(2-6) by (simp add: send_rejections_frame comp_def)
qed

section \<open>A turn delivers exactly once\<close>

text \<open>The bytes an outcome says are on the wire, and that a receipt's range names them there.\<close>

definition delivered :: "input_command \<Rightarrow> control_failure + applied_range \<Rightarrow> byte list" where
  "delivered c out = (case out of
       Inr _ \<Rightarrow> ic_data c
     | Inl f \<Rightarrow> (case cf_confirmed_input_bytes f of None \<Rightarrow> [] | Some n \<Rightarrow> take n (ic_data c)))"

definition names_bytes :: "u64 \<Rightarrow> byte list \<Rightarrow> input_command \<Rightarrow> control_failure + applied_range \<Rightarrow> bool" where
  "names_bytes origin pty c out \<longleftrightarrow>
     (\<forall>rng. out = Inr rng \<longrightarrow> origin \<le> ar_start rng \<and> ar_end rng = ar_start rng + length (ic_data c)
        \<and> take (length (ic_data c)) (drop (ar_start rng - origin) pty) = ic_data c)"

text \<open>From \<open>s\<close> to \<open>t\<close> a prefix of the queue is settled, in order, once each; what the wire gained is
  exactly what the outcomes and the command still in progress account for.  \<open>base\<close> is the wire before
  the front command.\<close>

definition turn_settles :: "u64 \<Rightarrow> byte list \<Rightarrow> native_control \<Rightarrow> native_control \<Rightarrow> bool" where
  "turn_settles origin base s t \<longleftrightarrow> (\<exists>outs ys. length outs \<le> length (nc_input_queue s)
     \<and> nc_resolved t = nc_resolved s @ map2 (\<lambda>c out. (ic_reply c, out)) (nc_input_queue s) outs
     \<and> map (\<lambda>c. (ic_reply c, ic_data c)) (nc_input_queue t)
         = map (\<lambda>c. (ic_reply c, ic_data c)) (drop (length outs) (nc_input_queue s))
     \<and> nc_pty t = base @ concat (map2 delivered (nc_input_queue s) outs) @ partial_bytes (nc_input_queue t)
     \<and> nc_pty t = nc_pty s @ ys
     \<and> list_all2 (names_bytes origin (nc_pty t)) (take (length outs) (nc_input_queue s)) outs)"

lemma delivered_cong: "ic_data c' = ic_data c \<Longrightarrow> delivered c' out = delivered c out"
  by (simp add: delivered_def split: sum.split option.split)

lemma turn_settles_none:
  assumes "nc_pty s = base @ partial_bytes (nc_input_queue s)"
    and "nc_input_queue t = nc_input_queue s" "nc_pty t = nc_pty s" "nc_resolved t = nc_resolved s"
  shows "turn_settles o1 base s t"
  unfolding turn_settles_def by (rule exI [of _ "[]"]) (use assms in simp)

lemma turn_settles_front:
  assumes "turn_settles o1 (base @ delivered c out) s1 t"
    and "nc_input_queue s = c # cs" "nc_input_queue s1 = cs" "nc_resolved s1 = nc_resolved s @ [(ic_reply c, out)]"
    and "nc_pty s1 = nc_pty s @ xs"
    and "\<And>rng ys. out = Inr rng \<Longrightarrow> names_bytes o1 (nc_pty s1 @ ys) c out"
  shows "turn_settles o1 base s t"
proof -
  obtain outs ys where t: "length outs \<le> length cs"
    "nc_resolved t = nc_resolved s1 @ map2 (\<lambda>c out. (ic_reply c, out)) cs outs"
    "map (\<lambda>c. (ic_reply c, ic_data c)) (nc_input_queue t) = map (\<lambda>c. (ic_reply c, ic_data c)) (drop (length outs) cs)"
    "nc_pty t = (base @ delivered c out) @ concat (map2 delivered cs outs) @ partial_bytes (nc_input_queue t)"
    "nc_pty t = nc_pty s1 @ ys" "list_all2 (names_bytes o1 (nc_pty t)) (take (length outs) cs) outs"
    using assms(1) unfolding turn_settles_def assms(3) by blast
  have "names_bytes o1 (nc_pty t) c out"
  proof (cases out)
    case (Inl f)
    then show ?thesis by (simp add: names_bytes_def)
  next
    case (Inr rng)
    then show ?thesis using assms(6) [OF Inr, of ys] t(5) by simp
  qed
  then show ?thesis
    unfolding turn_settles_def
    by (intro exI [of _ "out # outs"] exI [of _ "xs @ ys"]) (use t assms(2,4,5) in simp)
qed

lemma turn_settles_partial:
  assumes "turn_settles o1 base s1 t"
    and "nc_input_queue s = c # cs" "nc_input_queue s1 = c' # cs" "nc_resolved s1 = nc_resolved s"
    and "nc_pty s1 = nc_pty s @ xs" "ic_reply c' = ic_reply c" "ic_data c' = ic_data c"
  shows "turn_settles o1 base s t"
proof -
  obtain outs ys where t: "length outs \<le> length (c' # cs)"
    "nc_resolved t = nc_resolved s1 @ map2 (\<lambda>c out. (ic_reply c, out)) (c' # cs) outs"
    "map (\<lambda>c. (ic_reply c, ic_data c)) (nc_input_queue t) = map (\<lambda>c. (ic_reply c, ic_data c)) (drop (length outs) (c' # cs))"
    "nc_pty t = base @ concat (map2 delivered (c' # cs) outs) @ partial_bytes (nc_input_queue t)"
    "nc_pty t = nc_pty s1 @ ys" "list_all2 (names_bytes o1 (nc_pty t)) (take (length outs) (c' # cs)) outs"
    using assms(1) unfolding turn_settles_def assms(3) by blast
  show ?thesis
    unfolding turn_settles_def
  proof (intro exI [of _ outs] exI [of _ "xs @ ys"] conjI)
    show "list_all2 (names_bytes o1 (nc_pty t)) (take (length outs) (nc_input_queue s)) outs"
      using t(6) assms(2,7) by (cases outs) (simp_all add: names_bytes_def)
    show "nc_pty t = base @ concat (map2 delivered (nc_input_queue s) outs) @ partial_bytes (nc_input_queue t)"
      using t(4) assms(2) delivered_cong [OF assms(7)] by (cases outs) simp_all
    show "map (\<lambda>c. (ic_reply c, ic_data c)) (nc_input_queue t) = map (\<lambda>c. (ic_reply c, ic_data c)) (drop (length outs) (nc_input_queue s))"
      using t(3) assms(2,6,7) by (cases outs) simp_all
    show "nc_resolved t = nc_resolved s @ map2 (\<lambda>c out. (ic_reply c, out)) (nc_input_queue s) outs"
      using t(2) assms(2,4,6) by (cases outs) simp_all
  qed (use t(1,5) assms(2,5) in simp_all)
qed

lemma ledger_front_cong:
  assumes "ledger ops (c # cs) d n" "ic_reply c' = ic_reply c" "ic_data c' = ic_data c"
  shows "ledger ops (c' # cs) d n"
  using assms unfolding ledger_def by (simp del: map_of_eq_Some_iff)

lemma partial_write_ok:
  assumes "input_ok o1 s" "nc_input_queue s = c # cs" "nc_input_failure s = None"
    and "front_expected c s = Some (nc_applied_input_bytes s)" "nc_applied_input_bytes s + length (ic_data c) \<le> U64_MAX"
    and "ic_confirmed c + w < length (ic_data c)"
    and "t = s\<lparr>nc_input_blocked := False, nc_pty := nc_pty s @ take w (drop (ic_confirmed c) (ic_data c)),
               nc_input_queue := c\<lparr>ic_confirmed := ic_confirmed c + w\<rparr> # cs\<rparr>"
  shows "input_ok o1 t"
proof -
  note q = assms(1)[unfolded input_ok_def, THEN conjunct1] and wp = wire_parts [OF assms(1)[unfolded input_ok_def, THEN conjunct2, THEN conjunct2]]
  have L: "ledger (nc_input_operations s) (c # cs) (nc_completed_operations s) (nc_retained_request_bytes s)"
    using input_ok_ledger [OF assms(1)] assms(2) by simp
  have pty: "nc_pty t = take (nc_applied_input_bytes s - o1) (nc_pty s) @ take (ic_confirmed c + w) (ic_data c)"
    using wp(4) [OF assms(3)] assms(2,7) by (simp add: take_add)
  have "history_ok o1 (nc_applied_input_bytes s) (nc_pty t) (nc_input_operations s)"
    using history_grow [OF input_ok_history [OF assms(1)] wp(3), of "nc_applied_input_bytes s"] assms(7) by simp
  moreover have "front_expected (c\<lparr>ic_confirmed := n\<rparr>) t = front_expected c s" for n
    by (simp add: front_expected_def assms(7) split: input_reply.split)
  moreover have "nc_applied_input_bytes t = nc_applied_input_bytes s" "nc_input_failure t = None"
    "nc_input_operations t = nc_input_operations s" "nc_input_queue t = c\<lparr>ic_confirmed := ic_confirmed c + w\<rparr> # cs"
    by (simp_all add: assms(3,7))
  ultimately have "wire_ok o1 t"
    using wp(1-3) assms(4-6) by (simp add: wire_ok_def pty)
  moreover have "queue_ok t" using q assms(2) by (simp add: queue_ok_def assms(7))
  moreover have "ledger_ok t" using ledger_front_cong [OF L] by (simp add: ledger_ok_def assms(7))
  ultimately show ?thesis by (simp add: input_ok_def)
qed

lemma front_expected_some:
  assumes "input_ok o1 s" "nc_input_queue s = c # cs"
  obtains e where "front_expected c s = Some e"
proof (cases "ic_reply c")
  case (RecoverableReply k)
  have L: "ledger (nc_input_operations s) (c # cs) (nc_completed_operations s) (nc_retained_request_bytes s)"
    using input_ok_ledger [OF assms(1)] assms(2) by simp
  obtain r where "map_of (nc_input_operations s) k = Some (EntryPending r)" by (rule ledger_front [OF L RecoverableReply])
  then show thesis using that RecoverableReply by (simp add: front_expected_def del: map_of_eq_Some_iff)
qed (use that in \<open>simp add: front_expected_def\<close>)

lemma front_started:
  assumes "input_ok o1 s" "nc_input_queue s = c # cs" "ic_confirmed c \<noteq> 0"
  shows "ic_confirmed c < length (ic_data c)" "front_expected c s = Some (nc_applied_input_bytes s)"
    "nc_applied_input_bytes s + length (ic_data c) \<le> U64_MAX"
  using assms by (simp_all add: input_ok_def wire_ok_def)

lemma unknown_delivered: "delivered c (Inl (unknown_after e n)) = take n (ic_data c)"
  by (simp add: delivered_def unknown_after_def)

lemma settle_failure_turn:
  assumes "input_ok o1 s" "nc_input_queue s = c # cs" "nc_input_failure s = None"
    and "nc_pty s = base @ partial_bytes (nc_input_queue s)"
  shows "\<exists>t. settle_failure w c cs s = Some t \<and> input_ok o1 t \<and> turn_settles o1 base s t \<and> nc_pty t = nc_pty s"
proof -
  obtain t where t: "settle_failure w c cs s = Some t" "input_ok o1 t" "nc_input_queue t = []" "nc_pty t = nc_pty s"
    "nc_resolved t = nc_resolved s @ (ic_reply c, Inl (unknown_after (failure_of w) (ic_confirmed c)))
        # map (\<lambda>c. (ic_reply c, Inl (reject_outcome (failure_of w) c))) cs"
    using settle_failure_ok [OF assms(1-3), of w] by blast
  let ?outs = "Inl (unknown_after (failure_of w) (ic_confirmed c)) # map (\<lambda>c. Inl (reject_outcome (failure_of w) c)) cs
    :: (control_failure + applied_range) list"
  have fresh: "\<forall>c\<in>set cs. ic_confirmed c = 0"
    using fresh_tail [OF _ assms(2)] assms(1) by (auto simp: input_ok_def any_partial_def)
  have none: "concat (map2 delivered cs (map (\<lambda>c. Inl (reject_outcome (failure_of w) c)) cs)) = []"
    using fresh by (induction cs) (simp_all add: delivered_def reject_outcome_def not_applied_error_def)
  have m: "map2 (\<lambda>c out. (ic_reply c, out)) cs (map (\<lambda>c. Inl (reject_outcome (failure_of w) c)) cs)
      = map (\<lambda>c. (ic_reply c, Inl (reject_outcome (failure_of w) c))) cs"
    by (induction cs) simp_all
  have nb: "list_all2 (names_bytes o1 p) cs (map (\<lambda>c. Inl (reject_outcome (failure_of w) c)) cs)" for p
    by (induction cs) (simp_all add: names_bytes_def)
  have "turn_settles o1 base s t"
    unfolding turn_settles_def
    by (intro exI [of _ ?outs] exI [of _ "[]"])
      (use t assms(2,4) none m [symmetric] nb in \<open>simp add: unknown_delivered names_bytes_def\<close>)
  then show ?thesis using t by blast
qed

text \<open>What a turn guarantees; the induction is on the allowance left.\<close>

definition turn_ok :: "u64 \<Rightarrow> byte list \<Rightarrow> nat \<Rightarrow> native_control \<Rightarrow> native_control \<Rightarrow> bool" where
  "turn_ok origin base bytes s t \<longleftrightarrow> input_ok origin t \<and> turn_settles origin base s t
     \<and> length (nc_pty t) \<le> length (nc_pty s) + bytes"

lemma turn_ok_idle:
  assumes "input_ok o1 s" "nc_pty s = base @ partial_bytes (nc_input_queue s)"
  shows "turn_ok o1 base bytes s s" "turn_ok o1 base bytes s (s\<lparr>nc_input_blocked := b\<rparr>)"
    "turn_ok o1 base bytes s (s\<lparr>nc_input_scheduled := sc, nc_input_blocked := b\<rparr>)"
proof -
  have "input_ok o1 (s\<lparr>nc_input_blocked := b\<rparr>)" "input_ok o1 (s\<lparr>nc_input_scheduled := sc, nc_input_blocked := b\<rparr>)"
    by (subst input_ok_cong [of _ s]; simp add: assms(1))+
  then show "turn_ok o1 base bytes s s" "turn_ok o1 base bytes s (s\<lparr>nc_input_blocked := b\<rparr>)"
    "turn_ok o1 base bytes s (s\<lparr>nc_input_scheduled := sc, nc_input_blocked := b\<rparr>)"
    using assms turn_settles_none [OF assms(2)] by (simp_all add: turn_ok_def)
qed

text \<open>The write at the front: what it leaves, given how a shorter turn continues.\<close>

lemma progress_written:
  assumes IH: "\<And>calls' commands' bytes' s' base'. commands' + bytes' < commands + bytes \<Longrightarrow> input_ok o1 s' \<Longrightarrow>
      nc_pty s' = base' @ partial_bytes (nc_input_queue s') \<Longrightarrow>
      \<exists>t. progress_input contended krn calls' commands' bytes' s' = Some t \<and> turn_ok o1 base' bytes' s' t"
    and ok: "input_ok o1 s" "nc_input_queue s = c # cs" "nc_input_failure s = None"
    and front: "front_expected c s = Some (nc_applied_input_bytes s)" "nc_applied_input_bytes s + length (ic_data c) \<le> U64_MAX"
    and pty: "nc_pty s = base @ partial_bytes (nc_input_queue s)"
    and w: "written \<le> min (length (ic_data c) - ic_confirmed c) bytes" "written > 0 \<or> ic_data c = []"
    and pos: "0 < commands" "0 < bytes"
    and s1: "s1 = s\<lparr>nc_input_blocked := False, nc_pty := nc_pty s @ take written (drop (ic_confirmed c) (ic_data c))\<rparr>"
    and c1: "c1 = c\<lparr>ic_confirmed := ic_confirmed c + written\<rparr>"
  shows "\<exists>t. (if ic_confirmed c1 \<noteq> length (ic_data c1)
          then (if written = 0 then None
                else progress_input contended krn calls' commands (bytes - written) (s1\<lparr>nc_input_queue := c1 # cs\<rparr>))
          else Option.bind (settle_complete c1 cs (nc_applied_input_bytes s + length (ic_data c)) s1)
                 (progress_input contended krn calls' (commands - 1) (bytes - written))) = Some t
      \<and> turn_ok o1 base bytes s t"
proof (cases "ic_confirmed c1 = length (ic_data c1)")
  case False
  have lt: "ic_confirmed c + written < length (ic_data c)"
    using False w(1) front_started [OF ok(1,2)] by (cases "ic_confirmed c = 0") (auto simp: c1)
  then have wpos: "0 < written" using w(2) by auto
  let ?s = "s1\<lparr>nc_input_queue := c1 # cs\<rparr>"
  have "input_ok o1 ?s" by (rule partial_write_ok [OF ok front lt]) (simp add: s1 c1)
  moreover have "nc_pty ?s = base @ partial_bytes (nc_input_queue ?s)" using pty ok(2) by (simp add: s1 c1 take_add)
  moreover have "commands + (bytes - written) < commands + bytes" using wpos pos by simp
  ultimately obtain t where t: "progress_input contended krn calls' commands (bytes - written) ?s = Some t"
    "turn_ok o1 base (bytes - written) ?s t" using IH by blast
  have "turn_settles o1 base s t"
    by (rule turn_settles_partial [of o1 base ?s t s c cs c1 "take written (drop (ic_confirmed c) (ic_data c))"])
      (use t(2) ok(2) in \<open>simp_all add: turn_ok_def s1 c1\<close>)
  then have "turn_ok o1 base bytes s t" using t(2) w(1) wpos by (auto simp: turn_ok_def s1)
  then show ?thesis using False t(1) wpos by simp
next
  case True
  have le: "ic_confirmed c \<le> length (ic_data c)" using True by (simp add: c1)
  have chunk: "take written (drop (ic_confirmed c) (ic_data c)) = drop (ic_confirmed c) (ic_data c)"
    using True by (simp add: c1)
  have c1': "c1 = c\<lparr>ic_confirmed := length (ic_data c)\<rparr>" using True by (simp add: c1)
  obtain t1 rng where t1: "settle_complete c1 cs (nc_applied_input_bytes s + length (ic_data c)) s1 = Some t1" "input_ok o1 t1"
    "nc_input_queue t1 = cs" "nc_pty t1 = nc_pty s1" "nc_resolved t1 = nc_resolved s @ [(ic_reply c, Inr rng)]"
    "rng = \<lparr>ar_start = nc_applied_input_bytes s, ar_end = nc_applied_input_bytes s + length (ic_data c)\<rparr>"
    using settle_complete_ok [OF ok front, of s1 c1] c1' by (auto simp: s1 chunk)
  have fresh: "partial_bytes cs = []"
    using fresh_tail [OF _ ok(2)] ok(1) by (cases cs) (auto simp: input_ok_def any_partial_def)
  have pty1: "nc_pty s1 = base @ ic_data c" using pty ok(2) chunk by (simp add: s1)
  have "nc_pty t1 = (base @ delivered c (Inr rng)) @ partial_bytes (nc_input_queue t1)"
    using t1(3,4) pty1 fresh by (simp add: delivered_def)
  moreover have "commands - 1 + (bytes - written) < commands + bytes" using pos by simp
  ultimately obtain t where t: "progress_input contended krn calls' (commands - 1) (bytes - written) t1 = Some t"
    "turn_ok o1 (base @ delivered c (Inr rng)) (bytes - written) t1 t" using IH t1(2) by blast
  note wp = wire_parts [OF ok(1)[unfolded input_ok_def, THEN conjunct2, THEN conjunct2]]
  have base: "base = take (nc_applied_input_bytes s - o1) (nc_pty s)"
    using pty wp(4) [OF ok(3)] by (metis append_same_eq)
  have "names_bytes o1 (nc_pty t1 @ ys) c (Inr rng)" for ys
    using wp(1,3) t1(4,6) pty1 base by (simp add: names_bytes_def)
  then have "turn_settles o1 base s t"
    using t(2) by (intro turn_settles_front [of o1 base c "Inr rng" t1 t s cs "drop (ic_confirmed c) (ic_data c)"])
      (auto simp: turn_ok_def ok(2) t1(3,4,5) s1 chunk)
  moreover have "length (nc_pty t) \<le> length (nc_pty s) + bytes"
    using t(2) t1(4) w(1) by (auto simp: turn_ok_def s1)
  ultimately have "turn_ok o1 base bytes s t" using t(2) by (simp add: turn_ok_def)
  then show ?thesis using True t(1) t1(1) by simp
qed

lemma progress_mismatch:
  assumes IH: "\<And>calls' commands' bytes' s' base'. commands' + bytes' < commands + bytes \<Longrightarrow> input_ok o1 s' \<Longrightarrow>
      nc_pty s' = base' @ partial_bytes (nc_input_queue s') \<Longrightarrow>
      \<exists>t. progress_input contended krn calls' commands' bytes' s' = Some t \<and> turn_ok o1 base' bytes' s' t"
    and ok: "input_ok o1 s" "nc_input_queue s = c # cs" "nc_input_failure s = None" "ic_confirmed c = 0"
    and pty: "nc_pty s = base @ partial_bytes (nc_input_queue s)" and pos: "0 < commands"
  shows "\<exists>t. Option.bind (settle_mismatch c cs s) (progress_input contended krn calls (commands - 1) bytes) = Some t
      \<and> turn_ok o1 base bytes s t"
proof -
  obtain t1 f where t1: "settle_mismatch c cs s = Some t1" "input_ok o1 t1" "nc_input_queue t1 = cs" "nc_pty t1 = nc_pty s"
    "nc_resolved t1 = nc_resolved s @ [(ic_reply c, Inl f)]" "cf_confirmed_input_bytes f = None"
    using settle_mismatch_ok [OF ok(1,2,4,3)] by blast
  have d: "delivered c (Inl f) = []" using t1(6) by (simp add: delivered_def)
  have "partial_bytes cs = []"
    using fresh_tail [OF _ ok(2)] ok(1) by (cases cs) (auto simp: input_ok_def any_partial_def)
  then have "nc_pty t1 = (base @ delivered c (Inl f)) @ partial_bytes (nc_input_queue t1)"
    using pty ok(2,4) t1(3,4) d by simp
  moreover have "commands - 1 + bytes < commands + bytes" using pos by simp
  ultimately obtain t where t: "progress_input contended krn calls (commands - 1) bytes t1 = Some t"
    "turn_ok o1 (base @ delivered c (Inl f)) bytes t1 t" using IH t1(2) by blast
  have "turn_settles o1 base s t"
    using t(2) by (intro turn_settles_front [of o1 base c "Inl f" t1 t s cs "[]"]) (auto simp: turn_ok_def ok(2) t1(3,4,5))
  then have "turn_ok o1 base bytes s t" using t(2) t1(4) by (simp add: turn_ok_def)
  then show ?thesis using t(1) t1(1) by simp
qed

lemma settle_failure_turn_ok:
  assumes "input_ok o1 s" "nc_input_queue s = c # cs" "nc_input_failure s = None"
    and "nc_pty s = base @ partial_bytes (nc_input_queue s)"
  shows "\<exists>t. settle_failure w c cs s = Some t \<and> turn_ok o1 base bytes s t"
  using settle_failure_turn [OF assms, of w] by (fastforce simp: turn_ok_def)

text \<open>The documented contract of \<^verbatim>\<open>write\<close>: it reports at most the bytes it was offered.\<close>

definition bounded_writes :: "(nat \<Rightarrow> usize \<Rightarrow> write_outcome) \<Rightarrow> bool" where
  "bounded_writes krn \<longleftrightarrow> (\<forall>i len n. krn i len = Wrote n \<longrightarrow> n \<le> len)"

lemma progress_input_ok:
  assumes krn: "bounded_writes krn"
    and "input_ok o1 s" "nc_pty s = base @ partial_bytes (nc_input_queue s)"
  shows "\<exists>t. progress_input contended krn calls commands bytes s = Some t \<and> turn_ok o1 base bytes s t"
  using assms(2,3)
proof (induction "commands + bytes" arbitrary: calls commands bytes s base rule: less_induct)
  case less
  note ok = less.prems and idle = turn_ok_idle [OF less.prems]
  note unfold = progress_input.simps [of contended krn calls commands bytes s]
  consider (stop) "commands = 0 \<or> bytes = 0 \<or> contended commands bytes \<or> nc_phase s \<noteq> ControlOpen
      \<or> nc_input_failure s \<noteq> None \<or> nc_owner_lost s \<noteq> None"
    | (empty) "nc_input_queue s = []"
    | (front) c cs where "nc_input_queue s = c # cs" "commands \<noteq> 0" "bytes \<noteq> 0" "\<not> contended commands bytes"
        "nc_phase s = ControlOpen" "nc_input_failure s = None" "nc_owner_lost s = None"
    by (cases "nc_input_queue s") auto
  then show ?case
  proof cases
    case stop
    then show ?thesis unfolding unfold using idle(1) by auto
  next
    case empty
    then show ?thesis unfolding unfold using idle(1,3) by auto
  next
    case (front c cs)
    note run = front
    have pos: "0 < commands" "0 < bytes" using run by auto
    obtain expected where e: "front_expected c s = Some expected" by (rule front_expected_some [OF ok(1) run(1)])
    let ?at = "if expected = nc_applied_input_bytes s then checked_add (nc_applied_input_bytes s) (length (ic_data c)) else None"
    let ?len = "min (length (ic_data c) - ic_confirmed c) bytes"
    consider (mismatch) "?at = None" | (attempt) "expected = nc_applied_input_bytes s" "nc_applied_input_bytes s + length (ic_data c) \<le> U64_MAX"
      by (cases "expected = nc_applied_input_bytes s \<and> nc_applied_input_bytes s + length (ic_data c) \<le> U64_MAX")
        (auto simp: checked_add_def)
    then show ?thesis
    proof cases
      case mismatch
      then have z: "ic_confirmed c = 0"
        using front_started [OF ok(1) run(1)] e by (cases "ic_confirmed c = 0") (auto split: if_splits)
      have "progress_input contended krn calls commands bytes s
          = Option.bind (settle_mismatch c cs s) (progress_input contended krn calls (commands - 1) bytes)"
        unfolding unfold using run e mismatch by simp
      then show ?thesis using progress_mismatch [OF less.hyps ok(1) run(1,6) z ok(2) pos(1)] by simp
    next
      case attempt
      have step: "?at = Some (nc_applied_input_bytes s + length (ic_data c))" using attempt by simp
      note fe = e [unfolded attempt(1)]
      note fails = settle_failure_turn_ok [OF ok(1) run(1,6) ok(2)]
      show ?thesis
      proof (cases "attempt_write krn calls ?len s")
        case (Wrote written)
        have le: "written \<le> ?len"
          using Wrote krn [unfolded bounded_writes_def, rule_format, of calls ?len written]
          by (auto simp: attempt_write_def split: if_splits input_writer.splits)
        show ?thesis
        proof (cases "written > 0 \<or> ic_data c = []")
          case True
          let ?c = "c\<lparr>ic_confirmed := ic_confirmed c + written\<rparr>" and ?calls = "if ?len = 0 then calls else calls + 1"
          let ?s = "s\<lparr>nc_input_blocked := False, nc_pty := nc_pty s @ take written (drop (ic_confirmed c) (ic_data c))\<rparr>"
          have turn: "progress_input contended krn calls commands bytes s = (if ic_confirmed ?c \<noteq> length (ic_data ?c)
              then (if written = 0 then None
                    else progress_input contended krn ?calls commands (bytes - written) (?s\<lparr>nc_input_queue := ?c # cs\<rparr>))
              else Option.bind (settle_complete ?c cs (nc_applied_input_bytes s + length (ic_data c)) ?s)
                     (progress_input contended krn ?calls (commands - 1) (bytes - written)))"
            unfolding unfold Let_def using run e step True Wrote by (simp cong: if_cong)
          show ?thesis
            unfolding turn by (rule progress_written [OF less.hyps ok(1) run(1,6) fe attempt(2) ok(2) le True pos refl refl])
        next
          case False
          then show ?thesis unfolding unfold using run e step Wrote fails by (simp add: Let_def)
        qed
      qed (unfold unfold, use run e step fails idle in \<open>simp_all add: Let_def\<close>)
    qed
  qed
qed

text \<open>
  C27.  A write turn delivers input exactly once.  For any kernel that never writes more than it was
  offered, any allowance and any lock contention, the turn never panics and keeps the lane's
  invariant; a prefix of the queue is settled in FIFO order, once per command; the wire grows by
  exactly the whole data of the commands answered with a receipt, the confirmed prefix of the one
  answered "unknown", nothing of those answered "not applied", and the prefix of the command still in
  progress; every receipt's range names its command's bytes on the wire; and the turn writes no more
  than its byte allowance.
\<close>

theorem progress_exactly_once:
  assumes "bounded_writes krn" and "input_ok origin s" and "nc_pty s = base @ partial_bytes (nc_input_queue s)"
  shows "\<exists>t outs. progress_input contended krn calls commands bytes s = Some t \<and> input_ok origin t
    \<and> length (nc_pty t) \<le> length (nc_pty s) + bytes
    \<and> length outs \<le> length (nc_input_queue s)
    \<and> nc_resolved t = nc_resolved s @ map2 (\<lambda>c out. (ic_reply c, out)) (nc_input_queue s) outs
    \<and> map (\<lambda>c. (ic_reply c, ic_data c)) (nc_input_queue t)
        = map (\<lambda>c. (ic_reply c, ic_data c)) (drop (length outs) (nc_input_queue s))
    \<and> nc_pty t = base @ concat (map2 delivered (nc_input_queue s) outs) @ partial_bytes (nc_input_queue t)
    \<and> list_all2 (names_bytes origin (nc_pty t)) (take (length outs) (nc_input_queue s)) outs"
proof -
  obtain t where t: "progress_input contended krn calls commands bytes s = Some t" "turn_ok origin base bytes s t"
    using progress_input_ok [OF assms] by blast
  then obtain outs ys where "length outs \<le> length (nc_input_queue s)"
    "nc_resolved t = nc_resolved s @ map2 (\<lambda>c out. (ic_reply c, out)) (nc_input_queue s) outs"
    "map (\<lambda>c. (ic_reply c, ic_data c)) (nc_input_queue t) = map (\<lambda>c. (ic_reply c, ic_data c)) (drop (length outs) (nc_input_queue s))"
    "nc_pty t = base @ concat (map2 delivered (nc_input_queue s) outs) @ partial_bytes (nc_input_queue t)"
    "nc_pty t = nc_pty s @ ys" "list_all2 (names_bytes origin (nc_pty t)) (take (length outs) (nc_input_queue s)) outs"
    unfolding turn_ok_def turn_settles_def by blast
  then show ?thesis using t by (intro exI [of _ t] exI [of _ outs]) (simp add: turn_ok_def)
qed

text \<open>A lane with one keyed command, five bytes, two of them already on the wire.\<close>

definition sample_lane :: native_control where
  "sample_lane = \<lparr>nc_phase = ControlOpen, nc_input_failure = None,
     nc_input_queue = [\<lparr>ic_memory = None, ic_data = [104, 101, 108, 108, 111], ic_confirmed = 2, ic_reply = RecoverableReply ''k''\<rparr>],
     nc_input_commands = 1, nc_input_bytes = 5, nc_input_scheduled = True, nc_input_blocked = False,
     nc_owner_lost = None, nc_owner_failure = None, nc_applied_input_bytes = 7,
     nc_input_operations = [(''k'', EntryPending \<lparr>iq_memory = Some 9, iq_expected_byte = 7, iq_data = [104, 101, 108, 108, 111]\<rparr>)],
     nc_completed_operations = [], nc_retained_request_bytes = 5, nc_result_max_entries = 4,
     nc_result_max_request_bytes = 64, nc_child_open = True, nc_stop_pending = False, nc_child_commands = [], nc_confirmed_size = None, nc_master_open = True, nc_writer = WriterFile,
     nc_budget = \<lparr>bb_limit = 100, bb_used = 9\<rparr>, nc_resolved = [], nc_pty = [104, 101]\<rparr>"

lemma sample_lane_ok: "input_ok 7 sample_lane" "nc_pty sample_lane = [] @ partial_bytes (nc_input_queue sample_lane)"
  by (simp_all add: sample_lane_def input_ok_def queue_ok_def ledger_ok_def ledger_def wire_ok_def op_bytes_def
      front_expected_def history_ok_def max_values)

theorem progress_exactly_once_witness:
  "\<exists>t outs. progress_input (\<lambda>_ _. False) (\<lambda>i len. Wrote (min 1 len)) 0 4 2 sample_lane = Some t \<and> input_ok 7 t
    \<and> nc_pty t = [] @ concat (map2 delivered (nc_input_queue sample_lane) outs) @ partial_bytes (nc_input_queue t)"
proof -
  have "bounded_writes (\<lambda>i len. Wrote (min 1 len))" by (simp add: bounded_writes_def)
  from progress_exactly_once [OF this sample_lane_ok, of "\<lambda>_ _. False" 0 4 2] show ?thesis by blast
qed

section \<open>Eviction\<close>

text \<open>Eviction forgets completed results only, oldest first, and only as far as it must.\<close>

definition evicted :: "native_control \<Rightarrow> native_control \<Rightarrow> bool" where
  "evicted s t \<longleftrightarrow> same_lane s t \<and> nc_input_queue t = nc_input_queue s \<and> nc_input_commands t = nc_input_commands s
     \<and> nc_input_bytes t = nc_input_bytes s \<and> nc_input_failure t = nc_input_failure s
     \<and> nc_result_max_entries t = nc_result_max_entries s \<and> nc_result_max_request_bytes t = nc_result_max_request_bytes s
     \<and> length (nc_input_operations t) \<le> length (nc_input_operations s) \<and> nc_retained_request_bytes t \<le> nc_retained_request_bytes s
     \<and> (\<forall>k. map_of (nc_input_operations t) k = map_of (nc_input_operations s) k
          \<or> map_of (nc_input_operations t) k = None \<and> (\<exists>r rng. map_of (nc_input_operations s) k = Some (EntryCompleted r rng)))"

lemma evicted_trans:
  assumes "evicted s u" "evicted u t"
  shows "evicted s t"
proof -
  have "map_of (nc_input_operations t) k = map_of (nc_input_operations s) k
      \<or> map_of (nc_input_operations t) k = None \<and> (\<exists>r rng. map_of (nc_input_operations s) k = Some (EntryCompleted r rng))" for k
    using assms unfolding evicted_def by metis
  moreover have "same_lane s t" using assms same_lane_trans [of s u t] by (simp add: evicted_def)
  ultimately show ?thesis using assms unfolding evicted_def by simp
qed

lemma length_delete_le: "length (AList.delete k ops) \<le> length ops"
  by (simp add: AList.delete_eq)

lemma evict_loop_ok:
  assumes "ledger (nc_input_operations s) (nc_input_queue s) keys (nc_retained_request_bytes s)"
    and "history_ok o1 (nc_applied_input_bytes s) (nc_pty s) (nc_input_operations s)"
  shows "\<exists>t. evict_loop n keys s = Some t \<and> evicted s t
    \<and> ledger (nc_input_operations t) (nc_input_queue t) (nc_completed_operations t) (nc_retained_request_bytes t)
    \<and> history_ok o1 (nc_applied_input_bytes t) (nc_pty t) (nc_input_operations t)
    \<and> (result_room n t \<or> nc_completed_operations t = [])
    \<and> (result_room n s \<longrightarrow> nc_input_operations t = nc_input_operations s)"
  using assms
proof (induction keys arbitrary: s)
  case Nil
  then show ?case by (simp add: evicted_def same_lane_def)
next
  case (Cons key keys)
  show ?case
  proof (cases "result_room n s")
    case True
    then show ?thesis using Cons.prems by (simp add: evicted_def same_lane_def result_room_def)
  next
    case False
    obtain r rng where r: "map_of (nc_input_operations s) key = Some (EntryCompleted r rng)"
      "length (iq_data r) \<le> nc_retained_request_bytes s"
      "ledger (AList.delete key (nc_input_operations s)) (nc_input_queue s) keys (nc_retained_request_bytes s - length (iq_data r))"
      by (rule ledger_evict [OF Cons.prems(1)])
    define u where "u = drop_permit_option (iq_memory r) (s\<lparr>nc_input_operations := AList.delete key (nc_input_operations s),
      nc_retained_request_bytes := nc_retained_request_bytes s - length (iq_data r)\<rparr>)"
    have rm: "remove_input_operation key s = Some u"
      using r(1,2) by (simp add: remove_input_operation_def checked_sub_def u_def del: map_of_eq_Some_iff)
    have uf: "nc_input_operations u = AList.delete key (nc_input_operations s)" "nc_input_queue u = nc_input_queue s"
      "nc_retained_request_bytes u = nc_retained_request_bytes s - length (iq_data r)" "nc_pty u = nc_pty s"
      "nc_applied_input_bytes u = nc_applied_input_bytes s"
      by (simp_all add: u_def)
    obtain t where t: "evict_loop n keys u = Some t" "evicted u t"
      "ledger (nc_input_operations t) (nc_input_queue t) (nc_completed_operations t) (nc_retained_request_bytes t)"
      "history_ok o1 (nc_applied_input_bytes t) (nc_pty t) (nc_input_operations t)"
      "result_room n t \<or> nc_completed_operations t = []"
      using Cons.IH [of u] r(3) history_delete [OF Cons.prems(2)] by (auto simp: uf)
    have "same_lane s u" "nc_input_commands u = nc_input_commands s" "nc_input_bytes u = nc_input_bytes s"
      "nc_input_failure u = nc_input_failure s" "nc_result_max_entries u = nc_result_max_entries s"
      "nc_result_max_request_bytes u = nc_result_max_request_bytes s"
      by (simp_all add: u_def) (simp add: same_lane_def)
    then have "evicted s u"
      using r(1) by (simp add: evicted_def uf map_of_delete length_delete_le del: map_of_eq_Some_iff)
    then have "evicted s t" by (rule evicted_trans [OF _ t(2)])
    moreover have "evict_loop n (key # keys) s = Some t" using False r(1) rm t(1) by (simp del: map_of_eq_Some_iff)
    ultimately show ?thesis using t(3-5) False by blast
  qed
qed

lemma evict_ok:
  assumes "input_ok o1 s"
  shows "\<exists>t. evict_completed_input_results n s = Some t \<and> evicted s t \<and> input_ok o1 t
    \<and> (result_room n s \<longrightarrow> nc_input_operations t = nc_input_operations s)"
proof -
  obtain t where t: "evict_completed_input_results n s = Some t" "evicted s t"
    "ledger (nc_input_operations t) (nc_input_queue t) (nc_completed_operations t) (nc_retained_request_bytes t)"
    "history_ok o1 (nc_applied_input_bytes t) (nc_pty t) (nc_input_operations t)"
    "result_room n s \<longrightarrow> nc_input_operations t = nc_input_operations s"
    using evict_loop_ok [OF input_ok_ledger [OF assms] input_ok_history [OF assms], of n]
    unfolding evict_completed_input_results_def by blast
  have f: "nc_input_queue t = nc_input_queue s" "nc_input_commands t = nc_input_commands s" "nc_input_bytes t = nc_input_bytes s"
    "nc_pty t = nc_pty s" "nc_applied_input_bytes t = nc_applied_input_bytes s" "nc_input_failure t = nc_input_failure s"
    using t(2) by (simp_all add: evicted_def same_lane_def)
  have "front_ok t (nc_input_queue s)"
  proof (cases "nc_input_queue s")
    case (Cons c cs)
    have "front_expected c t = front_expected c s"
    proof (cases "ic_reply c")
      case (RecoverableReply k)
      have "ledger (nc_input_operations s) (c # cs) (nc_completed_operations s) (nc_retained_request_bytes s)"
        using input_ok_ledger [OF assms] Cons by simp
      then obtain r where "map_of (nc_input_operations s) k = Some (EntryPending r)" by (rule ledger_front [OF _ RecoverableReply])
      then have "map_of (nc_input_operations t) k = map_of (nc_input_operations s) k"
        using t(2) unfolding evicted_def by (metis input_entry.distinct(1) option.inject)
      then show ?thesis by (simp add: front_expected_def RecoverableReply)
    qed (simp add: front_expected_def f)
    then show ?thesis using assms f by (auto simp: Cons input_ok_def wire_ok_def)
  qed simp
  then have "input_ok o1 t"
    using assms t(3,4) f unfolding input_ok_def queue_ok_def ledger_ok_def wire_ok_def by simp
  then show ?thesis using t(1,2,5) by blast
qed

section \<open>Admission\<close>

lemma input_ok_push:
  assumes "input_ok o1 s" "nc_input_failure s = None" "ic_confirmed c = 0"
    and "ledger (nc_input_operations t) (nc_input_queue s @ [c]) (nc_completed_operations t) (nc_retained_request_bytes t)"
    and "history_ok o1 (nc_applied_input_bytes s) (nc_pty s) (nc_input_operations t)"
    and "\<And>k r. map_of (nc_input_operations s) k = Some r \<Longrightarrow> map_of (nc_input_operations t) k = Some r"
    and "nc_input_queue t = nc_input_queue s @ [c]" "nc_input_commands t = nc_input_commands s + 1"
    and "nc_input_bytes t = nc_input_bytes s + length (ic_data c)" "nc_pty t = nc_pty s"
    and "nc_applied_input_bytes t = nc_applied_input_bytes s" "nc_input_failure t = None"
  shows "input_ok o1 t"
proof -
  have "front_ok t (nc_input_queue t) \<and> partial_bytes (nc_input_queue t) = partial_bytes (nc_input_queue s)
      \<and> (\<forall>c\<in>set (tl (nc_input_queue t)). ic_confirmed c = 0)"
  proof (cases "nc_input_queue s")
    case Nil
    then show ?thesis using assms(3,7) by simp
  next
    case (Cons a as)
    have "front_expected a t = Some e" if "front_expected a s = Some e" for e
      using that assms(6,11) by (auto simp: front_expected_def simp del: map_of_eq_Some_iff split: input_reply.splits)
    then show ?thesis
      using assms(1,3,7,11) Cons by (auto simp: input_ok_def wire_ok_def queue_ok_def)
  qed
  then show ?thesis
    using assms unfolding input_ok_def queue_ok_def ledger_ok_def wire_ok_def by simp
qed

lemma begin_input_ok:
  assumes "input_ok o1 s" and "begin_input_locked rs sz reply data memory s = (res, t)"
  shows "input_ok o1 t"
proof (cases "lane_refusal s = None \<and> \<not> queue_full rs (length data) s \<and> reserve_memory memory (length data + sz) s \<noteq> None")
  case True
  then obtain p u where u: "reserve_memory memory (length data + sz) s = Some (p, u)" by auto
  have uf: "u = s\<lparr>nc_budget := nc_budget u\<rparr>"
    using u by (auto simp: reserve_memory_def split: option.splits)
  have fail: "nc_input_failure s = None" using True by (simp add: lane_refusal_def split: if_splits)
  let ?c = "\<lparr>ic_memory = Some p, ic_data = data, ic_confirmed = 0, ic_reply = LegacyReply reply\<rparr>"
  have t: "t = u\<lparr>nc_input_commands := nc_input_commands u + 1, nc_input_bytes := nc_input_bytes u + length data,
      nc_input_queue := nc_input_queue u @ [?c], nc_input_scheduled := True\<rparr>"
    using assms(2) True u by (simp add: begin_input_locked_def)
  have "ledger (nc_input_operations s) (nc_input_queue s @ [?c]) (nc_completed_operations s) (nc_retained_request_bytes s)"
    by (rule ledger_push_legacy [OF input_ok_ledger [OF assms(1)]]) simp
  then show ?thesis
    by (intro input_ok_push [OF assms(1) fail, of ?c])
      (use input_ok_history [OF assms(1)] fail in \<open>simp_all add: t, (subst uf, simp)+\<close>)
next
  case False
  then show ?thesis using assms by (auto simp: begin_input_locked_def split: option.splits if_splits)
qed

lemma reserve_memory_frame:
  assumes "reserve_memory m n s = Some (p, u)"
  shows "u = s\<lparr>nc_budget := nc_budget u\<rparr>"
  using assms by (auto simp: reserve_memory_def split: option.splits)

lemma lane_refusal_none: "lane_refusal s = None \<Longrightarrow> nc_input_failure s = None"
  by (simp add: lane_refusal_def split: if_splits)

lemma lane_refusal_not_applied: "lane_refusal s = Some f \<Longrightarrow> cf_disposition f = NotApplied"
  by (auto simp: lane_refusal_def invalid_phase_error_def not_applied_def not_applied_error_def split: if_splits)

text \<open>An admitted keyed request: it is queued once, recorded as pending, and within the limits.\<close>

definition keyed_admitted :: "resource_limits \<Rightarrow> input_key \<Rightarrow> input_operation_request \<Rightarrow> native_control \<Rightarrow> native_control \<Rightarrow> bool" where
  "keyed_admitted rs k req s t \<longleftrightarrow>
     nc_input_queue t = nc_input_queue s @ [\<lparr>ic_memory = None, ic_data = iq_data req, ic_confirmed = 0, ic_reply = RecoverableReply k\<rparr>]
     \<and> (\<exists>m. map_of (nc_input_operations t) k = Some (EntryPending (req\<lparr>iq_memory := m\<rparr>)))
     \<and> nc_input_commands t \<le> input_queue_commands rs \<and> nc_input_bytes t \<le> input_queue_bytes rs
     \<and> length (nc_input_operations t) \<le> nc_result_max_entries t
     \<and> nc_retained_request_bytes t \<le> nc_result_max_request_bytes t"

lemma enqueue_recoverable_ok:
  assumes "input_ok o1 s" "nc_input_failure s = None" "map_of (nc_input_operations s) k = None" "iq_data req \<noteq> []"
    and "result_room (length (iq_data req)) s" "\<not> queue_full rs (length (iq_data req)) s"
    and "u = s\<lparr>nc_budget := b\<rparr>" "req' = req\<lparr>iq_memory := m\<rparr>"
  shows "input_ok o1 (enqueue_recoverable k req' u)" "keyed_admitted rs k req s (enqueue_recoverable k req' u)"
proof -
  let ?c = "\<lparr>ic_memory = None, ic_data = iq_data req, ic_confirmed = 0, ic_reply = RecoverableReply k\<rparr>"
  have led: "ledger (AList.update k (EntryPending req') (nc_input_operations s)) (nc_input_queue s @ [?c])
      (nc_completed_operations s) (nc_retained_request_bytes s + length (iq_data req))"
    using ledger_push_keyed [OF input_ok_ledger [OF assms(1)], of ?c k req'] assms(3,8) by simp
  have hist: "history_ok o1 (nc_applied_input_bytes s) (nc_pty s) (AList.update k (EntryPending req') (nc_input_operations s))"
    by (rule history_update_other [OF input_ok_history [OF assms(1)]]) simp
  show "input_ok o1 (enqueue_recoverable k req' u)"
    by (rule input_ok_push [OF assms(1,2), of ?c])
      (use led hist assms(2,3) in \<open>auto simp: enqueue_recoverable_def assms(7,8) map_of_update simp del: map_of_eq_Some_iff\<close>)
  have room: "x + length (iq_data req) \<le> y" if "\<not> y - x < length (iq_data req)" for x y
  proof -
    have "0 < length (iq_data req)" using assms(4) by simp
    then show ?thesis using that by linarith
  qed
  show "keyed_admitted rs k req s (enqueue_recoverable k req' u)"
    using assms(3,5,6) length_update_new [of k "nc_input_operations s"] room
    by (auto simp: keyed_admitted_def enqueue_recoverable_def assms(7,8) map_of_update result_room_def queue_full_def
        saturating_sub_def map_of_eq_None_iff simp del: map_of_eq_Some_iff)
qed

lemma keyed_fresh:
  assumes "input_ok o1 s" "map_of (nc_input_operations s) k = None" "iq_data req \<noteq> []"
  shows "\<exists>res t. begin_recoverable_input_locked rs sz k req s = Some (res, t) \<and> input_ok o1 t
    \<and> nc_pty t = nc_pty s \<and> nc_resolved t = nc_resolved s
    \<and> (res = Inr InputPending \<and> keyed_admitted rs k req s t
       \<or> (\<exists>f. res = Inl f \<and> cf_disposition f = NotApplied) \<and> nc_input_queue t = nc_input_queue s
         \<and> map_of (nc_input_operations t) k = None)"
proof (cases "lane_refusal s")
  case (Some f)
  then show ?thesis
    using assms lane_refusal_not_applied by (simp add: begin_recoverable_input_locked_def retained_input_result_def)
next
  case None
  obtain u where u: "evict_completed_input_results (length (iq_data req)) s = Some u" "evicted s u" "input_ok o1 u"
    using evict_ok [OF assms(1)] by blast
  have uf: "nc_input_queue u = nc_input_queue s" "nc_pty u = nc_pty s" "nc_resolved u = nc_resolved s"
    "map_of (nc_input_operations u) k = None" "nc_input_failure u = None"
    using u(2) assms(2) lane_refusal_none [OF None] unfolding evicted_def same_lane_def by metis+
  let ?refused = "\<not> result_room (length (iq_data req)) u \<or> queue_full rs (length (iq_data req)) u"
  let ?memory = "reserve_memory (iq_memory req) (input_receipt_charge sz k (iq_data req)) u"
  have eq: "begin_recoverable_input_locked rs sz k req s = Some
      (if ?refused then (Inl (not_applied ControlBackpressure ''recoverable Input result or queue capacity is full''),
           drop_permit_option (iq_memory req) u)
       else (case ?memory of
               None \<Rightarrow> (Inl (not_applied ControlBackpressure ''daemon control-state byte budget is full''), u)
             | Some (p, v) \<Rightarrow> (Inr InputPending, enqueue_recoverable k (req\<lparr>iq_memory := Some p\<rparr>) v)))"
    using None u(1) assms(2) by (simp add: begin_recoverable_input_locked_def retained_input_result_def)
  consider (full) ?refused | (unfunded) "\<not> ?refused" "?memory = None" | (admit) p v where "\<not> ?refused" "?memory = Some (p, v)"
    by (cases ?memory) auto
  then show ?thesis
  proof cases
    case full
    then show ?thesis using eq u(3) uf by (simp add: not_applied_def)
  next
    case unfunded
    then show ?thesis using eq u(3) uf by (simp add: not_applied_def)
  next
    case (admit p v)
    have v: "v = u\<lparr>nc_budget := nc_budget v\<rparr>" by (rule reserve_memory_frame [OF admit(2)])
    have ok: "input_ok o1 (enqueue_recoverable k (req\<lparr>iq_memory := Some p\<rparr>) v)"
      "keyed_admitted rs k req u (enqueue_recoverable k (req\<lparr>iq_memory := Some p\<rparr>) v)"
      using enqueue_recoverable_ok [OF u(3) uf(5,4) assms(3) _ _ v refl] admit(1) by auto
    have "nc_pty v = nc_pty s" "nc_resolved v = nc_resolved s" by (subst v, simp add: uf)+
    then have "nc_pty (enqueue_recoverable k (req\<lparr>iq_memory := Some p\<rparr>) v) = nc_pty s"
      "nc_resolved (enqueue_recoverable k (req\<lparr>iq_memory := Some p\<rparr>) v) = nc_resolved s"
      by (simp_all add: enqueue_recoverable_def)
    moreover have "keyed_admitted rs k req s (enqueue_recoverable k (req\<lparr>iq_memory := Some p\<rparr>) v)"
      using ok(2) uf(1) by (simp add: keyed_admitted_def)
    ultimately show ?thesis using eq admit ok(1) by simp
  qed
qed

lemma keyed_retained:
  assumes "map_of (nc_input_operations s) k = Some e"
  shows "begin_recoverable_input_locked rs sz k req s = Some
    (if same_request (entry_request e) req
     then Inr (case e of EntryPending _ \<Rightarrow> InputPending | EntryCompleted _ rng \<Rightarrow> InputReady (Inr rng)
                       | EntryUnknown _ failure \<Rightarrow> InputReady (Inl failure))
     else Inl (not_applied InputOperationConflict ''native Input operation key is retained for another request''),
     drop_permit_option (iq_memory req) s)"
  using assms by (simp add: begin_recoverable_input_locked_def retained_input_result_def del: map_of_eq_Some_iff)

lemma receipt_same_request:
  "same_request r r' \<Longrightarrow> receipt_ok o1 a p r rng \<Longrightarrow> receipt_ok o1 a p r' rng"
  unfolding same_request_def receipt_ok_def by metis



section \<open>Fences\<close>

definition all_rejected :: "protocol_error \<Rightarrow> native_control \<Rightarrow> native_control \<Rightarrow> bool" where
  "all_rejected error s t \<longleftrightarrow> nc_input_queue t = [] \<and> nc_pty t = nc_pty s
     \<and> nc_resolved t = nc_resolved s @ map (\<lambda>c. (ic_reply c, Inl (reject_outcome error c))) (nc_input_queue s)
     \<and> (\<forall>c\<in>set (nc_input_queue s). \<forall>k. ic_reply c = RecoverableReply k \<longrightarrow>
          rejected_entry error c (map_of (nc_input_operations t) k))
     \<and> (\<forall>k. k \<notin> set (queue_keys (nc_input_queue s)) \<longrightarrow> map_of (nc_input_operations t) k = map_of (nc_input_operations s) k)"

lemma reject_all_ok:
  assumes "input_ok o1 s"
  shows "\<exists>t. reject_all error s = Some t \<and> input_ok o1 t \<and> nc_phase t = nc_phase s \<and> all_rejected error s t
    \<and> same_control s t"
proof -
  have w: "wire_ok o1 s" using assms by (simp add: input_ok_def)
  have len: "length (nc_pty s) = nc_applied_input_bytes s - o1"
    if "nc_input_failure s = None" "\<not> any_partial (nc_input_queue s)"
  proof -
    have "partial_bytes (nc_input_queue s) = []" using that(2) by (cases "nc_input_queue s") (auto simp: any_partial_def)
    then show ?thesis using wire_parts(3,4) [OF w] that(1) by (metis append_Nil2 length_take min.absorb2)
  qed
  obtain t where t: "reject_queued_inputs error s = Some (map (\<lambda>c. (c, reject_outcome error c)) (nc_input_queue s), t)"
    "input_ok o1 t" "nc_input_queue t = []" "nc_pty t = nc_pty s" "nc_resolved t = nc_resolved s" "nc_phase t = nc_phase s" "same_control s t"
    "\<forall>k. k \<notin> set (queue_keys (nc_input_queue s)) \<longrightarrow> map_of (nc_input_operations t) k = map_of (nc_input_operations s) k"
    "\<forall>c\<in>set (nc_input_queue s). \<forall>k. ic_reply c = RecoverableReply k \<longrightarrow> rejected_entry error c (map_of (nc_input_operations t) k)"
    using reject_queued_ok [OF input_ok_accounts [OF assms] wire_parts(1-3) [OF w] len, of error] by blast
  have "reject_all error s = Some (send_rejections (map (\<lambda>c. (c, reject_outcome error c)) (nc_input_queue s)) t)"
    using t(1) by (simp add: reject_all_def)
  then show ?thesis using t(2-9) by (simp add: send_rejections_frame all_rejected_def comp_def)
qed

lemma fenced_ok:
  assumes "input_ok o1 s" "nc_input_queue u = nc_input_queue s" "nc_pty u = nc_pty s" "nc_resolved u = nc_resolved s"
    "nc_input_operations u = nc_input_operations s" "input_ok o1 u"
  shows "\<exists>t. reject_all error u = Some t \<and> input_ok o1 t \<and> nc_phase t = nc_phase u \<and> all_rejected error s t
    \<and> same_control u t"
  using reject_all_ok [OF assms(6), of error] assms(2-5) by (simp add: all_rejected_def)

end
