(* ===== verification/Native_Control.thy ===== *)
theory Native_Control
  imports Input_Ledger Native_Service "HOL-Library.Sublist"
begin

text \<open>
  The rest of the native control owner (\<^verbatim>\<open>crates/ctxmux-daemon/src/native_control.rs\<close>): the fences that
  end a Run's input (stop, unpublished cleanup, exit, lost wait authority, lost daemon-wide owner),
  child commands, resize with read-back, the child's reap state, the quiescence test that collection
  relies on, and the status the lane publishes to the service snapshot.

  The foreground process group, the resize ioctl and its read-back are the operating system's answers
  and are arguments.  Replies to child commands are not modelled.
\<close>

section \<open>Reap state\<close>

datatype reap_state =
    ReapPending "string option" "string option"
  | ReapOwnerStopped "string option"
  | ReapWaitAuthorityLost "string option" string
  | Reaped

definition get_or_insert :: "'a \<Rightarrow> 'a option \<Rightarrow> 'a option" where
  "get_or_insert x v = (case v of None \<Rightarrow> Some x | Some y \<Rightarrow> Some y)"

fun mark_reaped :: "reap_state \<Rightarrow> reap_state" where
  "mark_reaped (ReapPending _ _) = Reaped"
| "mark_reaped r = r"

fun record_cleanup_error :: "string \<Rightarrow> reap_state \<Rightarrow> reap_state" where
  "record_cleanup_error e (ReapPending c w) = ReapPending (get_or_insert e c) w"
| "record_cleanup_error e (ReapWaitAuthorityLost c w) = ReapWaitAuthorityLost (get_or_insert e c) w"
| "record_cleanup_error e (ReapOwnerStopped c) = ReapOwnerStopped (get_or_insert e c)"
| "record_cleanup_error e Reaped = Reaped"

fun record_wait_error :: "string \<Rightarrow> reap_state \<Rightarrow> reap_state" where
  "record_wait_error e (ReapPending c w) = ReapPending c (get_or_insert e w)"
| "record_wait_error e r = r"

fun retain_owner_stopped_child :: "reap_state \<Rightarrow> reap_state" where
  "retain_owner_stopped_child (ReapPending c _) = ReapOwnerStopped c"
| "retain_owner_stopped_child r = r"

text \<open>\<open>None\<close> is the panic of losing the authority twice.\<close>

fun lose_wait_authority :: "string \<Rightarrow> reap_state \<Rightarrow> reap_state option" where
  "lose_wait_authority e (ReapPending c _) = Some (ReapWaitAuthorityLost c e)"
| "lose_wait_authority e _ = None"

fun join_errors :: "string list \<Rightarrow> string" where
  "join_errors [] = ''child waiter has not yet proven reap''"
| "join_errors (e # es) = foldl (\<lambda>combined e. combined @ ''; '' @ e) e es"

fun reap_result :: "reap_state \<Rightarrow> string + unit" where
  "reap_result Reaped = Inr ()"
| "reap_result (ReapPending c w) = Inl (join_errors (List.map_filter (\<lambda>x. x) [c, w]))"
| "reap_result (ReapOwnerStopped _) = Inl ''retains its unreaped child after Native owner stopped''"
| "reap_result (ReapWaitAuthorityLost c w) = Inl (join_errors (List.map_filter (\<lambda>x. x) [c, Some w]))"

text \<open>One pass of the wait loop: \<open>None\<close> keeps waiting.\<close>

fun wait_until_reaped_turn :: "bool \<Rightarrow> reap_state \<Rightarrow> (string + unit) option" where
  "wait_until_reaped_turn expired Reaped = Some (Inr ())"
| "wait_until_reaped_turn expired (ReapPending c w) = (if expired then Some (reap_result (ReapPending c w)) else None)"
| "wait_until_reaped_turn expired r = Some (reap_result r)"

section \<open>Fences\<close>

definition settle_owner_loss :: "native_control \<Rightarrow> (child_command list \<times> native_control) option" where
  "settle_owner_loss s =
     (case nc_owner_lost s of
        None \<Rightarrow> Some ([], s)
      | Some reason \<Rightarrow>
          if nc_owner_failure s \<noteq> None then Some ([], s)
          else map_option drain_child_commands
                 (reject_all \<lparr>pe_code = BackendUnavailable, pe_message = ''daemon-wide Native input owner stopped''\<rparr>
                   (s\<lparr>nc_owner_failure := Some reason, nc_stop_pending := False\<rparr>)))"

text \<open>The latch is set once; a contended lane is settled by its holder's guard instead.\<close>

definition fence_owner_loss :: "service_failure \<Rightarrow> bool \<Rightarrow> native_control \<Rightarrow> native_control option" where
  "fence_owner_loss reason contended s =
     (let s = (if nc_owner_lost s = None then s\<lparr>nc_owner_lost := Some reason\<rparr> else s)
      in if contended then Some s else map_option snd (settle_owner_loss s))"

definition mark_closed :: "native_control \<Rightarrow> native_control option" where
  "mark_closed s =
     (let s = close_phase s in
      map_option (\<lambda>s. snd (drain_child_commands s)) (reject_all (phase_error (nc_phase s)) s))"

definition mark_wait_authority_lost :: "string \<Rightarrow> reap_state \<times> native_control \<Rightarrow> (reap_state \<times> native_control) option" where
  "mark_wait_authority_lost error = (\<lambda>(reap, s).
     Option.bind (lose_wait_authority error reap) (\<lambda>reap.
       map_option (\<lambda>s. (reap, snd (drain_child_commands s)))
         (reject_all \<lparr>pe_code = BackendUnavailable, pe_message = error\<rparr>
           (s\<lparr>nc_phase := ControlFailed, nc_child_open := False, nc_stop_pending := False\<rparr>))))"

definition cleanup_unpublished :: "reap_state \<times> native_control \<Rightarrow> ((string + unit) \<times> reap_state \<times> native_control) option" where
  "cleanup_unpublished = (\<lambda>(reap, s).
     (if nc_owner_lost s \<noteq> None then Some (Inl ''Native owner unavailable before unpublished cleanup'', reap, s)
      else (case nc_phase s of
              ControlStopping \<Rightarrow> Some (Inr (), reap, s)
            | ControlClosed \<Rightarrow> Some (reap_result reap, reap, s)
            | ControlFailed \<Rightarrow> Some (reap_result reap, reap, s)
            | ControlOpen \<Rightarrow>
                (let s = s\<lparr>nc_phase := ControlStopping\<rparr>;
                     error = ''child owner channel closed before unpublished cleanup''
                 in if \<not> nc_child_open s then Some (Inl error, record_cleanup_error error reap, s)
                    else map_option (\<lambda>s. (Inr (), reap, s\<lparr>nc_child_commands := nc_child_commands s @ [ChildCleanupUnpublished]\<rparr>))
                           (reject_all \<lparr>pe_code = InvalidRunState, pe_message = ''cannot write to stopping Run''\<rparr> s)))))"

definition begin_signal_locked :: "nat option \<Rightarrow> native_control \<Rightarrow> (control_failure + unit) \<times> native_control" where
  "begin_signal_locked foreground_group s =
     (if nc_owner_lost s \<noteq> None
      then (Inl (not_applied BackendUnavailable ''daemon-wide Native owner stopped before control admission''), s)
      else if nc_phase s \<noteq> ControlOpen then (Inl (invalid_phase_error (nc_phase s)), s)
      else if \<not> nc_child_open s then (Inl (not_applied InvalidRunState ''cannot signal exited Run''), s)
      else (case (if nc_master_open s then foreground_group else None) of
              None \<Rightarrow> (Inl (not_applied InvalidRunState ''no current foreground process group''), s)
            | Some g \<Rightarrow> (Inr (), s\<lparr>nc_child_commands := nc_child_commands s @ [ChildSignal g]\<rparr>)))"

section \<open>Resize\<close>

definition unknown_failure :: "error_code \<Rightarrow> string \<Rightarrow> control_failure" where
  "unknown_failure code msg = \<lparr>cf_error = \<lparr>pe_code = code, pe_message = msg\<rparr>, cf_disposition = DispositionUnknown,
     cf_confirmed_input_bytes = None\<rparr>"

definition confirmed_size :: "terminal_size option \<Rightarrow> terminal_size option" where
  "confirmed_size sz = (case sz of None \<Rightarrow> None | Some z \<Rightarrow> if rows z \<noteq> 0 \<and> cols z \<noteq> 0 then Some z else None)"

text \<open>\<open>ioctl\<close> is whether the resize call succeeds, \<open>readback\<close> the size read after it, \<open>None\<close> on error.
  The last component is what \<^verbatim>\<open>publish\<close> is called with.\<close>

definition resize_locked ::
  "bool \<Rightarrow> terminal_size option \<Rightarrow> native_control \<Rightarrow> (control_failure + terminal_size) \<times> native_control \<times> terminal_size option" where
  "resize_locked ioctl readback s =
     (if nc_owner_lost s \<noteq> None
      then (Inl (not_applied BackendUnavailable ''daemon-wide Native owner stopped before control admission''), s, None)
      else if nc_phase s \<noteq> ControlOpen then (Inl (invalid_phase_error (nc_phase s)), s, None)
      else if \<not> nc_master_open s then (Inl (unknown_failure InternalError ''PTY control descriptor is closed''), s, None)
      else if \<not> ioctl then (Inl (unknown_failure IoError ''failed to resize PTY''), s, None)
      else if readback = None then (Inl (unknown_failure IoError ''failed to read back PTY size after resize''), s, None)
      else (case confirmed_size readback of
              None \<Rightarrow> (Inl (unknown_failure IoError ''PTY returned an invalid zero applied size''), s, None)
            | Some applied \<Rightarrow> (Inr applied, s\<lparr>nc_confirmed_size := Some applied\<rparr>, Some applied)))"

definition try_resize ::
  "bool \<Rightarrow> bool \<Rightarrow> terminal_size option \<Rightarrow> native_control
     \<Rightarrow> (control_failure + terminal_size) option \<times> native_control \<times> terminal_size option" where
  "try_resize contended ioctl readback s =
     (if nc_owner_lost s \<noteq> None
      then (Some (Inl (not_applied BackendUnavailable ''Native owner stopped before resize admission'')), s, None)
      else if contended then (None, s, None)
      else (let (r, s, p) = resize_locked ioctl readback s in (Some r, s, p)))"

section \<open>Published status and quiescence\<close>

definition lane_status :: "native_control \<Rightarrow> input_status" where
  "lane_status s =
     \<lparr>in_phase = (case nc_owner_failure s of
          Some reason \<Rightarrow> InUnavailable reason
        | None \<Rightarrow> if nc_phase s \<noteq> ControlOpen then InClosed
                  else if nc_input_failure s \<noteq> None then InUnavailable service_failure.WriteFailed else InOpen),
      unsettled_commands = nc_input_commands s, unsettled_request_bytes = nc_input_bytes s,
      write_blocked = nc_input_blocked s, completed_input_bytes = Some (nc_applied_input_bytes s),
      current_size = nc_confirmed_size s,
      active_confirmed_bytes = (case nc_input_queue s of [] \<Rightarrow> 0 | c # _ \<Rightarrow> ic_confirmed c)\<rparr>"

definition publish_input :: "native_control \<Rightarrow> service_snapshot \<Rightarrow> (service_snapshot \<times> run_event option) option" where
  "publish_input s = service_update (update_input (lane_status s))"

definition lane_quiet :: "native_control \<Rightarrow> bool" where
  "lane_quiet s \<longleftrightarrow> \<not> nc_stop_pending s \<and> nc_child_commands s = [] \<and> \<not> nc_input_scheduled s
     \<and> nc_input_commands s = 0 \<and> nc_input_bytes s = 0 \<and> nc_input_queue s = []"

definition native_closed_quiescence :: "bool \<Rightarrow> nat \<Rightarrow> reap_state \<Rightarrow> native_control \<Rightarrow> string + unit" where
  "native_closed_quiescence contended owners reap s =
     and_then (reap_result reap) (\<lambda>_.
     and_then (require (\<not> contended) ''native control cleanup owner is busy'') (\<lambda>_.
     and_then (require (nc_phase s = ControlClosed \<and> \<not> nc_child_open s \<and> lane_quiet s)
       ''native control cleanup is not quiescent'') (\<lambda>_.
     require (owners = 1) ''native control cleanup retains owners'')))"

definition detach_closed_descriptors :: "bool \<Rightarrow> nat \<Rightarrow> reap_state \<Rightarrow> native_control \<Rightarrow> string + native_control" where
  "detach_closed_descriptors contended owners reap s =
     and_then (native_closed_quiescence contended owners reap s) (\<lambda>_.
       Inr (s\<lparr>nc_master_open := False, nc_writer := WriterClosed\<rparr>))"

section \<open>Every fence settles the queue\<close>

text \<open>The fences, and the state each one fences.\<close>

datatype lane_fence = FenceStop | FenceCleanup | FenceChild | FenceClosed | FenceWaitLost string | FenceOwnerLost service_failure

fun fence_ready :: "lane_fence \<Rightarrow> reap_state \<Rightarrow> native_control \<Rightarrow> bool" where
  "fence_ready FenceStop r s \<longleftrightarrow> nc_phase s = ControlOpen \<and> nc_stop_pending s \<and> nc_child_open s"
| "fence_ready FenceCleanup r s \<longleftrightarrow> nc_phase s = ControlOpen \<and> nc_child_open s \<and> nc_owner_lost s = None"
| "fence_ready (FenceWaitLost e) r s \<longleftrightarrow> (\<exists>c w. r = ReapPending c w)"
| "fence_ready (FenceOwnerLost reason) r s \<longleftrightarrow> nc_owner_failure s = None"
| "fence_ready _ r s \<longleftrightarrow> True"

fun run_fence :: "lane_fence \<Rightarrow> reap_state \<Rightarrow> native_control \<Rightarrow> native_control option" where
  "run_fence FenceStop r s = map_option snd (commit_pending_stop s)"
| "run_fence FenceCleanup r s = map_option (\<lambda>(_, _, s). s) (cleanup_unpublished (r, s))"
| "run_fence FenceChild r s = map_option snd (fence_child_commands s)"
| "run_fence FenceClosed r s = mark_closed s"
| "run_fence (FenceWaitLost e) r s = map_option snd (mark_wait_authority_lost e (r, s))"
| "run_fence (FenceOwnerLost reason) r s = fence_owner_loss reason False s"

lemma input_ok_control [simp]:
  "input_ok o1 (s\<lparr>nc_phase := p\<rparr>) = input_ok o1 s" "input_ok o1 (s\<lparr>nc_stop_pending := b\<rparr>) = input_ok o1 s"
  "input_ok o1 (s\<lparr>nc_child_open := b\<rparr>) = input_ok o1 s" "input_ok o1 (s\<lparr>nc_child_commands := cc\<rparr>) = input_ok o1 s"
  "input_ok o1 (s\<lparr>nc_owner_lost := f\<rparr>) = input_ok o1 s" "input_ok o1 (s\<lparr>nc_owner_failure := f\<rparr>) = input_ok o1 s"
  "input_ok o1 (s\<lparr>nc_confirmed_size := z\<rparr>) = input_ok o1 s"
  by (rule input_ok_cong; simp)+

lemma all_rejected_commands [simp]: "all_rejected e s (t\<lparr>nc_child_commands := cc\<rparr>) = all_rejected e s t"
  by (simp add: all_rejected_def)

text \<open>A fence rejects the queue of a state that differs from \<open>s\<close> in control fields only.\<close>

lemma fence_by_reject:
  assumes "input_ok o1 s" "input_ok o1 u" "nc_input_queue u = nc_input_queue s" "nc_pty u = nc_pty s"
    "nc_resolved u = nc_resolved s" "nc_input_operations u = nc_input_operations s"
    and "run = map_option g (reject_all e u)" and "\<And>t. input_ok o1 (g t) = input_ok o1 t"
    and "\<And>t. all_rejected e s (g t) = all_rejected e s t"
    and "\<And>t. nc_phase t = nc_phase u \<Longrightarrow> same_control u t \<Longrightarrow> lane_refusal (g t) \<noteq> None"
  shows "\<exists>t. run = Some t \<and> input_ok o1 t \<and> (\<exists>e. all_rejected e s t) \<and> lane_refusal t \<noteq> None"
proof -
  obtain t where t: "reject_all e u = Some t" "input_ok o1 t" "nc_phase t = nc_phase u" "all_rejected e s t"
    "same_control u t"
    using fenced_ok [OF assms(1,3,4,5,6,2), of e] by blast
  then show ?thesis using assms(7-10) by auto
qed

text \<open>
  C29.  Every fence that ends a Run's input (a committed Stop, cleanup of an unpublished Run, the
  child's exit seen by the runtime or by the waiter, lost wait authority, a lost daemon-wide owner)
  settles every queued command, in order and exactly once, without writing another byte and without a
  panic: a command none of whose bytes was written is answered "not applied" and its key is freed for
  a retry, one with a confirmed prefix is answered "unknown" with the length of that prefix and its key
  keeps that outcome, no other retained result changes, and the lane refuses all input afterwards.
\<close>

theorem fence_settles_queue:
  assumes "input_ok origin s" and "fence_ready f reap s"
  shows "\<exists>t. run_fence f reap s = Some t \<and> input_ok origin t \<and> (\<exists>e. all_rejected e s t) \<and> lane_refusal t \<noteq> None"
proof (cases f)
  case FenceStop
  show ?thesis
    by (rule fence_by_reject [OF assms(1), where u = "s\<lparr>nc_stop_pending := False, nc_phase := ControlStopping\<rparr>" and g = "\<lambda>t. t"])
      (use assms FenceStop in \<open>simp_all add: commit_pending_stop_def option.map_comp comp_def lane_refusal_def\<close>)
next
  case FenceCleanup
  show ?thesis
    by (rule fence_by_reject [OF assms(1), where u = "s\<lparr>nc_phase := ControlStopping\<rparr>"
          and g = "\<lambda>t. t\<lparr>nc_child_commands := nc_child_commands t @ [ChildCleanupUnpublished]\<rparr>"])
      (use assms FenceCleanup in \<open>simp_all add: cleanup_unpublished_def option.map_comp comp_def lane_refusal_def Let_def\<close>)
next
  case FenceChild
  show ?thesis
    by (rule fence_by_reject [OF assms(1), where u = "close_phase s" and g = "\<lambda>t. t\<lparr>nc_child_commands := []\<rparr>"])
      (use assms FenceChild in \<open>auto simp: fence_child_commands_def drain_child_commands_def close_phase_def
         option.map_comp comp_def lane_refusal_def Let_def\<close>)
next
  case FenceClosed
  show ?thesis
    by (rule fence_by_reject [OF assms(1), where u = "close_phase s" and g = "\<lambda>t. t\<lparr>nc_child_commands := []\<rparr>"])
      (use assms FenceClosed in \<open>auto simp: mark_closed_def drain_child_commands_def close_phase_def lane_refusal_def Let_def\<close>)
next
  case (FenceWaitLost e)
  show ?thesis
    by (rule fence_by_reject [OF assms(1),
          where u = "s\<lparr>nc_phase := ControlFailed, nc_child_open := False, nc_stop_pending := False\<rparr>"
          and g = "\<lambda>t. t\<lparr>nc_child_commands := []\<rparr>"])
      (use assms FenceWaitLost in \<open>auto simp: mark_wait_authority_lost_def drain_child_commands_def option.map_comp comp_def lane_refusal_def\<close>)
next
  case (FenceOwnerLost reason)
  let ?lost = "case nc_owner_lost s of None \<Rightarrow> reason | Some r \<Rightarrow> r"
  show ?thesis
    by (rule fence_by_reject [OF assms(1),
          where u = "(if nc_owner_lost s = None then s\<lparr>nc_owner_lost := Some reason\<rparr> else s)
            \<lparr>nc_owner_failure := Some ?lost, nc_stop_pending := False\<rparr>"
          and g = "\<lambda>t. t\<lparr>nc_child_commands := []\<rparr>"])
      (use assms FenceOwnerLost in \<open>auto simp: fence_owner_loss_def settle_owner_loss_def drain_child_commands_def
         option.map_comp comp_def lane_refusal_def Let_def same_control_def split: option.splits\<close>)
qed

theorem fence_settles_queue_witness:
  "\<exists>t. run_fence FenceClosed Reaped sample_lane = Some t \<and> input_ok 7 t \<and> (\<exists>e. all_rejected e sample_lane t) \<and> lane_refusal t \<noteq> None"
  using fence_settles_queue [OF sample_lane_ok(1), of FenceClosed Reaped] by simp

section \<open>Owner loss reaches the service snapshot\<close>



section \<open>Resize and reap\<close>

text \<open>A sequence of resize attempts: what was published and what is stored.\<close>

fun resize_run :: "(bool \<times> bool \<times> terminal_size option) list \<Rightarrow> native_control \<Rightarrow> terminal_size list \<times> native_control" where
  "resize_run [] s = ([], s)"
| "resize_run ((contended, ioctl, readback) # rest) s =
     (let (r, s, p) = try_resize contended ioctl readback s; (ps, s) = resize_run rest s
      in ((case p of None \<Rightarrow> [] | Some z \<Rightarrow> [z]) @ ps, s))"

lemma try_resize_cases:
  assumes "try_resize contended ioctl readback s = (r, s', p)"
  obtains "p = None" "s' = s"
  | z where "p = Some z" "readback = Some z" "rows z \<noteq> 0" "cols z \<noteq> 0" "s' = s\<lparr>nc_confirmed_size := Some z\<rparr>"
      "nc_phase s = ControlOpen" "nc_owner_lost s = None"
  using assms
  by (auto simp: try_resize_def resize_locked_def confirmed_size_def Let_def split: if_splits option.splits prod.splits)

text \<open>
  Observers only ever see sizes the terminal acknowledged, in the order they were confirmed: over
  any sequence of resize attempts the published sizes are a subsequence of the sizes read back, all
  with positive dimensions; the stored size is the last one published (or the old one if none was); a
  lane that is not open or has lost its owner publishes nothing; and the input lane is untouched.
\<close>

theorem resize_publishes_confirmed:
  assumes "resize_run attempts s = (published, t)"
  shows "subseq published (List.map_filter (\<lambda>(contended, ioctl, readback). readback) attempts)
    \<and> list_all (\<lambda>z. 0 < rows z \<and> 0 < cols z) published
    \<and> nc_confirmed_size t = (if published = [] then nc_confirmed_size s else Some (last published))
    \<and> (nc_phase s \<noteq> ControlOpen \<or> nc_owner_lost s \<noteq> None \<longrightarrow> published = [])
    \<and> t = s\<lparr>nc_confirmed_size := nc_confirmed_size t\<rparr>"
  using assms
proof (induction attempts arbitrary: s published)
  case Nil
  then show ?case by (auto simp: List.map_filter_simps)
next
  case (Cons a attempts)
  obtain contended ioctl readback where a: "a = (contended, ioctl, readback)" by (cases a)
  obtain r s1 p where r: "try_resize contended ioctl readback s = (r, s1, p)" by (cases "try_resize contended ioctl readback s")
  obtain ps where ps: "resize_run attempts s1 = (ps, t)" "published = (case p of None \<Rightarrow> [] | Some z \<Rightarrow> [z]) @ ps"
    using Cons.prems by (auto simp: a r Let_def split: prod.splits)
  note IH = Cons.IH [OF ps(1)]
  from r show ?case
  proof (cases rule: try_resize_cases)
    case 1
    then show ?thesis using IH ps(2) by (auto simp: a List.map_filter_simps split: option.splits)
  next
    case (2 z)
    then show ?thesis using IH ps(2) by (auto simp: a List.map_filter_simps)
  qed
qed

theorem resize_publishes_confirmed_example:
  "\<exists>ps t. resize_run [(False, True, Some \<lparr>rows = 24, cols = 80\<rparr>), (False, True, Some \<lparr>rows = 0, cols = 80\<rparr>)] sample_lane = (ps, t)
     \<and> nc_confirmed_size t = (if ps = [] then None else Some (last ps))"
proof -
  obtain ps t where "resize_run [(False, True, Some \<lparr>rows = 24, cols = 80\<rparr>), (False, True, Some \<lparr>rows = 0, cols = 80\<rparr>)] sample_lane = (ps, t)"
    by fastforce
  with resize_publishes_confirmed [OF this] show ?thesis by (auto simp: sample_lane_def)
qed

datatype reap_op = RpReaped | RpCleanupError string | RpWaitError string | RpOwnerStopped | RpWaitLost string

fun reap_step :: "reap_op \<Rightarrow> reap_state \<Rightarrow> reap_state option" where
  "reap_step RpReaped r = Some (mark_reaped r)"
| "reap_step (RpCleanupError e) r = Some (record_cleanup_error e r)"
| "reap_step (RpWaitError e) r = Some (record_wait_error e r)"
| "reap_step RpOwnerStopped r = Some (retain_owner_stopped_child r)"
| "reap_step (RpWaitLost e) r = lose_wait_authority e r"

fun reap_run :: "reap_op list \<Rightarrow> reap_state \<Rightarrow> reap_state option" where
  "reap_run [] r = Some r"
| "reap_run (o1 # ops) r = Option.bind (reap_step o1 r) (reap_run ops)"

fun settles_reap :: "reap_op \<Rightarrow> bool" where
  "settles_reap RpReaped = True" | "settles_reap RpOwnerStopped = True" | "settles_reap (RpWaitLost _) = True"
| "settles_reap _ = False"

fun reap_settled :: "reap_state \<Rightarrow> bool" where
  "reap_settled (ReapPending _ _) = False" | "reap_settled _ = True"

lemma settled_keeps_result:
  "reap_settled r \<Longrightarrow> reap_run ops r = Some r' \<Longrightarrow> reap_settled r' \<and> (reap_result r' = Inr ()) = (reap_result r = Inr ())"
proof (induction ops arbitrary: r)
  case (Cons o1 ops)
  obtain r1 where r1: "reap_step o1 r = Some r1" "reap_run ops r1 = Some r'" using Cons.prems(2) by (auto simp: bind_eq_Some_conv)
  have "reap_settled r1 \<and> (reap_result r1 = Inr ()) = (reap_result r = Inr ())"
    using r1(1) Cons.prems(1) by (cases o1; cases r) auto
  then show ?case using Cons.IH [OF _ r1(2)] by blast
qed simp

text \<open>
  C32.  A reap is never fabricated.  Whatever the waiter, the cleanup path and the stopping owner
  record and in whatever order, the reap result is a success exactly when the waiter's reap was the
  first of the three settling events (reap, owner stopped, wait authority lost); errors recorded
  before or after do not change that, and an owner that stopped first never turns into a reap.
\<close>

theorem reap_never_fabricated:
  assumes "reap_run ops (ReapPending None None) = Some r"
  shows "reap_result r = Inr () \<longleftrightarrow> (\<exists>pre post. ops = pre @ RpReaped # post \<and> (\<forall>x\<in>set pre. \<not> settles_reap x))"
proof -
  have "reap_run ops (ReapPending c w) = Some r \<Longrightarrow>
      reap_result r = Inr () \<longleftrightarrow> (case dropWhile (\<lambda>x. \<not> settles_reap x) ops of x # _ \<Rightarrow> x = RpReaped | [] \<Rightarrow> False)" for c w
  proof (induction ops arbitrary: c w)
    case (Cons o1 ops)
    then show ?case
      using settled_keeps_result [of Reaped ops r] settled_keeps_result [of "ReapOwnerStopped c" ops r]
        settled_keeps_result [of "ReapWaitAuthorityLost c e" ops r for e]
      by (cases o1) auto
  qed auto
  with assms have "reap_result r = Inr () \<longleftrightarrow> (case dropWhile (\<lambda>x. \<not> settles_reap x) ops of x # _ \<Rightarrow> x = RpReaped | [] \<Rightarrow> False)" by blast
  also have "\<dots> \<longleftrightarrow> (\<exists>pre post. ops = pre @ RpReaped # post \<and> (\<forall>x\<in>set pre. \<not> settles_reap x))"
  proof (induction ops)
    case (Cons o1 ops)
    show ?case
    proof (cases "settles_reap o1")
      case True
      then show ?thesis by (auto simp: Cons_eq_append_conv)
    next
      case False
      then have "o1 \<noteq> RpReaped" by auto
      then show ?thesis using Cons False by (auto simp: Cons_eq_append_conv) (metis set_ConsD)
    qed
  qed simp
  finally show ?thesis .
qed

theorem reap_never_fabricated_witness:
  "reap_run [RpCleanupError ''kill'', RpOwnerStopped, RpReaped] (ReapPending None None) = Some (ReapOwnerStopped (Some ''kill''))
   \<and> reap_result (ReapOwnerStopped (Some ''kill'')) \<noteq> Inr ()"
proof -
  have r: "reap_run [RpCleanupError ''kill'', RpOwnerStopped, RpReaped] (ReapPending None None) = Some (ReapOwnerStopped (Some ''kill''))"
    by (simp add: get_or_insert_def)
  show ?thesis using r reap_never_fabricated [OF r] by (auto simp: Cons_eq_append_conv)
qed

end
