(* ===== verification/Input_Handoff.thy ===== *)
theory Input_Handoff
  imports Native_Control "HOL-Library.List_Lexorder" "HOL-Library.Char_ord"
begin

text \<open>
  The native input ledger across an exec-in-place upgrade
  (\<^verbatim>\<open>crates/ctxmux-daemon/src/native_control.rs\<close>, \<^verbatim>\<open>HandoffInputState\<close>): extraction from a quiescent
  lane, validation, and the constructor that re-adopts the state under the new image's control budget.

  \<open>msg\<close> is the length of an error's formatted message (the model keeps constant texts only) and
  \<open>sz\<close> the size of a ledger entry.  Serialisation is serde's.
\<close>

section \<open>Definitions\<close>

datatype handoff_operation =
    HandoffCompleted input_key u64 "byte list" applied_range
  | HandoffUnknown input_key u64 "byte list" control_failure

record handoff_state =
  hs_applied_input_bytes :: u64
  hs_input_failure :: "protocol_error option"
  hs_operations :: "handoff_operation list"

definition handoff_empty :: handoff_state where
  "handoff_empty = \<lparr>hs_applied_input_bytes = 0, hs_input_failure = None, hs_operations = []\<rparr>"

fun op_key :: "handoff_operation \<Rightarrow> input_key" where
  "op_key (HandoffCompleted k _ _ _) = k"
| "op_key (HandoffUnknown k _ _ _) = k"

fun op_data :: "handoff_operation \<Rightarrow> byte list" where
  "op_data (HandoffCompleted _ _ d _) = d"
| "op_data (HandoffUnknown _ _ d _) = d"

definition validate_handoff_unknown_prefix :: "usize \<Rightarrow> control_failure \<Rightarrow> string + unit" where
  "validate_handoff_unknown_prefix data_bytes failure =
     and_then (require (case cf_confirmed_input_bytes failure of None \<Rightarrow> True | Some n \<Rightarrow> n \<le> data_bytes)
       ''handoff unknown native Input prefix exceeds its request bytes'') (\<lambda>_.
     require (cf_disposition failure = DispositionUnknown) ''handoff unknown native Input has a non-unknown disposition'')"

text \<open>The loop's accumulators: retained bytes, keys seen, end of the last completed range, unknown entries.\<close>

record handoff_scan =
  sc_retained :: usize
  sc_keys :: "input_key list"
  sc_completed_end :: u64
  sc_unknown :: usize

definition check_kind :: "handoff_state \<Rightarrow> handoff_operation \<Rightarrow> handoff_scan \<Rightarrow> string + handoff_scan" where
  "check_kind h operation sc =
     (case operation of
        HandoffCompleted key expected_byte data rng \<Rightarrow>
          and_then (ok_or ''handoff native Input range overflows'' (checked_add expected_byte (length data))) (\<lambda>expected_end.
          and_then (require (\<not> (ar_start rng \<noteq> expected_byte \<or> ar_end rng \<noteq> expected_end
               \<or> ar_end rng > hs_applied_input_bytes h \<or> ar_start rng < sc_completed_end sc))
             ''handoff completed native Input range is inconsistent'') (\<lambda>_.
            Inr (sc\<lparr>sc_completed_end := ar_end rng\<rparr>)))
      | HandoffUnknown key expected_byte data failure \<Rightarrow>
          and_then (validate_handoff_unknown_prefix (length data) failure) (\<lambda>_.
          and_then (require (expected_byte = hs_applied_input_bytes h)
             ''handoff unknown native Input does not fence the current cursor'') (\<lambda>_.
          and_then (require (map_option pe_code (hs_input_failure h) = Some (pe_code (cf_error failure)))
             ''handoff unknown native Input has a different poisoned-lane failure code'') (\<lambda>_.
            Inr (sc\<lparr>sc_unknown := sc_unknown sc + 1\<rparr>)))))"

definition check_operation :: "handoff_state \<Rightarrow> handoff_operation \<Rightarrow> handoff_scan \<Rightarrow> string + handoff_scan" where
  "check_operation h operation sc =
     and_then (check_kind h operation sc) (\<lambda>sc.
     and_then (require (operation_key_validate MAX_INPUT_OPERATION_KEY_BYTES (op_key operation) = Inr ())
        ''invalid handoff native Input key'') (\<lambda>_.
     and_then (require (op_data operation \<noteq> []) ''handoff recoverable native Input payload is empty'') (\<lambda>_.
     and_then (require (op_key operation \<notin> set (sc_keys sc)) ''handoff native Input ledger contains a duplicate key'') (\<lambda>_.
     and_then (ok_or ''handoff native Input retained-byte count overflows''
        (checked_add (sc_retained sc) (length (op_data operation)))) (\<lambda>retained.
       Inr (sc\<lparr>sc_retained := retained, sc_keys := op_key operation # sc_keys sc\<rparr>))))))"

fun check_operations :: "handoff_state \<Rightarrow> handoff_operation list \<Rightarrow> handoff_scan \<Rightarrow> string + handoff_scan" where
  "check_operations h [] sc = Inr sc"
| "check_operations h (operation # rest) sc = and_then (check_operation h operation sc) (check_operations h rest)"

fun is_unknown_op :: "handoff_operation \<Rightarrow> bool" where
  "is_unknown_op (HandoffUnknown _ _ _ _) = True"
| "is_unknown_op _ = False"

definition retained_diagnostic_bytes :: "(protocol_error \<Rightarrow> usize) \<Rightarrow> handoff_state \<Rightarrow> usize" where
  "retained_diagnostic_bytes msg h =
     foldl (\<lambda>total operation. saturating_add total
         (case operation of HandoffUnknown _ _ _ failure \<Rightarrow> msg (cf_error failure) | _ \<Rightarrow> 0))
       (case hs_input_failure h of None \<Rightarrow> 0 | Some e \<Rightarrow> msg e) (hs_operations h)"

definition additional_diagnostic_memory_bytes :: "(protocol_error \<Rightarrow> usize) \<Rightarrow> handoff_state \<Rightarrow> usize" where
  "additional_diagnostic_memory_bytes msg h =
     saturating_sub (retained_diagnostic_bytes msg h)
       (saturating_mul (length (filter is_unknown_op (hs_operations h))) INPUT_RESULT_DIAGNOSTIC_RESERVE_BYTES)"

definition control_memory_bytes :: "(protocol_error \<Rightarrow> usize) \<Rightarrow> usize \<Rightarrow> handoff_state \<Rightarrow> u64" where
  "control_memory_bytes msg sz h =
     foldl (\<lambda>total operation. saturating_add total (input_receipt_charge sz (op_key operation) (op_data operation)))
       (additional_diagnostic_memory_bytes msg h) (hs_operations h)"

definition validate_with_resources ::
  "(protocol_error \<Rightarrow> usize) \<Rightarrow> usize \<Rightarrow> resource_limits \<Rightarrow> handoff_state \<Rightarrow> string + unit" where
  "validate_with_resources msg sz rs h =
     and_then (require (length (hs_operations h) \<le> input_result_entries rs) ''handoff native Input ledger has too many entries'') (\<lambda>_.
     and_then (check_operations h (hs_operations h) \<lparr>sc_retained = 0, sc_keys = [], sc_completed_end = 0, sc_unknown = 0\<rparr>) (\<lambda>sc.
     and_then (require (sc_retained sc \<le> input_result_bytes rs) ''handoff native Input ledger retains too many request bytes'') (\<lambda>_.
     and_then (require (sc_unknown sc \<le> 1) ''handoff native Input ledger contains multiple unknown operations'') (\<lambda>_.
     require (control_memory_bytes msg sz h \<le> control_state_bytes rs) ''handoff native Input state exceeds control owner funding''))))"

text \<open>Extraction.  The unknown entries come out of the hash map in some order and are sorted by key.\<close>

fun completed_operations :: "native_control \<Rightarrow> input_key list \<Rightarrow> string + handoff_operation list" where
  "completed_operations s [] = Inr []"
| "completed_operations s (key # keys) =
     (case map_of (nc_input_operations s) key of
        Some (EntryCompleted r rng) \<Rightarrow>
          and_then (completed_operations s keys) (\<lambda>rest. Inr (HandoffCompleted key (iq_expected_byte r) (iq_data r) rng # rest))
      | _ \<Rightarrow> Inl ''completed native Input order is inconsistent'')"

fun unknown_operation :: "input_key \<times> input_entry \<Rightarrow> handoff_operation option" where
  "unknown_operation (key, EntryUnknown r failure) = Some (HandoffUnknown key (iq_expected_byte r) (iq_data r) failure)"
| "unknown_operation _ = None"

fun is_pending :: "input_entry \<Rightarrow> bool" where
  "is_pending (EntryPending _) = True"
| "is_pending _ = False"

definition handoff_input_state ::
  "(protocol_error \<Rightarrow> usize) \<Rightarrow> usize \<Rightarrow> resource_limits \<Rightarrow> bool \<Rightarrow> native_control \<Rightarrow> string + handoff_state" where
  "handoff_input_state msg sz rs contended s =
     and_then (require (\<not> contended) ''Native control is busy; handoff not admitted'') (\<lambda>_.
     and_then (require (nc_phase s \<in> {ControlOpen, ControlClosed} \<and> lane_quiet s)
        ''still has a crossing native control at handoff'') (\<lambda>_.
     and_then (completed_operations s (nc_completed_operations s)) (\<lambda>completed.
     let unknown = List.map_filter unknown_operation (nc_input_operations s) in
     and_then (require (\<not> list_ex (\<lambda>(k, e). is_pending e) (nc_input_operations s))
        ''has a pending recoverable Input at handoff'') (\<lambda>_.
     let operations = completed @ sort_key op_key unknown in
     and_then (require (length operations = length (nc_input_operations s)) ''native Input handoff ledger is incomplete'') (\<lambda>_.
     let snapshot = \<lparr>hs_applied_input_bytes = nc_applied_input_bytes s, hs_input_failure = nc_input_failure s,
                     hs_operations = operations\<rparr> in
     and_then (validate_with_resources msg sz rs snapshot) (\<lambda>_. Inr snapshot))))))"

text \<open>Adoption: every entry re-reserves its charge; \<open>None\<close> is a failed \<^verbatim>\<open>expect\<close>.\<close>

fun adopted_entry :: "byte_permit \<Rightarrow> handoff_operation \<Rightarrow> input_entry" where
  "adopted_entry p (HandoffCompleted _ e d rng) = EntryCompleted \<lparr>iq_memory = Some p, iq_expected_byte = e, iq_data = d\<rparr> rng"
| "adopted_entry p (HandoffUnknown _ e d f) = EntryUnknown \<lparr>iq_memory = Some p, iq_expected_byte = e, iq_data = d\<rparr> f"

fun adopt_operations ::
  "usize \<Rightarrow> handoff_operation list \<Rightarrow> (input_key \<times> input_entry) list \<Rightarrow> input_key list \<Rightarrow> byte_budget
     \<Rightarrow> ((input_key \<times> input_entry) list \<times> input_key list \<times> byte_budget) option" where
  "adopt_operations sz [] entries completed b = Some (entries, completed, b)"
| "adopt_operations sz (operation # rest) entries completed b =
     Option.bind (reserve b (input_receipt_charge sz (op_key operation) (op_data operation))) (\<lambda>(b, p).
       adopt_operations sz rest (AList.update (op_key operation) (adopted_entry p operation) entries)
         (if is_unknown_op operation then completed else completed @ [op_key operation]) b)"

definition new_with_components ::
  "(protocol_error \<Rightarrow> usize) \<Rightarrow> usize \<Rightarrow> resource_limits \<Rightarrow> terminal_size option \<Rightarrow> bool \<Rightarrow> handoff_state \<Rightarrow> byte_budget
     \<Rightarrow> (byte_permit option \<times> native_control) option" where
  "new_with_components msg sz rs pty_size closed h b =
     (if validate_with_resources msg sz rs h \<noteq> Inr () then None
      else let diagnostic = additional_diagnostic_memory_bytes msg h in
        Option.bind (if diagnostic > 0 then map_option (\<lambda>(b, p). (b, Some p)) (reserve b diagnostic) else Some (b, None))
          (\<lambda>(b, adopted_diagnostic_memory).
        map_option (\<lambda>(entries, completed, b). (adopted_diagnostic_memory,
          \<lparr>nc_phase = (if closed then ControlClosed else ControlOpen), nc_input_failure = hs_input_failure h,
           nc_input_queue = [], nc_input_commands = 0, nc_input_bytes = 0, nc_input_scheduled = False,
           nc_input_blocked = False, nc_owner_lost = None, nc_owner_failure = None,
           nc_applied_input_bytes = hs_applied_input_bytes h, nc_input_operations = entries,
           nc_completed_operations = completed,
           nc_retained_request_bytes = sum_list (map (\<lambda>operation. length (op_data operation)) (hs_operations h)),
           nc_result_max_entries = input_result_entries rs, nc_result_max_request_bytes = input_result_bytes rs,
           nc_child_open = (\<not> closed), nc_stop_pending = False, nc_child_commands = [],
           nc_confirmed_size = confirmed_size pty_size, nc_master_open = (\<not> closed),
           nc_writer = (if closed then WriterClosed else WriterFile), nc_budget = b, nc_resolved = [], nc_pty = []\<rparr>))
        (adopt_operations sz (hs_operations h) [] [] b)))"

section \<open>Validation facts\<close>

lemma check_kind_frame:
  "check_kind h op1 sc = Inr sc' \<Longrightarrow> sc_keys sc' = sc_keys sc \<and> sc_retained sc' = sc_retained sc"
  by (auto simp: check_kind_def split: handoff_operation.splits)

lemma check_operations_keys:
  "check_operations h ops sc = Inr sc' \<Longrightarrow> distinct (map op_key ops) \<and> set (map op_key ops) \<inter> set (sc_keys sc) = {}
     \<and> sc_retained sc' = sc_retained sc + sum_list (map (\<lambda>x. length (op_data x)) ops)"
proof (induction ops arbitrary: sc)
  case (Cons op1 ops)
  obtain sc1 where sc1: "check_operation h op1 sc = Inr sc1" "check_operations h ops sc1 = Inr sc'"
    using Cons.prems by auto
  obtain sc0 where k: "check_kind h op1 sc = Inr sc0" "op_key op1 \<notin> set (sc_keys sc0)"
    "sc_keys sc1 = op_key op1 # sc_keys sc0" "sc_retained sc1 = sc_retained sc0 + length (op_data op1)"
    using sc1(1) by (auto simp: check_operation_def)
  show ?case using Cons.IH [OF sc1(2)] k check_kind_frame [OF k(1)] by auto
qed auto

lemma validate_keys:
  assumes "validate_with_resources msg sz rs h = Inr ()"
  shows "distinct (map op_key (hs_operations h))" "length (hs_operations h) \<le> input_result_entries rs"
    "sum_list (map (\<lambda>x. length (op_data x)) (hs_operations h)) \<le> input_result_bytes rs"
  using assms check_operations_keys [of h "hs_operations h" "\<lparr>sc_retained = 0, sc_keys = [], sc_completed_end = 0, sc_unknown = 0\<rparr>"]
  by (auto simp: validate_with_resources_def)

section \<open>Adoption facts\<close>

abbreviation op_charge :: "usize \<Rightarrow> handoff_operation \<Rightarrow> usize" where
  "op_charge sz x \<equiv> input_receipt_charge sz (op_key x) (op_data x)"

lemma reserve_room: "bb_used b + n \<le> bb_limit b \<Longrightarrow> bb_limit b \<le> U64_MAX \<Longrightarrow>
    reserve b n = Some (b\<lparr>bb_used := bb_used b + n\<rparr>, n)"
  by (simp add: reserve_Some)

lemma saturating_fold:
  "foldl (\<lambda>t x. saturating_add t (f x)) a xs < U64_MAX \<Longrightarrow>
     foldl (\<lambda>t x. saturating_add t (f x)) a xs = a + sum_list (map f xs)"
proof (induction xs arbitrary: a)
  case (Cons x xs)
  have eq: "foldl (\<lambda>t x. saturating_add t (f x)) a (x # xs) = saturating_add a (f x) + sum_list (map f xs)"
    using Cons by simp
  then have "saturating_add a (f x) < U64_MAX" using Cons.prems by simp
  then have "saturating_add a (f x) = a + f x" by (simp add: saturating_add_def min_def split: if_splits)
  then show ?case using eq by simp
qed simp

lemma adopt_operations_eq:
  assumes "distinct (map op_key ops)" "set (map op_key ops) \<inter> fst ` set entries = {}"
    and "bb_used b + sum_list (map (op_charge sz) ops) \<le> bb_limit b" "bb_limit b \<le> U64_MAX"
  shows "adopt_operations sz ops entries completed b = Some
     (entries @ map (\<lambda>x. (op_key x, adopted_entry (op_charge sz x) x)) ops,
      completed @ map op_key (filter (\<lambda>x. \<not> is_unknown_op x) ops), b\<lparr>bb_used := bb_used b + sum_list (map (op_charge sz) ops)\<rparr>)"
  using assms
proof (induction ops arbitrary: entries completed b)
  case (Cons x ops)
  have new: "AList.update (op_key x) e entries = entries @ [(op_key x, e)]" for e
    using Cons.prems(2) by (induction entries) auto
  have r: "reserve b (op_charge sz x) = Some (b\<lparr>bb_used := bb_used b + op_charge sz x\<rparr>, op_charge sz x)"
    using Cons.prems(3,4) by (intro reserve_room) simp_all
  show ?case
    using Cons.prems by (subst adopt_operations.simps, simp only: r new) (auto simp: Cons.IH add.assoc)
qed simp

section \<open>Extraction facts\<close>

fun completed_op :: "native_control \<Rightarrow> input_key \<Rightarrow> handoff_operation option" where
  "completed_op s k = (case map_of (nc_input_operations s) k of
     Some (EntryCompleted r rng) \<Rightarrow> Some (HandoffCompleted k (iq_expected_byte r) (iq_data r) rng) | _ \<Rightarrow> None)"

lemma completed_operations_spec:
  assumes "completed_operations s keys = Inr cs"
  shows "map op_key cs = keys \<and> (\<forall>x\<in>set cs. \<not> is_unknown_op x)
    \<and> (\<forall>x\<in>set cs. \<exists>r rng. map_of (nc_input_operations s) (op_key x) = Some (EntryCompleted r rng)
          \<and> x = HandoffCompleted (op_key x) (iq_expected_byte r) (iq_data r) rng)"
  using assms
proof (induction keys arbitrary: cs)
  case (Cons k keys)
  then show ?case by (auto simp del: map_of_eq_Some_iff split: option.splits input_entry.splits)
qed simp

lemma unknown_operations_spec:
  "x \<in> set (List.map_filter unknown_operation ops) \<longleftrightarrow>
     (\<exists>k r f. (k, EntryUnknown r f) \<in> set ops \<and> x = HandoffUnknown k (iq_expected_byte r) (iq_data r) f)"
proof (induction ops)
  case (Cons e ops)
  obtain k en where e: "e = (k, en)" by (cases e)
  show ?case using Cons by (cases en) (auto simp: e List.map_filter_simps)
qed (simp add: List.map_filter_simps)

lemma handoff_fields:
  assumes "handoff_input_state msg sz rs contended s = Inr h"
  shows "nc_phase s = ControlOpen \<or> nc_phase s = ControlClosed" "lane_quiet s"
    "hs_applied_input_bytes h = nc_applied_input_bytes s" "hs_input_failure h = nc_input_failure s"
    "validate_with_resources msg sz rs h = Inr ()"
    "\<exists>cs. completed_operations s (nc_completed_operations s) = Inr cs
       \<and> hs_operations h = cs @ sort_key op_key (List.map_filter unknown_operation (nc_input_operations s))"
    "\<forall>(k, e)\<in>set (nc_input_operations s). \<not> is_pending e"
  using assms by (auto simp: handoff_input_state_def Let_def list_ex_iff)

section \<open>The ledger survives the upgrade\<close>

text \<open>Entries up to the permit that funds them.\<close>

fun forget_memory :: "input_entry \<Rightarrow> input_entry" where
  "forget_memory (EntryPending r) = EntryPending (r\<lparr>iq_memory := None\<rparr>)"
| "forget_memory (EntryCompleted r rng) = EntryCompleted (r\<lparr>iq_memory := None\<rparr>) rng"
| "forget_memory (EntryUnknown r f) = EntryUnknown (r\<lparr>iq_memory := None\<rparr>) f"

definition adopted_entries :: "usize \<Rightarrow> handoff_operation list \<Rightarrow> (input_key \<times> input_entry) list" where
  "adopted_entries sz ops = map (\<lambda>x. (op_key x, adopted_entry (op_charge sz x) x)) ops"

lemma adopted_entries_keys: "map fst (adopted_entries sz ops) = map op_key ops"
  by (simp add: adopted_entries_def)

lemma adopted_entries_lookup:
  assumes "distinct (map op_key ops)" "x \<in> set ops"
  shows "map_of (adopted_entries sz ops) (op_key x) = Some (adopted_entry (op_charge sz x) x)"
  by (rule map_of_is_SomeI) (use assms in \<open>simp_all add: adopted_entries_keys\<close>, simp add: adopted_entries_def)

lemma handoff_entries:
  assumes "distinct (map fst (nc_input_operations s))"
    and done_keys: "\<And>k. k \<in> set (nc_completed_operations s) \<longleftrightarrow> (\<exists>r rng. map_of (nc_input_operations s) k = Some (EntryCompleted r rng))"
    and h: "handoff_input_state msg sz rs contended s = Inr h"
  shows "map_option forget_memory (map_of (adopted_entries sz (hs_operations h)) k) = map_option forget_memory (map_of (nc_input_operations s) k)"
proof -
  obtain cs where cs: "completed_operations s (nc_completed_operations s) = Inr cs"
    and ops: "hs_operations h = cs @ sort_key op_key (List.map_filter unknown_operation (nc_input_operations s))"
    using handoff_fields(6) [OF h] by blast
  note c = completed_operations_spec [OF cs] and lookup = adopted_entries_lookup [OF validate_keys(1) [OF handoff_fields(5) [OF h]]]
  show ?thesis
  proof (cases "map_of (nc_input_operations s) k")
    case None
    have "k \<noteq> op_key x" if "x \<in> set cs" for x
      using that None c by force
    moreover have "k \<noteq> op_key x" if "x \<in> set (List.map_filter unknown_operation (nc_input_operations s))" for x
      using that None unfolding unknown_operations_spec map_of_eq_None_iff by force
    ultimately have "k \<noteq> op_key x" if "x \<in> set (hs_operations h)" for x
      using that unfolding ops by auto
    then have "map_of (adopted_entries sz (hs_operations h)) k = None"
      unfolding map_of_eq_None_iff by (auto simp: adopted_entries_def image_image dest: sym)
    then show ?thesis using None by simp
  next
    case (Some e)
    show ?thesis
    proof (cases e)
      case (EntryPending r)
      then show ?thesis using handoff_fields(7) [OF h] map_of_SomeD [OF Some] by auto
    next
      case (EntryCompleted r rng)
      then have "k \<in> set (map op_key cs)" using done_keys [of k] Some c by simp
      then obtain x where x: "x \<in> set cs" "op_key x = k" by auto
      then have "x = HandoffCompleted k (iq_expected_byte r) (iq_data r) rng" using c Some EntryCompleted by fastforce
      then show ?thesis using lookup [of x sz] x Some EntryCompleted by (cases r) (simp add: ops)
    next
      case (EntryUnknown r f)
      let ?x = "HandoffUnknown k (iq_expected_byte r) (iq_data r) f"
      have "?x \<in> set (hs_operations h)"
        using map_of_SomeD [OF Some] EntryUnknown unfolding ops by (auto simp: unknown_operations_spec)
      then show ?thesis using lookup [of ?x sz] Some EntryUnknown by (cases r) simp
    qed
  qed
qed

lemma handoff_completed_order:
  assumes "handoff_input_state msg sz rs contended s = Inr h"
  shows "map op_key (filter (\<lambda>x. \<not> is_unknown_op x) (hs_operations h)) = nc_completed_operations s"
proof -
  obtain cs where cs: "completed_operations s (nc_completed_operations s) = Inr cs"
    and ops: "hs_operations h = cs @ sort_key op_key (List.map_filter unknown_operation (nc_input_operations s))"
    using handoff_fields(6) [OF assms] by blast
  have "filter (\<lambda>x. \<not> is_unknown_op x) cs = cs" using completed_operations_spec [OF cs] by (simp add: filter_id_conv)
  moreover have "filter (\<lambda>x. \<not> is_unknown_op x) (sort_key op_key (List.map_filter unknown_operation (nc_input_operations s))) = []"
    by (auto simp: filter_empty_conv unknown_operations_spec)
  ultimately show ?thesis using completed_operations_spec [OF cs] by (simp add: ops)
qed

lemma adopted_bytes: "op_bytes (adopted_entries sz ops) = sum_list (map (\<lambda>x. length (op_data x)) ops)"
proof (induction ops)
  case (Cons x ops)
  then show ?case by (cases x) (simp_all add: op_bytes_def adopted_entries_def)
qed (simp add: op_bytes_def adopted_entries_def)

lemma adopted_completed_iff:
  "(\<exists>r rng. map_of (adopted_entries sz ops) k = Some (EntryCompleted r rng)) \<longleftrightarrow>
     k \<in> set (map op_key (filter (\<lambda>x. \<not> is_unknown_op x) ops))" if d: "distinct (map op_key ops)"
proof
  assume "\<exists>r rng. map_of (adopted_entries sz ops) k = Some (EntryCompleted r rng)"
  then obtain r rng where "(k, EntryCompleted r rng) \<in> set (adopted_entries sz ops)" using map_of_SomeD by fast
  then obtain x where x: "x \<in> set ops" "k = op_key x" "EntryCompleted r rng = adopted_entry (op_charge sz x) x"
    by (auto simp: adopted_entries_def)
  from x(3) have "\<not> is_unknown_op x" by (cases x) simp_all
  with x show "k \<in> set (map op_key (filter (\<lambda>x. \<not> is_unknown_op x) ops))" by simp
next
  assume "k \<in> set (map op_key (filter (\<lambda>x. \<not> is_unknown_op x) ops))"
  then obtain x where x: "x \<in> set ops" "\<not> is_unknown_op x" "k = op_key x" by auto
  from x(2) have "\<exists>r rng. adopted_entry (op_charge sz x) x = EntryCompleted r rng" by (cases x) simp_all
  then show "\<exists>r rng. map_of (adopted_entries sz ops) k = Some (EntryCompleted r rng)"
    using adopted_entries_lookup [OF d x(1), of sz] x(3) by simp
qed

lemma adopted_entries_settled: "map_of (adopted_entries sz ops) k \<noteq> Some (EntryPending r)"
proof
  assume "map_of (adopted_entries sz ops) k = Some (EntryPending r)"
  then obtain x where "EntryPending r = adopted_entry (op_charge sz x) x" by (auto simp: adopted_entries_def dest!: map_of_SomeD)
  then show False by (cases x) simp_all
qed

lemma control_memory_sum:
  assumes "control_memory_bytes msg sz h < U64_MAX"
  shows "control_memory_bytes msg sz h = additional_diagnostic_memory_bytes msg h + sum_list (map (op_charge sz) (hs_operations h))"
  using assms saturating_fold [where f = "op_charge sz"] by (simp add: control_memory_bytes_def)

lemma adopted_construction:
  assumes v: "validate_with_resources msg sz rs h = Inr ()"
    and room: "bb_used b + control_memory_bytes msg sz h \<le> bb_limit b" "bb_limit b < U64_MAX"
  shows "\<exists>d t. new_with_components msg sz rs pty_size closed h b = Some (d, t)
     \<and> nc_input_operations t = adopted_entries sz (hs_operations h)
     \<and> nc_completed_operations t = map op_key (filter (\<lambda>x. \<not> is_unknown_op x) (hs_operations h))
     \<and> nc_retained_request_bytes t = sum_list (map (\<lambda>x. length (op_data x)) (hs_operations h))
     \<and> nc_input_queue t = [] \<and> nc_input_commands t = 0 \<and> nc_input_bytes t = 0 \<and> nc_pty t = []
     \<and> nc_applied_input_bytes t = hs_applied_input_bytes h \<and> nc_input_failure t = hs_input_failure h
     \<and> nc_phase t = (if closed then ControlClosed else ControlOpen)
     \<and> bb_used (nc_budget t) = bb_used b + control_memory_bytes msg sz h"
proof -
  let ?d = "additional_diagnostic_memory_bytes msg h" and ?c = "sum_list (map (op_charge sz) (hs_operations h))"
  have m: "control_memory_bytes msg sz h = ?d + ?c" by (rule control_memory_sum) (use room in linarith)
  have diag: "(if ?d > 0 then map_option (\<lambda>(b, p). (b, Some p)) (reserve b ?d) else Some (b, None))
      = Some (b\<lparr>bb_used := bb_used b + ?d\<rparr>, if ?d > 0 then Some ?d else None)"
    using room m by (simp add: reserve_room)
  have adopt: "adopt_operations sz (hs_operations h) [] [] (b\<lparr>bb_used := bb_used b + ?d\<rparr>) = Some
      (adopted_entries sz (hs_operations h), map op_key (filter (\<lambda>x. \<not> is_unknown_op x) (hs_operations h)),
       b\<lparr>bb_used := bb_used b + ?d + ?c\<rparr>)"
    using room m validate_keys(1) [OF v] by (subst adopt_operations_eq) (simp_all add: adopted_entries_def)
  show ?thesis unfolding new_with_components_def Let_def diag using v m by (simp add: adopt)
qed

lemma adopted_history:
  assumes same: "\<And>k. map_option forget_memory (map_of new k) = map_option forget_memory (map_of old k)"
    and "history_ok origin applied pty old"
  shows "history_ok applied applied [] new"
  unfolding history_ok_def
proof (intro allI impI)
  fix k r rng
  assume "map_of new k = Some (EntryCompleted r rng)"
  then have "map_option forget_memory (map_of old k) = Some (EntryCompleted (r\<lparr>iq_memory := None\<rparr>) rng)" using same [of k] by simp
  then obtain e where e: "map_of old k = Some e" "forget_memory e = EntryCompleted (r\<lparr>iq_memory := None\<rparr>) rng"
    by (auto simp del: map_of_eq_Some_iff)
  then obtain r' where "e = EntryCompleted r' rng" "r'\<lparr>iq_memory := None\<rparr> = r\<lparr>iq_memory := None\<rparr>" by (cases e) auto
  moreover from this have "iq_data r' = iq_data r" "iq_expected_byte r' = iq_expected_byte r"
    by (metis input_operation_request.select_convs(2) input_operation_request.select_convs(3) input_operation_request.surjective input_operation_request.update_convs(1))+
  ultimately have "receipt_ok origin applied pty r rng" using assms(2) e(1) unfolding history_ok_def receipt_ok_def by metis
  then show "receipt_ok applied applied [] r rng" by (cases "iq_data r") (auto simp: receipt_ok_def)
qed

lemma op_bytes_dom:
  "distinct (map fst ops) \<Longrightarrow> op_bytes ops = (\<Sum>k\<in>fst ` set ops. length (iq_data (entry_request (the (map_of ops k)))))"
  unfolding op_bytes_def by (subst sum_list_distinct_conv_sum_set) (auto simp: distinct_map sum.reindex intro!: sum.cong)

lemma op_bytes_same:
  assumes "distinct (map fst new)" "distinct (map fst old)"
    and same: "\<And>k. map_option forget_memory (map_of new k) = map_option forget_memory (map_of old k)"
  shows "op_bytes new = op_bytes old"
proof -
  have data: "iq_data (entry_request (forget_memory e)) = iq_data (entry_request e)" for e by (cases e) simp_all
  have keys: "fst ` set new = fst ` set old"
  proof -
    have "k \<notin> fst ` set new \<longleftrightarrow> k \<notin> fst ` set old" for k
      unfolding map_of_eq_None_iff [symmetric] by (metis same option.map_disc_iff)
    then show ?thesis by blast
  qed
  have "iq_data (entry_request (the (map_of new k))) = iq_data (entry_request (the (map_of old k)))" for k
    using same [of k] data by (cases "map_of new k"; cases "map_of old k") (auto simp del: map_of_eq_Some_iff, metis)
  then show ?thesis using assms(1,2) by (simp add: op_bytes_dom keys)
qed

text \<open>C33 (roundtrip).  An exec-in-place upgrade loses no input receipt.  When a quiet lane satisfying
  its invariant is extracted and the new image's control budget has room for the state it carries,
  adoption never panics; the adopted lane satisfies the same invariant over its fresh descriptor, keeps
  the applied cursor, the poisoned-lane failure, the phase, the completion order and the retained byte
  count, answers every operation key with the entry the old lane held, and charges the budget exactly
  what the state was validated to need.\<close>

theorem handoff_roundtrip:
  assumes ok: "input_ok origin s" and h: "handoff_input_state msg sz rs False s = Inr h"
    and room: "bb_used b + control_memory_bytes msg sz h \<le> bb_limit b" "bb_limit b < U64_MAX"
  shows "\<exists>d t. new_with_components msg sz rs pty_size (nc_phase s = ControlClosed) h b = Some (d, t)
     \<and> input_ok (nc_applied_input_bytes s) t
     \<and> nc_applied_input_bytes t = nc_applied_input_bytes s \<and> nc_input_failure t = nc_input_failure s
     \<and> nc_phase t = nc_phase s \<and> nc_completed_operations t = nc_completed_operations s
     \<and> nc_retained_request_bytes t = nc_retained_request_bytes s
     \<and> (\<forall>k. map_option forget_memory (map_of (nc_input_operations t) k) = map_option forget_memory (map_of (nc_input_operations s) k))
     \<and> bb_used (nc_budget t) = bb_used b + control_memory_bytes msg sz h"
proof -
  let ?ops = "hs_operations h"
  note f = handoff_fields [OF h]
  have led: "distinct (map fst (nc_input_operations s))" "distinct (nc_completed_operations s)"
    "nc_retained_request_bytes s = op_bytes (nc_input_operations s)"
    "k \<in> set (nc_completed_operations s) \<longleftrightarrow> (\<exists>r rng. map_of (nc_input_operations s) k = Some (EntryCompleted r rng))" for k
    using ok unfolding input_ok_def ledger_ok_def ledger_def by blast+
  have d: "distinct (map op_key ?ops)" by (rule validate_keys(1) [OF f(5)])
  note same = handoff_entries [OF led(1,4) h]
  obtain p t where t: "new_with_components msg sz rs pty_size (nc_phase s = ControlClosed) h b = Some (p, t)"
    and t_ops: "nc_input_operations t = adopted_entries sz ?ops"
    and t_done: "nc_completed_operations t = nc_completed_operations s"
    and t_bytes: "nc_retained_request_bytes t = op_bytes (adopted_entries sz ?ops)"
    and t_queue: "nc_input_queue t = []" "nc_input_commands t = 0" "nc_input_bytes t = 0" "nc_pty t = []"
    and t_cursor: "nc_applied_input_bytes t = nc_applied_input_bytes s" "nc_input_failure t = nc_input_failure s"
    and t_rest: "nc_phase t = nc_phase s" "bb_used (nc_budget t) = bb_used b + control_memory_bytes msg sz h"
    using adopted_construction [OF f(5) room, of pty_size "nc_phase s = ControlClosed"] f(1,3,4)
      handoff_completed_order [OF h] by (auto simp: adopted_bytes)
  have hist: "history_ok (nc_applied_input_bytes s) (nc_applied_input_bytes s) [] (adopted_entries sz ?ops)"
    by (rule adopted_history [OF same]) (use ok in \<open>auto simp: input_ok_def wire_ok_def\<close>)
  have "input_ok (nc_applied_input_bytes s) t"
    using t_ops t_done t_bytes t_queue t_cursor hist d led adopted_completed_iff [OF d, of sz] handoff_completed_order [OF h] ok
    by (auto simp: input_ok_def queue_ok_def ledger_ok_def ledger_def wire_ok_def adopted_entries_keys adopted_entries_settled
      simp del: map_of_eq_Some_iff)
  moreover have "op_bytes (adopted_entries sz ?ops) = op_bytes (nc_input_operations s)"
    by (rule op_bytes_same) (use d led(1) same in \<open>simp_all add: adopted_entries_keys\<close>)
  ultimately show ?thesis using t t_ops t_done t_bytes t_cursor t_rest same led(3) by auto
qed

text \<open>A lane after a broken write: one receipt of five bytes, one operation of unknown outcome.\<close>

definition broken_pipe :: protocol_error where
  "broken_pipe = \<lparr>pe_code = IoError, pe_message = ''pipe''\<rparr>"

definition poisoned_lane :: native_control where
  "poisoned_lane = sample_lane\<lparr>nc_input_failure := Some broken_pipe, nc_input_queue := [], nc_input_commands := 0,
     nc_input_bytes := 0, nc_input_scheduled := False, nc_applied_input_bytes := 5, nc_pty := [],
     nc_input_operations :=
       [(''b'', EntryUnknown \<lparr>iq_memory = Some 9, iq_expected_byte = 5, iq_data = [1, 2]\<rparr>
           \<lparr>cf_error = broken_pipe, cf_disposition = DispositionUnknown, cf_confirmed_input_bytes = Some 1\<rparr>),
        (''a'', EntryCompleted \<lparr>iq_memory = Some 9, iq_expected_byte = 0, iq_data = [104, 101, 108, 108, 111]\<rparr>
           \<lparr>ar_start = 0, ar_end = 5\<rparr>)],
     nc_completed_operations := [''a''], nc_retained_request_bytes := 7\<rparr>"

lemma poisoned_lane_ok: "input_ok 5 poisoned_lane"
  by (auto simp: poisoned_lane_def sample_lane_def input_ok_def queue_ok_def ledger_ok_def ledger_def wire_ok_def op_bytes_def
      history_ok_def receipt_ok_def max_values)

definition poisoned_handoff :: handoff_state where
  "poisoned_handoff = \<lparr>hs_applied_input_bytes = 5, hs_input_failure = Some broken_pipe, hs_operations =
     [HandoffCompleted ''a'' 0 [104, 101, 108, 108, 111] \<lparr>ar_start = 0, ar_end = 5\<rparr>,
      HandoffUnknown ''b'' 5 [1, 2] \<lparr>cf_error = broken_pipe, cf_disposition = DispositionUnknown, cf_confirmed_input_bytes = Some 1\<rparr>]\<rparr>"

lemma poisoned_memory: "control_memory_bytes (\<lambda>e. length (pe_message e)) 64 poisoned_handoff = 8331"
  by (simp add: poisoned_handoff_def broken_pipe_def control_memory_bytes_def additional_diagnostic_memory_bytes_def
      retained_diagnostic_bytes_def saturating_add_def saturating_sub_def saturating_mul_def
      input_receipt_charge_def INPUT_RESULT_DIAGNOSTIC_RESERVE_BYTES_def max_values)

lemma poisoned_lane_handoff:
  "handoff_input_state (\<lambda>e. length (pe_message e)) 64 LIMITS_DEFAULT False poisoned_lane = Inr poisoned_handoff"
proof -
  have "validate_with_resources (\<lambda>e. length (pe_message e)) 64 LIMITS_DEFAULT poisoned_handoff = Inr ()"
    unfolding validate_with_resources_def poisoned_memory
    by (simp add: poisoned_handoff_def check_operation_def check_kind_def validate_handoff_unknown_prefix_def broken_pipe_def
        checked_add_def operation_key_validate_def MAX_INPUT_OPERATION_KEY_BYTES_def LIMITS_DEFAULT_def max_values)
  then show ?thesis
    by (simp add: handoff_input_state_def poisoned_lane_def sample_lane_def lane_quiet_def List.map_filter_simps
        poisoned_handoff_def)
qed

theorem handoff_roundtrip_witness:
  "\<exists>d t. new_with_components (\<lambda>e. length (pe_message e)) 64 LIMITS_DEFAULT None False poisoned_handoff
      \<lparr>bb_limit = 20000, bb_used = 100\<rparr> = Some (d, t)
     \<and> input_ok 5 t \<and> nc_completed_operations t = [''a''] \<and> bb_used (nc_budget t) = 8431"
proof -
  have "nc_phase poisoned_lane = ControlOpen" "nc_applied_input_bytes poisoned_lane = 5" "nc_completed_operations poisoned_lane = [''a'']"
    by (simp_all add: poisoned_lane_def sample_lane_def)
  then show ?thesis
    using handoff_roundtrip [OF poisoned_lane_ok poisoned_lane_handoff, of "\<lparr>bb_limit = 20000, bb_used = 100\<rparr>" None]
    by (auto simp: max_values poisoned_memory)
qed

end
