(* ===== verification/Replay_Store.thy ===== *)
theory Replay_Store
  imports Terminal_Model "HOL-Library.AList"
begin

text \<open>
  The durable replay store (\<^verbatim>\<open>crates/ctxmux-daemon/src/persistence.rs\<close>): the tables \<^verbatim>\<open>runs\<close> and
  \<^verbatim>\<open>replay_chunks\<close>, the append-only payload files their extents point into, and the operations that append
  a Run's output, prune it, page it back and validate it at startup.

  A table is the list of its rows in primary-key order, so a query is a list expression and a statement
  that would break a \<^verbatim>\<open>UNIQUE\<close> or \<^verbatim>\<open>CHECK\<close> constraint of the schema is the error \<open>DatabaseError\<close>.  The
  columns that the schema constrains to be non-negative integers are naturals; \<^verbatim>\<open>i64\<close> conversions are
  bounded by \<open>I64_MAX\<close>.  The connection-local accounting table is what its triggers keep it equal to: the
  sum and the count over \<^verbatim>\<open>runs\<close>.  Statements and file operations that fail for reasons outside the
  program (a full disk, a lost device) abort the transaction and are not modelled.
\<close>

section \<open>Definitions\<close>

datatype persistence_error =
    Mutation string
  | Corrupt string
  | ResourcePressure string
  | DatabaseError string
  | IoFailure string

record chunk_row =
  cr_ordinal :: nat
  cr_run :: run_id
  cr_start :: nat
  cr_end :: nat
  cr_file :: string
  cr_offset :: nat
  cr_bytes :: nat

text \<open>The columns of \<^verbatim>\<open>runs\<close> that the store's own logic reads; \<open>rr_source_gap\<close> is the fact
  \<^verbatim>\<open>ctxmux_source_gap_after_byte\<close> inside \<^verbatim>\<open>state_json\<close>.\<close>

record run_row =
  rr_oldest :: nat
  rr_head :: nat
  rr_bytes :: nat
  rr_running :: bool
  rr_truncated :: bool
  rr_source_gap :: "u64 option"
  rr_creation_key :: string
  rr_metadata_bytes :: u64

record store =
  st_runs :: "(run_id \<times> run_row) list"
  st_chunks :: "chunk_row list"
  st_next_ordinal :: nat
  st_files :: "string \<Rightarrow> byte list option"

definition COALESCE_ROW_BYTES :: usize where
  "COALESCE_ROW_BYTES = 64 * 1024"

definition MAX_TRANSACTION_PAYLOAD_BYTES :: usize where
  "MAX_TRANSACTION_PAYLOAD_BYTES = 1024 * 1024"

definition REPLAY_PAGE_BYTES :: u64 where
  "REPLAY_PAGE_BYTES = 64 * 1024"

text \<open>The schema's constraints on \<^verbatim>\<open>replay_chunks\<close>, and the write of a changed table.\<close>

definition chunk_constraints :: "chunk_row list \<Rightarrow> bool" where
  "chunk_constraints extents \<longleftrightarrow> distinct (map (\<lambda>r. (cr_run r, cr_start r)) extents)
     \<and> list_all (\<lambda>r. cr_start r < cr_end r \<and> 0 < cr_bytes r) extents"

definition write_chunks :: "chunk_row list \<Rightarrow> store \<Rightarrow> persistence_error + store" where
  "write_chunks extents s = (if chunk_constraints extents then Inr (s\<lparr>st_chunks := extents\<rparr>) else Inl (DatabaseError ''constraint failed''))"

definition read_run :: "run_id \<Rightarrow> store \<Rightarrow> persistence_error + run_row" where
  "read_run rid s = ok_or (DatabaseError ''query returned no rows'') (map_of (st_runs s) rid)"

definition write_run :: "run_id \<Rightarrow> (run_row \<Rightarrow> run_row) \<Rightarrow> store \<Rightarrow> store" where
  "write_run rid f s = s\<lparr>st_runs := map (\<lambda>(k, r). (k, if k = rid then f r else r)) (st_runs s)\<rparr>"

definition run_rows :: "run_id \<Rightarrow> store \<Rightarrow> chunk_row list" where
  "run_rows rid s = filter (\<lambda>r. cr_run r = rid) (st_chunks s)"

definition validate_replay_file_name :: "string \<Rightarrow> persistence_error + unit" where
  "validate_replay_file_name name =
     require (CHR ''/'' \<notin> set name \<and> 4 < length name \<and> drop (length name - 4) name = ''.bin'') (Corrupt ''invalid replay file name'')"

definition file_bytes :: "string \<Rightarrow> store \<Rightarrow> persistence_error + byte list" where
  "file_bytes name s = ok_or (IoFailure ''replay file'') (st_files s name)"

definition read_replay_segment :: "string \<Rightarrow> u64 \<Rightarrow> u64 \<Rightarrow> store \<Rightarrow> persistence_error + byte list" where
  "read_replay_segment name offset len s =
     and_then (validate_replay_file_name name) (\<lambda>_.
     and_then (file_bytes name s) (\<lambda>data.
     and_then (ok_or (Corrupt ''replay segment range overflows the file offset'') (checked_add offset len)) (\<lambda>stop.
     and_then (require (stop \<le> length data) (Corrupt ''replay segment exceeds file length'')) (\<lambda>_.
       Inr (take len (drop offset data))))))"

definition reset_window_to :: "run_id \<Rightarrow> nat \<Rightarrow> store \<Rightarrow> nat \<times> store" where
  "reset_window_to rid new_floor s =
     (let s = s\<lparr>st_chunks := filter (\<lambda>r. \<not> (cr_run r = rid \<and> cr_start r < new_floor)) (st_chunks s)\<rparr>
      in (sum_list (map cr_bytes (run_rows rid s)), s))"

text \<open>The walk over the rows that overlap a re-sent range.\<close>

fun match_rows :: "store \<Rightarrow> nat \<Rightarrow> nat \<Rightarrow> byte list \<Rightarrow> nat \<Rightarrow> chunk_row list \<Rightarrow> persistence_error + bool" where
  "match_rows s start stop expected cursor extents =
     (if cursor < stop
      then (case extents of
              [] \<Rightarrow> Inr False
            | r # rest \<Rightarrow>
                if cr_start r > cursor \<or> cr_end r \<le> cursor then Inr False
                else (let through = min (cr_end r) stop in
                  and_then (read_replay_segment (cr_file r) (cr_offset r + cursor - cr_start r) (through - cursor) s) (\<lambda>data.
                    if slice_get expected (cursor - start) (through - start) \<noteq> Some data then Inr False
                    else match_rows s start stop expected through rest)))
      else Inr True)"

declare match_rows.simps [simp del]

definition rows_overlapping :: "run_id \<Rightarrow> nat \<Rightarrow> nat \<Rightarrow> store \<Rightarrow> chunk_row list" where
  "rows_overlapping rid from through s =
     sort_key cr_start (filter (\<lambda>r. cr_run r = rid \<and> cr_end r > from \<and> cr_start r < through) (st_chunks s))"

definition stored_range_matches_in :: "run_id \<Rightarrow> nat \<Rightarrow> nat \<Rightarrow> byte list \<Rightarrow> store \<Rightarrow> persistence_error + bool" where
  "stored_range_matches_in rid start stop expected s =
     match_rows s start stop expected start (rows_overlapping rid start stop s)"

text \<open>A Run's cursors, the row being packed and the open payload file.\<close>

record replay_cursors =
  cu_oldest :: nat
  cu_head :: nat
  cu_bytes :: nat
  cu_pending :: "byte list"
  cu_pending_start :: nat
  cu_file :: string
  cu_next_offset :: u64

definition writer_append :: "byte list \<Rightarrow> replay_cursors \<Rightarrow> store \<Rightarrow> persistence_error + (u64 \<times> replay_cursors \<times> store)" where
  "writer_append data c s =
     and_then (ok_or (Mutation ''replay file offset overflows'') (checked_add (cu_next_offset c) (length data))) (\<lambda>next_offset.
     and_then (file_bytes (cu_file c) s) (\<lambda>old.
       Inr (cu_next_offset c, c\<lparr>cu_next_offset := next_offset\<rparr>, s\<lparr>st_files := (st_files s)(cu_file c \<mapsto> old @ data)\<rparr>)))"

definition flush_pending_row :: "run_id \<Rightarrow> replay_cursors \<Rightarrow> store \<Rightarrow> persistence_error + (replay_cursors \<times> store)" where
  "flush_pending_row rid c s =
     (if cu_pending c = [] then Inr (c, s)
      else and_then (require (cu_pending_start c + length (cu_pending c) \<le> I64_MAX)
             (Mutation ''coalesced row end byte exceeds SQLite'')) (\<lambda>_.
        and_then (writer_append (cu_pending c) c s) (\<lambda>(offset, c, s).
        and_then (write_chunks (st_chunks s @ [\<lparr>cr_ordinal = st_next_ordinal s, cr_run = rid,
             cr_start = cu_pending_start c, cr_end = cu_pending_start c + length (cu_pending c),
             cr_file = cu_file c, cr_offset = min offset I64_MAX, cr_bytes = length (cu_pending c)\<rparr>]) s) (\<lambda>s.
          Inr (c\<lparr>cu_pending := []\<rparr>, s\<lparr>st_next_ordinal := st_next_ordinal s + 1\<rparr>)))))"

definition chunk_range_ok :: "output_chunk \<Rightarrow> bool" where
  "chunk_range_ok ch \<longleftrightarrow> start_byte ch < end_byte ch \<and> end_byte ch - start_byte ch = length (chunk_data ch)"

definition advance_window ::
  "run_id \<Rightarrow> output_replay \<Rightarrow> output_chunk \<Rightarrow> replay_cursors \<times> store \<Rightarrow> persistence_error + (replay_cursors \<times> store)" where
  "advance_window rid replay ch = (\<lambda>(c, s).
     and_then
       (if start_byte ch \<noteq> cu_head c
        then if \<not> (rp_truncated replay \<and> start_byte ch = rp_first_available_byte replay)
          then Inl (Mutation ''durable replay gap'')
          else and_then (flush_pending_row rid c s) (\<lambda>(c, s).
            let (bytes, s) = reset_window_to rid (start_byte ch) s
            in Inr (c\<lparr>cu_bytes := bytes, cu_oldest := start_byte ch, cu_head := start_byte ch\<rparr>, s))
        else Inr (c, s)) (\<lambda>(c, s).
     let c = (if cu_head c = 0 then c\<lparr>cu_oldest := start_byte ch\<rparr> else c);
         c = (if cu_pending c = [] then c\<lparr>cu_pending_start := start_byte ch\<rparr> else c);
         c = c\<lparr>cu_pending := cu_pending c @ chunk_data ch\<rparr>
     in and_then (if length (cu_pending c) \<ge> COALESCE_ROW_BYTES then flush_pending_row rid c s else Inr (c, s)) (\<lambda>(c, s).
       Inr (c\<lparr>cu_head := end_byte ch, cu_bytes := min (cu_bytes c + length (chunk_data ch)) I64_MAX\<rparr>, s))))"

definition verify_stored ::
  "run_id \<Rightarrow> output_chunk \<Rightarrow> replay_cursors \<times> store \<Rightarrow> persistence_error + (replay_cursors \<times> store)" where
  "verify_stored rid ch = (\<lambda>(c, s).
     and_then (require (cu_oldest c \<le> start_byte ch) (Mutation ''cannot verify evicted replay range'')) (\<lambda>_.
     and_then (flush_pending_row rid c s) (\<lambda>(c, s).
     and_then (stored_range_matches_in rid (start_byte ch) (end_byte ch) (chunk_data ch) s) (\<lambda>same.
     and_then (require same (Mutation ''replay range is missing or changed bytes'')) (\<lambda>_. Inr (c, s))))))"

function apply_replay_chunk ::
  "run_id \<Rightarrow> output_replay \<Rightarrow> output_chunk \<Rightarrow> replay_cursors \<times> store \<Rightarrow> persistence_error + (replay_cursors \<times> store)" where
  "apply_replay_chunk rid replay ch cs =
     (if \<not> chunk_range_ok ch then Inl (Mutation ''replay range does not match its bytes'')
      else if start_byte ch > I64_MAX then Inl (Mutation ''output start byte exceeds SQLite'')
      else if end_byte ch > I64_MAX then Inl (Mutation ''output end byte exceeds SQLite'')
      else let head = cu_head (fst cs) in
        if start_byte ch < head \<and> head < end_byte ch
        then let prefix_bytes = head - start_byte ch in
          and_then (apply_replay_chunk rid replay
             \<lparr>start_byte = start_byte ch, end_byte = head, chunk_data = take prefix_bytes (chunk_data ch)\<rparr> cs)
          (apply_replay_chunk rid replay
             \<lparr>start_byte = start_byte ch + prefix_bytes, end_byte = end_byte ch, chunk_data = drop prefix_bytes (chunk_data ch)\<rparr>)
        else if end_byte ch \<le> head then verify_stored rid ch cs
        else advance_window rid replay ch cs)"
  by pat_completeness auto
termination
  by (relation "measure (\<lambda>(rid, replay, ch, cs). length (chunk_data ch))") (auto simp: chunk_range_ok_def)

declare apply_replay_chunk.simps [simp del]

fun apply_chunks ::
  "run_id \<Rightarrow> output_replay \<Rightarrow> output_chunk list \<Rightarrow> replay_cursors \<times> store \<Rightarrow> persistence_error + (replay_cursors \<times> store)" where
  "apply_chunks rid replay [] cs = Inr cs"
| "apply_chunks rid replay (ch # chs) cs = and_then (apply_replay_chunk rid replay ch cs) (apply_chunks rid replay chs)"

text \<open>Pruning one Run: clip the extent that crosses the new front, drop the ones below it.\<close>

definition clip_row :: "run_id \<Rightarrow> nat \<Rightarrow> chunk_row \<Rightarrow> chunk_row" where
  "clip_row rid front r =
     (if cr_run r = rid \<and> cr_start r < front \<and> cr_end r > front
      then r\<lparr>cr_offset := cr_offset r + front - cr_start r, cr_bytes := cr_end r - front, cr_start := front\<rparr> else r)"

definition prune_run_replay_to ::
  "run_id \<Rightarrow> nat \<Rightarrow> nat \<Rightarrow> u64 \<Rightarrow> store \<Rightarrow> persistence_error + (bool \<times> nat \<times> nat \<times> store)" where
  "prune_run_replay_to rid oldest bytes replay_limit s =
     (if bytes \<le> replay_limit then Inr (False, oldest, bytes, s)
      else let shed = bytes - min replay_limit I64_MAX; surviving_front = oldest + shed in
        and_then (require (surviving_front \<le> I64_MAX) (Corrupt ''replay floor overflows'')) (\<lambda>_.
        and_then (write_chunks (map (clip_row rid surviving_front) (st_chunks s)) s) (\<lambda>s.
          Inr (True, surviving_front, bytes - shed,
               s\<lparr>st_chunks := filter (\<lambda>r. \<not> (cr_run r = rid \<and> cr_end r \<le> surviving_front)) (st_chunks s)\<rparr>))))"

definition append_replay_with_storage ::
  "run_id \<Rightarrow> output_replay \<Rightarrow> string \<Rightarrow> u64 \<Rightarrow> u64 \<Rightarrow> store \<Rightarrow> persistence_error + (bool \<times> u64 \<times> store)" where
  "append_replay_with_storage rid replay file next_offset replay_limit s =
     and_then (read_run rid s) (\<lambda>row.
     and_then (require (\<not> (\<not> rr_running row \<and> list_ex (\<lambda>ch. end_byte ch > rr_head row) (rp_chunks replay)))
        (Mutation ''cannot advance replay for terminal Run'')) (\<lambda>_.
     and_then (apply_chunks rid replay (rp_chunks replay)
        (\<lparr>cu_oldest = rr_oldest row, cu_head = rr_head row, cu_bytes = rr_bytes row, cu_pending = [], cu_pending_start = 0,
          cu_file = file, cu_next_offset = next_offset\<rparr>, s)) (\<lambda>(c, s).
     and_then (flush_pending_row rid c s) (\<lambda>(c, s).
     and_then (prune_run_replay_to rid (cu_oldest c) (cu_bytes c) replay_limit s) (\<lambda>(evicted, oldest, bytes, s).
       Inr (evicted, cu_next_offset c, write_run rid (\<lambda>r. r\<lparr>rr_oldest := oldest, rr_head := cu_head c, rr_bytes := bytes,
              rr_truncated := (rp_truncated replay \<or> oldest > 0)\<rparr>) s))))))"

text \<open>The daemon-wide quota.\<close>

definition total_replay_bytes :: "store \<Rightarrow> nat" where
  "total_replay_bytes s = sum_list (map (\<lambda>(k, r). rr_bytes r) (st_runs s))"

definition replay_runs :: "store \<Rightarrow> nat" where
  "replay_runs s = length (filter (\<lambda>(k, r). rr_bytes r > 0) (st_runs s))"

definition shed_run_bytes :: "run_id \<Rightarrow> nat \<Rightarrow> store \<Rightarrow> persistence_error + store" where
  "shed_run_bytes rid shed s =
     and_then (require (case map_of (st_runs s) rid of None \<Rightarrow> True | Some r \<Rightarrow> shed \<le> rr_bytes r) (DatabaseError ''constraint failed''))
       (\<lambda>_. Inr (write_run rid (\<lambda>r. r\<lparr>rr_bytes := rr_bytes r - shed, rr_truncated := True,
          rr_oldest := (if run_rows rid s = [] then rr_head r else Min (set (map cr_start (run_rows rid s))))\<rparr>) s))"

text \<open>Deleting an extent, or cutting \<open>shed\<close> bytes off its front.\<close>

definition shed_row :: "nat \<Rightarrow> nat \<Rightarrow> nat \<Rightarrow> store \<Rightarrow> persistence_error + store" where
  "shed_row ordinal bytes shed s =
     (if shed = bytes then Inr (s\<lparr>st_chunks := filter (\<lambda>r. cr_ordinal r \<noteq> ordinal) (st_chunks s)\<rparr>)
      else write_chunks (map (\<lambda>r. if cr_ordinal r = ordinal
              then r\<lparr>cr_start := cr_start r + shed, cr_offset := cr_offset r + shed, cr_bytes := cr_bytes r - shed\<rparr> else r) (st_chunks s)) s)"

definition global_replay_candidate :: "store \<Rightarrow> chunk_row option" where
  "global_replay_candidate s =
     List.find (\<lambda>chunk. list_ex (\<lambda>retained. cr_run retained = cr_run chunk \<and> cr_start retained > cr_start chunk) (st_chunks s)) (st_chunks s)"

text \<open>\<^verbatim>\<open>ORDER BY runs.replay_bytes DESC, chunk.ordinal LIMIT 1\<close>; the sort is stable.\<close>

definition largest_row :: "store \<Rightarrow> chunk_row option" where
  "largest_row s =
     (case sort_key (\<lambda>r. - int (case map_of (st_runs s) (cr_run r) of None \<Rightarrow> 0 | Some row \<Rightarrow> rr_bytes row))
             (filter (\<lambda>r. map_of (st_runs s) (cr_run r) \<noteq> None) (st_chunks s)) of
        [] \<Rightarrow> None | r # _ \<Rightarrow> Some r)"

fun trim_oldest_row :: "u64 \<Rightarrow> usize \<Rightarrow> store \<Rightarrow> persistence_error + (bool \<times> store)" where
  "trim_oldest_row replay_limit extents s =
     (let total = total_replay_bytes s; runs = replay_runs s in
      if total \<le> replay_limit \<or> runs = 0 then Inr (True, s)
      else case extents of
        0 \<Rightarrow> Inr (False, s)
      | Suc extents \<Rightarrow>
          (case largest_row s of
             None \<Rightarrow> Inl (Corrupt ''global replay accounting has no chunks'')
           | Some r \<Rightarrow>
               (let share = min (replay_limit div runs) I64_MAX;
                    shed = min (cr_bytes r - share) (total - min replay_limit I64_MAX)
                in if shed = 0 then Inr (False, s)
                   else and_then (shed_row (cr_ordinal r) (cr_bytes r) shed s) (\<lambda>s.
                     and_then (shed_run_bytes (cr_run r) shed s) (trim_oldest_row replay_limit extents)))))"

declare trim_oldest_row.simps [simp del]

fun prune_global_replay :: "u64 \<Rightarrow> usize \<Rightarrow> store \<Rightarrow> persistence_error + (bool \<times> store)" where
  "prune_global_replay replay_limit extents s =
     (let total = total_replay_bytes s in
      if total \<le> replay_limit then Inr (True, s)
      else case extents of
        0 \<Rightarrow> Inr (False, s)
      | Suc extents \<Rightarrow>
          (case global_replay_candidate s of
             None \<Rightarrow> trim_oldest_row replay_limit extents s
           | Some r \<Rightarrow>
               (let needed = total - min replay_limit I64_MAX; shed = min (cr_bytes r) needed in
                and_then (shed_row (cr_ordinal r) (cr_bytes r) shed s) (\<lambda>s.
                and_then (shed_run_bytes (cr_run r) shed s) (prune_global_replay replay_limit extents)))))"

declare prune_global_replay.simps [simp del]

text \<open>Paging.  One extent is read in pieces of at most a page; a piece that continues the last chunk is merged
  into it while the chunk stays within a page.\<close>

definition push_piece :: "u64 \<Rightarrow> u64 \<Rightarrow> byte list \<Rightarrow> output_chunk list \<Rightarrow> output_chunk list" where
  "push_piece cursor through data chunks =
     (if chunks \<noteq> [] \<and> end_byte (last chunks) = cursor \<and> length (chunk_data (last chunks)) + length data \<le> REPLAY_PAGE_BYTES
      then butlast chunks @ [(last chunks)\<lparr>chunk_data := chunk_data (last chunks) @ data, end_byte := through\<rparr>]
      else chunks @ [\<lparr>start_byte = cursor, end_byte = through, chunk_data = data\<rparr>])"

function read_pieces ::
  "byte list \<Rightarrow> chunk_row \<Rightarrow> u64 \<Rightarrow> u64 \<Rightarrow> output_chunk list \<Rightarrow> persistence_error + output_chunk list" where
  "read_pieces file r cursor stop chunks =
     (if cursor < stop
      then (let through = min stop (cursor + REPLAY_PAGE_BYTES); physical = cr_offset r + cursor - cr_start r;
                data = take (through - cursor) (drop physical file)
            in if length data < through - cursor then Inl (IoFailure ''failed to fill whole buffer'')
               else read_pieces file r through stop (push_piece cursor through data chunks))
      else Inr chunks)"
  by pat_completeness auto
termination
  by (relation "measure (\<lambda>(file, r, cursor, stop, chunks). stop - cursor)") (auto simp: REPLAY_PAGE_BYTES_def min_def)

declare read_pieces.simps [simp del]

fun load_rows :: "u64 \<Rightarrow> u64 \<Rightarrow> store \<Rightarrow> chunk_row list \<Rightarrow> output_chunk list \<Rightarrow> persistence_error + output_chunk list" where
  "load_rows from through s [] chunks = Inr chunks"
| "load_rows from through s (r # rest) chunks =
     and_then (validate_replay_file_name (cr_file r)) (\<lambda>_.
     and_then (file_bytes (cr_file r) s) (\<lambda>file.
     and_then (read_pieces file r (max (cr_start r) from) (min (cr_end r) through) chunks) (load_rows from through s rest)))"

definition load_replay_chunks_range :: "run_id \<Rightarrow> u64 \<Rightarrow> u64 \<Rightarrow> store \<Rightarrow> persistence_error + output_chunk list" where
  "load_replay_chunks_range rid from through s =
     (if from \<ge> through then Inr []
      else if from > I64_MAX \<or> through > I64_MAX then Inl (ResourcePressure ''replay cursor exceeds SQLite range'')
      else load_rows from through s (rows_overlapping rid from through s) [])"

definition source_gap_fact :: "run_row \<Rightarrow> persistence_error + u64 option" where
  "source_gap_fact row =
     (case rr_source_gap row of
        None \<Rightarrow> Inr None
      | Some cursor \<Rightarrow> if cursor \<le> rr_head row then Inr (Some cursor) else Inl (Corrupt ''invalid durable source-gap cursor''))"

definition load_replay_page :: "run_id \<Rightarrow> u64 \<Rightarrow> u64 \<Rightarrow> store \<Rightarrow> persistence_error + output_replay" where
  "load_replay_page rid after through s =
     and_then (read_run rid s) (\<lambda>row.
     let from = max after (rr_oldest row);
         till = min (min through (rr_head row)) (saturating_add from REPLAY_PAGE_BYTES) in
     and_then (load_replay_chunks_range rid from till s) (\<lambda>chunks.
     and_then (source_gap_fact row) (\<lambda>gap.
       Inr \<lparr>rp_chunks = chunks, rp_first_available_byte = rr_oldest row, rp_latest_output_bytes = rr_head row,
            rp_truncated = (after < rr_oldest row \<or> (case gap of None \<Rightarrow> False | Some cursor \<Rightarrow> after \<le> cursor)
               \<or> rr_truncated row \<and> rr_oldest row = 0)\<rparr>)))"

text \<open>The walk that every open repeats; there is no fallback for \<open>Corrupt\<close>.\<close>

fun validate_rows :: "store \<Rightarrow> chunk_row list \<Rightarrow> u64 \<Rightarrow> u64 \<Rightarrow> persistence_error + (u64 \<times> u64)" where
  "validate_rows s [] expected bytes = Inr (expected, bytes)"
| "validate_rows s (r # rest) expected bytes =
     and_then (validate_replay_file_name (cr_file r)) (\<lambda>_.
     and_then (ok_or (Corrupt ''replay extent overflows'') (checked_add (cr_offset r) (cr_bytes r))) (\<lambda>stop.
     and_then (file_bytes (cr_file r) s) (\<lambda>file.
     and_then (require (stop \<le> length file) (Corrupt ''replay exceeds its payload file'')) (\<lambda>_.
     and_then (require (\<not> (cr_start r \<noteq> expected \<or> cr_end r \<le> cr_start r \<or> cr_end r - cr_start r \<noteq> cr_bytes r))
        (Corrupt ''replay range is invalid or not contiguous'')) (\<lambda>_.
       validate_rows s rest (cr_end r) (saturating_add bytes (cr_bytes r)))))))"

definition validate_replay_window_in :: "run_id \<Rightarrow> run_row \<Rightarrow> store \<Rightarrow> persistence_error + unit" where
  "validate_replay_window_in rid row s =
     (let extents = sort_key cr_start (run_rows rid s) in
      and_then (validate_rows s extents (rr_oldest row) 0) (\<lambda>(expected, bytes).
      if extents = []
      then require (\<not> (rr_oldest row \<noteq> rr_head row \<or> rr_bytes row \<noteq> 0 \<or> rr_head row > 0 \<and> \<not> rr_truncated row))
             (Corrupt ''empty replay with non-empty cursors'')
      else and_then (require (expected = rr_head row \<and> bytes = rr_bytes row) (Corrupt ''replay cursors or bytes do not match chunks'')) (\<lambda>_.
        require (\<not> (rr_oldest row > 0 \<and> \<not> rr_truncated row)) (Corrupt ''pruned replay is not marked truncated''))))"

text \<open>Splitting and merging offers.\<close>

fun split_chunks_loop ::
  "output_chunk list \<Rightarrow> output_chunk list \<Rightarrow> usize \<Rightarrow> persistence_error + output_chunk list list" where
  "split_chunks_loop [] current bytes = Inr (if current = [] then [] else [current])"
| "split_chunks_loop (ch # chs) current bytes =
     (if length (chunk_data ch) > MAX_TRANSACTION_PAYLOAD_BYTES
      then Inl (Mutation ''output range exceeds the transaction payload ceiling'')
      else if current \<noteq> [] \<and> saturating_add bytes (length (chunk_data ch)) > MAX_TRANSACTION_PAYLOAD_BYTES
      then and_then (split_chunks_loop chs [ch] (length (chunk_data ch))) (\<lambda>groups. Inr (current # groups))
      else split_chunks_loop chs (current @ [ch]) (saturating_add bytes (length (chunk_data ch))))"

definition split_chunks :: "output_chunk list \<Rightarrow> persistence_error + output_chunk list list" where
  "split_chunks chs = split_chunks_loop chs [] 0"

definition replay_payload :: "output_replay \<Rightarrow> usize" where
  "replay_payload replay = sum_list (map (\<lambda>ch. length (chunk_data ch)) (rp_chunks replay))"

text \<open>Offers of the same Run in one batch are merged at the first one's place.\<close>

definition merge_replay :: "output_replay \<Rightarrow> output_replay \<Rightarrow> output_replay" where
  "merge_replay existing replay = replay\<lparr>rp_chunks := rp_chunks existing @ rp_chunks replay\<rparr>"

definition coalesce_batch :: "(run_id \<times> output_replay) list \<Rightarrow> (run_id \<times> output_replay) list" where
  "coalesce_batch batch =
     foldl (\<lambda>merged (rid, replay).
        if rid \<in> fst ` set merged
        then map (\<lambda>(k, existing). (k, if k = rid then merge_replay existing replay else existing)) merged
        else merged @ [(rid, replay)]) [] batch"

text \<open>The bytes a finaliser still has to write, without the prefix the store has retired.  The slice is in
  range: the chunk ends above the head, and so above the floor.\<close>

definition missing_chunk :: "nat \<Rightarrow> output_chunk \<Rightarrow> persistence_error + output_chunk" where
  "missing_chunk floor ch =
     (if checked_sub (end_byte ch) (start_byte ch) \<noteq> Some (length (chunk_data ch))
      then Inl (Mutation ''final replay range does not match its bytes'')
      else if floor \<le> start_byte ch then Inr ch
      else Inr \<lparr>start_byte = floor, end_byte = end_byte ch, chunk_data = drop (floor - start_byte ch) (chunk_data ch)\<rparr>)"

fun collect_results :: "('e + 'a) list \<Rightarrow> 'e + 'a list" where
  "collect_results [] = Inr []"
| "collect_results (r # rs) = and_then r (\<lambda>a. and_then (collect_results rs) (\<lambda>as. Inr (a # as)))"

definition missing_chunks :: "run_id \<Rightarrow> output_replay \<Rightarrow> store \<Rightarrow> persistence_error + output_chunk list" where
  "missing_chunks rid replay s =
     and_then (read_run rid s) (\<lambda>row.
     and_then (require (rr_oldest row \<le> rr_head row) (Corrupt ''durable floor exceeds head'')) (\<lambda>_.
       collect_results (map (missing_chunk (rr_oldest row)) (filter (\<lambda>ch. end_byte ch > rr_head row) (rp_chunks replay)))))"

end
