(* ===== verification/Replay_Window.thy ===== *)
theory Replay_Window
  imports Replay_Store
begin

text \<open>
  What the durable replay store promises.  A Run's extents form one chain from its floor to its head, so
  the store denotes a window of bytes per Run; appending refines an abstract window update, and pruning
  keeps a suffix of it.
\<close>

section \<open>The denoted window\<close>

lemma require_simps [simp]: "require True e = Inr ()" "require False e = Inl e"
  by (simp_all add: require_def)

definition row_ok :: "store \<Rightarrow> chunk_row \<Rightarrow> bool" where
  "row_ok s r \<longleftrightarrow> cr_start r < cr_end r \<and> cr_bytes r = cr_end r - cr_start r \<and> validate_replay_file_name (cr_file r) = Inr ()
     \<and> (\<exists>f. st_files s (cr_file r) = Some f \<and> cr_offset r + cr_bytes r \<le> length f)"

fun chain :: "nat \<Rightarrow> chunk_row list \<Rightarrow> nat \<Rightarrow> bool" where
  "chain a [] b \<longleftrightarrow> a = b"
| "chain a (r # rs) b \<longleftrightarrow> cr_start r = a \<and> cr_start r < cr_end r \<and> chain (cr_end r) rs b"

definition row_data :: "store \<Rightarrow> chunk_row \<Rightarrow> byte list" where
  "row_data s r = take (cr_bytes r) (drop (cr_offset r) (the (st_files s (cr_file r))))"

definition window :: "run_id \<Rightarrow> store \<Rightarrow> byte list" where
  "window rid s = concat (map (row_data s) (run_rows rid s))"

text \<open>Table and file invariants that do not involve the cursors of a Run.\<close>

definition tables_ok :: "store \<Rightarrow> bool" where
  "tables_ok s \<longleftrightarrow> distinct (map fst (st_runs s))
     \<and> distinct (map cr_ordinal (st_chunks s)) \<and> (\<forall>r\<in>set (st_chunks s). cr_ordinal r < st_next_ordinal s)
     \<and> distinct (map (\<lambda>r. (cr_run r, cr_start r)) (st_chunks s))
     \<and> (\<forall>r\<in>set (st_chunks s). row_ok s r \<and> cr_run r \<in> fst ` set (st_runs s))
     \<and> (\<forall>n f. st_files s n = Some f \<longrightarrow> length f \<le> I64_MAX)"

definition stored_run_ok :: "run_id \<Rightarrow> run_row \<Rightarrow> store \<Rightarrow> bool" where
  "stored_run_ok rid row s \<longleftrightarrow> chain (rr_oldest row) (run_rows rid s) (rr_head row)
     \<and> rr_bytes row = rr_head row - rr_oldest row \<and> rr_head row \<le> I64_MAX \<and> (rr_oldest row > 0 \<longrightarrow> rr_truncated row)"

definition store_ok :: "store \<Rightarrow> bool" where
  "store_ok s \<longleftrightarrow> tables_ok s \<and> (\<forall>(rid, row)\<in>set (st_runs s). stored_run_ok rid row s)"

lemma chain_le: "chain a rs b \<Longrightarrow> a \<le> b"
  by (induction rs arbitrary: a) fastforce+

lemma chain_append [simp]: "chain a (rs @ ts) b \<longleftrightarrow> (\<exists>m. chain a rs m \<and> chain m ts b)"
  by (induction rs arbitrary: a) auto

lemma chain_bounds: "chain a rs b \<Longrightarrow> r \<in> set rs \<Longrightarrow> a \<le> cr_start r \<and> cr_start r < cr_end r \<and> cr_end r \<le> b"
proof (induction rs arbitrary: a)
  case (Cons x rs)
  show ?case
  proof (cases "r = x")
    case True
    then show ?thesis using Cons.prems chain_le by auto
  next
    case False
    then show ?thesis using Cons.IH [of "cr_end x"] Cons.prems by auto
  qed
qed simp

lemma chain_sorted: "chain a rs b \<Longrightarrow> sorted (map cr_start rs)"
proof (induction rs arbitrary: a)
  case (Cons x rs)
  then show ?case using chain_bounds [of "cr_end x" rs b] by force
qed simp

lemma chain_sort [simp]: "chain a rs b \<Longrightarrow> sort_key cr_start rs = rs"
  by (rule sort_key_id_if_sorted) (rule chain_sorted)

lemma row_data_length: "row_ok s r \<Longrightarrow> length (row_data s r) = cr_bytes r"
  by (auto simp: row_ok_def row_data_def)

lemma chain_length:
  "chain a rs b \<Longrightarrow> (\<And>r. r \<in> set rs \<Longrightarrow> row_ok s r) \<Longrightarrow> length (concat (map (row_data s) rs)) = b - a"
proof (induction rs arbitrary: a)
  case (Cons x rs)
  have x: "row_ok s x" using Cons.prems(2) by simp
  have "length (row_data s x) = cr_end x - a" using row_data_length [OF x] x Cons.prems(1) by (auto simp: row_ok_def)
  moreover have "cr_end x \<le> b" using Cons.prems(1) chain_le by fastforce
  moreover have "length (concat (map (row_data s) rs)) = b - cr_end x" using Cons by simp
  ultimately show ?case using Cons.prems(1) by simp
qed simp

lemma run_rows_mem [simp]: "r \<in> set (run_rows rid s) \<longleftrightarrow> r \<in> set (st_chunks s) \<and> cr_run r = rid"
  by (auto simp: run_rows_def)

lemma tables_rows: "tables_ok s \<Longrightarrow> r \<in> set (run_rows rid s) \<Longrightarrow> row_ok s r"
  by (simp add: tables_ok_def)

lemma file_bound: "tables_ok s \<Longrightarrow> st_files s n = Some f \<Longrightarrow> length f \<le> I64_MAX"
  by (simp add: tables_ok_def)

lemma window_length: "tables_ok s \<Longrightarrow> chain a (run_rows rid s) b \<Longrightarrow> length (window rid s) = b - a"
  unfolding window_def using chain_length tables_rows by blast

lemma sort_run_rows: "chain a (run_rows rid s) b \<Longrightarrow>
    rows_overlapping rid from through s = filter (\<lambda>r. cr_end r > from \<and> cr_start r < through) (run_rows rid s)"
proof -
  assume c: "chain a (run_rows rid s) b"
  have "filter (\<lambda>r. cr_run r = rid \<and> cr_end r > from \<and> cr_start r < through) (st_chunks s)
      = filter (\<lambda>r. cr_end r > from \<and> cr_start r < through) (run_rows rid s)"
    by (simp add: run_rows_def conj_commute)
  moreover have "sorted (map cr_start (filter (\<lambda>r. cr_end r > from \<and> cr_start r < through) (run_rows rid s)))"
    by (rule sorted_filter [OF chain_sorted [OF c]])
  ultimately show ?thesis by (simp add: rows_overlapping_def sort_key_id_if_sorted)
qed

section \<open>Reading\<close>

lemma read_segment_row:
  assumes "row_ok s r" "tables_ok s" "cr_start r \<le> a" "a \<le> b" "b \<le> cr_end r"
  shows "read_replay_segment (cr_file r) (cr_offset r + a - cr_start r) (b - a) s
      = Inr (take (b - a) (drop (a - cr_start r) (row_data s r)))"
proof -
  obtain f where f: "st_files s (cr_file r) = Some f" "cr_offset r + cr_bytes r \<le> length f"
    using assms(1) by (auto simp: row_ok_def)
  have len: "length f \<le> U64_MAX" using file_bound [OF assms(2) f(1)] by (simp add: max_values)
  have "cr_offset r + a - cr_start r + (b - a) \<le> length f" using assms f by (auto simp: row_ok_def)
  moreover have "take (b - a) (drop (cr_offset r + a - cr_start r) f) = take (b - a) (drop (a - cr_start r) (row_data s r))"
  proof -
    have "b - a \<le> cr_bytes r - (a - cr_start r)" "cr_offset r + a - cr_start r = a - cr_start r + cr_offset r"
      using assms by (auto simp: row_ok_def)
    then show ?thesis using f by (simp add: row_data_def drop_take min_absorb1)
  qed
  ultimately show ?thesis using assms(1) f len
    by (auto simp: read_replay_segment_def row_ok_def file_bytes_def checked_add_def)
qed

lemma prefix_split: "length d = k \<Longrightarrow> k \<le> length e \<Longrightarrow> d @ x = e \<longleftrightarrow> take k e = d \<and> x = drop k e"
  by (auto simp: append_eq_conv_conj)

text \<open>The walk over a chain compares exactly the bytes from the cursor to the end of the range.\<close>

lemma match_chain:
  assumes "tables_ok s" "chain o1 rs h" "\<And>r. r \<in> set rs \<Longrightarrow> row_ok s r"
    and "max a o1 \<le> b" "b \<le> h" "length expected = b - a"
  shows "match_rows s a b expected (max a o1) (filter (\<lambda>r. cr_end r > a \<and> cr_start r < b) rs)
    = Inr (take (b - max a o1) (drop (max a o1 - o1) (concat (map (row_data s) rs))) = drop (max a o1 - a) expected)"
  using assms(2-)
proof (induction rs arbitrary: o1)
  case Nil
  then show ?case by (subst match_rows.simps) auto
next
  case (Cons r rs)
  let ?c = "max a o1" and ?d = "row_data s r" and ?ds = "concat (map (row_data s) rs)"
  let ?fs = "filter (\<lambda>r. cr_end r > a \<and> cr_start r < b) rs"
  have r: "cr_start r = o1" "o1 < cr_end r" "chain (cr_end r) rs h" "row_ok s r" using Cons.prems by auto
  have d: "length ?d = cr_end r - o1" using row_data_length [OF r(4)] r by (simp add: row_ok_def)
  show ?case
  proof (cases "cr_end r \<le> a")
    case True
    have "max a (cr_end r) = a" "?c = a" using True r by auto
    then show ?thesis using Cons.IH [OF r(3)] Cons.prems True r d by (simp add: drop_eq_Nil)
  next
    case False
    show ?thesis
    proof (cases "?c < b")
      case c: True
      let ?t = "min (cr_end r) b"
      have seg: "read_replay_segment (cr_file r) (cr_offset r + ?c - cr_start r) (?t - ?c) s
          = Inr (take (?t - ?c) (drop (?c - o1) ?d))"
        using read_segment_row [OF r(4) assms(1), of ?c ?t] False c r by auto
      have sl: "slice_get expected (?c - a) (?t - a) = Some (take (?t - ?c) (drop (?c - a) expected))"
        using Cons.prems(5) c False r by (auto simp: slice_get_def min_def max_def)
      have step: "match_rows s a b expected ?c (filter (\<lambda>r. cr_end r > a \<and> cr_start r < b) (r # rs))
          = (if take (?t - ?c) (drop (?c - a) expected) \<noteq> take (?t - ?c) (drop (?c - o1) ?d) then Inr False
             else match_rows s a b expected ?t ?fs)"
        using False c r seg sl by (subst match_rows.simps) (auto simp: Let_def)
      show ?thesis
      proof (cases "cr_end r < b")
        case True
        have t: "?t = cr_end r" "max a (cr_end r) = cr_end r" using True False by auto
        have ih: "match_rows s a b expected (cr_end r) ?fs = Inr (take (b - cr_end r) ?ds = drop (cr_end r - a) expected)"
          using Cons.IH [OF r(3)] Cons.prems True t by simp
        have n: "length (drop (?c - o1) ?d) = cr_end r - ?c" "cr_end r - ?c \<le> length (drop (?c - a) expected)"
          using True False d r Cons.prems(5) by auto
        have "drop (cr_end r - ?c) (drop (?c - a) expected) = drop (cr_end r - a) expected"
          using False r by (auto simp: max_def)
        moreover have "take (b - ?c) (drop (?c - o1) (?d @ ?ds)) = drop (?c - o1) ?d @ take (b - cr_end r) ?ds"
          using True False d r by (auto simp: max_def)
        ultimately have "take (b - ?c) (drop (?c - o1) (?d @ ?ds)) = drop (?c - a) expected \<longleftrightarrow>
            take (cr_end r - ?c) (drop (?c - a) expected) = drop (?c - o1) ?d \<and> take (b - cr_end r) ?ds = drop (cr_end r - a) expected"
          using prefix_split [OF n] by simp
        then show ?thesis using step ih t n(1) by auto
      next
        case f: False
        have t: "?t = b" using f by simp
        have "match_rows s a b expected b ?fs = Inr True" by (subst match_rows.simps) simp
        moreover have "take (b - ?c) (drop (?c - a) expected) = drop (?c - a) expected" using Cons.prems(5) by simp
        moreover have "take (b - ?c) (drop (?c - o1) (?d @ ?ds)) = take (b - ?c) (drop (?c - o1) ?d)" using f d r False by simp
        ultimately show ?thesis using step t by auto
      qed
    next
      case c: False
      then show ?thesis using Cons.prems by (subst match_rows.simps) auto
    qed
  qed
qed

lemma stored_range_matches:
  assumes "tables_ok s" "chain o1 (run_rows rid s) h" "o1 \<le> a" "a \<le> b" "b \<le> h" "length expected = b - a"
  shows "stored_range_matches_in rid a b expected s = Inr (take (b - a) (drop (a - o1) (window rid s)) = expected)"
  using match_chain [OF assms(1,2), of a b expected] assms tables_rows [OF assms(1)]
  by (simp add: stored_range_matches_in_def sort_run_rows [OF assms(2)] window_def max_def)

section \<open>Appending\<close>

text \<open>The abstract window: its floor and its bytes.  A chunk that overlaps it must agree with it, a chunk
  that continues it extends it, and a chunk beyond its head replaces it when the producer shows that the
  bytes between are gone.\<close>

definition window_apply :: "bool \<Rightarrow> u64 \<Rightarrow> output_chunk \<Rightarrow> nat \<times> byte list \<Rightarrow> (nat \<times> byte list) option" where
  "window_apply trunc first ch = (\<lambda>(oldest, w).
     if \<not> chunk_range_ok ch \<or> end_byte ch > I64_MAX then None
     else if start_byte ch > oldest + length w
     then (if trunc \<and> start_byte ch = first then Some (start_byte ch, chunk_data ch) else None)
     else let overlap = min (end_byte ch) (oldest + length w) - start_byte ch in
       if overlap > 0 \<and> (start_byte ch < oldest \<or> take overlap (drop (start_byte ch - oldest) w) \<noteq> take overlap (chunk_data ch))
       then None else Some (oldest, w @ drop overlap (chunk_data ch)))"

text \<open>What an operation on one Run leaves of the rest of the store.\<close>

definition frame :: "run_id \<Rightarrow> store \<Rightarrow> store \<Rightarrow> bool" where
  "frame rid s t \<longleftrightarrow> st_runs t = st_runs s \<and> (\<forall>k. k \<noteq> rid \<longrightarrow> run_rows k t = run_rows k s)
     \<and> (\<forall>n f. st_files s n = Some f \<longrightarrow> (\<exists>g. st_files t n = Some (f @ g)))"

lemma frame_refl: "frame rid s s"
  by (simp add: frame_def)

lemma frame_trans: "frame rid s t \<Longrightarrow> frame rid t u \<Longrightarrow> frame rid s u"
  unfolding frame_def by (metis append.assoc)

lemma frame_row_data: "frame rid s t \<Longrightarrow> row_ok s r \<Longrightarrow> row_data t r = row_data s r"
  by (fastforce simp: frame_def row_ok_def row_data_def)

lemma frame_row_ok: "frame rid s t \<Longrightarrow> row_ok s r \<Longrightarrow> row_ok t r"
  by (fastforce simp: frame_def row_ok_def)

lemma frame_window: "frame rid s t \<Longrightarrow> tables_ok s \<Longrightarrow> k \<noteq> rid \<Longrightarrow> window k t = window k s"
  unfolding window_def frame_def [THEN iffD1, THEN conjunct2, THEN conjunct1, rule_format]
  by (auto intro!: arg_cong [where f = concat] simp: frame_row_data tables_rows)

definition cursor_ok :: "run_id \<Rightarrow> replay_cursors \<Rightarrow> store \<Rightarrow> bool" where
  "cursor_ok rid c s \<longleftrightarrow> tables_ok s \<and> rid \<in> fst ` set (st_runs s)
     \<and> chain (cu_oldest c) (run_rows rid s) (cu_head c - length (cu_pending c))
     \<and> (cu_pending c \<noteq> [] \<longrightarrow> cu_pending_start c + length (cu_pending c) = cu_head c)
     \<and> length (cu_pending c) \<le> cu_head c
     \<and> cu_bytes c = cu_head c - cu_oldest c \<and> cu_head c \<le> I64_MAX
     \<and> validate_replay_file_name (cu_file c) = Inr ()
     \<and> (\<exists>f. st_files s (cu_file c) = Some f \<and> length f = cu_next_offset c)"

definition cursor_window :: "run_id \<Rightarrow> replay_cursors \<Rightarrow> store \<Rightarrow> nat \<times> byte list" where
  "cursor_window rid c s = (cu_oldest c, window rid s @ cu_pending c)"

lemma cursor_window_head: "cursor_ok rid c s \<Longrightarrow> cu_oldest c + length (window rid s @ cu_pending c) = cu_head c"
  using window_length [of s "cu_oldest c" rid "cu_head c - length (cu_pending c)"] chain_le
  by (fastforce simp: cursor_ok_def)

lemma run_rows_snoc: "run_rows k (s\<lparr>st_chunks := st_chunks s @ [r]\<rparr>) = run_rows k s @ (if cr_run r = k then [r] else [])"
  by (simp add: run_rows_def)

lemma run_rows_other [simp]:
  "run_rows k (s\<lparr>st_files := fs\<rparr>) = run_rows k s" "run_rows k (s\<lparr>st_next_ordinal := n\<rparr>) = run_rows k s"
  "run_rows k (s\<lparr>st_runs := rr\<rparr>) = run_rows k s"
  by (simp_all add: run_rows_def)

text \<open>Packing the pending bytes into a row changes the representation, not the window.\<close>

lemma flush_spec:
  assumes ok: "cursor_ok rid c s" and room: "cu_next_offset c + length (cu_pending c) \<le> I64_MAX"
  shows "\<exists>t. flush_pending_row rid c s = Inr (c\<lparr>cu_pending := [], cu_next_offset := cu_next_offset c + length (cu_pending c)\<rparr>, t)
     \<and> cursor_ok rid (c\<lparr>cu_pending := [], cu_next_offset := cu_next_offset c + length (cu_pending c)\<rparr>) t
     \<and> frame rid s t \<and> window rid t = window rid s @ cu_pending c"
proof (cases "cu_pending c = []")
  case True
  have eq: "c\<lparr>cu_pending := [], cu_next_offset := cu_next_offset c + length (cu_pending c)\<rparr> = c" using True by (cases c) simp
  show ?thesis unfolding eq using ok True by (simp add: flush_pending_row_def frame_refl)
next
  case False
  obtain f where f: "st_files s (cu_file c) = Some f" "length f = cu_next_offset c" using ok by (auto simp: cursor_ok_def)
  let ?p = "cu_pending c"
  define r where "r = \<lparr>cr_ordinal = st_next_ordinal s, cr_run = rid, cr_start = cu_pending_start c,
      cr_end = cu_pending_start c + length ?p, cr_file = cu_file c, cr_offset = cu_next_offset c, cr_bytes = length ?p\<rparr>"
  define t where "t = s\<lparr>st_files := (st_files s)(cu_file c \<mapsto> f @ ?p), st_chunks := st_chunks s @ [r], st_next_ordinal := st_next_ordinal s + 1\<rparr>"
  have head: "cu_pending_start c + length ?p = cu_head c" "cu_head c \<le> I64_MAX" using ok False by (auto simp: cursor_ok_def)
  have chain: "chain (cu_oldest c) (run_rows rid s) (cu_pending_start c)"
    using ok head by (auto simp: cursor_ok_def) (metis add_diff_cancel_right')
  have rows: "run_rows k t = run_rows k s @ (if k = rid then [r] else [])" for k
    by (auto simp: run_rows_def t_def r_def)
  have fr: "frame rid s t" using f rows by (auto simp: frame_def t_def)
  have lt: "cu_pending_start c < cu_head c" using head False by (cases ?p) auto
  then have r_ok: "row_ok t r" using ok f head by (auto simp: row_ok_def cursor_ok_def t_def r_def)
  have fresh: "(rid, cu_pending_start c) \<notin> (\<lambda>r. (cr_run r, cr_start r)) ` set (st_chunks s)"
    using chain_bounds [OF chain] by (fastforce simp: run_rows_mem)
  have tables: "tables_ok t"
    using ok fresh r_ok frame_row_ok [OF fr] room f by (auto simp: tables_ok_def cursor_ok_def t_def r_def)
  have "chunk_constraints (st_chunks s @ [r])"
    using tables by (auto simp: chunk_constraints_def tables_ok_def list_all_iff row_ok_def t_def)
  then have run: "flush_pending_row rid c s = Inr (c\<lparr>cu_pending := [], cu_next_offset := cu_next_offset c + length ?p\<rparr>, t)"
    using False f head room
    by (simp add: flush_pending_row_def writer_append_def file_bytes_def checked_add_def write_chunks_def max_values t_def r_def)
  have "map (row_data t) (run_rows rid s) = map (row_data s) (run_rows rid s)"
    using frame_row_data [OF fr] ok by (simp add: cursor_ok_def tables_ok_def)
  moreover have "row_data t r = ?p" using f by (simp add: row_data_def t_def r_def)
  ultimately have "window rid t = window rid s @ ?p" unfolding window_def rows by (simp only: map_append concat_append if_True) simp
  moreover have "cursor_ok rid (c\<lparr>cu_pending := [], cu_next_offset := cu_next_offset c + length ?p\<rparr>) t"
    using ok tables chain False f head lt by (auto simp: cursor_ok_def rows) (force simp: t_def r_def)+
  ultimately show ?thesis using run fr by blast
qed

lemma reset_spec:
  assumes ok: "cursor_ok rid c s" and p: "cu_pending c = []" and a: "cu_head c < a" "a \<le> I64_MAX"
  shows "\<exists>t. reset_window_to rid a s = (0, t) \<and> frame rid s t \<and> run_rows rid t = [] \<and> window rid t = []
     \<and> cursor_ok rid (c\<lparr>cu_bytes := 0, cu_oldest := a, cu_head := a\<rparr>) t"
proof -
  let ?t = "s\<lparr>st_chunks := filter (\<lambda>r. \<not> (cr_run r = rid \<and> cr_start r < a)) (st_chunks s)\<rparr>"
  have chain: "chain (cu_oldest c) (run_rows rid s) (cu_head c)" using ok p by (simp add: cursor_ok_def)
  have "\<not> (cr_run r = rid \<and> \<not> cr_start r < a)" if "r \<in> set (st_chunks s)" for r
    using chain_bounds [OF chain, of r] that a by auto
  then have own: "run_rows rid ?t = []" by (auto simp: run_rows_def filter_empty_conv)
  have other: "run_rows k ?t = run_rows k s" if "k \<noteq> rid" for k
    using that by (auto simp: run_rows_def intro!: filter_cong)
  have fr: "frame rid s ?t" using other by (auto simp: frame_def)
  have "tables_ok ?t" using ok frame_row_ok [OF fr]
    by (auto simp: tables_ok_def cursor_ok_def distinct_map intro: inj_on_subset distinct_filter)
  then have "cursor_ok rid (c\<lparr>cu_bytes := 0, cu_oldest := a, cu_head := a\<rparr>) ?t"
    using ok p own a by (auto simp: cursor_ok_def)
  then show ?thesis using own fr by (auto simp: reset_window_to_def window_def)
qed

text \<open>A chunk that needs no split, as the code branches on it.\<close>

definition refines_window :: "run_id \<Rightarrow> output_replay \<Rightarrow> output_chunk \<Rightarrow> replay_cursors \<Rightarrow> store \<Rightarrow> persistence_error + (replay_cursors \<times> store) \<Rightarrow> bool" where
  "refines_window rid replay ch c s res \<longleftrightarrow>
     (let spec = window_apply (rp_truncated replay) (rp_first_available_byte replay) ch (cursor_window rid c s) in
      case res of
        Inl _ \<Rightarrow> spec = None
      | Inr (c', s') \<Rightarrow> spec = Some (cursor_window rid c' s') \<and> cursor_ok rid c' s' \<and> frame rid s s' \<and> cu_file c' = cu_file c
          \<and> cu_next_offset c' + length (cu_pending c') \<le> cu_next_offset c + length (cu_pending c) + length (chunk_data ch))"

lemma verify_refines:
  assumes ok: "cursor_ok rid c s" and room: "cu_next_offset c + length (cu_pending c) \<le> I64_MAX"
    and ch: "chunk_range_ok ch" "end_byte ch \<le> cu_head c"
  shows "refines_window rid replay ch c s (verify_stored rid ch (c, s))"
proof -
  let ?c = "c\<lparr>cu_pending := [], cu_next_offset := cu_next_offset c + length (cu_pending c)\<rparr>"
  obtain t where t: "flush_pending_row rid c s = Inr (?c, t)" "cursor_ok rid ?c t" "frame rid s t" "window rid t = window rid s @ cu_pending c"
    using flush_spec [OF ok room] by blast
  have head: "cu_oldest c + length (window rid s @ cu_pending c) = cu_head c" by (rule cursor_window_head [OF ok])
  have bound: "cu_head c \<le> I64_MAX" using ok by (simp add: cursor_ok_def)
  have len: "length (chunk_data ch) = end_byte ch - start_byte ch" "start_byte ch < end_byte ch" using ch by (auto simp: chunk_range_ok_def)
  have cmp: "stored_range_matches_in rid (start_byte ch) (end_byte ch) (chunk_data ch) t
      = Inr (take (end_byte ch - start_byte ch) (drop (start_byte ch - cu_oldest c) (window rid t)) = chunk_data ch)"
    if "cu_oldest c \<le> start_byte ch"
    using stored_range_matches [of t "cu_oldest c" rid "cu_head c" "start_byte ch" "end_byte ch" "chunk_data ch"] t(2) that len ch(2)
    by (auto simp: cursor_ok_def)
  show ?thesis
    using t head bound len ch cmp
    by (cases "cu_oldest c \<le> start_byte ch")
      (auto simp: refines_window_def verify_stored_def window_apply_def cursor_window_def Let_def)
qed

text \<open>The part of \<open>advance_window\<close> after a possible reset.\<close>

definition extend_window :: "run_id \<Rightarrow> output_chunk \<Rightarrow> replay_cursors \<Rightarrow> store \<Rightarrow> persistence_error + (replay_cursors \<times> store)" where
  "extend_window rid ch c s =
     (let c = (if cu_head c = 0 then c\<lparr>cu_oldest := start_byte ch\<rparr> else c);
          c = (if cu_pending c = [] then c\<lparr>cu_pending_start := start_byte ch\<rparr> else c);
          c = c\<lparr>cu_pending := cu_pending c @ chunk_data ch\<rparr>
      in and_then (if length (cu_pending c) \<ge> COALESCE_ROW_BYTES then flush_pending_row rid c s else Inr (c, s)) (\<lambda>(c, s).
        Inr (c\<lparr>cu_head := end_byte ch, cu_bytes := min (cu_bytes c + length (chunk_data ch)) I64_MAX\<rparr>, s)))"

lemma flush_cursors:
  assumes "flush_pending_row rid (c\<lparr>cu_head := h, cu_bytes := b\<rparr>) s = Inr (c\<lparr>cu_head := h, cu_bytes := b\<rparr>\<lparr>cu_pending := [], cu_next_offset := n\<rparr>, t)"
    and "n = cu_next_offset c + length (cu_pending c)"
  shows "flush_pending_row rid c s = Inr (c\<lparr>cu_pending := [], cu_next_offset := n\<rparr>, t)"
  using assms by (cases c) (auto simp: flush_pending_row_def writer_append_def split: if_splits)

lemma extend_refines:
  assumes ok: "cursor_ok rid c s" and room: "cu_next_offset c + length (cu_pending c) + length (chunk_data ch) \<le> I64_MAX"
    and ch: "chunk_range_ok ch" "start_byte ch = cu_head c" "end_byte ch \<le> I64_MAX"
  shows "refines_window rid replay ch c s (extend_window rid ch c s)"
proof -
  let ?p = "cu_pending c @ chunk_data ch" and ?n = "length (chunk_data ch)"
  let ?start = "if cu_pending c = [] then start_byte ch else cu_pending_start c"
  let ?packed = "c\<lparr>cu_pending_start := ?start, cu_pending := ?p\<rparr>"
  let ?moved = "?packed\<lparr>cu_head := end_byte ch, cu_bytes := cu_bytes c + ?n\<rparr>"
  have le: "cu_oldest c \<le> cu_head c" using chain_le ok by (fastforce simp: cursor_ok_def)
  have len: "?n = end_byte ch - cu_head c" "cu_head c < end_byte ch" using ch by (auto simp: chunk_range_ok_def)
  have bytes: "cu_bytes c + ?n \<le> I64_MAX" using ok ch len by (simp add: cursor_ok_def)
  have moved: "cursor_ok rid ?moved s" using ok ch len le by (auto simp: cursor_ok_def)
  have spec: "window_apply tr fa ch (cursor_window rid c s) = Some (cu_oldest c, window rid s @ ?p)" for tr fa
    using cursor_window_head [OF ok] ch len by (simp add: window_apply_def cursor_window_def)
  have run: "extend_window rid ch c s = and_then (if length ?p \<ge> COALESCE_ROW_BYTES then flush_pending_row rid ?packed s else Inr (?packed, s))
      (\<lambda>(c, s). Inr (c\<lparr>cu_head := end_byte ch, cu_bytes := min (cu_bytes c + ?n) I64_MAX\<rparr>, s))"
    using le ch by (cases c) (auto simp: extend_window_def Let_def)
  show ?thesis
  proof (cases "length ?p \<ge> COALESCE_ROW_BYTES")
    case True
    obtain t where t: "flush_pending_row rid ?moved s = Inr (?moved\<lparr>cu_pending := [], cu_next_offset := cu_next_offset c + length ?p\<rparr>, t)"
      "cursor_ok rid (?moved\<lparr>cu_pending := [], cu_next_offset := cu_next_offset c + length ?p\<rparr>) t" "frame rid s t" "window rid t = window rid s @ ?p"
      using flush_spec [OF moved] room by (auto simp: add.assoc)
    have "flush_pending_row rid ?packed s = Inr (?packed\<lparr>cu_pending := [], cu_next_offset := cu_next_offset c + length ?p\<rparr>, t)"
      by (rule flush_cursors [OF t(1)]) simp
    then have "extend_window rid ch c s = Inr (?moved\<lparr>cu_pending := [], cu_next_offset := cu_next_offset c + length ?p\<rparr>, t)"
      using True bytes by (simp add: run)
    then show ?thesis using t(2-4) spec by (simp add: refines_window_def cursor_window_def)
  next
    case False
    then have "extend_window rid ch c s = Inr (?moved, s)" using bytes by (simp add: run)
    then show ?thesis using moved spec by (simp add: refines_window_def cursor_window_def frame_refl)
  qed
qed

lemma advance_refines:
  assumes ok: "cursor_ok rid c s" and room: "cu_next_offset c + length (cu_pending c) + length (chunk_data ch) \<le> I64_MAX"
    and ch: "chunk_range_ok ch" "cu_head c \<le> start_byte ch" "end_byte ch \<le> I64_MAX"
  shows "refines_window rid replay ch c s (advance_window rid replay ch (c, s))"
proof (cases "start_byte ch = cu_head c")
  case True
  show ?thesis using extend_refines [OF ok room ch(1) True ch(3)] True by (simp add: advance_window_def extend_window_def)
next
  case False
  note head = cursor_window_head [OF ok]
  show ?thesis
  proof (cases "rp_truncated replay \<and> start_byte ch = rp_first_available_byte replay")
    case gone: True
    let ?c = "c\<lparr>cu_pending := [], cu_next_offset := cu_next_offset c + length (cu_pending c)\<rparr>"
    let ?c2 = "?c\<lparr>cu_bytes := 0, cu_oldest := start_byte ch, cu_head := start_byte ch\<rparr>"
    obtain t where t: "flush_pending_row rid c s = Inr (?c, t)" "cursor_ok rid ?c t" "frame rid s t"
      using flush_spec [OF ok] room by fastforce
    obtain u where u: "reset_window_to rid (start_byte ch) t = (0, u)" "frame rid t u" "window rid u = []" "cursor_ok rid ?c2 u"
      using reset_spec [OF t(2), of "start_byte ch"] False ch by (auto simp: chunk_range_ok_def)
    have r: "refines_window rid replay ch ?c2 u (extend_window rid ch ?c2 u)"
      by (rule extend_refines [OF u(4) _ ch(1) _ ch(3)]) (use room in simp_all)
    have run: "advance_window rid replay ch (c, s) = extend_window rid ch ?c2 u"
      using False gone t(1) u(1) by (simp add: advance_window_def extend_window_def)
    have spec: "window_apply tr fa ch (cursor_window rid ?c2 u) = Some (start_byte ch, chunk_data ch)" for tr fa
      using u(3) ch by (simp add: window_apply_def cursor_window_def Let_def)
    have "window_apply (rp_truncated replay) (rp_first_available_byte replay) ch (cursor_window rid c s) = Some (start_byte ch, chunk_data ch)"
      using False gone ch head by (simp add: window_apply_def cursor_window_def)
    then show ?thesis using r spec t(3) u(2) unfolding run refines_window_def Let_def
      by (auto split: sum.splits intro: frame_trans)
  next
    case False2: False
    then show ?thesis using False ch head
      by (auto simp: advance_window_def refines_window_def window_apply_def cursor_window_def)
  qed
qed

lemma apply_unsplit:
  assumes "chunk_range_ok ch" "end_byte ch \<le> I64_MAX"
  shows "end_byte ch \<le> cu_head c \<Longrightarrow> apply_replay_chunk rid replay ch (c, s) = verify_stored rid ch (c, s)"
    and "cu_head c \<le> start_byte ch \<Longrightarrow> apply_replay_chunk rid replay ch (c, s) = advance_window rid replay ch (c, s)"
  using assms by (subst apply_replay_chunk.simps, auto simp: chunk_range_ok_def Let_def)+

lemma apply_split:
  assumes ok: "cursor_ok rid c s" and room: "cu_next_offset c + length (cu_pending c) + length (chunk_data ch) \<le> I64_MAX"
    and ch: "chunk_range_ok ch" "start_byte ch < cu_head c" "cu_head c < end_byte ch" "end_byte ch \<le> I64_MAX"
  shows "refines_window rid replay ch c s (apply_replay_chunk rid replay ch (c, s))"
proof -
  define k where "k = cu_head c - start_byte ch"
  define pre where "pre = \<lparr>start_byte = start_byte ch, end_byte = cu_head c, chunk_data = take k (chunk_data ch)\<rparr>"
  define suf where "suf = \<lparr>start_byte = start_byte ch + k, end_byte = end_byte ch, chunk_data = drop k (chunk_data ch)\<rparr>"
  have k: "0 < k" "k < length (chunk_data ch)" "start_byte ch + k = cu_head c" using ch by (auto simp: k_def chunk_range_ok_def)
  have parts: "chunk_range_ok pre" "chunk_range_ok suf" "end_byte pre \<le> I64_MAX" "end_byte suf \<le> I64_MAX"
    using ch k by (auto simp: chunk_range_ok_def pre_def suf_def)
  have head: "cu_oldest c + length (window rid s @ cu_pending c) = cu_head c" by (rule cursor_window_head [OF ok])
  have run: "apply_replay_chunk rid replay ch (c, s) = and_then (verify_stored rid pre (c, s)) (apply_replay_chunk rid replay suf)"
    using ch apply_unsplit(1) [OF parts(1,3), of c rid replay s]
    by (subst apply_replay_chunk.simps) (simp add: Let_def k_def [symmetric] pre_def suf_def)
  have v: "refines_window rid replay pre c s (verify_stored rid pre (c, s))"
    using verify_refines [OF ok _ parts(1)] room by (simp add: pre_def)
  have spec_pre: "window_apply tr fa pre (cursor_window rid c s) = (case window_apply tr fa ch (cursor_window rid c s) of
      None \<Rightarrow> None | Some _ \<Rightarrow> Some (cursor_window rid c s))" for tr fa
    using ch k head parts k_def [symmetric] by (simp add: window_apply_def cursor_window_def pre_def Let_def min_def)
  show ?thesis
  proof (cases "verify_stored rid pre (c, s)")
    case (Inl e)
    then show ?thesis using v run spec_pre by (simp add: refines_window_def split: option.splits)
  next
    case (Inr r)
    obtain c1 s1 where r: "r = (c1, s1)" by (cases r)
    have v1: "window_apply (rp_truncated replay) (rp_first_available_byte replay) pre (cursor_window rid c s) = Some (cursor_window rid c1 s1)"
      "cursor_ok rid c1 s1" "frame rid s s1" "cu_file c1 = cu_file c"
      "cu_next_offset c1 + length (cu_pending c1) \<le> cu_next_offset c + length (cu_pending c) + k"
      using v [unfolded refines_window_def Let_def Inr r] k by (simp_all add: pre_def)
    have same: "cursor_window rid c1 s1 = cursor_window rid c s" "window_apply (rp_truncated replay) (rp_first_available_byte replay) ch (cursor_window rid c s) \<noteq> None"
      using v1(1) spec_pre by (auto split: option.splits)
    have h1: "cu_head c1 = cu_head c" using same(1) head cursor_window_head [OF v1(2)] by (simp add: cursor_window_def)
    have a: "refines_window rid replay suf c1 s1 (advance_window rid replay suf (c1, s1))"
      by (rule advance_refines [OF v1(2) _ parts(2)]) (use v1(5) room k h1 parts in \<open>simp_all add: suf_def\<close>)
    have run2: "apply_replay_chunk rid replay ch (c, s) = advance_window rid replay suf (c1, s1)"
      using run Inr r apply_unsplit(2) [OF parts(2,4), of c1 rid replay s1] h1 k by (simp add: suf_def)
    have "window_apply (rp_truncated replay) (rp_first_available_byte replay) suf (cursor_window rid c s)
        = window_apply (rp_truncated replay) (rp_first_available_byte replay) ch (cursor_window rid c s)"
      using same(2) ch k head parts k_def [symmetric] by (auto simp: window_apply_def cursor_window_def suf_def Let_def min_def split: if_splits)
    then show ?thesis
      using a v1(3-5) same(1) k unfolding run2 refines_window_def Let_def
      by (auto simp: suf_def split: sum.splits intro: frame_trans)
  qed
qed

lemma apply_refines:
  assumes "cursor_ok rid c s" "cu_next_offset c + length (cu_pending c) + length (chunk_data ch) \<le> I64_MAX"
  shows "refines_window rid replay ch c s (apply_replay_chunk rid replay ch (c, s))"
proof (cases "chunk_range_ok ch \<and> end_byte ch \<le> I64_MAX")
  case False
  then show ?thesis by (subst apply_replay_chunk.simps) (auto simp: refines_window_def window_apply_def cursor_window_def)
next
  case True
  then consider "end_byte ch \<le> cu_head c" | "cu_head c \<le> start_byte ch" | "start_byte ch < cu_head c" "cu_head c < end_byte ch"
    by linarith
  then show ?thesis
  proof cases
    case 1
    then show ?thesis using apply_unsplit(1) verify_refines [OF assms(1)] assms(2) True by simp
  next
    case 2
    then show ?thesis using apply_unsplit(2) advance_refines assms True by simp
  next
    case 3
    then show ?thesis using apply_split assms True by simp
  qed
qed

fun window_apply_all :: "bool \<Rightarrow> u64 \<Rightarrow> output_chunk list \<Rightarrow> nat \<times> byte list \<Rightarrow> (nat \<times> byte list) option" where
  "window_apply_all trunc first [] w = Some w"
| "window_apply_all trunc first (ch # chs) w = Option.bind (window_apply trunc first ch w) (window_apply_all trunc first chs)"

lemma apply_chunks_refines:
  assumes "cursor_ok rid c s"
    and "cu_next_offset c + length (cu_pending c) + sum_list (map (\<lambda>ch. length (chunk_data ch)) chs) \<le> I64_MAX"
  shows "case apply_chunks rid replay chs (c, s) of
      Inl _ \<Rightarrow> window_apply_all (rp_truncated replay) (rp_first_available_byte replay) chs (cursor_window rid c s) = None
    | Inr (c', s') \<Rightarrow> window_apply_all (rp_truncated replay) (rp_first_available_byte replay) chs (cursor_window rid c s) = Some (cursor_window rid c' s')
        \<and> cursor_ok rid c' s' \<and> frame rid s s' \<and> cu_file c' = cu_file c
        \<and> cu_next_offset c' + length (cu_pending c') \<le> cu_next_offset c + length (cu_pending c) + sum_list (map (\<lambda>ch. length (chunk_data ch)) chs)"
  using assms
proof (induction chs arbitrary: c s)
  case Nil
  then show ?case by (simp add: frame_refl)
next
  case (Cons ch chs)
  have r: "refines_window rid replay ch c s (apply_replay_chunk rid replay ch (c, s))"
    using apply_refines [OF Cons.prems(1)] Cons.prems(2) by simp
  show ?case
  proof (cases "apply_replay_chunk rid replay ch (c, s)")
    case (Inl e)
    then show ?thesis using r by (simp add: refines_window_def)
  next
    case (Inr x)
    obtain c1 s1 where x: "x = (c1, s1)" by (cases x)
    have r1: "window_apply (rp_truncated replay) (rp_first_available_byte replay) ch (cursor_window rid c s) = Some (cursor_window rid c1 s1)"
      "cursor_ok rid c1 s1" "frame rid s s1" "cu_file c1 = cu_file c"
      "cu_next_offset c1 + length (cu_pending c1) \<le> cu_next_offset c + length (cu_pending c) + length (chunk_data ch)"
      using r [unfolded refines_window_def Let_def Inr x] by simp_all
    have "cu_next_offset c1 + length (cu_pending c1) + sum_list (map (\<lambda>ch. length (chunk_data ch)) chs) \<le> I64_MAX"
      using r1(5) Cons.prems(2) by simp
    from Cons.IH [OF r1(2) this] show ?thesis using r1 frame_trans [OF r1(3)] by (auto simp: Inr x split: sum.splits)
  qed
qed

section \<open>Pruning\<close>

lemma chain_disjoint:
  "chain a rs b \<Longrightarrow> r \<in> set rs \<Longrightarrow> r' \<in> set rs \<Longrightarrow> r = r' \<or> cr_end r \<le> cr_start r' \<or> cr_end r' \<le> cr_start r"
proof (induction rs arbitrary: a)
  case (Cons x rs)
  then show ?case using chain_bounds [of "cr_end x" rs b] by auto
qed simp

lemma clip_data:
  assumes "row_ok s r"
  shows "row_ok s (clip_row rid front r)"
    and "cr_run r = rid \<Longrightarrow> cr_start r < front \<Longrightarrow> front < cr_end r \<Longrightarrow> row_data s (clip_row rid front r) = drop (front - cr_start r) (row_data s r)"
  using assms by (auto simp: row_ok_def clip_row_def row_data_def drop_take add.commute)

lemma clip_frame [simp]:
  "cr_run (clip_row rid front r) = cr_run r" "cr_end (clip_row rid front r) = cr_end r" "cr_ordinal (clip_row rid front r) = cr_ordinal r"
  by (simp_all add: clip_row_def)

lemma clip_chain:
  assumes "chain a rs b" "a \<le> front" "front \<le> b" "\<And>r. r \<in> set rs \<Longrightarrow> cr_run r = rid \<and> row_ok s r"
  shows "chain front (filter (\<lambda>r. front < cr_end r) (map (clip_row rid front) rs)) b
    \<and> concat (map (row_data s) (filter (\<lambda>r. front < cr_end r) (map (clip_row rid front) rs)))
        = drop (front - a) (concat (map (row_data s) rs))"
  using assms
proof (induction rs arbitrary: a)
  case (Cons r rs)
  have r: "cr_start r = a" "a < cr_end r" "chain (cr_end r) rs b" "cr_run r = rid" "row_ok s r" using Cons.prems by auto
  have len: "length (row_data s r) = cr_end r - a" using row_data_length [OF r(5)] r by (simp add: row_ok_def)
  show ?case
  proof (cases "cr_end r \<le> front")
    case True
    then show ?thesis using Cons.IH [OF r(3)] Cons.prems r len by simp
  next
    case False
    have id: "clip_row rid front x = x" "front < cr_end x" if "x \<in> set rs" for x
      using chain_bounds [OF r(3) that] False by (auto simp: clip_row_def)
    have "map (clip_row rid front) rs = rs" by (rule map_idI) (rule id(1))
    then have rest: "filter (\<lambda>r. front < cr_end r) (map (clip_row rid front) rs) = rs" using id(2) by (simp add: filter_id_conv)
    have "row_data s (clip_row rid front r) = drop (front - a) (row_data s r)"
      using clip_data(2) [OF r(5,4)] r Cons.prems(2) False by (cases "a = front") (auto simp: clip_row_def)
    moreover have "cr_start (clip_row rid front r) = front" using r False Cons.prems(2) by (auto simp: clip_row_def)
    ultimately show ?thesis using False rest r len by (simp del: filter_map)
  qed
qed simp

lemma clip_unique:
  assumes "tables_ok s" "chain a (run_rows rid s) b"
  shows "distinct (map (\<lambda>r. (cr_run r, cr_start r)) (map (clip_row rid front) (st_chunks s)))"
proof -
  have d: "distinct (st_chunks s)" "inj_on (\<lambda>r. (cr_run r, cr_start r)) (set (st_chunks s))"
    using assms(1) by (auto simp: tables_ok_def distinct_map)
  have "inj_on (\<lambda>r. (cr_run r, cr_start (clip_row rid front r))) (set (st_chunks s))"
  proof (rule inj_onI)
    fix x y
    assume xy: "x \<in> set (st_chunks s)" "y \<in> set (st_chunks s)"
      and eq: "(cr_run x, cr_start (clip_row rid front x)) = (cr_run y, cr_start (clip_row rid front y))"
    show "x = y"
    proof (cases "cr_run x = rid")
      case True
      then have dis: "x = y \<or> cr_end x \<le> cr_start y \<or> cr_end y \<le> cr_start x"
        using chain_disjoint [OF assms(2), of x y] xy eq by simp
      have "cr_start x < cr_end x" "cr_start y < cr_end y" using assms(1) xy by (auto simp: tables_ok_def row_ok_def)
      moreover have "cr_start (clip_row rid front x) = cr_start (clip_row rid front y)" "cr_run y = rid" using eq True by auto
      ultimately show ?thesis using dis True
        by (cases "cr_start x < front \<and> front < cr_end x"; cases "cr_start y < front \<and> front < cr_end y")
          (auto simp: clip_row_def)
    next
      case False
      then show ?thesis using inj_onD [OF d(2)] xy eq by (auto simp: clip_row_def)
    qed
  qed
  then show ?thesis using d(1) by (simp add: distinct_map comp_def)
qed

text \<open>Cutting a Run's extents back to a new front.\<close>

definition clip_to :: "run_id \<Rightarrow> nat \<Rightarrow> store \<Rightarrow> store" where
  "clip_to rid front s = s\<lparr>st_chunks := filter (\<lambda>r. \<not> (cr_run r = rid \<and> cr_end r \<le> front)) (map (clip_row rid front) (st_chunks s))\<rparr>"

lemma clip_to_own: "run_rows rid (clip_to rid front s) = filter (\<lambda>r. front < cr_end r) (map (clip_row rid front) (run_rows rid s))"
  by (auto simp: run_rows_def clip_to_def filter_map comp_def conj_commute not_le intro!: arg_cong [where f = "map (clip_row rid front)"] filter_cong)

lemma clip_to_other:
  assumes "k \<noteq> rid"
  shows "run_rows k (clip_to rid front s) = run_rows k s"
proof -
  have "run_rows k (clip_to rid front s) = map (clip_row rid front) (filter (\<lambda>r. cr_run r = k) (st_chunks s))"
    using assms by (auto simp: run_rows_def clip_to_def filter_map comp_def intro!: arg_cong [where f = "map (clip_row rid front)"] filter_cong)
  also have "\<dots> = run_rows k s" using assms by (auto simp: run_rows_def clip_row_def intro!: map_idI)
  finally show ?thesis .
qed

lemma clip_to_spec:
  assumes tab: "tables_ok s" and chain: "chain a (run_rows rid s) b" and fr: "a \<le> front" "front \<le> b"
  shows "tables_ok (clip_to rid front s)" "chain front (run_rows rid (clip_to rid front s)) b" "frame rid s (clip_to rid front s)"
    "window rid (clip_to rid front s) = drop (front - a) (window rid s)" "chunk_constraints (map (clip_row rid front) (st_chunks s))"
proof -
  have dr: "row_data (clip_to rid front s) = row_data s" "row_ok (clip_to rid front s) = row_ok s"
    by (auto simp: row_data_def row_ok_def clip_to_def fun_eq_iff)
  show "chain front (run_rows rid (clip_to rid front s)) b" "window rid (clip_to rid front s) = drop (front - a) (window rid s)"
    using clip_chain [OF chain fr, of rid s] tables_rows [OF tab] by (simp_all add: window_def clip_to_own dr)
  have uniq: "distinct (map (\<lambda>r. (cr_run r, cr_start r)) (map (clip_row rid front) (st_chunks s)))" by (rule clip_unique [OF tab chain])
  have rows_ok: "row_ok s (clip_row rid front r)" if "r \<in> set (st_chunks s)" for r
    using that tab clip_data(1) by (simp add: tables_ok_def)
  then show "chunk_constraints (map (clip_row rid front) (st_chunks s))"
    using uniq by (auto simp: chunk_constraints_def list_all_iff row_ok_def)
  have ord: "distinct (map cr_ordinal (map (clip_row rid front) (st_chunks s)))" using tab by (simp add: tables_ok_def comp_def)
  show "tables_ok (clip_to rid front s)"
    using tab uniq rows_ok ord unfolding tables_ok_def dr
    by (auto simp: clip_to_def distinct_map_filter simp del: map_map)
  show "frame rid s (clip_to rid front s)" using clip_to_other by (simp add: frame_def) (simp add: clip_to_def)
qed

lemma prune_spec:
  assumes ok: "cursor_ok rid c s" and p: "cu_pending c = []"
  shows "\<exists>t. prune_run_replay_to rid (cu_oldest c) (cu_bytes c) limit s
      = Inr (limit < cu_bytes c, cu_oldest c + (cu_bytes c - limit), cu_bytes c - (cu_bytes c - limit), t)
    \<and> tables_ok t \<and> chain (cu_oldest c + (cu_bytes c - limit)) (run_rows rid t) (cu_head c) \<and> frame rid s t
    \<and> window rid t = drop (cu_bytes c - limit) (window rid s) \<and> st_files t = st_files s"
proof (cases "cu_bytes c \<le> limit")
  case True
  then show ?thesis using ok p by (auto simp: prune_run_replay_to_def cursor_ok_def frame_refl)
next
  case False
  have chain: "chain (cu_oldest c) (run_rows rid s) (cu_head c)" and tab: "tables_ok s"
    and b: "cu_bytes c = cu_head c - cu_oldest c" "cu_head c \<le> I64_MAX"
    using ok p by (auto simp: cursor_ok_def)
  define front where "front = cu_oldest c + (cu_bytes c - limit)"
  have fr: "cu_oldest c \<le> front" "front \<le> cu_head c" "front - cu_oldest c = cu_bytes c - limit"
    using b chain_le [OF chain] False by (auto simp: front_def)
  note clip = clip_to_spec [OF tab chain fr(1,2)]
  have "min limit I64_MAX = limit" "front \<le> I64_MAX" using False b fr by auto
  then have "prune_run_replay_to rid (cu_oldest c) (cu_bytes c) limit s = Inr (True, front, cu_bytes c - (cu_bytes c - limit), clip_to rid front s)"
    using False clip(5) by (simp add: prune_run_replay_to_def write_chunks_def front_def [symmetric] clip_to_def)
  then show ?thesis using False clip fr(3) by (auto simp: front_def) (auto simp: clip_to_def)
qed

section \<open>The append refines the window update\<close>

text \<open>The window after an append: the updated one, without the oldest bytes beyond the limit.\<close>

definition keep_last :: "nat \<Rightarrow> nat \<times> byte list \<Rightarrow> nat \<times> byte list" where
  "keep_last limit = (\<lambda>(oldest, w). (oldest + (length w - limit), drop (length w - limit) w))"

definition run_window :: "run_id \<Rightarrow> store \<Rightarrow> (nat \<times> byte list) option" where
  "run_window rid s = map_option (\<lambda>row. (rr_oldest row, window rid s)) (map_of (st_runs s) rid)"

lemma map_of_update_key:
  "map_of (map (\<lambda>(k, r). (k, if k = rid then f r else r)) xs) k = (if k = rid then map_option f (map_of xs k) else map_of xs k)"
  by (induction xs) auto

lemma write_run_lookup: "map_of (st_runs (write_run rid f s)) k = (if k = rid then map_option f (map_of (st_runs s) k) else map_of (st_runs s) k)"
  by (simp add: write_run_def map_of_update_key)

lemma write_run_frame [simp]:
  "st_chunks (write_run rid f s) = st_chunks s" "st_files (write_run rid f s) = st_files s" "st_next_ordinal (write_run rid f s) = st_next_ordinal s"
  "run_rows k (write_run rid f s) = run_rows k s"
  by (simp_all add: write_run_def)

lemma write_run_window [simp]: "window k (write_run rid f s) = window k s"
proof -
  have "row_data (write_run rid f s) = row_data s" by (simp add: row_data_def fun_eq_iff)
  then show ?thesis by (simp add: window_def)
qed

lemma write_run_keys [simp]: "map fst (st_runs (write_run rid f s)) = map fst (st_runs s)"
  "fst ` set (st_runs (write_run rid f s)) = fst ` set (st_runs s)"
  by (simp_all add: write_run_def comp_def split_def image_image)

lemma write_run_tables [simp]: "tables_ok (write_run rid f s) = tables_ok s"
  by (simp add: tables_ok_def row_ok_def)

text \<open>Closing an operation on one Run: its new row, over a frame of the others.\<close>

lemma store_ok_write_run:
  assumes ok: "store_ok s" and fr: "frame rid s t" "tables_ok t" and row: "map_of (st_runs s) rid = Some row" "stored_run_ok rid (f row) t"
  shows "store_ok (write_run rid f t)" "k \<noteq> rid \<Longrightarrow> run_window k (write_run rid f t) = run_window k s"
    "run_window rid (write_run rid f t) = Some (rr_oldest (f row), window rid t)"
proof -
  have runs: "st_runs t = st_runs s" and d: "distinct (map fst (st_runs s))"
    using fr ok by (auto simp: frame_def store_ok_def tables_ok_def)
  have "stored_run_ok k r (write_run rid f t)" if "(k, r) \<in> set (st_runs (write_run rid f t))" for k r
  proof -
    have "map_of (st_runs (write_run rid f t)) k = Some r" using that d runs by (intro map_of_is_SomeI) simp_all
    then have r: "map_of (st_runs s) k = Some (if k = rid then row else r)" "k = rid \<Longrightarrow> r = f row"
      using row(1) runs by (auto simp: write_run_lookup split: if_splits)
    show ?thesis
    proof (cases "k = rid")
      case True
      then show ?thesis using r(2) row(2) by (simp add: stored_run_ok_def)
    next
      case False
      then have "stored_run_ok k r s" using ok map_of_SomeD [OF r(1)] by (auto simp: store_ok_def)
      then show ?thesis using fr(1) False by (simp add: stored_run_ok_def frame_def)
    qed
  qed
  then show "store_ok (write_run rid f t)" using fr(2) by (auto simp: store_ok_def)
  show "run_window k (write_run rid f t) = run_window k s" if "k \<noteq> rid"
    using that runs frame_window [OF fr(1) _ that] ok by (simp add: run_window_def write_run_lookup store_ok_def)
  show "run_window rid (write_run rid f t) = Some (rr_oldest (f row), window rid t)"
    using row(1) runs by (simp add: run_window_def write_run_lookup)
qed

lemma append_start:
  assumes "store_ok s" "map_of (st_runs s) rid = Some row" "st_files s file = Some f" "length f = n"
    "validate_replay_file_name file = Inr ()"
  shows "cursor_ok rid \<lparr>cu_oldest = rr_oldest row, cu_head = rr_head row, cu_bytes = rr_bytes row, cu_pending = [], cu_pending_start = 0,
          cu_file = file, cu_next_offset = n\<rparr> s"
  using assms map_of_SomeD [OF assms(2)] by (force simp: cursor_ok_def store_ok_def stored_run_ok_def)

lemma append_spec:
  assumes ok: "store_ok s" and row: "map_of (st_runs s) rid = Some row"
    and payload: "st_files s file = Some f" "length f = n" "validate_replay_file_name file = Inr ()"
    and room: "n + replay_payload replay \<le> I64_MAX"
  shows "case append_replay_with_storage rid replay file n limit s of
      Inl _ \<Rightarrow> \<not> rr_running row \<and> list_ex (\<lambda>ch. end_byte ch > rr_head row) (rp_chunks replay)
        \<or> window_apply_all (rp_truncated replay) (rp_first_available_byte replay) (rp_chunks replay) (rr_oldest row, window rid s) = None
    | Inr (evicted, n', t) \<Rightarrow> store_ok t \<and> (rr_running row \<or> list_all (\<lambda>ch. end_byte ch \<le> rr_head row) (rp_chunks replay))
        \<and> (\<exists>w. window_apply_all (rp_truncated replay) (rp_first_available_byte replay) (rp_chunks replay) (rr_oldest row, window rid s) = Some w
             \<and> run_window rid t = Some (keep_last limit w) \<and> evicted = (limit < length (snd w)))
        \<and> (\<forall>k. k \<noteq> rid \<longrightarrow> run_window k t = run_window k s)
        \<and> map fst (st_runs t) = map fst (st_runs s) \<and> n' \<le> n + replay_payload replay \<and> (\<exists>f'. st_files t file = Some f' \<and> length f' = n')"
proof (cases "\<not> rr_running row \<and> list_ex (\<lambda>ch. end_byte ch > rr_head row) (rp_chunks replay)")
  case True
  then show ?thesis using row by (simp add: append_replay_with_storage_def read_run_def)
next
  case live: False
  let ?c = "\<lparr>cu_oldest = rr_oldest row, cu_head = rr_head row, cu_bytes = rr_bytes row, cu_pending = [], cu_pending_start = 0,
          cu_file = file, cu_next_offset = n\<rparr>"
  have live': "rr_running row \<or> list_all (\<lambda>ch. end_byte ch \<le> rr_head row) (rp_chunks replay)"
    using live by (auto simp: list_ex_iff list_all_iff not_less)
  have cw: "cursor_window rid ?c s = (rr_oldest row, window rid s)" by (simp add: cursor_window_def)
  note chunks = apply_chunks_refines [OF append_start [OF ok row payload], of "rp_chunks replay" replay]
  show ?thesis
  proof (cases "apply_chunks rid replay (rp_chunks replay) (?c, s)")
    case (Inl e)
    then show ?thesis using chunks row room live by (simp add: append_replay_with_storage_def read_run_def cw replay_payload_def)
  next
    case (Inr x)
    obtain c1 s1 where x: "x = (c1, s1)" by (cases x)
    let ?w = "cursor_window rid c1 s1" and ?c2 = "c1\<lparr>cu_pending := [], cu_next_offset := cu_next_offset c1 + length (cu_pending c1)\<rparr>"
    have w: "window_apply_all (rp_truncated replay) (rp_first_available_byte replay) (rp_chunks replay) (rr_oldest row, window rid s) = Some ?w"
      and c1: "cursor_ok rid c1 s1" "frame rid s s1" "cu_next_offset c1 + length (cu_pending c1) \<le> n + replay_payload replay" "cu_file c1 = file"
      using chunks room by (simp_all add: Inr x cw replay_payload_def)
    obtain t1 where t1: "flush_pending_row rid c1 s1 = Inr (?c2, t1)" "cursor_ok rid ?c2 t1" "frame rid s1 t1"
      "window rid t1 = window rid s1 @ cu_pending c1"
      using flush_spec [OF c1(1)] c1(3) room by (meson order_trans)
    have len: "length (snd ?w) = cu_bytes c1" using cursor_window_head [OF c1(1)] c1(1) by (simp add: cursor_window_def cursor_ok_def)
    obtain t2 where t2: "prune_run_replay_to rid (cu_oldest c1) (cu_bytes c1) limit t1
        = Inr (limit < cu_bytes c1, cu_oldest c1 + (cu_bytes c1 - limit), cu_bytes c1 - (cu_bytes c1 - limit), t2)"
      "tables_ok t2" "chain (cu_oldest c1 + (cu_bytes c1 - limit)) (run_rows rid t2) (cu_head c1)" "frame rid t1 t2"
      "window rid t2 = drop (cu_bytes c1 - limit) (window rid t1)" "st_files t2 = st_files t1"
      using prune_spec [OF t1(2), of limit] by auto
    let ?f = "\<lambda>r. r\<lparr>rr_oldest := cu_oldest c1 + (cu_bytes c1 - limit), rr_head := cu_head c1, rr_bytes := cu_bytes c1 - (cu_bytes c1 - limit),
        rr_truncated := (rp_truncated replay \<or> cu_oldest c1 + (cu_bytes c1 - limit) > 0)\<rparr>"
    have run: "append_replay_with_storage rid replay file n limit s = Inr (limit < cu_bytes c1, cu_next_offset ?c2, write_run rid ?f t2)"
      using live row Inr x t1(1) t2(1) by (simp add: append_replay_with_storage_def read_run_def)
    have "stored_run_ok rid (?f row) t2" using t2(3) c1(1) by (auto simp: stored_run_ok_def cursor_ok_def)
    note fin = store_ok_write_run [where f = ?f, OF ok frame_trans [OF c1(2) frame_trans [OF t1(3) t2(4)]] t2(2) row this]
    have "run_window rid (write_run rid ?f t2) = Some (keep_last limit ?w)"
      using fin(3) t2(5) t1(4) len by (simp add: keep_last_def cursor_window_def)
    moreover have "\<exists>f'. st_files t2 file = Some f' \<and> length f' = cu_next_offset ?c2"
      using t1(2) t2(6) c1(4) by (auto simp: cursor_ok_def)
    moreover have "map fst (st_runs t2) = map fst (st_runs s)" using c1(2) t1(3) t2(4) by (simp add: frame_def)
    ultimately show ?thesis using fin(1,2) w len live' c1(3) by (auto simp: run)
  qed
qed

text \<open>C34 (refinement).  Appending an offer to the durable store refines a window update.  With room in the
  payload file, the append fails exactly when the Run has ended and the offer would advance it, or when the
  abstract update refuses a chunk (a malformed range, a range that was evicted or that contradicts durable
  bytes, a gap the producer does not show to be unrecoverable).  Otherwise the Run's durable window is the
  updated window without its oldest bytes beyond the limit, the store's invariant holds again, and no other
  Run's window changes.\<close>

theorem append_refines_window:
  assumes ok: "store_ok s" and row: "map_of (st_runs s) rid = Some row"
    and payload: "st_files s file = Some f" "length f = n" "validate_replay_file_name file = Inr ()"
    and room: "n + replay_payload replay \<le> I64_MAX"
  shows "case append_replay_with_storage rid replay file n limit s of
      Inl _ \<Rightarrow> \<not> rr_running row \<and> list_ex (\<lambda>ch. end_byte ch > rr_head row) (rp_chunks replay)
        \<or> window_apply_all (rp_truncated replay) (rp_first_available_byte replay) (rp_chunks replay) (rr_oldest row, window rid s) = None
    | Inr (evicted, n', t) \<Rightarrow> store_ok t \<and> (rr_running row \<or> list_all (\<lambda>ch. end_byte ch \<le> rr_head row) (rp_chunks replay))
        \<and> (\<exists>w. window_apply_all (rp_truncated replay) (rp_first_available_byte replay) (rp_chunks replay) (rr_oldest row, window rid s) = Some w
             \<and> run_window rid t = Some (keep_last limit w) \<and> evicted = (limit < length (snd w)))
        \<and> (\<forall>k. k \<noteq> rid \<longrightarrow> run_window k t = run_window k s)"
  using append_spec [OF assms, of limit] by (auto split: sum.splits)

text \<open>Two Runs, one with the window [10, 13) in one extent.\<close>

definition sample_store :: store where
  "sample_store =
     \<lparr>st_runs = [(7, \<lparr>rr_oldest = 10, rr_head = 13, rr_bytes = 3, rr_running = True, rr_truncated = True, rr_source_gap = None,
          rr_creation_key = ''k7'', rr_metadata_bytes = 300\<rparr>),
                 (8, \<lparr>rr_oldest = 0, rr_head = 0, rr_bytes = 0, rr_running = True, rr_truncated = False, rr_source_gap = None,
          rr_creation_key = ''k8'', rr_metadata_bytes = 200\<rparr>)],
      st_chunks = [\<lparr>cr_ordinal = 4, cr_run = 7, cr_start = 10, cr_end = 13, cr_file = ''a.bin'', cr_offset = 1, cr_bytes = 3\<rparr>],
      st_next_ordinal = 5, st_files = [''a.bin'' \<mapsto> [9, 101, 102, 103]]\<rparr>"

lemma sample_store_ok: "store_ok sample_store"
  by (simp add: sample_store_def store_ok_def tables_ok_def stored_run_ok_def row_ok_def run_rows_def validate_replay_file_name_def max_values)

lemma sample_store_window: "window 7 sample_store = [101, 102, 103]"
  by (simp add: sample_store_def window_def run_rows_def row_data_def)

definition sample_offer :: output_replay where
  "sample_offer = \<lparr>rp_chunks = [\<lparr>start_byte = 12, end_byte = 15, chunk_data = [103, 104, 105]\<rparr>], rp_first_available_byte = 12,
     rp_latest_output_bytes = 15, rp_truncated = True\<rparr>"

theorem append_refines_window_witness:
  "\<exists>n t. append_replay_with_storage 7 sample_offer ''a.bin'' 4 4 sample_store = Inr (True, n, t) \<and> store_ok t
     \<and> run_window 7 t = Some (11, [102, 103, 104, 105]) \<and> run_window 8 t = Some (0, [])"
proof -
  have row: "map_of (st_runs sample_store) 7 = Some \<lparr>rr_oldest = 10, rr_head = 13, rr_bytes = 3, rr_running = True, rr_truncated = True, rr_source_gap = None,
          rr_creation_key = ''k7'', rr_metadata_bytes = 300\<rparr>"
    and payload: "st_files sample_store ''a.bin'' = Some [9, 101, 102, 103]" "length [9, 101, 102, 103 :: byte] = 4" "validate_replay_file_name ''a.bin'' = Inr ()"
    by (simp_all add: sample_store_def validate_replay_file_name_def)
  have spec: "window_apply_all (rp_truncated sample_offer) (rp_first_available_byte sample_offer) (rp_chunks sample_offer) (10, [101, 102, 103])
      = Some (10, [101, 102, 103, 104, 105])"
    by (simp add: sample_offer_def window_apply_def chunk_range_ok_def max_values)
  have other: "run_window 8 sample_store = Some (0, [])"
    by (simp add: run_window_def sample_store_def window_def run_rows_def)
  have room: "4 + replay_payload sample_offer \<le> I64_MAX" by (simp add: sample_offer_def replay_payload_def max_values)
  show ?thesis
    using append_refines_window [OF sample_store_ok row payload room, of 4] spec other
    by (auto simp: sample_store_window keep_last_def split: sum.splits)
qed

end
