(* ===== verification/Replay_Quota.thy ===== *)
theory Replay_Quota
  imports Replay_Window
begin

text \<open>
  The daemon-wide replay quota: shedding bytes from the front of extents until the total fits.
\<close>

section \<open>One shedding step\<close>

lemma chain_hd: "chain a (r # rs) b \<Longrightarrow> x \<in> set rs \<Longrightarrow> cr_start r + n \<le> cr_end r \<Longrightarrow> cr_start r + n \<le> cr_start x"
  using chain_bounds [of "cr_end r" rs b x] by simp

lemma shed_row_clip:
  assumes tab: "tables_ok s" and rows1: "run_rows rid s = r # rs" and chain: "chain a (run_rows rid s) b"
    and shed: "0 < shed" "shed \<le> cr_bytes r"
  shows "shed_row (cr_ordinal r) (cr_bytes r) shed s = Inr (clip_to rid (a + shed) s)"
proof -
  have r: "r \<in> set (st_chunks s)" "cr_run r = rid" "cr_start r = a" using rows1 chain run_rows_mem [of r rid s] by auto
  have rb: "cr_end r = a + cr_bytes r" using tab r by (auto simp: tables_ok_def row_ok_def)
  have only: "x = r" if "x \<in> set (st_chunks s)" "cr_ordinal x = cr_ordinal r" for x
    using tab r(1) that by (auto simp: tables_ok_def distinct_map dest: inj_onD)
  have later: "a + shed \<le> cr_start x" if "x \<in> set (st_chunks s)" "cr_run x = rid" "x \<noteq> r" for x
  proof -
    have "x \<in> set rs" using that rows1 run_rows_mem [of x rid s] by auto
    then show ?thesis using chain_hd [of a r rs b x shed] chain rows1 rb shed r by simp
  qed
  have clip_other: "clip_row rid (a + shed) x = x" if "x \<in> set (st_chunks s)" "x \<noteq> r" for x
    using later [OF that(1) _ that(2)] by (auto simp: clip_row_def)
  show ?thesis
  proof (cases "shed = cr_bytes r")
    case True
    have all_id: "clip_row rid (a + shed) x = x" if "x \<in> set (st_chunks s)" for x
      using clip_other [OF that] rb True by (cases "x = r") (auto simp: clip_row_def)
    have "map (clip_row rid (a + shed)) (st_chunks s) = st_chunks s" by (rule map_idI) (rule all_id)
    moreover have "filter (\<lambda>x. \<not> (cr_run x = rid \<and> cr_end x \<le> a + shed)) (st_chunks s) = filter (\<lambda>x. cr_ordinal x \<noteq> cr_ordinal r) (st_chunks s)"
    proof (rule filter_cong [OF refl])
      fix x assume x: "x \<in> set (st_chunks s)"
      have "cr_start x < cr_end x" using tab x by (auto simp: tables_ok_def row_ok_def)
      then show "(\<not> (cr_run x = rid \<and> cr_end x \<le> a + shed)) = (cr_ordinal x \<noteq> cr_ordinal r)"
        using only [OF x] later [OF x] r rb True by (cases "x = r") auto
    qed
    ultimately show ?thesis using True by (simp add: shed_row_def clip_to_def)
  next
    case False
    have upd: "(if cr_ordinal x = cr_ordinal r then x\<lparr>cr_start := cr_start x + shed, cr_offset := cr_offset x + shed, cr_bytes := cr_bytes x - shed\<rparr> else x)
        = clip_row rid (a + shed) x" if "x \<in> set (st_chunks s)" for x
      using clip_other [OF that] only [OF that] r rb shed False by (cases "x = r") (auto simp: clip_row_def)
    have upd_map: "map (\<lambda>x. if cr_ordinal x = cr_ordinal r then x\<lparr>cr_start := cr_start x + shed, cr_offset := cr_offset x + shed, cr_bytes := cr_bytes x - shed\<rparr> else x) (st_chunks s)
        = map (clip_row rid (a + shed)) (st_chunks s)" by (rule map_cong [OF refl]) (rule upd)
    have keep: "filter (\<lambda>x. \<not> (cr_run x = rid \<and> cr_end x \<le> a + shed)) (map (clip_row rid (a + shed)) (st_chunks s)) = map (clip_row rid (a + shed)) (st_chunks s)"
    proof -
      have "\<not> (cr_run x = rid \<and> cr_end x \<le> a + shed)" if x: "x \<in> set (st_chunks s)" for x
      proof -
        have "cr_start x < cr_end x" using tab x by (auto simp: tables_ok_def row_ok_def)
        then show ?thesis using later [OF x] rb shed False by (cases "x = r") auto
      qed
      then show ?thesis by (auto simp: filter_id_conv)
    qed
    have "a + shed \<le> b" using chain_le [of "cr_end r" rs b] chain rows1 rb shed by auto
    then show ?thesis using False clip_to_spec(5) [OF tab chain, of "a + shed"]
      unfolding shed_row_def write_chunks_def clip_to_def upd_map keep by simp
  qed
qed

lemma chain_min: "chain a (r # rs) b \<Longrightarrow> Min (set (map cr_start (r # rs))) = a"
  using chain_bounds [of a "r # rs" b] by (intro Min_eqI) auto

lemma sum_update_key:
  assumes "distinct (map fst xs)" "map_of xs rid = Some row"
  shows "sum_list (map (\<lambda>(k, r). rr_bytes r) (map (\<lambda>(k, r). (k, if k = rid then f r else r)) xs)) + rr_bytes row
    = sum_list (map (\<lambda>(k, r). rr_bytes r) xs) + rr_bytes (f row)"
  using assms
proof (induction xs)
  case (Cons x xs)
  obtain k r where x: "x = (k, r)" by (cases x)
  show ?case
  proof (cases "k = rid")
    case True
    have "map (\<lambda>(k, r). (k, if k = rid then f r else r)) xs = xs"
      using Cons.prems(1) x True by (intro map_idI) (auto simp: image_iff)
    then show ?thesis using Cons.prems x True by (simp del: map_map)
  next
    case False
    then show ?thesis using Cons x by (simp del: map_map)
  qed
qed simp

lemma total_write_run:
  assumes "distinct (map fst (st_runs s))" "map_of (st_runs s) rid = Some row"
  shows "total_replay_bytes (write_run rid f s) + rr_bytes row = total_replay_bytes s + rr_bytes (f row)"
  using sum_update_key [OF assms] by (simp add: total_replay_bytes_def write_run_def del: map_map)

text \<open>Shedding from the front of a Run's first extent keeps the invariant, drops exactly those bytes from
  its window and from the total, and touches no other Run.\<close>

definition shed_first :: "chunk_row \<Rightarrow> nat \<Rightarrow> store \<Rightarrow> persistence_error + store" where
  "shed_first r shed s = and_then (shed_row (cr_ordinal r) (cr_bytes r) shed s) (shed_run_bytes (cr_run r) shed)"

lemma shed_first_spec:
  assumes ok: "store_ok s" and rows1: "run_rows rid s = r # rs" and shed: "0 < shed" "shed \<le> cr_bytes r"
  shows "\<exists>t row. shed_first r shed s = Inr t \<and> store_ok t \<and> map_of (st_runs s) rid = Some row
     \<and> total_replay_bytes t + shed = total_replay_bytes s
     \<and> run_window rid t = Some (rr_oldest row + shed, drop shed (window rid s)) \<and> (\<forall>k. k \<noteq> rid \<longrightarrow> run_window k t = run_window k s)
     \<and> run_rows rid t = filter (\<lambda>x. rr_oldest row + shed < cr_end x) (map (clip_row rid (rr_oldest row + shed)) (r # rs))
     \<and> (\<forall>k. k \<noteq> rid \<longrightarrow> run_rows k t = run_rows k s)
     \<and> (\<forall>k. map_option rr_head (map_of (st_runs t) k) = map_option rr_head (map_of (st_runs s) k))"
proof -
  have tab: "tables_ok s" using ok by (simp add: store_ok_def)
  have r: "r \<in> set (st_chunks s)" "cr_run r = rid" using rows1 run_rows_mem [of r rid s] by auto
  then have "rid \<in> fst ` set (st_runs s)" using tab by (auto simp: tables_ok_def)
  then have "map_of (st_runs s) rid \<noteq> None" by (simp add: map_of_eq_None_iff)
  then obtain row where row: "map_of (st_runs s) rid = Some row" by blast
  have run: "stored_run_ok rid row s" using ok map_of_SomeD [OF row] by (auto simp: store_ok_def)
  let ?a = "rr_oldest row" and ?h = "rr_head row"
  have chain: "chain ?a (run_rows rid s) ?h" using run by (simp add: stored_run_ok_def)
  have rb: "cr_end r = ?a + cr_bytes r" "cr_start r = ?a" using tab r chain rows1 by (auto simp: tables_ok_def row_ok_def)
  have front: "?a \<le> ?a + shed" "?a + shed \<le> ?h" using chain_le [of "cr_end r" rs ?h] chain rows1 rb shed by auto
  let ?t1 = "clip_to rid (?a + shed) s"
  let ?f = "\<lambda>r. r\<lparr>rr_bytes := rr_bytes r - shed, rr_truncated := True,
          rr_oldest := (if run_rows rid ?t1 = [] then rr_head r else Min (set (map cr_start (run_rows rid ?t1))))\<rparr>"
  note clip = clip_to_spec [OF tab chain front]
  have runs: "st_runs ?t1 = st_runs s" using clip(3) by (simp add: frame_def)
  have low: "rr_oldest (?f row) = ?a + shed"
  proof (cases "run_rows rid ?t1")
    case Nil
    then show ?thesis using clip(2) by simp
  next
    case (Cons x xs)
    then show ?thesis using chain_min [OF clip(2) [unfolded Cons]] by simp
  qed
  have bytes: "rr_bytes row = ?h - ?a" "?h \<le> I64_MAX" using run by (auto simp: stored_run_ok_def)
  have "stored_run_ok rid (?f row) ?t1" using clip(2) low bytes by (auto simp: stored_run_ok_def simp del: run_row.select_convs(1))
  note fin = store_ok_write_run [where f = ?f, OF ok clip(3,1) row this]
  have step: "shed_first r shed s = Inr (write_run rid ?f ?t1)"
    using shed_row_clip [OF tab rows1 chain shed] row runs bytes front
    by (simp add: shed_first_def shed_run_bytes_def r(2))
  have "total_replay_bytes (write_run rid ?f ?t1) + rr_bytes row = total_replay_bytes ?t1 + (rr_bytes row - shed)"
    using total_write_run [of ?t1 rid row ?f] runs tab row by (simp add: tables_ok_def)
  then have "total_replay_bytes (write_run rid ?f ?t1) + shed = total_replay_bytes s"
    using bytes front runs by (simp add: total_replay_bytes_def)
  moreover have "map_option rr_head (map_of (st_runs (write_run rid ?f ?t1)) k) = map_option rr_head (map_of (st_runs s) k)" for k
    by (simp add: write_run_lookup runs option.map_comp comp_def)
  moreover have "run_rows rid (write_run rid ?f ?t1) = filter (\<lambda>x. ?a + shed < cr_end x) (map (clip_row rid (?a + shed)) (r # rs))"
    by (simp only: write_run_frame clip_to_own rows1)
  moreover have "run_rows k (write_run rid ?f ?t1) = run_rows k s" if "k \<noteq> rid" for k using clip_to_other [OF that] by simp
  moreover have "run_window rid (write_run rid ?f ?t1) = Some (?a + shed, drop shed (window rid s))"
    using fin(3) low clip(4) by simp
  ultimately show ?thesis using step fin(1,2) row by blast
qed

section \<open>Choosing the extent\<close>

lemma find_split: "List.find P xs = Some r \<Longrightarrow> \<exists>ys zs. xs = ys @ r # zs \<and> (\<forall>y\<in>set ys. \<not> P y) \<and> P r"
proof (induction xs)
  case (Cons x xs)
  show ?case
  proof (cases "P x")
    case True
    then show ?thesis using Cons.prems by fastforce
  next
    case False
    then obtain ys zs where "xs = ys @ r # zs" "\<forall>y\<in>set ys. \<not> P y" "P r" using Cons by auto
    then show ?thesis using False by (intro exI [of _ "x # ys"] exI [of _ zs]) auto
  qed
qed simp

lemma store_run:
  assumes "store_ok s" "r \<in> set (st_chunks s)"
  obtains row where "map_of (st_runs s) (cr_run r) = Some row" "stored_run_ok (cr_run r) row s"
proof -
  have "map_of (st_runs s) (cr_run r) \<noteq> None" using assms by (auto simp: store_ok_def tables_ok_def map_of_eq_None_iff)
  then obtain row where "map_of (st_runs s) (cr_run r) = Some row" by blast
  then show ?thesis using that assms(1) map_of_SomeD by (fastforce simp: store_ok_def)
qed

lemma candidate_first:
  assumes ok: "store_ok s" and c: "global_replay_candidate s = Some r"
  shows "\<exists>rs. run_rows (cr_run r) s = r # rs"
proof -
  obtain ys zs where split: "st_chunks s = ys @ r # zs"
    and none: "\<forall>y\<in>set ys. \<not> list_ex (\<lambda>x. cr_run x = cr_run y \<and> cr_start x > cr_start y) (st_chunks s)"
    using find_split [OF c [unfolded global_replay_candidate_def]] by blast
  obtain row where "stored_run_ok (cr_run r) row s" using store_run [OF ok, of r] split by auto
  then have chain: "chain (rr_oldest row) (filter (\<lambda>x. cr_run x = cr_run r) ys @ r # filter (\<lambda>x. cr_run x = cr_run r) zs) (rr_head row)"
    by (simp add: stored_run_ok_def run_rows_def split)
  have "filter (\<lambda>x. cr_run x = cr_run r) ys = []"
  proof (rule ccontr)
    assume "filter (\<lambda>x. cr_run x = cr_run r) ys \<noteq> []"
    then obtain y where y: "y \<in> set ys" "cr_run y = cr_run r" by (auto simp: filter_empty_conv)
    obtain m where "chain (rr_oldest row) (filter (\<lambda>x. cr_run x = cr_run r) ys) m" "cr_start r = m" using chain by auto
    then have "cr_start y < cr_start r" using chain_bounds y by fastforce
    then show False using none y split by auto
  qed
  then show ?thesis by (simp add: run_rows_def split)
qed

definition single_rows :: "store \<Rightarrow> bool" where
  "single_rows s \<longleftrightarrow> (\<forall>k. length (run_rows k s) \<le> 1)"

lemma no_candidate:
  assumes ok: "store_ok s" and c: "global_replay_candidate s = None"
  shows "single_rows s"
  unfolding single_rows_def
proof (rule allI, rule ccontr)
  fix k
  assume "\<not> length (run_rows k s) \<le> 1"
  then obtain x y zs where rows2: "run_rows k s = x # y # zs" by (metis One_nat_def Suc_le_length_iff not_less_eq_eq)
  have mem: "x \<in> set (st_chunks s)" "y \<in> set (st_chunks s)" "cr_run x = k" "cr_run y = k"
    using run_rows_mem [of _ k s] by (auto simp: rows2)
  obtain row where "stored_run_ok k row s" using store_run [OF ok mem(1)] mem(3) by auto
  then have "cr_start x < cr_start y" by (simp add: stored_run_ok_def rows2)
  then show False using c mem by (auto simp: global_replay_candidate_def find_None_iff list_ex_iff)
qed

lemma sort_key_hd: "sort_key f xs = r # ys \<Longrightarrow> r \<in> set xs \<and> (\<forall>x\<in>set xs. f r \<le> f x)"
proof -
  assume s: "sort_key f xs = r # ys"
  have "set xs = set (r # ys)" using s by (metis set_sort)
  moreover have "sorted (map f (r # ys))" using s by (metis sorted_sort_key)
  ultimately show ?thesis by auto
qed

lemma total_le_runs:
  "(\<And>k r. (k, r) \<in> set xs \<Longrightarrow> rr_bytes r \<le> m) \<Longrightarrow> sum_list (map (\<lambda>(k, r). rr_bytes r) xs) \<le> length (filter (\<lambda>(k, r). rr_bytes r > 0) xs) * m"
proof (induction xs)
  case (Cons x xs)
  obtain k r where x: "x = (k, r)" by (cases x)
  have "rr_bytes r \<le> m" "sum_list (map (\<lambda>(k, r). rr_bytes r) xs) \<le> length (filter (\<lambda>(k, r). rr_bytes r > 0) xs) * m"
    using Cons x by auto
  then show ?case by (simp add: x)
qed simp

text \<open>When every Run holds at most one extent and the total exceeds the limit, the chosen extent is larger
  than the equal share.\<close>

lemma largest_above_share:
  assumes ok: "store_ok s" and single: "single_rows s" and over: "limit < total_replay_bytes s"
  shows "\<exists>r. largest_row s = Some r \<and> run_rows (cr_run r) s = [r] \<and> 0 < replay_runs s \<and> limit div replay_runs s < cr_bytes r"
proof -
  let ?key = "\<lambda>r. - int (case map_of (st_runs s) (cr_run r) of None \<Rightarrow> 0 | Some row \<Rightarrow> rr_bytes row)"
  let ?xs = "filter (\<lambda>r. map_of (st_runs s) (cr_run r) \<noteq> None) (st_chunks s)"
  have own: "\<exists>x. x \<in> set (st_chunks s) \<and> cr_run x = k \<and> run_rows k s = [x] \<and> cr_bytes x = rr_bytes row \<and> map_of (st_runs s) k = Some row"
    if k: "(k, row) \<in> set (st_runs s)" "0 < rr_bytes row" for k row
  proof -
    have run: "stored_run_ok k row s" using ok k(1) by (auto simp: store_ok_def)
    have "run_rows k s \<noteq> []" using run k(2) by (auto simp: stored_run_ok_def)
    then obtain x where x: "run_rows k s = [x]" using single by (cases "run_rows k s") (auto simp: single_rows_def dest!: spec [of _ k])
    have mem: "x \<in> set (st_chunks s)" "cr_run x = k" using run_rows_mem [of x k s] by (auto simp: x)
    then have "cr_bytes x = rr_bytes row" using ok run by (auto simp: store_ok_def tables_ok_def row_ok_def stored_run_ok_def x)
    moreover have "map_of (st_runs s) k = Some row" using ok k(1) by (intro map_of_is_SomeI) (auto simp: store_ok_def tables_ok_def)
    ultimately show ?thesis using x mem by blast
  qed
  have pos: "\<exists>(k, row)\<in>set (st_runs s). 0 < rr_bytes row"
  proof (rule ccontr)
    assume "\<not> ?thesis"
    then have "total_replay_bytes s = 0" by (auto simp: total_replay_bytes_def)
    then show False using over by simp
  qed
  then obtain k0 row0 where "(k0, row0) \<in> set (st_runs s)" "0 < rr_bytes row0" by auto
  then obtain x0 where "x0 \<in> set ?xs" using own by fastforce
  then obtain r ys where sorted: "sort_key ?key ?xs = r # ys" by (metis list.exhaust set_sort empty_iff list.set(1))
  note hd = sort_key_hd [OF sorted]
  obtain row where row: "map_of (st_runs s) (cr_run r) = Some row" using hd by auto
  have run: "stored_run_ok (cr_run r) row s" using ok map_of_SomeD [OF row] by (auto simp: store_ok_def)
  have "r \<in> set (run_rows (cr_run r) s)" using hd by simp
  then have one: "run_rows (cr_run r) s = [r]" using single by (cases "run_rows (cr_run r) s") (auto simp: single_rows_def dest!: spec [of _ "cr_run r"])
  have bytes: "cr_bytes r = rr_bytes row" using ok run hd by (auto simp: store_ok_def tables_ok_def row_ok_def stored_run_ok_def one)
  have "rr_bytes row' \<le> cr_bytes r" if k: "(k, row') \<in> set (st_runs s)" for k row'
  proof (cases "rr_bytes row' = 0")
    case False
    then obtain x where "x \<in> set (st_chunks s)" "cr_run x = k" "map_of (st_runs s) k = Some row'" using own [OF k] by auto
    then have "?key r \<le> ?key x" using hd by auto
    then show ?thesis using row bytes \<open>cr_run x = k\<close> \<open>map_of (st_runs s) k = Some row'\<close> by simp
  qed simp
  then have le: "total_replay_bytes s \<le> replay_runs s * cr_bytes r"
    unfolding total_replay_bytes_def replay_runs_def by (rule total_le_runs)
  have runs: "0 < replay_runs s" using le over by (cases "replay_runs s") auto
  have "limit div replay_runs s < cr_bytes r"
  proof (rule ccontr)
    assume "\<not> limit div replay_runs s < cr_bytes r"
    then have "replay_runs s * cr_bytes r \<le> replay_runs s * (limit div replay_runs s)" by simp
    also have "\<dots> \<le> limit" by simp
    finally show False using le over by simp
  qed
  then show ?thesis using one runs sorted by (auto simp: largest_row_def)
qed

section \<open>Meeting the quota\<close>

text \<open>What pruning may do to the windows: cut bytes off their fronts.\<close>

definition windows_cut :: "store \<Rightarrow> store \<Rightarrow> bool" where
  "windows_cut s t \<longleftrightarrow> (\<forall>k. (\<exists>n. run_window k t = map_option (\<lambda>(oldest, w). (oldest + n, drop n w)) (run_window k s))
     \<and> map_option rr_head (map_of (st_runs t) k) = map_option rr_head (map_of (st_runs s) k))"

lemma windows_cut_refl: "windows_cut s s"
  unfolding windows_cut_def by (auto intro!: exI [of _ 0] simp: option.map_ident_strong)

lemma windows_cut_trans:
  assumes "windows_cut s t" "windows_cut t u"
  shows "windows_cut s u"
  unfolding windows_cut_def
proof (rule allI, rule conjI)
  fix k
  obtain n m where n: "run_window k t = map_option (\<lambda>(oldest, w). (oldest + n, drop n w)) (run_window k s)"
    and m: "run_window k u = map_option (\<lambda>(oldest, w). (oldest + m, drop m w)) (run_window k t)"
    using assms unfolding windows_cut_def by metis
  have "run_window k u = map_option (\<lambda>(oldest, w). (oldest + (n + m), drop (n + m) w)) (run_window k s)"
    by (cases "run_window k s") (auto simp: n m add.commute)
  then show "\<exists>n. run_window k u = map_option (\<lambda>(oldest, w). (oldest + n, drop n w)) (run_window k s)" by blast
  show "map_option rr_head (map_of (st_runs u) k) = map_option rr_head (map_of (st_runs s) k)"
    using assms by (simp add: windows_cut_def)
qed

lemma shed_shortens:
  assumes ok: "store_ok s" and rows1: "run_rows (cr_run r) s = r # rs" and shed: "0 < shed" "shed \<le> cr_bytes r"
  obtains t where "shed_first r shed s = Inr t" "store_ok t" "windows_cut s t" "total_replay_bytes t + shed = total_replay_bytes s"
    "single_rows s \<Longrightarrow> single_rows t"
proof -
  obtain t row where t: "shed_first r shed s = Inr t" "store_ok t" "map_of (st_runs s) (cr_run r) = Some row"
     "total_replay_bytes t + shed = total_replay_bytes s"
     "run_window (cr_run r) t = Some (rr_oldest row + shed, drop shed (window (cr_run r) s))"
     "\<forall>k. k \<noteq> cr_run r \<longrightarrow> run_window k t = run_window k s"
     "run_rows (cr_run r) t = filter (\<lambda>x. rr_oldest row + shed < cr_end x) (map (clip_row (cr_run r) (rr_oldest row + shed)) (r # rs))"
     "\<forall>k. k \<noteq> cr_run r \<longrightarrow> run_rows k t = run_rows k s"
     "\<forall>k. map_option rr_head (map_of (st_runs t) k) = map_option rr_head (map_of (st_runs s) k)"
    using shed_first_spec [OF assms] by metis
  have "\<exists>n. run_window k t = map_option (\<lambda>(oldest, w). (oldest + n, drop n w)) (run_window k s)" for k
  proof (cases "k = cr_run r")
    case True
    then show ?thesis using t(3,5) by (auto simp: run_window_def)
  next
    case False
    then show ?thesis using t(6) by (intro exI [of _ 0]) (simp add: option.map_ident_strong split_def)
  qed
  then have "windows_cut s t" using t(9) by (simp add: windows_cut_def)
  moreover have "single_rows t" if "single_rows s"
    unfolding single_rows_def
  proof
    fix k
    have "length (run_rows (cr_run r) s) \<le> 1" using that by (simp add: single_rows_def)
    then have "rs = []" by (simp add: rows1)
    then show "length (run_rows k t) \<le> 1" using t(7,8) that by (cases "k = cr_run r") (auto simp: single_rows_def)
  qed
  ultimately show ?thesis using that t(1,2,4) by blast
qed

lemma trim_meets_quota:
  assumes "store_ok s" "single_rows s" "limit \<le> I64_MAX"
  shows "\<exists>b t. trim_oldest_row limit n s = Inr (b, t) \<and> store_ok t \<and> windows_cut s t
     \<and> (total_replay_bytes s \<le> limit + n \<longrightarrow> b) \<and> min limit (total_replay_bytes s) \<le> total_replay_bytes t
     \<and> (b \<longleftrightarrow> total_replay_bytes t \<le> limit) \<and> total_replay_bytes t \<le> total_replay_bytes s"
  using assms(1,2)
proof (induction n arbitrary: s)
  case 0
  show ?case
  proof (cases "total_replay_bytes s \<le> limit")
    case False
    then have "replay_runs s \<noteq> 0" using largest_above_share [OF 0, of limit] by auto
    then have "trim_oldest_row limit 0 s = Inr (False, s)" using False by (subst trim_oldest_row.simps) simp
    then show ?thesis using 0 False by (intro exI [of _ False] exI [of _ s]) (simp add: windows_cut_refl)
  next
    case True
    then have "trim_oldest_row limit 0 s = Inr (True, s)" by (subst trim_oldest_row.simps) (simp add: Let_def)
    then show ?thesis using 0 True by (intro exI [of _ True] exI [of _ s]) (simp add: windows_cut_refl)
  qed
next
  case (Suc n)
  show ?case
  proof (cases "total_replay_bytes s \<le> limit")
    case False
    obtain r where r: "largest_row s = Some r" "run_rows (cr_run r) s = [r]" "0 < replay_runs s" "limit div replay_runs s < cr_bytes r"
      using largest_above_share [OF Suc.prems, of limit] False by auto
    define shed where "shed = min (cr_bytes r - limit div replay_runs s) (total_replay_bytes s - limit)"
    have shed: "0 < shed" "shed \<le> cr_bytes r" "shed \<le> total_replay_bytes s - limit" using r(4) False by (auto simp: shed_def)
    obtain t where t: "shed_first r shed s = Inr t" "store_ok t" "windows_cut s t" "total_replay_bytes t + shed = total_replay_bytes s" "single_rows t"
      using shed_shortens [OF Suc.prems(1) r(2) shed(1,2)] Suc.prems(2) by blast
    have share: "min (limit div replay_runs s) I64_MAX = limit div replay_runs s" "min limit I64_MAX = limit"
      using assms(3) div_le_dividend [of limit "replay_runs s"] by linarith+
    have run: "trim_oldest_row limit (Suc n) s = trim_oldest_row limit n t"
      using False r(1,3) t(1) shed(1) share
      by (subst trim_oldest_row.simps) (auto simp: Let_def shed_def [symmetric] shed_first_def and_then_def split: sum.splits)
    obtain b u where u: "trim_oldest_row limit n t = Inr (b, u)" "store_ok u" "windows_cut t u" "total_replay_bytes t \<le> limit + n \<longrightarrow> b"
       "min limit (total_replay_bytes t) \<le> total_replay_bytes u" "b \<longleftrightarrow> total_replay_bytes u \<le> limit" "total_replay_bytes u \<le> total_replay_bytes t"
      using Suc.IH [OF t(2,5)] by blast
    have "total_replay_bytes s \<le> limit + Suc n \<longrightarrow> total_replay_bytes t \<le> limit + n" "limit \<le> total_replay_bytes t"
      "total_replay_bytes t \<le> total_replay_bytes s" using t(4) shed False by auto
    then show ?thesis using u windows_cut_trans [OF t(3) u(3)] by (auto simp: run)
  next
    case True
    then have "trim_oldest_row limit (Suc n) s = Inr (True, s)" by (subst trim_oldest_row.simps) (simp add: Let_def)
    then show ?thesis using Suc.prems True by (intro exI [of _ True] exI [of _ s]) (simp add: windows_cut_refl)
  qed
qed

lemma prune_global_spec:
  assumes "store_ok s" "limit \<le> I64_MAX"
  shows "\<exists>b t. prune_global_replay limit n s = Inr (b, t) \<and> store_ok t \<and> windows_cut s t
     \<and> (total_replay_bytes s < limit + n \<longrightarrow> b)
     \<and> (if b then total_replay_bytes t = min limit (total_replay_bytes s) else limit < total_replay_bytes t \<and> total_replay_bytes t \<le> total_replay_bytes s)"
  using assms(1)
proof (induction n arbitrary: s)
  case 0
  have "prune_global_replay limit 0 s = Inr (total_replay_bytes s \<le> limit, s)" by (subst prune_global_replay.simps) (simp add: Let_def)
  then show ?case using 0 by (intro exI [of _ "total_replay_bytes s \<le> limit"] exI [of _ s]) (simp add: windows_cut_refl)
next
  case (Suc n)
  show ?case
  proof (cases "total_replay_bytes s \<le> limit")
    case True
    then have "prune_global_replay limit (Suc n) s = Inr (True, s)" by (subst prune_global_replay.simps) (simp add: Let_def)
    then show ?thesis using Suc.prems True by (intro exI [of _ True] exI [of _ s]) (simp add: windows_cut_refl)
  next
    case over: False
    show ?thesis
    proof (cases "global_replay_candidate s")
      case None
      have "prune_global_replay limit (Suc n) s = trim_oldest_row limit n s"
        using over None by (subst prune_global_replay.simps) simp
      then show ?thesis using trim_meets_quota [OF Suc.prems no_candidate [OF Suc.prems None] assms(2), of n] over by fastforce
    next
      case (Some r)
      obtain rs where r: "run_rows (cr_run r) s = r # rs" using candidate_first [OF Suc.prems Some] by blast
      then have "r \<in> set (st_chunks s)" using run_rows_mem [of r "cr_run r" s] by simp
      then have pos: "0 < cr_bytes r" using Suc.prems by (auto simp: store_ok_def tables_ok_def row_ok_def)
      define shed where "shed = min (cr_bytes r) (total_replay_bytes s - limit)"
      have shed: "0 < shed" "shed \<le> cr_bytes r" "shed \<le> total_replay_bytes s - limit" using pos over by (auto simp: shed_def)
      obtain t where t: "shed_first r shed s = Inr t" "store_ok t" "windows_cut s t" "total_replay_bytes t + shed = total_replay_bytes s"
        using shed_shortens [OF Suc.prems r shed(1,2)] by blast
      have run: "prune_global_replay limit (Suc n) s = prune_global_replay limit n t"
        using over Some t(1) min_absorb1 [OF assms(2)]
        by (subst prune_global_replay.simps) (auto simp: Let_def shed_def [symmetric] shed_first_def and_then_def split: sum.splits)
      obtain b u where u: "prune_global_replay limit n t = Inr (b, u)" "store_ok u" "windows_cut t u" "total_replay_bytes t < limit + n \<longrightarrow> b"
        "if b then total_replay_bytes u = min limit (total_replay_bytes t) else limit < total_replay_bytes u \<and> total_replay_bytes u \<le> total_replay_bytes t"
        using Suc.IH [OF t(2)] by blast
      have "total_replay_bytes s < limit + Suc n \<longrightarrow> total_replay_bytes t < limit + n" "limit \<le> total_replay_bytes t"
        "total_replay_bytes t \<le> total_replay_bytes s" using t(4) shed over by auto
      then show ?thesis using u over windows_cut_trans [OF t(3) u(3)] by (auto simp: run)
    qed
  qed
qed

text \<open>C35 (liveness).  The daemon-wide replay quota is met.  Pruning a store that satisfies its invariant never
  fails; it only cuts bytes off the front of Runs' windows, keeps the invariant and every Run's head, and never
  frees more than the excess.  With row funding for at least one more step than there are bytes over the limit
  it reports success, and success means that the total fits: it is exactly the smaller of the limit and the
  total before.\<close>

theorem prune_global_meets_quota:
  assumes "store_ok s" "limit \<le> I64_MAX"
  shows "\<exists>b t. prune_global_replay limit n s = Inr (b, t) \<and> store_ok t \<and> windows_cut s t
     \<and> (total_replay_bytes s < limit + n \<longrightarrow> b)
     \<and> (if b then total_replay_bytes t = min limit (total_replay_bytes s) else limit < total_replay_bytes t \<and> total_replay_bytes t \<le> total_replay_bytes s)"
  by (rule prune_global_spec [OF assms])

theorem prune_global_meets_quota_witness:
  "\<exists>t. prune_global_replay 2 2 sample_store = Inr (True, t) \<and> store_ok t \<and> windows_cut sample_store t \<and> total_replay_bytes t = 2"
proof -
  have "total_replay_bytes sample_store = 3" by (simp add: sample_store_def total_replay_bytes_def)
  then show ?thesis using prune_global_meets_quota [OF sample_store_ok, of 2 2] by (fastforce simp: max_values)
qed

text \<open>The trimming pass may empty a Run: with fewer bytes of quota than Runs the equal share is zero.\<close>

lemma trim_may_empty_a_run:
  "\<exists>t. trim_oldest_row 0 (Suc (Suc 0)) sample_store = Inr (True, t) \<and> run_window 7 t = Some (13, [])"
proof -
  have big: "largest_row sample_store = Some \<lparr>cr_ordinal = 4, cr_run = 7, cr_start = 10, cr_end = 13, cr_file = ''a.bin'', cr_offset = 1, cr_bytes = 3\<rparr>"
    by (simp add: largest_row_def sample_store_def)
  have "trim_oldest_row 0 (Suc (Suc 0)) sample_store = trim_oldest_row 0 (Suc 0)
      (write_run 7 (\<lambda>r. r\<lparr>rr_bytes := rr_bytes r - 3, rr_truncated := True, rr_oldest := rr_head r\<rparr>) (sample_store\<lparr>st_chunks := []\<rparr>))"
    by (subst trim_oldest_row.simps, simp add: big Let_def)
      (simp add: sample_store_def total_replay_bytes_def replay_runs_def shed_row_def shed_run_bytes_def run_rows_def max_values)
  also have "\<dots> = Inr (True, write_run 7 (\<lambda>r. r\<lparr>rr_bytes := rr_bytes r - 3, rr_truncated := True, rr_oldest := rr_head r\<rparr>) (sample_store\<lparr>st_chunks := []\<rparr>))"
    by (subst trim_oldest_row.simps) (simp add: sample_store_def write_run_def total_replay_bytes_def)
  finally show ?thesis by (simp add: run_window_def sample_store_def write_run_def window_def run_rows_def)
qed

end
