(* ===== verification/Replay_Pages.thy ===== *)
theory Replay_Pages
  imports Replay_Window
begin

text \<open>
  Reading the durable store: a page is exactly a slice of the Run's window, and the walk that every open
  repeats accepts the store that the operations leave.
\<close>

section \<open>Pages\<close>

text \<open>Contiguous chunks from \<open>a\<close> to \<open>b\<close>, none empty and none above a page.\<close>

fun chunk_chain :: "u64 \<Rightarrow> output_chunk list \<Rightarrow> u64 \<Rightarrow> bool" where
  "chunk_chain a [] b \<longleftrightarrow> a = b"
| "chunk_chain a (ch # chs) b \<longleftrightarrow> start_byte ch = a \<and> end_byte ch = a + length (chunk_data ch) \<and> chunk_data ch \<noteq> []
     \<and> length (chunk_data ch) \<le> REPLAY_PAGE_BYTES \<and> chunk_chain (end_byte ch) chs b"

definition chunks_data :: "output_chunk list \<Rightarrow> byte list" where
  "chunks_data chs = concat (map chunk_data chs)"

lemma chunk_chain_append: "chunk_chain a (xs @ ys) b \<longleftrightarrow> (\<exists>m. chunk_chain a xs m \<and> chunk_chain m ys b)"
  by (induction xs arbitrary: a) auto

lemma push_piece_chain:
  assumes "chunk_chain a chs cursor" "length data = through - cursor" "cursor < through" "through - cursor \<le> REPLAY_PAGE_BYTES"
  shows "chunk_chain a (push_piece cursor through data chs) through \<and> chunks_data (push_piece cursor through data chs) = chunks_data chs @ data"
proof (cases "chs \<noteq> [] \<and> end_byte (last chs) = cursor \<and> length (chunk_data (last chs)) + length data \<le> REPLAY_PAGE_BYTES")
  case True
  then obtain xs x where x: "chs = xs @ [x]" by (metis rev_exhaust)
  show ?thesis using assms True by (auto simp: push_piece_def x chunk_chain_append chunks_data_def)
next
  case False
  then have p: "push_piece cursor through data chs = chs @ [\<lparr>start_byte = cursor, end_byte = through, chunk_data = data\<rparr>]"
    unfolding push_piece_def by (rule if_not_P)
  show ?thesis using assms by (auto simp: p chunk_chain_append chunks_data_def)
qed

lemma read_pieces_spec:
  assumes r: "row_ok s r" "st_files s (cr_file r) = Some f" and "cr_start r \<le> cursor" "cursor \<le> stop" "stop \<le> cr_end r" "chunk_chain a chs cursor"
  shows "\<exists>cs. read_pieces f r cursor stop chs = Inr cs \<and> chunk_chain a cs stop
     \<and> chunks_data cs = chunks_data chs @ take (stop - cursor) (drop (cursor - cr_start r) (row_data s r))"
  using assms(3-)
proof (induction "stop - cursor" arbitrary: cursor chs rule: less_induct)
  case less
  show ?case
  proof (cases "cursor < stop")
    case False
    then show ?thesis using less.prems by (subst read_pieces.simps) simp
  next
    case True
    define through where "through = min stop (cursor + REPLAY_PAGE_BYTES)"
    define data where "data = take (through - cursor) (drop (cr_offset r + cursor - cr_start r) f)"
    have page: "0 < REPLAY_PAGE_BYTES" by (simp add: REPLAY_PAGE_BYTES_def)
    have th: "cursor < through" "through \<le> stop" "through - cursor \<le> REPLAY_PAGE_BYTES" using True page by (auto simp: through_def)
    have ext: "cr_offset r + cr_bytes r \<le> length f" "cr_bytes r = cr_end r - cr_start r" using r by (auto simp: row_ok_def)
    have room: "through - cursor \<le> length f - (cr_offset r + cursor - cr_start r)" using ext th less.prems by auto
    then have len: "length data = through - cursor" by (simp add: data_def)
    have slice: "data = take (through - cursor) (drop (cursor - cr_start r) (row_data s r))"
    proof -
      have "through - cursor \<le> cr_bytes r - (cursor - cr_start r)" "cr_offset r + cursor - cr_start r = cursor - cr_start r + cr_offset r"
        using ext th less.prems by auto
      then show ?thesis using r by (simp add: data_def row_data_def drop_take min_absorb1)
    qed
    have step: "read_pieces f r cursor stop chs = read_pieces f r through stop (push_piece cursor through data chs)"
      using True room by (subst read_pieces.simps) (simp add: Let_def through_def [symmetric] data_def [symmetric])
    note pc = push_piece_chain [OF less.prems(4) len th(1,3)]
    obtain cs where cs: "read_pieces f r through stop (push_piece cursor through data chs) = Inr cs" "chunk_chain a cs stop"
      "chunks_data cs = chunks_data (push_piece cursor through data chs) @ take (stop - through) (drop (through - cr_start r) (row_data s r))"
      using less.hyps [OF _ _ th(2) less.prems(3) conjunct1 [OF pc]] th less.prems by (meson diff_less_mono2 less_imp_le_nat less_le_trans order_trans)
    have "take (stop - cursor) (drop (cursor - cr_start r) (row_data s r))
        = data @ take (stop - through) (drop (through - cr_start r) (row_data s r))"
    proof -
      have "stop - cursor = (through - cursor) + (stop - through)" "through - cr_start r = (through - cursor) + (cursor - cr_start r)"
        using th less.prems by auto
      then show ?thesis by (simp add: take_add slice)
    qed
    then show ?thesis using step cs pc by simp
  qed
qed

lemma load_chain:
  assumes tab: "tables_ok s" and "chain o1 rs h" "\<And>r. r \<in> set rs \<Longrightarrow> row_ok s r" "max lo o1 \<le> till" "till \<le> h" "chunk_chain a chs (max lo o1)"
  shows "\<exists>cs. load_rows lo till s (filter (\<lambda>r. cr_end r > lo \<and> cr_start r < till) rs) chs = Inr cs \<and> chunk_chain a cs till
     \<and> chunks_data cs = chunks_data chs @ take (till - max lo o1) (drop (max lo o1 - o1) (concat (map (row_data s) rs)))"
  using assms(2-)
proof (induction rs arbitrary: o1 chs)
  case Nil
  then show ?case by auto
next
  case (Cons r rs)
  let ?c = "max lo o1" and ?d = "row_data s r" and ?ds = "concat (map (row_data s) rs)"
  have r: "cr_start r = o1" "o1 < cr_end r" "chain (cr_end r) rs h" "row_ok s r" using Cons.prems by auto
  have d: "length ?d = cr_end r - o1" using row_data_length [OF r(4)] r by (simp add: row_ok_def)
  obtain f where f: "st_files s (cr_file r) = Some f" "validate_replay_file_name (cr_file r) = Inr ()" using r(4) by (auto simp: row_ok_def)
  consider "cr_end r \<le> lo" | "lo < cr_end r" "o1 < till" | "lo < cr_end r" "till \<le> o1" by linarith
  then show ?case
  proof cases
    case 1
    then have "max lo (cr_end r) = lo" "?c = lo" using r by auto
    then show ?thesis using Cons.IH [OF r(3)] Cons.prems 1 r d by simp
  next
    case 2
    let ?t = "min (cr_end r) till"
    have le: "?c \<le> ?t" "?t \<le> cr_end r" "o1 \<le> ?c" using 2 Cons.prems r by auto
    obtain cs1 where cs1: "read_pieces f r ?c ?t chs = Inr cs1" "chunk_chain a cs1 ?t"
        "chunks_data cs1 = chunks_data chs @ take (?t - ?c) (drop (?c - o1) ?d)"
      using read_pieces_spec [OF r(4) f(1), of ?c ?t a chs] le r Cons.prems(5) by auto
    have run: "load_rows lo till s (filter (\<lambda>r. cr_end r > lo \<and> cr_start r < till) (r # rs)) chs
        = load_rows lo till s (filter (\<lambda>r. cr_end r > lo \<and> cr_start r < till) rs) cs1"
      using 2 r f cs1(1) by (simp add: file_bytes_def max.commute)
    show ?thesis
    proof (cases "cr_end r \<le> till")
      case True
      have m: "max lo (cr_end r) = cr_end r" "?t = cr_end r" using True 2 by auto
      obtain cs where cs: "load_rows lo till s (filter (\<lambda>r. cr_end r > lo \<and> cr_start r < till) rs) cs1 = Inr cs" "chunk_chain a cs till"
          "chunks_data cs = chunks_data cs1 @ take (till - cr_end r) ?ds"
        using Cons.IH [OF r(3), of cs1] Cons.prems True m cs1(2) by auto
      have "take (till - ?c) (drop (?c - o1) (?d @ ?ds)) = drop (?c - o1) ?d @ take (till - cr_end r) ?ds"
        "take (cr_end r - ?c) (drop (?c - o1) ?d) = drop (?c - o1) ?d"
        using d le True m by auto
      then show ?thesis using run cs cs1(3) m by simp
    next
      case False
      have "filter (\<lambda>r. cr_end r > lo \<and> cr_start r < till) rs = []"
        using chain_bounds [OF r(3)] False by (fastforce simp: filter_empty_conv)
      moreover have "take (till - ?c) (drop (?c - o1) (?d @ ?ds)) = take (till - ?c) (drop (?c - o1) ?d)" using d False le by simp
      ultimately show ?thesis using run cs1 False by simp
    qed
  next
    case 3
    then have "till = ?c" using Cons.prems by auto
    moreover have "filter (\<lambda>r. cr_end r > lo \<and> cr_start r < till) rs = []"
      using chain_bounds [OF r(3)] 3 r by (fastforce simp: filter_empty_conv)
    ultimately show ?thesis using Cons.prems 3 r by simp
  qed
qed

lemma load_replay_page_spec:
  assumes ok: "store_ok s" and row: "map_of (st_runs s) rid = Some row"
    and gap: "case rr_source_gap row of None \<Rightarrow> True | Some cursor \<Rightarrow> cursor \<le> rr_head row"
  shows "\<exists>p. load_replay_page rid after through s = Inr p \<and> rp_first_available_byte p = rr_oldest row \<and> rp_latest_output_bytes p = rr_head row
     \<and> (let from = max after (rr_oldest row); till = min (min through (rr_head row)) (from + REPLAY_PAGE_BYTES) in
        if from < till
        then chunk_chain from (rp_chunks p) till \<and> chunks_data (rp_chunks p) = take (till - from) (drop (from - rr_oldest row) (window rid s))
        else rp_chunks p = [])"
proof -
  have tab: "tables_ok s" and run: "stored_run_ok rid row s" using ok map_of_SomeD [OF row] by (auto simp: store_ok_def)
  have chain: "chain (rr_oldest row) (run_rows rid s) (rr_head row)" and head: "rr_head row \<le> I64_MAX" using run by (auto simp: stored_run_ok_def)
  define lo where "lo = max after (rr_oldest row)"
  define till where "till = min (min through (rr_head row)) (lo + REPLAY_PAGE_BYTES)"
  have sat: "min (min through (rr_head row)) (saturating_add lo REPLAY_PAGE_BYTES) = till"
    using head by (auto simp: till_def saturating_add_def max_values)
  have chunks: "\<exists>cs. load_replay_chunks_range rid lo till s = Inr cs \<and>
      (if lo < till then chunk_chain lo cs till \<and> chunks_data cs = take (till - lo) (drop (lo - rr_oldest row) (window rid s)) else cs = [])"
  proof (cases "lo < till")
    case True
    have b: "max lo (rr_oldest row) = lo" "till \<le> rr_head row" using True by (auto simp: lo_def till_def)
    then show ?thesis
      using load_chain [where lo = lo and till = till and a = lo and chs = "[]", OF tab chain tables_rows [OF tab]] True head
      by (auto simp: load_replay_chunks_range_def sort_run_rows [OF chain] window_def chunks_data_def)
  qed (simp add: load_replay_chunks_range_def)
  then obtain cs where cs: "load_replay_chunks_range rid lo till s = Inr cs"
      "if lo < till then chunk_chain lo cs till \<and> chunks_data cs = take (till - lo) (drop (lo - rr_oldest row) (window rid s)) else cs = []"
    by blast
  obtain g where g: "source_gap_fact row = Inr g" using gap by (auto simp: source_gap_fact_def split: option.splits)
  let ?p = "\<lparr>rp_chunks = cs, rp_first_available_byte = rr_oldest row, rp_latest_output_bytes = rr_head row,
     rp_truncated = (after < rr_oldest row \<or> (case g of None \<Rightarrow> False | Some cursor \<Rightarrow> after \<le> cursor) \<or> rr_truncated row \<and> rr_oldest row = 0)\<rparr>"
  have "load_replay_page rid after through s = Inr ?p"
    using cs(1) g row by (simp add: load_replay_page_def read_run_def Let_def lo_def [symmetric] sat)
  then show ?thesis unfolding Let_def lo_def [symmetric] till_def [symmetric] using cs(2) by (intro exI [of _ ?p]) simp
qed



section \<open>Every reachable store revalidates\<close>

lemma validate_chain:
  assumes "tables_ok s" "chain a rs b" "\<And>r. r \<in> set rs \<Longrightarrow> row_ok s r" "n + (b - a) \<le> U64_MAX"
  shows "validate_rows s rs a n = Inr (b, n + (b - a))"
  using assms(2-)
proof (induction rs arbitrary: a n)
  case (Cons r rs)
  have r: "cr_start r = a" "a < cr_end r" "chain (cr_end r) rs b" "row_ok s r" using Cons.prems by auto
  obtain f where f: "st_files s (cr_file r) = Some f" "cr_offset r + cr_bytes r \<le> length f" "validate_replay_file_name (cr_file r) = Inr ()"
    "cr_bytes r = cr_end r - cr_start r" using r(4) by (auto simp: row_ok_def)
  have len: "length f \<le> U64_MAX" using file_bound [OF assms(1) f(1)] by (simp add: max_values)
  have le: "cr_end r \<le> b" by (rule chain_le [OF r(3)])
  have ih: "validate_rows s rs (cr_end r) (n + cr_bytes r) = Inr (b, n + cr_bytes r + (b - cr_end r))"
    using Cons.IH [OF r(3), of "n + cr_bytes r"] Cons.prems f(4) r le by simp
  have "saturating_add n (cr_bytes r) = n + cr_bytes r" using Cons.prems(3) f(4) r le by simp
  then show ?case using ih f len r le by (simp add: file_bytes_def checked_add_def)
qed simp

lemma validate_accepts:
  assumes "tables_ok s" "stored_run_ok rid row s"
  shows "validate_replay_window_in rid row s = Inr ()"
proof -
  have chain: "chain (rr_oldest row) (run_rows rid s) (rr_head row)" and b: "rr_head row \<le> I64_MAX" "rr_bytes row = rr_head row - rr_oldest row"
    "rr_oldest row > 0 \<longrightarrow> rr_truncated row"
    using assms(2) by (auto simp: stored_run_ok_def)
  have "validate_rows s (run_rows rid s) (rr_oldest row) 0 = Inr (rr_head row, rr_head row - rr_oldest row)"
    using validate_chain [where n = 0, OF assms(1) chain tables_rows [OF assms(1)]] b by (simp add: max_values)
  then show ?thesis using chain b unfolding validate_replay_window_in_def Let_def chain_sort [OF chain]
    by (cases "run_rows rid s") (auto simp del: validate_rows.simps)
qed

end
