(* ===== verification/Replay_Transactions.thy ===== *)
theory Replay_Transactions
  imports Resources Replay_Quota Replay_Pages
begin

text \<open>
  The transactions of the durable store (\<^verbatim>\<open>crates/ctxmux-daemon/src/persistence.rs\<close>): an output batch with
  an optional terminal settlement, the exact replacement that starts a Run, removal, and the reconciliation
  of running rows at startup.

  What SQLite makes of an applied transaction is the parameter \<open>commit_outcome\<close>: committed, rolled back
  because its page charge exceeds the admission window, or failed with the store proven unchanged.  A
  transaction whose outcome cannot be classified waits for reconciliation and is not modelled.
\<close>

section \<open>Definitions\<close>

record admission_limits =
  al_run_records :: u64
  al_metadata_bytes :: u64

record effective_policy =
  ep_durable_run_output_bytes :: u64
  ep_durable_replay_bytes :: u64

datatype commit_outcome = Committed | OverBudget | CommitFailed persistence_error

record persistent_candidate =
  pc_id :: run_id
  pc_operation_key :: string
  pc_metadata_bytes :: u64

record prepared_start =
  ps_id :: run_id
  ps_operation_key :: string
  ps_metadata_bytes :: u64

record stage_failure =
  sf_error :: persistence_error
  sf_fatal :: bool
  sf_capacity :: bool

definition admission_failure :: "string \<Rightarrow> stage_failure" where
  "admission_failure message = \<lparr>sf_error = Mutation message, sf_fatal = False, sf_capacity = True\<rparr>"

definition fatal_stage_failure :: "string \<Rightarrow> stage_failure" where
  "fatal_stage_failure message = \<lparr>sf_error = Mutation message, sf_fatal = True, sf_capacity = False\<rparr>"

definition maintenance_batch :: "commit_outcome \<Rightarrow> (store \<Rightarrow> persistence_error + (bool \<times> 'a \<times> store)) \<Rightarrow> store \<Rightarrow> persistence_error + (('a \<times> store) option)" where
  "maintenance_batch outcome apply1 s =
     and_then (apply1 s) (\<lambda>(applied, a, t).
       if \<not> applied then Inr None
       else (case outcome of Committed \<Rightarrow> Inr (Some (a, t)) | OverBudget \<Rightarrow> Inr None | CommitFailed e \<Rightarrow> Inl e))"

definition read_run_head :: "run_id \<Rightarrow> store \<Rightarrow> persistence_error + u64" where
  "read_run_head rid s = and_then (read_run rid s) (\<lambda>row. Inr (rr_head row))"

text \<open>The output part of a batch: every Run's merged offer, with the heads to publish.\<close>

fun append_rows ::
  "string \<Rightarrow> u64 \<Rightarrow> (run_id \<times> output_replay) list \<Rightarrow> u64 \<Rightarrow> (run_id \<times> u64) list \<Rightarrow> store \<Rightarrow> persistence_error + ((run_id \<times> u64) list \<times> store)" where
  "append_rows file run_limit [] next_offset heads s = Inr (heads, s)"
| "append_rows file run_limit ((rid, replay) # rest) next_offset heads s =
     and_then (append_replay_with_storage rid replay file next_offset run_limit s) (\<lambda>(evicted, next_offset, s).
     and_then (read_run_head rid s) (\<lambda>head.
       append_rows file run_limit rest next_offset (AList.update rid head heads) s))"

text \<open>The terminal settlement: the Run, its new metadata size and the source gap its state records.\<close>

type_synonym terminal_settlement = "run_id \<times> u64 \<times> u64 option"

definition settle_terminal :: "terminal_settlement option \<Rightarrow> store \<Rightarrow> persistence_error + store" where
  "settle_terminal terminal s =
     (case terminal of
        None \<Rightarrow> Inr s
      | Some (rid, metadata, gap) \<Rightarrow>
          and_then (read_run rid s) (\<lambda>row.
          and_then (require (rr_running row) (Mutation ''Run is not durable running state'')) (\<lambda>_.
            Inr (write_run rid (\<lambda>r. r\<lparr>rr_running := False, rr_source_gap := gap, rr_metadata_bytes := metadata\<rparr>) s))))"

definition batch_payload :: "(run_id \<times> output_replay) list \<Rightarrow> usize" where
  "batch_payload batch = sum_list (map (\<lambda>(rid, replay). replay_payload replay) batch)"

definition append_transaction_once ::
  "resource_limits \<Rightarrow> effective_policy \<Rightarrow> string \<Rightarrow> commit_outcome \<Rightarrow> (run_id \<times> output_replay) list \<Rightarrow> terminal_settlement option \<Rightarrow> store
     \<Rightarrow> persistence_error + (((run_id \<times> u64) list \<times> store) option)" where
  "append_transaction_once rs effective file outcome batch terminal s =
     and_then (require (batch_payload batch \<le> MAX_TRANSACTION_PAYLOAD_BYTES)
        (Mutation ''output transaction payload exceeds the 1 MiB admission ceiling'')) (\<lambda>_.
     and_then (validate_replay_file_name file) (\<lambda>_.
     and_then (file_bytes file s) (\<lambda>old.
     maintenance_batch outcome (\<lambda>s.
       and_then (append_rows file (ep_durable_run_output_bytes effective) (coalesce_batch batch) (length old) [] s) (\<lambda>(heads, s).
       and_then (prune_global_replay (ep_durable_replay_bytes effective) (max 1 (wal_checkpoint_bytes rs div WAL_FRAME_BYTES)) s) (\<lambda>(met, s).
       if \<not> met then Inr (False, heads, s)
       else and_then (settle_terminal terminal s) (\<lambda>s. Inr (True, heads, s))))) s)))"

definition delete_run :: "run_id \<Rightarrow> store \<Rightarrow> store" where
  "delete_run rid s = s\<lparr>st_runs := filter (\<lambda>(k, r). k \<noteq> rid) (st_runs s), st_chunks := filter (\<lambda>r. cr_run r \<noteq> rid) (st_chunks s)\<rparr>"

definition exact_terminal :: "persistent_candidate \<Rightarrow> store \<Rightarrow> bool" where
  "exact_terminal candidate s =
     (case map_of (st_runs s) (pc_id candidate) of
        None \<Rightarrow> False
      | Some row \<Rightarrow> rr_creation_key row = pc_operation_key candidate \<and> rr_metadata_bytes row = pc_metadata_bytes candidate \<and> \<not> rr_running row)"

definition remove_terminal :: "commit_outcome \<Rightarrow> persistent_candidate \<Rightarrow> store \<Rightarrow> persistence_error + store" where
  "remove_terminal outcome candidate s =
     and_then (maintenance_batch outcome (\<lambda>s.
        and_then (require (exact_terminal candidate s) (Mutation ''persistent removal candidate does not match its exact terminal snapshot''))
          (\<lambda>_. Inr (True, (), delete_run (pc_id candidate) s))) s) (\<lambda>r.
     case r of Some (_, t) \<Rightarrow> Inr t | None \<Rightarrow> Inl (ResourcePressure ''persistent removal exceeds its original WAL admission''))"

fun validate_exact_candidates ::
  "prepared_start \<Rightarrow> persistent_candidate list \<Rightarrow> run_id list \<Rightarrow> store \<Rightarrow> stage_failure + unit" where
  "validate_exact_candidates prepared [] seen s = Inr ()"
| "validate_exact_candidates prepared (candidate # rest) seen s =
     and_then (require (pc_id candidate \<notin> set seen) (fatal_stage_failure ''persistent replacement repeats candidate'')) (\<lambda>_.
     and_then (require (\<not> (pc_id candidate = ps_id prepared \<or> pc_operation_key candidate = ps_operation_key prepared))
        (fatal_stage_failure ''persistent replacement cannot reuse a candidate Run or creation identity'')) (\<lambda>_.
     and_then (require (map_of (st_runs s) (pc_id candidate) \<noteq> None) (fatal_stage_failure ''persistent replacement candidate is missing'')) (\<lambda>_.
     and_then (require (exact_terminal candidate s)
        (fatal_stage_failure ''persistent replacement candidate does not match its exact terminal snapshot'')) (\<lambda>_.
       validate_exact_candidates prepared rest (pc_id candidate # seen) s))))"

definition metadata_total :: "store \<Rightarrow> nat" where
  "metadata_total s = sum_list (map (\<lambda>(k, r). rr_metadata_bytes r) (st_runs s))"

fun candidate_metadata :: "persistent_candidate list \<Rightarrow> u64 \<Rightarrow> stage_failure + u64" where
  "candidate_metadata [] acc = Inr acc"
| "candidate_metadata (candidate # rest) acc =
     and_then (ok_or (fatal_stage_failure ''candidate metadata accounting overflowed'') (checked_add acc (pc_metadata_bytes candidate)))
       (candidate_metadata rest)"

definition validate_projected_capacity ::
  "admission_limits \<Rightarrow> prepared_start \<Rightarrow> persistent_candidate list \<Rightarrow> store \<Rightarrow> stage_failure + unit" where
  "validate_projected_capacity limits prepared candidates s =
     and_then (candidate_metadata candidates 0) (\<lambda>freed.
     and_then (ok_or (fatal_stage_failure ''projected record count is inconsistent'')
        (Option.bind (checked_sub (length (st_runs s)) (length candidates)) (\<lambda>n. checked_add n 1))) (\<lambda>projected_records.
     and_then (ok_or (fatal_stage_failure ''projected metadata is inconsistent'')
        (Option.bind (checked_sub (metadata_total s) freed) (\<lambda>n. checked_add n (ps_metadata_bytes prepared)))) (\<lambda>projected_metadata.
     require (\<not> (projected_records > al_run_records limits \<or> projected_metadata > al_metadata_bytes limits))
       (admission_failure ''exact persistent candidates do not fund the retained Run capacity''))))"

fun delete_candidates :: "persistent_candidate list \<Rightarrow> store \<Rightarrow> stage_failure + store" where
  "delete_candidates [] s = Inr s"
| "delete_candidates (candidate # rest) s =
     and_then (require (exact_terminal candidate s) (fatal_stage_failure ''persistent replacement candidate changed while staged''))
       (\<lambda>_. delete_candidates rest (delete_run (pc_id candidate) s))"

text \<open>\<^verbatim>\<open>INSERT INTO runs\<close> with the primary key and the unique creation-key index.\<close>

definition insert_run :: "prepared_start \<Rightarrow> store \<Rightarrow> stage_failure + store" where
  "insert_run prepared s =
     (if ps_id prepared \<in> fst ` set (st_runs s) \<or> ps_operation_key prepared \<in> (rr_creation_key \<circ> snd) ` set (st_runs s)
      then Inl \<lparr>sf_error = DatabaseError ''constraint failed'', sf_fatal = True, sf_capacity = False\<rparr>
      else Inr (s\<lparr>st_runs := st_runs s @ [(ps_id prepared,
             \<lparr>rr_oldest = 0, rr_head = 0, rr_bytes = 0, rr_running = True, rr_truncated = False, rr_source_gap = None,
              rr_creation_key = ps_operation_key prepared, rr_metadata_bytes = ps_metadata_bytes prepared\<rparr>)]\<rparr>))"

definition apply_exact_replacement :: "prepared_start \<Rightarrow> persistent_candidate list \<Rightarrow> store \<Rightarrow> stage_failure + store" where
  "apply_exact_replacement prepared candidates s = and_then (delete_candidates candidates s) (insert_run prepared)"

definition stage_exact_replacement ::
  "admission_limits \<Rightarrow> prepared_start \<Rightarrow> persistent_candidate list \<Rightarrow> store \<Rightarrow> stage_failure + store" where
  "stage_exact_replacement limits prepared candidates s =
     and_then (validate_exact_candidates prepared candidates [] s) (\<lambda>_.
     and_then (validate_projected_capacity limits prepared candidates s) (\<lambda>_.
     apply_exact_replacement prepared candidates s))"

text \<open>Startup: a row still running in the previous epoch, with its new metadata size, becomes interrupted.\<close>

fun reconcile_startup :: "(run_id \<times> u64) list \<Rightarrow> store \<Rightarrow> persistence_error + store" where
  "reconcile_startup [] s = Inr s"
| "reconcile_startup ((rid, metadata) # rest) s =
     and_then (require (case map_of (st_runs s) rid of None \<Rightarrow> False | Some row \<Rightarrow> rr_running row)
        (Mutation ''startup running Run changed before reconciliation'')) (\<lambda>_.
       reconcile_startup rest (write_run rid (\<lambda>r. r\<lparr>rr_running := False, rr_source_gap := None, rr_metadata_bytes := metadata\<rparr>) s))"

section \<open>Deleting and inserting rows\<close>

lemma delete_run_rows: "run_rows k (delete_run rid s) = (if k = rid then [] else run_rows k s)"
  by (auto simp: run_rows_def delete_run_def filter_empty_conv intro!: filter_cong)

lemma map_of_filter_key: "map_of (filter (\<lambda>(k, r). k \<noteq> rid) xs) k = (if k = rid then None else map_of xs k)"
  by (induction xs) auto

lemma delete_run_lookup: "map_of (st_runs (delete_run rid s)) k = (if k = rid then None else map_of (st_runs s) k)"
  by (simp add: delete_run_def map_of_filter_key)

lemma distinct_map_filter_key: "distinct (map fst xs) \<Longrightarrow> distinct (map fst (filter P xs))"
  by (rule distinct_map_filter)

lemma delete_run_ok:
  assumes "store_ok s"
  shows "store_ok (delete_run rid s)" "run_window k (delete_run rid s) = (if k = rid then None else run_window k s)"
proof -
  have dr: "row_data (delete_run rid s) = row_data s" "row_ok (delete_run rid s) = row_ok s"
    by (auto simp: row_data_def row_ok_def delete_run_def fun_eq_iff)
  have tab: "tables_ok (delete_run rid s)"
    using assms unfolding store_ok_def tables_ok_def dr
    by (auto simp: delete_run_def distinct_map_filter image_iff) force
  have "stored_run_ok k row (delete_run rid s)" if "(k, row) \<in> set (st_runs (delete_run rid s))" for k row
    using that assms by (auto simp: store_ok_def stored_run_ok_def delete_run_rows) (auto simp: delete_run_def)
  then show "store_ok (delete_run rid s)" using tab by (auto simp: store_ok_def)
  show "run_window k (delete_run rid s) = (if k = rid then None else run_window k s)"
    by (simp add: run_window_def delete_run_lookup window_def delete_run_rows dr)
qed

lemma filter_key_counts:
  assumes "distinct (map fst xs)" "map_of xs k = Some r"
  shows "length (filter (\<lambda>(k', r). k' \<noteq> k) xs) + 1 = length xs"
    "sum_list (map (\<lambda>(k, r). f r) (filter (\<lambda>(k', r). k' \<noteq> k) xs)) + f r = sum_list (map (\<lambda>(k, r). f r) (xs :: ('k \<times> 'r) list) :: nat list)"
  using assms
proof (induction xs)
  case (Cons x xs)
  obtain k' r' where x: "x = (k', r')" by (cases x)
  have id: "filter (\<lambda>(k', r). k' \<noteq> k) xs = xs" if "k \<notin> fst ` set xs" using that by (force simp: filter_id_conv)
  { case 1 then show ?case using Cons x id by (auto split: if_splits) }
  { case 2 then show ?case using Cons x id by (auto split: if_splits) }
qed simp_all

lemma delete_needs: "delete_candidates cs s = Inr t \<Longrightarrow> k \<in> pc_id ` set cs \<Longrightarrow> map_of (st_runs s) k \<noteq> None"
proof (induction cs arbitrary: s)
  case (Cons c cs)
  have del: "exact_terminal c s" "delete_candidates cs (delete_run (pc_id c) s) = Inr t" using Cons.prems(1) by auto
  show ?case
  proof (cases "k = pc_id c")
    case True
    then show ?thesis using del(1) by (auto simp: exact_terminal_def simp del: map_of_eq_Some_iff split: option.splits)
  next
    case False
    then have "map_of (st_runs (delete_run (pc_id c) s)) k \<noteq> None" using Cons.IH [OF del(2)] Cons.prems(2) by auto
    then show ?thesis using False by (simp add: delete_run_lookup)
  qed
qed simp

lemma delete_candidates_spec:
  assumes "store_ok s" "delete_candidates cs s = Inr t"
  shows "store_ok t \<and> distinct (map pc_id cs)
    \<and> (\<forall>k. map_of (st_runs t) k = (if k \<in> pc_id ` set cs then None else map_of (st_runs s) k))
    \<and> (\<forall>k. run_window k t = (if k \<in> pc_id ` set cs then None else run_window k s))
    \<and> length (st_runs t) + length cs = length (st_runs s)
    \<and> metadata_total t + sum_list (map pc_metadata_bytes cs) = metadata_total s"
  using assms
proof (induction cs arbitrary: s)
  case (Cons c cs)
  let ?s = "delete_run (pc_id c) s"
  obtain row where row: "map_of (st_runs s) (pc_id c) = Some row" "rr_metadata_bytes row = pc_metadata_bytes c"
    using Cons.prems(2) by (auto simp: exact_terminal_def simp del: map_of_eq_Some_iff split: option.splits)
  have rest: "delete_candidates cs ?s = Inr t" using Cons.prems(2) by simp
  note ih = Cons.IH [OF delete_run_ok(1) [OF Cons.prems(1)] rest]
  have d: "distinct (map fst (st_runs s))" using Cons.prems(1) by (simp add: store_ok_def tables_ok_def)
  have counts: "length (st_runs ?s) + 1 = length (st_runs s)" "metadata_total ?s + pc_metadata_bytes c = metadata_total s"
    using filter_key_counts(1) [OF d row(1)] filter_key_counts(2) [where f = rr_metadata_bytes, OF d row(1)] row(2) by (simp_all add: delete_run_def metadata_total_def)
  have new: "pc_id c \<notin> pc_id ` set cs"
  proof
    assume "pc_id c \<in> pc_id ` set cs"
    moreover have "map_of (st_runs ?s) (pc_id c) = None" by (simp add: delete_run_lookup)
    ultimately show False using delete_needs [OF rest] by metis
  qed
  show ?case using ih new counts delete_run_ok(2) [OF Cons.prems(1)] by (auto simp: delete_run_lookup)
qed simp

lemma candidate_metadata_sum: "candidate_metadata cs acc = Inr n \<Longrightarrow> n = acc + sum_list (map pc_metadata_bytes cs)"
  by (induction cs arbitrary: acc) fastforce+

lemma insert_run_ok:
  assumes ok: "store_ok s" and ins: "insert_run prepared s = Inr t"
  shows "store_ok t" "run_window (ps_id prepared) t = Some (0, [])" "k \<noteq> ps_id prepared \<Longrightarrow> run_window k t = run_window k s"
    "k \<noteq> ps_id prepared \<Longrightarrow> map_of (st_runs t) k = map_of (st_runs s) k"
    "length (st_runs t) = length (st_runs s) + 1" "metadata_total t = metadata_total s + ps_metadata_bytes prepared"
    "distinct (map (rr_creation_key \<circ> snd) (st_runs s)) \<Longrightarrow> distinct (map (rr_creation_key \<circ> snd) (st_runs t))"
proof -
  let ?row = "\<lparr>rr_oldest = 0, rr_head = 0, rr_bytes = 0, rr_running = True, rr_truncated = False, rr_source_gap = None,
              rr_creation_key = ps_operation_key prepared, rr_metadata_bytes = ps_metadata_bytes prepared\<rparr>"
  have t: "t = s\<lparr>st_runs := st_runs s @ [(ps_id prepared, ?row)]\<rparr>" and new: "ps_id prepared \<notin> fst ` set (st_runs s)"
    "ps_operation_key prepared \<notin> (rr_creation_key \<circ> snd) ` set (st_runs s)"
    using ins by (auto simp: insert_run_def split: if_splits)
  have dr: "row_data t = row_data s" "row_ok t = row_ok s" by (auto simp: row_data_def row_ok_def t fun_eq_iff)
  have none: "run_rows (ps_id prepared) s = []"
    using ok new(1) by (metis (no_types) run_rows_mem store_ok_def tables_ok_def list.set_intros(1) neq_Nil_conv)
  have rows: "run_rows k t = run_rows k s" for k by (simp add: t)
  have win: "window k t = window k s" for k by (simp add: window_def rows dr)
  have tab: "tables_ok t" using ok new(1) unfolding store_ok_def tables_ok_def dr by (auto simp: t)
  have "stored_run_ok (ps_id prepared) ?row t" by (simp add: stored_run_ok_def rows none)
  then show "store_ok t" using tab ok by (auto simp: store_ok_def stored_run_ok_def rows t)
  have "map_of (st_runs s) (ps_id prepared) = None" using new(1) by (simp add: map_of_eq_None_iff)
  then have "map_of (st_runs t) (ps_id prepared) = Some ?row" by (simp add: t map_add_def)
  moreover have "window (ps_id prepared) t = []" unfolding win by (simp add: window_def none)
  ultimately show "run_window (ps_id prepared) t = Some (0, [])" by (simp add: run_window_def)
  have look: "map_of (st_runs t) k = map_of (st_runs s) k" if "k \<noteq> ps_id prepared" for k
    using that by (auto simp: t map_add_def split: option.split)
  show "map_of (st_runs t) k = map_of (st_runs s) k" "run_window k t = run_window k s" if "k \<noteq> ps_id prepared"
    using look [OF that] by (simp_all add: run_window_def win)
  show "length (st_runs t) = length (st_runs s) + 1" "metadata_total t = metadata_total s + ps_metadata_bytes prepared"
    "distinct (map (rr_creation_key \<circ> snd) (st_runs s)) \<Longrightarrow> distinct (map (rr_creation_key \<circ> snd) (st_runs t))"
    using new(2) by (auto simp: t metadata_total_def)
qed

lemma delete_keys_distinct:
  "delete_candidates cs s = Inr t \<Longrightarrow> distinct (map (rr_creation_key \<circ> snd) (st_runs s)) \<Longrightarrow> distinct (map (rr_creation_key \<circ> snd) (st_runs t))"
  by (induction cs arbitrary: s) (auto simp: delete_run_def distinct_map_filter)

text \<open>C37 (bounds).  Starting a Run by exact replacement.  When the staged replacement is admitted, the store keeps its
  invariant and stays within the configured number of records and bytes of metadata, creation keys stay unique,
  the new Run starts with an empty window, exactly the named candidates are gone, and every other Run keeps its
  row and its window.\<close>

theorem replacement_within_capacity:
  assumes ok: "store_ok s" and keys: "distinct (map (rr_creation_key \<circ> snd) (st_runs s))"
    and staged: "stage_exact_replacement limits prepared candidates s = Inr t"
  shows "store_ok t \<and> length (st_runs t) \<le> al_run_records limits \<and> metadata_total t \<le> al_metadata_bytes limits
     \<and> distinct (map (rr_creation_key \<circ> snd) (st_runs t)) \<and> run_window (ps_id prepared) t = Some (0, [])
     \<and> (\<forall>k. k \<noteq> ps_id prepared \<longrightarrow> map_of (st_runs t) k = (if k \<in> pc_id ` set candidates then None else map_of (st_runs s) k)
          \<and> run_window k t = (if k \<in> pc_id ` set candidates then None else run_window k s))"
proof -
  obtain u where u: "delete_candidates candidates s = Inr u" "insert_run prepared u = Inr t"
    and cap: "validate_projected_capacity limits prepared candidates s = Inr ()"
    using staged by (auto simp: stage_exact_replacement_def apply_exact_replacement_def)
  note d = delete_candidates_spec [OF ok u(1)]
  note i = insert_run_ok [OF _ u(2)]
  have "length (st_runs s) - length candidates + 1 \<le> al_run_records limits"
    "metadata_total s - sum_list (map pc_metadata_bytes candidates) + ps_metadata_bytes prepared \<le> al_metadata_bytes limits"
    using cap by (auto simp: validate_projected_capacity_def bind_eq_Some_conv dest!: candidate_metadata_sum)
  then have "length (st_runs t) \<le> al_run_records limits" "metadata_total t \<le> al_metadata_bytes limits"
    using d i(5,6) by auto
  then show ?thesis using d i(1-4,7) delete_keys_distinct [OF u(1) keys] by simp
qed

text \<open>The first Run of the sample store has exited and is replaced.\<close>

definition ended_store :: store where
  "ended_store = write_run 7 (\<lambda>r. r\<lparr>rr_running := False\<rparr>) sample_store"

lemma ended_store_ok: "store_ok ended_store"
  by (simp add: ended_store_def write_run_def sample_store_def store_ok_def tables_ok_def stored_run_ok_def row_ok_def run_rows_def
      validate_replay_file_name_def max_values)

lemma ended_store_staged:
  "\<exists>t. stage_exact_replacement \<lparr>al_run_records = 2, al_metadata_bytes = 600\<rparr> \<lparr>ps_id = 9, ps_operation_key = ''k9'', ps_metadata_bytes = 400\<rparr>
     [\<lparr>pc_id = 7, pc_operation_key = ''k7'', pc_metadata_bytes = 300\<rparr>] ended_store = Inr t"
  by (simp add: stage_exact_replacement_def apply_exact_replacement_def insert_run_def validate_projected_capacity_def exact_terminal_def
      ended_store_def write_run_def sample_store_def metadata_total_def delete_run_def checked_add_def checked_sub_def max_values)

theorem replacement_within_capacity_witness:
  "\<exists>t. stage_exact_replacement \<lparr>al_run_records = 2, al_metadata_bytes = 600\<rparr> \<lparr>ps_id = 9, ps_operation_key = ''k9'', ps_metadata_bytes = 400\<rparr>
     [\<lparr>pc_id = 7, pc_operation_key = ''k7'', pc_metadata_bytes = 300\<rparr>] ended_store = Inr t
     \<and> store_ok t \<and> length (st_runs t) \<le> 2 \<and> metadata_total t \<le> 600 \<and> run_window 9 t = Some (0, []) \<and> run_window 7 t = None"
proof -
  have keys: "distinct (map (rr_creation_key \<circ> snd) (st_runs ended_store))"
    by (simp add: ended_store_def write_run_def sample_store_def)
  from ended_store_staged obtain t where t: "stage_exact_replacement \<lparr>al_run_records = 2, al_metadata_bytes = 600\<rparr>
     \<lparr>ps_id = 9, ps_operation_key = ''k9'', ps_metadata_bytes = 400\<rparr> [\<lparr>pc_id = 7, pc_operation_key = ''k7'', pc_metadata_bytes = 300\<rparr>] ended_store = Inr t"
    by blast
  show ?thesis using replacement_within_capacity [OF ended_store_ok keys t] t by auto
qed

section \<open>Every store the transactions leave\<close>

definition windows_within :: "nat \<Rightarrow> store \<Rightarrow> bool" where
  "windows_within limit s \<longleftrightarrow> (\<forall>k oldest w. run_window k s = Some (oldest, w) \<longrightarrow> length w \<le> limit)"

lemma append_rows_ok:
  assumes "store_ok s" "windows_within limit s" "st_files s file = Some f" "validate_replay_file_name file = Inr ()"
    and "length f + batch_payload batch \<le> I64_MAX" "append_rows file limit batch (length f) heads s = Inr (heads', t)"
  shows "store_ok t \<and> windows_within limit t \<and> map fst (st_runs t) = map fst (st_runs s)"
  using assms
proof (induction batch arbitrary: s f heads)
  case (Cons b batch)
  obtain rid replay where b: "b = (rid, replay)" by (cases b)
  obtain e n u head where a: "append_replay_with_storage rid replay file (length f) limit s = Inr (e, n, u)"
    and rest: "append_rows file limit batch n (AList.update rid head heads) u = Inr (heads', t)"
    using Cons.prems(6) by (auto simp: b)
  obtain row where row: "map_of (st_runs s) rid = Some row"
    using a by (auto simp: append_replay_with_storage_def read_run_def simp del: map_of_eq_Some_iff)
  have room: "length f + replay_payload replay \<le> I64_MAX" using Cons.prems(5) by (simp add: b batch_payload_def)
  have sp: "store_ok u" "\<exists>w. run_window rid u = Some (keep_last limit w)" "\<forall>k. k \<noteq> rid \<longrightarrow> run_window k u = run_window k s"
    "map fst (st_runs u) = map fst (st_runs s)" "n \<le> length f + replay_payload replay" "\<exists>f'. st_files u file = Some f' \<and> length f' = n"
    using append_spec [OF Cons.prems(1) row Cons.prems(3) refl Cons.prems(4) room, of limit] by (auto simp: a)
  obtain f' where f': "st_files u file = Some f'" "length f' = n" using sp(6) by blast
  have win: "windows_within limit u"
    unfolding windows_within_def
  proof (intro allI impI)
    fix k oldest w assume "run_window k u = Some (oldest, w)"
    then show "length w \<le> limit" using sp(2,3) Cons.prems(2) by (cases "k = rid") (auto simp: windows_within_def keep_last_def split: prod.splits)
  qed
  have "length f' + batch_payload batch \<le> I64_MAX" using sp(5) f'(2) Cons.prems(5) by (simp add: b batch_payload_def)
  then show ?case using Cons.IH [OF sp(1) win f'(1) Cons.prems(4)] rest f'(2) sp(4) by simp
qed simp

lemma merge_payload: "replay_payload (merge_replay a b) = replay_payload a + replay_payload b"
  by (simp add: merge_replay_def replay_payload_def)

lemma merge_into_payload:
  "distinct (map fst m) \<Longrightarrow> rid \<in> fst ` set m \<Longrightarrow>
     batch_payload (map (\<lambda>(k, existing). (k, if k = rid then merge_replay existing replay else existing)) m) = batch_payload m + replay_payload replay"
proof (induction m)
  case (Cons x m)
  obtain k e where x: "x = (k, e)" by (cases x)
  show ?case
  proof (cases "k = rid")
    case True
    have "map (\<lambda>(k, existing). (k, if k = rid then merge_replay existing replay else existing)) m = m"
      using Cons.prems(1) x True by (intro map_idI) (auto simp: image_iff)
    then show ?thesis using True by (simp add: x batch_payload_def merge_payload del: map_map)
  next
    case False
    then show ?thesis using Cons x by (auto simp: batch_payload_def)
  qed
qed simp

lemma coalesce_fold:
  defines "step \<equiv> \<lambda>merged (rid, replay). if rid \<in> fst ` set merged
        then map (\<lambda>(k, existing). (k, if k = rid then merge_replay existing replay else existing)) merged else merged @ [(rid, replay)]"
  shows "distinct (map fst m) \<Longrightarrow> batch_payload (foldl step m batch) = batch_payload m + batch_payload batch"
proof (induction batch arbitrary: m)
  case (Cons b batch)
  obtain rid replay where b: "b = (rid, replay)" by (cases b)
  have keys: "map fst (map (\<lambda>(k, existing). (k, if k = rid then merge_replay existing replay else existing)) m) = map fst m"
    by (simp add: split_def)
  have "distinct (map fst (step m b))" "batch_payload (step m b) = batch_payload m + replay_payload replay"
    using Cons.prems merge_into_payload [of m rid replay] keys by (auto simp: step_def b batch_payload_def simp del: map_map)
  then show ?case using Cons.IH [of "step m b"] by (simp add: b batch_payload_def)
qed (simp add: batch_payload_def)

lemma coalesce_payload: "batch_payload (coalesce_batch batch) = batch_payload batch"
  using coalesce_fold [of "[]" batch] by (simp add: coalesce_batch_def batch_payload_def)

lemma write_run_plain:
  assumes "store_ok s" "map_of (st_runs s) rid = Some row" "rr_oldest (f row) = rr_oldest row" "rr_head (f row) = rr_head row"
    "rr_bytes (f row) = rr_bytes row" "rr_truncated (f row) = rr_truncated row"
  shows "store_ok (write_run rid f s)" "run_window k (write_run rid f s) = run_window k s" "total_replay_bytes (write_run rid f s) = total_replay_bytes s"
proof -
  have run: "stored_run_ok rid row s" using assms(1) map_of_SomeD [OF assms(2)] by (auto simp: store_ok_def)
  then have "stored_run_ok rid (f row) s" using assms(3-6) by (simp add: stored_run_ok_def)
  note w = store_ok_write_run [where f = f, OF assms(1) frame_refl _ assms(2) this]
  show "store_ok (write_run rid f s)" "run_window k (write_run rid f s) = run_window k s"
    using w assms(1-3) by (auto simp: store_ok_def run_window_def write_run_lookup)
  show "total_replay_bytes (write_run rid f s) = total_replay_bytes s"
    using total_write_run [of s rid row f] assms by (simp add: store_ok_def tables_ok_def)
qed

definition within_policy :: "effective_policy \<Rightarrow> admission_limits \<Rightarrow> store \<Rightarrow> bool" where
  "within_policy effective limits s \<longleftrightarrow> store_ok s \<and> windows_within (ep_durable_run_output_bytes effective) s
     \<and> total_replay_bytes s \<le> ep_durable_replay_bytes effective \<and> length (st_runs s) \<le> al_run_records limits"

lemma windows_cut_within: "windows_cut s t \<Longrightarrow> windows_within limit s \<Longrightarrow> windows_within limit t"
  unfolding windows_within_def
proof (intro allI impI)
  fix k oldest w
  assume sh: "windows_cut s t" and win: "\<forall>k oldest w. run_window k s = Some (oldest, w) \<longrightarrow> length w \<le> limit" and t: "run_window k t = Some (oldest, w)"
  obtain n where "run_window k t = map_option (\<lambda>(oldest, w). (oldest + n, drop n w)) (run_window k s)" using sh by (auto simp: windows_cut_def)
  then obtain o0 w0 where "run_window k s = Some (o0, w0)" "w = drop n w0" using t by (cases "run_window k s") auto
  then show "length w \<le> limit" using win by fastforce
qed

lemma distinct_length_dom: "distinct (map fst xs) \<Longrightarrow> length xs = card (dom (map_of xs))"
  using distinct_card [of "map fst xs"] by (simp add: dom_map_of_conv_image_fst)

lemma windows_cut_records:
  assumes "store_ok s" "store_ok t" "windows_cut s t"
  shows "length (st_runs t) = length (st_runs s)"
proof -
  have eq: "map_of (st_runs t) k = None \<longleftrightarrow> map_of (st_runs s) k = None" for k
    using assms(3) unfolding windows_cut_def by (metis option.map_disc_iff)
  have "dom (map_of (st_runs t)) = dom (map_of (st_runs s))" using eq by (auto simp: dom_def simp del: map_of_eq_Some_iff)
  then show ?thesis using assms(1,2) distinct_length_dom by (metis store_ok_def tables_ok_def)
qed

lemma settle_within:
  assumes "within_policy effective limits s" "settle_terminal terminal s = Inr t"
  shows "within_policy effective limits t"
proof (cases terminal)
  case None
  then show ?thesis using assms by (simp add: settle_terminal_def)
next
  case (Some x)
  obtain rid m g where x: "x = (rid, m, g)" by (cases x)
  let ?f = "\<lambda>r. r\<lparr>rr_running := False, rr_source_gap := g, rr_metadata_bytes := m\<rparr>"
  obtain row where row: "map_of (st_runs s) rid = Some row" and t: "t = write_run rid ?f s"
    using assms(2) by (auto simp: settle_terminal_def Some x read_run_def simp del: map_of_eq_Some_iff)
  have "length (st_runs t) = length (st_runs s)" by (simp add: t write_run_def)
  then show ?thesis using write_run_plain [where f = ?f, OF _ row] assms(1) by (simp add: within_policy_def windows_within_def t)
qed

lemma append_transaction_within:
  assumes ok: "within_policy effective limits s" and lim: "ep_durable_replay_bytes effective \<le> I64_MAX"
    and old: "st_files s file = Some old" "length old + batch_payload batch \<le> I64_MAX"
    and tx: "append_transaction_once rs effective file outcome batch terminal s = Inr (Some (heads, t))"
  shows "within_policy effective limits t"
proof -
  obtain u v where u: "append_rows file (ep_durable_run_output_bytes effective) (coalesce_batch batch) (length old) [] s = Inr (heads, u)"
    and v: "prune_global_replay (ep_durable_replay_bytes effective) (max 1 (wal_checkpoint_bytes rs div WAL_FRAME_BYTES)) u = Inr (True, v)"
    and t: "settle_terminal terminal v = Inr t" and name: "validate_replay_file_name file = Inr ()"
    using tx old(1) by (auto simp: append_transaction_once_def file_bytes_def maintenance_batch_def split: if_splits commit_outcome.splits)
  have rows_ok: "store_ok u \<and> windows_within (ep_durable_run_output_bytes effective) u \<and> map fst (st_runs u) = map fst (st_runs s)"
    by (rule append_rows_ok [OF _ _ old(1) name _ u]) (use ok old(2) in \<open>simp_all add: within_policy_def coalesce_payload\<close>)
  then have len: "length (st_runs u) = length (st_runs s)" by (metis length_map)
  have pr: "store_ok v" "windows_cut u v" "total_replay_bytes v \<le> ep_durable_replay_bytes effective"
    using prune_global_spec [of u "ep_durable_replay_bytes effective" "max 1 (wal_checkpoint_bytes rs div WAL_FRAME_BYTES)"] rows_ok lim v by auto
  have "within_policy effective limits v"
    using pr windows_cut_within [OF pr(2)] windows_cut_records [OF _ pr(1,2)] rows_ok len ok by (simp add: within_policy_def)
  then show ?thesis using settle_within t by blast
qed

lemma filter_total_le: "sum_list (map (\<lambda>(k, r). rr_bytes r) (filter P xs)) \<le> sum_list (map (\<lambda>(k, r). rr_bytes r) xs)"
  by (induction xs) (auto simp: split_def)

lemma delete_run_within:
  assumes "within_policy effective limits s"
  shows "within_policy effective limits (delete_run rid s)"
proof -
  have runs: "st_runs (delete_run rid s) = filter (\<lambda>(k, r). k \<noteq> rid) (st_runs s)" by (simp add: delete_run_def)
  have "total_replay_bytes (delete_run rid s) \<le> total_replay_bytes s" "length (st_runs (delete_run rid s)) \<le> length (st_runs s)"
    unfolding total_replay_bytes_def runs by (rule filter_total_le, rule length_filter_le)
  then show ?thesis using assms delete_run_ok(1) [of s rid] delete_run_ok(2) [of s _ rid] by (auto simp: within_policy_def windows_within_def split: if_splits)
qed

lemma replacement_within:
  assumes "within_policy effective limits s" "stage_exact_replacement limits prepared candidates s = Inr t"
  shows "within_policy effective limits t"
proof -
  obtain u where u: "delete_candidates candidates s = Inr u" "insert_run prepared u = Inr t"
    and cap: "validate_projected_capacity limits prepared candidates s = Inr ()"
    using assms(2) by (auto simp: stage_exact_replacement_def apply_exact_replacement_def)
  have wu: "within_policy effective limits u" using u(1) assms(1)
    by (induction candidates arbitrary: s) (auto intro: delete_run_within)
  have ok: "store_ok s" "store_ok u" using assms(1) wu by (auto simp: within_policy_def)
  note i = insert_run_ok [OF ok(2) u(2)]
  have "length (st_runs t) \<le> al_run_records limits"
    using delete_candidates_spec [OF ok(1) u(1)] i(5) cap by (auto simp: validate_projected_capacity_def bind_eq_Some_conv)
  moreover have "total_replay_bytes t = total_replay_bytes u" using u(2) by (auto simp: insert_run_def total_replay_bytes_def split: if_splits)
  moreover have "windows_within (ep_durable_run_output_bytes effective) t"
    unfolding windows_within_def
  proof (intro allI impI)
    fix k oldest w assume "run_window k t = Some (oldest, w)"
    then show "length w \<le> ep_durable_run_output_bytes effective"
      using i(2,3) wu by (cases "k = ps_id prepared") (auto simp: within_policy_def windows_within_def)
  qed
  ultimately show ?thesis using i(1) wu by (simp add: within_policy_def)
qed

lemma reconcile_within: "within_policy effective limits s \<Longrightarrow> reconcile_startup rs s = Inr t \<Longrightarrow> within_policy effective limits t"
proof (induction rs arbitrary: s)
  case (Cons x rs)
  obtain rid m where x: "x = (rid, m)" by (cases x)
  let ?f = "\<lambda>r. r\<lparr>rr_running := False, rr_source_gap := None, rr_metadata_bytes := m\<rparr>"
  obtain row where row: "map_of (st_runs s) rid = Some row" and rest: "reconcile_startup rs (write_run rid ?f s) = Inr t"
    using Cons.prems(2) by (auto simp: x simp del: map_of_eq_Some_iff split: option.splits)
  have "length (st_runs (write_run rid ?f s)) = length (st_runs s)" by (simp add: write_run_def)
  then have "within_policy effective limits (write_run rid ?f s)"
    using write_run_plain [where f = ?f, OF _ row] Cons.prems(1) by (simp add: within_policy_def windows_within_def)
  then show ?case by (rule Cons.IH [OF _ rest])
qed simp

text \<open>The stores the daemon's transactions lead to.  The payload file must have room for the batch below the
  largest SQLite integer.\<close>

inductive store_reachable :: "resource_limits \<Rightarrow> effective_policy \<Rightarrow> admission_limits \<Rightarrow> store \<Rightarrow> bool"
  for rs effective limits where
  created: "st_runs s = [] \<Longrightarrow> st_chunks s = [] \<Longrightarrow> (\<And>n f. st_files s n = Some f \<Longrightarrow> length f \<le> I64_MAX) \<Longrightarrow>
     store_reachable rs effective limits s"
| started: "store_reachable rs effective limits s \<Longrightarrow> stage_exact_replacement limits prepared candidates s = Inr t \<Longrightarrow>
     store_reachable rs effective limits t"
| appended: "store_reachable rs effective limits s \<Longrightarrow> st_files s file = Some old \<Longrightarrow> length old + batch_payload batch \<le> I64_MAX \<Longrightarrow>
     append_transaction_once rs effective file outcome batch terminal s = Inr (Some (heads, t)) \<Longrightarrow> store_reachable rs effective limits t"
| removed: "store_reachable rs effective limits s \<Longrightarrow> remove_terminal outcome candidate s = Inr t \<Longrightarrow> store_reachable rs effective limits t"
| reconciled: "store_reachable rs effective limits s \<Longrightarrow> reconcile_startup running s = Inr t \<Longrightarrow> store_reachable rs effective limits t"

lemma created_within: "st_runs s = [] \<Longrightarrow> st_chunks s = [] \<Longrightarrow> (\<And>n f. st_files s n = Some f \<Longrightarrow> length f \<le> I64_MAX) \<Longrightarrow>
    within_policy effective limits s"
  by (auto simp: within_policy_def store_ok_def tables_ok_def windows_within_def run_window_def total_replay_bytes_def)

lemma removed_within:
  assumes "within_policy effective limits s" "remove_terminal outcome candidate s = Inr t"
  shows "within_policy effective limits t"
proof -
  have "t = delete_run (pc_id candidate) s"
    using assms(2) by (auto simp: remove_terminal_def maintenance_batch_def split: option.splits commit_outcome.splits)
  then show ?thesis using delete_run_within [OF assms(1)] by simp
qed



end
