(* ===== verification/Assoc_Lists.thy ===== *)
theory Assoc_Lists
  imports Prelude "HOL-Library.AList"
begin

text \<open>
  Association lists as the hash maps of the source: how the sums over the entries move with an
  insertion, a removal and an update in place, and when a second table is an exact reverse index of
  the keys its entries carry.
\<close>

section \<open>Sums over the entries\<close>

definition asum :: "('v \<Rightarrow> nat) \<Rightarrow> ('k \<times> 'v) list \<Rightarrow> nat" where
  "asum f xs = sum_list (map (f \<circ> snd) xs)"

lemma asum_simps [simp]: "asum f [] = 0" "asum f (x # xs) = f (snd x) + asum f xs" "asum f (xs @ ys) = asum f xs + asum f ys"
  by (simp_all add: asum_def)

lemma asum_length: "asum (\<lambda>_. Suc 0) xs = length xs"
  by (induction xs) auto

lemma asum_mem_le: "map_of xs i = Some e \<Longrightarrow> f e \<le> asum f xs"
  by (induction xs) (auto split: if_splits)

lemma asum_delete:
  "distinct (map fst xs) \<Longrightarrow> map_of xs i = Some e \<Longrightarrow> asum f (AList.delete i xs) + f e = asum f xs"
  by (induction xs) (auto split: if_splits)

lemma asum_update:
  "i \<notin> fst ` set xs \<Longrightarrow> asum f (AList.update i e xs) = asum f xs + f e"
  by (induction xs) auto

lemma asum_map_entry:
  "map_of xs i = Some e \<Longrightarrow> asum f (AList.map_entry i g xs) + f e = asum f xs + f (g e)"
  by (induction xs) (auto split: if_splits)

lemma asum_map_entry_same [simp]: "(\<And>e. f (g e) = f e) \<Longrightarrow> asum f (AList.map_entry i g xs) = asum f xs"
  by (induction xs) auto

lemma length_map_entry [simp]: "length (AList.map_entry i g xs) = length xs"
  by (induction xs) auto

lemma asum_cong: "(\<And>k v. (k, v) \<in> set xs \<Longrightarrow> f v = g v) \<Longrightarrow> asum f xs = asum g xs"
  unfolding asum_def by (rule arg_cong [of _ _ sum_list], rule map_cong) auto

lemma map_of_map_entry_eq [simp]:
  "map_of (AList.map_entry i g xs) j = (if j = i then map_option g (map_of xs i) else map_of xs j)"
  by (induction xs) auto

lemma keys_map_entry [simp]: "map fst (AList.map_entry i g xs) = map fst xs"
  by (induction xs) auto

lemma map_of_notin: "map_of xs i = None \<longleftrightarrow> i \<notin> fst ` set xs"
  by (induction xs) auto

lemma map_filter_lookups:
  fixes f :: "'v \<Rightarrow> nat"
  shows "sum_list (map f (List.map_filter (map_of xs) is)) = sum_list (map (\<lambda>i. case map_of xs i of None \<Rightarrow> 0 | Some e \<Rightarrow> f e) is)"
  by (induction "is") (auto split: option.splits)

section \<open>Reverse indexes\<close>

text \<open>\<open>idx\<close> maps exactly the keys carried by the entries of \<open>xs\<close> to the entry that carries them.\<close>

definition indexes :: "('v \<Rightarrow> 'a option) \<Rightarrow> ('a \<rightharpoonup> 'k) \<Rightarrow> ('k \<rightharpoonup> 'v) \<Rightarrow> bool" where
  "indexes key_of idx m \<longleftrightarrow> (\<forall>k i. idx k = Some i \<longleftrightarrow> (\<exists>e. m i = Some e \<and> key_of e = Some k))"

definition index_ok :: "('v \<Rightarrow> 'a option) \<Rightarrow> ('a \<times> 'k) list \<Rightarrow> ('k \<times> 'v) list \<Rightarrow> bool" where
  "index_ok key_of idx xs \<longleftrightarrow> distinct (map fst idx) \<and> indexes key_of (map_of idx) (map_of xs)"

lemma index_okD:
  "index_ok key_of idx xs \<Longrightarrow> map_of idx k = Some i \<Longrightarrow> \<exists>e. map_of xs i = Some e \<and> key_of e = Some k"
  unfolding index_ok_def indexes_def by blast

lemma index_okI:
  "index_ok key_of idx xs \<Longrightarrow> map_of xs i = Some e \<Longrightarrow> key_of e = Some k \<Longrightarrow> map_of idx k = Some i"
  unfolding index_ok_def indexes_def by blast

lemma index_empty [simp]: "index_ok key_of [] []"
  by (simp add: index_ok_def indexes_def)

lemma indexes_unique: "indexes key_of idx m \<Longrightarrow> m i = Some e \<Longrightarrow> key_of e = Some k \<Longrightarrow> m j = Some e' \<Longrightarrow> key_of e' = Some k \<Longrightarrow> i = j"
  unfolding indexes_def by (metis option.inject)

lemma indexes_change:
  assumes "indexes key_of idx m" "m i = Some e" "key_of e' = key_of e"
  shows "indexes key_of idx (m(i \<mapsto> e'))"
  using assms unfolding indexes_def by (metis fun_upd_apply option.inject)

lemma indexes_delete:
  assumes "indexes key_of idx m" "m i = Some e"
  shows "indexes key_of (case key_of e of None \<Rightarrow> idx | Some k \<Rightarrow> idx(k := None)) (m(i := None))"
proof (cases "key_of e")
  case None
  then show ?thesis using assms unfolding indexes_def by (metis fun_upd_apply option.distinct(1) option.inject option.simps(4))
next
  case (Some k)
  have at: "idx k' = Some j \<longleftrightarrow> (\<exists>e. m j = Some e \<and> key_of e = Some k')" for k' j
    using assms(1) unfolding indexes_def by blast
  have "(idx(k := None)) k' = Some j \<longleftrightarrow> (\<exists>e'. (m(i := None)) j = Some e' \<and> key_of e' = Some k')" for k' j
    using at [of k' j] at [of k i] assms(2) Some by (cases "k' = k"; cases "j = i") auto
  then show ?thesis using Some by (simp add: indexes_def)
qed

lemma indexes_insert:
  assumes "indexes key_of idx m" "m i = None" "\<And>k. key_of e = Some k \<Longrightarrow> idx k = None"
  shows "indexes key_of (case key_of e of None \<Rightarrow> idx | Some k \<Rightarrow> idx(k \<mapsto> i)) (m(i \<mapsto> e))"
proof (cases "key_of e")
  case None
  then show ?thesis using assms(1,2) unfolding indexes_def by (metis fun_upd_apply option.distinct(1) option.inject option.simps(4))
next
  case (Some k)
  have at: "idx k' = Some j \<longleftrightarrow> (\<exists>e. m j = Some e \<and> key_of e = Some k')" for k' j
    using assms(1) unfolding indexes_def by blast
  have "(idx(k \<mapsto> i)) k' = Some j \<longleftrightarrow> (\<exists>e'. (m(i \<mapsto> e)) j = Some e' \<and> key_of e' = Some k')" for k' j
    using at [of k' j] assms(2) assms(3) [OF Some] Some by (cases "k' = k"; cases "j = i") auto
  then show ?thesis using Some by (simp add: indexes_def)
qed

lemma index_modify:
  assumes "index_ok key_of idx xs" "\<And>e. map_of xs i = Some e \<Longrightarrow> key_of (g e) = key_of e"
  shows "index_ok key_of idx (AList.map_entry i g xs)"
proof (cases "map_of xs i")
  case None
  then have "map_of (AList.map_entry i g xs) = map_of xs" by (auto simp: fun_eq_iff simp del: map_of_eq_Some_iff)
  then show ?thesis using assms(1) by (simp add: index_ok_def)
next
  case (Some e)
  then have "map_of (AList.map_entry i g xs) = (map_of xs)(i \<mapsto> g e)" by (auto simp: fun_eq_iff simp del: map_of_eq_Some_iff)
  then show ?thesis using assms(1) indexes_change [of key_of _ _ i e "g e"] assms(2) [OF Some] Some by (simp add: index_ok_def)
qed

lemma index_delete:
  assumes "index_ok key_of idx xs" "map_of xs i = Some e"
  shows "index_ok key_of (case key_of e of None \<Rightarrow> idx | Some k \<Rightarrow> AList.delete k idx) (AList.delete i xs)"
  using indexes_delete [of key_of "map_of idx" "map_of xs" i e] assms
  by (cases "key_of e") (simp_all add: index_ok_def distinct_delete delete_conv' del: map_of_eq_Some_iff)

lemma index_insert:
  assumes "index_ok key_of idx xs" "map_of xs i = None" "\<And>k. key_of e = Some k \<Longrightarrow> map_of idx k = None"
  shows "index_ok key_of (case key_of e of None \<Rightarrow> idx | Some k \<Rightarrow> AList.update k i idx) (AList.update i e xs)"
  using indexes_insert [of key_of "map_of idx" "map_of xs" i e] assms
  by (cases "key_of e") (simp_all add: index_ok_def distinct_update update_conv' del: map_of_eq_Some_iff)

lemma index_bind:
  assumes "index_ok key_of idx xs" "map_of xs i = Some e" "key_of e = None" "key_of (g e) = Some k" "map_of idx k = None"
  shows "index_ok key_of (AList.update k i idx) (AList.map_entry i g xs)"
proof -
  have "indexes key_of (map_of idx) ((map_of xs)(i := None))"
    using indexes_delete [of key_of "map_of idx" "map_of xs" i e] assms(1-3) by (simp add: index_ok_def)
  from indexes_insert [OF this, of i "g e"] have "indexes key_of ((map_of idx)(k \<mapsto> i)) ((map_of xs)(i \<mapsto> g e))"
    using assms(4,5) by simp
  moreover have "map_of (AList.map_entry i g xs) = (map_of xs)(i \<mapsto> g e)" using assms(2) by (auto simp: fun_eq_iff simp del: map_of_eq_Some_iff)
  ultimately show ?thesis using assms(1) by (simp add: index_ok_def distinct_update update_conv')
qed

lemma index_unbind:
  assumes "index_ok key_of idx xs" "map_of xs i = Some e" "key_of e = Some k" "key_of (g e) = None"
  shows "index_ok key_of (AList.delete k idx) (AList.map_entry i g xs)"
proof -
  have "indexes key_of ((map_of idx)(k := None)) ((map_of xs)(i := None))"
    using indexes_delete [of key_of "map_of idx" "map_of xs" i e] assms(1-3) by (simp add: index_ok_def)
  from indexes_insert [OF this, of i "g e"] have "indexes key_of ((map_of idx)(k := None)) ((map_of xs)(i \<mapsto> g e))"
    using assms(4) by simp
  moreover have "map_of (AList.map_entry i g xs) = (map_of xs)(i \<mapsto> g e)" using assms(2) by (auto simp: fun_eq_iff simp del: map_of_eq_Some_iff)
  ultimately show ?thesis using assms(1) by (simp add: index_ok_def distinct_delete delete_conv')
qed

end
