(* ===== verification/Run_Registry.thy ===== *)
theory Run_Registry
  imports Native_Input "HOL-Library.Product_Lexorder"
begin

text \<open>
  The Run registry (\<^verbatim>\<open>crates/ctxmux-daemon/src/creation.rs\<close>): the single owner of the retained Runs,
  of the creation and Stop keys bound to them, and of the capacity a new Run needs before it may
  start.  \<open>registry_state\<close> is \<^verbatim>\<open>RegistryState\<close> under its lock; a \<^verbatim>\<open>HashMap\<close> is an association
  list with distinct keys, whose order is the (arbitrary) iteration order of the source.

  What the registry reads of a shared \<^verbatim>\<open>Run\<close> is the record \<open>reg_run\<close>.  Other owners change those
  facts (the Run exits, an attachment ends, its backend becomes quiescent) and clone or drop the
  \<^verbatim>\<open>Arc\<close>, so the strong count is a field of the entry.  Result cells of Stop operations are shared
  with the waiting connections; they live in the list \<open>rs_cells\<close> and a cell is named by its index.
  Rust layout sizes and the allocator's answers (\<^verbatim>\<open>try_reserve\<close>) are arguments.  \<open>None\<close> as a result
  is a panic (\<^verbatim>\<open>expect\<close>, \<^verbatim>\<open>assert\<close>); the theorems show there is none.
\<close>

section \<open>Runs as the registry sees them\<close>

datatype run_input_kind = WorkspaceInput | ArtifactInput | ContextInput

record run_spec =
  sp_program :: string
  sp_args :: "string list"
  sp_cwd :: "string option"
  sp_env :: "(string \<times> string) list"
  sp_initial_size :: terminal_size
  sp_declared_inputs :: "(run_input_kind \<times> string) list"

datatype fork_fidelity = LevelA | LevelB

record run_lineage =
  ln_parent :: run_id
  ln_fidelity :: fork_fidelity

datatype fork_plan = PlanLevelA | PlanLevelB run_spec

datatype creation_request = StartRequest run_spec | ForkRequest run_id fork_plan

datatype persistence_mode = MemoryOnly | PersistentCapable

text \<open>
  A backend owner by what it answers: \<^verbatim>\<open>closed_quiescence_result\<close>, and for a native owner also
  \<^verbatim>\<open>detach_closed_descriptors_after_owner_fence\<close>, which asks the same question once more.
\<close>

datatype run_control = NativeOwner "string + unit" "string + unit" | TmuxOwner "string + unit"

record reg_run =
  rn_id :: run_id
  rn_spec :: "run_spec option"
  rn_lineage :: "run_lineage option"
  rn_state :: run_state
  rn_attachments :: usize
  rn_terminal_ordinal :: "u64 option"
  rn_control :: "run_control option"
  rn_mode :: persistence_mode
  rn_durable_metadata :: "u64 option"
  rn_resident_metadata :: u64
  rn_live_permit :: bool

definition reg_running :: "reg_run \<Rightarrow> bool" where
  "reg_running r \<longleftrightarrow> rn_state r = Running"

definition is_ok :: "'e + 'a \<Rightarrow> bool" where
  "is_ok r = (case r of Inl _ \<Rightarrow> False | Inr _ \<Rightarrow> True)"

definition collection_ordinal :: "reg_run \<Rightarrow> u64 option" where
  "collection_ordinal r =
     (if reg_running r \<or> rn_attachments r \<noteq> 0 then None
      else case rn_terminal_ordinal r of
        None \<Rightarrow> None
      | Some ordinal \<Rightarrow>
          if (case rn_control r of
                Some (NativeOwner quiet _) \<Rightarrow> is_ok quiet
              | Some (TmuxOwner quiet) \<Rightarrow> is_ok quiet
              | None \<Rightarrow> rn_mode r = PersistentCapable)
          then Some ordinal else None)"

definition detach_collection_descriptors :: "reg_run \<Rightarrow> string + unit" where
  "detach_collection_descriptors r =
     (case rn_control r of
        Some (NativeOwner _ detach) \<Rightarrow> detach
      | Some (TmuxOwner quiet) \<Rightarrow> quiet
      | None \<Rightarrow> if rn_mode r = PersistentCapable then Inr () else Inl ''Run has no incarnation owner to collect'')"

definition native_capability :: "reg_run \<Rightarrow> protocol_error + unit" where
  "native_capability r =
     (case rn_control r of
        Some (NativeOwner _ _) \<Rightarrow> Inr ()
      | Some (TmuxOwner _) \<Rightarrow> Inl \<lparr>pe_code = UnsupportedCapability, pe_message = ''backend does not support native control''\<rparr>
      | None \<Rightarrow> Inl \<lparr>pe_code = InvalidRunState, pe_message = ''cannot control historical Run''\<rparr>)"

definition matches_run :: "creation_request \<Rightarrow> reg_run \<Rightarrow> bool" where
  "matches_run request r =
     (case (request, rn_spec r, rn_lineage r) of
        (StartRequest spec, Some run_spec, None) \<Rightarrow> spec = run_spec
      | (ForkRequest parent PlanLevelA, Some _, Some lineage) \<Rightarrow>
          ln_parent lineage = parent \<and> ln_fidelity lineage = LevelA
      | (ForkRequest parent (PlanLevelB spec), Some run_spec, Some lineage) \<Rightarrow>
          ln_parent lineage = parent \<and> ln_fidelity lineage = LevelB \<and> spec = run_spec
      | _ \<Rightarrow> False)"

section \<open>State\<close>

datatype stop_disposition = Graceful | Forced

datatype control_receipt =
    InputReceipt nat
  | ResizeReceipt terminal_size
  | SignalReceipt nat
  | StopReceipt stop_disposition

type_synonym control_result = "control_failure + control_receipt"

type_synonym operation_key = string

record stop_operation_record =
  so_key :: operation_key
  so_cell :: nat
  so_memory :: byte_permit

datatype registry_residency = Retained | Collecting nat | Removing

record registry_entry =
  re_run :: reg_run
  re_strong :: usize
  re_operation_key :: "operation_key option"
  re_stop_operation :: "stop_operation_record option"
  re_metadata_bytes :: "u64 option"
  re_metadata_charge :: u64
  re_residency :: registry_residency

record registry_reservation =
  rv_new_run_id :: run_id
  rv_operation_key :: "operation_key option"
  rv_request :: "creation_request option"
  rv_new_metadata_bytes :: "u64 option"
  rv_candidates :: "run_id list"

record registry_state =
  rs_runs :: "(run_id \<times> registry_entry) list"
  rs_creation_runs :: "(operation_key \<times> run_id) list"
  rs_stop_runs :: "(operation_key \<times> run_id) list"
  rs_reservations :: "(nat \<times> registry_reservation) list"
  rs_next_ticket :: u64
  rs_record_capacity :: usize
  rs_live_capacity :: usize
  rs_live_resources :: usize
  rs_metadata_capacity :: u64
  rs_retained_metadata_bytes :: u64
  rs_control_budget :: byte_budget
  rs_cells :: "control_result option list"

definition registry_new :: "usize option \<Rightarrow> usize option \<Rightarrow> u64 \<Rightarrow> u64 \<Rightarrow> registry_state" where
  "registry_new records live metadata control = \<lparr>rs_runs = [], rs_creation_runs = [], rs_stop_runs = [],
     rs_reservations = [], rs_next_ticket = 0,
     rs_record_capacity = (case records of None \<Rightarrow> USIZE_MAX | Some n \<Rightarrow> n),
     rs_live_capacity = (case live of None \<Rightarrow> USIZE_MAX | Some n \<Rightarrow> n), rs_live_resources = 0,
     rs_metadata_capacity = metadata, rs_retained_metadata_bytes = 0,
     rs_control_budget = budget_new control, rs_cells = []\<rparr>"

definition clamp_live_capacity :: "usize \<Rightarrow> registry_state \<Rightarrow> registry_state" where
  "clamp_live_capacity funded s = s\<lparr>rs_live_capacity := min (rs_live_capacity s) funded\<rparr>"

definition modify_entry :: "run_id \<Rightarrow> (registry_entry \<Rightarrow> registry_entry) \<Rightarrow> registry_state \<Rightarrow> registry_state" where
  "modify_entry i f s = s\<lparr>rs_runs := AList.map_entry i f (rs_runs s)\<rparr>"

definition protocol_err :: "error_code \<Rightarrow> string \<Rightarrow> protocol_error" where
  "protocol_err code msg = \<lparr>pe_code = code, pe_message = msg\<rparr>"

section \<open>Capacity\<close>

definition take_live_permit :: "registry_state \<Rightarrow> registry_state" where
  "take_live_permit s = s\<lparr>rs_live_resources := wrapping_add (rs_live_resources s) 1\<rparr>"

definition drop_live_permit :: "bool \<Rightarrow> registry_state \<Rightarrow> registry_state" where
  "drop_live_permit permit s = (if permit then s\<lparr>rs_live_resources := wrapping_sub (rs_live_resources s) 1\<rparr> else s)"

definition resources_closed :: "reg_run \<Rightarrow> bool" where
  "resources_closed r =
     (\<not> reg_running r \<and>
      (case rn_control r of
         Some (NativeOwner _ detach) \<Rightarrow> is_ok detach
       | Some (TmuxOwner quiet) \<Rightarrow> is_ok quiet
       | None \<Rightarrow> True))"

definition release_closed_resources :: "run_id \<Rightarrow> registry_state \<Rightarrow> registry_state" where
  "release_closed_resources i s =
     (case map_of (rs_runs s) i of
        None \<Rightarrow> s
      | Some e \<Rightarrow>
          if resources_closed (re_run e)
          then drop_live_permit (rn_live_permit (re_run e))
                 (modify_entry i (\<lambda>e. e\<lparr>re_run := re_run e\<lparr>rn_live_permit := False\<rparr>\<rparr>) s)
          else s)"

definition reserved_metadata :: "registry_state \<Rightarrow> registry_reservation \<Rightarrow> u64" where
  "reserved_metadata s v =
     (case rv_new_metadata_bytes v of
        None \<Rightarrow> 0
      | Some new_bytes \<Rightarrow>
          saturating_sub new_bytes
            (sum_list (map re_metadata_charge (List.map_filter (map_of (rs_runs s)) (rv_candidates v)))))"

definition projected_metadata_bytes :: "registry_state \<Rightarrow> u64" where
  "projected_metadata_bytes s =
     saturating_add (rs_retained_metadata_bytes s)
       (sum_list (map (reserved_metadata s \<circ> snd) (rs_reservations s)))"

definition projected_record_burden :: "registry_state \<Rightarrow> usize" where
  "projected_record_burden s = sum_list (map (\<lambda>(_, v). if rv_candidates v = [] then 1 else 0) (rs_reservations s))"

definition metadata_to_fund :: "u64 option \<Rightarrow> registry_state \<Rightarrow> u64" where
  "metadata_to_fund new_metadata_bytes s =
     (case new_metadata_bytes of
        None \<Rightarrow> 0
      | Some new_bytes \<Rightarrow>
          saturating_sub (saturating_add (projected_metadata_bytes s) new_bytes) (rs_metadata_capacity s))"

definition collection_key :: "u64 option \<Rightarrow> run_id \<times> registry_entry \<Rightarrow> (u64 \<times> run_id) option" where
  "collection_key new_metadata_bytes = (\<lambda>(i, e).
     if re_residency e \<noteq> Retained \<or> re_strong e \<noteq> 1 \<or> (new_metadata_bytes \<noteq> None \<and> re_metadata_bytes e = None)
     then None else map_option (\<lambda>ordinal. (ordinal, i)) (collection_ordinal (re_run e)))"

definition collection_order :: "u64 option \<Rightarrow> registry_state \<Rightarrow> run_id list" where
  "collection_order new_metadata_bytes s =
     map snd (sort (List.map_filter (collection_key new_metadata_bytes) (rs_runs s)))"

fun take_candidates ::
  "bool \<Rightarrow> u64 \<Rightarrow> (run_id \<Rightarrow> u64) \<Rightarrow> run_id list \<Rightarrow> run_id list \<times> u64 \<Rightarrow> run_id list \<times> u64" where
  "take_candidates needs_record to_fund charge [] (candidates, funded) = (candidates, funded)"
| "take_candidates needs_record to_fund charge (i # ordered) (candidates, funded) =
     (if (\<not> needs_record \<or> candidates \<noteq> []) \<and> funded \<ge> to_fund then (candidates, funded)
      else take_candidates needs_record to_fund charge ordered (candidates @ [i], saturating_add funded (charge i)))"

definition entry_charge :: "registry_state \<Rightarrow> run_id \<Rightarrow> u64" where
  "entry_charge s i = (case map_of (rs_runs s) i of None \<Rightarrow> 0 | Some e \<Rightarrow> re_metadata_charge e)"

text \<open>The number of entries scanned and the verdict.\<close>

definition select_publication_candidates ::
  "u64 option \<Rightarrow> registry_state \<Rightarrow> usize \<times> (protocol_error + run_id list)" where
  "select_publication_candidates new_metadata_bytes s =
     (let to_fund = metadata_to_fund new_metadata_bytes s;
          needs_record = length (rs_runs s) + projected_record_burden s \<ge> rs_record_capacity s
      in if \<not> needs_record \<and> to_fund = 0 then (0, Inr [])
         else let evaluated = length (rs_runs s);
                  (candidates, funded) = take_candidates needs_record to_fund (entry_charge s)
                    (collection_order new_metadata_bytes s) ([], 0)
              in if (needs_record \<and> candidates = []) \<or> funded < to_fund
                 then (evaluated, Inl (protocol_err RunCapacity ''retained Run capacity has no eligible exact replacement''))
                 else if length candidates > 1 \<and> list_ex (\<lambda>(_, v). length (rv_candidates v) > 1) (rs_reservations s)
                 then (evaluated, Inl (protocol_err BackendUnavailable ''persistent metadata replacement is already reserved''))
                 else (evaluated, Inr candidates))"

section \<open>Publication\<close>

datatype alloc_site = AllocRuns | AllocCreationKeys | AllocReplacement | AllocStopKeys

definition reserve_registry_insertion_capacity :: "(alloc_site \<Rightarrow> bool) \<Rightarrow> protocol_error + unit" where
  "reserve_registry_insertion_capacity alloc =
     and_then (require (alloc AllocRuns) (protocol_err InternalError ''failed to reserve Registry publication memory''))
       (\<lambda>_. require (alloc AllocCreationKeys) (protocol_err InternalError ''failed to reserve creation-key publication memory''))"

text \<open>\<^verbatim>\<open>PublicationReservation\<close>: its ticket, its live permit and the metadata it funded.\<close>

record publication_reservation =
  pr_ticket :: "nat option"
  pr_live_permit :: bool
  pr_metadata_bytes :: u64

fun restore_candidates :: "run_id list \<Rightarrow> registry_state \<Rightarrow> registry_state option" where
  "restore_candidates [] s = Some s"
| "restore_candidates (i # candidates) s =
     (case map_of (rs_runs s) i of
        None \<Rightarrow> None
      | Some _ \<Rightarrow> restore_candidates candidates (modify_entry i (\<lambda>e. e\<lparr>re_residency := Retained\<rparr>) s))"

definition restore_reservation :: "nat \<Rightarrow> registry_state \<Rightarrow> registry_state option" where
  "restore_reservation ticket s =
     (case map_of (rs_reservations s) ticket of
        None \<Rightarrow> Some s
      | Some v \<Rightarrow> restore_candidates (rv_candidates v) (s\<lparr>rs_reservations := AList.delete ticket (rs_reservations s)\<rparr>))"

fun fence_candidates :: "nat \<Rightarrow> run_id list \<Rightarrow> registry_state \<Rightarrow> registry_state option" where
  "fence_candidates ticket [] s = Some s"
| "fence_candidates ticket (i # candidates) s =
     (case map_of (rs_runs s) i of
        None \<Rightarrow> None
      | Some _ \<Rightarrow> fence_candidates ticket candidates (modify_entry i (\<lambda>e. e\<lparr>re_residency := Collecting ticket\<rparr>) s))"

definition admit_publication ::
  "(alloc_site \<Rightarrow> bool) \<Rightarrow> registry_reservation \<Rightarrow> registry_state
     \<Rightarrow> ((protocol_error + publication_reservation) \<times> registry_state) option" where
  "admit_publication alloc v s =
     (case checked_add (rs_next_ticket s) 1 of
        None \<Rightarrow> None
      | Some ticket \<Rightarrow>
          (case fence_candidates ticket (rv_candidates v) (s\<lparr>rs_next_ticket := ticket\<rparr>) of
             None \<Rightarrow> None
           | Some s \<Rightarrow>
               (let s = s\<lparr>rs_reservations := AList.update ticket v (rs_reservations s)\<rparr>
                in case for_each (detach_collection_descriptors \<circ> re_run)
                          (List.map_filter (map_of (rs_runs s)) (rv_candidates v)) of
                     Inl _ \<Rightarrow>
                       (case restore_reservation ticket s of
                          None \<Rightarrow> None
                        | Some s \<Rightarrow> Some (Inl (protocol_err InternalError ''failed to fence retained Run replacement''), s))
                   | Inr _ \<Rightarrow>
                       Some (Inr \<lparr>pr_ticket = Some ticket, pr_live_permit = True,
                                   pr_metadata_bytes = chosen (rv_new_metadata_bytes v) 0\<rparr>, take_live_permit s))))"

definition reclaim_closed_owners :: "registry_state \<Rightarrow> registry_state" where
  "reclaim_closed_owners s =
     (if rs_live_resources s \<ge> rs_live_capacity s then fold release_closed_resources (map fst (rs_runs s)) s else s)"

definition reserve_publication ::
  "(alloc_site \<Rightarrow> bool) \<Rightarrow> run_id \<Rightarrow> operation_key option \<Rightarrow> creation_request option \<Rightarrow> u64 option \<Rightarrow> registry_state
     \<Rightarrow> ((protocol_error + publication_reservation) \<times> registry_state) option" where
  "reserve_publication alloc new_run_id key request new_metadata_bytes s =
     (let s = reclaim_closed_owners s
      in if rs_live_resources s \<ge> rs_live_capacity s
         then Some (Inl (protocol_err RunCapacity ''physical live Run resources exhausted''), s)
         else case snd (select_publication_candidates new_metadata_bytes s) of
             Inl e \<Rightarrow> Some (Inl e, s)
           | Inr candidates \<Rightarrow>
               (case reserve_registry_insertion_capacity alloc of
                  Inl e \<Rightarrow> Some (Inl e, s)
                | Inr _ \<Rightarrow>
                    if \<not> alloc AllocReplacement
                    then Some (Inl (protocol_err InternalError ''failed to reserve Registry replacement memory''), s)
                    else admit_publication alloc \<lparr>rv_new_run_id = new_run_id, rv_operation_key = key, rv_request = request,
                           rv_new_metadata_bytes = new_metadata_bytes, rv_candidates = candidates\<rparr> s))"

definition reserve_memory_publication where
  "reserve_memory_publication alloc new_run_id key metadata =
     reserve_publication alloc new_run_id key None (Some metadata)"

definition reserve_persistent_publication where
  "reserve_persistent_publication run_owner_bytes alloc new_run_id key request metadata =
     reserve_publication alloc new_run_id (Some key) (Some request) (Some (saturating_add metadata run_owner_bytes))"

definition remove_registry_entry :: "run_id \<Rightarrow> registry_state \<Rightarrow> (registry_entry \<times> registry_state) option" where
  "remove_registry_entry i s =
     (case map_of (rs_runs s) i of
        None \<Rightarrow> None
      | Some removed \<Rightarrow>
          Some (removed, s\<lparr>rs_runs := AList.delete i (rs_runs s),
            rs_retained_metadata_bytes := saturating_sub (rs_retained_metadata_bytes s) (re_metadata_charge removed),
            rs_creation_runs := (case re_operation_key removed of
               None \<Rightarrow> rs_creation_runs s | Some key \<Rightarrow> AList.delete key (rs_creation_runs s)),
            rs_stop_runs := (case re_stop_operation removed of
               None \<Rightarrow> rs_stop_runs s | Some stop \<Rightarrow> AList.delete (so_key stop) (rs_stop_runs s))\<rparr>))"

fun remove_entries :: "run_id list \<Rightarrow> registry_state \<Rightarrow> (registry_entry list \<times> registry_state) option" where
  "remove_entries [] s = Some ([], s)"
| "remove_entries (i # candidates) s =
     (case remove_registry_entry i s of
        None \<Rightarrow> None
      | Some (e, s) \<Rightarrow> map_option (\<lambda>(es, s). (e # es, s)) (remove_entries candidates s))"

text \<open>Dropping a removed entry: its Stop receipt's memory, and the Run itself when this was its last owner.\<close>

definition drop_entry :: "registry_entry \<Rightarrow> registry_state \<Rightarrow> registry_state" where
  "drop_entry e s =
     (let s = (case re_stop_operation e of
                 None \<Rightarrow> s
               | Some stop \<Rightarrow> s\<lparr>rs_control_budget := permit_drop (rs_control_budget s) (so_memory stop)\<rparr>)
      in drop_live_permit (re_strong e = 1 \<and> rn_live_permit (re_run e)) s)"

definition consume_reservation ::
  "publication_reservation \<Rightarrow> registry_state
     \<Rightarrow> (registry_entry list \<times> operation_key option \<times> registry_state) option" where
  "consume_reservation owner s =
     (case pr_ticket owner of
        None \<Rightarrow> None
      | Some ticket \<Rightarrow>
          (case map_of (rs_reservations s) ticket of
             None \<Rightarrow> None
           | Some v \<Rightarrow>
               map_option (\<lambda>(removed, s). (removed, rv_operation_key v, s))
                 (remove_entries (rv_candidates v) (s\<lparr>rs_reservations := AList.delete ticket (rs_reservations s)\<rparr>))))"

definition publication_charge :: "u64 \<Rightarrow> reg_run \<Rightarrow> u64 \<Rightarrow> u64" where
  "publication_charge run_owner_bytes run memory_metadata_bytes =
     (if rn_mode run = PersistentCapable
      then chosen (rn_durable_metadata run) memory_metadata_bytes + run_owner_bytes + rn_resident_metadata run
      else memory_metadata_bytes)"

definition register_run ::
  "registry_entry \<Rightarrow> operation_key option \<Rightarrow> registry_state \<Rightarrow> registry_state" where
  "register_run e key s = s\<lparr>rs_retained_metadata_bytes := wrapping_add (rs_retained_metadata_bytes s) (re_metadata_charge e),
     rs_runs := AList.update (rn_id (re_run e)) e (rs_runs s),
     rs_creation_runs := (case key of None \<Rightarrow> rs_creation_runs s
        | Some key \<Rightarrow> AList.update key (rn_id (re_run e)) (rs_creation_runs s))\<rparr>"

text \<open>\<open>strong\<close> is the number of \<^verbatim>\<open>Arc\<close> owners the started Run has when it enters the registry.\<close>

definition publish_creation ::
  "u64 \<Rightarrow> operation_key \<Rightarrow> reg_run \<Rightarrow> usize \<Rightarrow> publication_reservation \<Rightarrow> registry_state
     \<Rightarrow> (reg_run \<times> registry_state) option" where
  "publish_creation run_owner_bytes key run strong owner s =
     (let memory_metadata_bytes = pr_metadata_bytes owner;
          run = run\<lparr>rn_live_permit := pr_live_permit owner\<rparr>
      in case consume_reservation owner s of
           None \<Rightarrow> None
         | Some (removed, entry_key, s) \<Rightarrow>
             (let e = \<lparr>re_run = run, re_strong = strong, re_operation_key = entry_key, re_stop_operation = None,
                       re_metadata_bytes = Some (chosen (rn_durable_metadata run) memory_metadata_bytes),
                       re_metadata_charge = publication_charge run_owner_bytes run memory_metadata_bytes,
                       re_residency = Retained\<rparr>
              in Some (run, fold drop_entry removed (register_run e (Some key) s))))"

definition publish_unkeyed ::
  "reg_run \<Rightarrow> usize \<Rightarrow> publication_reservation \<Rightarrow> registry_state \<Rightarrow> registry_state option" where
  "publish_unkeyed run strong owner s =
     (case consume_reservation owner s of
        None \<Rightarrow> None
      | Some (removed, _, s) \<Rightarrow>
          (let e = \<lparr>re_run = run\<lparr>rn_live_permit := pr_live_permit owner\<rparr>, re_strong = strong, re_operation_key = None,
                    re_stop_operation = None, re_metadata_bytes = Some (pr_metadata_bytes owner),
                    re_metadata_charge = pr_metadata_bytes owner, re_residency = Retained\<rparr>
           in Some (fold drop_entry removed (register_run e None s))))"

definition publication_drop :: "publication_reservation \<Rightarrow> registry_state \<Rightarrow> registry_state option" where
  "publication_drop owner s =
     map_option (drop_live_permit (pr_live_permit owner))
       (case pr_ticket owner of None \<Rightarrow> Some s | Some ticket \<Rightarrow> restore_reservation ticket s)"

record persistent_collection_candidate =
  cc_id :: run_id
  cc_operation_key :: operation_key
  cc_metadata_bytes :: u64

definition collection_candidate :: "registry_state \<Rightarrow> run_id \<Rightarrow> persistent_collection_candidate option" where
  "collection_candidate s i =
     (case map_of (rs_runs s) i of
        None \<Rightarrow> None
      | Some e \<Rightarrow>
          (case (re_operation_key e, re_metadata_bytes e) of
             (Some key, Some bytes) \<Rightarrow> Some \<lparr>cc_id = i, cc_operation_key = key, cc_metadata_bytes = bytes\<rparr>
           | _ \<Rightarrow> None))"

definition persistent_candidates ::
  "publication_reservation \<Rightarrow> registry_state \<Rightarrow> persistent_collection_candidate list option" where
  "persistent_candidates owner s =
     (case pr_ticket owner of
        None \<Rightarrow> None
      | Some ticket \<Rightarrow>
          (case map_of (rs_reservations s) ticket of
             None \<Rightarrow> None
           | Some v \<Rightarrow>
               (let found = map (collection_candidate s) (rv_candidates v)
                in if None \<in> set found then None else Some (map the found))))"

section \<open>Creation keys\<close>

definition MAX_CREATE_OPERATION_KEY_BYTES :: usize where
  "MAX_CREATE_OPERATION_KEY_BYTES = 128"

definition creation_entry :: "operation_key \<Rightarrow> registry_state \<Rightarrow> protocol_error + registry_entry option" where
  "creation_entry key s =
     (case map_of (rs_creation_runs s) key of
        None \<Rightarrow> Inr None
      | Some i \<Rightarrow>
          and_then (ok_or (protocol_err InternalError ''Run creation registry lost its retained Run'') (map_of (rs_runs s) i)) (\<lambda>e.
          and_then (require (re_operation_key e = Some key)
            (protocol_err InternalError ''Run creation registry lost its exact key owner'')) (\<lambda>_. Inr (Some e))))"

definition reserved_key :: "operation_key \<Rightarrow> registry_state \<Rightarrow> registry_reservation option" where
  "reserved_key key s = List.find (\<lambda>v. rv_operation_key v = Some key) (map snd (rs_reservations s))"

datatype creation_observation = ObservedRetained operation_key reg_run | NotRetained operation_key

definition observe_creation :: "operation_key \<Rightarrow> registry_state \<Rightarrow> protocol_error + creation_observation" where
  "observe_creation key s =
     (case operation_key_validate MAX_CREATE_OPERATION_KEY_BYTES key of
        Inl _ \<Rightarrow> Inl (protocol_err InvalidRequest ''invalid creation key'')
      | Inr _ \<Rightarrow>
          if reserved_key key s \<noteq> None
          then Inl (protocol_err BackendUnavailable ''Run creation is temporarily fenced by an unpublished Registry reservation'')
          else and_then (creation_entry key s) (\<lambda>found.
            case found of
              None \<Rightarrow> Inr (NotRetained key)
            | Some e \<Rightarrow>
                if re_residency e = Retained then Inr (ObservedRetained key (re_run e))
                else Inl (protocol_err BackendUnavailable ''Run creation is temporarily unavailable'')))"

definition resolve_creation_info ::
  "operation_key \<Rightarrow> creation_request \<Rightarrow> registry_state \<Rightarrow> protocol_error + reg_run option" where
  "resolve_creation_info key request s =
     (case reserved_key key s of
        Some v \<Rightarrow>
          Inl (case rv_request v of
                 Some owned \<Rightarrow>
                   if owned = request
                   then protocol_err BackendUnavailable ''Run creation is temporarily fenced by an unpublished Registry reservation''
                   else protocol_err CreationConflict ''Run creation operation key is reserved for a different request''
               | None \<Rightarrow> protocol_err BackendUnavailable ''Run creation is temporarily fenced by an unpublished Registry reservation'')
      | None \<Rightarrow>
          and_then (creation_entry key s) (\<lambda>found.
            case found of
              None \<Rightarrow> Inr None
            | Some e \<Rightarrow>
                if \<not> matches_run request (re_run e)
                then Inl (protocol_err CreationConflict ''Run creation operation key is already bound to a different request'')
                else if re_residency e = Retained then Inr (Some (re_run e))
                else Inl (protocol_err BackendUnavailable ''Run creation is temporarily unavailable'')))"

section \<open>Pins and removal\<close>

definition pin :: "run_id \<Rightarrow> registry_state \<Rightarrow> (protocol_error + run_id option) \<times> registry_state" where
  "pin i s =
     (case map_of (rs_runs s) i of
        None \<Rightarrow> (Inr None, s)
      | Some e \<Rightarrow>
          if re_residency e = Retained
          then (Inr (Some i), modify_entry i (\<lambda>e. e\<lparr>re_strong := re_strong e + 1\<rparr>) s)
          else (Inl (protocol_err BackendUnavailable ''Run is temporarily unavailable''), s))"

definition validate_removable_entry :: "run_id \<Rightarrow> registry_state \<Rightarrow> protocol_error + registry_entry" where
  "validate_removable_entry i s =
     (case map_of (rs_runs s) i of
        None \<Rightarrow> Inl (protocol_err RunNotFound ''Run does not exist'')
      | Some e \<Rightarrow>
          if re_residency e \<noteq> Retained then Inl (protocol_err BackendUnavailable ''Run is already being replaced or removed'')
          else if reg_running (re_run e) then Inl (protocol_err InvalidRunState ''Run is still running; stop it before removing'')
          else if re_strong e \<noteq> 1 then Inl (protocol_err BackendUnavailable ''Run is attached or in use and cannot be removed'')
          else if collection_ordinal (re_run e) = None
          then Inl (protocol_err BackendUnavailable ''Run has not reached collectable quiescence'')
          else Inr e)"

definition take_removable_entry ::
  "run_id \<Rightarrow> registry_state \<Rightarrow> ((protocol_error + registry_entry) \<times> registry_state) option" where
  "take_removable_entry i s =
     (case validate_removable_entry i s of
        Inl e \<Rightarrow> Some (Inl e, s)
      | Inr e \<Rightarrow>
          (case detach_collection_descriptors (re_run e) of
             Inl _ \<Rightarrow> Some (Inl (protocol_err InternalError ''failed to detach Run descriptors for removal''), s)
           | Inr _ \<Rightarrow> map_option (\<lambda>(removed, s). (Inr removed, s)) (remove_registry_entry i s)))"

definition remove_memory :: "run_id \<Rightarrow> registry_state \<Rightarrow> ((protocol_error + unit) \<times> registry_state) option" where
  "remove_memory i s =
     map_option (\<lambda>(r, s). case r of Inl e \<Rightarrow> (Inl e, s) | Inr e \<Rightarrow> (Inr (), drop_entry e s)) (take_removable_entry i s)"

definition begin_persistent_removal ::
  "run_id \<Rightarrow> registry_state \<Rightarrow> (protocol_error + persistent_collection_candidate) \<times> registry_state" where
  "begin_persistent_removal i s =
     (case validate_removable_entry i s of
        Inl e \<Rightarrow> (Inl e, s)
      | Inr e \<Rightarrow>
          (case re_operation_key e of
             None \<Rightarrow> (Inl (protocol_err InternalError ''persistent Run has no exact creation key to remove''), s)
           | Some key \<Rightarrow>
               (case re_metadata_bytes e of
                  None \<Rightarrow> (Inl (protocol_err InternalError ''persistent Run has no durable metadata accounting''), s)
                | Some bytes \<Rightarrow>
                    (case detach_collection_descriptors (re_run e) of
                       Inl _ \<Rightarrow> (Inl (protocol_err InternalError ''failed to fence Run for removal''), s)
                     | Inr _ \<Rightarrow>
                         (Inr \<lparr>cc_id = i, cc_operation_key = key, cc_metadata_bytes = bytes\<rparr>,
                          modify_entry i (\<lambda>e. e\<lparr>re_residency := Removing\<rparr>) s)))))"

definition removal_commit :: "run_id \<Rightarrow> registry_state \<Rightarrow> registry_state option" where
  "removal_commit i s = map_option (\<lambda>(e, s). drop_entry e s) (remove_registry_entry i s)"

definition removal_drop :: "run_id \<Rightarrow> registry_state \<Rightarrow> registry_state" where
  "removal_drop i s = modify_entry i (\<lambda>e. e\<lparr>re_residency := Retained\<rparr>) s"

section \<open>Recoverable Stop operations\<close>

definition MAX_STOP_OPERATION_KEY_BYTES :: usize where
  "MAX_STOP_OPERATION_KEY_BYTES = 128"

definition stop_receipt_charge :: "usize \<Rightarrow> operation_key \<Rightarrow> usize" where
  "stop_receipt_charge owner_bytes key = length key * 2 + owner_bytes + INPUT_RESULT_DIAGNOSTIC_RESERVE_BYTES"

record recoverable_stop_flight =
  rf_run :: run_id
  rf_cell :: nat

record recoverable_stop_settlement =
  ss_id :: run_id
  ss_key :: operation_key
  ss_cell :: nat

datatype recoverable_stop_admission =
    StopOwner recoverable_stop_flight recoverable_stop_settlement
  | StopRetry recoverable_stop_flight

definition stop_operation_conflict :: "string \<Rightarrow> control_failure" where
  "stop_operation_conflict msg = not_applied StopOperationConflict msg"

text \<open>The key is bound already: the same Run gets a flight on the same cell.\<close>

definition retry_stop ::
  "run_id \<Rightarrow> operation_key \<Rightarrow> registry_state \<Rightarrow> (control_failure + recoverable_stop_admission) \<times> registry_state" where
  "retry_stop i key s =
     (case map_of (rs_runs s) i of
        None \<Rightarrow> (Inl (not_applied InternalError ''native Stop key index lost its retained Run''), s)
      | Some e \<Rightarrow>
          if re_residency e \<noteq> Retained then (Inl (not_applied BackendUnavailable ''Run is being collected''), s)
          else (case re_stop_operation e of
             None \<Rightarrow> (Inl (not_applied InternalError ''native Stop key index lost its per-Run operation''), s)
           | Some record \<Rightarrow>
               if so_key record \<noteq> key
               then (Inl (not_applied InternalError ''native Stop key index disagrees with its per-Run operation''), s)
               else (Inr (StopRetry \<lparr>rf_run = i, rf_cell = so_cell record\<rparr>),
                     modify_entry i (\<lambda>e. e\<lparr>re_strong := re_strong e + 1\<rparr>) s)))"

definition bind_stop ::
  "usize \<Rightarrow> run_id \<Rightarrow> operation_key \<Rightarrow> registry_entry \<Rightarrow> registry_state
     \<Rightarrow> (control_failure + recoverable_stop_admission) \<times> registry_state" where
  "bind_stop owner_bytes i key e s =
     (case reserve (rs_control_budget s) (stop_receipt_charge owner_bytes key) of
        None \<Rightarrow> (Inl (not_applied ControlBackpressure ''control_state_bytes cannot fund a Stop receipt''), s)
      | Some (budget, memory) \<Rightarrow>
          (case native_capability (re_run e) of
             Inl error \<Rightarrow> (Inl (not_applied_error error), s\<lparr>rs_control_budget := permit_drop budget memory\<rparr>)
           | Inr _ \<Rightarrow>
               (let cell = length (rs_cells s)
                in (Inr (StopOwner \<lparr>rf_run = i, rf_cell = cell\<rparr> \<lparr>ss_id = i, ss_key = key, ss_cell = cell\<rparr>),
                    modify_entry i (\<lambda>e. e\<lparr>re_stop_operation := Some \<lparr>so_key = key, so_cell = cell, so_memory = memory\<rparr>,
                                           re_strong := re_strong e + 2\<rparr>)
                      (s\<lparr>rs_control_budget := budget, rs_cells := rs_cells s @ [None],
                         rs_stop_runs := AList.update key i (rs_stop_runs s)\<rparr>)))))"

definition begin_recoverable_stop ::
  "(alloc_site \<Rightarrow> bool) \<Rightarrow> usize \<Rightarrow> run_id \<Rightarrow> operation_key \<Rightarrow> registry_state
     \<Rightarrow> (control_failure + recoverable_stop_admission) \<times> registry_state" where
  "begin_recoverable_stop alloc owner_bytes i key s =
     (case operation_key_validate MAX_STOP_OPERATION_KEY_BYTES key of
        Inl _ \<Rightarrow> (Inl (not_applied InvalidRequest ''invalid Stop key''), s)
      | Inr _ \<Rightarrow>
          (case map_of (rs_stop_runs s) key of
             Some bound_id \<Rightarrow>
               if bound_id \<noteq> i
               then (Inl (stop_operation_conflict ''native Stop operation key is already bound to another Run''), s)
               else retry_stop i key s
           | None \<Rightarrow>
               (case map_of (rs_runs s) i of
                  None \<Rightarrow> (Inl (not_applied RunNotFound ''Run does not exist''), s)
                | Some e \<Rightarrow>
                    if re_residency e \<noteq> Retained then (Inl (not_applied BackendUnavailable ''Run is being collected''), s)
                    else if re_stop_operation e \<noteq> None
                    then (Inl (stop_operation_conflict ''Run already belongs to another native Stop operation''), s)
                    else if \<not> alloc AllocStopKeys
                    then (Inl (not_applied InternalError ''failed to reserve native Stop key ownership''), s)
                    else bind_stop owner_bytes i key e s)))"

definition not_applied_result :: "control_result \<Rightarrow> bool" where
  "not_applied_result result = (case result of Inl failure \<Rightarrow> cf_disposition failure = NotApplied | Inr _ \<Rightarrow> False)"

text \<open>Settling also ends the settlement's own \<^verbatim>\<open>Arc\<close> of the Run.\<close>

definition settle_recoverable_stop ::
  "recoverable_stop_settlement \<Rightarrow> control_result \<Rightarrow> registry_state \<Rightarrow> registry_state option" where
  "settle_recoverable_stop settlement result s =
     (let i = ss_id settlement; key = ss_key settlement
      in case map_of (rs_runs s) i of
           None \<Rightarrow> None
         | Some e \<Rightarrow>
             (case re_stop_operation e of
                None \<Rightarrow> None
              | Some record \<Rightarrow>
                  if so_key record \<noteq> key \<or> so_cell record \<noteq> ss_cell settlement then None
                  else
                    let s = (if not_applied_result result
                             then (modify_entry i (\<lambda>e. e\<lparr>re_stop_operation := None\<rparr>) s)
                                    \<lparr>rs_stop_runs := AList.delete key (rs_stop_runs s),
                                     rs_control_budget := permit_drop (rs_control_budget s) (so_memory record)\<rparr>
                             else s)
                    in Some (modify_entry i (\<lambda>e. e\<lparr>re_strong := re_strong e - 1\<rparr>)
                               (s\<lparr>rs_cells := (rs_cells s)[ss_cell settlement := Some result]\<rparr>))))"

section \<open>Stop receipts across an exec\<close>

datatype handoff_stop_outcome = StopAccepted stop_disposition | StopUnknown control_failure

record handoff_stop_operation =
  ho_run_id :: run_id
  ho_operation_key :: operation_key
  ho_outcome :: handoff_stop_outcome

definition handoff_stop_validate :: "handoff_stop_operation \<Rightarrow> string + unit" where
  "handoff_stop_validate operation =
     (case operation_key_validate MAX_STOP_OPERATION_KEY_BYTES (ho_operation_key operation) of
        Inl _ \<Rightarrow> Inl ''invalid handoff native Stop key''
      | Inr _ \<Rightarrow>
          (case ho_outcome operation of
             StopUnknown failure \<Rightarrow>
               require (cf_disposition failure = DispositionUnknown) ''handoff native Stop failure has a non-unknown disposition''
           | StopAccepted _ \<Rightarrow> Inr ()))"

definition stop_diagnostic_bytes :: "handoff_stop_operation \<Rightarrow> usize" where
  "stop_diagnostic_bytes operation =
     (case ho_outcome operation of
        StopUnknown failure \<Rightarrow> length (pe_message (cf_error failure)) | StopAccepted _ \<Rightarrow> 0)"

definition stop_control_memory_bytes :: "usize \<Rightarrow> handoff_stop_operation \<Rightarrow> u64" where
  "stop_control_memory_bytes owner_bytes operation =
     saturating_add (stop_receipt_charge owner_bytes (ho_operation_key operation))
       (saturating_sub (stop_diagnostic_bytes operation) INPUT_RESULT_DIAGNOSTIC_RESERVE_BYTES)"

definition outcome_into_result :: "handoff_stop_outcome \<Rightarrow> control_result" where
  "outcome_into_result outcome =
     (case outcome of StopAccepted disposition \<Rightarrow> Inr (StopReceipt disposition) | StopUnknown failure \<Rightarrow> Inl failure)"

definition settled :: "registry_state \<Rightarrow> nat \<Rightarrow> control_result option" where
  "settled s cell = (if cell < length (rs_cells s) then rs_cells s ! cell else None)"

definition handoff_entry :: "registry_state \<Rightarrow> run_id \<times> registry_entry \<Rightarrow> string + handoff_stop_operation option" where
  "handoff_entry s = (\<lambda>(i, e).
     case re_stop_operation e of
       None \<Rightarrow> Inr None
     | Some record \<Rightarrow>
         if re_residency e \<noteq> Retained then Inl ''native Stop operation is crossing collection at handoff''
         else and_then (ok_or ''pending recoverable Stop at handoff'' (settled s (so_cell record))) (\<lambda>result.
              and_then (case result of
                  Inr (StopReceipt disposition) \<Rightarrow> Inr (StopAccepted disposition)
                | Inr _ \<Rightarrow> Inl ''native Stop ledger retained another receipt kind''
                | Inl failure \<Rightarrow>
                    if cf_disposition failure = DispositionUnknown then Inr (StopUnknown failure)
                    else Inl ''native Stop ledger retained a not-applied result'') (\<lambda>outcome.
              let operation = \<lparr>ho_run_id = i, ho_operation_key = so_key record, ho_outcome = outcome\<rparr>
              in and_then (handoff_stop_validate operation) (\<lambda>_. Inr (Some operation)))))"

fun collect_operations ::
  "registry_state \<Rightarrow> (run_id \<times> registry_entry) list \<Rightarrow> string + handoff_stop_operation list" where
  "collect_operations s [] = Inr []"
| "collect_operations s (x # xs) =
     and_then (handoff_entry s x) (\<lambda>found.
     and_then (collect_operations s xs) (\<lambda>operations.
       Inr (case found of None \<Rightarrow> operations | Some operation \<Rightarrow> operation # operations)))"

definition handoff_stop_operations :: "registry_state \<Rightarrow> string + handoff_stop_operation list" where
  "handoff_stop_operations s =
     and_then (collect_operations s (rs_runs s)) (\<lambda>operations. Inr (sort_key ho_run_id operations))"

fun check_stop_operations ::
  "run_id list \<Rightarrow> operation_key list \<Rightarrow> registry_state \<Rightarrow> handoff_stop_operation list \<Rightarrow> protocol_error + unit" where
  "check_stop_operations ids keys s [] = Inr ()"
| "check_stop_operations ids keys s (operation # operations) =
     (case handoff_stop_validate operation of
        Inl msg \<Rightarrow> Inl (protocol_err InvalidRequest msg)
      | Inr _ \<Rightarrow>
          if ho_run_id operation \<in> set ids
          then Inl (protocol_err InvalidRequest ''handoff native Stop ledger contains a duplicate Run'')
          else if ho_operation_key operation \<in> set keys
          then Inl (protocol_err InvalidRequest ''handoff native Stop ledger contains a duplicate key'')
          else case map_of (rs_runs s) (ho_run_id operation) of
              None \<Rightarrow> Inl (protocol_err InvalidRequest ''handoff native Stop ledger names an unknown retained Run'')
            | Some e \<Rightarrow>
                if re_stop_operation e \<noteq> None
                then Inl (protocol_err InvalidRequest ''handoff native Stop ledger duplicates a restored operation'')
                else check_stop_operations (ho_run_id operation # ids) (ho_operation_key operation # keys) s operations)"

definition restore_stop ::
  "usize \<Rightarrow> handoff_stop_operation \<Rightarrow> registry_state \<Rightarrow> ((protocol_error + unit) \<times> registry_state) option" where
  "restore_stop owner_bytes operation s =
     (case usize_try_from (stop_control_memory_bytes owner_bytes operation) of
        None \<Rightarrow> Some (Inl (protocol_err InvalidRequest ''handed-off Stop control charge does not fit host''), s)
      | Some charge \<Rightarrow>
          (case reserve (rs_control_budget s) charge of
             None \<Rightarrow> Some (Inl (protocol_err InvalidRequest ''handed-off Stop control state exceeds preserved policy''), s)
           | Some (budget, memory) \<Rightarrow>
               (let i = ho_run_id operation; key = ho_operation_key operation; cell = length (rs_cells s)
                in case map_of (rs_runs s) i of
                     None \<Rightarrow> None
                   | Some _ \<Rightarrow>
                       Some (Inr (), modify_entry i
                         (\<lambda>e. e\<lparr>re_stop_operation := Some \<lparr>so_key = key, so_cell = cell, so_memory = memory\<rparr>\<rparr>)
                         (s\<lparr>rs_control_budget := budget,
                            rs_cells := rs_cells s @ [Some (outcome_into_result (ho_outcome operation))],
                            rs_stop_runs := AList.update key i (rs_stop_runs s)\<rparr>)))))"

fun restore_stops ::
  "usize \<Rightarrow> handoff_stop_operation list \<Rightarrow> registry_state \<Rightarrow> ((protocol_error + unit) \<times> registry_state) option" where
  "restore_stops owner_bytes [] s = Some (Inr (), s)"
| "restore_stops owner_bytes (operation # operations) s =
     (case restore_stop owner_bytes operation s of
        None \<Rightarrow> None
      | Some (Inl e, s) \<Rightarrow> Some (Inl e, s)
      | Some (Inr _, s) \<Rightarrow> restore_stops owner_bytes operations s)"

definition restore_handoff_stop_operations ::
  "(alloc_site \<Rightarrow> bool) \<Rightarrow> usize \<Rightarrow> handoff_stop_operation list \<Rightarrow> registry_state
     \<Rightarrow> ((protocol_error + unit) \<times> registry_state) option" where
  "restore_handoff_stop_operations alloc owner_bytes operations s =
     (case check_stop_operations [] [] s operations of
        Inl e \<Rightarrow> Some (Inl e, s)
      | Inr _ \<Rightarrow>
          if \<not> alloc AllocStopKeys
          then Some (Inl (protocol_err InternalError ''failed to reserve handed-off native Stop keys''), s)
          else restore_stops owner_bytes operations s)"

section \<open>Recovery and listing\<close>

text \<open>A recovered Run: its key, its facts and its durable metadata.\<close>

definition recover_run ::
  "u64 \<Rightarrow> operation_key \<times> reg_run \<times> u64 \<Rightarrow> registry_state \<Rightarrow> registry_state" where
  "recover_run run_owner_bytes = (\<lambda>(key, run, metadata) s.
     let live = reg_running run;
         run = (if live then run\<lparr>rn_live_permit := True\<rparr> else run);
         s = (if live then take_live_permit s else s);
         charge = metadata + run_owner_bytes + rn_resident_metadata run
     in register_run \<lparr>re_run = run, re_strong = 1, re_operation_key = Some key, re_stop_operation = None,
          re_metadata_bytes = Some metadata, re_metadata_charge = charge, re_residency = Retained\<rparr> (Some key) s)"

definition recovered_with_resources ::
  "u64 \<Rightarrow> (operation_key \<times> reg_run \<times> u64) list \<Rightarrow> registry_state \<Rightarrow> registry_state" where
  "recovered_with_resources run_owner_bytes runs s = fold (recover_run run_owner_bytes) runs s"

text \<open>
  One page of ids in ascending order.  \<open>select_nth\<close> is \<^verbatim>\<open>slice::select_nth_unstable\<close>: which permutation
  it leaves is not specified.
\<close>

definition page_ids :: "(nat \<Rightarrow> run_id list \<Rightarrow> run_id list) \<Rightarrow> run_id option \<Rightarrow> usize \<Rightarrow> run_id list \<Rightarrow> run_id list \<times> bool" where
  "page_ids select_nth after limit keys =
     (let ids = filter (\<lambda>i. case after of None \<Rightarrow> True | Some cursor \<Rightarrow> i > cursor) keys;
          lookahead = saturating_add limit 1;
          ids = (if length ids > lookahead then take lookahead (select_nth limit ids) else ids);
          ids = sort ids
      in (take limit ids, length ids > limit))"

definition list_summaries_after ::
  "(nat \<Rightarrow> run_id list \<Rightarrow> run_id list) \<Rightarrow> run_id option \<Rightarrow> usize \<Rightarrow> registry_state \<Rightarrow> reg_run list \<times> bool" where
  "list_summaries_after select_nth after limit s =
     (let (ids, has_more) = page_ids select_nth after limit (map fst (rs_runs s))
      in (map re_run (List.map_filter (map_of (rs_runs s)) ids), has_more))"

definition LIST_MAX_PAGE_RUNS :: usize where
  "LIST_MAX_PAGE_RUNS = 512"

definition clamp_list_limit :: "nat option \<Rightarrow> usize" where
  "clamp_list_limit limit =
     (case limit of None \<Rightarrow> LIST_MAX_PAGE_RUNS
      | Some n \<Rightarrow> if n = 0 then LIST_MAX_PAGE_RUNS else min n LIST_MAX_PAGE_RUNS)"

definition list_runs ::
  "(nat \<Rightarrow> run_id list \<Rightarrow> run_id list) \<Rightarrow> run_id option \<Rightarrow> nat option \<Rightarrow> registry_state \<Rightarrow> reg_run list \<times> run_id option" where
  "list_runs select_nth after limit s =
     (let (runs, has_more) = list_summaries_after select_nth after (clamp_list_limit limit) s
      in (runs, if has_more \<and> runs \<noteq> [] then Some (rn_id (List.last runs)) else None))"

end
