(* ===== verification/Registry_Invariant.thy ===== *)
theory Registry_Invariant
  imports Run_Registry Assoc_Lists
begin

text \<open>
  The registry under concurrency: its owners (publication reservations, unresolved fences, Stop
  settlements, durable removals) and the steps they and the Runs themselves take in any order, the
  invariant those steps keep, and what follows for capacity, creation keys and Stop operations.
\<close>

section \<open>Quantities and parts of the invariant\<close>

abbreviation permit_of :: "registry_entry \<Rightarrow> nat" where
  "permit_of e \<equiv> of_bool (rn_live_permit (re_run e))"

definition memory_of :: "registry_entry \<Rightarrow> nat" where
  "memory_of e = (case re_stop_operation e of None \<Rightarrow> 0 | Some r \<Rightarrow> so_memory r)"

definition stop_key :: "registry_entry \<Rightarrow> operation_key option" where
  "stop_key e = map_option so_key (re_stop_operation e)"

definition csum :: "(registry_entry \<Rightarrow> nat) \<Rightarrow> (run_id \<times> registry_entry) list \<Rightarrow> run_id list \<Rightarrow> nat" where
  "csum f xs is = sum_list (map (\<lambda>i. case map_of xs i of None \<Rightarrow> 0 | Some e \<Rightarrow> f e) is)"

lemma csum_simps [simp]: "csum f xs [] = 0" "csum f xs (i # is) = (case map_of xs i of None \<Rightarrow> 0 | Some e \<Rightarrow> f e) + csum f xs is"
  by (simp_all add: csum_def)

lemma csum_cong: "(\<And>i. i \<in> set is \<Longrightarrow> map_option f (map_of xs i) = map_option f (map_of ys i)) \<Longrightarrow> csum f xs is = csum f ys is"
proof (induction "is")
  case (Cons i "is")
  have "map_option f (map_of xs i) = map_option f (map_of ys i)" using Cons.prems by simp
  then have "(case map_of xs i of None \<Rightarrow> 0 | Some e \<Rightarrow> f e) = (case map_of ys i of None \<Rightarrow> 0 | Some e \<Rightarrow> f e)"
    by (cases "map_of xs i"; cases "map_of ys i") auto
  then show ?case using Cons by simp
qed simp

definition entries_ok :: "registry_state \<Rightarrow> bool" where
  "entries_ok s \<longleftrightarrow> distinct (map fst (rs_runs s))
     \<and> (\<forall>i e. map_of (rs_runs s) i = Some e \<longrightarrow> rn_id (re_run e) = i \<and> 1 \<le> re_strong e)"

definition keys_ok :: "registry_state \<Rightarrow> bool" where
  "keys_ok s \<longleftrightarrow> index_ok re_operation_key (rs_creation_runs s) (rs_runs s)
     \<and> index_ok stop_key (rs_stop_runs s) (rs_runs s)"

text \<open>Fences: an entry is being collected exactly when one reservation names it.\<close>

definition reservation_ok :: "registry_state \<Rightarrow> nat \<Rightarrow> registry_reservation \<Rightarrow> bool" where
  "reservation_ok s t v \<longleftrightarrow> t \<le> rs_next_ticket s \<and> distinct (rv_candidates v) \<and> rv_new_metadata_bytes v \<noteq> None
     \<and> map_of (rs_runs s) (rv_new_run_id v) = None
     \<and> (\<forall>k. rv_operation_key v = Some k \<longrightarrow> map_of (rs_creation_runs s) k = None)
     \<and> (\<forall>i\<in>set (rv_candidates v). \<exists>e. map_of (rs_runs s) i = Some e \<and> re_residency e = Collecting t)"

definition apart :: "(nat \<rightharpoonup> registry_reservation) \<Rightarrow> bool" where
  "apart m \<longleftrightarrow> (\<forall>t v t' v'. m t = Some v \<longrightarrow> m t' = Some v' \<longrightarrow> t \<noteq> t'
     \<longrightarrow> rv_new_run_id v \<noteq> rv_new_run_id v' \<and> (rv_operation_key v = rv_operation_key v' \<longrightarrow> rv_operation_key v = None))"

definition fenced :: "(nat \<rightharpoonup> registry_reservation) \<Rightarrow> (run_id \<rightharpoonup> registry_entry) \<Rightarrow> bool" where
  "fenced m runs \<longleftrightarrow> (\<forall>i e t. runs i = Some e \<longrightarrow> re_residency e = Collecting t
     \<longrightarrow> (\<exists>v. m t = Some v \<and> i \<in> set (rv_candidates v)))"

definition fences_ok :: "registry_state \<Rightarrow> bool" where
  "fences_ok s \<longleftrightarrow> distinct (map fst (rs_reservations s))
     \<and> (\<forall>t v. map_of (rs_reservations s) t = Some v \<longrightarrow> reservation_ok s t v)
     \<and> apart (map_of (rs_reservations s)) \<and> fenced (map_of (rs_reservations s)) (map_of (rs_runs s))"

abbreviation burden_of :: "registry_reservation \<Rightarrow> nat" where
  "burden_of v \<equiv> of_bool (rv_candidates v = [])"

definition accounts_ok :: "registry_state \<Rightarrow> bool" where
  "accounts_ok s \<longleftrightarrow> rs_retained_metadata_bytes s = asum re_metadata_charge (rs_runs s)
     \<and> rs_retained_metadata_bytes s + asum (reserved_metadata s) (rs_reservations s) \<le> rs_metadata_capacity s
     \<and> rs_metadata_capacity s \<le> U64_MAX
     \<and> length (rs_runs s) + asum burden_of (rs_reservations s) \<le> rs_record_capacity s"

lemma burden_asum: "projected_record_burden s = asum burden_of (rs_reservations s)"
  unfolding projected_record_burden_def asum_def by (rule arg_cong [of _ _ sum_list], rule map_cong) auto

lemma reserved_csum:
  "reserved_metadata s v = (case rv_new_metadata_bytes v of None \<Rightarrow> 0 | Some n \<Rightarrow> n - csum re_metadata_charge (rs_runs s) (rv_candidates v))"
  by (simp add: reserved_metadata_def csum_def map_filter_lookups saturating_sub_def split: option.splits)

lemma reserved_cong:
  "(\<And>i. i \<in> set (rv_candidates v) \<Longrightarrow> map_option re_metadata_charge (map_of (rs_runs s) i) = map_option re_metadata_charge (map_of (rs_runs t) i))
   \<Longrightarrow> reserved_metadata s v = reserved_metadata t v"
  using csum_cong [of "rv_candidates v" re_metadata_charge "rs_runs s" "rs_runs t"] by (simp add: reserved_csum split: option.splits)

lemma projected_eq:
  "accounts_ok s \<Longrightarrow> projected_metadata_bytes s = rs_retained_metadata_bytes s + asum (reserved_metadata s) (rs_reservations s)"
  unfolding projected_metadata_bytes_def accounts_ok_def asum_def by simp

section \<open>Bulk changes of the table\<close>

definition resid :: "registry_residency \<Rightarrow> run_id list \<Rightarrow> (run_id \<times> registry_entry) list \<Rightarrow> (run_id \<times> registry_entry) list" where
  "resid x is xs = fold (\<lambda>i. AList.map_entry i (\<lambda>e. e\<lparr>re_residency := x\<rparr>)) is xs"

lemma resid_simps [simp]:
  "resid x [] xs = xs"
  "resid x (i # is) xs = resid x is (AList.map_entry i (\<lambda>e. e\<lparr>re_residency := x\<rparr>) xs)"
  by (simp_all add: resid_def)

lemma keys_resid [simp]: "map fst (resid x is xs) = map fst xs"
  by (induction "is" arbitrary: xs) auto

lemma length_resid [simp]: "length (resid x is xs) = length xs"
  by (induction "is" arbitrary: xs) auto

lemma map_of_resid:
  "map_of (resid x is xs) i = (if i \<in> set is then map_option (\<lambda>e. e\<lparr>re_residency := x\<rparr>) (map_of xs i) else map_of xs i)"
  by (induction "is" arbitrary: xs) (auto simp: option.map_comp comp_def simp del: map_of_eq_Some_iff)

lemma asum_resid [simp]: "(\<And>e. f (e\<lparr>re_residency := x\<rparr>) = f e) \<Longrightarrow> asum f (resid x is xs) = asum f xs"
  by (induction "is" arbitrary: xs) auto

lemma index_resid: "index_ok k idx xs \<Longrightarrow> (\<And>e. k (e\<lparr>re_residency := x\<rparr>) = k e) \<Longrightarrow> index_ok k idx (resid x is xs)"
  by (induction "is" arbitrary: xs) (auto intro!: index_modify)

lemma fence_resid:
  "\<forall>i\<in>set is. map_of (rs_runs s) i \<noteq> None \<Longrightarrow> fence_candidates t is s = Some (s\<lparr>rs_runs := resid (Collecting t) is (rs_runs s)\<rparr>)"
proof (induction "is" arbitrary: s)
  case (Cons i "is")
  then obtain e where e: "map_of (rs_runs s) i = Some e" by auto
  let ?s = "modify_entry i (\<lambda>e. e\<lparr>re_residency := Collecting t\<rparr>) s"
  have "fence_candidates t is ?s = Some (?s\<lparr>rs_runs := resid (Collecting t) is (rs_runs ?s)\<rparr>)"
    by (rule Cons.IH) (use Cons.prems in \<open>auto simp: modify_entry_def simp del: map_of_eq_Some_iff\<close>)
  then show ?case using e by (simp add: modify_entry_def)
qed simp

lemma restore_resid:
  "\<forall>i\<in>set is. map_of (rs_runs s) i \<noteq> None \<Longrightarrow> restore_candidates is s = Some (s\<lparr>rs_runs := resid Retained is (rs_runs s)\<rparr>)"
proof (induction "is" arbitrary: s)
  case (Cons i "is")
  then obtain e where e: "map_of (rs_runs s) i = Some e" by auto
  let ?s = "modify_entry i (\<lambda>e. e\<lparr>re_residency := Retained\<rparr>) s"
  have "restore_candidates is ?s = Some (?s\<lparr>rs_runs := resid Retained is (rs_runs ?s)\<rparr>)"
    by (rule Cons.IH) (use Cons.prems in \<open>auto simp: modify_entry_def simp del: map_of_eq_Some_iff\<close>)
  then show ?case using e by (simp add: modify_entry_def)
qed simp

text \<open>Taking entries out of the registry.\<close>

definition cut :: "run_id list \<Rightarrow> registry_state \<Rightarrow> registry_state \<Rightarrow> bool" where
  "cut is s t \<longleftrightarrow> t = s\<lparr>rs_runs := rs_runs t, rs_creation_runs := rs_creation_runs t, rs_stop_runs := rs_stop_runs t,
       rs_retained_metadata_bytes := rs_retained_metadata_bytes t\<rparr>
     \<and> (\<forall>i. map_of (rs_runs t) i = (if i \<in> set is then None else map_of (rs_runs s) i))
     \<and> (\<forall>f. asum f (rs_runs t) + csum f (rs_runs s) is = asum f (rs_runs s))
     \<and> (\<forall>k. map_of (rs_creation_runs s) k = None \<longrightarrow> map_of (rs_creation_runs t) k = None)
     \<and> entries_ok t \<and> keys_ok t \<and> rs_retained_metadata_bytes t = asum re_metadata_charge (rs_runs t)"

lemma remove_entry_cut:
  assumes "entries_ok s" "keys_ok s" "rs_retained_metadata_bytes s = asum re_metadata_charge (rs_runs s)" "map_of (rs_runs s) i = Some e"
  shows "\<exists>t. remove_registry_entry i s = Some (e, t) \<and> cut [i] s t"
proof -
  let ?t = "s\<lparr>rs_runs := AList.delete i (rs_runs s),
            rs_retained_metadata_bytes := saturating_sub (rs_retained_metadata_bytes s) (re_metadata_charge e),
            rs_creation_runs := (case re_operation_key e of
               None \<Rightarrow> rs_creation_runs s | Some key \<Rightarrow> AList.delete key (rs_creation_runs s)),
            rs_stop_runs := (case re_stop_operation e of
               None \<Rightarrow> rs_stop_runs s | Some stop \<Rightarrow> AList.delete (so_key stop) (rs_stop_runs s))\<rparr>"
  have d: "distinct (map fst (rs_runs s))" using assms(1) by (simp add: entries_ok_def)
  have sum: "asum f (rs_runs ?t) + f e = asum f (rs_runs s)" for f
    using asum_delete [OF d assms(4), of f] by simp
  have "index_ok stop_key (rs_stop_runs ?t) (rs_runs ?t)"
    using index_delete [of stop_key "rs_stop_runs s" "rs_runs s" i e] assms(2,4)
    by (cases "re_stop_operation e") (simp_all add: keys_ok_def stop_key_def)
  moreover have "index_ok re_operation_key (rs_creation_runs ?t) (rs_runs ?t)"
    using index_delete [of re_operation_key "rs_creation_runs s" "rs_runs s" i e] assms(2,4) by (simp add: keys_ok_def)
  moreover have "entries_ok ?t"
    using assms(1) by (auto simp: entries_ok_def distinct_delete delete_conv' simp del: map_of_eq_Some_iff split: if_splits)
  moreover have "rs_retained_metadata_bytes ?t = asum re_metadata_charge (rs_runs ?t)"
    using sum [of re_metadata_charge] assms(3) by (simp add: saturating_sub_def)
  ultimately have "cut [i] s ?t"
    using sum assms(4) unfolding cut_def keys_ok_def by (auto simp: delete_conv' simp del: map_of_eq_Some_iff split: option.splits)
  then show ?thesis using assms(4) by (auto simp: remove_registry_entry_def)
qed

lemma cut_trans:
  assumes "cut [i] s t" "cut is t u" "i \<notin> set is"
  shows "cut (i # is) s u"
proof -
  have "csum f (rs_runs t) is = csum f (rs_runs s) is" for f
    using assms(1,3) by (intro csum_cong) (auto simp: cut_def)
  then have "asum f (rs_runs u) + csum f (rs_runs s) (i # is) = asum f (rs_runs s)" for f
    using assms(1,2) unfolding cut_def by (simp add: add.assoc add.commute add.left_commute) (metis add.commute add.left_commute)
  moreover have "u = s\<lparr>rs_runs := rs_runs u, rs_creation_runs := rs_creation_runs u, rs_stop_runs := rs_stop_runs u,
       rs_retained_metadata_bytes := rs_retained_metadata_bytes u\<rparr>"
  proof -
    have t: "t = s\<lparr>rs_runs := rs_runs t, rs_creation_runs := rs_creation_runs t, rs_stop_runs := rs_stop_runs t,
       rs_retained_metadata_bytes := rs_retained_metadata_bytes t\<rparr>" using assms(1) unfolding cut_def by blast
    have u: "u = t\<lparr>rs_runs := rs_runs u, rs_creation_runs := rs_creation_runs u, rs_stop_runs := rs_stop_runs u,
       rs_retained_metadata_bytes := rs_retained_metadata_bytes u\<rparr>" using assms(2) unfolding cut_def by blast
    show ?thesis by (subst u, subst t) simp
  qed
  ultimately show ?thesis using assms unfolding cut_def by auto
qed

lemma remove_entries_cut:
  assumes "entries_ok s" "keys_ok s" "rs_retained_metadata_bytes s = asum re_metadata_charge (rs_runs s)"
    "distinct is" "\<forall>i\<in>set is. map_of (rs_runs s) i \<noteq> None"
  shows "\<exists>t. remove_entries is s = Some (map (the \<circ> map_of (rs_runs s)) is, t) \<and> cut is s t"
  using assms
proof (induction "is" arbitrary: s)
  case Nil
  then show ?case by (simp add: cut_def)
next
  case (Cons i "is")
  then obtain e where e: "map_of (rs_runs s) i = Some e" by auto
  obtain t where t: "remove_registry_entry i s = Some (e, t)" "cut [i] s t"
    using remove_entry_cut [OF Cons.prems(1-3) e] by blast
  have same: "map (the \<circ> map_of (rs_runs t)) is = map (the \<circ> map_of (rs_runs s)) is"
    using t(2) Cons.prems(4) by (auto simp: cut_def)
  have "\<forall>j\<in>set is. map_of (rs_runs t) j \<noteq> None" using Cons.prems(4,5) t(2) by (auto simp: cut_def)
  then obtain u where u: "remove_entries is t = Some (map (the \<circ> map_of (rs_runs s)) is, u)" "cut is t u"
    using Cons.IH [of t] Cons.prems(4) t(2) same by (auto simp: cut_def)
  then show ?case using t e cut_trans [OF t(2) u(2)] Cons.prems(4) by simp
qed

section \<open>Changes that keep an entry's accounts\<close>

text \<open>What the counters and indexes read of an entry.\<close>

definition core :: "registry_entry \<Rightarrow> run_id \<times> operation_key option \<times> stop_operation_record option \<times> u64" where
  "core e = (rn_id (re_run e), re_operation_key e, re_stop_operation e, re_metadata_charge e)"

definition recore :: "run_id \<times> registry_entry \<Rightarrow> run_id \<times> registry_entry \<Rightarrow> bool" where
  "recore = (\<lambda>(i, e) (j, e'). i = j \<and> core e' = core e)"

definition retouched :: "registry_state \<Rightarrow> registry_state \<Rightarrow> bool" where
  "retouched s t \<longleftrightarrow> t = s\<lparr>rs_runs := rs_runs t\<rparr> \<and> list_all2 recore (rs_runs s) (rs_runs t)
     \<and> (\<forall>i e. map_of (rs_runs t) i = Some e \<longrightarrow> 1 \<le> re_strong e)"

lemma recore_keys: "list_all2 recore xs ys \<Longrightarrow> map fst ys = map fst xs"
  by (induction rule: list_all2_induct) (auto simp: recore_def)

lemma recore_map_of: "list_all2 recore xs ys \<Longrightarrow> map_option core (map_of ys i) = map_option core (map_of xs i)"
  by (induction rule: list_all2_induct) (auto simp: recore_def)

lemma recore_refl [simp]: "list_all2 recore xs xs"
  by (rule list_all2_refl) (auto simp: recore_def)

lemma recore_asum:
  assumes "list_all2 recore xs ys" "\<And>e e'. core e' = core e \<Longrightarrow> f e' = f e"
  shows "asum f ys = asum f xs"
  using assms(1)
proof (induction rule: list_all2_induct)
  case (Cons x xs y ys)
  then have "core (snd y) = core (snd x)" by (auto simp: recore_def)
  then have "f (snd y) = f (snd x)" by (rule assms(2))
  then show ?case using Cons.IH by simp
qed simp

lemma recore_index:
  assumes "list_all2 recore xs ys" "index_ok k idx xs" "\<And>e e'. core e' = core e \<Longrightarrow> k e' = k e"
  shows "index_ok k idx ys"
proof -
  have "map_option k (map_of ys i) = map_option k (map_of xs i)" for i
  proof (cases "map_of xs i")
    case None
    then show ?thesis using recore_map_of [OF assms(1), of i] by simp
  next
    case (Some e)
    then obtain e' where e': "map_of ys i = Some e'" "core e' = core e" using recore_map_of [OF assms(1), of i] by auto
    then show ?thesis using Some assms(3) [OF e'(2)] by simp
  qed
  then have "(\<exists>e. map_of ys i = Some e \<and> k e = Some a) \<longleftrightarrow> (\<exists>e. map_of xs i = Some e \<and> k e = Some a)" for i a
    by (metis (no_types, lifting) map_option_eq_Some)
  then show ?thesis using assms(2) by (simp add: index_ok_def indexes_def)
qed

lemma recore_map_entry: "(\<And>e. map_of xs i = Some e \<Longrightarrow> core (f e) = core e) \<Longrightarrow> list_all2 recore xs (AList.map_entry i f xs)"
  by (induction xs) (auto simp: recore_def [symmetric] split: if_splits, auto simp: recore_def)

lemma recore_resid: "list_all2 recore xs (resid x is xs)"
proof (induction "is" arbitrary: xs)
  case Nil
  show ?case by (auto simp: recore_def intro: list_all2_refl)
next
  case (Cons i "is")
  have t: "list_all2 recore xs (AList.map_entry i (\<lambda>e. e\<lparr>re_residency := x\<rparr>) xs)"
    by (rule recore_map_entry) (simp add: core_def)
  show ?case using list_all2_trans [OF _ t Cons.IH] by (auto simp: recore_def)
qed

lemma retouch_entry:
  assumes "entries_ok s" "\<And>e. map_of (rs_runs s) i = Some e \<Longrightarrow> core (f e) = core e \<and> 1 \<le> re_strong (f e)"
  shows "retouched s (modify_entry i f s)"
  using assms recore_map_entry [of "rs_runs s" i f]
  by (auto simp: retouched_def modify_entry_def entries_ok_def simp del: map_of_eq_Some_iff split: if_splits)

lemma retouch_resid: "entries_ok s \<Longrightarrow> retouched s (s\<lparr>rs_runs := resid x is (rs_runs s)\<rparr>)"
  using recore_resid by (auto simp: retouched_def entries_ok_def map_of_resid simp del: map_of_eq_Some_iff split: if_splits)

lemma retouched_fields:
  assumes "retouched s t"
  shows "rs_creation_runs t = rs_creation_runs s" "rs_stop_runs t = rs_stop_runs s" "rs_reservations t = rs_reservations s"
    "rs_next_ticket t = rs_next_ticket s" "rs_record_capacity t = rs_record_capacity s" "rs_live_capacity t = rs_live_capacity s"
    "rs_live_resources t = rs_live_resources s" "rs_metadata_capacity t = rs_metadata_capacity s"
    "rs_retained_metadata_bytes t = rs_retained_metadata_bytes s" "rs_control_budget t = rs_control_budget s" "rs_cells t = rs_cells s"
proof -
  have t: "t = s\<lparr>rs_runs := rs_runs t\<rparr>" using assms by (simp add: retouched_def)
  show "rs_creation_runs t = rs_creation_runs s" "rs_stop_runs t = rs_stop_runs s" "rs_reservations t = rs_reservations s"
    "rs_next_ticket t = rs_next_ticket s" "rs_record_capacity t = rs_record_capacity s" "rs_live_capacity t = rs_live_capacity s"
    "rs_live_resources t = rs_live_resources s" "rs_metadata_capacity t = rs_metadata_capacity s"
    "rs_retained_metadata_bytes t = rs_retained_metadata_bytes s" "rs_control_budget t = rs_control_budget s" "rs_cells t = rs_cells s"
    by (subst t, simp)+
qed

lemma retouched_lookup: "retouched s t \<Longrightarrow> map_option core (map_of (rs_runs t) i) = map_option core (map_of (rs_runs s) i)"
  using recore_map_of unfolding retouched_def by blast

lemma retouched_Some: "retouched s t \<Longrightarrow> map_of (rs_runs t) i = Some e' \<Longrightarrow> \<exists>e. map_of (rs_runs s) i = Some e \<and> core e' = core e"
  using retouched_lookup [of s t i] by (cases "map_of (rs_runs s) i") auto

lemma retouched_None: "retouched s t \<Longrightarrow> map_of (rs_runs t) i = None \<longleftrightarrow> map_of (rs_runs s) i = None"
  using retouched_lookup [of s t i] by (cases "map_of (rs_runs s) i"; cases "map_of (rs_runs t) i") auto

lemma retouched_asum:
  assumes "retouched s t"
  shows "asum re_metadata_charge (rs_runs t) = asum re_metadata_charge (rs_runs s)"
    "asum memory_of (rs_runs t) = asum memory_of (rs_runs s)" "length (rs_runs t) = length (rs_runs s)"
  using assms unfolding retouched_def
  by (auto intro!: recore_asum simp: core_def memory_of_def dest: list_all2_lengthD)

lemma retouched_reserved: "retouched s t \<Longrightarrow> reserved_metadata t v = reserved_metadata s v"
proof (rule reserved_cong)
  fix i
  assume "retouched s t"
  then show "map_option re_metadata_charge (map_of (rs_runs t) i) = map_option re_metadata_charge (map_of (rs_runs s) i)"
    using retouched_lookup [of s t i] by (cases "map_of (rs_runs s) i"; cases "map_of (rs_runs t) i") (auto simp: core_def)
qed

lemma retouched_ok:
  assumes "retouched s t"
  shows "entries_ok s \<Longrightarrow> entries_ok t" "keys_ok s \<Longrightarrow> keys_ok t" "accounts_ok s \<Longrightarrow> accounts_ok t"
proof -
  show "entries_ok t" if "entries_ok s"
  proof -
    have "map fst (rs_runs t) = map fst (rs_runs s)" using assms recore_keys unfolding retouched_def by blast
    moreover have "rn_id (re_run e) = i" if e: "map_of (rs_runs t) i = Some e" for i e
      using retouched_Some [OF assms e] \<open>entries_ok s\<close> by (auto simp: entries_ok_def core_def)
    ultimately show ?thesis using assms \<open>entries_ok s\<close> unfolding entries_ok_def retouched_def by metis
  qed
  show "keys_ok t" if "keys_ok s"
    using assms that retouched_fields [OF assms] unfolding keys_ok_def retouched_def
    by (auto intro!: recore_index [of "rs_runs s" "rs_runs t"] simp: core_def stop_key_def)
  show "accounts_ok t" if "accounts_ok s"
    using that retouched_fields [OF assms] retouched_asum [OF assms] retouched_reserved [OF assms]
    by (simp add: accounts_ok_def asum_def comp_def)
qed

section \<open>Owners and steps\<close>

text \<open>
  The registry with everything that holds a claim on it: reservations (by ticket), unresolved
  publication fences, Stop settlements in flight, durable removals in flight, live permits of Runs
  that left the registry while other owners still hold them, and the control-budget permits of the
  input lanes.
\<close>

record registry_world =
  w_reg :: registry_state
  w_tickets :: "(nat \<times> publication_reservation) list"
  w_unresolved :: "nat list"
  w_settlements :: "recoverable_stop_settlement list"
  w_removals :: "run_id list"
  w_floating :: nat
  w_others :: "byte_permit list"

text \<open>Removed Runs that other owners keep alive take their live permit with them.\<close>

definition floated :: "run_id list \<Rightarrow> registry_state \<Rightarrow> nat" where
  "floated is s = csum (\<lambda>e. of_bool (re_strong e \<noteq> 1 \<and> rn_live_permit (re_run e))) (rs_runs s) is"

text \<open>A new Run id is unused, and its key was found free under the key's creation stripe.\<close>

definition fresh_creation :: "run_id \<Rightarrow> operation_key option \<Rightarrow> registry_state \<Rightarrow> bool" where
  "fresh_creation i key s \<longleftrightarrow> map_of (rs_runs s) i = None \<and> (\<forall>(_, v)\<in>set (rs_reservations s). rv_new_run_id v \<noteq> i)
     \<and> (\<forall>k. key = Some k \<longrightarrow> map_of (rs_creation_runs s) k = None \<and> reserved_key k s = None)"

text \<open>What other owners may change of an entry: the Run's own facts and the number of its owners.\<close>

definition observed_change :: "nat \<Rightarrow> registry_entry \<Rightarrow> registry_entry \<Rightarrow> bool" where
  "observed_change owners e e' \<longleftrightarrow> core e' = core e \<and> rn_live_permit (re_run e') = rn_live_permit (re_run e)
     \<and> re_residency e' = re_residency e \<and> owners \<le> re_strong e'
     \<and> rn_spec (re_run e') = rn_spec (re_run e) \<and> rn_lineage (re_run e') = rn_lineage (re_run e)"

definition settling :: "run_id \<Rightarrow> registry_world \<Rightarrow> bool" where
  "settling i w \<longleftrightarrow> i \<in> ss_id ` set (w_settlements w)"

inductive registry_step :: "u64 \<Rightarrow> usize \<Rightarrow> registry_world \<Rightarrow> registry_world \<Rightarrow> bool" for ro so where
  reserved: "fresh_creation i key (w_reg w) \<Longrightarrow> rs_metadata_capacity (w_reg w) + n \<le> U64_MAX \<Longrightarrow>
     reserve_publication alloc i key request (Some n) (w_reg w) = Some (Inr h, s) \<Longrightarrow> pr_ticket h = Some t \<Longrightarrow>
     registry_step ro so w (w\<lparr>w_reg := s, w_tickets := (t, h) # w_tickets w\<rparr>)"
| refused: "fresh_creation i key (w_reg w) \<Longrightarrow> rs_metadata_capacity (w_reg w) + n \<le> U64_MAX \<Longrightarrow>
     reserve_publication alloc i key request (Some n) (w_reg w) = Some (Inl e, s) \<Longrightarrow>
     registry_step ro so w (w\<lparr>w_reg := s\<rparr>)"
| published: "map_of (w_tickets w) t = Some h \<Longrightarrow> map_of (rs_reservations (w_reg w)) t = Some v \<Longrightarrow>
     rn_id run = rv_new_run_id v \<Longrightarrow> rv_operation_key v = Some key \<Longrightarrow> 1 \<le> strong \<Longrightarrow>
     publication_charge ro run (pr_metadata_bytes h) \<le> pr_metadata_bytes h \<Longrightarrow>
     publish_creation ro key run strong h (w_reg w) = Some (info, s) \<Longrightarrow>
     registry_step ro so w (w\<lparr>w_reg := s, w_tickets := AList.delete t (w_tickets w),
       w_floating := w_floating w + floated (rv_candidates v) (w_reg w)\<rparr>)"
| imported: "map_of (w_tickets w) t = Some h \<Longrightarrow> map_of (rs_reservations (w_reg w)) t = Some v \<Longrightarrow>
     rn_id run = rv_new_run_id v \<Longrightarrow> rv_operation_key v = None \<Longrightarrow> 1 \<le> strong \<Longrightarrow>
     publish_unkeyed run strong h (w_reg w) = Some s \<Longrightarrow>
     registry_step ro so w (w\<lparr>w_reg := s, w_tickets := AList.delete t (w_tickets w),
       w_floating := w_floating w + floated (rv_candidates v) (w_reg w)\<rparr>)"
| abandoned: "map_of (w_tickets w) t = Some h \<Longrightarrow> publication_drop h (w_reg w) = Some s \<Longrightarrow>
     registry_step ro so w (w\<lparr>w_reg := s, w_tickets := AList.delete t (w_tickets w)\<rparr>)"
| left_unresolved: "map_of (w_tickets w) t = Some h \<Longrightarrow>
     registry_step ro so w (w\<lparr>w_tickets := AList.delete t (w_tickets w), w_unresolved := t # w_unresolved w\<rparr>)"
| observed: "map_of (rs_runs (w_reg w)) i = Some e \<Longrightarrow> observed_change (1 + of_bool (settling i w)) e e' \<Longrightarrow>
     registry_step ro so w (w\<lparr>w_reg := modify_entry i (\<lambda>_. e') (w_reg w)\<rparr>)"
| pinned: "pin i (w_reg w) = (r, s) \<Longrightarrow> registry_step ro so w (w\<lparr>w_reg := s\<rparr>)"
| retired: "registry_step ro so w (w\<lparr>w_reg := release_closed_resources i (w_reg w)\<rparr>)"
| removed: "remove_memory i (w_reg w) = Some (r, s) \<Longrightarrow> registry_step ro so w (w\<lparr>w_reg := s\<rparr>)"
| removal_began: "begin_persistent_removal i (w_reg w) = (Inr c, s) \<Longrightarrow>
     registry_step ro so w (w\<lparr>w_reg := s, w_removals := i # w_removals w\<rparr>)"
| removal_committed: "i \<in> set (w_removals w) \<Longrightarrow> removal_commit i (w_reg w) = Some s \<Longrightarrow>
     registry_step ro so w (w\<lparr>w_reg := s, w_removals := remove1 i (w_removals w),
       w_floating := w_floating w + floated [i] (w_reg w)\<rparr>)"
| removal_restored: "i \<in> set (w_removals w) \<Longrightarrow>
     registry_step ro so w (w\<lparr>w_reg := removal_drop i (w_reg w), w_removals := remove1 i (w_removals w)\<rparr>)"
| stop_owned: "begin_recoverable_stop alloc so i key (w_reg w) = (Inr (StopOwner flight st), s) \<Longrightarrow>
     registry_step ro so w (w\<lparr>w_reg := s, w_settlements := st # w_settlements w\<rparr>)"
| stop_joined: "begin_recoverable_stop alloc so i key (w_reg w) = (Inr (StopRetry flight), s) \<Longrightarrow>
     registry_step ro so w (w\<lparr>w_reg := s\<rparr>)"
| stop_refused: "begin_recoverable_stop alloc so i key (w_reg w) = (Inl failure, s) \<Longrightarrow>
     registry_step ro so w (w\<lparr>w_reg := s\<rparr>)"
| stop_settled: "st \<in> set (w_settlements w) \<Longrightarrow> (\<forall>r. result = Inr r \<longrightarrow> (\<exists>d. r = StopReceipt d)) \<Longrightarrow>
     settle_recoverable_stop st result (w_reg w) = Some s \<Longrightarrow>
     registry_step ro so w (w\<lparr>w_reg := s, w_settlements := remove1 st (w_settlements w)\<rparr>)"
| run_dropped: "0 < w_floating w \<Longrightarrow>
     registry_step ro so w (w\<lparr>w_reg := drop_live_permit True (w_reg w), w_floating := w_floating w - 1\<rparr>)"
| budget_shared: "budget_step (rs_control_budget (w_reg w), w_others w) (b, ps) \<Longrightarrow>
     registry_step ro so w (w\<lparr>w_reg := (w_reg w)\<lparr>rs_control_budget := b\<rparr>, w_others := ps\<rparr>)"

section \<open>The invariant\<close>

definition live_ok :: "registry_world \<Rightarrow> bool" where
  "live_ok w \<longleftrightarrow> rs_live_resources (w_reg w) =
       length (w_tickets w) + length (w_unresolved w) + asum permit_of (rs_runs (w_reg w)) + w_floating w
     \<and> rs_live_resources (w_reg w) \<le> rs_live_capacity (w_reg w) \<and> rs_live_capacity (w_reg w) \<le> U64_MAX"

definition handles_ok :: "registry_world \<Rightarrow> bool" where
  "handles_ok w \<longleftrightarrow> distinct (map fst (w_tickets w) @ w_unresolved w)
     \<and> set (map fst (w_tickets w) @ w_unresolved w) = fst ` set (rs_reservations (w_reg w))
     \<and> (\<forall>t h. map_of (w_tickets w) t = Some h \<longrightarrow> pr_ticket h = Some t \<and> pr_live_permit h
          \<and> map_option rv_new_metadata_bytes (map_of (rs_reservations (w_reg w)) t) = Some (Some (pr_metadata_bytes h)))"

definition removals_ok :: "registry_world \<Rightarrow> bool" where
  "removals_ok w \<longleftrightarrow> distinct (w_removals w)
     \<and> (\<forall>i. i \<in> set (w_removals w) \<longleftrightarrow> map_option re_residency (map_of (rs_runs (w_reg w)) i) = Some Removing)"

text \<open>A settlement in flight pins its Run, owns its record and has an empty cell; every other record's cell is settled.\<close>

definition in_flight :: "registry_state \<Rightarrow> recoverable_stop_settlement \<Rightarrow> bool" where
  "in_flight s st \<longleftrightarrow> (\<exists>e r. map_of (rs_runs s) (ss_id st) = Some e \<and> re_stop_operation e = Some r
     \<and> so_key r = ss_key st \<and> so_cell r = ss_cell st \<and> re_residency e = Retained \<and> 2 \<le> re_strong e
     \<and> rs_cells s ! ss_cell st = None)"

definition stop_result :: "control_result \<Rightarrow> bool" where
  "stop_result result \<longleftrightarrow> \<not> not_applied_result result \<and> (\<forall>r. result = Inr r \<longrightarrow> (\<exists>d. r = StopReceipt d))"

definition record_ok :: "registry_world \<Rightarrow> run_id \<Rightarrow> stop_operation_record \<Rightarrow> bool" where
  "record_ok w i r \<longleftrightarrow> so_cell r < length (rs_cells (w_reg w)) \<and> operation_key_validate MAX_STOP_OPERATION_KEY_BYTES (so_key r) = Inr ()
     \<and> (settling i w \<or> (\<exists>result. rs_cells (w_reg w) ! so_cell r = Some result \<and> stop_result result))"

definition stops_ok :: "registry_world \<Rightarrow> bool" where
  "stops_ok w \<longleftrightarrow> distinct (map ss_id (w_settlements w)) \<and> (\<forall>st\<in>set (w_settlements w). in_flight (w_reg w) st)
     \<and> (\<forall>i e r. map_of (rs_runs (w_reg w)) i = Some e \<longrightarrow> re_stop_operation e = Some r \<longrightarrow> record_ok w i r)
     \<and> (\<forall>i e r j e' r'. map_of (rs_runs (w_reg w)) i = Some e \<longrightarrow> re_stop_operation e = Some r \<longrightarrow>
          map_of (rs_runs (w_reg w)) j = Some e' \<longrightarrow> re_stop_operation e' = Some r' \<longrightarrow> so_cell r = so_cell r' \<longrightarrow> i = j)"

definition control_ok :: "registry_world \<Rightarrow> bool" where
  "control_ok w \<longleftrightarrow> budget_good (rs_control_budget (w_reg w))
     \<and> bb_used (rs_control_budget (w_reg w)) = sum_list (w_others w) + asum memory_of (rs_runs (w_reg w))"

definition registry_ok :: "registry_world \<Rightarrow> bool" where
  "registry_ok w \<longleftrightarrow> entries_ok (w_reg w) \<and> keys_ok (w_reg w) \<and> fences_ok (w_reg w) \<and> accounts_ok (w_reg w)
     \<and> live_ok w \<and> handles_ok w \<and> removals_ok w \<and> stops_ok w \<and> control_ok w"

lemmas registry_ok_defs = registry_ok_def live_ok_def handles_ok_def removals_ok_def stops_ok_def control_ok_def

section \<open>Changes in place\<close>

lemma reserved_runs: "rs_runs s = rs_runs t \<Longrightarrow> reserved_metadata s = reserved_metadata t"
  by (auto simp: reserved_metadata_def fun_eq_iff split: option.split)

lemma reserved_insensitive [simp]:
  "reserved_metadata (s\<lparr>rs_live_resources := n\<rparr>) = reserved_metadata s"
  "reserved_metadata (s\<lparr>rs_control_budget := b\<rparr>) = reserved_metadata s"
  "reserved_metadata (s\<lparr>rs_cells := c\<rparr>) = reserved_metadata s"
  "reserved_metadata (s\<lparr>rs_reservations := x\<rparr>) = reserved_metadata s"
  "reserved_metadata (s\<lparr>rs_next_ticket := n\<rparr>) = reserved_metadata s"
  by (rule reserved_runs, simp)+

lemma field_insensitive [simp]:
  "entries_ok (s\<lparr>rs_live_resources := n\<rparr>) = entries_ok s" "keys_ok (s\<lparr>rs_live_resources := n\<rparr>) = keys_ok s"
  "fences_ok (s\<lparr>rs_live_resources := n\<rparr>) = fences_ok s" "accounts_ok (s\<lparr>rs_live_resources := n\<rparr>) = accounts_ok s"
  "entries_ok (s\<lparr>rs_control_budget := b\<rparr>) = entries_ok s" "keys_ok (s\<lparr>rs_control_budget := b\<rparr>) = keys_ok s"
  "fences_ok (s\<lparr>rs_control_budget := b\<rparr>) = fences_ok s" "accounts_ok (s\<lparr>rs_control_budget := b\<rparr>) = accounts_ok s"
  "entries_ok (s\<lparr>rs_cells := c\<rparr>) = entries_ok s" "keys_ok (s\<lparr>rs_cells := c\<rparr>) = keys_ok s"
  "fences_ok (s\<lparr>rs_cells := c\<rparr>) = fences_ok s" "accounts_ok (s\<lparr>rs_cells := c\<rparr>) = accounts_ok s"
  by (simp_all add: entries_ok_def keys_ok_def fences_ok_def reservation_ok_def accounts_ok_def)

lemma fences_cong:
  assumes "fences_ok s" "\<And>i. map_option re_residency (map_of (rs_runs t) i) = map_option re_residency (map_of (rs_runs s) i)"
    "rs_creation_runs t = rs_creation_runs s" "rs_reservations t = rs_reservations s" "rs_next_ticket t = rs_next_ticket s"
  shows "fences_ok t"
proof -
  have fwd: "\<exists>e'. map_of (rs_runs t) i = Some e' \<and> re_residency e' = re_residency e" if "map_of (rs_runs s) i = Some e" for i e
    using assms(2) [of i] that by (cases "map_of (rs_runs t) i") auto
  have bwd: "\<exists>e. map_of (rs_runs s) i = Some e \<and> re_residency e = re_residency e'" if "map_of (rs_runs t) i = Some e'" for i e'
    using assms(2) [of i] that by (cases "map_of (rs_runs s) i") auto
  have none: "map_of (rs_runs t) i = None \<longleftrightarrow> map_of (rs_runs s) i = None" for i
    using assms(2) [of i] by (cases "map_of (rs_runs s) i"; cases "map_of (rs_runs t) i") auto
  have "reservation_ok t n v" if "reservation_ok s n v" for n v
    using that fwd unfolding reservation_ok_def assms(3-5) none by (metis (no_types, lifting))
  moreover have "fenced (map_of (rs_reservations s)) (map_of (rs_runs t))"
    using bwd assms(1) unfolding fences_ok_def fenced_def by metis
  ultimately show ?thesis using assms(1) unfolding fences_ok_def assms(4) by blast
qed

lemma fences_retouched:
  assumes "retouched s t" "\<And>i. map_option re_residency (map_of (rs_runs t) i) = map_option re_residency (map_of (rs_runs s) i)" "fences_ok s"
  shows "fences_ok t"
  by (rule fences_cong [OF assms(3,2)]) (simp_all add: retouched_fields [OF assms(1)])

lemma accounts_cong:
  assumes "accounts_ok s" "rs_runs t = AList.map_entry i f (rs_runs s)" "\<And>e. re_metadata_charge (f e) = re_metadata_charge e"
    "rs_reservations t = rs_reservations s" "rs_retained_metadata_bytes t = rs_retained_metadata_bytes s"
    "rs_metadata_capacity t = rs_metadata_capacity s" "rs_record_capacity t = rs_record_capacity s"
  shows "accounts_ok t"
proof -
  have "reserved_metadata t v = reserved_metadata s v" for v
    by (rule reserved_cong) (simp add: assms(2,3) option.map_comp comp_def del: map_of_eq_Some_iff)
  then have "reserved_metadata t = reserved_metadata s" by auto
  then show ?thesis using assms by (simp add: accounts_ok_def)
qed

lemma stops_retouched:
  assumes "retouched (w_reg w) t" "stops_ok w"
    "\<And>st e. st \<in> set (w_settlements w) \<Longrightarrow> map_of (rs_runs t) (ss_id st) = Some e \<Longrightarrow> re_residency e = Retained \<and> 2 \<le> re_strong e"
  shows "stops_ok (w\<lparr>w_reg := t\<rparr>)"
proof -
  have stop: "\<exists>e. map_of (rs_runs (w_reg w)) i = Some e \<and> re_stop_operation e = re_stop_operation e'"
    if "map_of (rs_runs t) i = Some e'" for i e'
    using retouched_Some [OF assms(1) that] by (auto simp: core_def)
  have "in_flight t st" if st: "st \<in> set (w_settlements w)" for st
  proof -
    have "in_flight (w_reg w) st" using assms(2) st by (simp add: stops_ok_def)
    then obtain e r where e: "map_of (rs_runs (w_reg w)) (ss_id st) = Some e" "re_stop_operation e = Some r"
      "so_key r = ss_key st" "so_cell r = ss_cell st" "rs_cells (w_reg w) ! ss_cell st = None" by (auto simp: in_flight_def)
    then obtain e' where e': "map_of (rs_runs t) (ss_id st) = Some e'"
      using retouched_None [OF assms(1), of "ss_id st"] by (cases "map_of (rs_runs t) (ss_id st)") auto
    have "re_stop_operation e' = Some r" using stop [OF e'] e(1,2) by auto
    then show ?thesis using e e' assms(3) [OF st e'] retouched_fields(11) [OF assms(1)] by (auto simp: in_flight_def)
  qed
  moreover have "record_ok (w\<lparr>w_reg := t\<rparr>) i r" if "map_of (rs_runs t) i = Some e'" "re_stop_operation e' = Some r" for i e' r
  proof -
    have "record_ok w i r" using stop [OF that(1)] that(2) assms(2) unfolding stops_ok_def by metis
    then show ?thesis using retouched_fields(11) [OF assms(1)] by (simp add: record_ok_def settling_def)
  qed
  moreover have "i = j" if "map_of (rs_runs t) i = Some e'" "re_stop_operation e' = Some r" "map_of (rs_runs t) j = Some d'"
    "re_stop_operation d' = Some q" "so_cell r = so_cell q" for i e' r j d' q
    using stop [OF that(1)] stop [OF that(3)] that assms(2) unfolding stops_ok_def by metis
  ultimately show ?thesis using assms(2) unfolding stops_ok_def by simp
qed

text \<open>A change in place that keeps accounts, permits and residency, and leaves every settlement its pin.\<close>

lemma retouched_world:
  assumes "registry_ok w" "retouched (w_reg w) t" "asum permit_of (rs_runs t) = asum permit_of (rs_runs (w_reg w))"
    "\<And>i. map_option re_residency (map_of (rs_runs t) i) = map_option re_residency (map_of (rs_runs (w_reg w)) i)"
    "\<And>st e. st \<in> set (w_settlements w) \<Longrightarrow> map_of (rs_runs t) (ss_id st) = Some e \<Longrightarrow> 2 \<le> re_strong e"
  shows "registry_ok (w\<lparr>w_reg := t\<rparr>)"
proof -
  have "stops_ok (w\<lparr>w_reg := t\<rparr>)"
  proof (rule stops_retouched [OF assms(2)])
    show "stops_ok w" using assms(1) by (simp add: registry_ok_def)
    show "re_residency e = Retained \<and> 2 \<le> re_strong e" if "st \<in> set (w_settlements w)" "map_of (rs_runs t) (ss_id st) = Some e" for st e
    proof -
      have "in_flight (w_reg w) st" using assms(1) that(1) by (simp add: registry_ok_def stops_ok_def)
      then show ?thesis using assms(4) [of "ss_id st"] assms(5) [OF that] that(2) by (auto simp: in_flight_def)
    qed
  qed
  then show ?thesis
    using assms retouched_ok [OF assms(2)] fences_retouched [OF assms(2,4)] retouched_fields [OF assms(2)] retouched_asum [OF assms(2)]
    by (simp add: registry_ok_def live_ok_def handles_ok_def removals_ok_def control_ok_def)
qed

lemma settling_strong:
  "registry_ok w \<Longrightarrow> settling i w \<Longrightarrow> map_of (rs_runs (w_reg w)) i = Some e \<Longrightarrow> 2 \<le> re_strong e \<and> re_residency e = Retained"
  by (auto simp: registry_ok_def stops_ok_def settling_def in_flight_def)

lemma modify_world:
  assumes "registry_ok w" "map_of (rs_runs (w_reg w)) i = Some e" "core (f e) = core e"
    "rn_live_permit (re_run (f e)) = rn_live_permit (re_run e)" "re_residency (f e) = re_residency e"
    "1 + of_bool (settling i w) \<le> re_strong (f e)"
  shows "registry_ok (w\<lparr>w_reg := modify_entry i f (w_reg w)\<rparr>)"
proof (rule retouched_world [OF assms(1)])
  have "1 \<le> re_strong (f e)" using assms(6) by linarith
  then show "retouched (w_reg w) (modify_entry i f (w_reg w))"
    using retouch_entry [of "w_reg w" i f] assms(1,2,3) by (simp add: registry_ok_def)
  show "asum permit_of (rs_runs (modify_entry i f (w_reg w))) = asum permit_of (rs_runs (w_reg w))"
    using asum_map_entry [OF assms(2), of permit_of f] assms(4) by (simp add: modify_entry_def)
  show "map_option re_residency (map_of (rs_runs (modify_entry i f (w_reg w))) j) = map_option re_residency (map_of (rs_runs (w_reg w)) j)" for j
    using assms(2,5) by (simp add: modify_entry_def del: map_of_eq_Some_iff)
  show "2 \<le> re_strong e'" if "st \<in> set (w_settlements w)" "map_of (rs_runs (modify_entry i f (w_reg w))) (ss_id st) = Some e'" for st e'
    using that assms(2,6) settling_strong [OF assms(1), of "ss_id st"]
    by (auto simp: modify_entry_def settling_def simp del: map_of_eq_Some_iff split: if_splits)
qed

lemma observed_step_ok:
  "registry_ok w \<Longrightarrow> map_of (rs_runs (w_reg w)) i = Some e \<Longrightarrow> observed_change (1 + of_bool (settling i w)) e e' \<Longrightarrow>
   registry_ok (w\<lparr>w_reg := modify_entry i (\<lambda>_. e') (w_reg w)\<rparr>)"
  by (rule modify_world) (auto simp: observed_change_def)

text \<open>One more owner of a Run.\<close>

lemma clone_ok:
  assumes "registry_ok w" "map_of (rs_runs (w_reg w)) i = Some e"
  shows "registry_ok (w\<lparr>w_reg := modify_entry i (\<lambda>e. e\<lparr>re_strong := re_strong e + n\<rparr>) (w_reg w)\<rparr>)"
proof (rule modify_world [OF assms])
  have "1 \<le> re_strong e" using assms by (simp add: registry_ok_def entries_ok_def)
  then show "1 + of_bool (settling i w) \<le> re_strong (e\<lparr>re_strong := re_strong e + n\<rparr>)"
    using settling_strong [OF assms(1) _ assms(2)] by (cases "settling i w") auto
qed (simp_all add: core_def)

lemma pin_ok: "registry_ok w \<Longrightarrow> pin i (w_reg w) = (r, s) \<Longrightarrow> registry_ok (w\<lparr>w_reg := s\<rparr>)"
  using clone_ok [of w i _ 1] by (auto simp: pin_def split: option.splits if_splits)

section \<open>Live permits\<close>

lemma drop_live_permit_exact:
  "of_bool permit \<le> rs_live_resources s \<Longrightarrow> rs_live_resources s \<le> U64_MAX \<Longrightarrow>
   drop_live_permit permit s = s\<lparr>rs_live_resources := rs_live_resources s - of_bool permit\<rparr>"
  by (cases permit) (simp_all add: drop_live_permit_def wrapping_sub_exact)

lemma live_bounds: "registry_ok w \<Longrightarrow> rs_live_resources (w_reg w) \<le> U64_MAX"
  unfolding registry_ok_def live_ok_def by linarith

lemma world_update_collapse [simp]: "w\<lparr>w_reg := s, w_reg := t\<rparr> = w\<lparr>w_reg := t\<rparr>"
  by simp

lemma release_ok:
  assumes "registry_ok w"
  shows "registry_ok (w\<lparr>w_reg := release_closed_resources i (w_reg w)\<rparr>)"
proof (cases "\<exists>e. map_of (rs_runs (w_reg w)) i = Some e \<and> resources_closed (re_run e)")
  case False
  then have "release_closed_resources i (w_reg w) = w_reg w"
    by (cases "map_of (rs_runs (w_reg w)) i") (auto simp: release_closed_resources_def)
  then show ?thesis using assms by simp
next
  case True
  then obtain e where e: "map_of (rs_runs (w_reg w)) i = Some e" "resources_closed (re_run e)" by blast
  let ?f = "\<lambda>e. e\<lparr>re_run := re_run e\<lparr>rn_live_permit := False\<rparr>\<rparr>"
  let ?p = "rn_live_permit (re_run e)"
  let ?t = "modify_entry i ?f (w_reg w)"
  have strong: "1 \<le> re_strong e" using assms e(1) by (simp add: registry_ok_def entries_ok_def)
  have rt: "retouched (w_reg w) ?t"
    using retouch_entry [of "w_reg w" i ?f] assms e(1) strong by (simp add: registry_ok_def core_def)
  have res: "map_option re_residency (map_of (rs_runs ?t) j) = map_option re_residency (map_of (rs_runs (w_reg w)) j)" for j
    using e(1) by (simp add: modify_entry_def del: map_of_eq_Some_iff)
  have sum: "asum permit_of (rs_runs ?t) + of_bool ?p = asum permit_of (rs_runs (w_reg w))"
    using asum_map_entry [OF e(1), of permit_of ?f] by (simp add: modify_entry_def)
  have stops: "stops_ok (w\<lparr>w_reg := ?t\<rparr>)"
  proof (rule stops_retouched [OF rt])
    show "stops_ok w" using assms by (simp add: registry_ok_def)
    show "re_residency e' = Retained \<and> 2 \<le> re_strong e'" if "st \<in> set (w_settlements w)" "map_of (rs_runs ?t) (ss_id st) = Some e'" for st e'
      using settling_strong [OF assms, of "ss_id st"] that e(1)
      by (auto simp: settling_def modify_entry_def simp del: map_of_eq_Some_iff split: if_splits)
  qed
  have le: "of_bool ?p \<le> rs_live_resources ?t" "rs_live_resources ?t \<le> U64_MAX"
    using assms sum live_bounds [OF assms] by (auto simp: registry_ok_def live_ok_def modify_entry_def)
  have r: "release_closed_resources i (w_reg w) = ?t\<lparr>rs_live_resources := rs_live_resources ?t - of_bool ?p\<rparr>"
    unfolding release_closed_resources_def e(1) using e(2) drop_live_permit_exact [OF le] by simp
  show ?thesis
    using assms retouched_ok [OF rt] fences_retouched [OF rt res] retouched_fields [OF rt] retouched_asum [OF rt] res sum stops le
    unfolding r by (auto simp: registry_ok_def live_ok_def handles_ok_def removals_ok_def control_ok_def stops_ok_def in_flight_def record_ok_def settling_def)
qed

lemma release_same [simp]:
  "map fst (rs_runs (release_closed_resources i s)) = map fst (rs_runs s)"
  "rs_creation_runs (release_closed_resources i s) = rs_creation_runs s" "rs_reservations (release_closed_resources i s) = rs_reservations s"
  "rs_metadata_capacity (release_closed_resources i s) = rs_metadata_capacity s"
  by (auto simp: release_closed_resources_def drop_live_permit_def modify_entry_def split: option.splits)

lemma reclaim_owners_ok:
  assumes "registry_ok w"
  shows "registry_ok (w\<lparr>w_reg := reclaim_closed_owners (w_reg w)\<rparr>)"
proof -
  have "registry_ok (w\<lparr>w_reg := fold release_closed_resources is (w_reg w)\<rparr>)" for "is"
    using assms
  proof (induction "is" arbitrary: w)
    case (Cons i "is")
    then show ?case using Cons.IH [OF release_ok [OF Cons.prems, of i]] by simp
  qed simp
  then show ?thesis using assms by (simp add: reclaim_closed_owners_def)
qed

lemma reclaim_same [simp]:
  "map fst (rs_runs (reclaim_closed_owners s)) = map fst (rs_runs s)"
  "rs_creation_runs (reclaim_closed_owners s) = rs_creation_runs s" "rs_reservations (reclaim_closed_owners s) = rs_reservations s"
  "rs_metadata_capacity (reclaim_closed_owners s) = rs_metadata_capacity s"
proof -
  have "map fst (rs_runs (fold release_closed_resources is s)) = map fst (rs_runs s)
    \<and> rs_creation_runs (fold release_closed_resources is s) = rs_creation_runs s
    \<and> rs_reservations (fold release_closed_resources is s) = rs_reservations s
    \<and> rs_metadata_capacity (fold release_closed_resources is s) = rs_metadata_capacity s" for "is"
    by (induction "is" arbitrary: s) auto
  then show "map fst (rs_runs (reclaim_closed_owners s)) = map fst (rs_runs s)"
    "rs_creation_runs (reclaim_closed_owners s) = rs_creation_runs s" "rs_reservations (reclaim_closed_owners s) = rs_reservations s"
    "rs_metadata_capacity (reclaim_closed_owners s) = rs_metadata_capacity s"
    by (auto simp: reclaim_closed_owners_def)
qed

lemma fresh_reclaim: "fresh_creation i key s \<Longrightarrow> fresh_creation i key (reclaim_closed_owners s)"
proof -
  have "map_of (rs_runs (reclaim_closed_owners s)) i = None \<longleftrightarrow> map_of (rs_runs s) i = None"
    unfolding map_of_notin by (metis list.set_map reclaim_same(1))
  then show "fresh_creation i key s \<Longrightarrow> fresh_creation i key (reclaim_closed_owners s)"
    by (simp add: fresh_creation_def reserved_key_def)
qed

section \<open>Entries leaving the registry\<close>

definition dead_permit :: "registry_entry \<Rightarrow> nat" where
  "dead_permit e = of_bool (re_strong e = 1 \<and> rn_live_permit (re_run e))"

definition held_permit :: "registry_entry \<Rightarrow> nat" where
  "held_permit e = of_bool (re_strong e \<noteq> 1 \<and> rn_live_permit (re_run e))"

lemma permit_split: "permit_of e = dead_permit e + held_permit e"
  by (auto simp: dead_permit_def held_permit_def)

lemma floated_eq: "floated is s = csum held_permit (rs_runs s) is"
  by (simp add: floated_def held_permit_def [abs_def])

lemma csum_add: "csum (\<lambda>e. f e + g e) xs is = csum f xs is + csum g xs is"
  by (induction "is") (auto split: option.splits)

lemma csum_permit: "csum permit_of xs is = csum dead_permit xs is + csum held_permit xs is"
  using csum_add [of dead_permit held_permit xs "is"] by (simp add: permit_split [abs_def])

lemma csum_entries: "\<forall>i\<in>set is. map_of xs i \<noteq> None \<Longrightarrow> sum_list (map f (map (the \<circ> map_of xs) is)) = csum f xs is"
  by (induction "is") auto

lemma drop_entry_exact:
  assumes "budget_good (rs_control_budget s)" "memory_of e \<le> bb_used (rs_control_budget s)"
    "dead_permit e \<le> rs_live_resources s" "rs_live_resources s \<le> U64_MAX"
  shows "drop_entry e s = s\<lparr>rs_live_resources := rs_live_resources s - dead_permit e,
     rs_control_budget := (rs_control_budget s)\<lparr>bb_used := bb_used (rs_control_budget s) - memory_of e\<rparr>\<rparr>"
proof -
  have p: "permit_drop b m = b\<lparr>bb_used := bb_used b - m\<rparr>" if "budget_good b" "m \<le> bb_used b" for b m
    using that by (simp add: permit_drop_def budget_good_def wrapping_sub_exact)
  show ?thesis
  proof (cases "re_stop_operation e")
    case None
    then show ?thesis using assms drop_live_permit_exact [of "re_strong e = 1 \<and> rn_live_permit (re_run e)" s]
      by (simp add: drop_entry_def memory_of_def dead_permit_def)
  next
    case (Some r)
    let ?s = "s\<lparr>rs_control_budget := permit_drop (rs_control_budget s) (so_memory r)\<rparr>"
    have "drop_live_permit (re_strong e = 1 \<and> rn_live_permit (re_run e)) ?s = ?s\<lparr>rs_live_resources := rs_live_resources ?s - dead_permit e\<rparr>"
      using assms drop_live_permit_exact [of "re_strong e = 1 \<and> rn_live_permit (re_run e)" ?s] by (simp add: dead_permit_def)
    then show ?thesis using assms(1,2) Some p [of "rs_control_budget s" "so_memory r"] by (simp add: drop_entry_def memory_of_def)
  qed
qed

lemma drop_entries_exact:
  assumes "budget_good (rs_control_budget s)" "sum_list (map memory_of es) \<le> bb_used (rs_control_budget s)"
    "sum_list (map dead_permit es) \<le> rs_live_resources s" "rs_live_resources s \<le> U64_MAX"
  shows "fold drop_entry es s = s\<lparr>rs_live_resources := rs_live_resources s - sum_list (map dead_permit es),
     rs_control_budget := (rs_control_budget s)\<lparr>bb_used := bb_used (rs_control_budget s) - sum_list (map memory_of es)\<rparr>\<rparr>"
  using assms
proof (induction es arbitrary: s)
  case (Cons e es)
  let ?t = "drop_entry e s"
  have t: "?t = s\<lparr>rs_live_resources := rs_live_resources s - dead_permit e,
     rs_control_budget := (rs_control_budget s)\<lparr>bb_used := bb_used (rs_control_budget s) - memory_of e\<rparr>\<rparr>"
    using Cons.prems by (intro drop_entry_exact) auto
  have "fold drop_entry es ?t = ?t\<lparr>rs_live_resources := rs_live_resources ?t - sum_list (map dead_permit es),
     rs_control_budget := (rs_control_budget ?t)\<lparr>bb_used := bb_used (rs_control_budget ?t) - sum_list (map memory_of es)\<rparr>\<rparr>"
    using Cons.prems by (intro Cons.IH) (auto simp: t budget_good_def)
  then show ?case by (simp add: t diff_diff_left)
qed simp

text \<open>
  Taking the entries \<open>is\<close> out together with the reservation \<open>t\<close> that fenced them.  For an explicit removal \<open>t\<close> is
  an unused ticket, so that no reservation goes.
\<close>

abbreviation unreserve :: "nat \<Rightarrow> registry_state \<Rightarrow> registry_state" where
  "unreserve t s \<equiv> s\<lparr>rs_reservations := AList.delete t (rs_reservations s)\<rparr>"

definition closes :: "nat \<Rightarrow> run_id list \<Rightarrow> registry_state \<Rightarrow> bool" where
  "closes t is s \<longleftrightarrow> distinct is
     \<and> (\<forall>i\<in>set is. \<exists>e. map_of (rs_runs s) i = Some e \<and> (\<forall>x. re_residency e = Collecting x \<longrightarrow> x = t))
     \<and> (\<forall>i e. map_of (rs_runs s) i = Some e \<longrightarrow> re_residency e = Collecting t \<longrightarrow> i \<in> set is)"

lemma cut_fields:
  assumes "cut is s u"
  shows "rs_reservations u = rs_reservations s" "rs_next_ticket u = rs_next_ticket s" "rs_record_capacity u = rs_record_capacity s"
    "rs_live_capacity u = rs_live_capacity s" "rs_live_resources u = rs_live_resources s" "rs_metadata_capacity u = rs_metadata_capacity s"
    "rs_control_budget u = rs_control_budget s" "rs_cells u = rs_cells s"
proof -
  have u: "u = s\<lparr>rs_runs := rs_runs u, rs_creation_runs := rs_creation_runs u, rs_stop_runs := rs_stop_runs u,
       rs_retained_metadata_bytes := rs_retained_metadata_bytes u\<rparr>" using assms unfolding cut_def by blast
  show "rs_reservations u = rs_reservations s" "rs_next_ticket u = rs_next_ticket s" "rs_record_capacity u = rs_record_capacity s"
    "rs_live_capacity u = rs_live_capacity s" "rs_live_resources u = rs_live_resources s" "rs_metadata_capacity u = rs_metadata_capacity s"
    "rs_control_budget u = rs_control_budget s" "rs_cells u = rs_cells s"
    by (subst u, simp)+
qed

lemma cut_lookup: "cut is s u \<Longrightarrow> map_of (rs_runs u) i = (if i \<in> set is then None else map_of (rs_runs s) i)"
  unfolding cut_def by blast

lemma cut_asum: "cut is s u \<Longrightarrow> asum f (rs_runs u) + csum f (rs_runs s) is = asum f (rs_runs s)"
  unfolding cut_def by blast

lemma apart_delete: "apart m \<Longrightarrow> apart (m(t := None))"
  unfolding apart_def by (metis fun_upd_apply option.distinct(1))

lemma fences_cut:
  assumes "fences_ok s" "closes t is s" "cut is (unreserve t s) u"
  shows "fences_ok u"
proof -
  have m: "map_of (rs_reservations u) = (map_of (rs_reservations s))(t := None)"
    using cut_fields(1) [OF assms(3)] by (simp add: delete_conv')
  have runs: "map_of (rs_runs u) i = (if i \<in> set is then None else map_of (rs_runs s) i)" for i
    using cut_lookup [OF assms(3)] by simp
  have keys: "map_of (rs_creation_runs s) k = None \<Longrightarrow> map_of (rs_creation_runs u) k = None" for k
    using assms(3) unfolding cut_def by simp
  have "reservation_ok u n v" if "map_of (rs_reservations u) n = Some v" for n v
  proof -
    have n: "n \<noteq> t" "map_of (rs_reservations s) n = Some v" using that by (auto simp: m split: if_splits)
    then have v: "reservation_ok s n v" using assms(1) by (simp add: fences_ok_def)
    have "i \<notin> set is" if "i \<in> set (rv_candidates v)" for i
      using v that n(1) assms(2) unfolding reservation_ok_def closes_def by (metis option.inject registry_residency.inject)
    then show ?thesis using v keys cut_fields(2) [OF assms(3)] by (auto simp: reservation_ok_def runs)
  qed
  moreover have "fenced (map_of (rs_reservations u)) (map_of (rs_runs u))"
    using assms(1,2) unfolding fences_ok_def fenced_def closes_def m by (metis fun_upd_other option.distinct(1) runs)
  moreover have "apart (map_of (rs_reservations u))" "distinct (map fst (rs_reservations u))"
    using assms(1) cut_fields(1) [OF assms(3)] apart_delete unfolding m by (auto simp: fences_ok_def distinct_delete)
  ultimately show ?thesis unfolding fences_ok_def by blast
qed

lemma reserved_cut:
  assumes "fences_ok s" "closes t is s" "cut is (unreserve t s) u"
  shows "asum (reserved_metadata u) (rs_reservations u) = asum (reserved_metadata s) (AList.delete t (rs_reservations s))"
proof -
  have "reserved_metadata u v = reserved_metadata s v" if "(n, v) \<in> set (AList.delete t (rs_reservations s))" for n v
  proof (rule reserved_cong)
    fix i
    assume i: "i \<in> set (rv_candidates v)"
    have d: "distinct (map fst (rs_reservations s))" using assms(1) by (simp add: fences_ok_def)
    have "map_of (AList.delete t (rs_reservations s)) n = Some v" using that d by (simp add: distinct_delete)
    then have n: "n \<noteq> t" "map_of (rs_reservations s) n = Some v" by (auto simp: delete_conv' simp del: map_of_eq_Some_iff split: if_splits)
    then have "reservation_ok s n v" using assms(1) unfolding fences_ok_def by blast
    then have "i \<notin> set is"
      using i n(1) assms(2) unfolding reservation_ok_def closes_def by (metis option.inject registry_residency.inject)
    then show "map_option re_metadata_charge (map_of (rs_runs u) i) = map_option re_metadata_charge (map_of (rs_runs s) i)"
      using cut_lookup [OF assms(3)] by simp
  qed
  then have "asum (reserved_metadata u) (AList.delete t (rs_reservations s)) = asum (reserved_metadata s) (AList.delete t (rs_reservations s))"
    by (rule asum_cong)
  then show ?thesis using cut_fields(1) [OF assms(3)] by simp
qed

lemma stops_cut:
  assumes "stops_ok w" "cut is s u" "rs_runs s = rs_runs (w_reg w)" "rs_cells s = rs_cells (w_reg w)"
    "\<forall>i\<in>set is. \<not> settling i w"
  shows "stops_ok (w\<lparr>w_reg := u\<rparr>)"
proof -
  have runs: "map_of (rs_runs u) i = (if i \<in> set is then None else map_of (rs_runs (w_reg w)) i)" for i
    using cut_lookup [OF assms(2)] assms(3) by simp
  have cells: "rs_cells u = rs_cells (w_reg w)" using cut_fields(8) [OF assms(2)] assms(4) by simp
  have "in_flight u st" if "st \<in> set (w_settlements w)" for st
    using assms(1,5) that by (auto simp: stops_ok_def in_flight_def settling_def runs cells)
  moreover have "record_ok (w\<lparr>w_reg := u\<rparr>) i r" if "map_of (rs_runs u) i = Some e" "re_stop_operation e = Some r" for i e r
  proof -
    have "map_of (rs_runs (w_reg w)) i = Some e" using that(1) by (simp add: runs split: if_splits)
    then have "record_ok w i r" using that(2) assms(1) unfolding stops_ok_def by blast
    then show ?thesis by (simp add: record_ok_def settling_def cells)
  qed
  moreover have "i = j" if "map_of (rs_runs u) i = Some e" "re_stop_operation e = Some r" "map_of (rs_runs u) j = Some d"
    "re_stop_operation d = Some q" "so_cell r = so_cell q" for i e r j d q
  proof -
    have "map_of (rs_runs (w_reg w)) i = Some e" "map_of (rs_runs (w_reg w)) j = Some d"
      using that(1,3) by (simp_all add: runs split: if_splits)
    then show ?thesis using that(2,4,5) assms(1) unfolding stops_ok_def by blast
  qed
  ultimately show ?thesis using assms(1) unfolding stops_ok_def by simp
qed

lemma csum_le: "cut is s u \<Longrightarrow> csum f (rs_runs s) is \<le> asum f (rs_runs s)"
  using cut_asum [of "is" s u f] by linarith

lemma stops_cong:
  "stops_ok w \<Longrightarrow> w_settlements v = w_settlements w \<Longrightarrow> rs_runs (w_reg v) = rs_runs (w_reg w) \<Longrightarrow> rs_cells (w_reg v) = rs_cells (w_reg w) \<Longrightarrow> stops_ok v"
  by (simp add: stops_ok_def in_flight_def record_ok_def settling_def)

lemma removals_cong:
  "removals_ok w \<Longrightarrow> w_removals v = w_removals w \<Longrightarrow> rs_runs (w_reg v) = rs_runs (w_reg w) \<Longrightarrow> removals_ok v"
  by (simp add: removals_ok_def)

lemma handles_cong:
  "handles_ok w \<Longrightarrow> w_tickets v = w_tickets w \<Longrightarrow> w_unresolved v = w_unresolved w \<Longrightarrow> rs_reservations (w_reg v) = rs_reservations (w_reg w) \<Longrightarrow> handles_ok v"
  by (simp add: handles_ok_def)

text \<open>An entry that is removed by itself: not collected by any reservation, and no Stop of it in flight.\<close>

lemma remove_world:
  assumes "registry_ok w" "map_of (rs_runs (w_reg w)) i = Some e" "\<And>x. re_residency e \<noteq> Collecting x" "\<not> settling i w"
    "remove_registry_entry i (w_reg w) = Some (d, u)"
  shows "d = e \<and> registry_ok (w\<lparr>w_reg := drop_entry e u, w_removals := remove1 i (w_removals w),
    w_floating := w_floating w + floated [i] (w_reg w)\<rparr>)"
proof -
  let ?s = "w_reg w"
  have parts: "entries_ok ?s" "keys_ok ?s" "fences_ok ?s" "accounts_ok ?s" using assms(1) by (simp_all add: registry_ok_def)
  have charge: "rs_retained_metadata_bytes ?s = asum re_metadata_charge (rs_runs ?s)" using parts(4) by (simp add: accounts_ok_def)
  obtain t where t: "remove_registry_entry i ?s = Some (e, t)" "cut [i] ?s t"
    using remove_entry_cut [OF parts(1,2) charge assms(2)] by blast
  then have d: "d = e" "cut [i] ?s u" using assms(5) by auto
  define n where "n = rs_next_ticket ?s + 1"
  have n: "map_of (rs_reservations ?s) n = None"
  proof (rule ccontr)
    assume "map_of (rs_reservations ?s) n \<noteq> None"
    then obtain v where "map_of (rs_reservations ?s) n = Some v" by auto
    then have "reservation_ok ?s n v" using parts(3) unfolding fences_ok_def by blast
    then show False by (simp add: reservation_ok_def n_def)
  qed
  then have same: "unreserve n ?s = ?s" using delete_id [of n "rs_reservations ?s"] by (simp add: map_of_notin)
  have "re_residency a \<noteq> Collecting n" if "map_of (rs_runs ?s) j = Some a" for j a
    using that n parts(3) unfolding fences_ok_def fenced_def by (metis option.distinct(1))
  then have closes: "closes n [i] ?s" using assms(2,3) unfolding closes_def by auto
  have cu: "cut [i] (unreserve n ?s) u" using d(2) same by simp
  have sums: "asum f (rs_runs u) + f e = asum f (rs_runs ?s)" for f using cut_asum [OF d(2), of f] assms(2) by simp
  note f = cut_fields [OF d(2)]
  have reserved: "asum (reserved_metadata u) (rs_reservations u) = asum (reserved_metadata ?s) (rs_reservations ?s)"
    using reserved_cut [OF parts(3) closes cu] n delete_id [of n "rs_reservations ?s"] by (simp add: map_of_notin)
  have good: "budget_good (rs_control_budget u)" "memory_of e \<le> bb_used (rs_control_budget u)" "dead_permit e \<le> rs_live_resources u"
    "rs_live_resources u \<le> U64_MAX"
    using assms(1) sums [of memory_of] sums [of permit_of] f live_bounds [OF assms(1)]
    by (auto simp: registry_ok_def control_ok_def live_ok_def permit_split)
  have u': "drop_entry e u = u\<lparr>rs_live_resources := rs_live_resources u - dead_permit e,
     rs_control_budget := (rs_control_budget u)\<lparr>bb_used := bb_used (rs_control_budget u) - memory_of e\<rparr>\<rparr>"
    by (rule drop_entry_exact [OF good])
  have acc: "accounts_ok u"
  proof -
    have "length (rs_runs u) + 1 = length (rs_runs ?s)" using sums [of "\<lambda>_. 1"] by (simp add: asum_length)
    moreover have "rs_retained_metadata_bytes u = asum re_metadata_charge (rs_runs u)" using d(2) unfolding cut_def by blast
    ultimately show ?thesis
      using parts(4) f reserved sums [of re_metadata_charge] charge by (simp add: accounts_ok_def)
  qed
  have stops: "stops_ok (w\<lparr>w_reg := u\<rparr>)" using stops_cut [OF _ d(2)] assms(1,4) by (simp add: registry_ok_def)
  have removals: "removals_ok (w\<lparr>w_reg := u, w_removals := remove1 i (w_removals w)\<rparr>)"
    using assms(1) cut_lookup [OF d(2)] by (auto simp: registry_ok_def removals_ok_def)
  let ?w = "w\<lparr>w_reg := drop_entry e u, w_removals := remove1 i (w_removals w), w_floating := w_floating w + floated [i] (w_reg w)\<rparr>"
  have "live_ok ?w"
    using assms(1,2) sums [of permit_of] f good(3) unfolding registry_ok_def live_ok_def u' by (auto simp: floated_eq permit_split)
  moreover have "handles_ok ?w" by (rule handles_cong [of w]) (use assms(1) f in \<open>auto simp: registry_ok_def u'\<close>)
  moreover have "control_ok ?w"
    using assms(1) sums [of memory_of] f good(2) unfolding registry_ok_def control_ok_def u' by (auto simp: budget_good_def)
  moreover have "stops_ok ?w" by (rule stops_cong [OF stops]) (simp_all add: u')
  moreover have "removals_ok ?w" by (rule removals_cong [OF removals]) (simp_all add: u')
  moreover have "entries_ok u" "keys_ok u" using d(2) unfolding cut_def by blast+
  ultimately show ?thesis using d(1) acc fences_cut [OF parts(3) closes cu] by (simp add: registry_ok_def u')
qed

lemma removable:
  assumes "validate_removable_entry i s = Inr e"
  shows "map_of (rs_runs s) i = Some e" "re_residency e = Retained" "re_strong e = 1" "\<not> reg_running (re_run e)"
    "collection_ordinal (re_run e) \<noteq> None"
  using assms by (auto simp: validate_removable_entry_def split: option.splits if_splits)

lemma removable_free: "registry_ok w \<Longrightarrow> validate_removable_entry i (w_reg w) = Inr e \<Longrightarrow> \<not> settling i w"
  using removable [of i "w_reg w" e] settling_strong [of w i e] by auto

lemma not_removing: "registry_ok w \<Longrightarrow> map_of (rs_runs (w_reg w)) i = Some e \<Longrightarrow> re_residency e \<noteq> Removing \<Longrightarrow> i \<notin> set (w_removals w)"
  by (simp add: registry_ok_def removals_ok_def)

lemma remove_memory_ok:
  assumes "registry_ok w" "remove_memory i (w_reg w) = Some (r, s)"
  shows "registry_ok (w\<lparr>w_reg := s\<rparr>)"
proof (cases "\<exists>e. validate_removable_entry i (w_reg w) = Inr e \<and> detach_collection_descriptors (re_run e) = Inr ()")
  case False
  then have "s = w_reg w"
    using assms(2) by (auto simp: remove_memory_def take_removable_entry_def split: sum.splits)
  then show ?thesis using assms(1) by simp
next
  case True
  then obtain e where e: "validate_removable_entry i (w_reg w) = Inr e" "detach_collection_descriptors (re_run e) = Inr ()" by blast
  note m = removable [OF e(1)]
  obtain d u where u: "remove_registry_entry i (w_reg w) = Some (d, u)" "s = drop_entry d u"
    using assms(2) e by (auto simp: remove_memory_def take_removable_entry_def)
  have d: "d = e" and ok: "registry_ok (w\<lparr>w_reg := drop_entry e u, w_removals := remove1 i (w_removals w),
    w_floating := w_floating w + floated [i] (w_reg w)\<rparr>)"
    using remove_world [OF assms(1) m(1) _ removable_free [OF assms(1) e(1)] u(1)] m(2) by auto
  have "remove1 i (w_removals w) = w_removals w" "floated [i] (w_reg w) = 0"
    using not_removing [OF assms(1) m(1)] m by (simp_all add: remove1_idem floated_eq held_permit_def)
  then show ?thesis using ok u(2) d by simp
qed

lemma removing_entry:
  assumes "registry_ok w" "i \<in> set (w_removals w)"
  obtains e where "map_of (rs_runs (w_reg w)) i = Some e" "re_residency e = Removing" "\<not> settling i w"
proof -
  obtain e where e: "map_of (rs_runs (w_reg w)) i = Some e" "re_residency e = Removing"
    using assms by (auto simp: registry_ok_def removals_ok_def)
  then show ?thesis using settling_strong [OF assms(1), of i e] that [of e] by auto
qed

lemma removal_commit_ok:
  assumes "registry_ok w" "i \<in> set (w_removals w)" "removal_commit i (w_reg w) = Some s"
  shows "registry_ok (w\<lparr>w_reg := s, w_removals := remove1 i (w_removals w), w_floating := w_floating w + floated [i] (w_reg w)\<rparr>)"
proof -
  obtain e where e: "map_of (rs_runs (w_reg w)) i = Some e" "re_residency e = Removing" "\<not> settling i w"
    using removing_entry [OF assms(1,2)] .
  obtain d u where u: "remove_registry_entry i (w_reg w) = Some (d, u)" "s = drop_entry d u"
    using assms(3) by (auto simp: removal_commit_def)
  then show ?thesis using remove_world [OF assms(1) e(1) _ e(3) u(1)] e(2) by auto
qed

text \<open>Fencing and unfencing an entry for a removal.\<close>

lemma fence_removal_ok:
  assumes "registry_ok w" "map_of (rs_runs (w_reg w)) i = Some e" "\<not> settling i w"
    "re_residency e = Retained \<and> x = Removing \<and> rs = i # w_removals w \<or> re_residency e = Removing \<and> x = Retained \<and> rs = remove1 i (w_removals w)"
  shows "registry_ok (w\<lparr>w_reg := modify_entry i (\<lambda>e. e\<lparr>re_residency := x\<rparr>) (w_reg w), w_removals := rs\<rparr>)"
proof -
  let ?f = "\<lambda>e. e\<lparr>re_residency := x\<rparr>"
  let ?t = "modify_entry i ?f (w_reg w)"
  have strong: "1 \<le> re_strong e" using assms by (simp add: registry_ok_def entries_ok_def)
  have rt: "retouched (w_reg w) ?t" using retouch_entry [of "w_reg w" i ?f] assms strong by (simp add: registry_ok_def core_def)
  have runs: "map_of (rs_runs ?t) j = (if j = i then Some (e\<lparr>re_residency := x\<rparr>) else map_of (rs_runs (w_reg w)) j)" for j
    using assms(2) by (simp add: modify_entry_def del: map_of_eq_Some_iff)
  have "stops_ok (w\<lparr>w_reg := ?t\<rparr>)"
  proof (rule stops_retouched [OF rt])
    show "stops_ok w" using assms(1) by (simp add: registry_ok_def)
    show "re_residency e' = Retained \<and> 2 \<le> re_strong e'" if "st \<in> set (w_settlements w)" "map_of (rs_runs ?t) (ss_id st) = Some e'" for st e'
      using that assms(3) settling_strong [OF assms(1), of "ss_id st" e'] by (auto simp: runs settling_def split: if_splits)
  qed
  then have stops: "stops_ok (w\<lparr>w_reg := ?t, w_removals := rs\<rparr>)" by (rule stops_cong) simp_all
  have "reservation_ok ?t n v" if "reservation_ok (w_reg w) n v" for n v
  proof -
    have "i \<notin> set (rv_candidates v)" "rv_new_run_id v \<noteq> i" using that assms(2,4) by (auto simp: reservation_ok_def)
    then show ?thesis using that unfolding reservation_ok_def by (auto simp: runs retouched_fields [OF rt])
  qed
  moreover have "fenced (map_of (rs_reservations (w_reg w))) (map_of (rs_runs ?t))"
  proof -
    have "fenced (map_of (rs_reservations (w_reg w))) (map_of (rs_runs (w_reg w)))" using assms(1) by (simp add: registry_ok_def fences_ok_def)
    moreover have "\<not> (\<exists>n. x = Collecting n)" using assms(4) by auto
    ultimately show ?thesis unfolding fenced_def runs by auto
  qed
  ultimately have fences: "fences_ok ?t" using assms(1) by (simp add: registry_ok_def fences_ok_def retouched_fields [OF rt])
  have removals: "removals_ok (w\<lparr>w_reg := ?t, w_removals := rs\<rparr>)"
    using assms(1,2,4) by (auto simp: registry_ok_def removals_ok_def runs)
  have permits: "asum permit_of (rs_runs ?t) = asum permit_of (rs_runs (w_reg w))" by (simp add: modify_entry_def)
  show ?thesis
    using assms(1) retouched_ok [OF rt] retouched_fields [OF rt] retouched_asum [OF rt] stops fences removals permits
    by (simp add: registry_ok_def live_ok_def handles_ok_def control_ok_def)
qed

lemma begin_removal_ok:
  assumes "registry_ok w" "begin_persistent_removal i (w_reg w) = (Inr c, s)"
  shows "registry_ok (w\<lparr>w_reg := s, w_removals := i # w_removals w\<rparr>)"
proof -
  obtain e where e: "validate_removable_entry i (w_reg w) = Inr e" "s = modify_entry i (\<lambda>e. e\<lparr>re_residency := Removing\<rparr>) (w_reg w)"
    using assms(2) by (auto simp: begin_persistent_removal_def split: sum.splits option.splits)
  note m = removable [OF e(1)]
  show ?thesis unfolding e(2)
    by (rule fence_removal_ok [OF assms(1) m(1) removable_free [OF assms(1) e(1)]]) (use m(2) in simp)
qed

lemma removal_drop_ok:
  assumes "registry_ok w" "i \<in> set (w_removals w)"
  shows "registry_ok (w\<lparr>w_reg := removal_drop i (w_reg w), w_removals := remove1 i (w_removals w)\<rparr>)"
proof -
  obtain e where e: "map_of (rs_runs (w_reg w)) i = Some e" "re_residency e = Removing" "\<not> settling i w"
    using removing_entry [OF assms] .
  show ?thesis unfolding removal_drop_def by (rule fence_removal_ok [OF assms(1) e(1,3)]) (use e(2) in simp)
qed

end
