(* ===== verification/Registry_Steps.thy ===== *)
theory Registry_Steps
  imports Registry_Invariant
begin

text \<open>
  The remaining steps of the registry: publication (exact replacement), abandoned and unresolved
  reservations, admission of a new reservation, and the Stop operations; then the theorems on every
  reachable state.
\<close>

section \<open>A Run enters the registry\<close>

lemma insert_fields [simp]:
  "rs_runs (register_run e key u) = AList.update (rn_id (re_run e)) e (rs_runs u)"
  "rs_stop_runs (register_run e key u) = rs_stop_runs u" "rs_reservations (register_run e key u) = rs_reservations u"
  "rs_next_ticket (register_run e key u) = rs_next_ticket u" "rs_record_capacity (register_run e key u) = rs_record_capacity u"
  "rs_live_capacity (register_run e key u) = rs_live_capacity u" "rs_live_resources (register_run e key u) = rs_live_resources u"
  "rs_metadata_capacity (register_run e key u) = rs_metadata_capacity u" "rs_control_budget (register_run e key u) = rs_control_budget u"
  "rs_cells (register_run e key u) = rs_cells u"
  "rs_creation_runs (register_run e key u) =
     (case key of None \<Rightarrow> rs_creation_runs u | Some k \<Rightarrow> AList.update k (rn_id (re_run e)) (rs_creation_runs u))"
  "rs_retained_metadata_bytes (register_run e key u) = wrapping_add (rs_retained_metadata_bytes u) (re_metadata_charge e)"
  by (simp_all add: register_run_def)

lemma insert_tables:
  assumes "entries_ok u" "keys_ok u" "map_of (rs_runs u) (rn_id (re_run e)) = None" "1 \<le> re_strong e"
    "re_stop_operation e = None" "\<And>k. re_operation_key e = Some k \<Longrightarrow> map_of (rs_creation_runs u) k = None"
  shows "entries_ok (register_run e (re_operation_key e) u)" "keys_ok (register_run e (re_operation_key e) u)"
proof -
  let ?i = "rn_id (re_run e)"
  show "entries_ok (register_run e (re_operation_key e) u)"
    using assms(1,3,4) by (auto simp: entries_ok_def update_conv' distinct_update simp del: map_of_eq_Some_iff split: if_splits)
  have "index_ok re_operation_key (case re_operation_key e of None \<Rightarrow> rs_creation_runs u | Some k \<Rightarrow> AList.update k ?i (rs_creation_runs u))
      (AList.update ?i e (rs_runs u))"
    using assms(2,3,6) by (intro index_insert) (auto simp: keys_ok_def)
  moreover have "index_ok stop_key (rs_stop_runs u) (AList.update ?i e (rs_runs u))"
    using index_insert [of stop_key "rs_stop_runs u" "rs_runs u" ?i e] assms(2,3,5) by (simp add: keys_ok_def stop_key_def)
  ultimately show "keys_ok (register_run e (re_operation_key e) u)" by (simp add: keys_ok_def)
qed

lemma insert_fences:
  assumes "fences_ok u" "map_of (rs_runs u) (rn_id (re_run e)) = None" "re_residency e = Retained"
    "\<And>n v. map_of (rs_reservations u) n = Some v \<Longrightarrow> rv_new_run_id v \<noteq> rn_id (re_run e) \<and> (\<forall>k. key = Some k \<longrightarrow> rv_operation_key v \<noteq> Some k)"
  shows "fences_ok (register_run e key u)"
proof -
  let ?i = "rn_id (re_run e)"
  have "reservation_ok (register_run e key u) n v" if n: "map_of (rs_reservations u) n = Some v" for n v
  proof -
    have v: "reservation_ok u n v" using assms(1) n unfolding fences_ok_def by blast
    then have "?i \<notin> set (rv_candidates v)" using assms(2) by (auto simp: reservation_ok_def)
    then show ?thesis using v assms(4) [OF n] by (auto simp: reservation_ok_def update_conv' split: option.splits)
  qed
  moreover have "fenced (map_of (rs_reservations u)) (map_of (rs_runs (register_run e key u)))"
    using assms(1,3) by (auto simp: fences_ok_def fenced_def update_conv')
  ultimately show ?thesis using assms(1) by (simp add: fences_ok_def)
qed

lemma insert_reserved:
  assumes "fences_ok u" "map_of (rs_runs u) (rn_id (re_run e)) = None"
  shows "asum (reserved_metadata (register_run e key u)) (rs_reservations u) = asum (reserved_metadata u) (rs_reservations u)"
proof (rule asum_cong)
  fix n v
  assume "(n, v) \<in> set (rs_reservations u)"
  then have "reservation_ok u n v" using assms(1) unfolding fences_ok_def by (metis map_of_is_SomeI)
  then show "reserved_metadata (register_run e key u) v = reserved_metadata u v"
    using assms(2) by (intro reserved_cong) (auto simp: reservation_ok_def update_conv')
qed

lemma insert_asum:
  "map_of (rs_runs u) (rn_id (re_run e)) = None \<Longrightarrow> asum f (rs_runs (register_run e key u)) = asum f (rs_runs u) + f e"
  by (simp add: asum_update map_of_notin)

lemma insert_stops:
  assumes "stops_ok (w\<lparr>w_reg := u\<rparr>)" "map_of (rs_runs u) (rn_id (re_run e)) = None" "re_stop_operation e = None"
  shows "stops_ok (w\<lparr>w_reg := register_run e key u\<rparr>)"
proof -
  let ?w = "w\<lparr>w_reg := u\<rparr>" and ?v = "w\<lparr>w_reg := register_run e key u\<rparr>"
  have old: "map_of (rs_runs u) i = Some a" if "map_of (rs_runs (register_run e key u)) i = Some a" "re_stop_operation a = Some r" for i a r
    using that assms(3) by (auto simp: update_conv' simp del: map_of_eq_Some_iff split: if_splits)
  have "in_flight (register_run e key u) st" if "st \<in> set (w_settlements w)" for st
    using assms(1,2) that by (auto simp: stops_ok_def in_flight_def update_conv')
  moreover have "record_ok ?v i r" if "map_of (rs_runs (register_run e key u)) i = Some a" "re_stop_operation a = Some r" for i a r
  proof -
    have "record_ok ?w i r" using old [OF that] that(2) assms(1) unfolding stops_ok_def by (metis registry_world.select_convs(1) registry_world.surjective registry_world.update_convs(1))
    then show ?thesis by (simp add: record_ok_def settling_def)
  qed
  moreover have "i = j" if "map_of (rs_runs (register_run e key u)) i = Some a" "re_stop_operation a = Some r"
    "map_of (rs_runs (register_run e key u)) j = Some b" "re_stop_operation b = Some q" "so_cell r = so_cell q" for i a r j b q
    using old [OF that(1,2)] old [OF that(3,4)] that assms(1) unfolding stops_ok_def by simp
  ultimately show ?thesis using assms(1) by (simp add: stops_ok_def)
qed

section \<open>Publication\<close>

lemma ticket_reservation:
  assumes "registry_ok w" "map_of (w_tickets w) t = Some h"
  obtains v where "map_of (rs_reservations (w_reg w)) t = Some v" "rv_new_metadata_bytes v = Some (pr_metadata_bytes h)"
    "reservation_ok (w_reg w) t v" "pr_ticket h = Some t" "pr_live_permit h"
proof -
  have h: "pr_ticket h = Some t" "pr_live_permit h" "map_option rv_new_metadata_bytes (map_of (rs_reservations (w_reg w)) t) = Some (Some (pr_metadata_bytes h))"
    using assms by (auto simp: registry_ok_def handles_ok_def)
  then obtain v where v: "map_of (rs_reservations (w_reg w)) t = Some v" "rv_new_metadata_bytes v = Some (pr_metadata_bytes h)" by auto
  then have "reservation_ok (w_reg w) t v" using assms(1) unfolding registry_ok_def fences_ok_def by blast
  then show ?thesis using that v h by blast
qed

lemma reservation_closes:
  assumes "fences_ok s" "map_of (rs_reservations s) t = Some v"
  shows "closes t (rv_candidates v) s"
proof -
  have "reservation_ok s t v" "fenced (map_of (rs_reservations s)) (map_of (rs_runs s))"
    using assms unfolding fences_ok_def by blast+
  then show ?thesis using assms(2) unfolding closes_def reservation_ok_def fenced_def by (metis option.inject registry_residency.inject)
qed

lemma unreserve_parts [simp]:
  "entries_ok (s\<lparr>rs_reservations := x\<rparr>) = entries_ok s" "keys_ok (s\<lparr>rs_reservations := x\<rparr>) = keys_ok s"
  "entries_ok (s\<lparr>rs_next_ticket := n\<rparr>) = entries_ok s" "keys_ok (s\<lparr>rs_next_ticket := n\<rparr>) = keys_ok s"
  by (simp_all add: entries_ok_def keys_ok_def)

lemma handles_delete:
  assumes "handles_ok w" "map_of (w_tickets w) t = Some h"
    "rs_reservations (w_reg v) = AList.delete t (rs_reservations (w_reg w))" "w_tickets v = AList.delete t (w_tickets w)" "w_unresolved v = w_unresolved w"
  shows "handles_ok v"
proof -
  have d: "distinct (map fst (w_tickets w) @ w_unresolved w)" "set (map fst (w_tickets w) @ w_unresolved w) = fst ` set (rs_reservations (w_reg w))"
    using assms(1) by (simp_all add: handles_ok_def)
  have t: "t \<in> set (map fst (w_tickets w))" using assms(2) by (metis list.set_map map_of_eq_None_iff option.distinct(1))
  have keys: "map fst (w_tickets v) = removeAll t (map fst (w_tickets w))" using assms(4) by (simp add: delete_keys)
  have "fst ` set (rs_reservations (w_reg v)) = fst ` set (rs_reservations (w_reg w)) - {t}"
    unfolding assms(3) by (metis delete_keys list.set_map set_removeAll)
  then have "set (map fst (w_tickets v) @ w_unresolved v) = fst ` set (rs_reservations (w_reg v))"
    using d t unfolding keys assms(5) by auto
  moreover have "distinct (map fst (w_tickets v) @ w_unresolved v)" using d(1) unfolding keys assms(5) by (auto simp: distinct_removeAll)
  moreover have "pr_ticket h = Some x \<and> pr_live_permit h
      \<and> map_option rv_new_metadata_bytes (map_of (rs_reservations (w_reg v)) x) = Some (Some (pr_metadata_bytes h))"
    if "map_of (w_tickets v) x = Some h" for x h
    using assms(1) that unfolding assms(3,4) handles_ok_def by (auto simp: delete_conv' simp del: map_of_eq_Some_iff split: if_splits)
  ultimately show ?thesis by (simp add: handles_ok_def)
qed

lemma tickets_length:
  assumes "handles_ok w" "map_of (w_tickets w) t = Some h"
  shows "length (AList.delete t (w_tickets w)) + 1 = length (w_tickets w)"
  using asum_delete [of "w_tickets w" t h "\<lambda>_. Suc 0"] assms by (simp add: asum_length handles_ok_def)

text \<open>The accounts after an exact replacement: what the reservation funded covers the new Run.\<close>

lemma publish_accounts:
  assumes "accounts_ok s" "fences_ok s" "map_of (rs_reservations s) t = Some v" "rv_new_metadata_bytes v = Some n"
    "cut (rv_candidates v) (unreserve t s) u" "fences_ok u" "map_of (rs_runs u) (rn_id (re_run e)) = None" "re_metadata_charge e \<le> n"
  shows "accounts_ok (register_run e key u)"
proof -
  let ?is = "rv_candidates v"
  note f = cut_fields [OF assms(5)]
  have d: "distinct (map fst (rs_reservations s))" using assms(2) by (simp add: fences_ok_def)
  have present: "\<forall>i\<in>set ?is. map_of (rs_runs s) i \<noteq> None"
    using assms(2,3) unfolding fences_ok_def reservation_ok_def by (metis option.distinct(1))
  have sums: "asum g (rs_runs u) + csum g (rs_runs s) ?is = asum g (rs_runs s)" for g using cut_asum [OF assms(5), of g] by simp
  have res: "asum (reserved_metadata u) (rs_reservations u) + reserved_metadata s v = asum (reserved_metadata s) (rs_reservations s)"
    using reserved_cut [OF assms(2) reservation_closes [OF assms(2,3)] assms(5)] asum_delete [OF d assms(3), of "reserved_metadata s"] by simp
  have burden: "asum burden_of (rs_reservations u) + burden_of v = asum burden_of (rs_reservations s)"
    using asum_delete [OF d assms(3), of burden_of] f(1) by simp
  have v: "reserved_metadata s v = n - csum re_metadata_charge (rs_runs s) ?is" using assms(4) by (simp add: reserved_csum)
  have kept: "rs_retained_metadata_bytes u = asum re_metadata_charge (rs_runs u)" using assms(5) unfolding cut_def by blast
  have old: "rs_retained_metadata_bytes s = asum re_metadata_charge (rs_runs s)"
    "rs_retained_metadata_bytes s + asum (reserved_metadata s) (rs_reservations s) \<le> rs_metadata_capacity s"
    "rs_metadata_capacity s \<le> U64_MAX" "length (rs_runs s) + asum burden_of (rs_reservations s) \<le> rs_record_capacity s"
    using assms(1) by (simp_all add: accounts_ok_def)
  have bound: "rs_retained_metadata_bytes u + re_metadata_charge e + asum (reserved_metadata u) (rs_reservations u) \<le> rs_metadata_capacity s"
    using old(1,2) kept sums [of re_metadata_charge] res v assms(8) by linarith
  then have exact: "wrapping_add (rs_retained_metadata_bytes u) (re_metadata_charge e) = rs_retained_metadata_bytes u + re_metadata_charge e"
    using old(3) by (intro wrapping_add_exact) linarith
  have "csum (\<lambda>_. Suc 0) (rs_runs s) is = length is" if "\<forall>i\<in>set is. map_of (rs_runs s) i \<noteq> None" for "is"
    using that by (induction "is") auto
  then have len: "length (rs_runs u) + length ?is = length (rs_runs s)" using sums [of "\<lambda>_. Suc 0"] present by (simp add: asum_length)
  have "length (rs_runs (register_run e key u)) = length (rs_runs u) + 1"
    using insert_asum [OF assms(7), of "\<lambda>_. Suc 0" key] by (simp add: asum_length)
  moreover have "length (rs_runs u) + 1 + asum burden_of (rs_reservations u) \<le> rs_record_capacity s"
    using len burden old(4) by (cases "?is = []") (auto simp: neq_Nil_conv)
  moreover have "asum (reserved_metadata (register_run e key u)) (rs_reservations u) = asum (reserved_metadata u) (rs_reservations u)"
    by (rule insert_reserved [OF assms(6,7)])
  moreover have "asum re_metadata_charge (rs_runs (register_run e key u)) = asum re_metadata_charge (rs_runs u) + re_metadata_charge e"
    by (rule insert_asum [OF assms(7)])
  ultimately show ?thesis
    using bound exact old(3) kept f unfolding accounts_ok_def insert_fields(3,5,8,12) by simp
qed

lemma publish_world:
  assumes "registry_ok w" "map_of (w_tickets w) t = Some h" "map_of (rs_reservations (w_reg w)) t = Some v"
    "rn_id (re_run e) = rv_new_run_id v" "re_operation_key e = rv_operation_key v" "re_stop_operation e = None"
    "re_residency e = Retained" "1 \<le> re_strong e" "rn_live_permit (re_run e)" "re_metadata_charge e \<le> pr_metadata_bytes h"
  obtains removed u where "consume_reservation h (w_reg w) = Some (removed, rv_operation_key v, u)"
    "registry_ok (w\<lparr>w_reg := fold drop_entry removed (register_run e (rv_operation_key v) u),
       w_tickets := AList.delete t (w_tickets w), w_floating := w_floating w + floated (rv_candidates v) (w_reg w)\<rparr>)"
proof -
  let ?s = "w_reg w" and ?is = "rv_candidates v"
  have ok: "entries_ok ?s" "keys_ok ?s" "fences_ok ?s" "accounts_ok ?s" "handles_ok w" using assms(1) by (simp_all add: registry_ok_def)
  obtain v' where v': "map_of (rs_reservations ?s) t = Some v'" "rv_new_metadata_bytes v' = Some (pr_metadata_bytes h)"
    "reservation_ok ?s t v'" "pr_ticket h = Some t" "pr_live_permit h"
    using ticket_reservation [OF assms(1,2)] .
  then have v: "rv_new_metadata_bytes v = Some (pr_metadata_bytes h)" "reservation_ok ?s t v" using assms(3) by auto
  have present: "\<forall>i\<in>set ?is. map_of (rs_runs (unreserve t ?s)) i \<noteq> None" and di: "distinct ?is"
    using v(2) unfolding reservation_ok_def by auto
  have charge: "rs_retained_metadata_bytes (unreserve t ?s) = asum re_metadata_charge (rs_runs (unreserve t ?s))"
    using ok(4) by (simp add: accounts_ok_def)
  define removed where "removed = map (the \<circ> map_of (rs_runs ?s)) ?is"
  obtain u where u: "remove_entries ?is (unreserve t ?s) = Some (removed, u)" "cut ?is (unreserve t ?s) u"
    using remove_entries_cut [of "unreserve t ?s" ?is] ok(1,2) charge di present by (auto simp: removed_def)
  have consume: "consume_reservation h ?s = Some (removed, rv_operation_key v, u)"
    using u(1) v'(4) assms(3) by (simp add: consume_reservation_def)
  note closes = reservation_closes [OF ok(3) assms(3)]
  note f = cut_fields [OF u(2)]
  have runs: "map_of (rs_runs u) i = (if i \<in> set ?is then None else map_of (rs_runs ?s) i)" for i using cut_lookup [OF u(2)] by simp
  have new: "map_of (rs_runs u) (rn_id (re_run e)) = None" using v(2) assms(4) by (simp add: runs reservation_ok_def)
  have fu: "fences_ok u" by (rule fences_cut [OF ok(3) closes u(2)])
  have key: "map_of (rs_creation_runs u) k = None" if "re_operation_key e = Some k" for k
    using that assms(5) v(2) u(2) by (auto simp: reservation_ok_def cut_def)
  have apart: "rv_new_run_id x \<noteq> rn_id (re_run e) \<and> (\<forall>k. rv_operation_key v = Some k \<longrightarrow> rv_operation_key x \<noteq> Some k)"
    if "map_of (rs_reservations u) n = Some x" for n x
  proof -
    have "n \<noteq> t" "map_of (rs_reservations ?s) n = Some x"
      using that f(1) by (auto simp: delete_conv' simp del: map_of_eq_Some_iff split: if_splits)
    then show ?thesis using ok(3) assms(3,4) unfolding fences_ok_def apart_def by (metis option.distinct(1))
  qed
  let ?t = "register_run e (rv_operation_key v) u"
  have tables: "entries_ok ?t" "keys_ok ?t"
    using insert_tables [OF _ _ new assms(8,6) key] u(2) assms(5) by (auto simp: cut_def)
  have fences: "fences_ok ?t" by (rule insert_fences [OF fu new assms(7) apart])
  have accounts: "accounts_ok ?t" by (rule publish_accounts [OF ok(4,3) assms(3) v(1) u(2) fu new assms(10)])
  have not_settling: "\<forall>i\<in>set ?is. \<not> settling i w"
    using settling_strong [OF assms(1)] v(2) unfolding reservation_ok_def by (metis registry_residency.distinct(1))
  have stops: "stops_ok (w\<lparr>w_reg := ?t\<rparr>)"
    by (rule insert_stops [OF stops_cut [OF _ u(2)] new assms(6)]) (use assms(1) not_settling in \<open>auto simp: registry_ok_def\<close>)
  have sums: "asum g (rs_runs ?t) + csum g (rs_runs ?s) ?is = asum g (rs_runs ?s) + g e" for g
    using cut_asum [OF u(2), of g] insert_asum [OF new, of g] by simp
  have es: "sum_list (map g removed) = csum g (rs_runs ?s) ?is" for g
    unfolding removed_def using present by (intro csum_entries) simp
  have le: "csum g (rs_runs ?s) ?is \<le> asum g (rs_runs ?s)" for g using cut_asum [OF u(2), of g] by simp
  have drop: "fold drop_entry removed ?t = ?t\<lparr>rs_live_resources := rs_live_resources ?s - csum dead_permit (rs_runs ?s) ?is,
      rs_control_budget := (rs_control_budget ?s)\<lparr>bb_used := bb_used (rs_control_budget ?s) - csum memory_of (rs_runs ?s) ?is\<rparr>\<rparr>"
    using drop_entries_exact [of ?t removed] f es le [of memory_of] le [of permit_of] assms(1) live_bounds [OF assms(1)]
    by (auto simp: csum_permit registry_ok_def control_ok_def live_ok_def)
  let ?w = "w\<lparr>w_reg := fold drop_entry removed ?t, w_tickets := AList.delete t (w_tickets w), w_floating := w_floating w + floated ?is ?s\<rparr>"
  have "live_ok ?w"
    using assms(1,9) sums [of permit_of] csum_permit [of "rs_runs ?s" ?is] tickets_length [OF ok(5) assms(2)] f le [of permit_of]
    unfolding registry_ok_def live_ok_def drop by (auto simp: floated_eq)
  moreover have "handles_ok ?w" by (rule handles_delete [OF ok(5) assms(2)]) (simp_all add: drop f)
  moreover have "control_ok ?w"
    using assms(1,6) sums [of memory_of] le [of memory_of] unfolding registry_ok_def control_ok_def drop
    by (auto simp: budget_good_def memory_of_def [of e])
  moreover have "stops_ok ?w" by (rule stops_cong [OF stops]) (simp_all add: drop)
  moreover have "removals_ok ?w"
  proof -
    have "map_option re_residency (map_of (rs_runs ?t) i) = Some Removing \<longleftrightarrow> map_option re_residency (map_of (rs_runs ?s) i) = Some Removing" for i
      using v(2) assms(4,7) by (auto simp: update_conv' runs reservation_ok_def split: if_splits)
    then show ?thesis using assms(1) by (simp add: registry_ok_def removals_ok_def drop)
  qed
  ultimately show ?thesis using that [OF consume] tables fences accounts by (simp add: registry_ok_def drop)
qed

lemma publish_creation_ok:
  assumes "registry_ok w" "map_of (w_tickets w) t = Some h" "map_of (rs_reservations (w_reg w)) t = Some v"
    "rn_id run = rv_new_run_id v" "rv_operation_key v = Some key" "1 \<le> strong"
    "publication_charge ro run (pr_metadata_bytes h) \<le> pr_metadata_bytes h"
  shows "\<exists>s. publish_creation ro key run strong h (w_reg w) = Some (run\<lparr>rn_live_permit := True\<rparr>, s)
     \<and> registry_ok (w\<lparr>w_reg := s, w_tickets := AList.delete t (w_tickets w),
          w_floating := w_floating w + floated (rv_candidates v) (w_reg w)\<rparr>)"
proof -
  have live: "pr_live_permit h" using ticket_reservation [OF assms(1,2)] by blast
  let ?run = "run\<lparr>rn_live_permit := True\<rparr>"
  let ?e = "\<lparr>re_run = ?run, re_strong = strong, re_operation_key = rv_operation_key v, re_stop_operation = None,
     re_metadata_bytes = Some (chosen (rn_durable_metadata ?run) (pr_metadata_bytes h)),
     re_metadata_charge = publication_charge ro ?run (pr_metadata_bytes h), re_residency = Retained\<rparr>"
  have charge: "publication_charge ro ?run (pr_metadata_bytes h) \<le> pr_metadata_bytes h"
    using assms(7) by (simp add: publication_charge_def split: if_splits)
  obtain removed u where "consume_reservation h (w_reg w) = Some (removed, rv_operation_key v, u)"
    "registry_ok (w\<lparr>w_reg := fold drop_entry removed (register_run ?e (rv_operation_key v) u),
       w_tickets := AList.delete t (w_tickets w), w_floating := w_floating w + floated (rv_candidates v) (w_reg w)\<rparr>)"
    using publish_world [of w t h v ?e] assms(1-4,6) charge by auto
  then show ?thesis using live assms(5) by (simp add: publish_creation_def Let_def)
qed

lemma publish_unkeyed_ok:
  assumes "registry_ok w" "map_of (w_tickets w) t = Some h" "map_of (rs_reservations (w_reg w)) t = Some v"
    "rn_id run = rv_new_run_id v" "rv_operation_key v = None" "1 \<le> strong"
  shows "\<exists>s. publish_unkeyed run strong h (w_reg w) = Some s
     \<and> registry_ok (w\<lparr>w_reg := s, w_tickets := AList.delete t (w_tickets w),
          w_floating := w_floating w + floated (rv_candidates v) (w_reg w)\<rparr>)"
proof -
  have live: "pr_live_permit h" using ticket_reservation [OF assms(1,2)] by blast
  let ?e = "\<lparr>re_run = run\<lparr>rn_live_permit := True\<rparr>, re_strong = strong, re_operation_key = None, re_stop_operation = None,
     re_metadata_bytes = Some (pr_metadata_bytes h), re_metadata_charge = pr_metadata_bytes h, re_residency = Retained\<rparr>"
  obtain removed u where "consume_reservation h (w_reg w) = Some (removed, rv_operation_key v, u)"
    "registry_ok (w\<lparr>w_reg := fold drop_entry removed (register_run ?e (rv_operation_key v) u),
       w_tickets := AList.delete t (w_tickets w), w_floating := w_floating w + floated (rv_candidates v) (w_reg w)\<rparr>)"
    using publish_world [of w t h v ?e] assms by auto
  then show ?thesis using live assms(5) by (simp add: publish_unkeyed_def Let_def)
qed

section \<open>Reservations that are not published\<close>

text \<open>Restoring a reservation: its candidates are ordinary entries again.\<close>

lemma restored_parts:
  assumes "registry_ok w" "map_of (rs_reservations (w_reg w)) t = Some v"
  defines "u \<equiv> (w_reg w)\<lparr>rs_runs := resid Retained (rv_candidates v) (rs_runs (w_reg w)), rs_reservations := AList.delete t (rs_reservations (w_reg w))\<rparr>"
  shows "restore_reservation t (w_reg w) = Some u" "entries_ok u" "keys_ok u" "fences_ok u" "accounts_ok u"
    "removals_ok (w\<lparr>w_reg := u\<rparr>)" "stops_ok (w\<lparr>w_reg := u\<rparr>)"
proof -
  let ?s = "w_reg w" and ?is = "rv_candidates v"
  let ?m = "?s\<lparr>rs_runs := resid Retained ?is (rs_runs ?s)\<rparr>"
  have u: "u = unreserve t ?m" by (simp add: u_def)
  have ok: "entries_ok ?s" "keys_ok ?s" "fences_ok ?s" "accounts_ok ?s" using assms(1) by (simp_all add: registry_ok_def)
  have v: "reservation_ok ?s t v" using ok(3) assms(2) unfolding fences_ok_def by blast
  have "restore_candidates ?is (unreserve t ?s) = Some (unreserve t ?s\<lparr>rs_runs := resid Retained ?is (rs_runs (unreserve t ?s))\<rparr>)"
    by (rule restore_resid) (use v in \<open>auto simp: reservation_ok_def\<close>)
  then show "restore_reservation t ?s = Some u" using assms(2) by (simp add: restore_reservation_def u_def)
  note rt = retouch_resid [OF ok(1), of Retained ?is]
  have runs: "map_of (rs_runs u) i = (if i \<in> set ?is then map_option (\<lambda>e. e\<lparr>re_residency := Retained\<rparr>) (map_of (rs_runs ?s) i) else map_of (rs_runs ?s) i)" for i
    by (simp add: u_def map_of_resid)
  have m: "map_of (rs_reservations u) = (map_of (rs_reservations ?s))(t := None)" by (simp add: u_def delete_conv')
  show "entries_ok u" "keys_ok u" using retouched_ok(1,2) [OF rt] ok by (simp_all add: u)
  note closes = reservation_closes [OF ok(3) assms(2)]
  have "reservation_ok u n x" if "map_of (rs_reservations u) n = Some x" for n x
  proof -
    have n: "n \<noteq> t" "reservation_ok ?s n x" using that ok(3) by (auto simp: m fences_ok_def split: if_splits)
    have "i \<notin> set ?is" if "i \<in> set (rv_candidates x)" for i
      using n that closes unfolding reservation_ok_def closes_def by (metis option.inject registry_residency.inject)
    then show ?thesis using n(2) unfolding reservation_ok_def by (auto simp: runs) (auto simp: u_def)
  qed
  moreover have "fenced (map_of (rs_reservations u)) (map_of (rs_runs u))"
    using ok(3) closes unfolding fences_ok_def fenced_def closes_def m runs
    by (auto simp del: map_of_eq_Some_iff split: if_splits)
  ultimately show "fences_ok u" using ok(3) apart_delete unfolding fences_ok_def m by (auto simp: u_def distinct_delete)
  have d: "distinct (map fst (rs_reservations ?s))" using ok(3) by (simp add: fences_ok_def)
  have "accounts_ok ?m" using retouched_ok(3) [OF rt ok(4)] .
  then show "accounts_ok u"
    using asum_delete [OF d assms(2), of "reserved_metadata ?m"] asum_delete [OF d assms(2), of burden_of] by (auto simp: u accounts_ok_def)
  show "removals_ok (w\<lparr>w_reg := u\<rparr>)"
    using assms(1) v unfolding registry_ok_def removals_ok_def reservation_ok_def by (auto simp: runs)
  have "stops_ok (w\<lparr>w_reg := ?m\<rparr>)"
  proof (rule stops_retouched [OF rt])
    show "stops_ok w" using assms(1) by (simp add: registry_ok_def)
    show "re_residency e = Retained \<and> 2 \<le> re_strong e" if "st \<in> set (w_settlements w)" "map_of (rs_runs ?m) (ss_id st) = Some e" for st e
      using settling_strong [OF assms(1), of "ss_id st"] that
      by (auto simp: settling_def map_of_resid simp del: map_of_eq_Some_iff split: if_splits)
  qed
  then show "stops_ok (w\<lparr>w_reg := u\<rparr>)" by (rule stops_cong) (simp_all add: u)
qed

lemma abandon_ok:
  assumes "registry_ok w" "map_of (w_tickets w) t = Some h"
  shows "\<exists>s. publication_drop h (w_reg w) = Some s \<and> registry_ok (w\<lparr>w_reg := s, w_tickets := AList.delete t (w_tickets w)\<rparr>)"
proof -
  obtain v where v: "map_of (rs_reservations (w_reg w)) t = Some v" "pr_ticket h = Some t" "pr_live_permit h"
    using ticket_reservation [OF assms] by metis
  let ?u = "(w_reg w)\<lparr>rs_runs := resid Retained (rv_candidates v) (rs_runs (w_reg w)), rs_reservations := AList.delete t (rs_reservations (w_reg w))\<rparr>"
  note p = restored_parts [OF assms(1) v(1)]
  have h: "handles_ok w" using assms(1) by (simp add: registry_ok_def)
  note len = tickets_length [OF h assms(2)]
  have live: "1 \<le> rs_live_resources (w_reg w)" "rs_live_resources (w_reg w) \<le> U64_MAX"
    using len live_bounds [OF assms(1)] assms(1) by (auto simp: registry_ok_def live_ok_def)
  have drop: "publication_drop h (w_reg w) = Some (?u\<lparr>rs_live_resources := rs_live_resources (w_reg w) - 1\<rparr>)"
    using v p(1) drop_live_permit_exact [of True ?u] live by (simp add: publication_drop_def)
  let ?w = "w\<lparr>w_reg := ?u\<lparr>rs_live_resources := rs_live_resources (w_reg w) - 1\<rparr>, w_tickets := AList.delete t (w_tickets w)\<rparr>"
  have "live_ok ?w" using assms(1) len unfolding registry_ok_def live_ok_def by auto
  moreover have "handles_ok ?w" by (rule handles_delete [OF h assms(2)]) simp_all
  moreover have "control_ok ?w" using assms(1) by (simp add: registry_ok_def control_ok_def memory_of_def [abs_def])
  moreover have "stops_ok ?w" by (rule stops_cong [OF p(7)]) simp_all
  moreover have "removals_ok ?w" by (rule removals_cong [OF p(6)]) simp_all
  ultimately have "registry_ok ?w" using p(2-5) unfolding registry_ok_def by simp
  then show ?thesis using drop by blast
qed

lemma unresolved_ok:
  assumes "registry_ok w" "map_of (w_tickets w) t = Some h"
  shows "registry_ok (w\<lparr>w_tickets := AList.delete t (w_tickets w), w_unresolved := t # w_unresolved w\<rparr>)"
proof -
  let ?w = "w\<lparr>w_tickets := AList.delete t (w_tickets w), w_unresolved := t # w_unresolved w\<rparr>"
  have h: "handles_ok w" using assms(1) by (simp add: registry_ok_def)
  have t: "t \<in> set (map fst (w_tickets w))" using assms(2) by (metis list.set_map map_of_eq_None_iff option.distinct(1))
  have "handles_ok ?w"
    using h t unfolding handles_ok_def
    by (auto simp: delete_keys delete_conv' distinct_removeAll simp del: map_of_eq_Some_iff split: if_splits)
  moreover have "live_ok ?w" using assms(1) tickets_length [OF h assms(2)] by (auto simp: registry_ok_def live_ok_def)
  moreover have "stops_ok ?w" by (rule stops_cong [of w]) (use assms(1) in \<open>auto simp: registry_ok_def\<close>)
  ultimately show ?thesis using assms(1) by (simp add: registry_ok_def removals_ok_def control_ok_def)
qed

section \<open>Admission of a reservation\<close>

lemma take_candidates_prefix:
  "take_candidates nr tf ch ordered (cs, m) = (cs', m') \<Longrightarrow>
   \<exists>k. cs' = cs @ take k ordered \<and> m' \<le> m + sum_list (map ch (take k ordered))"
proof (induction ordered arbitrary: cs m)
  case (Cons i ordered)
  show ?case
  proof (cases "(\<not> nr \<or> cs \<noteq> []) \<and> m \<ge> tf")
    case True
    then show ?thesis using Cons.prems by (intro exI [of _ 0]) simp
  next
    case False
    then have "take_candidates nr tf ch ordered (cs @ [i], saturating_add m (ch i)) = (cs', m')" using Cons.prems by auto
    then obtain k where k: "cs' = (cs @ [i]) @ take k ordered" "m' \<le> saturating_add m (ch i) + sum_list (map ch (take k ordered))"
      using Cons.IH by blast
    have "saturating_add m (ch i) \<le> m + ch i" by (simp add: saturating_add_def)
    then show ?thesis using k by (intro exI [of _ "Suc k"]) auto
  qed
qed simp

lemma collection_order_mem:
  assumes "i \<in> set (collection_order n s)"
  obtains e where "(i, e) \<in> set (rs_runs s)" "re_residency e = Retained" "re_strong e = 1" "collection_ordinal (re_run e) \<noteq> None"
  using assms unfolding collection_order_def
  by (fastforce simp: List.map_filter_def collection_key_def split: if_splits)

lemma collection_order_distinct:
  assumes "distinct (map fst (rs_runs s))"
  shows "distinct (collection_order n s)"
proof -
  have "map snd (List.map_filter (collection_key n) xs) = map fst (filter (\<lambda>x. collection_key n x \<noteq> None) xs)" for xs
    by (induction xs) (auto simp: collection_key_def split: if_splits option.splits)
  then have "distinct (map snd (List.map_filter (collection_key n) (rs_runs s)))" using assms by (simp add: distinct_map_filter)
  then show ?thesis unfolding collection_order_def
    using mset_eq_imp_distinct_iff [of "map snd (sort (List.map_filter (collection_key n) (rs_runs s)))" "map snd (List.map_filter (collection_key n) (rs_runs s))"]
    by simp
qed

lemma select_spec:
  assumes "accounts_ok s" "entries_ok s" "snd (select_publication_candidates (Some n) s) = Inr is" "rs_metadata_capacity s + n \<le> U64_MAX"
  shows "distinct is"
    "\<forall>i\<in>set is. \<exists>e. map_of (rs_runs s) i = Some e \<and> re_residency e = Retained \<and> re_strong e = 1 \<and> collection_ordinal (re_run e) \<noteq> None"
    "length (rs_runs s) + asum burden_of (rs_reservations s) + of_bool (is = []) \<le> rs_record_capacity s"
    "rs_retained_metadata_bytes s + asum (reserved_metadata s) (rs_reservations s) + (n - csum re_metadata_charge (rs_runs s) is) \<le> rs_metadata_capacity s"
proof -
  define fund where "fund = metadata_to_fund (Some n) s"
  define needs where "needs \<longleftrightarrow> length (rs_runs s) + projected_record_burden s \<ge> rs_record_capacity s"
  have d: "distinct (map fst (rs_runs s))" using assms(2) by (simp add: entries_ok_def)
  have old: "rs_retained_metadata_bytes s + asum (reserved_metadata s) (rs_reservations s) \<le> rs_metadata_capacity s"
    "length (rs_runs s) + asum burden_of (rs_reservations s) \<le> rs_record_capacity s" using assms(1) by (simp_all add: accounts_ok_def)
  have fund: "fund = rs_retained_metadata_bytes s + asum (reserved_metadata s) (rs_reservations s) + n - rs_metadata_capacity s"
    using projected_eq [OF assms(1)] old(1) assms(4) by (simp add: fund_def metadata_to_fund_def saturating_sub_def)
  obtain k where k: "is = take k (collection_order (Some n) s)" "fund \<le> csum re_metadata_charge (rs_runs s) is" "needs \<longrightarrow> is \<noteq> []"
  proof (cases "\<not> needs \<and> fund = 0")
    case True
    then have "is = []" using assms(3) by (simp add: select_publication_candidates_def needs_def fund_def)
    then show ?thesis using that [of 0] True by simp
  next
    case False
    obtain cs m where t: "take_candidates needs fund (entry_charge s) (collection_order (Some n) s) ([], 0) = (cs, m)" by fastforce
    have c: "is = cs" "\<not> (needs \<and> cs = [])" "fund \<le> m"
      using assms(3) False t unfolding select_publication_candidates_def Let_def needs_def [symmetric] fund_def [symmetric]
      by (auto split: if_splits)
    obtain k where "cs = take k (collection_order (Some n) s)" "m \<le> sum_list (map (entry_charge s) cs)"
      using take_candidates_prefix [OF t] by auto
    then show ?thesis using that [of k] c by (auto simp: csum_def entry_charge_def [abs_def])
  qed
  show "distinct is" using k(1) collection_order_distinct [OF d] by (simp add: distinct_take)
  have mem: "i \<in> set (collection_order (Some n) s)" if "i \<in> set is" for i using that k(1) by (metis in_set_takeD)
  show "\<forall>i\<in>set is. \<exists>e. map_of (rs_runs s) i = Some e \<and> re_residency e = Retained \<and> re_strong e = 1 \<and> collection_ordinal (re_run e) \<noteq> None"
  proof
    fix i
    assume "i \<in> set is"
    then obtain e where "(i, e) \<in> set (rs_runs s)" "re_residency e = Retained" "re_strong e = 1" "collection_ordinal (re_run e) \<noteq> None"
      using collection_order_mem [OF mem] by blast
    then show "\<exists>e. map_of (rs_runs s) i = Some e \<and> re_residency e = Retained \<and> re_strong e = 1 \<and> collection_ordinal (re_run e) \<noteq> None"
      using d by (metis map_of_is_SomeI)
  qed
  show "length (rs_runs s) + asum burden_of (rs_reservations s) + of_bool (is = []) \<le> rs_record_capacity s"
    using k(3) old(2) burden_asum [of s] by (cases "is = []") (auto simp: needs_def)
  show "rs_retained_metadata_bytes s + asum (reserved_metadata s) (rs_reservations s) + (n - csum re_metadata_charge (rs_runs s) is) \<le> rs_metadata_capacity s"
    using k(2) fund old(1) by linarith
qed

text \<open>The state once the candidates are fenced and the reservation is entered.\<close>

definition entered :: "nat \<Rightarrow> registry_reservation \<Rightarrow> registry_state \<Rightarrow> registry_state" where
  "entered t v s = s\<lparr>rs_next_ticket := t, rs_runs := resid (Collecting t) (rv_candidates v) (rs_runs s),
     rs_reservations := AList.update t v (rs_reservations s)\<rparr>"

definition admissible :: "registry_reservation \<Rightarrow> registry_state \<Rightarrow> bool" where
  "admissible v s \<longleftrightarrow> (\<exists>n. rv_new_metadata_bytes v = Some n
       \<and> rs_retained_metadata_bytes s + asum (reserved_metadata s) (rs_reservations s) + (n - csum re_metadata_charge (rs_runs s) (rv_candidates v)) \<le> rs_metadata_capacity s)
     \<and> length (rs_runs s) + asum burden_of (rs_reservations s) + of_bool (rv_candidates v = []) \<le> rs_record_capacity s
     \<and> distinct (rv_candidates v)
     \<and> (\<forall>i\<in>set (rv_candidates v). \<exists>e. map_of (rs_runs s) i = Some e \<and> re_residency e = Retained \<and> re_strong e = 1)
     \<and> fresh_creation (rv_new_run_id v) (rv_operation_key v) s"

lemma fresh_ticket:
  assumes "fences_ok s" "rs_next_ticket s < t"
  shows "map_of (rs_reservations s) t = None"
proof (rule ccontr)
  assume "map_of (rs_reservations s) t \<noteq> None"
  then obtain v where "map_of (rs_reservations s) t = Some v" by auto
  then have "reservation_ok s t v" using assms(1) unfolding fences_ok_def by blast
  then show False using assms(2) by (simp add: reservation_ok_def)
qed

lemma fresh_apart:
  assumes "fresh_creation i key s" "map_of (rs_reservations s) n = Some x"
  shows "rv_new_run_id x \<noteq> i" "key = rv_operation_key x \<Longrightarrow> key = None"
proof -
  have x: "(n, x) \<in> set (rs_reservations s)" using assms(2) by (rule map_of_SomeD)
  then show "rv_new_run_id x \<noteq> i" using assms(1) by (auto simp: fresh_creation_def)
  show "key = None" if key: "key = rv_operation_key x"
  proof (rule ccontr)
    assume "key \<noteq> None"
    then obtain k where k: "key = Some k" by auto
    then have "reserved_key k s = None" using assms(1) by (simp add: fresh_creation_def)
    then show False using x k key by (auto simp: reserved_key_def find_None_iff)
  qed
qed

lemma entered_fences:
  assumes "fences_ok s" "entries_ok s" "admissible v s" "rs_next_ticket s < t"
  shows "fences_ok (entered t v s)"
proof -
  let ?u = "entered t v s"
  have a: "distinct (rv_candidates v)" "fresh_creation (rv_new_run_id v) (rv_operation_key v) s" "rv_new_metadata_bytes v \<noteq> None"
    "\<And>i. i \<in> set (rv_candidates v) \<Longrightarrow> \<exists>e. map_of (rs_runs s) i = Some e \<and> re_residency e = Retained"
    using assms(3) unfolding admissible_def by auto
  have runs: "map_of (rs_runs ?u) i = (if i \<in> set (rv_candidates v) then map_option (\<lambda>e. e\<lparr>re_residency := Collecting t\<rparr>) (map_of (rs_runs s) i) else map_of (rs_runs s) i)" for i
    by (simp add: entered_def map_of_resid)
  have m: "map_of (rs_reservations ?u) = (map_of (rs_reservations s))(t \<mapsto> v)" by (simp add: entered_def update_conv')
  have new: "map_of (rs_reservations s) t = None" by (rule fresh_ticket [OF assms(1,4)])
  have "\<exists>e. map_of (rs_runs ?u) i = Some e \<and> re_residency e = Collecting t" if "i \<in> set (rv_candidates v)" for i
    using a(4) [OF that] that by (auto simp: runs simp del: map_of_eq_Some_iff)
  then have "reservation_ok ?u t v"
    using a(1-3) unfolding reservation_ok_def by (auto simp: runs fresh_creation_def) (auto simp: entered_def)
  moreover have "reservation_ok ?u n x" if "map_of (rs_reservations s) n = Some x" for n x
  proof -
    have x: "reservation_ok s n x" using assms(1) that unfolding fences_ok_def by blast
    have "i \<notin> set (rv_candidates v)" if "i \<in> set (rv_candidates x)" for i
      using that x a(4) unfolding reservation_ok_def by (metis option.inject registry_residency.distinct(1))
    then show ?thesis using x assms(4) unfolding reservation_ok_def runs by (auto simp: entered_def)
  qed
  moreover have "apart (map_of (rs_reservations ?u))"
  proof -
    have old: "apart (map_of (rs_reservations s))" using assms(1) by (simp add: fences_ok_def)
    show ?thesis unfolding apart_def m using old fresh_apart [OF a(2)] unfolding apart_def by (metis fun_upd_apply option.inject)
  qed
  moreover have "fenced (map_of (rs_reservations ?u)) (map_of (rs_runs ?u))"
    unfolding fenced_def
  proof (intro allI impI)
    fix i e x
    assume e: "map_of (rs_runs ?u) i = Some e" "re_residency e = Collecting x"
    show "\<exists>v. map_of (rs_reservations ?u) x = Some v \<and> i \<in> set (rv_candidates v)"
    proof (cases "i \<in> set (rv_candidates v)")
      case True
      then show ?thesis using e by (auto simp: runs m)
    next
      case False
      then obtain x' where "map_of (rs_reservations s) x = Some x'" "i \<in> set (rv_candidates x')"
        using e assms(1) unfolding fences_ok_def fenced_def by (metis runs)
      then show ?thesis using new by (auto simp: m)
    qed
  qed
  moreover have "distinct (map fst (rs_reservations ?u))" using assms(1) by (simp add: fences_ok_def entered_def distinct_update)
  ultimately show ?thesis unfolding fences_ok_def by (metis fun_upd_apply m option.inject)
qed

lemma entered_accounts:
  assumes "fences_ok s" "entries_ok s" "accounts_ok s" "admissible v s" "rs_next_ticket s < t"
  shows "accounts_ok (entered t v s)"
proof -
  have new: "t \<notin> fst ` set (rs_reservations s)" using fresh_ticket [OF assms(1,5)] by (simp add: map_of_notin)
  have rt: "retouched s (s\<lparr>rs_runs := resid (Collecting t) (rv_candidates v) (rs_runs s)\<rparr>)" by (rule retouch_resid [OF assms(2)])
  have res: "reserved_metadata (entered t v s) = reserved_metadata s"
    using retouched_reserved [OF rt] reserved_runs [of "entered t v s" "s\<lparr>rs_runs := resid (Collecting t) (rv_candidates v) (rs_runs s)\<rparr>"]
    by (auto simp: entered_def)
  obtain n where n: "rv_new_metadata_bytes v = Some n"
    "rs_retained_metadata_bytes s + asum (reserved_metadata s) (rs_reservations s) + (n - csum re_metadata_charge (rs_runs s) (rv_candidates v)) \<le> rs_metadata_capacity s"
    "length (rs_runs s) + asum burden_of (rs_reservations s) + of_bool (rv_candidates v = []) \<le> rs_record_capacity s"
    using assms(4) unfolding admissible_def by blast
  have "asum f (rs_reservations (entered t v s)) = asum f (rs_reservations s) + f v" for f
    using new by (simp add: entered_def asum_update)
  then show ?thesis using assms(3) n res unfolding accounts_ok_def by (simp add: entered_def reserved_csum)
qed

lemma entered_world:
  assumes "registry_ok w" "admissible v (w_reg w)" "rs_next_ticket (w_reg w) < t" "rs_live_resources (w_reg w) < rs_live_capacity (w_reg w)"
    "h = \<lparr>pr_ticket = Some t, pr_live_permit = True, pr_metadata_bytes = chosen (rv_new_metadata_bytes v) 0\<rparr>"
  shows "registry_ok (w\<lparr>w_reg := take_live_permit (entered t v (w_reg w)), w_tickets := (t, h) # w_tickets w\<rparr>)"
proof -
  let ?s = "w_reg w"
  let ?m = "?s\<lparr>rs_runs := resid (Collecting t) (rv_candidates v) (rs_runs ?s)\<rparr>"
  let ?u = "entered t v ?s"
  let ?w = "w\<lparr>w_reg := take_live_permit ?u, w_tickets := (t, h) # w_tickets w\<rparr>"
  have ok: "entries_ok ?s" "keys_ok ?s" "fences_ok ?s" "accounts_ok ?s" "handles_ok w" "live_ok w"
    using assms(1) by (simp_all add: registry_ok_def)
  have cands: "\<And>i. i \<in> set (rv_candidates v) \<Longrightarrow> \<exists>e. map_of (rs_runs ?s) i = Some e \<and> re_residency e = Retained \<and> re_strong e = 1"
    using assms(2) unfolding admissible_def by blast
  have rt: "retouched ?s ?m" by (rule retouch_resid [OF ok(1)])
  have eu: "?u = ?m\<lparr>rs_next_ticket := t, rs_reservations := AList.update t v (rs_reservations ?s)\<rparr>" by (simp add: entered_def)
  have live: "take_live_permit ?u = ?u\<lparr>rs_live_resources := rs_live_resources ?s + 1\<rparr>"
    using assms(4) ok(6) by (simp add: take_live_permit_def wrapping_add_exact live_ok_def entered_def)
  have new: "t \<notin> fst ` set (rs_reservations ?s)" using fresh_ticket [OF ok(3) assms(3)] by (simp add: map_of_notin)
  have "entries_ok ?u" "keys_ok ?u" using retouched_ok(1,2) [OF rt] ok by (simp_all add: eu)
  moreover have "fences_ok ?u" by (rule entered_fences [OF ok(3,1) assms(2,3)])
  moreover have "accounts_ok ?u" by (rule entered_accounts [OF ok(3,1,4) assms(2,3)])
  moreover have "live_ok ?w" using ok(6) assms(4) unfolding live_ok_def live by (simp add: entered_def)
  moreover have "handles_ok ?w"
  proof -
    obtain n where n: "rv_new_metadata_bytes v = Some n" using assms(2) unfolding admissible_def by blast
    have keys: "set (map fst (w_tickets w) @ w_unresolved w) = fst ` set (rs_reservations ?s)" using ok(5) by (simp add: handles_ok_def)
    have "map_of (w_tickets w) t = None" using keys new by (auto simp: map_of_notin)
    then show ?thesis using ok(5) new n keys assms(5) unfolding handles_ok_def live
      by (auto simp: entered_def update_conv' dom_update simp del: map_of_eq_Some_iff split: if_splits)
  qed
  moreover have "removals_ok ?w"
  proof -
    have "map_option re_residency (map_of (rs_runs ?u) i) = Some Removing \<longleftrightarrow> map_option re_residency (map_of (rs_runs ?s) i) = Some Removing" for i
      using cands [of i] by (auto simp: entered_def map_of_resid)
    then show ?thesis using assms(1) by (simp add: registry_ok_def removals_ok_def live)
  qed
  moreover have "stops_ok ?w"
  proof -
    have "stops_ok (w\<lparr>w_reg := ?m\<rparr>)"
    proof (rule stops_retouched [OF rt])
      show "stops_ok w" using assms(1) by (simp add: registry_ok_def)
      show "re_residency e = Retained \<and> 2 \<le> re_strong e" if st: "st \<in> set (w_settlements w)" "map_of (rs_runs ?m) (ss_id st) = Some e" for st e
      proof (cases "ss_id st \<in> set (rv_candidates v)")
        case True
        then show ?thesis using cands [OF True] settling_strong [OF assms(1), of "ss_id st"] st(1) by (auto simp: settling_def)
      next
        case False
        then show ?thesis using settling_strong [OF assms(1), of "ss_id st" e] st by (auto simp: settling_def map_of_resid)
      qed
    qed
    then show ?thesis by (rule stops_cong) (simp_all add: take_live_permit_def eu)
  qed
  moreover have "control_ok ?w"
    using assms(1) retouched_asum(2) [OF rt] by (simp add: registry_ok_def control_ok_def take_live_permit_def eu)
  ultimately show ?thesis by (simp add: registry_ok_def live)
qed

lemma admit_ok:
  assumes "registry_ok w" "admissible v (w_reg w)" "rs_live_resources (w_reg w) < rs_live_capacity (w_reg w)"
    "admit_publication alloc v (w_reg w) = Some (r, s)"
  shows "case r of Inl _ \<Rightarrow> registry_ok (w\<lparr>w_reg := s\<rparr>)
     | Inr h \<Rightarrow> \<exists>t. pr_ticket h = Some t \<and> registry_ok (w\<lparr>w_reg := s, w_tickets := (t, h) # w_tickets w\<rparr>)"
proof -
  let ?s = "w_reg w"
  obtain t where t: "checked_add (rs_next_ticket ?s) 1 = Some t" using assms(4) by (auto simp: admit_publication_def split: option.splits)
  then have lt: "rs_next_ticket ?s < t" by auto
  define h where "h = \<lparr>pr_ticket = Some t, pr_live_permit = True, pr_metadata_bytes = chosen (rv_new_metadata_bytes v) 0\<rparr>"
  let ?u = "entered t v ?s"
  let ?w = "w\<lparr>w_reg := take_live_permit ?u, w_tickets := (t, h) # w_tickets w\<rparr>"
  have ok: "registry_ok ?w" by (rule entered_world [OF assms(1,2) lt assms(3)]) (simp add: h_def)
  have present: "\<forall>i\<in>set (rv_candidates v). map_of (rs_runs ?s) i \<noteq> None"
    using assms(2) unfolding admissible_def by (metis option.distinct(1))
  have fence: "fence_candidates t (rv_candidates v) (?s\<lparr>rs_next_ticket := t\<rparr>)
      = Some (?s\<lparr>rs_next_ticket := t, rs_runs := resid (Collecting t) (rv_candidates v) (rs_runs ?s)\<rparr>)"
    using fence_resid [of "rv_candidates v" "?s\<lparr>rs_next_ticket := t\<rparr>" t] present by simp
  have run: "admit_publication alloc v ?s =
      (case for_each (detach_collection_descriptors \<circ> re_run) (List.map_filter (map_of (rs_runs ?u)) (rv_candidates v)) of
         Inl _ \<Rightarrow> (case restore_reservation t ?u of None \<Rightarrow> None
           | Some s \<Rightarrow> Some (Inl (protocol_err InternalError ''failed to fence retained Run replacement''), s))
       | Inr _ \<Rightarrow> Some (Inr h, take_live_permit ?u))"
    unfolding admit_publication_def t option.case fence Let_def h_def entered_def by (simp cong: sum.case_cong)
  show ?thesis
  proof (cases "for_each (detach_collection_descriptors \<circ> re_run) (List.map_filter (map_of (rs_runs ?u)) (rv_candidates v))")
    case (Inr x)
    then have "r = Inr h" "s = take_live_permit ?u"
      using assms(4) unfolding run by auto
    then show ?thesis using ok by (simp add: h_def)
  next
    case (Inl x)
    then have r: "isl r" "restore_reservation t ?u = Some s"
      using assms(4) unfolding run by (auto split: option.splits)
    have mt: "map_of (rs_reservations ?u) t = Some v" by (simp add: entered_def update_conv')
    have pu: "\<forall>i\<in>set (rv_candidates v). map_of (rs_runs ?u) i \<noteq> None" using present by (auto simp: entered_def map_of_resid)
    have su: "s = ?u\<lparr>rs_reservations := AList.delete t (rs_reservations ?u), rs_runs := resid Retained (rv_candidates v) (rs_runs ?u)\<rparr>"
      using r(2) restore_resid [of "rv_candidates v" "unreserve t ?u"] pu mt by (simp add: restore_reservation_def)
    let ?x = "take_live_permit ?u"
    have live: "?x = ?u\<lparr>rs_live_resources := rs_live_resources ?s + 1\<rparr>"
      using assms(3) assms(1) by (simp add: take_live_permit_def wrapping_add_exact registry_ok_def live_ok_def entered_def)
    have rx: "restore_reservation t ?x = Some (s\<lparr>rs_live_resources := rs_live_resources ?s + 1\<rparr>)"
      using restore_resid [of "rv_candidates v" "unreserve t ?x"] pu mt unfolding live by (simp add: restore_reservation_def su)
    have "publication_drop h ?x = Some s"
      using rx drop_live_permit_exact [of True "s\<lparr>rs_live_resources := rs_live_resources ?s + 1\<rparr>"] assms(1,3)
      by (simp add: publication_drop_def h_def su entered_def registry_ok_def live_ok_def)
    moreover have "AList.delete t (w_tickets w) = w_tickets w"
      using ok by (intro delete_id) (simp add: registry_ok_def handles_ok_def)
    ultimately have "registry_ok (w\<lparr>w_reg := s\<rparr>)" using abandon_ok [OF ok, of t h] by simp
    then show ?thesis using r(1) by (cases r) auto
  qed
qed

lemma reserve_ok:
  assumes "registry_ok w" "fresh_creation i key (w_reg w)" "rs_metadata_capacity (w_reg w) + n \<le> U64_MAX"
    "reserve_publication alloc i key request (Some n) (w_reg w) = Some (r, s)"
  shows "case r of Inl _ \<Rightarrow> registry_ok (w\<lparr>w_reg := s\<rparr>)
     | Inr h \<Rightarrow> \<exists>t. pr_ticket h = Some t \<and> registry_ok (w\<lparr>w_reg := s, w_tickets := (t, h) # w_tickets w\<rparr>)"
proof -
  define x where "x = reclaim_closed_owners (w_reg w)"
  let ?w = "w\<lparr>w_reg := x\<rparr>"
  have ok: "registry_ok ?w" unfolding x_def by (rule reclaim_owners_ok [OF assms(1)])
  have fresh: "fresh_creation i key x" unfolding x_def by (rule fresh_reclaim [OF assms(2)])
  show ?thesis
  proof (cases "\<exists>e. r = Inl e \<and> s = x")
    case True
    then show ?thesis using ok by auto
  next
    case False
    then obtain "is" where "is": "rs_live_resources x < rs_live_capacity x" "snd (select_publication_candidates (Some n) x) = Inr is"
      "admit_publication alloc \<lparr>rv_new_run_id = i, rv_operation_key = key, rv_request = request,
         rv_new_metadata_bytes = Some n, rv_candidates = is\<rparr> x = Some (r, s)"
      using assms(4) unfolding reserve_publication_def Let_def x_def [symmetric] by (auto split: if_splits sum.splits)
    have cap: "rs_metadata_capacity x + n \<le> U64_MAX" using assms(3) by (simp add: x_def)
    have parts: "accounts_ok x" "entries_ok x" using ok by (simp_all add: registry_ok_def)
    have "admissible \<lparr>rv_new_run_id = i, rv_operation_key = key, rv_request = request, rv_new_metadata_bytes = Some n, rv_candidates = is\<rparr> x"
      using select_spec [OF parts "is"(2) cap] fresh unfolding admissible_def by fastforce
    from admit_ok [OF ok, of _ alloc r s] this "is"(1,3) show ?thesis by (cases r) auto
  qed
qed

section \<open>Stop operations\<close>

lemma begin_cases:
  assumes "begin_recoverable_stop alloc so i key s = (r, t)"
  obtains (refused) f where "r = Inl f" "t = s"
    | (budget) f e n b p where "r = Inl f" "map_of (rs_runs s) i = Some e" "reserve (rs_control_budget s) n = Some (b, p)"
        "t = s\<lparr>rs_control_budget := permit_drop b p\<rparr>"
    | (retry) e q where "map_of (rs_stop_runs s) key = Some i" "map_of (rs_runs s) i = Some e" "re_residency e = Retained"
        "re_stop_operation e = Some q" "so_key q = key" "r = Inr (StopRetry \<lparr>rf_run = i, rf_cell = so_cell q\<rparr>)"
        "t = modify_entry i (\<lambda>e. e\<lparr>re_strong := re_strong e + 1\<rparr>) s"
    | (owner) e b p where "operation_key_validate MAX_STOP_OPERATION_KEY_BYTES key = Inr ()" "map_of (rs_stop_runs s) key = None"
        "map_of (rs_runs s) i = Some e" "re_residency e = Retained" "re_stop_operation e = None"
        "reserve (rs_control_budget s) (stop_receipt_charge so key) = Some (b, p)"
        "r = Inr (StopOwner \<lparr>rf_run = i, rf_cell = length (rs_cells s)\<rparr> \<lparr>ss_id = i, ss_key = key, ss_cell = length (rs_cells s)\<rparr>)"
        "t = modify_entry i (\<lambda>e. e\<lparr>re_stop_operation := Some \<lparr>so_key = key, so_cell = length (rs_cells s), so_memory = p\<rparr>,
               re_strong := re_strong e + 2\<rparr>)
             (s\<lparr>rs_control_budget := b, rs_cells := rs_cells s @ [None], rs_stop_runs := AList.update key i (rs_stop_runs s)\<rparr>)"
proof (cases "operation_key_validate MAX_STOP_OPERATION_KEY_BYTES key")
  case (Inl a)
  then show ?thesis using assms refused by (auto simp: begin_recoverable_stop_def)
next
  case valid: (Inr u)
  show ?thesis
  proof (cases "map_of (rs_stop_runs s) key")
    case (Some j)
    then show ?thesis using assms valid refused retry
      by (auto simp: begin_recoverable_stop_def retry_stop_def split: if_splits option.splits)
  next
    case free: None
    show ?thesis
    proof (cases "map_of (rs_runs s) i")
      case None
      then show ?thesis using assms valid free refused by (auto simp: begin_recoverable_stop_def)
    next
      case e: (Some e)
      show ?thesis
      proof (cases "re_residency e = Retained \<and> re_stop_operation e = None \<and> alloc AllocStopKeys")
        case False
        then show ?thesis using assms valid free e refused by (auto simp: begin_recoverable_stop_def split: if_splits)
      next
        case True
        then have b: "bind_stop so i key e s = (r, t)" using assms valid free e by (simp add: begin_recoverable_stop_def)
        show ?thesis
        proof (cases "reserve (rs_control_budget s) (stop_receipt_charge so key)")
          case None
          then show ?thesis using b refused by (auto simp: bind_stop_def)
        next
          case (Some bp)
          then obtain bb p where p: "reserve (rs_control_budget s) (stop_receipt_charge so key) = Some (bb, p)" by (cases bp) auto
          show ?thesis
          proof (cases "native_capability (re_run e)")
            case (Inl a)
            then show ?thesis using b p e budget by (auto simp: bind_stop_def)
          next
            case (Inr a)
            then show ?thesis using b p e owner True valid free by (auto simp: bind_stop_def Let_def)
          qed
        qed
      qed
    qed
  qed
qed

lemma permit_returned:
  "budget_good b \<Longrightarrow> reserve b n = Some (b', p) \<Longrightarrow> permit_drop b' p = b"
  by (auto simp: reserve_Some permit_drop_def wrapping_sub_exact budget_good_def)

lemma stops_okI:
  assumes "distinct (map ss_id (w_settlements w))" "\<And>st. st \<in> set (w_settlements w) \<Longrightarrow> in_flight (w_reg w) st"
    "\<And>i e r. map_of (rs_runs (w_reg w)) i = Some e \<Longrightarrow> re_stop_operation e = Some r \<Longrightarrow> record_ok w i r"
    "\<And>i e r j e' r'. map_of (rs_runs (w_reg w)) i = Some e \<Longrightarrow> re_stop_operation e = Some r \<Longrightarrow> map_of (rs_runs (w_reg w)) j = Some e' \<Longrightarrow>
       re_stop_operation e' = Some r' \<Longrightarrow> so_cell r = so_cell r' \<Longrightarrow> i = j"
  shows "stops_ok w"
  using assms unfolding stops_ok_def by blast

text \<open>A new Stop operation: the entry gains its record, the settlement its pin and an empty cell.\<close>

lemma bind_stops:
  assumes "stops_ok w" "map_of (rs_runs (w_reg w)) i = Some e" "re_residency e = Retained" "re_stop_operation e = None"
    "operation_key_validate MAX_STOP_OPERATION_KEY_BYTES key = Inr ()"
    "rs_runs t = AList.map_entry i (\<lambda>e. e\<lparr>re_stop_operation := Some \<lparr>so_key = key, so_cell = length (rs_cells (w_reg w)), so_memory = p\<rparr>,
       re_strong := re_strong e + 2\<rparr>) (rs_runs (w_reg w))"
    "rs_cells t = rs_cells (w_reg w) @ [None]"
  shows "stops_ok (w\<lparr>w_reg := t, w_settlements := \<lparr>ss_id = i, ss_key = key, ss_cell = length (rs_cells (w_reg w))\<rparr> # w_settlements w\<rparr>)"
proof -
  let ?n = "length (rs_cells (w_reg w))"
  let ?q = "\<lparr>so_key = key, so_cell = ?n, so_memory = p\<rparr>"
  let ?st = "\<lparr>ss_id = i, ss_key = key, ss_cell = ?n\<rparr>"
  let ?v = "w\<lparr>w_reg := t, w_settlements := ?st # w_settlements w\<rparr>"
  have runs: "map_of (rs_runs t) j = (if j = i then Some (e\<lparr>re_stop_operation := Some ?q, re_strong := re_strong e + 2\<rparr>) else map_of (rs_runs (w_reg w)) j)" for j
    unfolding assms(6) using assms(2) by (simp del: map_of_eq_Some_iff)
  have not: "\<not> settling i w" using assms(1,2,4) by (auto simp: stops_ok_def settling_def in_flight_def)
  have rec: "record_ok w j r" "so_cell r < ?n" if "map_of (rs_runs (w_reg w)) j = Some a" "re_stop_operation a = Some r" for j a r
    using assms(1) that unfolding stops_ok_def record_ok_def by blast+
  have fl: "in_flight t st" if "st \<in> set (w_settlements w)" for st
  proof -
    have "in_flight (w_reg w) st" "ss_id st \<noteq> i" using assms(1) not that by (auto simp: stops_ok_def settling_def)
    then show ?thesis using rec(2) unfolding in_flight_def runs assms(7) by (metis nth_append)
  qed
  have own_fl: "in_flight t ?st" using assms(3) by (simp add: in_flight_def runs assms(7))
  have rc: "record_ok ?v j r" if "map_of (rs_runs t) j = Some a" "re_stop_operation a = Some r" for j a r
  proof (cases "j = i")
    case True
    then show ?thesis using that assms(5) by (auto simp: runs record_ok_def settling_def assms(7))
  next
    case False
    then have "record_ok w j r" "so_cell r < ?n" using rec that by (auto simp: runs)
    then show ?thesis by (auto simp: record_ok_def settling_def assms(7) nth_append)
  qed
  have inj: "j = k" if "map_of (rs_runs t) j = Some a" "re_stop_operation a = Some r" "map_of (rs_runs t) k = Some b"
    "re_stop_operation b = Some q" "so_cell r = so_cell q" for j a r k b q
  proof -
    have old: "map_of (rs_runs (w_reg w)) x = Some y \<and> so_cell z < ?n" if "map_of (rs_runs t) x = Some y" "re_stop_operation y = Some z" "x \<noteq> i" for x y z
      using that rec(2) by (auto simp: runs)
    have own: "so_cell z = ?n" if "map_of (rs_runs t) i = Some y" "re_stop_operation y = Some z" for y z
      using that by (auto simp: runs)
    show ?thesis
    proof (cases "j = i \<or> k = i")
      case True
      then show ?thesis using that old own by (metis less_irrefl)
    next
      case False
      then show ?thesis using old [OF that(1,2)] old [OF that(3,4)] that assms(1) unfolding stops_ok_def by blast
    qed
  qed
  have dist: "distinct (map ss_id (?st # w_settlements w))" using assms(1) not by (simp add: stops_ok_def settling_def)
  show ?thesis
  proof (rule stops_okI)
    show "distinct (map ss_id (w_settlements ?v))" using dist by simp
    show "in_flight (w_reg ?v) st" if "st \<in> set (w_settlements ?v)" for st using that fl own_fl by auto
    show "record_ok ?v j r" if "map_of (rs_runs (w_reg ?v)) j = Some a" "re_stop_operation a = Some r" for j a r
      using rc [of j a r] that by simp
    show "j = k" if "map_of (rs_runs (w_reg ?v)) j = Some a" "re_stop_operation a = Some r" "map_of (rs_runs (w_reg ?v)) k = Some b"
      "re_stop_operation b = Some q" "so_cell r = so_cell q" for j a r k b q
      using inj [of j a r k b q] that by simp
  qed
qed

lemma begin_owner_ok:
  assumes "registry_ok w" "operation_key_validate MAX_STOP_OPERATION_KEY_BYTES key = Inr ()" "map_of (rs_stop_runs (w_reg w)) key = None"
    "map_of (rs_runs (w_reg w)) i = Some e" "re_residency e = Retained" "re_stop_operation e = None"
    "reserve (rs_control_budget (w_reg w)) n = Some (b, p)"
    "t = modify_entry i (\<lambda>e. e\<lparr>re_stop_operation := Some \<lparr>so_key = key, so_cell = length (rs_cells (w_reg w)), so_memory = p\<rparr>,
           re_strong := re_strong e + 2\<rparr>)
         ((w_reg w)\<lparr>rs_control_budget := b, rs_cells := rs_cells (w_reg w) @ [None], rs_stop_runs := AList.update key i (rs_stop_runs (w_reg w))\<rparr>)"
  shows "registry_ok (w\<lparr>w_reg := t, w_settlements := \<lparr>ss_id = i, ss_key = key, ss_cell = length (rs_cells (w_reg w))\<rparr> # w_settlements w\<rparr>)"
proof -
  let ?s = "w_reg w"
  let ?f = "\<lambda>e. e\<lparr>re_stop_operation := Some \<lparr>so_key = key, so_cell = length (rs_cells ?s), so_memory = p\<rparr>, re_strong := re_strong e + 2\<rparr>"
  let ?w = "w\<lparr>w_reg := t, w_settlements := \<lparr>ss_id = i, ss_key = key, ss_cell = length (rs_cells ?s)\<rparr> # w_settlements w\<rparr>"
  have ok: "entries_ok ?s" "keys_ok ?s" "fences_ok ?s" "accounts_ok ?s" "stops_ok w" "control_ok w" using assms(1) by (simp_all add: registry_ok_def)
  have tf: "rs_runs t = AList.map_entry i ?f (rs_runs ?s)" "rs_creation_runs t = rs_creation_runs ?s" "rs_reservations t = rs_reservations ?s"
    "rs_next_ticket t = rs_next_ticket ?s" "rs_stop_runs t = AList.update key i (rs_stop_runs ?s)" "rs_cells t = rs_cells ?s @ [None]"
    "rs_control_budget t = b" "rs_retained_metadata_bytes t = rs_retained_metadata_bytes ?s" "rs_metadata_capacity t = rs_metadata_capacity ?s"
    "rs_record_capacity t = rs_record_capacity ?s" "rs_live_resources t = rs_live_resources ?s" "rs_live_capacity t = rs_live_capacity ?s"
    by (simp_all add: assms(8) modify_entry_def)
  have res: "map_option re_residency (map_of (rs_runs t) j) = map_option re_residency (map_of (rs_runs ?s) j)" for j
    unfolding tf(1) using assms(4) by (simp del: map_of_eq_Some_iff)
  have "entries_ok t" using ok(1) assms(4) unfolding entries_ok_def tf(1) by (auto simp del: map_of_eq_Some_iff split: if_splits)
  moreover have "keys_ok t"
    using index_bind [of stop_key "rs_stop_runs ?s" "rs_runs ?s" i e ?f key] index_modify [of re_operation_key "rs_creation_runs ?s" "rs_runs ?s" i ?f]
      ok(2) assms(3,4,6) unfolding keys_ok_def tf(1,2,5) by (simp add: stop_key_def)
  moreover have "fences_ok t" by (rule fences_cong [OF ok(3) res tf(2-4)])
  moreover have "accounts_ok t" by (rule accounts_cong [OF ok(4) tf(1) _ tf(3,8-10)]) simp
  moreover have "live_ok ?w" using assms(1) by (simp add: registry_ok_def live_ok_def tf)
  moreover have "handles_ok ?w" by (rule handles_cong [of w]) (use assms(1) in \<open>auto simp: registry_ok_def tf\<close>)
  moreover have "removals_ok ?w" using assms(1) res by (simp add: registry_ok_def removals_ok_def)
  moreover have "stops_ok ?w" by (rule bind_stops [OF ok(5) assms(4,5,6,2) tf(1,6)])
  moreover have "control_ok ?w"
  proof -
    have "asum memory_of (rs_runs t) = asum memory_of (rs_runs ?s) + p"
      using asum_map_entry [OF assms(4), of memory_of ?f] assms(6) by (simp add: tf(1) memory_of_def)
    then show ?thesis using ok(6) assms(7) by (simp add: control_ok_def tf(7) reserve_Some budget_good_def)
  qed
  ultimately show ?thesis by (simp add: registry_ok_def)
qed

lemma begin_stop_ok:
  assumes "registry_ok w" "begin_recoverable_stop alloc so i key (w_reg w) = (r, t)"
  shows "case r of Inr (StopOwner flight st) \<Rightarrow> registry_ok (w\<lparr>w_reg := t, w_settlements := st # w_settlements w\<rparr>)
     | _ \<Rightarrow> registry_ok (w\<lparr>w_reg := t\<rparr>)"
  using assms(2)
proof (cases rule: begin_cases)
  case (refused f)
  then show ?thesis using assms(1) by simp
next
  case (budget f e n b p)
  have "permit_drop b p = rs_control_budget (w_reg w)"
    using permit_returned [OF _ budget(3)] assms(1) by (simp add: registry_ok_def control_ok_def)
  then have "t = w_reg w" using budget(4) by simp
  then show ?thesis using budget(1) assms(1) by simp
next
  case (retry e q)
  then show ?thesis using clone_ok [OF assms(1) retry(2), of 1] by simp
next
  case (owner e b p)
  then show ?thesis using begin_owner_ok [OF assms(1) owner(1-6,8)] by simp
qed

text \<open>Settling: the cell is filled once, and a Stop that was not applied gives its key back.\<close>

lemma map_entry_twice: "AList.map_entry i g (AList.map_entry i f xs) = AList.map_entry i (g \<circ> f) xs"
  by (induction xs) auto

lemma settle_stops:
  assumes "stops_ok w" "st \<in> set (w_settlements w)" "\<forall>r. result = Inr r \<longrightarrow> (\<exists>d. r = StopReceipt d)"
    "rs_runs t = AList.map_entry (ss_id st) f (rs_runs (w_reg w))"
    "\<And>e. re_stop_operation (f e) = (if not_applied_result result then None else re_stop_operation e)"
    "rs_cells t = (rs_cells (w_reg w))[ss_cell st := Some result]"
  shows "stops_ok (w\<lparr>w_reg := t, w_settlements := remove1 st (w_settlements w)\<rparr>)"
proof -
  let ?s = "w_reg w" and ?i = "ss_id st"
  let ?v = "w\<lparr>w_reg := t, w_settlements := remove1 st (w_settlements w)\<rparr>"
  have d: "distinct (map ss_id (w_settlements w))" using assms(1) by (simp add: stops_ok_def)
  then have dst: "distinct (w_settlements w)" by (simp add: distinct_map)
  obtain e0 r0 where e0: "map_of (rs_runs ?s) ?i = Some e0" "re_stop_operation e0 = Some r0" "so_cell r0 = ss_cell st"
    using assms(1,2) unfolding stops_ok_def in_flight_def by blast
  have rec: "record_ok w j r" if "map_of (rs_runs ?s) j = Some a" "re_stop_operation a = Some r" for j a r
    using assms(1) that unfolding stops_ok_def by blast
  have cellne: "so_cell r \<noteq> ss_cell st" if "map_of (rs_runs ?s) j = Some a" "re_stop_operation a = Some r" "j \<noteq> ?i" for j a r
    using assms(1) that e0 unfolding stops_ok_def by metis
  have runs: "map_of (rs_runs t) j = (if j = ?i then map_option f (map_of (rs_runs ?s) j) else map_of (rs_runs ?s) j)" for j
    unfolding assms(4) by (simp del: map_of_eq_Some_iff)
  have other: "ss_id st' \<noteq> ?i" if "st' \<in> set (remove1 st (w_settlements w))" for st'
    using that d dst assms(2) by (auto simp: set_remove1_eq distinct_map dest: inj_onD)
  show ?thesis
  proof (rule stops_okI)
    show "distinct (map ss_id (w_settlements ?v))"
      using d dst by (auto simp: distinct_map set_remove1_eq inj_on_def)
    show "in_flight (w_reg ?v) st'" if "st' \<in> set (w_settlements ?v)" for st'
    proof -
      have st': "st' \<in> set (w_settlements w)" "ss_id st' \<noteq> ?i" using that other notin_set_remove1 by fastforce+
      then obtain e r where e: "map_of (rs_runs ?s) (ss_id st') = Some e" "re_stop_operation e = Some r" "so_key r = ss_key st'"
        "so_cell r = ss_cell st'" "re_residency e = Retained" "2 \<le> re_strong e" "rs_cells ?s ! ss_cell st' = None"
        using assms(1) unfolding stops_ok_def in_flight_def by blast
      have "ss_cell st' \<noteq> ss_cell st" using cellne [OF e(1,2) st'(2)] e(4) by simp
      then show ?thesis using e st'(2) unfolding in_flight_def by (auto simp: runs assms(6))
    qed
    show "record_ok ?v j r" if "map_of (rs_runs (w_reg ?v)) j = Some a" "re_stop_operation a = Some r" for j a r
    proof (cases "j = ?i")
      case True
      then have "\<not> not_applied_result result" "r = r0" using that e0 assms(5) by (auto simp: runs split: if_splits)
      then show ?thesis using rec [OF e0(1,2)] e0(3) True assms(3) by (auto simp: record_ok_def assms(6) stop_result_def)
    next
      case False
      then have a: "map_of (rs_runs ?s) j = Some a" using that(1) by (simp add: runs)
      have "settling j ?v" if "settling j w"
        using that False by (auto simp: settling_def image_iff) (metis in_set_remove1)
      then show ?thesis using rec [OF a that(2)] cellne [OF a that(2) False] by (auto simp: record_ok_def assms(6))
    qed
    show "j = k" if "map_of (rs_runs (w_reg ?v)) j = Some a" "re_stop_operation a = Some r" "map_of (rs_runs (w_reg ?v)) k = Some b"
      "re_stop_operation b = Some q" "so_cell r = so_cell q" for j a r k b q
    proof -
      have old: "\<exists>y'. map_of (rs_runs ?s) x = Some y' \<and> re_stop_operation y' = Some z" if "map_of (rs_runs t) x = Some y" "re_stop_operation y = Some z" for x y z
        using that assms(5) by (auto simp: runs split: if_splits)
      show ?thesis using old [of j a r] old [of k b q] that assms(1) unfolding stops_ok_def by simp metis
    qed
  qed
qed

lemma settle_ok:
  assumes "registry_ok w" "st \<in> set (w_settlements w)" "\<forall>r. result = Inr r \<longrightarrow> (\<exists>d. r = StopReceipt d)"
  shows "\<exists>t. settle_recoverable_stop st result (w_reg w) = Some t \<and> rs_cells t = (rs_cells (w_reg w))[ss_cell st := Some result]
     \<and> registry_ok (w\<lparr>w_reg := t, w_settlements := remove1 st (w_settlements w)\<rparr>)"
proof -
  let ?s = "w_reg w" and ?i = "ss_id st" and ?na = "not_applied_result result"
  have ok: "entries_ok ?s" "keys_ok ?s" "fences_ok ?s" "accounts_ok ?s" "stops_ok w" "control_ok w" using assms(1) by (simp_all add: registry_ok_def)
  obtain e r where e: "map_of (rs_runs ?s) ?i = Some e" "re_stop_operation e = Some r" "so_key r = ss_key st" "so_cell r = ss_cell st"
    "re_residency e = Retained" "2 \<le> re_strong e"
    using ok(5) assms(2) unfolding stops_ok_def in_flight_def by blast
  define f where "f = (\<lambda>e :: registry_entry. e\<lparr>re_stop_operation := (if ?na then None else re_stop_operation e), re_strong := re_strong e - 1\<rparr>)"
  define t where "t = ?s\<lparr>rs_runs := AList.map_entry ?i f (rs_runs ?s), rs_cells := (rs_cells ?s)[ss_cell st := Some result],
     rs_stop_runs := (if ?na then AList.delete (ss_key st) (rs_stop_runs ?s) else rs_stop_runs ?s),
     rs_control_budget := (if ?na then permit_drop (rs_control_budget ?s) (so_memory r) else rs_control_budget ?s)\<rparr>"
  have run: "settle_recoverable_stop st result ?s = Some t"
    using e unfolding settle_recoverable_stop_def t_def f_def
    by (cases ?na) (simp_all add: Let_def modify_entry_def map_entry_twice comp_def)
  let ?w = "w\<lparr>w_reg := t, w_settlements := remove1 st (w_settlements w)\<rparr>"
  have tf: "rs_runs t = AList.map_entry ?i f (rs_runs ?s)" "rs_creation_runs t = rs_creation_runs ?s" "rs_reservations t = rs_reservations ?s"
    "rs_next_ticket t = rs_next_ticket ?s" "rs_cells t = (rs_cells ?s)[ss_cell st := Some result]"
    "rs_retained_metadata_bytes t = rs_retained_metadata_bytes ?s" "rs_metadata_capacity t = rs_metadata_capacity ?s"
    "rs_record_capacity t = rs_record_capacity ?s" "rs_live_resources t = rs_live_resources ?s" "rs_live_capacity t = rs_live_capacity ?s"
    by (simp_all add: t_def)
  have res: "map_option re_residency (map_of (rs_runs t) j) = map_option re_residency (map_of (rs_runs ?s) j)" for j
    unfolding tf(1) using e(1) by (simp add: f_def del: map_of_eq_Some_iff)
  have "entries_ok t" using ok(1) e(1,6) unfolding entries_ok_def tf(1) by (auto simp: f_def simp del: map_of_eq_Some_iff split: if_splits)
  moreover have "keys_ok t"
  proof -
    have "index_ok stop_key (rs_stop_runs t) (rs_runs t)"
      using index_unbind [of stop_key "rs_stop_runs ?s" "rs_runs ?s" ?i e "ss_key st" f] index_modify [of stop_key "rs_stop_runs ?s" "rs_runs ?s" ?i f]
        ok(2) e by (cases ?na) (simp_all add: keys_ok_def stop_key_def t_def f_def)
    then show ?thesis using index_modify [of re_operation_key "rs_creation_runs ?s" "rs_runs ?s" ?i f] ok(2)
      by (simp add: keys_ok_def tf f_def)
  qed
  moreover have "fences_ok t" by (rule fences_cong [OF ok(3) res tf(2-4)])
  moreover have "accounts_ok t" by (rule accounts_cong [OF ok(4) tf(1) _ tf(3,6-8)]) (simp add: f_def)
  moreover have "live_ok ?w" using assms(1) by (simp add: registry_ok_def live_ok_def tf f_def)
  moreover have "handles_ok ?w" by (rule handles_cong [of w]) (use assms(1) in \<open>auto simp: registry_ok_def tf\<close>)
  moreover have "removals_ok ?w" using assms(1) res by (simp add: registry_ok_def removals_ok_def)
  moreover have "stops_ok ?w" by (rule settle_stops [OF ok(5) assms(2,3) tf(1) _ tf(5)]) (simp add: f_def)
  moreover have "control_ok ?w"
  proof -
    have m: "asum memory_of (rs_runs t) + memory_of e = asum memory_of (rs_runs ?s) + memory_of (f e)"
      unfolding tf(1) by (rule asum_map_entry [OF e(1)])
    have "so_memory r \<le> bb_used (rs_control_budget ?s)" using ok(6) asum_mem_le [OF e(1), of memory_of] e(2) by (simp add: control_ok_def memory_of_def)
    then show ?thesis using ok(6) m e(2) unfolding control_ok_def
      by (cases ?na) (auto simp: t_def f_def memory_of_def permit_drop_def budget_good_def wrapping_sub_exact)
  qed
  ultimately show ?thesis using run tf(5) by (simp add: registry_ok_def)
qed

end
