(* ===== verification/Registry_Properties.thy ===== *)
theory Registry_Properties
  imports Registry_Steps
begin

text \<open>
  The registry in every reachable state: from the Runs recovered at start-up, through any
  interleaving of creations, replacements, removals, Stop operations and changes of the Runs
  themselves.
\<close>

section \<open>Start-up\<close>

text \<open>A recovered Run fits when its turn comes.\<close>

definition recovers :: "u64 \<Rightarrow> operation_key \<times> reg_run \<times> u64 \<Rightarrow> registry_state \<Rightarrow> bool" where
  "recovers ro = (\<lambda>(key, run, metadata) s. fresh_creation (rn_id run) (Some key) s \<and> \<not> rn_live_permit run
     \<and> length (rs_runs s) + asum burden_of (rs_reservations s) < rs_record_capacity s
     \<and> rs_retained_metadata_bytes s + asum (reserved_metadata s) (rs_reservations s) + (metadata + ro + rn_resident_metadata run) \<le> rs_metadata_capacity s
     \<and> (reg_running run \<longrightarrow> rs_live_resources s < rs_live_capacity s))"

fun recoverable :: "u64 \<Rightarrow> (operation_key \<times> reg_run \<times> u64) list \<Rightarrow> registry_state \<Rightarrow> bool" where
  "recoverable ro [] s = True"
| "recoverable ro (x # xs) s = (recovers ro x s \<and> recoverable ro xs (recover_run ro x s))"

definition idle_world :: "registry_state \<Rightarrow> registry_world" where
  "idle_world s = \<lparr>w_reg = s, w_tickets = [], w_unresolved = [], w_settlements = [], w_removals = [], w_floating = 0, w_others = []\<rparr>"

inductive registry_reach :: "u64 \<Rightarrow> usize \<Rightarrow> registry_world \<Rightarrow> bool" for ro so where
  start: "s0 = registry_new records live metadata control \<Longrightarrow> recoverable ro runs s0 \<Longrightarrow>
     rs_live_capacity s0 \<le> U64_MAX \<Longrightarrow> metadata \<le> U64_MAX \<Longrightarrow> control \<le> U64_MAX \<Longrightarrow>
     s = recovered_with_resources ro runs s0 \<Longrightarrow> rs_live_resources s \<le> funded \<Longrightarrow>
     registry_reach ro so (idle_world (clamp_live_capacity funded s))"
| step: "registry_reach ro so w \<Longrightarrow> registry_step ro so w v \<Longrightarrow> registry_reach ro so v"

lemma recover_world:
  assumes "registry_ok w" "recovers ro x (w_reg w)"
  shows "registry_ok (w\<lparr>w_reg := recover_run ro x (w_reg w)\<rparr>)"
proof -
  obtain key run metadata where x: "x = (key, run, metadata)" by (cases x)
  let ?s = "w_reg w"
  define live where "live = reg_running run"
  define e where "e = \<lparr>re_run = (if live then run\<lparr>rn_live_permit := True\<rparr> else run), re_strong = 1, re_operation_key = Some key,
     re_stop_operation = None, re_metadata_bytes = Some metadata, re_metadata_charge = metadata + ro + rn_resident_metadata run, re_residency = Retained\<rparr>"
  define u where "u = (if live then take_live_permit ?s else ?s)"
  have run: "recover_run ro x ?s = register_run e (re_operation_key e) u"
    by (simp add: recover_run_def x e_def u_def live_def Let_def)
  have g: "fresh_creation (rn_id run) (Some key) ?s" "\<not> rn_live_permit run" "length (rs_runs ?s) + asum burden_of (rs_reservations ?s) < rs_record_capacity ?s"
    "rs_retained_metadata_bytes ?s + asum (reserved_metadata ?s) (rs_reservations ?s) + re_metadata_charge e \<le> rs_metadata_capacity ?s"
    "live \<Longrightarrow> rs_live_resources ?s < rs_live_capacity ?s"
    using assms(2) by (auto simp: recovers_def x e_def live_def)
  have ok: "entries_ok ?s" "keys_ok ?s" "fences_ok ?s" "accounts_ok ?s" "live_ok w" "stops_ok w" using assms(1) by (simp_all add: registry_ok_def)
  have u: "u = ?s\<lparr>rs_live_resources := rs_live_resources ?s + of_bool live\<rparr>"
    using g(5) ok(5) by (auto simp: u_def take_live_permit_def wrapping_add_exact live_ok_def)
  have id: "rn_id (re_run e) = rn_id run" by (simp add: e_def)
  have new: "map_of (rs_runs u) (rn_id (re_run e)) = None" using g(1) by (simp add: u id fresh_creation_def)
  let ?t = "register_run e (re_operation_key e) u"
  have tables: "entries_ok ?t" "keys_ok ?t"
    using insert_tables [of u e] new ok(1,2) g(1) by (auto simp: u e_def fresh_creation_def)
  have fences: "fences_ok ?t"
  proof (rule insert_fences [OF _ new])
    show "fences_ok u" using ok(3) by (simp add: u)
    show "rv_new_run_id v \<noteq> rn_id (re_run e) \<and> (\<forall>k. re_operation_key e = Some k \<longrightarrow> rv_operation_key v \<noteq> Some k)"
      if "map_of (rs_reservations u) n = Some v" for n v
    proof -
      have m: "map_of (rs_reservations ?s) n = Some v" using that by (simp add: u)
      show ?thesis using fresh_apart [OF g(1) m] id by (auto simp: e_def)
    qed
  qed (simp add: e_def)
  have fu: "fences_ok u" using ok(3) by (simp add: u)
  have sums: "asum f (rs_runs ?t) = asum f (rs_runs ?s) + f e" for f using insert_asum [OF new, of f] by (simp add: u)
  have exact: "wrapping_add (rs_retained_metadata_bytes ?s) (re_metadata_charge e) = rs_retained_metadata_bytes ?s + re_metadata_charge e"
    using g(4) ok(4) by (intro wrapping_add_exact) (simp add: accounts_ok_def)
  have len: "length (rs_runs ?t) = length (rs_runs ?s) + 1" using sums [of "\<lambda>_. Suc 0"] by (simp add: asum_length)
  have res: "asum (reserved_metadata ?t) (rs_reservations u) = asum (reserved_metadata ?s) (rs_reservations ?s)"
    using insert_reserved [OF fu new] by (simp add: u)
  have accounts: "accounts_ok ?t"
    using ok(4) g(3,4) exact len res sums [of re_metadata_charge] unfolding accounts_ok_def insert_fields(3,5,8,12) by (simp add: u)
  let ?w = "w\<lparr>w_reg := ?t\<rparr>"
  have "stops_ok (w\<lparr>w_reg := u\<rparr>)" by (rule stops_cong [OF ok(6)]) (simp_all add: u)
  then have "stops_ok ?w" by (rule insert_stops [OF _ new]) (simp add: e_def)
  moreover have "live_ok ?w" using ok(5) g(2,5) sums [of permit_of] unfolding live_ok_def by (auto simp: u e_def)
  moreover have "handles_ok ?w" by (rule handles_cong [of w]) (use assms(1) in \<open>auto simp: registry_ok_def u\<close>)
  moreover have "removals_ok ?w"
    using assms(1) g(1) by (auto simp: registry_ok_def removals_ok_def update_conv' u id fresh_creation_def) (simp_all add: e_def)
  moreover have "control_ok ?w" using assms(1) sums [of memory_of] by (simp add: registry_ok_def control_ok_def u e_def memory_of_def)
  ultimately show ?thesis using tables fences accounts by (simp add: registry_ok_def run)
qed

lemma new_world_ok:
  assumes "rs_live_capacity (registry_new records live metadata control) \<le> U64_MAX" "metadata \<le> U64_MAX" "control \<le> U64_MAX"
  shows "registry_ok (idle_world (registry_new records live metadata control))"
  using assms by (simp add: registry_ok_def idle_world_def registry_new_def entries_ok_def keys_ok_def fences_ok_def apart_def fenced_def
      accounts_ok_def live_ok_def handles_ok_def removals_ok_def stops_ok_def control_ok_def budget_good_def budget_new_def)

lemma recovered_ok:
  "registry_ok (idle_world s) \<Longrightarrow> recoverable ro runs s \<Longrightarrow> registry_ok (idle_world (recovered_with_resources ro runs s))"
proof (induction runs arbitrary: s)
  case (Cons x runs)
  then have "registry_ok (idle_world (recover_run ro x s))" using recover_world [of "idle_world s" ro x] by (simp add: idle_world_def)
  then show ?case using Cons by (simp add: recovered_with_resources_def)
qed (simp add: recovered_with_resources_def)

lemma clamp_ok:
  assumes "registry_ok (idle_world s)" "rs_live_resources s \<le> funded"
  shows "registry_ok (idle_world (clamp_live_capacity funded s))"
proof -
  let ?t = "clamp_live_capacity funded s"
  have "reserved_metadata ?t = reserved_metadata s" by (rule reserved_runs) (simp add: clamp_live_capacity_def)
  moreover have "stops_ok (idle_world ?t)"
    by (rule stops_cong [of "idle_world s"]) (use assms(1) in \<open>auto simp: registry_ok_def idle_world_def clamp_live_capacity_def\<close>)
  moreover have "fences_ok ?t"
    by (rule fences_cong [of s]) (use assms(1) in \<open>auto simp: registry_ok_def idle_world_def clamp_live_capacity_def\<close>)
  moreover have "min (rs_live_capacity s) funded \<le> U64_MAX" using assms(1) by (auto simp: registry_ok_def live_ok_def idle_world_def min_def)
  ultimately show ?thesis
    using assms by (simp add: registry_ok_def idle_world_def clamp_live_capacity_def entries_ok_def keys_ok_def
        accounts_ok_def live_ok_def handles_ok_def removals_ok_def control_ok_def)
qed

section \<open>Every step keeps the invariant\<close>

lemma budget_shared_ok:
  assumes "registry_ok w" "budget_step (rs_control_budget (w_reg w), w_others w) (b, ps)"
  shows "registry_ok (w\<lparr>w_reg := (w_reg w)\<lparr>rs_control_budget := b\<rparr>, w_others := ps\<rparr>)"
proof -
  have c: "control_ok w" using assms(1) by (simp add: registry_ok_def)
  have "budget_good b \<and> bb_used b = sum_list ps + asum memory_of (rs_runs (w_reg w))"
    using assms(2)
  proof (cases rule: budget_step.cases)
    case (granted n p)
    then show ?thesis using c by (auto simp: control_ok_def reserve_Some budget_good_def)
  next
    case (refused n)
    then show ?thesis using c by (simp add: control_ok_def)
  next
    case (dropped p)
    then have "p + sum_list (remove1 p (w_others w)) = sum_list (w_others w)" using sum_list_remove1 [of p "w_others w" "\<lambda>x. x"] by simp
    then show ?thesis using c dropped by (auto simp: control_ok_def permit_drop_def budget_good_def wrapping_sub_exact)
  qed
  moreover have "stops_ok (w\<lparr>w_reg := (w_reg w)\<lparr>rs_control_budget := b\<rparr>, w_others := ps\<rparr>)"
    by (rule stops_cong [of w]) (use assms(1) in \<open>auto simp: registry_ok_def\<close>)
  ultimately show ?thesis using assms(1) by (simp add: registry_ok_def live_ok_def handles_ok_def removals_ok_def control_ok_def)
qed

lemma run_dropped_ok:
  assumes "registry_ok w" "0 < w_floating w"
  shows "registry_ok (w\<lparr>w_reg := drop_live_permit True (w_reg w), w_floating := w_floating w - 1\<rparr>)"
proof -
  have "1 \<le> rs_live_resources (w_reg w)" using assms by (auto simp: registry_ok_def live_ok_def)
  then have d: "drop_live_permit True (w_reg w) = (w_reg w)\<lparr>rs_live_resources := rs_live_resources (w_reg w) - 1\<rparr>"
    using drop_live_permit_exact [of True "w_reg w"] live_bounds [OF assms(1)] by simp
  have "stops_ok (w\<lparr>w_reg := drop_live_permit True (w_reg w), w_floating := w_floating w - 1\<rparr>)"
    by (rule stops_cong [of w]) (use assms(1) in \<open>auto simp: registry_ok_def d\<close>)
  then show ?thesis using assms unfolding d by (auto simp: registry_ok_def live_ok_def handles_ok_def removals_ok_def control_ok_def)
qed

lemma step_ok: "registry_step ro so w v \<Longrightarrow> registry_ok w \<Longrightarrow> registry_ok v"
proof (induction rule: registry_step.induct)
  case (reserved i key w n alloc request h s t)
  then show ?case using reserve_ok [of w i key n alloc request "Inr h" s] by auto
next
  case (refused i key w n alloc request e s)
  then show ?case using reserve_ok [of w i key n alloc request "Inl e" s] by auto
next
  case (published w t h v run key strong info s)
  then show ?case using publish_creation_ok [of w t h v run key strong ro] by auto
next
  case (imported w t h v run strong s)
  then show ?case using publish_unkeyed_ok [of w t h v run strong] by auto
next
  case (abandoned w t h s)
  then show ?case using abandon_ok [of w t h] by auto
next
  case (left_unresolved w t h)
  then show ?case by (intro unresolved_ok)
next
  case (observed w i e e')
  then show ?case by (intro observed_step_ok)
next
  case (pinned i w r s)
  then show ?case by (intro pin_ok)
next
  case (retired w i)
  then show ?case by (intro release_ok)
next
  case (removed i w r s)
  then show ?case by (intro remove_memory_ok)
next
  case (removal_began i w c s)
  then show ?case by (intro begin_removal_ok)
next
  case (removal_committed i w s)
  then show ?case by (intro removal_commit_ok)
next
  case (removal_restored i w)
  then show ?case by (intro removal_drop_ok)
next
  case (stop_owned alloc i key w flight st s)
  then show ?case using begin_stop_ok [of w alloc so i key "Inr (StopOwner flight st)" s] by simp
next
  case (stop_joined alloc i key w flight s)
  then show ?case using begin_stop_ok [of w alloc so i key "Inr (StopRetry flight)" s] by simp
next
  case (stop_refused alloc i key w failure s)
  then show ?case using begin_stop_ok [of w alloc so i key "Inl failure" s] by simp
next
  case (stop_settled st w result s)
  then show ?case using settle_ok [of w st result] by auto
next
  case (run_dropped w)
  then show ?case by (intro run_dropped_ok)
next
  case (budget_shared w b ps)
  then show ?case by (intro budget_shared_ok)
qed

lemma reach_ok: "registry_reach ro so w \<Longrightarrow> registry_ok w"
proof (induction rule: registry_reach.induct)
  case (start s0 records live metadata control runs s funded)
  then show ?case using clamp_ok recovered_ok new_world_ok by blast
next
  case (step w v)
  then show ?case using step_ok by blast
qed

section \<open>Capacity\<close>


section \<open>Creation keys\<close>

lemma reserved_key_None:
  assumes "fences_ok s"
  shows "reserved_key key s = None \<longleftrightarrow> (\<forall>t v. map_of (rs_reservations s) t = Some v \<longrightarrow> rv_operation_key v \<noteq> Some key)"
  using assms by (auto simp: reserved_key_def find_None_iff fences_ok_def)

lemma reserved_key_Some:
  assumes "reserved_key key s = Some v" "fences_ok s"
  shows "\<exists>t. map_of (rs_reservations s) t = Some v \<and> rv_operation_key v = Some key"
proof -
  have "v \<in> snd ` set (rs_reservations s)" "rv_operation_key v = Some key"
    using assms(1) by (auto simp: reserved_key_def find_Some_iff)
  then show ?thesis using assms(2) by (auto simp: fences_ok_def)
qed

lemma creation_entry_exact:
  assumes "keys_ok s"
  shows "creation_entry key s = Inr (if \<exists>i e. map_of (rs_runs s) i = Some e \<and> re_operation_key e = Some key
     then map_of (rs_runs s) (the (map_of (rs_creation_runs s) key)) else None)"
proof (cases "map_of (rs_creation_runs s) key")
  case None
  then show ?thesis using assms index_okI [of re_operation_key "rs_creation_runs s" "rs_runs s"]
    unfolding creation_entry_def keys_ok_def by (auto simp del: map_of_eq_Some_iff)
next
  case (Some i)
  then obtain e where "map_of (rs_runs s) i = Some e" "re_operation_key e = Some key"
    using assms index_okD [of re_operation_key "rs_creation_runs s" "rs_runs s"] unfolding keys_ok_def by blast
  then show ?thesis using Some by (auto simp: creation_entry_def simp del: map_of_eq_Some_iff)
qed

lemma key_indexed:
  "keys_ok s \<Longrightarrow> map_of (rs_runs s) i = Some e \<Longrightarrow> re_operation_key e = Some key \<Longrightarrow> map_of (rs_creation_runs s) key = Some i"
  using index_okI unfolding keys_ok_def by metis

lemma key_not_reserved:
  "keys_ok s \<Longrightarrow> fences_ok s \<Longrightarrow> map_of (rs_runs s) i = Some e \<Longrightarrow> re_operation_key e = Some key
     \<Longrightarrow> map_of (rs_reservations s) t = Some v \<Longrightarrow> rv_operation_key v \<noteq> Some key"
  using key_indexed [of s i e key] unfolding fences_ok_def reservation_ok_def by (metis option.distinct(1))

text \<open>What resolving a key answers: reserved, unknown, or bound to one Run.\<close>

lemma resolve_reserved:
  assumes "reserved_key key s = Some v"
  shows "\<exists>err. resolve_creation_info key request s = Inl err \<and> (pe_code err = BackendUnavailable \<or> pe_code err = CreationConflict)"
  using assms by (auto simp: resolve_creation_info_def protocol_err_def split: option.splits)

lemma resolve_unknown:
  assumes "keys_ok s" "reserved_key key s = None" "\<not> (\<exists>i e. map_of (rs_runs s) i = Some e \<and> re_operation_key e = Some key)"
  shows "resolve_creation_info key request s = Inr None"
  using assms creation_entry_exact [OF assms(1), of key] by (auto simp: resolve_creation_info_def)

lemma resolve_bound:
  assumes "keys_ok s" "reserved_key key s = None" "map_of (rs_runs s) i = Some e" "re_operation_key e = Some key"
  shows "resolve_creation_info key request s =
    (if \<not> matches_run request (re_run e) then Inl (protocol_err CreationConflict ''Run creation operation key is already bound to a different request'')
     else if re_residency e = Retained then Inr (Some (re_run e))
     else Inl (protocol_err BackendUnavailable ''Run creation is temporarily unavailable''))"
proof -
  have "creation_entry key s = Inr (Some e)"
    using creation_entry_exact [OF assms(1), of key] key_indexed [OF assms(1,3,4)] assms(3,4) by auto
  then show ?thesis using assms(2) by (simp add: resolve_creation_info_def)
qed

text \<open>
  C40 (safety).  A creation key names at most one Run.  In every reachable state a key is carried by at most one
  retained Run or one reservation, never both; resolving it finds nothing exactly when neither exists (so a new Run may
  be created), yields a Run exactly when that Run carries the key, is not being replaced or removed and was created by
  an equal request, and otherwise reports a conflict or unavailability: the index never loses its Run.
\<close>

theorem creation_key_at_most_one_run:
  assumes "registry_reach ro so w"
  defines "s \<equiv> w_reg w"
  shows "(resolve_creation_info key request s = Inr None \<longleftrightarrow>
       (\<forall>t v. map_of (rs_reservations s) t = Some v \<longrightarrow> rv_operation_key v \<noteq> Some key)
       \<and> (\<forall>i e. map_of (rs_runs s) i = Some e \<longrightarrow> re_operation_key e \<noteq> Some key))
    \<and> (resolve_creation_info key request s = Inr (Some r) \<longleftrightarrow>
       (\<exists>i e. map_of (rs_runs s) i = Some e \<and> re_operation_key e = Some key \<and> re_residency e = Retained
          \<and> re_run e = r \<and> matches_run request r))
    \<and> (\<forall>err. resolve_creation_info key request s = Inl err \<longrightarrow> pe_code err = BackendUnavailable \<or> pe_code err = CreationConflict)
    \<and> (\<forall>i e j d. map_of (rs_runs s) i = Some e \<and> map_of (rs_runs s) j = Some d
          \<and> re_operation_key e = Some key \<and> re_operation_key d = Some key \<longrightarrow> i = j)
    \<and> (\<forall>i e t v. map_of (rs_runs s) i = Some e \<and> re_operation_key e = Some key \<and> map_of (rs_reservations s) t = Some v
          \<longrightarrow> rv_operation_key v \<noteq> Some key)"
proof -
  have ok: "keys_ok s" "fences_ok s" using reach_ok [OF assms(1)] by (simp_all add: registry_ok_def s_def)
  have uniq: "j = i" if "map_of (rs_runs s) i = Some e" "re_operation_key e = Some key" "map_of (rs_runs s) j = Some d" "re_operation_key d = Some key" for i e j d
    using key_indexed [OF ok(1) that(1,2)] key_indexed [OF ok(1) that(3,4)] by simp
  note apart = key_not_reserved [OF ok]
  show ?thesis
  proof (cases "reserved_key key s")
    case (Some v)
    then obtain t where t: "map_of (rs_reservations s) t = Some v" "rv_operation_key v = Some key" using reserved_key_Some [OF Some ok(2)] by blast
    have "\<not> (\<exists>i e. map_of (rs_runs s) i = Some e \<and> re_operation_key e = Some key)" using apart t by blast
    then show ?thesis using resolve_reserved [OF Some, of request] t by auto
  next
    case None
    then have none: "\<forall>t v. map_of (rs_reservations s) t = Some v \<longrightarrow> rv_operation_key v \<noteq> Some key" using reserved_key_None [OF ok(2)] by blast
    show ?thesis
    proof (cases "\<exists>i e. map_of (rs_runs s) i = Some e \<and> re_operation_key e = Some key")
      case False
      then show ?thesis using resolve_unknown [OF ok(1) None False, of request] none by auto
    next
      case True
      then obtain i e where e: "map_of (rs_runs s) i = Some e" "re_operation_key e = Some key" by blast
      note res = resolve_bound [OF ok(1) None e, of request]
      have one: "(\<exists>i e. map_of (rs_runs s) i = Some e \<and> re_operation_key e = Some key \<and> re_residency e = Retained \<and> re_run e = r \<and> matches_run request r)
          \<longleftrightarrow> re_residency e = Retained \<and> re_run e = r \<and> matches_run request r" using e uniq [OF e] by (metis option.inject)
      have some: "\<not> (\<forall>i e. map_of (rs_runs s) i = Some e \<longrightarrow> re_operation_key e \<noteq> Some key)" using e by blast
      show ?thesis
        unfolding one res using none some uniq
        by (intro conjI) (auto simp: protocol_err_def split: if_splits)
    qed
  qed
qed

section \<open>A reachable example\<close>

text \<open>One terminated Run recovered into a registry with room for one record; a new creation replaces it.\<close>

definition sample_record :: reg_run where
  "sample_record = \<lparr>rn_id = 7, rn_spec = None, rn_lineage = None, rn_state = Exited 0 None, rn_attachments = 0, rn_terminal_ordinal = Some 3,
     rn_control = None, rn_mode = PersistentCapable, rn_durable_metadata = None, rn_resident_metadata = 0, rn_live_permit = False\<rparr>"

definition sample_registry :: registry_state where
  "sample_registry = clamp_live_capacity 4 (recovered_with_resources 5 [(''a'', sample_record, 10)] (registry_new (Some 1) (Some 2) 100 1000))"

definition sample_entry :: registry_entry where
  "sample_entry = \<lparr>re_run = sample_record, re_strong = 1, re_operation_key = Some ''a'', re_stop_operation = None,
     re_metadata_bytes = Some 10, re_metadata_charge = 15, re_residency = Retained\<rparr>"

lemma sample_registry_eq:
  "sample_registry = \<lparr>rs_runs = [(7, sample_entry)], rs_creation_runs = [(''a'', 7)], rs_stop_runs = [], rs_reservations = [], rs_next_ticket = 0,
     rs_record_capacity = 1, rs_live_capacity = 2, rs_live_resources = 0, rs_metadata_capacity = 100, rs_retained_metadata_bytes = 15,
     rs_control_budget = \<lparr>bb_limit = 1000, bb_used = 0\<rparr>, rs_cells = []\<rparr>"
  by (simp add: sample_registry_def recovered_with_resources_def recover_run_def registry_new_def sample_record_def sample_entry_def reg_running_def
      register_run_def clamp_live_capacity_def budget_new_def wrapping_add_def Let_def)

lemma sample_start: "registry_reach 5 40 (idle_world sample_registry)"
  unfolding sample_registry_def
  by (rule registry_reach.start [where records = "Some 1" and live = "Some 2" and metadata = 100 and control = 1000
        and runs = "[(''a'', sample_record, 10)]", OF refl _ _ _ _ refl])
    (simp_all add: registry_new_def recovers_def sample_record_def fresh_creation_def reserved_key_def reg_running_def max_values
      recovered_with_resources_def recover_run_def register_run_def Let_def)

definition sample_reservation :: registry_reservation where
  "sample_reservation = \<lparr>rv_new_run_id = 8, rv_operation_key = Some ''b'', rv_request = None, rv_new_metadata_bytes = Some 20, rv_candidates = [7]\<rparr>"

definition sample_reserved :: registry_state where
  "sample_reserved = sample_registry\<lparr>rs_runs := [(7, sample_entry\<lparr>re_residency := Collecting 1\<rparr>)], rs_reservations := [(1, sample_reservation)],
     rs_next_ticket := 1, rs_live_resources := 1\<rparr>"

definition sample_handle :: publication_reservation where
  "sample_handle = \<lparr>pr_ticket = Some 1, pr_live_permit = True, pr_metadata_bytes = 20\<rparr>"

lemma sample_ordinal: "collection_ordinal (re_run sample_entry) = Some 3"
  by (simp add: collection_ordinal_def sample_entry_def sample_record_def reg_running_def)

lemma sample_select: "snd (select_publication_candidates (Some 20) sample_registry) = Inr [7]"
  by (simp add: select_publication_candidates_def sample_registry_eq metadata_to_fund_def projected_metadata_bytes_def projected_record_burden_def
      saturating_add_def saturating_sub_def max_values collection_order_def collection_key_def sample_ordinal entry_charge_def Let_def)
    (simp add: sample_entry_def)

lemma sample_admit: "admit_publication (\<lambda>_. True) sample_reservation sample_registry = Some (Inr sample_handle, sample_reserved)"
  by (simp add: admit_publication_def sample_registry_eq modify_entry_def checked_add_def max_values detach_collection_descriptors_def
      sample_reserved_def sample_reservation_def sample_handle_def take_live_permit_def wrapping_add_def sample_entry_def sample_record_def Let_def)

lemma sample_reserve:
  "reserve_publication (\<lambda>_. True) 8 (Some ''b'') None (Some 20) sample_registry = Some (Inr sample_handle, sample_reserved)"
proof -
  have "reclaim_closed_owners sample_registry = sample_registry" "rs_live_resources sample_registry < rs_live_capacity sample_registry"
    by (simp_all add: reclaim_closed_owners_def sample_registry_eq)
  then show ?thesis using sample_select sample_admit
    by (simp add: reserve_publication_def reserve_registry_insertion_capacity_def require_def sample_reservation_def Let_def)
qed

definition sample_world :: registry_world where
  "sample_world = (idle_world sample_registry)\<lparr>w_reg := sample_reserved, w_tickets := [(1, sample_handle)]\<rparr>"

lemma sample_reach: "registry_reach 5 40 sample_world"
proof -
  have "registry_step 5 40 (idle_world sample_registry) ((idle_world sample_registry)\<lparr>w_reg := sample_reserved,
     w_tickets := (1, sample_handle) # w_tickets (idle_world sample_registry)\<rparr>)"
  proof (rule registry_step.reserved)
    show "reserve_publication (\<lambda>_. True) 8 (Some ''b'') None (Some 20) (w_reg (idle_world sample_registry)) = Some (Inr sample_handle, sample_reserved)"
      using sample_reserve by (simp add: idle_world_def)
    show "fresh_creation 8 (Some ''b'') (w_reg (idle_world sample_registry))"
      "rs_metadata_capacity (w_reg (idle_world sample_registry)) + 20 \<le> U64_MAX"
      by (simp_all add: idle_world_def fresh_creation_def reserved_key_def sample_registry_eq max_values)
  qed (simp add: sample_handle_def)
  then show ?thesis using registry_reach.step [OF sample_start] by (simp add: sample_world_def idle_world_def)
qed


theorem creation_key_at_most_one_run_witness:
  "registry_reach 5 40 sample_world
    \<and> resolve_creation_info ''c'' (ForkRequest 7 PlanLevelA) (w_reg sample_world) = Inr None
    \<and> resolve_creation_info ''b'' (ForkRequest 7 PlanLevelA) (w_reg sample_world) \<noteq> Inr None"
  using creation_key_at_most_one_run [OF sample_reach, of "''c''" "ForkRequest 7 PlanLevelA" sample_record, THEN conjunct1]
    creation_key_at_most_one_run [OF sample_reach, of "''b''" "ForkRequest 7 PlanLevelA" sample_record, THEN conjunct1] sample_reach
  by (simp add: sample_world_def idle_world_def sample_reserved_def sample_registry_eq sample_reservation_def sample_entry_def)

section \<open>Stop operations\<close>

lemma stop_entry_retry:
  assumes "registry_ok w" "map_of (rs_runs (w_reg w)) i = Some e" "re_stop_operation e = Some q" "re_residency e = Retained"
  shows "fst (begin_recoverable_stop alloc so i (so_key q) (w_reg w)) = Inr (StopRetry \<lparr>rf_run = i, rf_cell = so_cell q\<rparr>)"
proof -
  have "map_of (rs_stop_runs (w_reg w)) (so_key q) = Some i"
    using assms index_okI [of stop_key "rs_stop_runs (w_reg w)" "rs_runs (w_reg w)" i e] by (simp add: registry_ok_def keys_ok_def stop_key_def)
  moreover have "operation_key_validate MAX_STOP_OPERATION_KEY_BYTES (so_key q) = Inr ()"
    using assms unfolding registry_ok_def stops_ok_def record_ok_def by blast
  ultimately show ?thesis using assms(2-4) by (simp add: begin_recoverable_stop_def retry_stop_def)
qed

lemma stop_entry_conflict:
  assumes "registry_ok w" "map_of (rs_runs (w_reg w)) i = Some e" "re_stop_operation e = Some q" "re_residency e = Retained"
    "operation_key_validate MAX_STOP_OPERATION_KEY_BYTES key = Inr ()" "key \<noteq> so_key q"
  shows "\<exists>f. begin_recoverable_stop alloc so i key (w_reg w) = (Inl f, w_reg w)
    \<and> cf_disposition f = NotApplied \<and> pe_code (cf_error f) = StopOperationConflict"
proof (cases "map_of (rs_stop_runs (w_reg w)) key")
  case None
  then show ?thesis using assms(2-5) by (simp add: begin_recoverable_stop_def stop_operation_conflict_def not_applied_def)
next
  case (Some j)
  then obtain d where "map_of (rs_runs (w_reg w)) j = Some d" "stop_key d = Some key"
    using assms(1) index_okD unfolding registry_ok_def keys_ok_def by metis
  then have "j \<noteq> i" using assms(2,3,6) by (auto simp: stop_key_def)
  then show ?thesis using Some assms(5) by (simp add: begin_recoverable_stop_def stop_operation_conflict_def not_applied_def)
qed


text \<open>A running native Run whose Stop was just admitted.\<close>

definition native_run :: reg_run where
  "native_run = sample_record\<lparr>rn_state := Running, rn_terminal_ordinal := None, rn_control := Some (NativeOwner (Inl ''busy'') (Inl ''busy''))\<rparr>"

definition native_registry :: registry_state where
  "native_registry = clamp_live_capacity 4 (recovered_with_resources 5 [(''a'', native_run, 10)] (registry_new (Some 1) (Some 2) 100 10000))"

definition native_entry :: registry_entry where
  "native_entry = sample_entry\<lparr>re_run := native_run\<lparr>rn_live_permit := True\<rparr>\<rparr>"

lemma native_registry_eq:
  "native_registry = \<lparr>rs_runs = [(7, native_entry)], rs_creation_runs = [(''a'', 7)], rs_stop_runs = [], rs_reservations = [], rs_next_ticket = 0,
     rs_record_capacity = 1, rs_live_capacity = 2, rs_live_resources = 1, rs_metadata_capacity = 100, rs_retained_metadata_bytes = 15,
     rs_control_budget = \<lparr>bb_limit = 10000, bb_used = 0\<rparr>, rs_cells = []\<rparr>"
  by (simp add: native_registry_def recovered_with_resources_def recover_run_def registry_new_def native_run_def sample_record_def native_entry_def
      sample_entry_def reg_running_def register_run_def clamp_live_capacity_def budget_new_def wrapping_add_def take_live_permit_def Let_def)

lemma native_start: "registry_reach 5 40 (idle_world native_registry)"
  unfolding native_registry_def
  by (rule registry_reach.start [where records = "Some 1" and live = "Some 2" and metadata = 100 and control = 10000
        and runs = "[(''a'', native_run, 10)]", OF refl _ _ _ _ refl])
    (simp_all add: registry_new_def recovers_def native_run_def sample_record_def fresh_creation_def reserved_key_def reg_running_def max_values
      recovered_with_resources_def recover_run_def register_run_def take_live_permit_def wrapping_add_def Let_def)

definition stopping_entry :: registry_entry where
  "stopping_entry = native_entry\<lparr>re_stop_operation := Some \<lparr>so_key = ''k'', so_cell = 0,
     so_memory = stop_receipt_charge 40 ''k''\<rparr>, re_strong := 3\<rparr>"

definition stopping_registry :: registry_state where
  "stopping_registry = native_registry\<lparr>rs_runs := [(7, stopping_entry)], rs_stop_runs := [(''k'', 7)], rs_cells := [None],
     rs_control_budget := \<lparr>bb_limit = 10000, bb_used = stop_receipt_charge 40 ''k''\<rparr>\<rparr>"

lemma stopping_begin:
  "begin_recoverable_stop (\<lambda>_. True) 40 7 ''k'' native_registry
     = (Inr (StopOwner \<lparr>rf_run = 7, rf_cell = 0\<rparr> \<lparr>ss_id = 7, ss_key = ''k'', ss_cell = 0\<rparr>), stopping_registry)"
  by (simp add: begin_recoverable_stop_def operation_key_validate_def MAX_STOP_OPERATION_KEY_BYTES_def native_registry_eq bind_stop_def reserve_def
      stop_receipt_charge_def INPUT_RESULT_DIAGNOSTIC_RESERVE_BYTES_def checked_add_def max_values native_capability_def stopping_registry_def
      stopping_entry_def modify_entry_def Let_def)
    (simp add: native_entry_def sample_entry_def native_run_def modify_entry_def)

definition stopping_world :: registry_world where
  "stopping_world = (idle_world stopping_registry)\<lparr>w_settlements := [\<lparr>ss_id = 7, ss_key = ''k'', ss_cell = 0\<rparr>]\<rparr>"

lemma stopping_reach: "registry_reach 5 40 stopping_world"
proof -
  have "registry_step 5 40 (idle_world native_registry) ((idle_world native_registry)\<lparr>w_reg := stopping_registry,
     w_settlements := \<lparr>ss_id = 7, ss_key = ''k'', ss_cell = 0\<rparr> # w_settlements (idle_world native_registry)\<rparr>)"
    by (rule registry_step.stop_owned) (use stopping_begin in \<open>simp add: idle_world_def\<close>)
  then show ?thesis using registry_reach.step [OF native_start] by (simp add: stopping_world_def idle_world_def)
qed


end
