(* ===== verification/Stop_Handoff.thy ===== *)
theory Stop_Handoff
  imports Registry_Properties
begin

text \<open>
  Stop receipts across an exec-in-place upgrade: the old image snapshots its settled Stop operations
  (\<^verbatim>\<open>handoff_stop_operations\<close>), the new one restores them into the registry it recovered
  (\<^verbatim>\<open>restore_handoff_stop_operations\<close>).
\<close>

section \<open>The snapshot\<close>

definition outcome_of :: "control_result \<Rightarrow> handoff_stop_outcome" where
  "outcome_of result = (case result of Inr (StopReceipt d) \<Rightarrow> StopAccepted d | Inr _ \<Rightarrow> StopAccepted Graceful | Inl f \<Rightarrow> StopUnknown f)"

lemma outcome_roundtrip: "stop_result result \<Longrightarrow> outcome_into_result (outcome_of result) = result"
  by (auto simp: outcome_of_def outcome_into_result_def stop_result_def split: sum.splits control_receipt.splits)

definition operation_of :: "registry_state \<Rightarrow> run_id \<Rightarrow> stop_operation_record \<Rightarrow> handoff_stop_operation" where
  "operation_of s i q = \<lparr>ho_run_id = i, ho_operation_key = so_key q, ho_outcome = outcome_of (the (settled s (so_cell q)))\<rparr>"

definition operation_of_entry :: "registry_state \<Rightarrow> run_id \<times> registry_entry \<Rightarrow> handoff_stop_operation option" where
  "operation_of_entry s = (\<lambda>(i, e). map_option (operation_of s i) (re_stop_operation e))"

definition quiet_record :: "registry_state \<Rightarrow> run_id \<times> registry_entry \<Rightarrow> bool" where
  "quiet_record s = (\<lambda>(i, e). \<forall>q. re_stop_operation e = Some q \<longrightarrow> re_residency e = Retained
     \<and> operation_key_validate MAX_STOP_OPERATION_KEY_BYTES (so_key q) = Inr () \<and> (\<exists>r. settled s (so_cell q) = Some r \<and> stop_result r))"

lemma operation_valid:
  "operation_key_validate MAX_STOP_OPERATION_KEY_BYTES (so_key q) = Inr () \<Longrightarrow> settled s (so_cell q) = Some r \<Longrightarrow> stop_result r
   \<Longrightarrow> handoff_stop_validate (operation_of s i q) = Inr ()"
  by (cases r) (auto simp: handoff_stop_validate_def operation_of_def outcome_of_def stop_result_def not_applied_result_def require_def
      split: control_receipt.splits, (metis disposition.exhaust)+)

lemma handoff_entry_quiet:
  assumes "quiet_record s x"
  shows "handoff_entry s x = Inr (operation_of_entry s x)"
proof -
  obtain i e where x: "x = (i, e)" by (cases x)
  show ?thesis
  proof (cases "re_stop_operation e")
    case None
    then show ?thesis by (simp add: x handoff_entry_def operation_of_entry_def)
  next
    case (Some q)
    then obtain r where r: "re_residency e = Retained" "operation_key_validate MAX_STOP_OPERATION_KEY_BYTES (so_key q) = Inr ()"
      "settled s (so_cell q) = Some r" "stop_result r" using assms by (auto simp: x quiet_record_def)
    have out: "(case r of Inr (StopReceipt d) \<Rightarrow> Inr (StopAccepted d) | Inr _ \<Rightarrow> Inl ''native Stop ledger retained another receipt kind''
        | Inl failure \<Rightarrow> if cf_disposition failure = DispositionUnknown then Inr (StopUnknown failure)
            else Inl ''native Stop ledger retained a not-applied result'') = Inr (outcome_of r)"
    proof (cases r)
      case (Inl f)
      then have "cf_disposition f \<noteq> NotApplied" using r(4) by (simp add: stop_result_def not_applied_result_def)
      then show ?thesis using Inl by (cases "cf_disposition f") (auto simp: outcome_of_def)
    next
      case (Inr c)
      then show ?thesis using r(4) by (auto simp: stop_result_def outcome_of_def)
    qed
    show ?thesis
      using Some r(1,3) out operation_valid [OF r(2-4), of i] by (simp add: x handoff_entry_def operation_of_entry_def operation_of_def Let_def)
  qed
qed

lemma collect_quiet: "(\<And>x. x \<in> set xs \<Longrightarrow> quiet_record s x) \<Longrightarrow> collect_operations s xs = Inr (List.map_filter (operation_of_entry s) xs)"
proof (induction xs)
  case (Cons x xs)
  then show ?case using handoff_entry_quiet [of s x] by (simp split: option.splits)
qed simp

lemma reach_quiet:
  assumes "registry_reach ro so w" "w_settlements w = []"
    "\<And>i e q. map_of (rs_runs (w_reg w)) i = Some e \<Longrightarrow> re_stop_operation e = Some q \<Longrightarrow> re_residency e = Retained"
    "x \<in> set (rs_runs (w_reg w))"
  shows "quiet_record (w_reg w) x"
proof -
  have ok: "registry_ok w" by (rule reach_ok [OF assms(1)])
  obtain i e where x: "x = (i, e)" by (cases x)
  then have e: "map_of (rs_runs (w_reg w)) i = Some e" using assms(4) ok by (simp add: registry_ok_def entries_ok_def)
  have "record_ok w i q" if "re_stop_operation e = Some q" for q using ok e that unfolding registry_ok_def stops_ok_def by blast
  then show ?thesis using assms(2,3) e by (auto simp: quiet_record_def x record_ok_def settling_def settled_def)
qed

section \<open>Restoring\<close>

text \<open>What a list of operations asks of the receiving registry.\<close>

definition receivable :: "registry_state \<Rightarrow> handoff_stop_operation list \<Rightarrow> bool" where
  "receivable s operations \<longleftrightarrow> distinct (map ho_run_id operations) \<and> distinct (map ho_operation_key operations)
     \<and> (\<forall>x\<in>set operations. handoff_stop_validate x = Inr () \<and> (\<exists>e. map_of (rs_runs s) (ho_run_id x) = Some e \<and> re_stop_operation e = None))"

lemma check_receivable:
  assumes "receivable s operations" "ho_run_id ` set operations \<inter> set ids = {}" "ho_operation_key ` set operations \<inter> set keys = {}"
  shows "check_stop_operations ids keys s operations = Inr ()"
  using assms
proof (induction operations arbitrary: ids keys)
  case (Cons x operations)
  then show ?case by (auto simp: receivable_def)
qed simp

definition restored :: "handoff_stop_operation list \<Rightarrow> registry_state \<Rightarrow> registry_state \<Rightarrow> bool" where
  "restored operations s t \<longleftrightarrow>
     (\<forall>x\<in>set operations. \<exists>e q. map_of (rs_runs t) (ho_run_id x) = Some e \<and> re_stop_operation e = Some q \<and> so_key q = ho_operation_key x
        \<and> settled t (so_cell q) = Some (outcome_into_result (ho_outcome x)) \<and> map_of (rs_stop_runs t) (ho_operation_key x) = Some (ho_run_id x))
     \<and> (\<forall>i. i \<notin> ho_run_id ` set operations \<longrightarrow> map_of (rs_runs t) i = map_of (rs_runs s) i)
     \<and> (\<forall>k. k \<notin> ho_operation_key ` set operations \<longrightarrow> map_of (rs_stop_runs t) k = map_of (rs_stop_runs s) k)
     \<and> (\<forall>c. c < length (rs_cells s) \<longrightarrow> settled t c = settled s c) \<and> length (rs_cells s) \<le> length (rs_cells t)"

lemma restore_stop_step:
  assumes "map_of (rs_runs s) (ho_run_id x) = Some e" "budget_good (rs_control_budget s)"
    "bb_used (rs_control_budget s) + stop_control_memory_bytes so x \<le> bb_limit (rs_control_budget s)"
  obtains t where "restore_stop so x s = Some (Inr (), t)" "restored [x] s t" "budget_good (rs_control_budget t)"
    "bb_used (rs_control_budget t) = bb_used (rs_control_budget s) + stop_control_memory_bytes so x"
    "bb_limit (rs_control_budget t) = bb_limit (rs_control_budget s)"
proof -
  let ?c = "stop_control_memory_bytes so x"
  have fits: "usize_try_from ?c = Some ?c"
    using saturating_add_le unfolding stop_control_memory_bytes_def by (simp add: usize_try_from_def USIZE_MAX_eq_U64_MAX)
  have r: "reserve (rs_control_budget s) ?c = Some ((rs_control_budget s)\<lparr>bb_used := bb_used (rs_control_budget s) + ?c\<rparr>, ?c)"
    using assms(2,3) by (simp add: reserve_Some budget_good_def)
  let ?t = "modify_entry (ho_run_id x) (\<lambda>e. e\<lparr>re_stop_operation := Some \<lparr>so_key = ho_operation_key x, so_cell = length (rs_cells s), so_memory = ?c\<rparr>\<rparr>)
     (s\<lparr>rs_control_budget := (rs_control_budget s)\<lparr>bb_used := bb_used (rs_control_budget s) + ?c\<rparr>,
        rs_cells := rs_cells s @ [Some (outcome_into_result (ho_outcome x))], rs_stop_runs := AList.update (ho_operation_key x) (ho_run_id x) (rs_stop_runs s)\<rparr>)"
  have "restore_stop so x s = Some (Inr (), ?t)" using fits r assms(1) by (simp add: restore_stop_def Let_def)
  moreover have "restored [x] s ?t"
    using assms(1) by (auto simp: restored_def modify_entry_def settled_def nth_append update_conv' simp del: map_of_eq_Some_iff)
  moreover have "budget_good (rs_control_budget ?t)" using assms(2,3) by (simp add: modify_entry_def budget_good_def)
  ultimately show ?thesis using that [of ?t] by (simp add: modify_entry_def)
qed

lemma restored_step:
  assumes "restored [x] s t" "restored xs t u" "ho_run_id x \<notin> ho_run_id ` set xs" "ho_operation_key x \<notin> ho_operation_key ` set xs"
  shows "restored (x # xs) s u"
proof -
  obtain e q where q: "map_of (rs_runs t) (ho_run_id x) = Some e" "re_stop_operation e = Some q" "so_key q = ho_operation_key x"
    "settled t (so_cell q) = Some (outcome_into_result (ho_outcome x))" "map_of (rs_stop_runs t) (ho_operation_key x) = Some (ho_run_id x)"
    using assms(1) unfolding restored_def by auto
  have "so_cell q < length (rs_cells t)" using q(4) by (simp add: settled_def split: if_splits)
  then have "map_of (rs_runs u) (ho_run_id x) = Some e" "settled u (so_cell q) = Some (outcome_into_result (ho_outcome x))"
    "map_of (rs_stop_runs u) (ho_operation_key x) = Some (ho_run_id x)"
    using assms(2-4) q unfolding restored_def by auto
  then show ?thesis using assms(1,2) q(2,3) unfolding restored_def by auto
qed

lemma restore_receivable:
  assumes "receivable s xs" "budget_good (rs_control_budget s)"
    "bb_used (rs_control_budget s) + sum_list (map (stop_control_memory_bytes so) xs) \<le> bb_limit (rs_control_budget s)"
  shows "\<exists>t. restore_stops so xs s = Some (Inr (), t) \<and> restored xs s t"
  using assms
proof (induction xs arbitrary: s)
  case Nil
  then show ?case by (simp add: restored_def)
next
  case (Cons x xs)
  obtain e where e: "map_of (rs_runs s) (ho_run_id x) = Some e" using Cons.prems(1) by (auto simp: receivable_def)
  obtain t where t: "restore_stop so x s = Some (Inr (), t)" "restored [x] s t" "budget_good (rs_control_budget t)"
    "bb_used (rs_control_budget t) = bb_used (rs_control_budget s) + stop_control_memory_bytes so x"
    "bb_limit (rs_control_budget t) = bb_limit (rs_control_budget s)"
    using restore_stop_step [OF e Cons.prems(2), of so] Cons.prems(3) by auto
  have ne: "ho_run_id x \<notin> ho_run_id ` set xs" "ho_operation_key x \<notin> ho_operation_key ` set xs"
    using Cons.prems(1) by (auto simp: receivable_def)
  have "receivable t xs"
    using Cons.prems(1) t(2) ne(1) unfolding receivable_def restored_def by (auto simp: image_iff)
  then obtain u where "restore_stops so xs t = Some (Inr (), u)" "restored xs t u" using Cons.IH [of t] t(3-5) Cons.prems(3) by auto
  then show ?case using t(1) restored_step [OF t(2) _ ne] by simp
qed

section \<open>The round trip\<close>

lemma operations_mem:
  "x \<in> set (List.map_filter (operation_of_entry s) xs) \<longleftrightarrow> (\<exists>i e q. (i, e) \<in> set xs \<and> re_stop_operation e = Some q \<and> x = operation_of s i q)"
  by (induction xs) (auto simp: operation_of_entry_def split: option.splits)

lemma operations_ids:
  "map ho_run_id (List.map_filter (operation_of_entry s) xs) = map fst (filter (\<lambda>(i, e). re_stop_operation e \<noteq> None) xs)"
  by (induction xs) (auto simp: operation_of_entry_def operation_of_def split: option.splits)

lemma operations_distinct:
  assumes "entries_ok s" "keys_ok s"
  defines "operations \<equiv> List.map_filter (operation_of_entry s) (rs_runs s)"
  shows "distinct (map ho_run_id operations)" "distinct (map ho_operation_key operations)"
proof -
  have d: "distinct (map fst (rs_runs s))" using assms(1) by (simp add: entries_ok_def)
  show ids: "distinct (map ho_run_id operations)" unfolding operations_def operations_ids using d by (simp add: distinct_map_filter)
  have "inj_on ho_operation_key (set operations)"
  proof (rule inj_onI)
    fix x y
    assume xy: "x \<in> set operations" "y \<in> set operations" "ho_operation_key x = ho_operation_key y"
    then obtain i e q j f r where e: "(i, e) \<in> set (rs_runs s)" "re_stop_operation e = Some q" "x = operation_of s i q"
      "(j, f) \<in> set (rs_runs s)" "re_stop_operation f = Some r" "y = operation_of s j r" by (auto simp: operations_def operations_mem)
    then have m: "map_of (rs_runs s) i = Some e" "map_of (rs_runs s) j = Some f" using d by simp_all
    have "stop_key e = Some (so_key q)" "stop_key f = Some (so_key q)" using e xy(3) by (simp_all add: stop_key_def operation_of_def)
    then have "i = j" using assms(2) index_okI [of stop_key "rs_stop_runs s" "rs_runs s"] m unfolding keys_ok_def by (metis option.inject)
    then show "x = y" using m e by simp
  qed
  then show "distinct (map ho_operation_key operations)" using ids by (simp add: distinct_map)
qed


text \<open>The example's Stop has settled; its receipt moves into a fresh registry that recovered the Run.\<close>

definition settled_registry :: registry_state where
  "settled_registry = stopping_registry\<lparr>rs_runs := [(7, stopping_entry\<lparr>re_strong := 2\<rparr>)], rs_cells := [Some (Inr (StopReceipt Graceful))]\<rparr>"

lemma settled_reach: "registry_reach 5 40 (idle_world settled_registry)"
proof -
  let ?st = "\<lparr>ss_id = 7, ss_key = ''k'', ss_cell = 0\<rparr>"
  have "settle_recoverable_stop ?st (Inr (StopReceipt Graceful)) (w_reg stopping_world) = Some settled_registry"
    by (simp add: settle_recoverable_stop_def stopping_world_def idle_world_def stopping_registry_def settled_registry_def modify_entry_def
        native_registry_eq Let_def)
      (simp add: stopping_entry_def not_applied_result_def modify_entry_def native_entry_def sample_entry_def)
  then have "registry_step 5 40 stopping_world (stopping_world\<lparr>w_reg := settled_registry, w_settlements := remove1 ?st (w_settlements stopping_world)\<rparr>)"
    by (intro registry_step.stop_settled) (simp_all add: stopping_world_def)
  then show ?thesis using registry_reach.step [OF stopping_reach] by (simp add: stopping_world_def idle_world_def)
qed

lemma settled_snapshot:
  "handoff_stop_operations settled_registry = Inr [\<lparr>ho_run_id = 7, ho_operation_key = ''k'', ho_outcome = StopAccepted Graceful\<rparr>]"
  by (simp add: handoff_stop_operations_def settled_registry_def handoff_entry_def stopping_entry_def native_entry_def sample_entry_def settled_def
      handoff_stop_validate_def operation_key_validate_def MAX_STOP_OPERATION_KEY_BYTES_def Let_def)


end
