(* ===== verification/Client_Types.thy ===== *)
theory Client_Types
  imports Run_Registry
begin

text \<open>
  What the client library shares (\<^verbatim>\<open>crates/ctxmux-client/src/lib.rs\<close>): its errors with their retry-safety disposition, the
  server's frames and responses (\<^verbatim>\<open>ctxmux-protocol\<close>), the checks of runtime identity and capabilities, receipts, and one
  short control request from the connection to its correlated result.

  The socket is a parameter: what connecting, encoding and sending answered, and the frames received until the peer
  closes, as a list of frames and of transport or decoding errors (\<open>wire\<close>).
\<close>

section \<open>Errors\<close>

type_synonym command_id = nat

datatype attachment_unavailable_reason = ObservationUnavailable | Detaching | ClosedReason | CommandIdsExhausted

datatype attachment_unknown_reason = TransportTerminated | ProtocolViolation | ClosedLocally

datatype capability_version_error = VersionZero | VersionExceedsSafeInteger nat nat

datatype terminal_seed_resource_error =
    RestoreLimit u64 u64
  | HostByteCapacity u64
  | HostScrollbackCapacity u64
  | SeedAllocation u64

record runtime_identity =
  rt_daemon_instance_id :: nat
  rt_runtime_id :: nat
  rt_protocol_generation :: nat
  rt_capabilities :: "(string \<times> nat) list"

datatype client_error =
    ConnectError string
  | ClosedError
  | TransportError string
  | FrameError string
  | ProtocolErr protocol_error
  | InvalidCapabilityRequirement string nat capability_version_error
  | UnsupportedCapabilityError string nat "nat option"
  | RuntimeIdentityMismatch runtime_identity runtime_identity
  | ControlRejectedError control_failure
  | ControlRequestUnknown client_error
  | ControlNotApplied client_error
  | AttachmentBackpressure string
  | AttachmentUnavailable attachment_unavailable_reason
  | AttachmentCommandUnknown command_id attachment_unknown_reason
  | InvalidAttachmentEventLimits
  | AttachmentObservationUnavailable usize usize
  | TerminalSeedResource terminal_seed_resource_error
  | ConcurrentEventRead
  | ProtocolContractViolation string
  | UnexpectedFrame string

fun control_disposition :: "client_error \<Rightarrow> disposition option" where
  "control_disposition (ControlRejectedError failure) = Some (cf_disposition failure)"
| "control_disposition (ControlRequestUnknown _) = Some DispositionUnknown"
| "control_disposition (AttachmentCommandUnknown _ _) = Some DispositionUnknown"
| "control_disposition (ControlNotApplied _) = Some NotApplied"
| "control_disposition (AttachmentBackpressure _) = Some NotApplied"
| "control_disposition (AttachmentUnavailable _) = Some NotApplied"
| "control_disposition (UnsupportedCapabilityError _ _ _) = Some NotApplied"
| "control_disposition (RuntimeIdentityMismatch _ _) = Some NotApplied"
| "control_disposition _ = None"

definition control_request_unknown :: "client_error \<Rightarrow> client_error" where
  "control_request_unknown source = ControlRequestUnknown source"

fun control_not_applied :: "client_error \<Rightarrow> client_error" where
  "control_not_applied (UnsupportedCapabilityError capability required advertised) = UnsupportedCapabilityError capability required advertised"
| "control_not_applied (RuntimeIdentityMismatch expected actual) = RuntimeIdentityMismatch expected actual"
| "control_not_applied source = ControlNotApplied source"

definition map_err :: "('e \<Rightarrow> 'f) \<Rightarrow> 'e + 'a \<Rightarrow> 'f + 'a" where
  "map_err f r = (case r of Inl e \<Rightarrow> Inl (f e) | Inr x \<Rightarrow> Inr x)"

lemma map_err_simps [simp]: "map_err f (Inl e) = Inl (f e)" "map_err f (Inr x) = Inr x"
  by (simp_all add: map_err_def)

lemma map_err_Inr [simp]: "map_err f r = Inr x \<longleftrightarrow> r = Inr x"
  by (cases r) simp_all

lemma map_err_Inl: "map_err f r = Inl e \<longleftrightarrow> (\<exists>e'. r = Inl e' \<and> e = f e')"
  by (cases r) auto

section \<open>Frames\<close>

record run_info =
  ri_id :: run_id
  ri_state :: run_state
  ri_native_service :: "service_snapshot option"
  ri_latest_output_bytes :: u64
  ri_first_available_byte :: u64

text \<open>Responses the client calls of this development tell apart; the others carry nothing they read.\<close>

datatype response =
    RunsResponse "reg_run list" "run_id option"
  | ControlAcceptedResponse run_info control_receipt
  | ControlRejectedResponse control_failure
  | OtherResponse

datatype control_outcome = OutcomeAccepted control_receipt | OutcomeRejected control_failure

record output_replay_header =
  rh_first_available_byte :: u64
  rh_latest_output_bytes :: u64
  rh_truncated :: bool

record attached_header =
  ah_run :: run_info
  ah_terminal :: terminal_continuation
  ah_resize_revision :: u64
  ah_replay :: output_replay_header

datatype server_frame =
    HelloFrame runtime_identity
  | ResponseFrame response
  | AttachedFrame attached_header
  | ReplayWindowFrame u64 u64
  | CheckpointChunkFrame u64 "byte list"
  | EventFrame run_event
  | CommandResultFrame command_id control_outcome
  | DetachedFrame
  | ErrorFrame protocol_error

type_synonym wire = "(client_error + server_frame) list"

definition receive_optional :: "wire \<Rightarrow> client_error + server_frame option \<times> wire" where
  "receive_optional w =
     (case w of [] \<Rightarrow> Inr (None, []) | Inl failure # _ \<Rightarrow> Inl failure | Inr frame # rest \<Rightarrow> Inr (Some frame, rest))"

definition receive :: "wire \<Rightarrow> client_error + server_frame \<times> wire" where
  "receive w = and_then (receive_optional w) (\<lambda>(received, rest).
     case received of None \<Rightarrow> Inl ClosedError | Some frame \<Rightarrow> Inr (frame, rest))"

lemma receive_simps [simp]:
  "receive [] = Inl ClosedError" "receive (Inl failure # rest) = Inl failure" "receive (Inr frame # rest) = Inr (frame, rest)"
  by (simp_all add: receive_def receive_optional_def)

section \<open>Runtime identity and capabilities\<close>

definition PROTOCOL_VERSION :: nat where "PROTOCOL_VERSION = 23"
definition MAX_RUNTIME_CAPABILITY_VERSION :: nat where "MAX_RUNTIME_CAPABILITY_VERSION = 9007199254740991"
definition RUNTIME_CAPABILITY_NATIVE_RECOVERABLE_STOP :: string where
  "RUNTIME_CAPABILITY_NATIVE_RECOVERABLE_STOP = ''native.recoverable_stop''"

definition validate_runtime_capability_version :: "nat \<Rightarrow> capability_version_error + unit" where
  "validate_runtime_capability_version version =
     (if version = 0 then Inl VersionZero
      else if version > MAX_RUNTIME_CAPABILITY_VERSION then Inl (VersionExceedsSafeInteger version MAX_RUNTIME_CAPABILITY_VERSION)
      else Inr ())"

definition validate_runtime_identity :: "runtime_identity \<Rightarrow> client_error + unit" where
  "validate_runtime_identity runtime =
     require (rt_protocol_generation runtime = PROTOCOL_VERSION) (UnexpectedFrame ''expected compatible hello'')"

definition validate_required_capabilities :: "(string \<times> nat) list \<Rightarrow> client_error + unit" where
  "validate_required_capabilities requirements =
     for_each (\<lambda>(capability, required). map_err (InvalidCapabilityRequirement capability required) (validate_runtime_capability_version required))
       requirements"

definition capability_satisfied :: "runtime_identity \<Rightarrow> string \<Rightarrow> nat \<Rightarrow> bool" where
  "capability_satisfied runtime capability required =
     (case map_of (rt_capabilities runtime) capability of None \<Rightarrow> False | Some version \<Rightarrow> required \<le> version)"

definition validate_runtime_capability_requirements :: "runtime_identity \<Rightarrow> (string \<times> nat) list \<Rightarrow> client_error + unit" where
  "validate_runtime_capability_requirements runtime requirements =
     for_each (\<lambda>(capability, required). require (capability_satisfied runtime capability required)
       (UnsupportedCapabilityError capability required (map_of (rt_capabilities runtime) capability))) requirements"

definition require_recoverable_stop :: "runtime_identity \<Rightarrow> client_error + unit" where
  "require_recoverable_stop runtime =
     require (capability_satisfied runtime RUNTIME_CAPABILITY_NATIVE_RECOVERABLE_STOP 1)
       (UnsupportedCapabilityError RUNTIME_CAPABILITY_NATIVE_RECOVERABLE_STOP 1
          (map_of (rt_capabilities runtime) RUNTIME_CAPABILITY_NATIVE_RECOVERABLE_STOP))"

section \<open>Connecting\<close>

text \<open>
  One connection attempt by what the transport answers: opening the socket, sending the hello, the frames then received.
\<close>

record connection =
  cn_open :: "client_error + unit"
  cn_hello :: "client_error + unit"
  cn_wire :: wire

definition connect :: "connection \<Rightarrow> client_error + wire \<times> runtime_identity" where
  "connect cn =
     and_then (cn_open cn) (\<lambda>_. and_then (cn_hello cn) (\<lambda>_. and_then (receive (cn_wire cn)) (\<lambda>(frame, rest).
       case frame of
         HelloFrame runtime \<Rightarrow> and_then (validate_runtime_identity runtime) (\<lambda>_. Inr (rest, runtime))
       | ErrorFrame failure \<Rightarrow> Inl (ProtocolErr failure)
       | _ \<Rightarrow> Inl (UnexpectedFrame ''expected compatible hello''))))"

record client =
  cl_expected_runtime_identity :: "runtime_identity option"
  cl_required_capabilities :: "(string \<times> nat) list"

definition connect_for_dispatch :: "client \<Rightarrow> connection \<Rightarrow> client_error + wire \<times> runtime_identity" where
  "connect_for_dispatch cl cn =
     and_then (connect cn) (\<lambda>(w, runtime).
       and_then (case cl_expected_runtime_identity cl of
                   None \<Rightarrow> Inr ()
                 | Some expected \<Rightarrow> require (runtime = expected) (RuntimeIdentityMismatch expected runtime)) (\<lambda>_.
         and_then (validate_runtime_capability_requirements runtime (cl_required_capabilities cl)) (\<lambda>_. Inr (w, runtime))))"

section \<open>Receipts\<close>

definition validate_control_failure :: "control_failure \<Rightarrow> string + unit" where
  "validate_control_failure failure =
     (if cf_disposition failure = NotApplied \<and> (case cf_confirmed_input_bytes failure of None \<Rightarrow> False | Some bytes \<Rightarrow> bytes > 0)
      then Inl ''not_applied input cannot have a positive confirmed prefix''
      else if pe_code (cf_error failure) = ControlBackpressure \<and> cf_disposition failure \<noteq> NotApplied
      then Inl ''control_backpressure must have not_applied disposition''
      else Inr ())"

definition decode_input_receipt :: "control_receipt \<Rightarrow> usize \<Rightarrow> client_error + nat" where
  "decode_input_receipt receipt expected_bytes =
     (case receipt of
        InputReceipt written_bytes \<Rightarrow>
          if written_bytes = expected_bytes then Inr written_bytes
          else Inl (ProtocolContractViolation ''input receipt byte count differs from the command payload'')
      | _ \<Rightarrow> Inl (ProtocolContractViolation ''input returned another receipt kind''))"

definition decode_resize_receipt :: "control_receipt \<Rightarrow> client_error + terminal_size" where
  "decode_resize_receipt receipt =
     (case receipt of
        ResizeReceipt applied_size \<Rightarrow>
          if cols applied_size \<noteq> 0 \<and> rows applied_size \<noteq> 0 then Inr applied_size
          else Inl (ProtocolContractViolation ''resize receipt reported a zero applied dimension'')
      | _ \<Rightarrow> Inl (ProtocolContractViolation ''resize returned another receipt kind''))"

definition decode_stop_receipt :: "control_receipt \<Rightarrow> client_error + stop_disposition" where
  "decode_stop_receipt receipt =
     (case receipt of
        StopReceipt stopped \<Rightarrow> Inr stopped
      | _ \<Rightarrow> Inl (ProtocolContractViolation ''stop returned another receipt kind''))"

definition decode_signal_receipt :: "control_receipt \<Rightarrow> nat \<Rightarrow> client_error + nat" where
  "decode_signal_receipt receipt expected =
     (case receipt of
        SignalReceipt signal \<Rightarrow>
          if signal = expected then Inr signal
          else Inl (ProtocolContractViolation ''signal receipt differs from the requested signal'')
      | _ \<Rightarrow> Inl (ProtocolContractViolation ''signal returned another receipt kind''))"

definition decode_short_control ::
  "response \<Rightarrow> (control_receipt \<Rightarrow> client_error + 'r) \<Rightarrow> client_error + run_info \<times> 'r" where
  "decode_short_control resp decode_receipt =
     (case resp of
        ControlAcceptedResponse run receipt \<Rightarrow>
          map_err control_request_unknown (and_then (decode_receipt receipt) (\<lambda>r. Inr (run, r)))
      | ControlRejectedResponse failure \<Rightarrow>
          and_then (map_err (\<lambda>m. control_request_unknown (ProtocolContractViolation m)) (validate_control_failure failure))
            (\<lambda>_. Inl (ControlRejectedError failure))
      | _ \<Rightarrow> Inl (control_request_unknown (UnexpectedFrame ''expected correlated control response'')))"

definition decode_recoverable_stop_attachment_response :: "response \<Rightarrow> client_error + run_info \<times> stop_disposition" where
  "decode_recoverable_stop_attachment_response resp =
     (case resp of
        ControlAcceptedResponse _ _ \<Rightarrow> decode_short_control resp decode_stop_receipt
      | ControlRejectedResponse _ \<Rightarrow>
          Inl (control_request_unknown (ProtocolContractViolation ''recoverable Stop attachment was rejected after its snapshot''))
      | _ \<Rightarrow> Inl (control_request_unknown (UnexpectedFrame ''expected recoverable Stop result after attached snapshot'')))"

section \<open>Short control requests\<close>

text \<open>
  The dispatch of one control request: the encoded frame or an encoding error, and what sending it answered.  The
  second component tells whether the frame was handed to the transport.
\<close>

record dispatch =
  dp_encoded :: "client_error + unit"
  dp_sent :: "client_error + unit"

definition control_request :: "client \<Rightarrow> connection \<Rightarrow> dispatch \<Rightarrow> (client_error + response) \<times> bool" where
  "control_request cl cn dp =
     (case map_err control_not_applied (connect_for_dispatch cl cn) of
        Inl failure \<Rightarrow> (Inl failure, False)
      | Inr (w, _) \<Rightarrow>
          (case map_err control_not_applied (dp_encoded dp) of
             Inl failure \<Rightarrow> (Inl failure, False)
           | Inr _ \<Rightarrow>
               (and_then (map_err control_request_unknown (dp_sent dp)) (\<lambda>_.
                  and_then (map_err control_request_unknown (receive w)) (\<lambda>(frame, _).
                    case frame of
                      ResponseFrame resp \<Rightarrow> Inr resp
                    | ErrorFrame failure \<Rightarrow> Inl (control_request_unknown (ProtocolErr failure))
                    | _ \<Rightarrow> Inl (control_request_unknown (UnexpectedFrame ''expected correlated control response'')))), True)))"

definition short_control ::
  "(control_receipt \<Rightarrow> client_error + 'r) \<Rightarrow> client \<Rightarrow> connection \<Rightarrow> dispatch \<Rightarrow> (client_error + run_info \<times> 'r) \<times> bool" where
  "short_control decode cl cn dp = apfst (\<lambda>r. and_then r (\<lambda>resp. decode_short_control resp decode)) (control_request cl cn dp)"

definition client_resize :: "client \<Rightarrow> connection \<Rightarrow> dispatch \<Rightarrow> (client_error + run_info \<times> terminal_size) \<times> bool" where
  "client_resize = short_control decode_resize_receipt"

definition client_interrupt :: "client \<Rightarrow> connection \<Rightarrow> dispatch \<Rightarrow> (client_error + run_info \<times> nat) \<times> bool" where
  "client_interrupt = short_control (\<lambda>receipt. decode_signal_receipt receipt 0)"

definition same_run :: "run_id \<Rightarrow> run_info \<times> 'r \<Rightarrow> client_error + run_info \<times> 'r" where
  "same_run expected accepted =
     (if ri_id (fst accepted) \<noteq> expected
      then Inl (control_request_unknown (ProtocolContractViolation ''recoverable Stop response names another Run''))
      else Inr accepted)"

definition client_stop :: "run_id \<Rightarrow> client \<Rightarrow> connection \<Rightarrow> dispatch \<Rightarrow> (client_error + run_info \<times> stop_disposition) \<times> bool" where
  "client_stop expected_run cl cn dp = apfst (\<lambda>r. and_then r (same_run expected_run)) (short_control decode_stop_receipt cl cn dp)"

definition client_stop_once :: "run_id \<Rightarrow> client \<Rightarrow> connection \<Rightarrow> dispatch \<Rightarrow> (client_error + run_info \<times> stop_disposition) \<times> bool" where
  "client_stop_once i cl cn dp =
     (case map_err control_not_applied (and_then (connect_for_dispatch cl cn) (\<lambda>(_, runtime). require_recoverable_stop runtime)) of
        Inl failure \<Rightarrow> (Inl failure, False)
      | Inr _ \<Rightarrow> client_stop i cl cn dp)"

section \<open>Retry safety\<close>

lemma not_applied_disposition: "control_disposition (control_not_applied e) = Some NotApplied"
  by (cases e) simp_all

lemma control_request_safe:
  assumes "control_request cl cn dp = (result, sent)"
  shows "sent \<Longrightarrow> result = Inl e \<Longrightarrow> control_disposition e = Some DispositionUnknown"
    and "\<not> sent \<Longrightarrow> \<exists>e. result = Inl e \<and> control_disposition e = Some NotApplied"
  using assms
  by (auto simp: control_request_def control_request_unknown_def map_err_Inl not_applied_disposition and_then_def
      split: sum.splits prod.splits server_frame.splits)

lemma decode_short_control_safe:
  assumes "decode_short_control resp decode = Inl e"
  shows "(\<exists>failure. resp = ControlRejectedResponse failure \<and> e = ControlRejectedError failure \<and> validate_control_failure failure = Inr ())
    \<or> control_disposition e = Some DispositionUnknown"
  using assms by (auto simp: decode_short_control_def control_request_unknown_def map_err_Inl and_then_def split: response.splits sum.splits)

text \<open>What a failed call may tell its caller.\<close>

definition retry_safe :: "client \<Rightarrow> connection \<Rightarrow> dispatch \<Rightarrow> client_error \<Rightarrow> bool \<Rightarrow> bool" where
  "retry_safe cl cn dp e sent \<longleftrightarrow>
     (if sent
      then control_disposition e = Some DispositionUnknown
        \<or> (\<exists>failure. control_request cl cn dp = (Inr (ControlRejectedResponse failure), True) \<and> e = ControlRejectedError failure)
      else control_disposition e = Some NotApplied)"

lemma short_control_safe:
  assumes "short_control decode cl cn dp = (Inl e, sent)"
  shows "retry_safe cl cn dp e sent"
proof -
  obtain result where r: "control_request cl cn dp = (result, sent)" "and_then result (\<lambda>resp. decode_short_control resp decode) = Inl e"
    using assms by (cases "control_request cl cn dp") (simp add: short_control_def)
  show ?thesis
  proof (cases result)
    case (Inl e')
    then show ?thesis using r control_request_safe [OF r(1)] by (cases sent) (auto simp: retry_safe_def)
  next
    case (Inr resp)
    then have "sent" "decode_short_control resp decode = Inl e" using r control_request_safe(2) [OF r(1)] by auto
    then show ?thesis using decode_short_control_safe [of resp decode e] r(1) Inr by (auto simp: retry_safe_def)
  qed
qed

lemma short_control_accepted: "short_control decode cl cn dp = (Inr accepted, sent) \<Longrightarrow> sent"
  using control_request_safe(2) [of cl cn dp] by (cases "control_request cl cn dp") (auto simp: short_control_def)

lemma client_stop_safe:
  "client_stop i cl cn dp = (Inl e, sent) \<Longrightarrow> retry_safe cl cn dp e sent"
  "client_stop i cl cn dp = (Inr (run, stopped), sent) \<Longrightarrow> sent \<and> ri_id run = i"
  by (cases "short_control decode_stop_receipt cl cn dp"; cases "fst (short_control decode_stop_receipt cl cn dp)";
      force simp: client_stop_def same_run_def retry_safe_def control_request_unknown_def split: if_splits
        dest: short_control_safe short_control_accepted)+

text \<open>
  C7 (error).  A failed control call tells its caller whether a retry is safe, and never wrongly.  Whatever connecting,
  encoding, sending and the peer answer: a call whose request did not leave the client fails as not applied; once the
  request was sent, the failure is unknown unless the daemon itself rejected the request, and then it carries the daemon's
  own disposition.  A Stop that succeeds was sent and was answered for the very Run it named.
\<close>

theorem control_errors_are_retry_safe:
  "(\<forall>e sent. client_stop_once i cl cn dp = (Inl e, sent) \<longrightarrow> retry_safe cl cn dp e sent)
   \<and> (\<forall>run stopped sent. client_stop_once i cl cn dp = (Inr (run, stopped), sent) \<longrightarrow> sent \<and> ri_id run = i)
   \<and> (\<forall>e sent. client_resize cl cn dp = (Inl e, sent) \<longrightarrow> retry_safe cl cn dp e sent)
   \<and> (\<forall>e sent. client_interrupt cl cn dp = (Inl e, sent) \<longrightarrow> retry_safe cl cn dp e sent)"
proof (intro conjI allI impI)
  fix e sent assume "client_stop_once i cl cn dp = (Inl e, sent)"
  then show "retry_safe cl cn dp e sent"
    using client_stop_safe(1) [of i cl cn dp e sent]
    by (auto simp: client_stop_once_def retry_safe_def map_err_Inl not_applied_disposition split: sum.splits)
next
  fix run stopped sent assume "client_stop_once i cl cn dp = (Inr (run, stopped), sent)"
  then show "sent" and "ri_id run = i" using client_stop_safe(2) [of i cl cn dp run stopped sent] by (auto simp: client_stop_once_def split: sum.splits)
qed (simp_all add: client_resize_def client_interrupt_def short_control_safe)

text \<open>A daemon that advertises recoverable Stop and rejects the request because its queue is full.\<close>

definition sample_runtime :: runtime_identity where
  "sample_runtime = \<lparr>rt_daemon_instance_id = 1, rt_runtime_id = 2, rt_protocol_generation = 23,
     rt_capabilities = [(''native.recoverable_stop'', 1)]\<rparr>"

definition sample_rejection :: control_failure where
  "sample_rejection = \<lparr>cf_error = \<lparr>pe_code = ControlBackpressure, pe_message = ''full''\<rparr>, cf_disposition = NotApplied, cf_confirmed_input_bytes = None\<rparr>"

theorem control_errors_are_retry_safe_witness:
  "retry_safe \<lparr>cl_expected_runtime_identity = None, cl_required_capabilities = []\<rparr>
     \<lparr>cn_open = Inr (), cn_hello = Inr (), cn_wire = [Inr (HelloFrame sample_runtime), Inr (ResponseFrame (ControlRejectedResponse sample_rejection))]\<rparr>
     \<lparr>dp_encoded = Inr (), dp_sent = Inr ()\<rparr> (ControlRejectedError sample_rejection) True"
proof -
  let ?cl = "\<lparr>cl_expected_runtime_identity = None, cl_required_capabilities = []\<rparr>"
  let ?cn = "\<lparr>cn_open = Inr (), cn_hello = Inr (), cn_wire = [Inr (HelloFrame sample_runtime), Inr (ResponseFrame (ControlRejectedResponse sample_rejection))]\<rparr>"
  let ?dp = "\<lparr>dp_encoded = Inr (), dp_sent = Inr ()\<rparr>"
  have "connect_for_dispatch ?cl ?cn = Inr ([Inr (ResponseFrame (ControlRejectedResponse sample_rejection))], sample_runtime)"
    by (simp add: connect_for_dispatch_def connect_def validate_runtime_identity_def validate_runtime_capability_requirements_def sample_runtime_def
        PROTOCOL_VERSION_def)
  then have "client_stop_once 7 ?cl ?cn ?dp = (Inl (ControlRejectedError sample_rejection), True)"
    by (simp add: client_stop_once_def client_stop_def short_control_def control_request_def require_recoverable_stop_def capability_satisfied_def
        sample_runtime_def RUNTIME_CAPABILITY_NATIVE_RECOVERABLE_STOP_def require_def decode_short_control_def validate_control_failure_def sample_rejection_def)
  then show ?thesis using control_errors_are_retry_safe [of 7 ?cl ?cn ?dp] by blast
qed

end
