(* ===== verification/Run_Listing.thy ===== *)
theory Run_Listing
  imports Registry_Properties Client_Types
begin

text \<open>
  Listing the fleet: one page as \<^verbatim>\<open>RunManager::list\<close> answers it (daemon \<^verbatim>\<open>lib.rs\<close>, \<^verbatim>\<open>creation.rs\<close>) and the walk over the
  pages of \<^verbatim>\<open>Client::list\<close> (client \<^verbatim>\<open>lib.rs\<close>).  The page's ids come from the standard library's partial selection, a parameter
  whose documented contract is \<open>selects\<close>; C24 shows that the page is the one a full sort would give.  Every request of
  the walk meets the registry of its own moment; C10 shows that the walk nevertheless ends, never repeats a Run, and
  shows every Run that stays.
\<close>

subsection \<open>The client's walk\<close>

text \<open>
  \<^verbatim>\<open>Client::request\<close> is the transport: the answer to the \<open>k\<close>-th request of the walk is a parameter, an error or a response,
  of which only \<^verbatim>\<open>Runs\<close> is the one the call expects.
\<close>

record run_page =
  pg_runs :: "reg_run list"
  pg_next_cursor :: "run_id option"

type_synonym list_transport = "nat \<Rightarrow> run_id option \<Rightarrow> nat option \<Rightarrow> client_error + response"

definition list_page :: "list_transport \<Rightarrow> nat \<Rightarrow> run_id option \<Rightarrow> nat option \<Rightarrow> client_error + run_page" where
  "list_page request k after limit =
     (case request k after limit of
        Inl failure \<Rightarrow> Inl failure
      | Inr (RunsResponse runs next_cursor) \<Rightarrow> Inr \<lparr>pg_runs = runs, pg_next_cursor = next_cursor\<rparr>
      | Inr _ \<Rightarrow> Inl (UnexpectedFrame ''expected runs response''))"

text \<open>The loop has no bound of its own: \<^const>\<open>None\<close> is a walk that never returns.\<close>

partial_function (option) client_walk ::
  "list_transport \<Rightarrow> nat \<Rightarrow> run_id option \<Rightarrow> reg_run list \<Rightarrow> (client_error + reg_run list) option" where
  "client_walk request k cursor runs =
     (case list_page request k cursor None of
        Inl failure \<Rightarrow> Some (Inl failure)
      | Inr page \<Rightarrow>
          (case pg_next_cursor page of
             Some next_cursor \<Rightarrow> client_walk request (Suc k) (Some next_cursor) (runs @ pg_runs page)
           | None \<Rightarrow> Some (Inr (runs @ pg_runs page))))"

definition client_list :: "list_transport \<Rightarrow> (client_error + reg_run list) option" where
  "client_list request = client_walk request 0 None []"

text \<open>The daemon's answers, when the \<open>k\<close>-th request meets the registry \<open>fleet k\<close>.\<close>

definition serve_list :: "(nat \<Rightarrow> run_id list \<Rightarrow> run_id list) \<Rightarrow> (nat \<Rightarrow> registry_state) \<Rightarrow> list_transport" where
  "serve_list select_nth fleet k after limit =
     (let (runs, next_cursor) = list_runs select_nth after limit (fleet k) in Inr (RunsResponse runs next_cursor))"

subsection \<open>Partial selection\<close>

text \<open>
  The documented contract of \<^verbatim>\<open>slice::select_nth_unstable\<close>: the slice is reordered, the element at \<open>n\<close> is at its sorted
  position, everything before it is at most, everything after it at least that element.
\<close>

definition selects :: "(nat \<Rightarrow> 'a :: linorder list \<Rightarrow> 'a list) \<Rightarrow> bool" where
  "selects select_nth \<longleftrightarrow>
     (\<forall>n xs. n < length xs \<longrightarrow> mset (select_nth n xs) = mset xs
        \<and> (\<forall>i < n. select_nth n xs ! i \<le> select_nth n xs ! n)
        \<and> (\<forall>i. n < i \<and> i < length xs \<longrightarrow> select_nth n xs ! n \<le> select_nth n xs ! i))"

lemma sort_append_le:
  fixes xs ys :: "'a :: linorder list"
  assumes "\<And>x y. x \<in> set xs \<Longrightarrow> y \<in> set ys \<Longrightarrow> x \<le> y"
  shows "sort (xs @ ys) = sort xs @ sort ys"
  by (rule properties_for_sort) (use assms in \<open>auto simp: sorted_append\<close>)

lemma sort_mset_eq: "mset xs = mset ys \<Longrightarrow> sort xs = sort (ys :: 'a :: linorder list)"
  by (rule properties_for_sort) simp_all

text \<open>Selecting and truncating keeps exactly the smallest elements.\<close>

lemma select_smallest:
  assumes "selects sel" "n < length xs"
  shows "sort (take (Suc n) (sel n xs)) = take (Suc n) (sort xs)"
proof -
  let ?ys = "sel n xs"
  have perm: "mset ?ys = mset xs" and low: "\<And>i. i < n \<Longrightarrow> ?ys ! i \<le> ?ys ! n"
    and high: "\<And>i. n < i \<Longrightarrow> i < length xs \<Longrightarrow> ?ys ! n \<le> ?ys ! i"
    using assms by (simp_all add: selects_def)
  have len: "length ?ys = length xs" using perm by (metis size_mset)
  have "x \<le> y" if x: "x \<in> set (take (Suc n) ?ys)" and y: "y \<in> set (drop (Suc n) ?ys)" for x y
  proof -
    obtain i where i: "i \<le> n" "x = ?ys ! i" using x unfolding in_set_conv_nth by (auto simp: less_Suc_eq_le)
    obtain j where j: "Suc n + j < length xs" "y = ?ys ! (Suc n + j)"
      using y len unfolding in_set_conv_nth by (force simp: less_diff_conv add.commute)
    show ?thesis using i j low [of i] high [of "Suc n + j"] by (cases "i = n") (auto intro: order_trans)
  qed
  then have "sort ?ys = sort (take (Suc n) ?ys) @ sort (drop (Suc n) ?ys)"
    using sort_append_le [of "take (Suc n) ?ys" "drop (Suc n) ?ys"] by simp
  then show ?thesis using sort_mset_eq [OF perm] len assms(2) by simp
qed

subsection \<open>One page\<close>

definition beyond :: "run_id option \<Rightarrow> run_id \<Rightarrow> bool" where
  "beyond after i = (case after of None \<Rightarrow> True | Some cursor \<Rightarrow> cursor < i)"

lemma page_ids_sorted:
  assumes "selects sel" "limit < U64_MAX"
  shows "page_ids sel after limit keys
    = (take limit (sort (filter (beyond after) keys)), limit < length (filter (beyond after) keys))"
proof -
  let ?ids = "filter (beyond after) keys"
  have eq: "(\<lambda>i. case after of None \<Rightarrow> True | Some cursor \<Rightarrow> cursor < i) = beyond after" by (auto simp: beyond_def)
  have "saturating_add limit 1 = Suc limit" using assms(2) by (simp add: saturating_add_def)
  moreover have "sort (take (Suc limit) (sel limit ?ids)) = take (Suc limit) (sort ?ids)" if "Suc limit < length ?ids"
    using select_smallest [OF assms(1)] that by simp
  moreover have "length (take (Suc limit) (sel limit ?ids)) = Suc limit" if "Suc limit < length ?ids"
    using that assms(1) by (metis (no_types, lifting) Suc_lessD length_take min.absorb4 order_less_imp_le selects_def size_mset min.absorb2)
  ultimately show ?thesis by (auto simp: page_ids_def eq Let_def min_def)
qed

text \<open>The reference: sort the whole fleet by id, drop what is not beyond the cursor, and cut the page.\<close>

definition sorted_fleet :: "run_id option \<Rightarrow> registry_state \<Rightarrow> (run_id \<times> registry_entry) list" where
  "sorted_fleet after s = filter (\<lambda>x. beyond after (fst x)) (sort_key fst (rs_runs s))"

definition reference_page :: "run_id option \<Rightarrow> usize \<Rightarrow> registry_state \<Rightarrow> reg_run list \<times> run_id option" where
  "reference_page after limit s =
     (let page = take limit (sorted_fleet after s)
      in (map (\<lambda>x. re_run (snd x)) page, if limit < length (sorted_fleet after s) then Some (fst (last page)) else None))"

lemma sorted_fleet_ids: "map fst (sorted_fleet after s) = sort (filter (beyond after) (map fst (rs_runs s)))"
proof -
  have "sort (map fst (rs_runs s)) = map fst (sort_key fst (rs_runs s))" by (rule properties_for_sort) simp_all
  then have "sort (filter (beyond after) (map fst (rs_runs s))) = filter (beyond after) (map fst (sort_key fst (rs_runs s)))"
    by (metis filter_sort)
  then show ?thesis by (simp add: sorted_fleet_def filter_map comp_def)
qed

lemma map_filter_lookup:
  "distinct (map fst xs) \<Longrightarrow> set ys \<subseteq> set xs \<Longrightarrow> List.map_filter (map_of xs) (map fst ys) = map snd ys"
  by (induction ys) (auto simp: map_filter_simps split: option.splits dest: eq_key_imp_eq_value)

lemma clamp_positive: "0 < clamp_list_limit limit" "clamp_list_limit limit \<le> LIST_MAX_PAGE_RUNS"
  by (auto simp: clamp_list_limit_def LIST_MAX_PAGE_RUNS_def split: option.splits)

lemma list_runs_reference:
  assumes "selects sel" "entries_ok s"
  shows "list_runs sel after limit s = reference_page after (clamp_list_limit limit) s"
proof -
  let ?n = "clamp_list_limit limit"
  let ?page = "take ?n (sorted_fleet after s)"
  have d: "distinct (map fst (rs_runs s))" and ids: "\<And>i e. (i, e) \<in> set (rs_runs s) \<Longrightarrow> rn_id (re_run e) = i"
    using assms(2) by (auto simp: entries_ok_def simp del: map_of_eq_Some_iff intro: map_of_is_SomeI)
  have sub: "set ?page \<subseteq> set (rs_runs s)" by (auto simp: sorted_fleet_def dest: in_set_takeD)
  have "?n < U64_MAX" using clamp_positive(2) [of limit] by (simp add: LIST_MAX_PAGE_RUNS_def max_values)
  then have page: "page_ids sel after ?n (map fst (rs_runs s)) = (map fst ?page, ?n < length (sorted_fleet after s))"
    using page_ids_sorted [OF assms(1)] sorted_fleet_ids [of after s] by (metis length_map length_sort take_map)
  have "list_summaries_after sel after ?n s = (map (\<lambda>x. re_run (snd x)) ?page, ?n < length (sorted_fleet after s))"
    using map_filter_lookup [OF d sub] by (simp add: list_summaries_after_def page comp_def)
  moreover have "rn_id (re_run (snd (last ?page))) = fst (last ?page)" if "?page \<noteq> []"
    using last_in_set [OF that] sub ids by (metis prod.collapse subsetD)
  moreover have "?page \<noteq> []" if "?n < length (sorted_fleet after s)" using that clamp_positive(1) [of limit] by auto
  ultimately show ?thesis by (auto simp: list_runs_def reference_page_def Let_def last_map)
qed

text \<open>
  C24 (equivalence).  A page is what sorting the whole fleet would give.  The daemon selects and sorts only the smallest
  ids of an unordered map; for every reachable registry, cursor and requested size, the rows and the next cursor are
  those of the reference that sorts all Runs by id, keeps those beyond the cursor and cuts the page at the clamped size.
\<close>

theorem page_equals_sorted_reference:
  assumes "registry_reach ro so w" "selects select_nth"
  shows "list_runs select_nth after limit (w_reg w) = reference_page after (clamp_list_limit limit) (w_reg w)"
  using list_runs_reference [OF assms(2)] reach_ok [OF assms(1)] by (simp add: registry_ok_def)

lemma sort_selects: "selects (\<lambda>_. sort :: 'a :: linorder list \<Rightarrow> 'a list)"
proof -
  have "sort xs ! i \<le> sort xs ! j" if "i \<le> j" "j < length xs" for i j and xs :: "'a list"
    using sorted_nth_mono [of "sort xs" i j] that by simp
  then show ?thesis by (simp add: selects_def)
qed

theorem page_equals_sorted_reference_witness:
  "list_runs (\<lambda>_. sort) None (Some 1) sample_registry = ([re_run sample_entry], None)"
proof -
  have "clamp_list_limit (Some 1) = 1" by (simp add: clamp_list_limit_def LIST_MAX_PAGE_RUNS_def)
  then show ?thesis
    using page_equals_sorted_reference [OF sample_start sort_selects, of None "Some 1"]
    by (simp add: idle_world_def sample_registry_eq reference_page_def sorted_fleet_def beyond_def)
qed

subsection \<open>The walk\<close>

text \<open>What one page of the reference holds.\<close>

lemma sorted_fleet_mem: "x \<in> set (sorted_fleet after s) \<longleftrightarrow> x \<in> set (rs_runs s) \<and> beyond after (fst x)"
  by (auto simp: sorted_fleet_def)

lemma sorted_fleet_strict: "entries_ok s \<Longrightarrow> sorted_wrt (<) (map fst (sorted_fleet after s))"
  by (simp add: sorted_fleet_ids strict_sorted_iff entries_ok_def distinct_filter)

lemma entry_run_id: "entries_ok s \<Longrightarrow> (i, e) \<in> set (rs_runs s) \<Longrightarrow> rn_id (re_run e) = i"
  by (auto simp: entries_ok_def simp del: map_of_eq_Some_iff intro: map_of_is_SomeI)

lemma page_rows:
  assumes "entries_ok s" "reference_page after n s = (runs, next_cursor)" "0 < n"
  shows "map rn_id runs = map fst (take n (sorted_fleet after s))"
    and "next_cursor = None \<Longrightarrow> runs = map (\<lambda>x. re_run (snd x)) (sorted_fleet after s)"
    and "next_cursor = Some c \<Longrightarrow> runs \<noteq> [] \<and> c = rn_id (last runs)"
proof -
  let ?page = "take n (sorted_fleet after s)"
  have runs: "runs = map (\<lambda>x. re_run (snd x)) ?page"
    and nc: "next_cursor = (if n < length (sorted_fleet after s) then Some (fst (last ?page)) else None)"
    using assms(2) by (simp_all add: reference_page_def Let_def)
  have ids: "rn_id (re_run (snd x)) = fst x" if "x \<in> set ?page" for x
    using entry_run_id [OF assms(1), of "fst x" "snd x"] that by (auto simp: sorted_fleet_mem dest!: in_set_takeD)
  show "map rn_id runs = map fst ?page" using ids by (simp add: runs)
  show "runs = map (\<lambda>x. re_run (snd x)) (sorted_fleet after s)" if "next_cursor = None"
    using that nc by (simp add: runs split: if_splits)
  show "runs \<noteq> [] \<and> c = rn_id (last runs)" if nxt: "next_cursor = Some c"
  proof -
    have ne: "?page \<noteq> []" and c: "c = fst (last ?page)" using nxt nc assms(3) by (auto split: if_splits)
    show ?thesis using ids [OF last_in_set [OF ne]] ne c by (simp add: runs last_map del: take_eq_Nil)
  qed
qed

lemma sorted_split_last:
  fixes xs :: "nat list"
  assumes "sorted_wrt (<) xs" "take n xs \<noteq> []" "x \<in> set xs" "x \<le> last (take n xs)"
  shows "x \<in> set (take n xs)"
proof -
  have "sorted_wrt (<) (take n xs @ drop n xs)" using assms(1) by simp
  then have "\<forall>y \<in> set (drop n xs). last (take n xs) < y" using last_in_set [OF assms(2)] unfolding sorted_wrt_append by blast
  moreover have "x \<in> set (take n xs) \<union> set (drop n xs)" using assms(3) by (metis append_take_drop_id set_append)
  ultimately show ?thesis using assms(4) by force
qed

text \<open>What the walk from a cursor returns: Runs beyond it, ascending, each read from some registry, the stable ones all there.\<close>

definition walk_rows :: "(nat \<Rightarrow> registry_state) \<Rightarrow> run_id option \<Rightarrow> reg_run list \<Rightarrow> bool" where
  "walk_rows fleet cursor runs \<longleftrightarrow> sorted_wrt (<) (map rn_id runs) \<and> (\<forall>r \<in> set runs. beyond cursor (rn_id r))
     \<and> (\<forall>r \<in> set runs. \<exists>k e. map_of (rs_runs (fleet k)) (rn_id r) = Some e \<and> r = re_run e)
     \<and> (\<forall>i. beyond cursor i \<and> (\<forall>k. i \<in> fst ` set (rs_runs (fleet k))) \<longrightarrow> i \<in> rn_id ` set runs)"

lemma page_walk_rows:
  assumes "entries_ok (fleet k)" "reference_page cursor n (fleet k) = (runs, next_cursor)" "0 < n"
  shows "sorted_wrt (<) (map rn_id runs)" "r \<in> set runs \<Longrightarrow> beyond cursor (rn_id r)"
    "r \<in> set runs \<Longrightarrow> \<exists>e. map_of (rs_runs (fleet k)) (rn_id r) = Some e \<and> r = re_run e"
    "beyond cursor i \<Longrightarrow> i \<in> fst ` set (rs_runs (fleet k)) \<Longrightarrow> next_cursor = None \<or> (\<exists>c. next_cursor = Some c \<and> i \<le> c)
       \<Longrightarrow> i \<in> rn_id ` set runs"
proof -
  let ?f = "sorted_fleet cursor (fleet k)"
  note rows = page_rows [OF assms]
  have strict: "sorted_wrt (<) (map fst ?f)" by (rule sorted_fleet_strict [OF assms(1)])
  have d: "distinct (map fst (rs_runs (fleet k)))" using assms(1) by (simp add: entries_ok_def)
  show "sorted_wrt (<) (map rn_id runs)" unfolding rows(1) using sorted_wrt_take [OF strict, of n] by (simp add: take_map)
  have mem: "\<exists>i e. (i, e) \<in> set ?f \<and> r = re_run e \<and> rn_id r = i" if "r \<in> set runs" for r
  proof -
    have "r \<in> (\<lambda>x. re_run (snd x)) ` set (take n ?f)" using that assms(2) by (auto simp: reference_page_def Let_def)
    then obtain i e where "(i, e) \<in> set ?f" "r = re_run e" by (auto dest: in_set_takeD)
    then show ?thesis using entry_run_id [OF assms(1), of i e] by (auto simp: sorted_fleet_mem)
  qed
  show "beyond cursor (rn_id r)" if "r \<in> set runs" using mem [OF that] by (auto simp: sorted_fleet_mem)
  show "\<exists>e. map_of (rs_runs (fleet k)) (rn_id r) = Some e \<and> r = re_run e" if "r \<in> set runs"
    using mem [OF that] d by (auto simp: sorted_fleet_mem)
  assume i: "beyond cursor i" "i \<in> fst ` set (rs_runs (fleet k))" and nc: "next_cursor = None \<or> (\<exists>c. next_cursor = Some c \<and> i \<le> c)"
  have "i \<in> set (map fst ?f)" using i by (force simp: sorted_fleet_mem)
  then have "i \<in> set (map rn_id runs)"
  proof (cases next_cursor)
    case None
    have "set (map rn_id runs) = set (map fst ?f)"
      using rows(2) [OF None] entry_run_id [OF assms(1)] by (force simp: sorted_fleet_mem)
    then show ?thesis using \<open>i \<in> set (map fst ?f)\<close> by simp
  next
    case (Some c)
    have ne: "runs \<noteq> []" and "c = last (map rn_id runs)" using rows(3) [OF Some] by (simp_all add: last_map)
    then have "i \<le> last (take n (map fst ?f))" using nc Some rows(1) by (simp add: take_map)
    moreover have "take n (map fst ?f) \<noteq> []" using ne rows(1) by (metis map_is_Nil_conv take_map)
    ultimately show ?thesis using sorted_split_last [OF strict] \<open>i \<in> set (map fst ?f)\<close> rows(1) by (simp add: take_map del: take_eq_Nil)
  qed
  then show "i \<in> rn_id ` set runs" by simp
qed

lemma client_walk_rows:
  assumes "selects sel" "\<And>k. entries_ok (fleet k)" "\<And>k i e. map_of (rs_runs (fleet k)) i = Some e \<Longrightarrow> i < bound"
  shows "\<exists>out. client_walk (serve_list sel fleet) k cursor acc = Some (Inr (acc @ out)) \<and> walk_rows fleet cursor out"
proof (induction "bound - (case cursor of None \<Rightarrow> 0 | Some c \<Rightarrow> Suc c)" arbitrary: k cursor acc rule: less_induct)
  case less
  let ?n = "clamp_list_limit None"
  obtain runs nc where page: "reference_page cursor ?n (fleet k) = (runs, nc)" by fastforce
  note facts = page_walk_rows [of fleet, OF assms(2) page clamp_positive(1)]
  have step: "list_page (serve_list sel fleet) k cursor None = Inr \<lparr>pg_runs = runs, pg_next_cursor = nc\<rparr>"
    using list_runs_reference [OF assms(1) assms(2) [of k]] page by (simp add: list_page_def serve_list_def)
  show ?case
  proof (cases nc)
    case None
    have "walk_rows fleet cursor runs"
      unfolding walk_rows_def using facts(1,2) facts(4) [OF _ _ disjI1 [OF None]] by (auto intro!: exI [of _ k] dest: facts(3))
    then show ?thesis using step None by (subst client_walk.simps) simp
  next
    case (Some c)
    have c: "runs \<noteq> []" "c = rn_id (last runs)" using page_rows(3) [OF assms(2) page clamp_positive(1) Some] by auto
    have lt: "beyond cursor c" "c < bound" using facts(2,3) [OF last_in_set [OF c(1)]] assms(3) c(2) by blast+
    have le: "rn_id r \<le> c" if "r \<in> set runs" for r
      using that facts(1) c by (cases runs rule: rev_cases) (auto simp: sorted_wrt_append intro: less_imp_le)
    have "bound - Suc c < bound - (case cursor of None \<Rightarrow> 0 | Some c \<Rightarrow> Suc c)" using lt by (auto simp: beyond_def split: option.splits)
    then obtain out where out: "client_walk (serve_list sel fleet) (Suc k) (Some c) (acc @ runs) = Some (Inr ((acc @ runs) @ out))"
      "walk_rows fleet (Some c) out" using less [of "Some c" "Suc k" "acc @ runs"] by auto
    have "walk_rows fleet cursor (runs @ out)"
      unfolding walk_rows_def
    proof (intro conjI ballI allI impI)
      show "sorted_wrt (<) (map rn_id (runs @ out))"
        using facts(1) out(2) le by (fastforce simp: walk_rows_def sorted_wrt_append beyond_def)
      show "beyond cursor (rn_id r)" if "r \<in> set (runs @ out)" for r
        using that facts(2) out(2) lt(1) by (fastforce simp: walk_rows_def beyond_def split: option.splits)
      show "\<exists>k e. map_of (rs_runs (fleet k)) (rn_id r) = Some e \<and> r = re_run e" if "r \<in> set (runs @ out)" for r
        using that facts(3) out(2) unfolding walk_rows_def set_append Un_iff by meson
      show "i \<in> rn_id ` set (runs @ out)" if "beyond cursor i \<and> (\<forall>k. i \<in> fst ` set (rs_runs (fleet k)))" for i
        using that facts(4) [of i] Some out(2) by (cases "i \<le> c") (auto simp: walk_rows_def beyond_def not_le)
    qed
    then show ?thesis using step Some out(1) by (subst client_walk.simps) simp
  qed
qed

text \<open>
  C10 (termination).  \<^verbatim>\<open>Client::list\<close> returns, whatever happens to the fleet between its pages.  Each request of the walk
  meets some reachable registry, not necessarily the one the previous page came from; run ids are 128-bit.  The loop ends
  with a list in strictly ascending id order, so no Run is reported twice; every row is a Run some page saw; and a Run
  that is registered during the whole walk is in the list.
\<close>

theorem client_list_returns:
  assumes "selects select_nth" "\<And>k. \<exists>w. registry_reach ro so w \<and> fleet k = w_reg w"
    "\<And>k i e. map_of (rs_runs (fleet k)) i = Some e \<Longrightarrow> i < 2 ^ 128"
  shows "\<exists>runs. client_list (serve_list select_nth fleet) = Some (Inr runs)
    \<and> sorted_wrt (<) (map rn_id runs)
    \<and> (\<forall>r \<in> set runs. \<exists>k e. map_of (rs_runs (fleet k)) (rn_id r) = Some e \<and> r = re_run e)
    \<and> (\<forall>i. (\<forall>k. i \<in> fst ` set (rs_runs (fleet k))) \<longrightarrow> i \<in> rn_id ` set runs)"
proof -
  have ok: "entries_ok (fleet k)" for k
  proof -
    obtain w where "registry_reach ro so w" "fleet k = w_reg w" using assms(2) by blast
    then show ?thesis using reach_ok by (simp add: registry_ok_def)
  qed
  show ?thesis
    using client_walk_rows [where k = 0 and cursor = None and acc = "[]", OF assms(1) ok assms(3)] by (auto simp: client_list_def walk_rows_def beyond_def)
qed

text \<open>The example's Run is listed while another registry's Stop is in flight.\<close>

theorem client_list_returns_witness:
  "\<exists>runs. client_list (serve_list (\<lambda>_. sort) (\<lambda>k. if k = 0 then native_registry else stopping_registry)) = Some (Inr runs)
     \<and> 7 \<in> rn_id ` set runs \<and> sorted_wrt (<) (map rn_id runs)"
proof -
  let ?fleet = "\<lambda>k :: nat. if k = 0 then native_registry else stopping_registry"
  have "\<exists>w. registry_reach 5 40 w \<and> ?fleet k = w_reg w" for k
    using native_start stopping_reach by (cases "k = 0") (force simp: stopping_world_def idle_world_def)+
  moreover have "i < 2 ^ 128" if "map_of (rs_runs (?fleet k)) i = Some e" for k i e
    using that by (auto simp: native_registry_eq stopping_registry_def split: if_splits)
  ultimately have "\<exists>runs. client_list (serve_list (\<lambda>_. sort) ?fleet) = Some (Inr runs)
    \<and> sorted_wrt (<) (map rn_id runs)
    \<and> (\<forall>r \<in> set runs. \<exists>k e. map_of (rs_runs (?fleet k)) (rn_id r) = Some e \<and> r = re_run e)
    \<and> (\<forall>i. (\<forall>k. i \<in> fst ` set (rs_runs (?fleet k))) \<longrightarrow> i \<in> rn_id ` set runs)"
    by (rule client_list_returns [OF sort_selects])
  moreover have "7 \<in> fst ` set (rs_runs (?fleet k))" for k by (simp add: native_registry_eq stopping_registry_def)
  ultimately show ?thesis by blast
qed

end
