(* ===== verification/Attach_Replay.thy ===== *)
theory Attach_Replay
  imports Client_Types Output_Log Replay_Pages
begin

text \<open>
  Attaching to a Run: the daemon takes a snapshot and streams the retained output page by page
  (\<^verbatim>\<open>Run::attachment_snapshot\<close>, \<^verbatim>\<open>Run::attachment_replay_page\<close> in \<^verbatim>\<open>lib.rs\<close>, \<^verbatim>\<open>attachment.rs\<close> of the daemon), and the client
  reassembles seed and tail (\<^verbatim>\<open>receive_terminal_seed\<close>, \<^verbatim>\<open>receive_replay\<close>, \<^verbatim>\<open>attach_with_view\<close> in the client's \<^verbatim>\<open>lib.rs\<close>).

  Every page meets the log and the durable store of its own moment: between two pages output is produced and retention
  evicts.  C5 joins the two sides: what the client holds at the end is the exact tail of the Run's output.
\<close>

section \<open>The daemon's side\<close>

datatype attachment_view = RawView | TerminalView

text \<open>One moment of a Run: its log when the page's bounds are read, its durable store, its log when the page is cut.\<close>

record 'p moment =
  mo_log :: "'p output_log"
  mo_store :: "store option"
  mo_later_log :: "'p output_log"

definition attachment_replay_page ::
  "run_id \<Rightarrow> 'p moment \<Rightarrow> u64 \<Rightarrow> u64 \<Rightarrow> (persistence_error + output_replay) option" where
  "attachment_replay_page rid m after through =
     (let floor = first_available_byte (mo_log m);
          head = min (latest_output_bytes (mo_log m)) through;
          memory = map_option Inr (replay_page (mo_later_log m) after head)
      in case mo_store m of
           Some durable \<Rightarrow>
             if after < floor
             then (case load_replay_page rid after (min floor head) durable of
                     Inl failure \<Rightarrow> Some (Inl failure)
                   | Inr page \<Rightarrow> if rp_chunks page \<noteq> [] then Some (Inr (page\<lparr>rp_latest_output_bytes := head\<rparr>)) else memory)
             else memory
         | None \<Rightarrow> memory)"

record attached_snapshot =
  as_run :: run_info
  as_replay :: output_replay
  as_terminal :: terminal_continuation
  as_terminal_restore :: "byte list"
  as_resize_revision :: u64

definition is_basic_vt :: "terminal_continuation \<Rightarrow> bool" where
  "is_basic_vt terminal = (case terminal of BasicVt _ _ \<Rightarrow> True | _ \<Rightarrow> False)"

definition replay_start_of :: "terminal_continuation \<Rightarrow> u64 \<Rightarrow> u64" where
  "replay_start_of terminal after_byte = (case terminal of BasicVt checkpoint _ \<Rightarrow> cp_through_byte checkpoint | _ \<Rightarrow> after_byte)"

text \<open>The snapshot also returns the log whose derived terminal was cut.\<close>

definition attachment_snapshot ::
  "'p vt_parser \<Rightarrow> run_id \<Rightarrow> run_info \<Rightarrow> 'p output_log \<Rightarrow> 'p moment \<Rightarrow> u64 \<Rightarrow> attachment_view
     \<Rightarrow> ((persistence_error + attached_snapshot) \<times> 'p output_log) option" where
  "attachment_snapshot vt rid info l m after_byte view =
     (let ((terminal, restore), l) = (case view of
            TerminalView \<Rightarrow> terminal_snapshot vt rid l
          | RawView \<Rightarrow> ((NotRequested, []), l));
          head = latest_output_bytes l;
          replay_start = replay_start_of terminal after_byte
      in case attachment_replay_page rid m replay_start head of
           None \<Rightarrow> None
         | Some (Inl failure) \<Rightarrow> Some (Inl failure, l)
         | Some (Inr replay) \<Rightarrow>
             (let evicted = is_basic_vt terminal \<and> rp_first_available_byte replay > replay_start
              in Some (Inr \<lparr>as_run = info\<lparr>ri_latest_output_bytes := head, ri_first_available_byte := rp_first_available_byte replay\<rparr>,
                        as_replay = replay,
                        as_terminal = (if evicted then ContinuationUnavailable TailEvicted else terminal),
                        as_terminal_restore = (if evicted then [] else restore),
                        as_resize_revision = ol_resize_revision l\<rparr>, l)))"

definition split_snapshot :: "attached_snapshot \<Rightarrow> attached_header \<times> output_chunk list \<times> run_state \<times> byte list" where
  "split_snapshot sn =
     (\<lparr>ah_run = as_run sn, ah_terminal = as_terminal sn, ah_resize_revision = as_resize_revision sn,
       ah_replay = \<lparr>rh_first_available_byte = rp_first_available_byte (as_replay sn),
         rh_latest_output_bytes = rp_latest_output_bytes (as_replay sn), rh_truncated = rp_truncated (as_replay sn)\<rparr>\<rparr>,
      rp_chunks (as_replay sn), ri_state (as_run sn), as_terminal_restore sn)"

definition send_replay :: "output_chunk list \<Rightarrow> server_frame list" where
  "send_replay chunks = map (\<lambda>chunk. EventFrame (EvOutput chunk)) chunks"

text \<open>\<^verbatim>\<open>restore.chunks(n).enumerate()\<close>: whole groups of \<open>n\<close> bytes and a last shorter one.\<close>

definition restore_frames :: "usize \<Rightarrow> byte list \<Rightarrow> server_frame list" where
  "restore_frames n restore =
     map (\<lambda>index. CheckpointChunkFrame (index * n) (take n (drop (index * n) restore))) [0..<div_ceil (length restore) n]"

definition io_error :: "string \<Rightarrow> protocol_error" where
  "io_error message = \<lparr>pe_code = IoError, pe_message = message\<rparr>"

text \<open>The paging loop; the second component tells whether the replay reached its head.\<close>

function send_pages ::
  "(nat \<Rightarrow> u64 \<Rightarrow> (persistence_error + output_replay) option) \<Rightarrow> bool \<Rightarrow> nat \<Rightarrow> u64 \<Rightarrow> u64 \<Rightarrow> (server_frame list \<times> bool) option" where
  "send_pages pages has_terminal_seed k cursor through =
     (if cursor < through
      then case pages k cursor of
             None \<Rightarrow> None
           | Some (Inl _) \<Rightarrow> Some ([ErrorFrame (io_error ''persistence'')], False)
           | Some (Inr page) \<Rightarrow>
               (let evicted = rp_first_available_byte page > cursor;
                    next_cursor = (if rp_chunks page = [] then through else end_byte (last (rp_chunks page)));
                    window = (if evicted then [ReplayWindowFrame (min (rp_first_available_byte page) through) through] else [])
                in if evicted \<and> has_terminal_seed
                   then Some ([ErrorFrame (io_error ''terminal checkpoint original tail was evicted while replay was streaming'')], False)
                   else if next_cursor \<le> cursor then Some (window, True)
                   else map_option (\<lambda>(frames, complete). (window @ send_replay (rp_chunks page) @ frames, complete))
                          (send_pages pages has_terminal_seed (Suc k) next_cursor through))
      else Some ([], True))"
  by pat_completeness auto

termination
  by (relation "measure (\<lambda>(_, _, _, cursor, through). through - cursor)") (auto simp: Let_def split: if_splits)

declare send_pages.simps [simp del]

text \<open>
  The replay phase of \<^verbatim>\<open>handle_pinned\<close>, as the frames it writes.  A header that does not fit a frame is answered with an
  error and ends the connection.
\<close>

definition attachment_frames ::
  "bool \<Rightarrow> usize \<Rightarrow> (nat \<Rightarrow> u64 \<Rightarrow> (persistence_error + output_replay) option) \<Rightarrow> u64 \<Rightarrow> attached_snapshot \<Rightarrow> (server_frame list \<times> bool) option" where
  "attachment_frames header_fits restore_chunk_bytes pages after_byte sn =
     (let (header, replay_chunks, _, restore) = split_snapshot sn;
          replay_start = replay_start_of (ah_terminal header) after_byte;
          sent_through_byte = rh_latest_output_bytes (ah_replay header);
          replay_cursor = (if replay_chunks = [] then max replay_start (rh_first_available_byte (ah_replay header))
                           else end_byte (last replay_chunks))
      in if \<not> header_fits then Some ([ErrorFrame \<lparr>pe_code = ResponseTooLarge, pe_message = ''response too large''\<rparr>], False)
         else map_option (\<lambda>(frames, complete).
                (AttachedFrame header # restore_frames restore_chunk_bytes restore @ send_replay replay_chunks @ frames, complete))
                (send_pages pages (is_basic_vt (ah_terminal header)) 0 replay_cursor sent_through_byte))"

section \<open>The client's side\<close>

definition checkpoint_fence_ok :: "attached_snapshot \<Rightarrow> terminal_checkpoint_header \<Rightarrow> bool" where
  "checkpoint_fence_ok sn checkpoint \<longleftrightarrow>
     \<not> (cp_run_id checkpoint \<noteq> ri_id (as_run sn)
        \<or> cp_through_byte checkpoint > rp_latest_output_bytes (as_replay sn)
        \<or> cp_through_byte checkpoint < rp_first_available_byte (as_replay sn)
        \<or> cp_restore_bytes checkpoint = 0
        \<or> rows (cp_size checkpoint) = 0 \<or> cols (cp_size checkpoint) = 0
        \<or> rows (cp_restore_size checkpoint) = 0 \<or> cols (cp_restore_size checkpoint) = 0
        \<or> cp_resize_after_restore_bytes checkpoint > cp_restore_bytes checkpoint)"

fun check_geometry_tail :: "u64 \<Rightarrow> terminal_resize list \<Rightarrow> u64 \<Rightarrow> u64 \<Rightarrow> client_error + u64" where
  "check_geometry_tail latest [] revision position = Inr revision"
| "check_geometry_tail latest (resize # rest) revision position =
     (if Some (tr_resize_revision resize) \<noteq> checked_add revision 1 \<or> tr_through_byte resize < position
         \<or> tr_through_byte resize > latest \<or> rows (tr_size resize) = 0 \<or> cols (tr_size resize) = 0
      then Inl (ProtocolContractViolation ''invalid terminal geometry tail'')
      else check_geometry_tail latest rest (tr_resize_revision resize) (tr_through_byte resize))"

text \<open>\<^verbatim>\<open>reserve_restore\<close> (\<^verbatim>\<open>terminal_seed.rs\<close>): the local policy, then the host, then the allocator.\<close>

definition reserve_restore :: "(usize \<Rightarrow> bool) \<Rightarrow> u64 \<Rightarrow> u64 \<Rightarrow> terminal_seed_resource_error + unit" where
  "reserve_restore alloc limit requested_bytes =
     (if requested_bytes > limit then Inl (RestoreLimit requested_bytes limit)
      else case usize_try_from requested_bytes of
             None \<Rightarrow> Inl (HostByteCapacity requested_bytes)
           | Some bytes \<Rightarrow> if alloc bytes then Inr () else Inl (SeedAllocation requested_bytes))"

fun receive_restore :: "u64 \<Rightarrow> byte list \<Rightarrow> wire \<Rightarrow> client_error + byte list \<times> wire" where
  "receive_restore restore_bytes restore [] = (if length restore < restore_bytes then Inl ClosedError else Inr (restore, []))"
| "receive_restore restore_bytes restore (item # rest) =
     (if \<not> length restore < restore_bytes then Inr (restore, item # rest)
      else case item of
             Inl failure \<Rightarrow> Inl failure
           | Inr (CheckpointChunkFrame offset data) \<Rightarrow>
               if offset = length restore \<and> data \<noteq> []
                  \<and> (case checked_add offset (length data) of None \<Rightarrow> False | Some stop \<Rightarrow> stop \<le> restore_bytes)
               then receive_restore restore_bytes (restore @ data) rest
               else Inl (UnexpectedFrame ''expected ordered synthetic terminal seed'')
           | Inr (ErrorFrame failure) \<Rightarrow> Inl (ProtocolErr failure)
           | Inr _ \<Rightarrow> Inl (UnexpectedFrame ''expected ordered synthetic terminal seed''))"

definition receive_terminal_seed ::
  "(usize \<Rightarrow> bool) \<Rightarrow> u64 \<Rightarrow> u64 \<Rightarrow> attached_snapshot \<Rightarrow> wire \<Rightarrow> client_error + u64 \<times> attached_snapshot \<times> wire" where
  "receive_terminal_seed alloc limit after_byte sn w =
     (case as_terminal sn of
        BasicVt checkpoint resizes \<Rightarrow>
          and_then (require (checkpoint_fence_ok sn checkpoint) (ProtocolContractViolation ''invalid terminal checkpoint fence'')) (\<lambda>_.
          and_then (check_geometry_tail (rp_latest_output_bytes (as_replay sn)) resizes (cp_resize_revision checkpoint) (cp_through_byte checkpoint)) (\<lambda>revision.
          and_then (require (revision = as_resize_revision sn) (ProtocolContractViolation ''incomplete terminal geometry tail'')) (\<lambda>_.
          and_then (case cp_restore_scrollback_rows checkpoint of
                      None \<Rightarrow> Inr ()
                    | Some n \<Rightarrow> (case usize_try_from n of None \<Rightarrow> Inl (TerminalSeedResource (HostScrollbackCapacity n)) | Some _ \<Rightarrow> Inr ())) (\<lambda>_.
          and_then (map_err TerminalSeedResource (reserve_restore alloc limit (cp_restore_bytes checkpoint))) (\<lambda>_.
          and_then (receive_restore (cp_restore_bytes checkpoint) (as_terminal_restore sn) w) (\<lambda>(restore, rest).
            Inr (cp_through_byte checkpoint, sn\<lparr>as_terminal_restore := restore\<rparr>, rest)))))))
      | _ \<Rightarrow> Inr (after_byte, sn, w))"

definition move_window :: "u64 \<Rightarrow> attached_snapshot \<Rightarrow> attached_snapshot" where
  "move_window first sn =
     sn\<lparr>as_replay := (as_replay sn)\<lparr>rp_chunks := [], rp_first_available_byte := first, rp_truncated := True\<rparr>,
       as_run := (as_run sn)\<lparr>ri_first_available_byte := first\<rparr>\<rparr>"

definition push_chunk :: "output_chunk \<Rightarrow> attached_snapshot \<Rightarrow> attached_snapshot" where
  "push_chunk chunk sn = sn\<lparr>as_replay := (as_replay sn)\<lparr>rp_chunks := rp_chunks (as_replay sn) @ [chunk]\<rparr>\<rparr>"

fun receive_pages :: "u64 \<Rightarrow> attached_snapshot \<Rightarrow> wire \<Rightarrow> client_error + attached_snapshot \<times> wire" where
  "receive_pages expected sn [] = Inl ClosedError"
| "receive_pages expected sn (Inl failure # rest) = Inl failure"
| "receive_pages expected sn (Inr (EventFrame (EvOutput chunk)) # rest) =
     (let latest = rp_latest_output_bytes (as_replay sn)
      in if start_byte chunk = expected \<and> end_byte chunk > start_byte chunk \<and> end_byte chunk \<le> latest
            \<and> end_byte chunk - start_byte chunk = length (chunk_data chunk)
         then if end_byte chunk = latest then Inr (push_chunk chunk sn, rest) else receive_pages (end_byte chunk) (push_chunk chunk sn) rest
         else Inl (UnexpectedFrame ''expected ordered replay output''))"
| "receive_pages expected sn (Inr (ReplayWindowFrame first latest) # rest) =
     (if latest = rp_latest_output_bytes (as_replay sn) \<and> first > expected \<and> first \<le> latest
      then if is_basic_vt (as_terminal sn)
           then Inl (ProtocolContractViolation ''terminal checkpoint original tail was evicted during replay'')
           else if first = latest then Inr (move_window first sn, rest) else receive_pages first (move_window first sn) rest
      else Inl (UnexpectedFrame ''expected ordered replay output''))"
| "receive_pages expected sn (Inr (ErrorFrame failure) # rest) = Inl (ProtocolErr failure)"
| "receive_pages expected sn (Inr other # rest) = Inl (UnexpectedFrame ''expected ordered replay output'')"

definition receive_replay ::
  "(usize \<Rightarrow> bool) \<Rightarrow> u64 \<Rightarrow> u64 \<Rightarrow> attached_snapshot \<Rightarrow> wire \<Rightarrow> client_error + attached_snapshot \<times> wire" where
  "receive_replay alloc limit after_byte sn w =
     and_then (receive_terminal_seed alloc limit after_byte sn w) (\<lambda>(after_byte, sn, w).
       let chunks = rp_chunks (as_replay sn);
           latest = rp_latest_output_bytes (as_replay sn);
           expected = (if chunks = [] then max after_byte (rp_first_available_byte (as_replay sn)) else end_byte (last chunks))
       in if (chunks \<noteq> [] \<and> end_byte (last chunks) = latest) \<or> (chunks = [] \<and> after_byte \<ge> latest) then Inr (sn, w)
          else if expected \<ge> latest then Inr (sn, w)
          else receive_pages expected sn w)"

definition snapshot_of_header :: "attached_header \<Rightarrow> attached_snapshot" where
  "snapshot_of_header header =
     \<lparr>as_run = ah_run header,
      as_replay = \<lparr>rp_chunks = [], rp_first_available_byte = rh_first_available_byte (ah_replay header),
        rp_latest_output_bytes = rh_latest_output_bytes (ah_replay header), rp_truncated = rh_truncated (ah_replay header)\<rparr>,
      as_terminal = ah_terminal header, as_terminal_restore = [], as_resize_revision = ah_resize_revision header\<rparr>"

text \<open>\<^verbatim>\<open>attach_with_view\<close> once the request was sent: the frames the daemon then writes.\<close>

definition receive_attached ::
  "(usize \<Rightarrow> bool) \<Rightarrow> u64 \<Rightarrow> run_id \<Rightarrow> u64 \<Rightarrow> attachment_view \<Rightarrow> wire \<Rightarrow> client_error + attached_snapshot \<times> wire" where
  "receive_attached alloc limit i after_byte view w =
     and_then (receive w) (\<lambda>(frame, rest).
       case frame of
         AttachedFrame header \<Rightarrow>
           if ri_id (ah_run header) \<noteq> i \<or> (ah_terminal header = NotRequested) \<noteq> (view = RawView)
           then Inl (UnexpectedFrame ''attachment Run or view differs from request'')
           else receive_replay alloc limit after_byte (snapshot_of_header header) rest
       | ErrorFrame failure \<Rightarrow> Inl (ProtocolErr failure)
       | _ \<Rightarrow> Inl (UnexpectedFrame ''expected attached snapshot''))"

definition attach_with_view ::
  "client \<Rightarrow> connection \<Rightarrow> (client_error + unit) \<Rightarrow> (usize \<Rightarrow> bool) \<Rightarrow> u64 \<Rightarrow> run_id \<Rightarrow> u64 \<Rightarrow> attachment_view
     \<Rightarrow> client_error + attached_snapshot \<times> wire" where
  "attach_with_view cl cn sent alloc limit i after_byte view =
     and_then (connect_for_dispatch cl cn) (\<lambda>(w, _). and_then sent (\<lambda>_. receive_attached alloc limit i after_byte view w))"

end
