(* ===== verification/Attach_Roundtrip.thy ===== *)
theory Attach_Roundtrip
  imports Attach_Replay
begin

text \<open>
  The end-to-end property of attaching: pages cut from the log and the durable store at different moments, sent by the
  daemon and reassembled by the client, are the exact tail of the Run's output.
\<close>

section \<open>The Run's output as one history\<close>

definition hist :: "byte list \<Rightarrow> nat \<Rightarrow> nat \<Rightarrow> byte list" where
  "hist h a b = take (b - a) (drop a h)"

lemma hist_length: "b \<le> length h \<Longrightarrow> length (hist h a b) = b - a"
  by (simp add: hist_def diff_le_mono min.absorb2)

lemma hist_join: "a \<le> b \<Longrightarrow> b \<le> c \<Longrightarrow> hist h a b @ hist h b c = hist h a c"
  using take_add [of "b - a" "c - b" "drop a h"] by (simp add: hist_def)

lemma hist_part: "f \<le> a \<Longrightarrow> b \<le> l \<Longrightarrow> take (b - a) (drop (a - f) (hist h f l)) = hist h a b"
  by (simp add: hist_def drop_take min_def)

text \<open>A log and a store hold slices of that history.\<close>

definition log_of :: "byte list \<Rightarrow> 'p output_log \<Rightarrow> bool" where
  "log_of h l \<longleftrightarrow> log_ok l \<and> latest_output_bytes l \<le> length h \<and> log_window l = hist h (first_available_byte l) (latest_output_bytes l)"

definition store_of :: "byte list \<Rightarrow> run_id \<Rightarrow> store \<Rightarrow> bool" where
  "store_of h rid s \<longleftrightarrow> store_ok s \<and> (\<exists>row. map_of (st_runs s) rid = Some row
     \<and> (case rr_source_gap row of None \<Rightarrow> True | Some cursor \<Rightarrow> cursor \<le> rr_head row)
     \<and> rr_head row \<le> length h \<and> window rid s = hist h (rr_oldest row) (rr_head row))"

definition moment_of :: "byte list \<Rightarrow> run_id \<Rightarrow> u64 \<Rightarrow> 'p moment \<Rightarrow> bool" where
  "moment_of h rid through m \<longleftrightarrow> log_of h (mo_log m) \<and> log_of h (mo_later_log m)
     \<and> through \<le> latest_output_bytes (mo_log m) \<and> through \<le> latest_output_bytes (mo_later_log m)
     \<and> (\<forall>s. mo_store m = Some s \<longrightarrow> store_of h rid s)"

section \<open>One page\<close>

definition spans :: "byte list \<Rightarrow> nat \<Rightarrow> nat \<Rightarrow> output_chunk list \<Rightarrow> bool" where
  "spans h a b cs \<longleftrightarrow> contiguous a cs \<and> chunks_end a cs = b \<and> chunk_bytes cs = hist h a b"

lemma spans_Nil [simp]: "spans h a b [] \<longleftrightarrow> a = b"
  by (auto simp: spans_def hist_def)

lemma spans_append: "spans h a b cs \<Longrightarrow> spans h b c ds \<Longrightarrow> spans h a c (cs @ ds)"
  using contiguous_le [of a cs] contiguous_le [of b ds] by (auto simp: spans_def hist_join)

lemma contiguous_less: "contiguous a cs \<Longrightarrow> cs \<noteq> [] \<Longrightarrow> a < chunks_end a cs"
  by (cases cs) (auto simp: chunk_ok_def dest!: contiguous_le elim!: less_le_trans [rotated])

definition page_good :: "byte list \<Rightarrow> u64 \<Rightarrow> u64 \<Rightarrow> output_replay \<Rightarrow> bool" where
  "page_good h after through rp \<longleftrightarrow>
     (let first = max after (rp_first_available_byte rp)
      in rp_latest_output_bytes rp = through
       \<and> (rp_chunks rp = [] \<and> through \<le> first
          \<or> (rp_chunks rp \<noteq> [] \<and> (\<exists>stop. first < stop \<and> stop \<le> through \<and> spans h first stop (rp_chunks rp)))))"

lemma page_goodI:
  "rp_chunks rp \<noteq> [] \<Longrightarrow> max after (rp_first_available_byte rp) < stop \<Longrightarrow> stop \<le> through
     \<Longrightarrow> spans h (max after (rp_first_available_byte rp)) stop (rp_chunks rp) \<Longrightarrow> rp_latest_output_bytes rp = through \<Longrightarrow> page_good h after through rp"
  unfolding page_good_def Let_def by blast

lemma memory_page:
  assumes "log_of h l" "through \<le> latest_output_bytes l"
  shows "\<exists>rp. replay_page l after through = Some rp \<and> page_good h after through rp"
proof -
  let ?f = "first_available_byte l"
  let ?first = "max after ?f" and ?stop = "min through (min U64_MAX (max after ?f + 65536))"
  have ok: "log_ok l" "latest_output_bytes l \<le> length h" "log_window l = hist h ?f (latest_output_bytes l)" using assms(1) by (simp_all add: log_of_def)
  have u64: "latest_output_bytes l \<le> U64_MAX" using ok(1) by (simp add: log_ok_def)
  obtain ps where ps: "replay_page l after through = Some
      \<lparr>rp_chunks = ps, rp_first_available_byte = ?f, rp_latest_output_bytes = min through (latest_output_bytes l),
       rp_truncated = (after < ?f \<or> gap_at_or_after l after)\<rparr>"
    "chunk_bytes ps = byte_range ?f (log_window l) ?first ?stop" "contiguous ?first ps"
    "length (chunk_bytes ps) = min ?stop (latest_output_bytes l) - ?first"
    by (rule replay_page_spec [OF ok(1), of after through])
  have stop: "?stop \<le> latest_output_bytes l" by (rule order_trans [OF min.cobounded1 assms(2)])
  then have stop_min: "min ?stop (latest_output_bytes l) = ?stop" by (rule min.absorb1)
  have chunk: "chunks_end ?first ps = ?first + (?stop - ?first)" using contiguous_end [OF ps(3)] ps(4) by (simp only: stop_min)
  show ?thesis
  proof (cases "?first < through")
    case False
    then have "length (chunk_bytes ps) = 0" using ps(4) by (simp only: stop_min) linarith
    then have "ps = []" using ps(3) by (cases ps) (auto simp: chunk_ok_def)
    then show ?thesis using ps(1) False assms(2) by (auto simp: page_good_def)
  next
    case True
    then have lt: "?first < ?stop" using u64 assms(2) by linarith
    have bytes: "chunk_bytes ps = hist h ?first ?stop"
      using hist_part [of ?f ?first ?stop "latest_output_bytes l" h] stop by (simp add: ps(2) ok(3) byte_range_def)
    have "spans h ?first ?stop ps" using ps(3) chunk bytes lt by (simp add: spans_def)
    moreover have "ps \<noteq> []" using chunk lt by auto
    ultimately have "page_good h after through \<lparr>rp_chunks = ps, rp_first_available_byte = ?f,
        rp_latest_output_bytes = min through (latest_output_bytes l), rp_truncated = (after < ?f \<or> gap_at_or_after l after)\<rparr>"
      using lt assms(2) by (intro page_goodI [where stop = ?stop]) simp_all
    then show ?thesis using ps(1) by blast
  qed
qed

lemma chain_contiguous: "chunk_chain a cs b \<Longrightarrow> contiguous a cs \<and> chunks_end a cs = b"
  by (induction cs arbitrary: a) (auto simp: chunk_ok_def)

lemma attachment_page:
  assumes "moment_of h rid through m"
  shows "\<exists>rp. attachment_replay_page rid m after through = Some (Inr rp) \<and> page_good h after through rp"
proof -
  let ?floor = "first_available_byte (mo_log m)"
  have head: "min (latest_output_bytes (mo_log m)) through = through" using assms by (simp add: moment_of_def)
  obtain mem where mem: "replay_page (mo_later_log m) after through = Some mem" "page_good h after through mem"
    using memory_page [of h "mo_later_log m" through after] assms by (auto simp: moment_of_def)
  have "\<exists>rp. attachment_replay_page rid m after through = Some (Inr rp) \<and> page_good h after through rp"
    if s: "mo_store m = Some s" and after: "after < ?floor" for s
  proof -
    obtain row where row: "store_ok s" "map_of (st_runs s) rid = Some row" "case rr_source_gap row of None \<Rightarrow> True | Some cursor \<Rightarrow> cursor \<le> rr_head row"
      "rr_head row \<le> length h" "window rid s = hist h (rr_oldest row) (rr_head row)"
      using assms s unfolding moment_of_def store_of_def by blast
    let ?a = "max after (rr_oldest row)" and ?through = "min ?floor through"
    let ?b = "min (min ?through (rr_head row)) (max after (rr_oldest row) + REPLAY_PAGE_BYTES)"
    obtain p where p: "load_replay_page rid after ?through s = Inr p" "rp_first_available_byte p = rr_oldest row"
      "if ?a < ?b then chunk_chain ?a (rp_chunks p) ?b \<and> chunks_data (rp_chunks p) = take (?b - ?a) (drop (?a - rr_oldest row) (window rid s)) else rp_chunks p = []"
      using load_replay_page_spec [OF row(1,2,3), of after ?through] by (auto simp: Let_def)
    show ?thesis
    proof (cases "rp_chunks p = []")
      case True
      then show ?thesis using p(1) s after mem by (simp add: attachment_replay_page_def head Let_def)
    next
      case False
      then have lt: "?a < ?b" and chain: "chunk_chain ?a (rp_chunks p) ?b"
        and data: "chunks_data (rp_chunks p) = take (?b - ?a) (drop (?a - rr_oldest row) (window rid s))" using p(3) by (auto split: if_splits)
      have "chunk_bytes (rp_chunks p) = hist h ?a ?b"
        using data hist_part [of "rr_oldest row" ?a ?b "rr_head row" h] by (simp add: row(5) chunk_bytes_def chunks_data_def)
      then have "spans h ?a ?b (rp_chunks p)" using chain_contiguous [OF chain] by (simp add: spans_def)
      moreover have "?b \<le> through" by simp
      ultimately have "page_good h after through (p\<lparr>rp_latest_output_bytes := through\<rparr>)"
        using lt False p(2) by (intro page_goodI [where stop = ?b]) simp_all
      then show ?thesis using p(1) s after False by (simp add: attachment_replay_page_def head Let_def)
    qed
  qed
  then show ?thesis using mem by (cases "mo_store m") (auto simp: attachment_replay_page_def head Let_def)
qed

section \<open>Receiving what was sent\<close>

definition push_chunks :: "output_chunk list \<Rightarrow> attached_snapshot \<Rightarrow> attached_snapshot" where
  "push_chunks cs sn = sn\<lparr>as_replay := (as_replay sn)\<lparr>rp_chunks := rp_chunks (as_replay sn) @ cs\<rparr>\<rparr>"

lemma push_chunks_simps [simp]:
  "push_chunks [] sn = sn" "push_chunks cs (push_chunk c sn) = push_chunks (c # cs) sn"
  "rp_latest_output_bytes (as_replay (push_chunks cs sn)) = rp_latest_output_bytes (as_replay sn)"
  "rp_latest_output_bytes (as_replay (push_chunk c sn)) = rp_latest_output_bytes (as_replay sn)"
  by (simp_all add: push_chunks_def push_chunk_def)

lemma receive_outputs:
  assumes "contiguous a cs" "cs \<noteq> []" "chunks_end a cs \<le> rp_latest_output_bytes (as_replay sn)"
  shows "receive_pages a sn (map Inr (send_replay cs) @ rest) =
    (if chunks_end a cs = rp_latest_output_bytes (as_replay sn) then Inr (push_chunks cs sn, rest)
     else receive_pages (chunks_end a cs) (push_chunks cs sn) rest)"
  using assms
proof (induction cs arbitrary: a sn)
  case (Cons c cs)
  have c: "start_byte c = a" "end_byte c = a + length (chunk_data c)" "a < end_byte c" "contiguous (end_byte c) cs"
    using Cons.prems(1) by (auto simp: chunk_ok_def)
  have le: "end_byte c \<le> rp_latest_output_bytes (as_replay sn)" using contiguous_le [OF c(4)] Cons.prems(3) by simp
  have last: "cs = []" if "end_byte c = rp_latest_output_bytes (as_replay sn)"
    using contiguous_less [OF c(4)] Cons.prems(3) that by fastforce
  show ?case
  proof (cases "cs = []")
    case True
    then show ?thesis using c le by (simp add: send_replay_def push_chunks_def push_chunk_def Let_def)
  next
    case False
    then have "end_byte c \<noteq> rp_latest_output_bytes (as_replay sn)" using last by blast
    then show ?thesis using c le Cons.IH [OF c(4) False, of "push_chunk c sn"] Cons.prems(3) by (simp add: send_replay_def Let_def)
  qed
qed simp

text \<open>What the walk over the pages does to the client's snapshot, from its first byte \<open>a\<close>.\<close>

definition arrived :: "byte list \<Rightarrow> nat \<Rightarrow> nat \<Rightarrow> attached_snapshot \<Rightarrow> attached_snapshot \<Rightarrow> bool" where
  "arrived h a a' sn sn' \<longleftrightarrow>
     as_terminal sn' = as_terminal sn \<and> as_terminal_restore sn' = as_terminal_restore sn \<and> as_resize_revision sn' = as_resize_revision sn
     \<and> ri_id (as_run sn') = ri_id (as_run sn) \<and> rp_latest_output_bytes (as_replay sn') = rp_latest_output_bytes (as_replay sn)
     \<and> a \<le> a' \<and> spans h a' (rp_latest_output_bytes (as_replay sn)) (rp_chunks (as_replay sn'))
     \<and> (if a' = a
        then rp_first_available_byte (as_replay sn') = rp_first_available_byte (as_replay sn)
          \<and> ri_first_available_byte (as_run sn') = ri_first_available_byte (as_run sn) \<and> rp_truncated (as_replay sn') = rp_truncated (as_replay sn)
        else \<not> is_basic_vt (as_terminal sn) \<and> rp_first_available_byte (as_replay sn') = a'
          \<and> ri_first_available_byte (as_run sn') = a' \<and> rp_truncated (as_replay sn'))"

lemma arrived_pushed:
  assumes "spans h a c (rp_chunks (as_replay sn))" "spans h c (rp_latest_output_bytes (as_replay sn)) cs"
  shows "arrived h a a sn (push_chunks cs sn)"
  using spans_append [OF assms] by (simp add: arrived_def push_chunks_def)

lemma arrived_push_chunks: "arrived h a a' (push_chunks cs sn) sn' \<Longrightarrow> arrived h a a' sn sn'"
  by (auto simp: arrived_def push_chunks_def split: if_splits)

lemma arrived_moved: "arrived h f a' (move_window f sn) sn' \<Longrightarrow> a < f \<Longrightarrow> \<not> is_basic_vt (as_terminal sn) \<Longrightarrow> arrived h a a' sn sn'"
  by (auto simp: arrived_def move_window_def split: if_splits)

section \<open>The paging loop against the client's loop\<close>

lemma send_pages_done [simp]: "through \<le> c \<Longrightarrow> send_pages pages seed k c through = Some ([], True)"
  by (simp add: send_pages.simps)

lemma send_pages_complete:
  assumes "\<And>k c. c < through \<Longrightarrow> \<exists>rp. pages k c = Some (Inr rp) \<and> page_good h c through rp"
  shows "\<exists>fs. send_pages pages False k c through = Some (fs, True)"
proof (induction "through - c" arbitrary: k c rule: less_induct)
  case less
  show ?case
  proof (cases "c < through")
    case True
    obtain rp where rp: "pages k c = Some (Inr rp)" "page_good h c through rp" using assms [OF True] by blast
    let ?next = "if rp_chunks rp = [] then through else end_byte (last (rp_chunks rp))"
    have "c < ?next" using rp(2) True contiguous_last by (force simp: page_good_def spans_def Let_def)
    moreover from this have "\<exists>fs. send_pages pages False (Suc k) ?next through = Some (fs, True)" using less True by (meson diff_less_mono2)
    ultimately show ?thesis using rp(1) True by (subst send_pages.simps) (force simp: Let_def not_le [symmetric])
  qed (simp add: send_pages.simps)
qed

lemma receive_sent_pages:
  assumes pages: "\<And>k c. c < through \<Longrightarrow> \<exists>rp. pages k c = Some (Inr rp) \<and> page_good h c through rp"
    and "send_pages pages (is_basic_vt (as_terminal sn)) k c through = Some (fs, True)" "c < through"
    "rp_latest_output_bytes (as_replay sn) = through" "spans h a c (rp_chunks (as_replay sn))"
  shows "\<exists>sn' a'. receive_pages c sn (map Inr fs @ rest) = Inr (sn', rest) \<and> arrived h a a' sn sn'"
  using assms(2-)
proof (induction "through - c" arbitrary: k c fs sn a rule: less_induct)
  case less
  let ?seed = "is_basic_vt (as_terminal sn)"
  obtain rp where rp: "pages k c = Some (Inr rp)" "page_good h c through rp" using pages [OF less.prems(2)] by blast
  let ?f = "rp_first_available_byte rp"
  let ?next = "if rp_chunks rp = [] then through else end_byte (last (rp_chunks rp))"
  let ?window = "if c < ?f then [ReplayWindowFrame (min ?f through) through] else []"
  have next_gt: "c < ?next" using rp(2) less.prems(2) contiguous_last by (force simp: page_good_def spans_def Let_def)
  obtain more where more: "send_pages pages ?seed (Suc k) ?next through = Some (more, True)"
    and fs: "fs = ?window @ send_replay (rp_chunks rp) @ more" and keep: "\<not> (c < ?f \<and> ?seed)"
    using less.prems(1,2) rp(1) next_gt by (subst (asm) send_pages.simps) (auto simp: Let_def split: if_splits prod.splits)
  txt \<open>After the optional window move, the client expects \<open>b\<close> and holds a tail from \<open>a1\<close>.\<close>
  define b where "b = max c (min ?f through)"
  define sn1 where "sn1 = (if c < ?f then move_window b sn else sn)"
  define a1 where "a1 = (if c < ?f then b else a)"
  have sn1: "rp_latest_output_bytes (as_replay sn1) = through" "as_terminal sn1 = as_terminal sn" "spans h a1 b (rp_chunks (as_replay sn1))"
    using less.prems by (auto simp: sn1_def a1_def b_def move_window_def)
  have lift: "arrived h a a' sn sn'" if "arrived h a1 a' sn1 sn'" for a' sn'
  proof (cases "c < ?f")
    case True
    have "a \<le> c" using less.prems(4) contiguous_le by (auto simp: spans_def)
    then have "a < b" using True less.prems(2) by (auto simp: b_def)
    then show ?thesis using that True keep arrived_moved [of h b a' sn sn' a] by (simp add: sn1_def a1_def)
  qed (use that in \<open>simp add: sn1_def a1_def\<close>)
  have front: "receive_pages c sn (map Inr fs @ rest)
      = (if c < ?f \<and> b = through then Inr (sn1, map Inr (send_replay (rp_chunks rp) @ more) @ rest)
         else receive_pages b sn1 (map Inr (send_replay (rp_chunks rp) @ more) @ rest))"
    using less.prems(2,3) keep by (auto simp: fs b_def sn1_def min_def max_def)
  show ?case
  proof (cases "rp_chunks rp = []")
    case True
    then have "through \<le> max c ?f" using rp(2) by (simp add: page_good_def Let_def)
    then have b: "c < ?f" "b = through" using less.prems(2) by (auto simp: b_def)
    have "more = []" using more True by (simp add: send_pages.simps)
    then have "receive_pages c sn (map Inr fs @ rest) = Inr (sn1, rest)" using front b True by (simp add: send_replay_def)
    moreover have "arrived h a1 a1 sn1 sn1" using sn1 b by (simp add: arrived_def)
    ultimately show ?thesis using lift by blast
  next
    case False
    obtain stop where stop: "max c ?f < stop" "stop \<le> through" "spans h (max c ?f) stop (rp_chunks rp)"
      using rp(2) False by (auto simp: page_good_def Let_def)
    have b: "b = max c ?f" "b < through" using stop(1,2) by (auto simp: b_def)
    have cont: "contiguous b (rp_chunks rp)" "chunks_end b (rp_chunks rp) = stop" using stop(3) b by (simp_all add: spans_def)
    have nxt: "?next = stop" using contiguous_last [OF cont(1) False] cont(2) False by simp
    have got: "receive_pages c sn (map Inr fs @ rest)
        = (if stop = through then Inr (push_chunks (rp_chunks rp) sn1, map Inr more @ rest)
           else receive_pages stop (push_chunks (rp_chunks rp) sn1) (map Inr more @ rest))"
      using front b receive_outputs [OF cont(1) False, of sn1 "map Inr more @ rest"] cont(2) stop(2) sn1(1) by simp
    have span: "spans h a1 stop (rp_chunks (as_replay (push_chunks (rp_chunks rp) sn1)))"
      using spans_append [OF sn1(3)] stop(3) b by (simp add: push_chunks_def)
    show ?thesis
    proof (cases "stop = through")
      case True
      have "more = []" using more nxt True by (simp add: send_pages.simps)
      moreover have "arrived h a1 a1 sn1 (push_chunks (rp_chunks rp) sn1)"
        using arrived_pushed [OF sn1(3)] stop(3) b True sn1(1) by simp
      ultimately show ?thesis using got True lift by auto
    next
      case False
      have "\<exists>sn' a'. receive_pages stop (push_chunks (rp_chunks rp) sn1) (map Inr more @ rest) = Inr (sn', rest)
          \<and> arrived h a1 a' (push_chunks (rp_chunks rp) sn1) sn'"
        using less.hyps [of stop "push_chunks (rp_chunks rp) sn1" "Suc k" more a1] more nxt stop next_gt less.prems(2) sn1 span False
        by (auto simp: push_chunks_def)
      then show ?thesis using got False lift arrived_push_chunks by (metis (no_types, lifting))
    qed
  qed
qed

section \<open>The terminal seed\<close>

text \<open>What the daemon relies on from the emulator: an exported screen has a size and is not empty.\<close>

definition seed_shape :: "'p vt_parser \<Rightarrow> bool" where
  "seed_shape vt \<longleftrightarrow> (\<forall>p seed. vt_geometry vt p = Some seed \<longrightarrow>
     0 < seed_source_rows seed \<and> 0 < seed_source_cols seed \<and> 0 < seed_rows seed \<and> 0 < seed_cols seed
     \<and> seed_restore_bytes seed @ seed_final_bytes seed \<noteq> []
     \<and> (case seed_scrollback_rows seed of None \<Rightarrow> True | Some n \<Rightarrow> n \<le> USIZE_MAX))"

text \<open>A retained checkpoint with its geometry tail, as the derived terminal keeps it up to the output head.\<close>

definition saved_ok :: "run_id \<Rightarrow> u64 \<Rightarrow> u64 \<Rightarrow> stored_checkpoint \<Rightarrow> bool" where
  "saved_ok rid latest revision saved \<longleftrightarrow>
     (let c = sc_checkpoint saved
      in cp_run_id c = rid \<and> cp_through_byte c \<le> latest \<and> cp_restore_bytes c = length (sc_restore saved)
       \<and> 0 < cp_restore_bytes c \<and> cp_restore_bytes c \<le> MAX_RESTORE_BYTES \<and> cp_resize_after_restore_bytes c \<le> cp_restore_bytes c
       \<and> 0 < rows (cp_size c) \<and> 0 < cols (cp_size c) \<and> 0 < rows (cp_restore_size c) \<and> 0 < cols (cp_restore_size c)
       \<and> (case cp_restore_scrollback_rows c of None \<Rightarrow> True | Some n \<Rightarrow> n \<le> USIZE_MAX)
       \<and> check_geometry_tail latest (sc_resizes saved) (cp_resize_revision c) (cp_through_byte c) = Inr revision)"

definition model_ok :: "run_id \<Rightarrow> u64 \<Rightarrow> u64 \<Rightarrow> 'p terminal_model \<Rightarrow> bool" where
  "model_ok rid latest revision t \<longleftrightarrow> tm_resize_revision t = revision
     \<and> (\<forall>saved. tm_geometry_valid t \<and> tm_checkpoint t = Some saved \<longrightarrow> saved_ok rid latest revision saved)"

definition terminal_ok :: "run_id \<Rightarrow> 'p output_log \<Rightarrow> bool" where
  "terminal_ok rid l \<longleftrightarrow> (\<forall>t. ol_terminal l = Some t \<longrightarrow> model_ok rid (latest_output_bytes l) (ol_resize_revision l) t)"

lemma geometry_tail_grows:
  "check_geometry_tail latest rs revision position = Inr r \<Longrightarrow> latest \<le> latest' \<Longrightarrow> check_geometry_tail latest' rs revision position = Inr r"
  by (induction rs arbitrary: revision position) (auto split: if_splits)

lemma geometry_tail_snoc:
  assumes "check_geometry_tail latest rs revision position = Inr r" "position \<le> latest" "tr_resize_revision x = r + 1" "r + 1 \<le> U64_MAX"
    "tr_through_byte x = latest" "0 < rows (tr_size x)" "0 < cols (tr_size x)"
  shows "check_geometry_tail latest (rs @ [x]) revision position = Inr (r + 1)"
  using assms by (induction rs arbitrary: revision position) (auto simp: checked_add_def split: if_splits)

text \<open>Every operation of the derived terminal keeps it that way.\<close>

lemma model_process: "model_ok rid latest revision t \<Longrightarrow> tm_process vt data t = Some t' \<Longrightarrow> latest \<le> latest' \<Longrightarrow> model_ok rid latest' revision t'"
  by (auto simp: model_ok_def tm_process_def saved_ok_def Let_def dest: geometry_tail_grows)

lemma saved_resize:
  assumes "saved_ok rid latest revision saved" "0 < rows sz" "0 < cols sz" "revision + 1 \<le> U64_MAX"
  shows "saved_ok rid latest (revision + 1) (saved\<lparr>sc_resizes := sc_resizes saved @
    [\<lparr>tr_through_byte = latest, tr_resize_revision = revision + 1, tr_size = sz\<rparr>]\<rparr>)"
  using assms geometry_tail_snoc [of latest "sc_resizes saved" _ _ revision "\<lparr>tr_through_byte = latest, tr_resize_revision = revision + 1, tr_size = sz\<rparr>"]
  by (auto simp: saved_ok_def Let_def)

lemma model_resize:
  assumes "model_ok rid latest revision t" "tm_resize vt sz latest t = Some (x, t')" "0 < rows sz" "0 < cols sz" "revision + 1 \<le> U64_MAX"
  shows "model_ok rid latest (revision + 1) t'"
proof -
  obtain p where p: "vt_set_size vt (tm_parser t) (rows sz) (cols sz) = Some p" using assms(2) by (auto simp: tm_resize_def Let_def)
  have rev: "tm_resize_revision t = revision" using assms(1) by (simp add: model_ok_def)
  show ?thesis
  proof (cases "tm_checkpoint t")
    case None
    then show ?thesis using assms(2) p rev by (auto simp: tm_resize_def model_ok_def Let_def)
  next
    case (Some saved)
    then have "saved_ok rid latest revision saved" if "tm_geometry_valid t" using assms(1) that by (simp add: model_ok_def)
    then show ?thesis
      using assms(2-5) p rev Some saved_resize [of rid latest revision saved sz] by (auto simp: tm_resize_def model_ok_def Let_def split: if_splits)
  qed
qed

lemma stored_seed_ok:
  assumes "seed_shape vt" "vt_geometry vt p = Some seed" "length (seed_restore_bytes seed) + length (seed_final_bytes seed) \<le> MAX_RESTORE_BYTES"
  shows "saved_ok rid latest revision (stored_of_seed rid latest revision seed)"
proof -
  have "0 < seed_source_rows seed \<and> 0 < seed_source_cols seed \<and> 0 < seed_rows seed \<and> 0 < seed_cols seed
     \<and> seed_restore_bytes seed @ seed_final_bytes seed \<noteq> []
     \<and> (case seed_scrollback_rows seed of None \<Rightarrow> True | Some n \<Rightarrow> n \<le> USIZE_MAX)"
    using assms(1,2) unfolding seed_shape_def by blast
  then show ?thesis using assms(3) by (auto simp: saved_ok_def stored_of_seed_def Let_def)
qed

lemma tm_cut_cases:
  assumes "tm_cut vt rid latest t = Some (b, t')"
  shows "t' = t \<or> (\<exists>seed. vt_geometry vt (tm_parser t) = Some seed
    \<and> length (seed_restore_bytes seed) + length (seed_final_bytes seed) \<le> MAX_RESTORE_BYTES
    \<and> t' = t\<lparr>tm_checkpoint := Some (stored_of_seed rid latest (tm_resize_revision t) seed), tm_geometry_valid := True\<rparr>)"
  using assms by (auto simp: tm_cut_def vt_geometry_checkpoint_def checked_add_def split: option.splits if_splits bind_splits)

lemma model_cut:
  assumes "seed_shape vt" "model_ok rid latest revision t" "tm_cut vt rid latest t = Some (b, t')"
  shows "model_ok rid latest revision t'"
  using tm_cut_cases [OF assms(3)] stored_seed_ok [OF assms(1)] assms(2) by (auto simp: model_ok_def)

lemma model_new:
  assumes "seed_shape vt" "tm_new vt rid sz = Some t"
  shows "model_ok rid 0 0 t"
proof -
  obtain p b where "tm_cut vt rid 0 \<lparr>tm_parser = p, tm_checkpoint = None, tm_resize_revision = 0, tm_geometry_valid = True\<rparr> = Some (b, t)"
    using assms(2) by (auto simp: tm_new_def split: bind_splits)
  then show ?thesis by (rule model_cut [OF assms(1), rotated]) (simp add: model_ok_def)
qed

lemma fault_keeps [simp]:
  "latest_output_bytes (note_terminal_fault stage l) = latest_output_bytes l" "ol_resize_revision (note_terminal_fault stage l) = ol_resize_revision l"
  by (simp_all add: note_terminal_fault_def Let_def)

text \<open>What a snapshot reports: the checkpoint after the cut, or the reason there is none.\<close>

definition absence_of :: "'p output_log \<Rightarrow> terminal_continuation \<times> byte list" where
  "absence_of l = (if terminal_absence l = InvalidCheckpoint then ContinuationUnavailable (terminal_absence l) else ContinuationUnknown (terminal_absence l), [])"

definition exported :: "u64 \<Rightarrow> 'p terminal_model \<Rightarrow> terminal_continuation \<times> byte list" where
  "exported first t =
     (case tm_checkpoint t of
        None \<Rightarrow> (ContinuationUnavailable CheckpointTooLarge, [])
      | Some saved \<Rightarrow>
          if \<not> tm_geometry_valid t then (ContinuationUnavailable InvalidCheckpoint, [])
          else if cp_through_byte (sc_checkpoint saved) < first then (ContinuationUnavailable TailEvicted, [])
          else (BasicVt (sc_checkpoint saved) (sc_resizes saved), sc_restore saved))"

lemma snapshot_cases:
  assumes "terminal_snapshot vt rid l = (v, l')"
  shows "latest_output_bytes l' = latest_output_bytes l \<and> ol_resize_revision l' = ol_resize_revision l
    \<and> (v = absence_of l' \<or> (\<exists>t b t'. ol_terminal l = Some t \<and> tm_cut vt rid (latest_output_bytes l) t = Some (b, t') \<and> v = exported (first_available_byte l) t'))"
proof -
  let ?f = "tm_continuation vt rid (first_available_byte l) (latest_output_bytes l)"
  obtain d l1 where d: "log_derive_terminal StageExport ?f l = (d, l1)" by fastforce
  have v: "v = (case d of Some x \<Rightarrow> x | None \<Rightarrow> absence_of l1)" "l' = l1" using assms d by (cases d; auto simp: terminal_snapshot_def absence_of_def Let_def)+
  show ?thesis
  proof (cases "ol_terminal l")
    case None
    then show ?thesis using v d by (simp add: log_derive_terminal_none)
  next
    case (Some t)
    show ?thesis
    proof (cases "tm_cut vt rid (latest_output_bytes l) t")
      case None
      then have "?f t = None" by (simp add: tm_continuation_def)
      then show ?thesis using v d Some by (auto simp: log_derive_terminal_unwound)
    next
      case (Some bt)
      obtain b t' where bt: "bt = (b, t')" by fastforce
      have "?f t = Some (exported (first_available_byte l) t', t')" using Some bt by (simp add: tm_continuation_def exported_def)
      then show ?thesis using v d Some bt \<open>ol_terminal l = Some t\<close> by (auto simp: log_derive_terminal_some)
    qed
  qed
qed

lemma snapshot_seed:
  assumes "seed_shape vt" "terminal_ok rid l" "terminal_snapshot vt rid l = ((terminal, restore), l')"
  shows "terminal \<noteq> NotRequested" "\<not> is_basic_vt terminal \<Longrightarrow> restore = []"
    "terminal = BasicVt c rs \<Longrightarrow> saved_ok rid (latest_output_bytes l) (ol_resize_revision l) \<lparr>sc_checkpoint = c, sc_restore = restore, sc_resizes = rs\<rparr>"
proof -
  consider "(terminal, restore) = absence_of l'"
    | t b t' where "ol_terminal l = Some t" "tm_cut vt rid (latest_output_bytes l) t = Some (b, t')" "(terminal, restore) = exported (first_available_byte l) t'"
    using snapshot_cases [OF assms(3)] by blast
  then have "terminal \<noteq> NotRequested \<and> (\<not> is_basic_vt terminal \<longrightarrow> restore = [])
    \<and> (terminal = BasicVt c rs \<longrightarrow> saved_ok rid (latest_output_bytes l) (ol_resize_revision l) \<lparr>sc_checkpoint = c, sc_restore = restore, sc_resizes = rs\<rparr>)"
  proof cases
    case 1
    then show ?thesis by (auto simp: absence_of_def is_basic_vt_def)
  next
    case (2 t b t')
    have "model_ok rid (latest_output_bytes l) (ol_resize_revision l) t'"
      using model_cut [OF assms(1) _ 2(2)] assms(2) 2(1) by (simp add: terminal_ok_def)
    then show ?thesis using 2(3) by (auto simp: exported_def is_basic_vt_def model_ok_def saved_ok_def Let_def split: option.splits if_splits)
  qed
  then show "terminal \<noteq> NotRequested" "\<not> is_basic_vt terminal \<Longrightarrow> restore = []"
    "terminal = BasicVt c rs \<Longrightarrow> saved_ok rid (latest_output_bytes l) (ol_resize_revision l) \<lparr>sc_checkpoint = c, sc_restore = restore, sc_resizes = rs\<rparr>"
    by auto
qed

lemma div_ceil_covers: "0 < n \<Longrightarrow> i < div_ceil m n \<Longrightarrow> i * n < m"
proof -
  assume n: "0 < n" and i: "i < div_ceil m n"
  have m: "m div n * n + m mod n = m" by simp
  show "i * n < m"
  proof (cases "i < m div n")
    case True
    then have "i * n < m div n * n" using n by simp
    then show ?thesis using m by linarith
  next
    case False
    then have "i * n = m div n * n" "m mod n \<noteq> 0" using i by (auto simp: div_ceil_def split: if_splits)
    then show ?thesis using m by linarith
  qed
qed

lemma receive_restored:
  assumes "0 < n" "length bs \<le> U64_MAX"
  shows "receive_restore (length bs) [] (map Inr (restore_frames n bs) @ rest) = Inr (bs, rest)"
proof -
  let ?N = "div_ceil (length bs) n"
  let ?frame = "\<lambda>i. CheckpointChunkFrame (i * n) (take n (drop (i * n) bs))"
  have "receive_restore (length bs) (take (i * n) bs) (map Inr (map ?frame [i..<?N]) @ rest) = Inr (bs, rest)" if "i \<le> ?N" for i
    using that
  proof (induction "?N - i" arbitrary: i)
    case 0
    then have "length bs \<le> i * n" using div_ceil_lower [OF assms(1), of "length bs"] by simp
    then show ?case using 0 by (cases rest) simp_all
  next
    case (Suc k)
    then have i: "i * n < length bs" "i < ?N" using div_ceil_covers [OF assms(1), of i "length bs"] by auto
    have join: "take (i * n) bs @ take n (drop (i * n) bs) = take (Suc i * n) bs" by (simp add: take_add [symmetric] add.commute)
    have upt: "[i..<?N] = i # [Suc i..<?N]" using i(2) by (rule upt_conv_Cons)
    have len: "length (take (i * n) bs) = i * n" "i * n + length (take n (drop (i * n) bs)) \<le> length bs" using i(1) by auto
    have "receive_restore (length bs) (take (Suc i * n) bs) (map Inr (map ?frame [Suc i..<?N]) @ rest) = Inr (bs, rest)"
      using Suc.hyps(1) [of "Suc i"] Suc.hyps(2) i(2) by simp
    moreover have "take n (drop (i * n) bs) \<noteq> []" using i(1) assms(1) by auto
    ultimately show ?case
      unfolding upt list.map append_Cons using i(1) len assms(2) by (simp add: join checked_add_def del: take_append take_eq_Nil)
  qed
  from this [of 0] show ?thesis by (simp add: restore_frames_def)
qed

section \<open>From snapshot to snapshot\<close>

text \<open>What the daemon's snapshot holds before its replay is streamed.\<close>

definition snapshot_good :: "byte list \<Rightarrow> run_id \<Rightarrow> u64 \<Rightarrow> u64 \<Rightarrow> attachment_view \<Rightarrow> attached_snapshot \<Rightarrow> bool" where
  "snapshot_good h rid head after view sn \<longleftrightarrow>
     ri_id (as_run sn) = rid \<and> (as_terminal sn = NotRequested \<longleftrightarrow> view = RawView)
     \<and> page_good h (replay_start_of (as_terminal sn) after) head (as_replay sn)
     \<and> (\<not> is_basic_vt (as_terminal sn) \<longrightarrow> as_terminal_restore sn = [])
     \<and> (\<forall>c rs. as_terminal sn = BasicVt c rs \<longrightarrow> rp_first_available_byte (as_replay sn) \<le> cp_through_byte c
          \<and> saved_ok rid head (as_resize_revision sn) \<lparr>sc_checkpoint = c, sc_restore = as_terminal_restore sn, sc_resizes = rs\<rparr>)"

lemma page_good_start:
  "page_good h a through rp \<Longrightarrow> max a (rp_first_available_byte rp) = max b (rp_first_available_byte rp) \<Longrightarrow> page_good h b through rp"
  by (simp add: page_good_def)

text \<open>
  When the checkpoint's tail is evicted while the snapshot is taken, its page starts at the floor; that is the byte the
  client expects as long as it did not ask to resume above it.
\<close>

lemma attachment_snapshot_good:
  assumes "seed_shape vt" "terminal_ok rid l" "ri_id info = rid" "moment_of h rid (latest_output_bytes l) m" "view = TerminalView \<Longrightarrow> after = 0"
  shows "\<exists>sn l'. attachment_snapshot vt rid info l m after view = Some (Inr sn, l') \<and> snapshot_good h rid (latest_output_bytes l) after view sn"
proof -
  let ?head = "latest_output_bytes l"
  obtain terminal restore l' where t: "(case view of TerminalView \<Rightarrow> terminal_snapshot vt rid l | RawView \<Rightarrow> ((NotRequested, []), l)) = ((terminal, restore), l')"
    by (metis surj_pair)
  have keep: "latest_output_bytes l' = ?head" "ol_resize_revision l' = ol_resize_revision l"
    "terminal = NotRequested \<longleftrightarrow> view = RawView" "\<not> is_basic_vt terminal \<Longrightarrow> restore = []"
    "terminal = BasicVt c rs \<Longrightarrow> saved_ok rid ?head (ol_resize_revision l) \<lparr>sc_checkpoint = c, sc_restore = restore, sc_resizes = rs\<rparr>" for c rs
    using t snapshot_seed [OF assms(1,2)] snapshot_cases [of vt rid l] by (cases view; force)+
  let ?start = "replay_start_of terminal after"
  obtain rp where rp: "attachment_replay_page rid m ?start ?head = Some (Inr rp)" "page_good h ?start ?head rp"
    using attachment_page [OF assms(4)] by blast
  let ?evicted = "is_basic_vt terminal \<and> rp_first_available_byte rp > ?start"
  define sn where "sn = \<lparr>as_run = info\<lparr>ri_latest_output_bytes := ?head, ri_first_available_byte := rp_first_available_byte rp\<rparr>,
     as_replay = rp, as_terminal = (if ?evicted then ContinuationUnavailable TailEvicted else terminal),
     as_terminal_restore = (if ?evicted then [] else restore), as_resize_revision = ol_resize_revision l\<rparr>"
  have "attachment_snapshot vt rid info l m after view = Some (Inr sn, l')"
    using t rp(1) keep(1,2) by (simp add: attachment_snapshot_def sn_def Let_def)
  moreover have "snapshot_good h rid ?head after view sn"
  proof (cases ?evicted)
    case True
    then have "view = TerminalView" using keep(3) by (cases view) (auto simp: is_basic_vt_def)
    then have "page_good h after ?head rp" using page_good_start [OF rp(2), of after] True assms(5) by simp
    then show ?thesis using True assms(3) \<open>view = TerminalView\<close> by (simp add: snapshot_good_def sn_def replay_start_of_def is_basic_vt_def)
  next
    case False
    then show ?thesis using assms(3) keep(3,4,5) rp(2)
      by (auto simp: snapshot_good_def sn_def is_basic_vt_def replay_start_of_def split: terminal_continuation.splits)
  qed
  ultimately show ?thesis by blast
qed

lemma seed_received:
  assumes "snapshot_good h rid head after view sn" "0 < n" "alloc (length (as_terminal_restore sn))" "length (as_terminal_restore sn) \<le> limit"
  shows "receive_terminal_seed alloc limit after (snapshot_of_header (fst (split_snapshot sn))) (map Inr (restore_frames n (as_terminal_restore sn)) @ rest)
    = Inr (replay_start_of (as_terminal sn) after, (snapshot_of_header (fst (split_snapshot sn)))\<lparr>as_terminal_restore := as_terminal_restore sn\<rparr>, rest)"
proof (cases "is_basic_vt (as_terminal sn)")
  case False
  then have "as_terminal_restore sn = []" using assms(1) by (simp add: snapshot_good_def)
  then show ?thesis using False
    by (simp add: receive_terminal_seed_def snapshot_of_header_def split_snapshot_def restore_frames_def div_ceil_def replay_start_of_def is_basic_vt_def
        split: terminal_continuation.splits)
next
  case True
  then obtain c rs where c: "as_terminal sn = BasicVt c rs" by (auto simp: is_basic_vt_def split: terminal_continuation.splits)
  let ?saved = "\<lparr>sc_checkpoint = c, sc_restore = as_terminal_restore sn, sc_resizes = rs\<rparr>"
  have ok: "saved_ok rid head (as_resize_revision sn) ?saved" "rp_first_available_byte (as_replay sn) \<le> cp_through_byte c"
    "rp_latest_output_bytes (as_replay sn) = head" "ri_id (as_run sn) = rid"
    using assms(1) c by (simp_all add: snapshot_good_def page_good_def Let_def)
  then have small: "length (as_terminal_restore sn) \<le> U64_MAX" "length (as_terminal_restore sn) \<le> USIZE_MAX"
    by (simp_all add: saved_ok_def MAX_RESTORE_BYTES_def max_values Let_def)
  have restore: "receive_restore (cp_restore_bytes c) [] (map Inr (restore_frames n (as_terminal_restore sn)) @ rest) = Inr (as_terminal_restore sn, rest)"
    using receive_restored [OF assms(2) small(1), of rest] ok(1) by (simp add: saved_ok_def Let_def)
  have "reserve_restore alloc limit (cp_restore_bytes c) = Inr ()"
    using ok(1) assms(3,4) small(2) by (simp add: reserve_restore_def saved_ok_def usize_try_from_def Let_def)
  moreover have "(case cp_restore_scrollback_rows c of None \<Rightarrow> Inr ()
      | Some n \<Rightarrow> (case usize_try_from n of None \<Rightarrow> Inl (TerminalSeedResource (HostScrollbackCapacity n)) | Some _ \<Rightarrow> Inr ())) = Inr ()"
    using ok(1) by (auto simp: saved_ok_def usize_try_from_def Let_def split: option.splits)
  ultimately show ?thesis
    using c ok restore
    by (auto simp: receive_terminal_seed_def snapshot_of_header_def split_snapshot_def checkpoint_fence_ok_def saved_ok_def replay_start_of_def Let_def)
qed

text \<open>The client's final snapshot against the daemon's first one.\<close>

definition reassembled :: "byte list \<Rightarrow> u64 \<Rightarrow> u64 \<Rightarrow> attached_snapshot \<Rightarrow> attached_snapshot \<Rightarrow> bool" where
  "reassembled h head after sn sn' \<longleftrightarrow>
     as_terminal sn' = as_terminal sn \<and> as_terminal_restore sn' = as_terminal_restore sn \<and> as_resize_revision sn' = as_resize_revision sn
     \<and> rp_latest_output_bytes (as_replay sn') = head
     \<and> (let start = max (replay_start_of (as_terminal sn) after) (rp_first_available_byte (as_replay sn'))
        in contiguous start (rp_chunks (as_replay sn')) \<and> chunk_bytes (rp_chunks (as_replay sn')) = hist h start head)
     \<and> (rp_first_available_byte (as_replay sn') = rp_first_available_byte (as_replay sn)
        \<or> \<not> is_basic_vt (as_terminal sn) \<and> rp_first_available_byte (as_replay sn) < rp_first_available_byte (as_replay sn')
          \<and> rp_truncated (as_replay sn') \<and> ri_first_available_byte (as_run sn') = rp_first_available_byte (as_replay sn'))"

lemma reassembled_arrived:
  assumes "arrived h (max (replay_start_of (as_terminal sn) after) (rp_first_available_byte (as_replay sn))) a' sn0 sn'"
    "as_terminal sn0 = as_terminal sn" "as_terminal_restore sn0 = as_terminal_restore sn" "as_resize_revision sn0 = as_resize_revision sn"
    "rp_latest_output_bytes (as_replay sn0) = head" "rp_first_available_byte (as_replay sn0) = rp_first_available_byte (as_replay sn)"
  shows "reassembled h head after sn sn'"
proof -
  let ?start = "replay_start_of (as_terminal sn) after" and ?f = "rp_first_available_byte (as_replay sn)"
  have span: "spans h a' head (rp_chunks (as_replay sn'))" "max ?start ?f \<le> a'" using assms by (simp_all add: arrived_def)
  have "max ?start (rp_first_available_byte (as_replay sn')) = a'" using assms span(2) by (auto simp: arrived_def split: if_splits)
  then show ?thesis using assms span by (auto simp: reassembled_def arrived_def spans_def Let_def split: if_splits)
qed

lemma replay_received:
  assumes good: "snapshot_good h rid head after view sn"
    and pages: "\<And>k c. c < head \<Longrightarrow> \<exists>rp. pages k c = Some (Inr rp) \<and> page_good h c head rp"
    and fs: "attachment_frames True n pages after sn = Some (fs, True)"
    and seed: "0 < n" "alloc (length (as_terminal_restore sn))" "length (as_terminal_restore sn) \<le> limit"
  shows "\<exists>sn'. receive_attached alloc limit rid after view (map Inr fs @ rest) = Inr (sn', rest) \<and> reassembled h head after sn sn'"
proof -
  let ?start = "replay_start_of (as_terminal sn) after" and ?f = "rp_first_available_byte (as_replay sn)" and ?cs = "rp_chunks (as_replay sn)"
  define sn0 where "sn0 = (snapshot_of_header (fst (split_snapshot sn)))\<lparr>as_terminal_restore := as_terminal_restore sn\<rparr>"
  have head: "rp_latest_output_bytes (as_replay sn) = head" and page: "page_good h ?start head (as_replay sn)"
    using good by (simp_all add: snapshot_good_def page_good_def Let_def)
  have sn0: "as_terminal sn0 = as_terminal sn" "as_terminal_restore sn0 = as_terminal_restore sn" "as_resize_revision sn0 = as_resize_revision sn"
    "rp_latest_output_bytes (as_replay sn0) = head" "rp_first_available_byte (as_replay sn0) = ?f" "rp_chunks (as_replay sn0) = []"
    using head by (simp_all add: sn0_def snapshot_of_header_def split_snapshot_def)
  let ?cursor = "if ?cs = [] then max ?start ?f else end_byte (last ?cs)"
  obtain more where more: "send_pages pages (is_basic_vt (as_terminal sn)) 0 ?cursor head = Some (more, True)"
    and fs_eq: "fs = AttachedFrame (fst (split_snapshot sn)) # restore_frames n (as_terminal_restore sn) @ send_replay ?cs @ more"
    using fs head by (auto simp: attachment_frames_def split_snapshot_def Let_def split: if_splits prod.splits)
  let ?hd = "fst (split_snapshot sn)" and ?w = "map Inr (send_replay ?cs @ more) @ rest"
  have hd: "ri_id (ah_run ?hd) = rid" "(ah_terminal ?hd = NotRequested) = (view = RawView)"
    using good by (simp_all add: split_snapshot_def snapshot_good_def)
  have seed_in: "receive_terminal_seed alloc limit after (snapshot_of_header ?hd) (map Inr (restore_frames n (as_terminal_restore sn)) @ ?w) = Inr (?start, sn0, ?w)"
    using seed_received [where alloc = alloc, OF good seed, of ?w] by (simp add: sn0_def)
  have front: "receive_attached alloc limit rid after view (map Inr fs @ rest)
      = (if max ?start ?f \<ge> head then Inr (sn0, ?w) else receive_pages (max ?start ?f) sn0 ?w)"
    using hd seed_in sn0(4-6) by (auto simp: receive_attached_def fs_eq receive_replay_def Let_def)
  show ?thesis
  proof (cases "max ?start ?f \<ge> head")
    case True
    then have "?cs = []" using page by (auto simp: page_good_def Let_def)
    then have "more = []" using more True by simp
    moreover have "reassembled h head after sn sn0"
      using sn0 True by (auto simp: reassembled_def hist_def Let_def)
    ultimately show ?thesis using front True \<open>?cs = []\<close> by (simp add: send_replay_def)
  next
    case False
    then obtain stop where stop: "?cs \<noteq> []" "stop \<le> head" "spans h (max ?start ?f) stop ?cs"
      using page by (auto simp: page_good_def Let_def)
    then have cont: "contiguous (max ?start ?f) ?cs" "chunks_end (max ?start ?f) ?cs = stop" by (simp_all add: spans_def)
    have cursor: "?cursor = stop" using contiguous_last [OF cont(1) stop(1)] cont(2) stop(1) by simp
    have got: "receive_attached alloc limit rid after view (map Inr fs @ rest)
        = (if stop = head then Inr (push_chunks ?cs sn0, map Inr more @ rest) else receive_pages stop (push_chunks ?cs sn0) (map Inr more @ rest))"
      using front False receive_outputs [OF cont(1) stop(1), of sn0 "map Inr more @ rest"] cont(2) stop(2) sn0(4) by simp
    show ?thesis
    proof (cases "stop = head")
      case True
      have "more = []" using more cursor True by (simp add: send_pages.simps)
      moreover have "arrived h (max ?start ?f) (max ?start ?f) sn0 (push_chunks ?cs sn0)"
        using arrived_pushed [of h "max ?start ?f" "max ?start ?f" sn0 ?cs] stop(3) True sn0 by simp
      ultimately show ?thesis using got True reassembled_arrived [OF _ sn0(1-5)] by auto
    next
      case False
      have "\<exists>sn' a'. receive_pages stop (push_chunks ?cs sn0) (map Inr more @ rest) = Inr (sn', rest) \<and> arrived h (max ?start ?f) a' (push_chunks ?cs sn0) sn'"
        using receive_sent_pages [where sn = "push_chunks ?cs sn0" and k = 0 and c = stop and fs = more and a = "max ?start ?f", OF pages]
          more cursor stop False sn0 by (auto simp: push_chunks_def)
      then show ?thesis using got False reassembled_arrived [OF arrived_push_chunks sn0(1-5)] by auto
    qed
  qed
qed


text \<open>A Run that has written four bytes, all still in memory, attached from its second byte.\<close>

definition blank_vt :: "nat vt_parser" where
  "blank_vt = \<lparr>vt_new = (\<lambda>_ _ _. None), vt_advance = (\<lambda>p _. Some p), vt_set_size = (\<lambda>p _ _. Some p), vt_size = (\<lambda>_. (24, 80)),
     vt_is_ground = (\<lambda>_. False), vt_set_scrollback_limit = (\<lambda>p _. Some p), vt_geometry = (\<lambda>_. None)\<rparr>"

definition four_log :: "nat output_log" where
  "four_log = admit_chunk [5, 6, 7, 8] log_new"

definition four_moment :: "nat moment" where
  "four_moment = \<lparr>mo_log = four_log, mo_store = None, mo_later_log = four_log\<rparr>"

definition four_info :: run_info where
  "four_info = \<lparr>ri_id = 7, ri_state = Running, ri_native_service = None, ri_latest_output_bytes = 0, ri_first_available_byte = 0\<rparr>"

lemma four_log_of: "log_of [5, 6, 7, 8] four_log" "latest_output_bytes four_log = 4" "ol_terminal four_log = None"
proof -
  have new: "log_ok (log_new :: nat output_log)" "log_window (log_new :: nat output_log) = []" "first_available_byte (log_new :: nat output_log) = 0"
    by (simp_all add: log_ok_def log_new_def ring_start_def log_window_def facts_current_def first_available_byte_def)
  have a: "log_ok four_log" "log_window four_log = [5, 6, 7, 8]" "first_available_byte four_log = 0"
    unfolding four_log_def using admit_chunk_spec [OF new(1), of "[5, 6, 7, 8]"] new(2,3) by (simp_all add: log_new_def max_values)
  then show "latest_output_bytes four_log = 4" using log_ok_window(1) [OF a(1)] by simp
  then show "log_of [5, 6, 7, 8] four_log" using a by (simp add: log_of_def hist_def)
  show "ol_terminal four_log = None" by (simp add: four_log_def admit_chunk_def log_new_def publish_facts_def Let_def)
qed


section \<open>Resuming a Terminal view above an evicted seed\<close>

text \<open>
  The exception to the exactness of an attach.  A Terminal view is requested above byte 0; its last checkpoint, below
  that byte, is still covered when the snapshot starts and evicted when the page is cut.  The daemon falls back to an
  unavailable seed but sends the page it cut for the seed, which starts at the floor; the client, told there is no
  seed, expects the byte it asked for and rejects the first frame.
\<close>

definition evicted_model :: "nat terminal_model" where
  "evicted_model = \<lparr>tm_parser = 0, tm_checkpoint = Some (stored_of_seed 7 0 0
      \<lparr>seed_source_rows = 24, seed_source_cols = 80, seed_rows = 24, seed_cols = 80, seed_restore_bytes = [27], seed_final_bytes = [],
        seed_scrollback_rows = None\<rparr>), tm_resize_revision = 0, tm_geometry_valid = True\<rparr>"

definition full_log :: "nat output_log" where
  "full_log = log_new\<lparr>ol_chunks := [\<lparr>start_byte = 0, end_byte = 4, chunk_data = [5, 6, 7, 8]\<rparr>], retained_bytes := 4, latest_output_bytes := 4,
     ol_terminal := Some evicted_model\<rparr>"

definition trimmed_log :: "nat output_log" where
  "trimmed_log = log_new\<lparr>ol_chunks := [\<lparr>start_byte = 2, end_byte = 4, chunk_data = [7, 8]\<rparr>], retained_bytes := 2, latest_output_bytes := 4\<rparr>"

lemma terminal_resume_rejected:
  "\<exists>sn l' fs. attachment_snapshot blank_vt 7 four_info full_log \<lparr>mo_log = trimmed_log, mo_store = None, mo_later_log = trimmed_log\<rparr> 3 TerminalView
        = Some (Inr sn, l')
     \<and> attachment_frames True 16 (\<lambda>k c. attachment_replay_page 7 \<lparr>mo_log = trimmed_log, mo_store = None, mo_later_log = trimmed_log\<rparr> c 4) 3 sn = Some (fs, True)
     \<and> receive_attached (\<lambda>_. True) 100 7 3 TerminalView (map Inr fs) = Inl (UnexpectedFrame ''expected ordered replay output'')"
proof -
  let ?m = "\<lparr>mo_log = trimmed_log, mo_store = None, mo_later_log = trimmed_log\<rparr>"
  have page: "attachment_replay_page 7 ?m 0 4 = Some (Inr \<lparr>rp_chunks = [\<lparr>start_byte = 2, end_byte = 4, chunk_data = [7, 8]\<rparr>],
      rp_first_available_byte = 2, rp_latest_output_bytes = 4, rp_truncated = True\<rparr>)"
    by (simp add: attachment_replay_page_def replay_page_def trimmed_log_def log_new_def first_available_byte_def slice_get_def saturating_add_def max_values Let_def)
  have snap: "terminal_snapshot blank_vt 7 full_log = ((BasicVt (sc_checkpoint (the (tm_checkpoint evicted_model))) [], [27]), full_log)"
    by (simp add: terminal_snapshot_def log_derive_terminal_def full_log_def log_new_def tm_continuation_def tm_cut_def vt_geometry_checkpoint_def blank_vt_def
        evicted_model_def stored_of_seed_def first_available_byte_def Let_def)
  have full: "latest_output_bytes full_log = 4" "ol_resize_revision full_log = 0" "cp_through_byte (sc_checkpoint (the (tm_checkpoint evicted_model))) = 0"
    by (simp_all add: full_log_def log_new_def evicted_model_def stored_of_seed_def)
  let ?sn = "\<lparr>as_run = four_info\<lparr>ri_latest_output_bytes := 4, ri_first_available_byte := 2\<rparr>,
     as_replay = \<lparr>rp_chunks = [\<lparr>start_byte = 2, end_byte = 4, chunk_data = [7, 8]\<rparr>], rp_first_available_byte = 2, rp_latest_output_bytes = 4, rp_truncated = True\<rparr>,
     as_terminal = ContinuationUnavailable TailEvicted, as_terminal_restore = [], as_resize_revision = 0\<rparr>"
  have "attachment_snapshot blank_vt 7 four_info full_log ?m 3 TerminalView = Some (Inr ?sn, full_log)"
    using page full by (simp add: attachment_snapshot_def snap replay_start_of_def is_basic_vt_def Let_def)
  moreover have "attachment_frames True 16 pages 3 ?sn
      = Some ([AttachedFrame (fst (split_snapshot ?sn)), EventFrame (EvOutput \<lparr>start_byte = 2, end_byte = 4, chunk_data = [7, 8]\<rparr>)], True)" for pages
    by (simp add: attachment_frames_def split_snapshot_def replay_start_of_def restore_frames_def div_ceil_def send_replay_def)
  moreover have "receive_attached (\<lambda>_. True) 100 7 3 TerminalView
      (map Inr [AttachedFrame (fst (split_snapshot ?sn)), EventFrame (EvOutput \<lparr>start_byte = 2, end_byte = 4, chunk_data = [7, 8]\<rparr>)])
      = Inl (UnexpectedFrame ''expected ordered replay output'')"
    by (simp add: receive_attached_def split_snapshot_def snapshot_of_header_def receive_replay_def receive_terminal_seed_def four_info_def Let_def)
  ultimately show ?thesis by blast
qed

end
