(* ===== verification/Event_Inbox.thy ===== *)
theory Event_Inbox
  imports Client_Types Assoc_Lists
begin

text \<open>
  The inbox between the reader task of an attachment and its one event consumer (\<^verbatim>\<open>EventInbox\<close> of
  \<^verbatim>\<open>crates/ctxmux-client/src/attachment.rs\<close>): two byte windows, output that does not fit turned into a gap, other events
  that do not fit turned into the loss of the observation, progress snapshots coalesced, and the order in which the
  consumer is served.

  Parameters: the sizes of the two Rust types the source measures (\<open>layout\<close>) and what \<^verbatim>\<open>try_reserve_exact\<close> answers,
  the new capacity of the queue or a failure (\<open>grow\<close>).
\<close>

section \<open>Events and limits\<close>

text \<open>A decoded event with the spare capacity of the one buffer it owns (a \<^verbatim>\<open>Vec\<close> or a \<^verbatim>\<open>String\<close>); zero when it owns none.\<close>

record view_event =
  ve_event :: run_event
  ve_spare :: nat

record attachment_event_limits =
  el_payload_bytes :: usize
  el_envelope_bytes :: usize

record layout =
  size_of_inbox :: usize
  size_of_event :: usize

definition default_event_limits :: attachment_event_limits where
  "default_event_limits = \<lparr>el_payload_bytes = MAX_FRAME_BYTES, el_envelope_bytes = MAX_FRAME_BYTES\<rparr>"

definition validate_event_limits :: "layout \<Rightarrow> attachment_event_limits \<Rightarrow> client_error + unit" where
  "validate_event_limits lay lim =
     (if el_payload_bytes lim = 0 \<or> el_envelope_bytes lim < size_of_inbox lay
         \<or> (case checked_add (el_payload_bytes lim) (el_envelope_bytes lim) of None \<Rightarrow> True | Some n \<Rightarrow> n > I64_MAX)
      then Inl InvalidAttachmentEventLimits else Inr ())"

fun event_bytes :: "run_event \<Rightarrow> nat" where
  "event_bytes (EvOutput chunk) = length (chunk_data chunk)"
| "event_bytes (EvTmux (SessionRenamed name)) = length name"
| "event_bytes _ = 0"

definition event_envelope_payload_bytes :: "view_event \<Rightarrow> nat" where
  "event_envelope_payload_bytes e =
     (case ve_event e of
        EvOutput _ \<Rightarrow> ve_spare e
      | EvTmux (SessionRenamed _) \<Rightarrow> ve_spare e
      | EvExited (Exited _ (Some signal)) \<Rightarrow> length signal + ve_spare e
      | _ \<Rightarrow> 0)"

fun is_terminal_event :: "run_event \<Rightarrow> bool" where
  "is_terminal_event (EvExited _) = True"
| "is_terminal_event (EvInterrupted _) = True"
| "is_terminal_event _ = False"

section \<open>Causes of a gap\<close>

definition CAUSES_CLIENT_VIEW_PRESSURE :: output_gap_causes where
  "CAUSES_CLIENT_VIEW_PRESSURE = CAUSES_NONE\<lparr>client_view_pressure := True\<rparr>"

definition causes_union :: "output_gap_causes \<Rightarrow> output_gap_causes \<Rightarrow> output_gap_causes" where
  "causes_union a b =
     \<lparr>live_event_pressure = (live_event_pressure a \<or> live_event_pressure b), subscriber_lag = (subscriber_lag a \<or> subscriber_lag b),
      source_discontinuity = (source_discontinuity a \<or> source_discontinuity b), terminal_catchup = (terminal_catchup a \<or> terminal_catchup b),
      geometry_lag = (geometry_lag a \<or> geometry_lag b), client_view_pressure = (client_view_pressure a \<or> client_view_pressure b),
      unknown_cause = (unknown_cause a \<or> unknown_cause b)\<rparr>"

section \<open>State\<close>

datatype local_observation = ObservationAvailable | LostMarkerPending | LostMarkerDelivered

record inbox =
  ib_queue :: "view_event list"
  ib_capacity :: nat
  ib_queued_bytes :: usize
  ib_envelope_payload_bytes :: usize
  ib_pending_gap :: "(u64 \<times> output_gap_causes) option"
  ib_local_observation :: local_observation
  ib_terminal :: "view_event option"
  ib_saw_terminal :: bool
  ib_saw_discontinuity :: bool
  ib_closed :: bool
  ib_error :: "client_error option"
  ib_observation_unavailable :: bool
  ib_consumer_active :: bool

definition inbox_with_limits :: inbox where
  "inbox_with_limits = \<lparr>ib_queue = [], ib_capacity = 0, ib_queued_bytes = 0, ib_envelope_payload_bytes = 0, ib_pending_gap = None,
     ib_local_observation = ObservationAvailable, ib_terminal = None, ib_saw_terminal = False, ib_saw_discontinuity = False,
     ib_closed = False, ib_error = None, ib_observation_unavailable = False, ib_consumer_active = False\<rparr>"

definition mark_observation_loss :: "attachment_event_limits \<Rightarrow> inbox \<Rightarrow> inbox" where
  "mark_observation_loss lim ib =
     ib\<lparr>ib_local_observation := LostMarkerPending, ib_closed := True,
        ib_error := Some (AttachmentObservationUnavailable (el_payload_bytes lim) (el_envelope_bytes lim)), ib_observation_unavailable := True\<rparr>"

section \<open>Reserving slots\<close>

definition slots_maximum :: "layout \<Rightarrow> attachment_event_limits \<Rightarrow> nat \<Rightarrow> nat option" where
  "slots_maximum lay lim extra =
     map_option (\<lambda>available. available div size_of_event lay)
       (Option.bind (checked_sub (el_envelope_bytes lim) (size_of_inbox lay)) (\<lambda>n. checked_sub n extra))"

definition reserve_slots ::
  "layout \<Rightarrow> attachment_event_limits \<Rightarrow> (nat \<Rightarrow> nat option) \<Rightarrow> nat \<Rightarrow> nat \<Rightarrow> inbox \<Rightarrow> bool \<times> inbox" where
  "reserve_slots lay lim grow additional payload ib =
     (case checked_add (length (ib_queue ib)) additional of None \<Rightarrow> (False, ib) | Some required \<Rightarrow>
      case checked_add (ib_envelope_payload_bytes ib) payload of None \<Rightarrow> (False, ib) | Some extra \<Rightarrow>
      case slots_maximum lay lim extra of None \<Rightarrow> (False, ib) | Some maximum \<Rightarrow>
        if required > maximum \<or> ib_capacity ib > maximum then (False, ib)
        else if required > ib_capacity ib then
          (case grow (min (max (saturating_mul (ib_capacity ib) 2) required) maximum - length (ib_queue ib)) of
             None \<Rightarrow> (False, ib)
           | Some capacity \<Rightarrow> (capacity \<le> maximum, ib\<lparr>ib_capacity := capacity\<rparr>))
        else (True, ib))"

section \<open>Coalescing progress\<close>

definition input_progress :: "service_snapshot \<Rightarrow> service_snapshot \<Rightarrow> bool" where
  "input_progress previous later \<longleftrightarrow>
     \<not> (sv_revision later \<le> sv_revision previous
        \<or> sv_owner later \<noteq> sv_owner previous
        \<or> sv_output later \<noteq> sv_output previous
        \<or> sv_terminal_fault later \<noteq> sv_terminal_fault previous
        \<or> in_phase (sv_input later) \<noteq> in_phase (sv_input previous)
        \<or> unsettled_commands (sv_input later) = 0
        \<or> unsettled_commands (sv_input later) \<noteq> unsettled_commands (sv_input previous)
        \<or> unsettled_request_bytes (sv_input later) \<noteq> unsettled_request_bytes (sv_input previous)
        \<or> write_blocked (sv_input later) \<noteq> write_blocked (sv_input previous)
        \<or> completed_input_bytes (sv_input later) \<noteq> completed_input_bytes (sv_input previous)
        \<or> current_size (sv_input later) \<noteq> current_size (sv_input previous)
        \<or> active_confirmed_bytes (sv_input later) \<le> active_confirmed_bytes (sv_input previous))"

definition replace_input_progress :: "run_event \<Rightarrow> inbox \<Rightarrow> inbox option" where
  "replace_input_progress event ib =
     (case (ib_pending_gap ib, event, rev (ib_queue ib)) of
        (None, EvServiceChanged later, newest # _) \<Rightarrow>
          (case ve_event newest of
             EvServiceChanged previous \<Rightarrow>
               if input_progress previous later
               then Some (ib\<lparr>ib_queue := butlast (ib_queue ib) @ [newest\<lparr>ve_event := EvServiceChanged later\<rparr>]\<rparr>)
               else None
           | _ \<Rightarrow> None)
      | _ \<Rightarrow> None)"

section \<open>Pushing an event\<close>

definition retain_pending_gap :: "inbox \<Rightarrow> inbox" where
  "retain_pending_gap ib =
     (case ib_pending_gap ib of
        None \<Rightarrow> ib
      | Some (latest, causes) \<Rightarrow> ib\<lparr>ib_pending_gap := None, ib_queue := ib_queue ib @ [\<lparr>ve_event = EvGap latest causes, ve_spare = 0\<rparr>]\<rparr>)"

definition note_gap :: "u64 \<Rightarrow> output_gap_causes \<Rightarrow> inbox \<Rightarrow> inbox" where
  "note_gap latest causes ib =
     (let (head, previous) = (case ib_pending_gap ib of None \<Rightarrow> (0, CAUSES_NONE) | Some g \<Rightarrow> g)
      in ib\<lparr>ib_pending_gap := Some (max head latest, causes_union previous causes)\<rparr>)"

definition admit_event :: "layout \<Rightarrow> attachment_event_limits \<Rightarrow> (nat \<Rightarrow> nat option) \<Rightarrow> view_event \<Rightarrow> inbox \<Rightarrow> bool \<times> inbox" where
  "admit_event lay lim grow e ib =
     (if (case checked_add (ib_queued_bytes ib) (event_bytes (ve_event e)) of None \<Rightarrow> True | Some n \<Rightarrow> n > el_payload_bytes lim)
      then (False, ib)
      else reserve_slots lay lim grow (1 + (if ib_pending_gap ib \<noteq> None then 1 else 0)) (event_envelope_payload_bytes e) ib)"

definition append_event :: "view_event \<Rightarrow> inbox \<Rightarrow> inbox" where
  "append_event e ib =
     ib\<lparr>ib_queued_bytes := ib_queued_bytes ib + event_bytes (ve_event e),
        ib_envelope_payload_bytes := ib_envelope_payload_bytes ib + event_envelope_payload_bytes e,
        ib_queue := ib_queue ib @ [e]\<rparr>"

definition terminal_funded :: "layout \<Rightarrow> attachment_event_limits \<Rightarrow> nat \<Rightarrow> inbox \<Rightarrow> bool" where
  "terminal_funded lay lim envelope ib =
     (case Option.bind (checked_add (size_of_inbox lay) (ib_capacity ib * size_of_event lay)) (\<lambda>n.
             Option.bind (checked_add n (ib_envelope_payload_bytes ib)) (\<lambda>n. checked_add n envelope)) of
        None \<Rightarrow> False
      | Some n \<Rightarrow> n \<le> el_envelope_bytes lim)"

definition retain_terminal :: "layout \<Rightarrow> attachment_event_limits \<Rightarrow> (nat \<Rightarrow> nat option) \<Rightarrow> view_event \<Rightarrow> inbox \<Rightarrow> inbox" where
  "retain_terminal lay lim grow e ib0 =
     (let ib1 = ib0\<lparr>ib_saw_terminal := True\<rparr>;
          envelope = event_envelope_payload_bytes e;
          (reserved, ib) = (if ib_pending_gap ib1 = None \<and> ib_terminal ib1 = None then reserve_slots lay lim grow 1 envelope ib1 else (False, ib1))
      in if reserved
         then ib\<lparr>ib_envelope_payload_bytes := ib_envelope_payload_bytes ib + envelope, ib_queue := ib_queue ib @ [e]\<rparr>
         else if terminal_funded lay lim envelope ib
         then ib\<lparr>ib_envelope_payload_bytes := ib_envelope_payload_bytes ib + envelope, ib_terminal := Some e\<rparr>
         else mark_observation_loss lim ib)"

definition push_lost :: "run_event \<Rightarrow> inbox \<Rightarrow> inbox" where
  "push_lost event ib =
     (if is_terminal_event event then ib\<lparr>ib_saw_terminal := True\<rparr>
      else if event = EvObservationDiscontinuity then ib\<lparr>ib_saw_discontinuity := True\<rparr>
      else ib)"

definition push_retained :: "layout \<Rightarrow> attachment_event_limits \<Rightarrow> (nat \<Rightarrow> nat option) \<Rightarrow> view_event \<Rightarrow> inbox \<Rightarrow> inbox" where
  "push_retained lay lim grow e ib0 =
     (case ve_event e of
        EvOutput chunk \<Rightarrow>
          (let (admitted, ib) = admit_event lay lim grow e ib0
           in if admitted then append_event e (retain_pending_gap ib) else note_gap (end_byte chunk) CAUSES_CLIENT_VIEW_PRESSURE ib)
      | EvGap latest causes \<Rightarrow> note_gap latest causes ib0
      | EvExited _ \<Rightarrow> retain_terminal lay lim grow e ib0
      | EvInterrupted _ \<Rightarrow> retain_terminal lay lim grow e ib0
      | event \<Rightarrow>
          (let ib1 = (if event = EvObservationDiscontinuity then ib0\<lparr>ib_saw_discontinuity := True\<rparr> else ib0);
               (admitted, ib) = admit_event lay lim grow e ib1
           in if admitted then append_event e (retain_pending_gap ib) else mark_observation_loss lim ib))"

definition inbox_push :: "layout \<Rightarrow> attachment_event_limits \<Rightarrow> (nat \<Rightarrow> nat option) \<Rightarrow> view_event \<Rightarrow> inbox \<Rightarrow> string + inbox" where
  "inbox_push lay lim grow e ib =
     (if ib_closed ib \<and> ib_local_observation ib = ObservationAvailable then Inl ''daemon sent an event after attachment termination''
      else if ib_saw_terminal ib then Inl ''daemon sent an event after terminal lifecycle''
      else if ib_saw_discontinuity ib \<and> \<not> is_terminal_event (ve_event e)
      then Inl ''daemon sent a non-terminal event after observation discontinuity''
      else if ib_local_observation ib \<noteq> ObservationAvailable then Inr (push_lost (ve_event e) ib)
      else case replace_input_progress (ve_event e) ib of
             Some replaced \<Rightarrow> Inr replaced
           | None \<Rightarrow> Inr (push_retained lay lim grow e ib))"

definition accepts_clean_eof :: "inbox \<Rightarrow> bool" where
  "accepts_clean_eof ib \<longleftrightarrow> ib_saw_terminal ib \<or> ib_saw_discontinuity ib"

definition inbox_close :: "client_error option \<Rightarrow> inbox \<Rightarrow> inbox" where
  "inbox_close failure ib = (if ib_closed ib then ib else ib\<lparr>ib_closed := True, ib_error := failure\<rparr>)"

section \<open>The consumer\<close>

text \<open>One turn of the loop of \<^verbatim>\<open>next\<close> under the state lock: \<open>None\<close> waits for the next notification.\<close>

definition next_poll :: "inbox \<Rightarrow> (client_error + run_event option) option \<times> inbox" where
  "next_poll ib =
     (case ib_queue ib of
        e # queue \<Rightarrow>
          (Some (Inr (Some (ve_event e))),
           ib\<lparr>ib_queue := queue, ib_queued_bytes := ib_queued_bytes ib - event_bytes (ve_event e),
              ib_envelope_payload_bytes := ib_envelope_payload_bytes ib - event_envelope_payload_bytes e\<rparr>)
      | [] \<Rightarrow>
     (case ib_pending_gap ib of
        Some (latest, causes) \<Rightarrow> (Some (Inr (Some (EvGap latest causes))), ib\<lparr>ib_pending_gap := None\<rparr>)
      | None \<Rightarrow>
      if ib_local_observation ib = LostMarkerPending
      then (Some (Inr (Some EvObservationDiscontinuity)), ib\<lparr>ib_local_observation := LostMarkerDelivered\<rparr>)
      else
     (case ib_terminal ib of
        Some e \<Rightarrow>
          (Some (Inr (Some (ve_event e))),
           ib\<lparr>ib_terminal := None, ib_envelope_payload_bytes := ib_envelope_payload_bytes ib - event_envelope_payload_bytes e\<rparr>)
      | None \<Rightarrow>
     (case ib_error ib of
        Some failure \<Rightarrow> (Some (Inl failure), ib\<lparr>ib_error := None\<rparr>)
      | None \<Rightarrow> (if ib_closed ib then Some (Inr None) else None, ib)))))"

definition consumer_acquire :: "inbox \<Rightarrow> client_error + inbox" where
  "consumer_acquire ib = (if ib_consumer_active ib then Inl ConcurrentEventRead else Inr (ib\<lparr>ib_consumer_active := True\<rparr>))"

definition consumer_release :: "inbox \<Rightarrow> inbox" where
  "consumer_release ib = ib\<lparr>ib_consumer_active := False\<rparr>"


section \<open>Windows\<close>

definition windows_ok :: "layout \<Rightarrow> attachment_event_limits \<Rightarrow> inbox \<Rightarrow> bool" where
  "windows_ok lay lim ib \<longleftrightarrow>
     ib_queued_bytes ib = sum_list (map (event_bytes \<circ> ve_event) (ib_queue ib))
     \<and> ib_queued_bytes ib \<le> el_payload_bytes lim
     \<and> ib_envelope_payload_bytes ib = sum_list (map event_envelope_payload_bytes (ib_queue ib))
          + (case ib_terminal ib of None \<Rightarrow> 0 | Some e \<Rightarrow> event_envelope_payload_bytes e)
     \<and> size_of_inbox lay + length (ib_queue ib) * size_of_event lay + ib_envelope_payload_bytes ib \<le> el_envelope_bytes lim
     \<and> length (ib_queue ib) \<le> ib_capacity ib"

text \<open>What is documented of \<^verbatim>\<open>try_reserve_exact\<close>: on success there is room for the additional elements.\<close>

definition grows :: "(nat \<Rightarrow> nat option) \<Rightarrow> inbox \<Rightarrow> bool" where
  "grows grow ib \<longleftrightarrow> (\<forall>additional capacity. grow additional = Some capacity \<longrightarrow> length (ib_queue ib) + additional \<le> capacity)"

lemma slots_maximum_Some:
  "slots_maximum lay lim extra = Some m \<Longrightarrow> n \<le> m \<Longrightarrow> size_of_inbox lay + n * size_of_event lay + extra \<le> el_envelope_bytes lim"
proof -
  assume a: "slots_maximum lay lim extra = Some m" "n \<le> m"
  then have b: "size_of_inbox lay \<le> el_envelope_bytes lim" "extra \<le> el_envelope_bytes lim - size_of_inbox lay"
    "m = (el_envelope_bytes lim - size_of_inbox lay - extra) div size_of_event lay"
    by (auto simp: slots_maximum_def bind_eq_Some_conv)
  have "n * size_of_event lay \<le> el_envelope_bytes lim - size_of_inbox lay - extra"
    using mult_le_mono1 [OF a(2), of "size_of_event lay"] div_times_less_eq_dividend [of "el_envelope_bytes lim - size_of_inbox lay - extra" "size_of_event lay"]
    unfolding b(3) by linarith
  then show ?thesis using b(1,2) by linarith
qed

lemma reserve_slots_cases:
  assumes "reserve_slots lay lim grow additional payload ib = (reserved, ib')" "grows grow ib" "length (ib_queue ib) \<le> ib_capacity ib"
  shows "\<exists>capacity. ib' = ib\<lparr>ib_capacity := capacity\<rparr> \<and> length (ib_queue ib) \<le> capacity
    \<and> (reserved \<longrightarrow> length (ib_queue ib) + additional \<le> capacity
        \<and> size_of_inbox lay + (length (ib_queue ib) + additional) * size_of_event lay + (ib_envelope_payload_bytes ib + payload) \<le> el_envelope_bytes lim)"
proof (cases "length (ib_queue ib) + additional \<le> U64_MAX \<and> ib_envelope_payload_bytes ib + payload \<le> U64_MAX")
  case False
  then have "\<not> reserved" "ib' = ib" using assms(1) by (auto simp: reserve_slots_def split: option.splits)
  then show ?thesis using assms(3) by (intro exI [of _ "ib_capacity ib"]) auto
next
  case True
  then have adds: "checked_add (length (ib_queue ib)) additional = Some (length (ib_queue ib) + additional)"
    "checked_add (ib_envelope_payload_bytes ib) payload = Some (ib_envelope_payload_bytes ib + payload)" by simp_all
  let ?n = "length (ib_queue ib)" and ?maximum = "slots_maximum lay lim (ib_envelope_payload_bytes ib + payload)"
  show ?thesis
  proof (cases "\<exists>m. ?maximum = Some m \<and> ?n + additional \<le> m \<and> ib_capacity ib \<le> m")
    case False
    then have "\<not> reserved" "ib' = ib" using assms(1) by (auto simp: reserve_slots_def adds split: option.splits if_splits)
    then show ?thesis using assms(3) by (intro exI [of _ "ib_capacity ib"]) auto
  next
    case fits: True
    then obtain m where m: "?maximum = Some m" "?n + additional \<le> m" "ib_capacity ib \<le> m" by blast
    note funded = slots_maximum_Some [OF m(1,2)]
    show ?thesis
    proof (cases "?n + additional \<le> ib_capacity ib")
      case True
      then have "ib' = ib" using assms(1) m True by (auto simp: reserve_slots_def adds)
      then show ?thesis using assms(3) True funded by (intro exI [of _ "ib_capacity ib"]) auto
    next
      case grown: False
      let ?target = "min (max (saturating_mul (ib_capacity ib) 2) (?n + additional)) m"
      have target: "?n + additional \<le> ?target" using m(2) by simp
      show ?thesis
      proof (cases "grow (?target - ?n)")
        case None
        then have "\<not> reserved" "ib' = ib" using assms(1) m grown by (auto simp: reserve_slots_def adds)
        then show ?thesis using assms(3) by (intro exI [of _ "ib_capacity ib"]) auto
      next
        case (Some c)
        then have "?n + (?target - ?n) \<le> c" using assms(2) by (auto simp: grows_def)
        then have "?n + additional \<le> c" using target by linarith
        moreover have "ib' = ib\<lparr>ib_capacity := c\<rparr>" using assms(1) m grown Some by (auto simp: reserve_slots_def adds)
        ultimately show ?thesis using funded by (intro exI [of _ c]) auto
      qed
    qed
  qed
qed


text \<open>Admission by both windows at once.\<close>

lemma admit_event_cases:
  assumes "admit_event lay lim grow e ib = (admitted, ib')" "grows grow ib" "windows_ok lay lim ib"
  shows "\<exists>capacity. ib' = ib\<lparr>ib_capacity := capacity\<rparr> \<and> windows_ok lay lim ib'
     \<and> (admitted \<longrightarrow> windows_ok lay lim (append_event e (retain_pending_gap ib')))"
proof -
  have len: "length (ib_queue ib) \<le> ib_capacity ib" using assms(3) by (simp add: windows_ok_def)
  show ?thesis
  proof (cases "ib_queued_bytes ib + event_bytes (ve_event e) \<le> U64_MAX \<and> ib_queued_bytes ib + event_bytes (ve_event e) \<le> el_payload_bytes lim")
    case False
    then have "\<not> admitted" "ib' = ib" using assms(1) by (auto simp: admit_event_def split: option.splits if_splits)
    then show ?thesis using assms(3) by (intro exI [of _ "ib_capacity ib"]) auto
  next
    case True
    then have "reserve_slots lay lim grow (1 + (if ib_pending_gap ib \<noteq> None then 1 else 0)) (event_envelope_payload_bytes e) ib = (admitted, ib')"
      using assms(1) by (auto simp: admit_event_def split: option.splits if_splits)
    from reserve_slots_cases [OF this assms(2) len] obtain c where c: "ib' = ib\<lparr>ib_capacity := c\<rparr>" "length (ib_queue ib) \<le> c"
      "admitted \<Longrightarrow> length (ib_queue ib) + (1 + (if ib_pending_gap ib \<noteq> None then 1 else 0)) \<le> c"
      "admitted \<Longrightarrow> size_of_inbox lay + (length (ib_queue ib) + (1 + (if ib_pending_gap ib \<noteq> None then 1 else 0))) * size_of_event lay
         + (ib_envelope_payload_bytes ib + event_envelope_payload_bytes e) \<le> el_envelope_bytes lim"
      by blast
    have "windows_ok lay lim (append_event e (retain_pending_gap ib'))" if "admitted"
      using assms(3) True c(3,4) [OF that] unfolding c(1)
      by (cases "ib_pending_gap ib") (auto simp: windows_ok_def append_event_def retain_pending_gap_def event_envelope_payload_bytes_def algebra_simps)
    then show ?thesis using assms(3) c(1,2) by (intro exI [of _ c]) (auto simp: windows_ok_def)
  qed
qed

section \<open>The effect of one event\<close>

fun gap_like :: "run_event \<Rightarrow> bool" where
  "gap_like (EvOutput _) = True"
| "gap_like (EvGap _ _) = True"
| "gap_like _ = False"

fun gap_extend :: "run_event \<Rightarrow> u64 \<times> output_gap_causes \<Rightarrow> u64 \<times> output_gap_causes" where
  "gap_extend (EvOutput chunk) (head, causes) = (max head (end_byte chunk), causes_union causes CAUSES_CLIENT_VIEW_PRESSURE)"
| "gap_extend (EvGap latest added) (head, causes) = (max head latest, causes_union causes added)"
| "gap_extend _ g = g"

definition gap_events :: "(u64 \<times> output_gap_causes) option \<Rightarrow> run_event list" where
  "gap_events g = (case g of None \<Rightarrow> [] | Some (latest, causes) \<Rightarrow> [EvGap latest causes])"

definition queue_events :: "inbox \<Rightarrow> run_event list" where
  "queue_events ib = map ve_event (ib_queue ib)"

text \<open>What a push leaves unchanged of the flags.\<close>

definition flags_kept :: "run_event \<Rightarrow> inbox \<Rightarrow> inbox \<Rightarrow> bool" where
  "flags_kept event ib ib' \<longleftrightarrow>
     ib_local_observation ib' = ib_local_observation ib \<and> ib_closed ib' = ib_closed ib \<and> ib_error ib' = ib_error ib
     \<and> ib_observation_unavailable ib' = ib_observation_unavailable ib
     \<and> ib_saw_terminal ib' = (ib_saw_terminal ib \<or> is_terminal_event event)"

definition effect_kept :: "run_event \<Rightarrow> inbox \<Rightarrow> inbox \<Rightarrow> bool" where
  "effect_kept event ib ib' \<longleftrightarrow> flags_kept event ib ib' \<and> ib_terminal ib' = ib_terminal ib \<and> ib_pending_gap ib' = None
     \<and> queue_events ib' = queue_events ib @ gap_events (ib_pending_gap ib) @ [event]"

definition effect_gap :: "run_event \<Rightarrow> inbox \<Rightarrow> inbox \<Rightarrow> bool" where
  "effect_gap event ib ib' \<longleftrightarrow> flags_kept event ib ib' \<and> ib_terminal ib' = ib_terminal ib \<and> queue_events ib' = queue_events ib \<and> gap_like event
     \<and> ib_pending_gap ib' = Some (gap_extend event (case ib_pending_gap ib of None \<Rightarrow> (0, CAUSES_NONE) | Some g \<Rightarrow> g))"

definition effect_slot :: "run_event \<Rightarrow> inbox \<Rightarrow> inbox \<Rightarrow> bool" where
  "effect_slot event ib ib' \<longleftrightarrow> flags_kept event ib ib' \<and> is_terminal_event event \<and> queue_events ib' = queue_events ib
     \<and> ib_pending_gap ib' = ib_pending_gap ib \<and> map_option ve_event (ib_terminal ib') = Some event"

definition effect_lost :: "run_event \<Rightarrow> inbox \<Rightarrow> inbox \<Rightarrow> bool" where
  "effect_lost event ib ib' \<longleftrightarrow> \<not> gap_like event \<and> queue_events ib' = queue_events ib \<and> ib_pending_gap ib' = ib_pending_gap ib
     \<and> ib_terminal ib' = ib_terminal ib \<and> ib_local_observation ib' = LostMarkerPending \<and> ib_closed ib' \<and> ib_observation_unavailable ib'"

lemmas effect_defs = effect_kept_def effect_gap_def effect_slot_def effect_lost_def flags_kept_def queue_events_def

definition push_effect :: "layout \<Rightarrow> attachment_event_limits \<Rightarrow> run_event \<Rightarrow> inbox \<Rightarrow> inbox \<Rightarrow> bool" where
  "push_effect lay lim event ib ib' \<longleftrightarrow> windows_ok lay lim ib'
     \<and> (effect_kept event ib ib' \<or> effect_gap event ib ib' \<or> effect_slot event ib ib' \<or> effect_lost event ib ib')"

lemma windows_cong:
  "windows_ok lay lim ib \<Longrightarrow> ib_queue ib' = ib_queue ib \<Longrightarrow> ib_capacity ib' = ib_capacity ib \<Longrightarrow> ib_queued_bytes ib' = ib_queued_bytes ib
   \<Longrightarrow> ib_envelope_payload_bytes ib' = ib_envelope_payload_bytes ib \<Longrightarrow> ib_terminal ib' = ib_terminal ib \<Longrightarrow> windows_ok lay lim ib'"
  by (simp add: windows_ok_def)

lemma note_gap_effect:
  assumes "windows_ok lay lim (ib\<lparr>ib_capacity := c\<rparr>)"
  shows "push_effect lay lim (EvOutput chunk) ib (note_gap (end_byte chunk) CAUSES_CLIENT_VIEW_PRESSURE (ib\<lparr>ib_capacity := c\<rparr>))"
    and "push_effect lay lim (EvGap latest causes) ib (note_gap latest causes (ib\<lparr>ib_capacity := c\<rparr>))"
  using assms by (cases "ib_pending_gap ib"; auto simp: push_effect_def effect_defs note_gap_def windows_ok_def split: prod.splits)+

lemma append_event_effect:
  "\<not> is_terminal_event (ve_event e) \<Longrightarrow> effect_kept (ve_event e) ib (append_event e (retain_pending_gap (ib\<lparr>ib_saw_discontinuity := d, ib_capacity := c\<rparr>)))"
  by (cases "ib_pending_gap ib") (auto simp: effect_defs append_event_def retain_pending_gap_def gap_events_def)

lemma loss_effect:
  "\<not> gap_like event \<Longrightarrow> queue_events ib' = queue_events ib \<Longrightarrow> ib_pending_gap ib' = ib_pending_gap ib \<Longrightarrow> ib_terminal ib' = ib_terminal ib
   \<Longrightarrow> effect_lost event ib (mark_observation_loss lim ib')"
  by (simp add: effect_defs mark_observation_loss_def)

lemma retain_terminal_effect:
  assumes "grows grow ib" "windows_ok lay lim ib" "ib_terminal ib = None" "is_terminal_event (ve_event e)"
  shows "push_effect lay lim (ve_event e) ib (retain_terminal lay lim grow e ib)"
proof -
  let ?ib1 = "ib\<lparr>ib_saw_terminal := True\<rparr>" and ?envelope = "event_envelope_payload_bytes e"
  let ?r = "if ib_pending_gap ib = None then reserve_slots lay lim grow 1 ?envelope ?ib1 else (False, ?ib1)"
  have bytes: "event_bytes (ve_event e) = 0" "\<not> gap_like (ve_event e)" using assms(4) by (cases "ve_event e"; simp)+
  obtain reserved ib' where r: "?r = (reserved, ib')" by (cases ?r)
  have len: "length (ib_queue ?ib1) \<le> ib_capacity ?ib1" using assms(2) by (simp add: windows_ok_def)
  have "grows grow ?ib1" using assms(1) by (simp add: grows_def)
  note cases = reserve_slots_cases [OF _ this len, of lay lim 1 ?envelope reserved ib']
  have "\<exists>c. ib' = ib\<lparr>ib_saw_terminal := True, ib_capacity := c\<rparr> \<and> length (ib_queue ib) \<le> c
     \<and> (reserved \<longrightarrow> ib_pending_gap ib = None \<and> length (ib_queue ib) + 1 \<le> c
          \<and> size_of_inbox lay + (length (ib_queue ib) + 1) * size_of_event lay + (ib_envelope_payload_bytes ib + ?envelope) \<le> el_envelope_bytes lim)"
  proof (cases "ib_pending_gap ib")
    case None
    then show ?thesis using cases r by (fastforce split: if_splits)
  next
    case (Some g)
    then show ?thesis using r len by (intro exI [of _ "ib_capacity ib"]) auto
  qed
  then obtain c where c: "ib' = ib\<lparr>ib_saw_terminal := True, ib_capacity := c\<rparr>" "length (ib_queue ib) \<le> c"
    "reserved \<Longrightarrow> ib_pending_gap ib = None" "reserved \<Longrightarrow> length (ib_queue ib) + 1 \<le> c"
    "reserved \<Longrightarrow> size_of_inbox lay + (length (ib_queue ib) + 1) * size_of_event lay + (ib_envelope_payload_bytes ib + ?envelope) \<le> el_envelope_bytes lim"
    by blast
  have terminal_eq: "retain_terminal lay lim grow e ib =
     (if reserved then ib'\<lparr>ib_envelope_payload_bytes := ib_envelope_payload_bytes ib' + ?envelope, ib_queue := ib_queue ib' @ [e]\<rparr>
      else if terminal_funded lay lim ?envelope ib' then ib'\<lparr>ib_envelope_payload_bytes := ib_envelope_payload_bytes ib' + ?envelope, ib_terminal := Some e\<rparr>
      else mark_observation_loss lim ib')"
    using assms(3) by (simp add: retain_terminal_def Let_def r)
  consider (queued) "reserved" | (slot) "\<not> reserved" "terminal_funded lay lim ?envelope ib'" | (lost) "\<not> reserved" "\<not> terminal_funded lay lim ?envelope ib'"
    by blast
  then show ?thesis
  proof cases
    case queued
    then show ?thesis using assms(2-4) c(3-5) bytes unfolding push_effect_def terminal_eq c(1)
      by (auto simp: windows_ok_def effect_defs gap_events_def algebra_simps)
  next
    case slot
    have "size_of_inbox lay + c * size_of_event lay + ib_envelope_payload_bytes ib + ?envelope \<le> el_envelope_bytes lim"
      using slot(2) by (auto simp: terminal_funded_def c(1) bind_eq_Some_conv split: option.splits)
    moreover have "length (ib_queue ib) * size_of_event lay \<le> c * size_of_event lay" using c(2) by (rule mult_le_mono1)
    ultimately have "size_of_inbox lay + length (ib_queue ib) * size_of_event lay + (ib_envelope_payload_bytes ib + ?envelope) \<le> el_envelope_bytes lim" by linarith
    then show ?thesis using assms(2-4) slot c(2) bytes unfolding push_effect_def terminal_eq c(1)
      by (auto simp: windows_ok_def effect_defs)
  next
    case lost
    then show ?thesis using assms(2,3) c(2) loss_effect [OF bytes(2), of ib' ib lim] unfolding push_effect_def terminal_eq c(1)
      by (auto simp: windows_ok_def queue_events_def mark_observation_loss_def)
  qed
qed


lemma push_retained_effect:
  assumes "grows grow ib" "windows_ok lay lim ib" "ib_terminal ib = None"
  shows "push_effect lay lim (ve_event e) ib (push_retained lay lim grow e ib)"
proof -
  have other: "push_effect lay lim (ve_event e) ib (case admit_event lay lim grow e (ib\<lparr>ib_saw_discontinuity := d\<rparr>) of (admitted, ib') \<Rightarrow>
        if admitted then append_event e (retain_pending_gap ib') else mark_observation_loss lim ib')"
    if e: "\<not> is_terminal_event (ve_event e)" "\<not> gap_like (ve_event e)" for d
  proof -
    obtain admitted ib' where a: "admit_event lay lim grow e (ib\<lparr>ib_saw_discontinuity := d\<rparr>) = (admitted, ib')" by force
    have "grows grow (ib\<lparr>ib_saw_discontinuity := d\<rparr>)" "windows_ok lay lim (ib\<lparr>ib_saw_discontinuity := d\<rparr>)"
      using assms by (simp_all add: grows_def windows_ok_def)
    from admit_event_cases [OF a this] obtain c where c: "ib' = ib\<lparr>ib_saw_discontinuity := d, ib_capacity := c\<rparr>" "windows_ok lay lim ib'"
      "admitted \<Longrightarrow> windows_ok lay lim (append_event e (retain_pending_gap ib'))" by blast
    have "windows_ok lay lim (mark_observation_loss lim ib')" by (rule windows_cong [OF c(2)]) (simp_all add: mark_observation_loss_def)
    moreover have "effect_lost (ve_event e) ib (mark_observation_loss lim ib')" by (rule loss_effect) (use e in \<open>simp_all add: c(1) queue_events_def\<close>)
    moreover have "effect_kept (ve_event e) ib (append_event e (retain_pending_gap ib'))"
      unfolding c(1) using append_event_effect [OF e(1), where ib = ib and c = c and d = d] by simp
    ultimately show ?thesis using c(3) by (simp add: a push_effect_def)
  qed
  show ?thesis
  proof (cases "ve_event e")
    case (EvOutput chunk)
    obtain admitted ib' where a: "admit_event lay lim grow e ib = (admitted, ib')" by force
    from admit_event_cases [OF a assms(1,2)] obtain c where c: "ib' = ib\<lparr>ib_capacity := c\<rparr>" "windows_ok lay lim ib'"
      "admitted \<Longrightarrow> windows_ok lay lim (append_event e (retain_pending_gap ib'))" by blast
    moreover have "effect_kept (ve_event e) ib (append_event e (retain_pending_gap (ib\<lparr>ib_capacity := c\<rparr>)))"
      using append_event_effect [where e = e and ib = ib and c = c and d = "ib_saw_discontinuity ib"] EvOutput by simp
    ultimately show ?thesis using note_gap_effect(1) [where lay = lay and lim = lim and ib = ib and c = c and chunk = chunk] EvOutput by (simp add: push_retained_def a push_effect_def)
  next
    case (EvGap latest causes)
    then show ?thesis using note_gap_effect(2) [where lay = lay and lim = lim and ib = ib and c = "ib_capacity ib" and latest = latest and causes = causes] assms(2) by (simp add: push_retained_def)
  next
    case (EvExited final)
    then show ?thesis using retain_terminal_effect [OF assms, of e] by (simp add: push_retained_def)
  next
    case (EvInterrupted reason)
    then show ?thesis using retain_terminal_effect [OF assms, of e] by (simp add: push_retained_def)
  next
    case EvObservationDiscontinuity
    then show ?thesis using other [of True] by (simp add: push_retained_def)
  qed (use other [of "ib_saw_discontinuity ib"] in \<open>simp_all add: push_retained_def\<close>)
qed

lemma replace_input_progress_Some:
  assumes "replace_input_progress event ib = Some ib'"
  shows "\<exists>es newest previous later. ib_pending_gap ib = None \<and> event = EvServiceChanged later \<and> ib_queue ib = es @ [newest]
     \<and> ve_event newest = EvServiceChanged previous \<and> input_progress previous later
     \<and> ib' = ib\<lparr>ib_queue := es @ [newest\<lparr>ve_event := EvServiceChanged later\<rparr>]\<rparr>"
proof (cases "rev (ib_queue ib)")
  case Nil
  then show ?thesis using assms by (auto simp: replace_input_progress_def split: option.splits run_event.splits)
next
  case (Cons newest es)
  then have "ib_queue ib = rev es @ [newest]" by simp
  then show ?thesis using assms
    by (intro exI [of _ "rev es"] exI [of _ newest]) (auto simp: replace_input_progress_def split: option.splits run_event.splits if_splits)
qed

section \<open>What the consumer sees\<close>

text \<open>
  \<open>accounts sent seen\<close>: the consumer's sequence accounts for every event of the wire, in order.  An event appears as itself; a
  run of output and gap events may appear as one gap that names the greatest byte and every cause; a progress snapshot may
  stand for the snapshots of the same pending command it replaced.
\<close>

inductive accounts :: "run_event list \<Rightarrow> run_event list \<Rightarrow> bool" where
  accounts_nothing: "accounts [] []"
| accounts_event: "accounts sent seen \<Longrightarrow> accounts (sent @ [event]) (seen @ [event])"
| accounts_gap: "accounts sent seen \<Longrightarrow> hidden \<noteq> [] \<Longrightarrow> list_all gap_like hidden
    \<Longrightarrow> fold gap_extend hidden (0, CAUSES_NONE) = (latest, causes) \<Longrightarrow> accounts (sent @ hidden) (seen @ [EvGap latest causes])"
| accounts_progress: "accounts sent (seen @ [EvServiceChanged previous]) \<Longrightarrow> input_progress previous later
    \<Longrightarrow> accounts (sent @ [EvServiceChanged later]) (seen @ [EvServiceChanged later])"

text \<open>With a gap still pending, the hidden events are the last ones.\<close>

definition accounts_pending :: "run_event list \<Rightarrow> run_event list \<Rightarrow> (u64 \<times> output_gap_causes) option \<Rightarrow> bool" where
  "accounts_pending sent seen gap \<longleftrightarrow>
     (case gap of
        None \<Rightarrow> accounts sent seen
      | Some g \<Rightarrow> \<exists>before hidden. sent = before @ hidden \<and> hidden \<noteq> [] \<and> list_all gap_like hidden
          \<and> fold gap_extend hidden (0, CAUSES_NONE) = g \<and> accounts before seen)"

lemma accounts_pending_gap: "accounts_pending sent seen gap \<Longrightarrow> accounts sent (seen @ gap_events gap)"
  by (cases gap) (auto simp: accounts_pending_def gap_events_def intro: accounts_gap split: prod.splits)

lemma accounts_pending_None [simp]: "accounts_pending sent seen None = accounts sent seen"
  by (simp add: accounts_pending_def)

lemma accounts_pending_extend:
  assumes "accounts_pending sent seen gap" "gap_like event"
  shows "accounts_pending (sent @ [event]) seen (Some (gap_extend event (case gap of None \<Rightarrow> (0, CAUSES_NONE) | Some g \<Rightarrow> g)))"
proof (cases gap)
  case None
  have "sent @ [event] = sent @ [event] \<and> [event] \<noteq> [] \<and> list_all gap_like [event]
      \<and> fold gap_extend [event] (0, CAUSES_NONE) = gap_extend event (0, CAUSES_NONE) \<and> accounts sent seen" using assms None by simp
  then show ?thesis unfolding accounts_pending_def None option.case by blast
next
  case (Some g)
  then obtain before hidden where h: "sent = before @ hidden" "hidden \<noteq> []" "list_all gap_like hidden" "fold gap_extend hidden (0, CAUSES_NONE) = g" "accounts before seen"
    using assms(1) by (auto simp: accounts_pending_def)
  then show ?thesis using assms(2) Some unfolding accounts_pending_def option.case
    by (intro exI [of _ before] exI [of _ "hidden @ [event]"]) simp
qed


definition terminal_events :: "inbox \<Rightarrow> run_event list" where
  "terminal_events ib = (case ib_terminal ib of None \<Rightarrow> [] | Some e \<Rightarrow> [ve_event e])"

text \<open>The events the consumer is still going to get, in order, when nothing more arrives.\<close>

definition inbox_contents :: "inbox \<Rightarrow> run_event list" where
  "inbox_contents ib = queue_events ib @ gap_events (ib_pending_gap ib)
     @ (if ib_local_observation ib = LostMarkerPending then [EvObservationDiscontinuity] else []) @ terminal_events ib"

text \<open>Everything is accounted for, or a final discontinuity says that the rest is not.\<close>

definition explained :: "run_event list \<Rightarrow> run_event list \<Rightarrow> bool" where
  "explained sent seen \<longleftrightarrow> accounts sent seen
     \<or> (\<exists>before rest shown. sent = before @ rest \<and> rest \<noteq> [] \<and> accounts before shown \<and> seen = shown @ [EvObservationDiscontinuity])"

definition inbox_faithful :: "run_event list \<Rightarrow> run_event list \<Rightarrow> inbox \<Rightarrow> bool" where
  "inbox_faithful sent seen ib \<longleftrightarrow>
     (case ib_local_observation ib of
        ObservationAvailable \<Rightarrow> \<exists>before. sent = before @ terminal_events ib \<and> accounts_pending before (seen @ queue_events ib) (ib_pending_gap ib)
      | LostMarkerPending \<Rightarrow> \<exists>before rest. sent = before @ rest \<and> rest \<noteq> [] \<and> accounts_pending before (seen @ queue_events ib) (ib_pending_gap ib)
      | LostMarkerDelivered \<Rightarrow> queue_events ib = [] \<and> ib_pending_gap ib = None
          \<and> (\<exists>before rest shown. sent = before @ rest \<and> rest \<noteq> [] \<and> accounts before shown \<and> seen = shown @ [EvObservationDiscontinuity]))"

definition inbox_flags :: "inbox \<Rightarrow> bool" where
  "inbox_flags ib \<longleftrightarrow> (ib_terminal ib \<noteq> None \<longrightarrow> ib_saw_terminal ib \<and> ib_local_observation ib = ObservationAvailable)
     \<and> (ib_observation_unavailable ib \<longleftrightarrow> ib_local_observation ib \<noteq> ObservationAvailable)
     \<and> (ib_local_observation ib \<noteq> ObservationAvailable \<longrightarrow> ib_closed ib)
     \<and> (ib_error ib \<noteq> None \<longrightarrow> ib_closed ib)"

text \<open>The lives of an inbox: events that arrive, the close, and the consumer's turns.\<close>

inductive inbox_run :: "layout \<Rightarrow> attachment_event_limits \<Rightarrow> run_event list \<Rightarrow> run_event list \<Rightarrow> inbox \<Rightarrow> bool"
  for lay :: layout and lim :: attachment_event_limits where
  run_start: "inbox_run lay lim [] [] inbox_with_limits"
| run_push: "inbox_run lay lim sent seen ib \<Longrightarrow> grows grow ib \<Longrightarrow> inbox_push lay lim grow e ib = Inr ib'
    \<Longrightarrow> inbox_run lay lim (sent @ [ve_event e]) seen ib'"
| run_close: "inbox_run lay lim sent seen ib \<Longrightarrow> inbox_run lay lim sent seen (inbox_close failure ib)"
| run_next: "inbox_run lay lim sent seen ib \<Longrightarrow> next_poll ib = (Some (Inr (Some event)), ib') \<Longrightarrow> inbox_run lay lim sent (seen @ [event]) ib'"
| run_error: "inbox_run lay lim sent seen ib \<Longrightarrow> next_poll ib = (Some (Inl failure), ib') \<Longrightarrow> inbox_run lay lim sent seen ib'"
| run_acquire: "inbox_run lay lim sent seen ib \<Longrightarrow> consumer_acquire ib = Inr ib' \<Longrightarrow> inbox_run lay lim sent seen ib'"
| run_release: "inbox_run lay lim sent seen ib \<Longrightarrow> inbox_run lay lim sent seen (consumer_release ib)"

lemma faithful_cong:
  "ib_queue ib' = ib_queue ib \<Longrightarrow> ib_pending_gap ib' = ib_pending_gap ib \<Longrightarrow> ib_terminal ib' = ib_terminal ib
   \<Longrightarrow> ib_local_observation ib' = ib_local_observation ib \<Longrightarrow> inbox_faithful sent seen ib' = inbox_faithful sent seen ib"
  by (cases "ib_local_observation ib") (simp_all add: inbox_faithful_def terminal_events_def queue_events_def)

lemma faithful_effect:
  assumes "push_effect lay lim event ib ib'" "inbox_faithful sent seen ib" "ib_local_observation ib = ObservationAvailable" "ib_terminal ib = None"
  shows "inbox_faithful (sent @ [event]) seen ib'"
proof -
  have acc: "accounts_pending sent (seen @ queue_events ib) (ib_pending_gap ib)"
    using assms(2-4) by (simp add: inbox_faithful_def terminal_events_def)
  consider "effect_kept event ib ib'" | "effect_gap event ib ib'" | "effect_slot event ib ib'" | "effect_lost event ib ib'"
    using assms(1) by (auto simp: push_effect_def)
  then show ?thesis
  proof cases
    case 1
    have "accounts (sent @ [event]) ((seen @ queue_events ib @ gap_events (ib_pending_gap ib)) @ [event])"
      using accounts_event [OF accounts_pending_gap [OF acc], of event] by simp
    then show ?thesis using 1 assms(3,4) by (simp add: inbox_faithful_def terminal_events_def effect_kept_def flags_kept_def)
  next
    case 2
    then show ?thesis using assms(3,4) accounts_pending_extend [OF acc, of event]
      by (simp add: inbox_faithful_def terminal_events_def effect_gap_def flags_kept_def)
  next
    case 3
    then show ?thesis using assms(3) acc by (auto simp: inbox_faithful_def terminal_events_def effect_slot_def flags_kept_def)
  next
    case 4
    then show ?thesis using acc by (auto simp: inbox_faithful_def effect_lost_def)
  qed
qed

lemma flags_effect:
  "push_effect lay lim event ib ib' \<Longrightarrow> inbox_flags ib \<Longrightarrow> ib_local_observation ib = ObservationAvailable \<Longrightarrow> ib_terminal ib = None \<Longrightarrow> inbox_flags ib'"
  by (auto simp: push_effect_def inbox_flags_def effect_defs)

definition inbox_ok :: "layout \<Rightarrow> attachment_event_limits \<Rightarrow> run_event list \<Rightarrow> run_event list \<Rightarrow> inbox \<Rightarrow> bool" where
  "inbox_ok lay lim sent seen ib \<longleftrightarrow> windows_ok lay lim ib \<and> inbox_flags ib \<and> inbox_faithful sent seen ib"

lemma push_lost_ok:
  assumes "inbox_ok lay lim sent seen ib" "ib_local_observation ib \<noteq> ObservationAvailable"
  shows "inbox_ok lay lim (sent @ [event]) seen (push_lost event ib)"
proof -
  have "inbox_faithful (sent @ [event]) seen ib"
  proof (cases "ib_local_observation ib")
    case LostMarkerPending
    then obtain before rest where "sent = before @ rest" "accounts_pending before (seen @ queue_events ib) (ib_pending_gap ib)"
      using assms(1) by (auto simp: inbox_ok_def inbox_faithful_def)
    then show ?thesis unfolding inbox_faithful_def LostMarkerPending local_observation.case
      by (intro exI [of _ before] exI [of _ "rest @ [event]"]) simp
  next
    case LostMarkerDelivered
    then obtain before rest shown where "sent = before @ rest" "accounts before shown" "seen = shown @ [EvObservationDiscontinuity]"
      "queue_events ib = []" "ib_pending_gap ib = None"
      using assms(1) by (auto simp: inbox_ok_def inbox_faithful_def)
    then show ?thesis unfolding inbox_faithful_def LostMarkerDelivered local_observation.case
      by (intro conjI exI [of _ before] exI [of _ "rest @ [event]"] exI [of _ shown]) simp_all
  qed (use assms(2) in simp)
  moreover have "inbox_faithful (sent @ [event]) seen (push_lost event ib) = inbox_faithful (sent @ [event]) seen ib"
    by (rule faithful_cong) (simp_all add: push_lost_def)
  moreover have "windows_ok lay lim (push_lost event ib)" using assms(1) by (simp add: inbox_ok_def push_lost_def windows_ok_def)
  ultimately show ?thesis using assms by (auto simp: inbox_ok_def push_lost_def inbox_flags_def)
qed

lemma replaced_ok:
  assumes "inbox_ok lay lim sent seen ib" "replace_input_progress event ib = Some ib'" "ib_local_observation ib = ObservationAvailable" "ib_terminal ib = None"
  shows "inbox_ok lay lim (sent @ [event]) seen ib'"
proof -
  from replace_input_progress_Some [OF assms(2)] obtain es newest previous later where
    r: "ib_pending_gap ib = None" "event = EvServiceChanged later" "ib_queue ib = es @ [newest]" "ve_event newest = EvServiceChanged previous"
       "input_progress previous later" "ib' = ib\<lparr>ib_queue := es @ [newest\<lparr>ve_event := EvServiceChanged later\<rparr>]\<rparr>" by blast
  have "accounts sent ((seen @ map ve_event es) @ [EvServiceChanged previous])"
    using assms(1,3,4) r by (simp add: inbox_ok_def inbox_faithful_def terminal_events_def queue_events_def)
  from accounts_progress [OF this r(5)] show ?thesis using assms r
    by (auto simp: inbox_ok_def inbox_faithful_def terminal_events_def queue_events_def windows_ok_def inbox_flags_def event_envelope_payload_bytes_def)
qed

lemma inbox_push_ok:
  assumes "inbox_ok lay lim sent seen ib" "grows grow ib" "inbox_push lay lim grow e ib = Inr ib'"
  shows "inbox_ok lay lim (sent @ [ve_event e]) seen ib'"
proof (cases "ib_local_observation ib = ObservationAvailable")
  case False
  then have "ib' = push_lost (ve_event e) ib" using assms(3) by (auto simp: inbox_push_def split: if_splits)
  then show ?thesis using push_lost_ok [OF assms(1) False] by simp
next
  case True
  then have tm: "ib_terminal ib = None" using assms(1,3) by (auto simp: inbox_push_def inbox_ok_def inbox_flags_def split: if_splits)
  consider "replace_input_progress (ve_event e) ib = Some ib'" | "ib' = push_retained lay lim grow e ib"
    using assms(3) True by (auto simp: inbox_push_def split: if_splits option.splits)
  then show ?thesis
  proof cases
    case 1
    then show ?thesis using replaced_ok [OF assms(1) 1 True tm] by simp
  next
    case 2
    have "push_effect lay lim (ve_event e) ib ib'" unfolding 2 using assms(1,2) tm by (intro push_retained_effect) (simp_all add: inbox_ok_def)
    then show ?thesis using assms(1) flags_effect faithful_effect True tm by (auto simp: inbox_ok_def push_effect_def)
  qed
qed


lemma accounts_pending_queue: "accounts_pending before (seen @ queue) gap \<Longrightarrow> accounts before (seen @ queue @ gap_events gap)"
  using accounts_pending_gap [of before "seen @ queue" gap] by simp

lemma explained_contents:
  assumes "inbox_flags ib" "inbox_faithful sent seen ib"
  shows "explained sent (seen @ inbox_contents ib)"
proof (cases "ib_local_observation ib")
  case ObservationAvailable
  then obtain before where b: "sent = before @ terminal_events ib" "accounts before (seen @ queue_events ib @ gap_events (ib_pending_gap ib))"
    using assms(2) by (auto simp: inbox_faithful_def dest: accounts_pending_queue)
  have "accounts sent (seen @ queue_events ib @ gap_events (ib_pending_gap ib) @ terminal_events ib)"
    using b accounts_event [OF b(2)] by (cases "ib_terminal ib") (simp_all add: terminal_events_def)
  then show ?thesis using ObservationAvailable by (simp add: explained_def inbox_contents_def)
next
  case LostMarkerPending
  then obtain before rest where "sent = before @ rest" "rest \<noteq> []" "accounts before (seen @ queue_events ib @ gap_events (ib_pending_gap ib))"
    using assms(2) by (auto simp: inbox_faithful_def dest: accounts_pending_queue)
  then show ?thesis using assms(1) LostMarkerPending unfolding explained_def
    by (intro disjI2 exI [of _ before] exI [of _ rest] exI [of _ "seen @ queue_events ib @ gap_events (ib_pending_gap ib)"])
       (simp add: inbox_contents_def terminal_events_def inbox_flags_def)
next
  case LostMarkerDelivered
  then have "inbox_contents ib = []" using assms by (auto simp: inbox_contents_def inbox_faithful_def inbox_flags_def gap_events_def terminal_events_def)
  then show ?thesis using LostMarkerDelivered assms(2) by (auto simp: explained_def inbox_faithful_def)
qed

text \<open>The consumer is served exactly the contents, in order; the error and the end come after them.\<close>

lemma next_poll_serves:
  "inbox_flags ib \<Longrightarrow> fst (next_poll ib) =
     (case inbox_contents ib of
        event # _ \<Rightarrow> Some (Inr (Some event))
      | [] \<Rightarrow> (case ib_error ib of Some failure \<Rightarrow> Some (Inl failure) | None \<Rightarrow> if ib_closed ib then Some (Inr None) else None))"
  by (auto simp: next_poll_def inbox_contents_def queue_events_def gap_events_def terminal_events_def split: list.splits option.splits)

lemma next_poll_ok:
  assumes "inbox_ok lay lim sent seen ib" "next_poll ib = (Some (Inr (Some event)), ib')"
  shows "inbox_ok lay lim sent (seen @ [event]) ib'"
proof -
  consider (queued) e queue where "ib_queue ib = e # queue" "event = ve_event e"
        "ib' = ib\<lparr>ib_queue := queue, ib_queued_bytes := ib_queued_bytes ib - event_bytes (ve_event e),
              ib_envelope_payload_bytes := ib_envelope_payload_bytes ib - event_envelope_payload_bytes e\<rparr>"
    | (gap) latest causes where "ib_queue ib = []" "ib_pending_gap ib = Some (latest, causes)" "event = EvGap latest causes" "ib' = ib\<lparr>ib_pending_gap := None\<rparr>"
    | (marker) "ib_queue ib = []" "ib_pending_gap ib = None" "ib_local_observation ib = LostMarkerPending" "event = EvObservationDiscontinuity"
        "ib' = ib\<lparr>ib_local_observation := LostMarkerDelivered\<rparr>"
    | (terminal) e where "ib_queue ib = []" "ib_pending_gap ib = None" "ib_terminal ib = Some e" "event = ve_event e"
        "ib' = ib\<lparr>ib_terminal := None, ib_envelope_payload_bytes := ib_envelope_payload_bytes ib - event_envelope_payload_bytes e\<rparr>"
    using assms(2) by (auto simp: next_poll_def split: list.splits option.splits if_splits)
  then show ?thesis
  proof cases
    case queued
    have "windows_ok lay lim ib'" using assms(1) queued by (auto simp: inbox_ok_def windows_ok_def)
    moreover have "inbox_faithful sent (seen @ [event]) ib'"
      using assms(1) queued by (cases "ib_local_observation ib") (simp_all add: inbox_ok_def inbox_faithful_def queue_events_def terminal_events_def)
    ultimately show ?thesis using assms(1) queued by (simp add: inbox_ok_def inbox_flags_def)
  next
    case gap
    have acc: "accounts_pending before seen (Some (latest, causes)) \<Longrightarrow> accounts before (seen @ [EvGap latest causes])" for before
      using accounts_pending_gap [of before seen "Some (latest, causes)"] by (simp add: gap_events_def)
    have "inbox_faithful sent (seen @ [event]) ib'"
      using assms(1) gap acc by (cases "ib_local_observation ib") (auto simp add: inbox_ok_def inbox_faithful_def queue_events_def terminal_events_def)
    then show ?thesis using assms(1) gap by (simp add: inbox_ok_def inbox_flags_def windows_ok_def)
  next
    case marker
    then have "inbox_faithful sent (seen @ [event]) ib'" using assms(1) by (auto simp: inbox_ok_def inbox_faithful_def queue_events_def)
    then show ?thesis using assms(1) marker by (simp add: inbox_ok_def inbox_flags_def windows_ok_def)
  next
    case terminal
    then have "inbox_faithful sent (seen @ [event]) ib'" using assms(1)
      by (auto simp: inbox_ok_def inbox_flags_def inbox_faithful_def queue_events_def terminal_events_def intro: accounts_event)
    then show ?thesis using assms(1) terminal by (auto simp: inbox_ok_def inbox_flags_def windows_ok_def)
  qed
qed

lemma inbox_run_ok:
  assumes "inbox_run lay lim sent seen ib" "validate_event_limits lay lim = Inr ()"
  shows "inbox_ok lay lim sent seen ib"
  using assms(1)
proof induction
  case run_start
  show ?case using assms(2)
    by (auto simp: validate_event_limits_def inbox_ok_def inbox_flags_def windows_ok_def inbox_faithful_def queue_events_def terminal_events_def
        inbox_with_limits_def intro: accounts_nothing split: if_splits)
next
  case (run_push sent seen ib grow e ib')
  then show ?case by (intro inbox_push_ok)
next
  case (run_close sent seen ib failure)
  then show ?case using faithful_cong [of "inbox_close failure ib" ib sent seen]
    by (auto simp: inbox_ok_def inbox_close_def windows_ok_def inbox_flags_def)
next
  case (run_next sent seen ib event ib')
  then show ?case by (intro next_poll_ok)
next
  case (run_error sent seen ib failure ib')
  then have "ib' = ib\<lparr>ib_error := None\<rparr>" by (auto simp: next_poll_def split: list.splits option.splits if_splits)
  then show ?case using run_error.IH faithful_cong [of ib' ib sent seen] by (auto simp: inbox_ok_def windows_ok_def inbox_flags_def)
next
  case (run_acquire sent seen ib ib')
  then show ?case using faithful_cong [of ib' ib sent seen] by (auto simp: inbox_ok_def windows_ok_def inbox_flags_def consumer_acquire_def split: if_splits)
next
  case (run_release sent seen ib)
  then show ?case using faithful_cong [of "consumer_release ib" ib sent seen] by (auto simp: inbox_ok_def windows_ok_def inbox_flags_def consumer_release_def)
qed


section \<open>No silent loss\<close>

text \<open>
  C13 (refinement).  A slow consumer never loses an event silently, and the inbox stays within its two windows.  After any
  interleaving of arrivals, the close and the consumer's turns, under limits that validate and whatever the allocator
  answers: the byte counter is the payload queued and within its window; the inbox, its queued slots and the retained
  envelope bytes are within the other; what the consumer got, followed by what it is still going to get, accounts for every
  event that arrived, in order, except that a final discontinuity may stand for a rest that could not be kept; and when
  the consumer is told that the stream ended or failed, it has got all of that.
\<close>

theorem inbox_loses_nothing_silently:
  assumes "validate_event_limits lay lim = Inr ()" and "inbox_run lay lim sent seen ib"
  shows "ib_queued_bytes ib = sum_list (map event_bytes (queue_events ib)) \<and> ib_queued_bytes ib \<le> el_payload_bytes lim
     \<and> size_of_inbox lay + length (ib_queue ib) * size_of_event lay + ib_envelope_payload_bytes ib \<le> el_envelope_bytes lim
     \<and> explained sent (seen @ inbox_contents ib)
     \<and> (fst (next_poll ib) = Some (Inr None) \<or> (\<exists>failure. fst (next_poll ib) = Some (Inl failure)) \<longrightarrow> explained sent seen)"
proof -
  have ok: "windows_ok lay lim ib" "inbox_flags ib" "inbox_faithful sent seen ib"
    using inbox_run_ok [OF assms(2,1)] by (simp_all add: inbox_ok_def)
  note all = explained_contents [OF ok(2,3)]
  have "inbox_contents ib = []" if "fst (next_poll ib) = Some (Inr None) \<or> (\<exists>failure. fst (next_poll ib) = Some (Inl failure))"
    using that next_poll_serves [OF ok(2)] by (auto split: list.splits)
  then show ?thesis using all ok(1) by (auto simp: windows_ok_def queue_events_def)
qed

text \<open>Six bytes of output against a window of four: the second chunk becomes a gap, and then the peer closes.\<close>

definition sample_output :: "nat \<Rightarrow> view_event" where
  "sample_output start = \<lparr>ve_event = EvOutput \<lparr>start_byte = start, end_byte = start + 3, chunk_data = [65, 66, 67]\<rparr>, ve_spare = 1\<rparr>"

theorem inbox_loses_nothing_silently_witness:
  "explained [ve_event (sample_output 0), ve_event (sample_output 3)] [ve_event (sample_output 0), EvGap 6 CAUSES_CLIENT_VIEW_PRESSURE]"
proof -
  let ?lay = "\<lparr>size_of_inbox = 8, size_of_event = 4\<rparr>" and ?lim = "\<lparr>el_payload_bytes = 4, el_envelope_bytes = 24\<rparr>"
  let ?grow = "\<lambda>additional. Some (additional + 1)"
  let ?kept = "inbox_with_limits\<lparr>ib_queue := [sample_output 0], ib_capacity := 2, ib_queued_bytes := 3, ib_envelope_payload_bytes := 1\<rparr>"
  let ?gap = "?kept\<lparr>ib_pending_gap := Some (6, CAUSES_CLIENT_VIEW_PRESSURE)\<rparr>"
  let ?closed = "inbox_with_limits\<lparr>ib_capacity := 2, ib_closed := True\<rparr>"
  note eval = sample_output_def inbox_with_limits_def
  have limits: "validate_event_limits ?lay ?lim = Inr ()"
    by (simp add: validate_event_limits_def checked_add_def max_values)
  have "inbox_run ?lay ?lim ([] @ [ve_event (sample_output 0)]) [] ?kept"
    by (rule run_push [OF run_start, where grow = ?grow and e = "sample_output 0"])
       (simp_all add: eval grows_def inbox_push_def push_retained_def replace_input_progress_def admit_event_def append_event_def retain_pending_gap_def
          reserve_slots_def slots_maximum_def event_envelope_payload_bytes_def arith_defs max_values)
  from run_push [OF this, where grow = ?grow and e = "sample_output 3" and ib' = ?gap]
  have "inbox_run ?lay ?lim [ve_event (sample_output 0), ve_event (sample_output 3)] [] ?gap"
    by (simp add: eval grows_def inbox_push_def push_retained_def replace_input_progress_def admit_event_def note_gap_def causes_union_def
          CAUSES_CLIENT_VIEW_PRESSURE_def CAUSES_NONE_def arith_defs max_values)
  from run_next [OF this, of "ve_event (sample_output 0)" "inbox_with_limits\<lparr>ib_capacity := 2, ib_pending_gap := Some (6, CAUSES_CLIENT_VIEW_PRESSURE)\<rparr>"]
  have "inbox_run ?lay ?lim [ve_event (sample_output 0), ve_event (sample_output 3)] [ve_event (sample_output 0)]
      (inbox_with_limits\<lparr>ib_capacity := 2, ib_pending_gap := Some (6, CAUSES_CLIENT_VIEW_PRESSURE)\<rparr>)"
    by (simp add: eval next_poll_def event_envelope_payload_bytes_def)
  from run_close [OF run_next [OF this, of "EvGap 6 CAUSES_CLIENT_VIEW_PRESSURE" "inbox_with_limits\<lparr>ib_capacity := 2\<rparr>"], of None]
  have "inbox_run ?lay ?lim [ve_event (sample_output 0), ve_event (sample_output 3)] [ve_event (sample_output 0), EvGap 6 CAUSES_CLIENT_VIEW_PRESSURE] ?closed"
    by (simp add: eval next_poll_def inbox_close_def)
  from inbox_loses_nothing_silently [OF limits this] show ?thesis by (simp add: next_poll_def inbox_with_limits_def)
qed

end
