(* ===== verification/Client_Attachment.thy ===== *)
theory Client_Attachment
  imports Event_Inbox
begin

text \<open>
  A live attachment of the client library (\<^verbatim>\<open>crates/ctxmux-client/src/attachment.rs\<close>): the commands issued through it, their
  windows and identities, the reader and writer tasks, detaching, closing, and the typed results of the public calls.

  The shared state is behind one lock, so every operation is one step; the tasks interleave freely between steps.  A
  panic of the source (a debug assertion, an \<^verbatim>\<open>expect\<close>, a subtraction below zero) is the value \<open>None\<close>.  Aborting a task is not
  instantaneous, so the steps of the reader stay possible after the end.
\<close>

section \<open>Commands and their results\<close>

definition MAX_PENDING_COMMANDS :: nat where "MAX_PENDING_COMMANDS = 64"
definition MAX_PENDING_INPUT_COMMANDS :: nat where "MAX_PENDING_INPUT_COMMANDS = 32"
definition MAX_PENDING_INPUT_BYTES :: nat where "MAX_PENDING_INPUT_BYTES = 1024 * 1024"
definition COMMAND_ID_MAX :: nat where "COMMAND_ID_MAX = 2 ^ 32 - 1"

datatype pending_kind = PendingInput usize | PendingResize | PendingSignal nat | PendingStop

fun input_bytes :: "pending_kind \<Rightarrow> nat" where
  "input_bytes (PendingInput expected_bytes) = expected_bytes"
| "input_bytes _ = 0"

fun is_input :: "pending_kind \<Rightarrow> bool" where
  "is_input (PendingInput _) = True"
| "is_input _ = False"

datatype validated_receipt = ValidInput nat | ValidResize terminal_size | ValidSignal nat | ValidStop stop_disposition

fun kind_validate :: "pending_kind \<Rightarrow> control_receipt \<Rightarrow> string + validated_receipt" where
  "kind_validate (PendingInput expected_bytes) receipt =
     map_err (\<lambda>_. ''attachment input receipt does not match its command'') (and_then (decode_input_receipt receipt expected_bytes) (\<lambda>r. Inr (ValidInput r)))"
| "kind_validate PendingResize receipt =
     map_err (\<lambda>_. ''attachment resize receipt does not match its command'') (and_then (decode_resize_receipt receipt) (\<lambda>r. Inr (ValidResize r)))"
| "kind_validate (PendingSignal signal) receipt =
     map_err (\<lambda>_. ''attachment signal receipt does not match its command'') (and_then (decode_signal_receipt receipt signal) (\<lambda>r. Inr (ValidSignal r)))"
| "kind_validate PendingStop receipt =
     map_err (\<lambda>_. ''attachment stop receipt does not match its command'') (and_then (decode_stop_receipt receipt) (\<lambda>r. Inr (ValidStop r)))"

datatype pending_resolution =
    ResolutionAccepted validated_receipt
  | ResolutionRejected control_failure
  | ResolutionUnknown attachment_unknown_reason

datatype attachment_end = EndDetached | EndTerminated

record attachment_state =
  as_next_command_id :: nat
  as_fence :: "attachment_unavailable_reason option"
  as_detaching :: bool
  as_end :: "attachment_end option"
  as_pending :: "(command_id \<times> pending_kind) list"
  as_pending_inputs :: usize
  as_pending_input_bytes :: usize

definition attachment_state_default :: attachment_state where
  "attachment_state_default = \<lparr>as_next_command_id = 1, as_fence = None, as_detaching = False, as_end = None, as_pending = [],
     as_pending_inputs = 0, as_pending_input_bytes = 0\<rparr>"

record attachment_shared =
  sh_state :: attachment_state
  sh_events :: inbox

definition shared_with_event_limits :: attachment_shared where
  "shared_with_event_limits = \<lparr>sh_state = attachment_state_default, sh_events = inbox_with_limits\<rparr>"

section \<open>Admission\<close>

definition admit_register :: "pending_kind \<Rightarrow> bool \<Rightarrow> attachment_state \<Rightarrow> client_error + unit" where
  "admit_register kind observation_unavailable st =
     and_then (require (as_end st = None) (AttachmentUnavailable ClosedReason)) (\<lambda>_.
     and_then (case as_fence st of None \<Rightarrow> Inr () | Some reason \<Rightarrow> Inl (AttachmentUnavailable reason)) (\<lambda>_.
     and_then (require (\<not> observation_unavailable) (AttachmentUnavailable ObservationUnavailable)) (\<lambda>_.
     and_then (require (length (as_pending st) \<noteq> MAX_PENDING_COMMANDS) (AttachmentBackpressure ''64 unresolved commands'')) (\<lambda>_.
     and_then (require (\<not> (is_input kind \<and> as_pending_inputs st = MAX_PENDING_INPUT_COMMANDS)) (AttachmentBackpressure ''32 unresolved input commands'')) (\<lambda>_.
       require (case checked_add (as_pending_input_bytes st) (input_bytes kind) of None \<Rightarrow> False | Some n \<Rightarrow> n \<le> MAX_PENDING_INPUT_BYTES)
         (AttachmentBackpressure ''1 MiB unresolved input data''))))))"

definition register_command :: "pending_kind \<Rightarrow> bool \<Rightarrow> attachment_state \<Rightarrow> (client_error + command_id \<times> attachment_state) option" where
  "register_command kind observation_unavailable st =
     (case admit_register kind observation_unavailable st of
        Inl failure \<Rightarrow> Some (Inl failure)
      | Inr _ \<Rightarrow>
          (let command_id = as_next_command_id st;
               st1 = (if command_id = COMMAND_ID_MAX then st\<lparr>as_fence := Some CommandIdsExhausted\<rparr> else st\<lparr>as_next_command_id := command_id + 1\<rparr>)
           in if command_id = 0 \<or> command_id \<in> fst ` set (as_pending st) then None
              else Some (Inr (command_id,
                     st1\<lparr>as_pending_inputs := as_pending_inputs st + (if is_input kind then 1 else 0),
                         as_pending_input_bytes := as_pending_input_bytes st + input_bytes kind,
                         as_pending := AList.update command_id kind (as_pending st)\<rparr>))))"

section \<open>Settlement\<close>

definition release_pending_capacity :: "pending_kind \<Rightarrow> attachment_state \<Rightarrow> attachment_state option" where
  "release_pending_capacity kind st =
     (if is_input kind then
        Option.bind (checked_sub (as_pending_inputs st) 1) (\<lambda>inputs.
        Option.bind (checked_sub (as_pending_input_bytes st) (input_bytes kind)) (\<lambda>bytes.
          Some (st\<lparr>as_pending_inputs := inputs, as_pending_input_bytes := bytes\<rparr>)))
      else Some st)"

definition check_outcome :: "pending_kind \<Rightarrow> control_outcome \<Rightarrow> string + pending_resolution" where
  "check_outcome kind outcome =
     (case outcome of
        OutcomeAccepted receipt \<Rightarrow> and_then (kind_validate kind receipt) (\<lambda>r. Inr (ResolutionAccepted r))
      | OutcomeRejected failure \<Rightarrow>
          and_then (validate_control_failure failure) (\<lambda>_.
          and_then (case cf_confirmed_input_bytes failure of
                      None \<Rightarrow> Inr ()
                    | Some confirmed \<Rightarrow>
                        (case kind of
                           PendingInput expected_bytes \<Rightarrow> require (confirmed \<le> expected_bytes) ''confirmed input prefix exceeds its original input request''
                         | _ \<Rightarrow> Inl ''confirmed input prefix exceeds its original input request''))
            (\<lambda>_. Inr (ResolutionRejected failure))))"

definition resolve_command ::
  "command_id \<Rightarrow> control_outcome \<Rightarrow> attachment_state \<Rightarrow> (string + pending_resolution \<times> attachment_state) option" where
  "resolve_command command_id outcome st =
     (case map_of (as_pending st) command_id of
        None \<Rightarrow> Some (Inl ''command result names an unknown or completed ID'')
      | Some kind \<Rightarrow>
          (case check_outcome kind outcome of
             Inl message \<Rightarrow> Some (Inl message)
           | Inr resolution \<Rightarrow>
               map_option (\<lambda>released. Inr (resolution, released))
                 (release_pending_capacity kind (st\<lparr>as_pending := AList.delete command_id (as_pending st)\<rparr>))))"

definition cancel_unsent_command :: "command_id \<Rightarrow> attachment_state \<Rightarrow> attachment_state option" where
  "cancel_unsent_command command_id st =
     (case map_of (as_pending st) command_id of
        None \<Rightarrow> Some st
      | Some kind \<Rightarrow>
          Option.bind (release_pending_capacity kind (st\<lparr>as_pending := AList.delete command_id (as_pending st)\<rparr>)) (\<lambda>st.
            if command_id = COMMAND_ID_MAX
            then Some (if as_fence st = Some CommandIdsExhausted then st\<lparr>as_fence := None\<rparr> else st)
            else if as_next_command_id st = command_id + 1 then Some (st\<lparr>as_next_command_id := command_id\<rparr>) else None))"

section \<open>Detaching and termination\<close>

definition begin_detach :: "attachment_state \<Rightarrow> client_error + attachment_state" where
  "begin_detach st =
     (if as_end st \<noteq> None then Inl (AttachmentUnavailable ClosedReason)
      else Inr (st\<lparr>as_fence := Some Detaching, as_detaching := True\<rparr>))"

text \<open>One turn of the two waits of \<^verbatim>\<open>detach\<close>; \<open>None\<close> waits for the next change.\<close>

definition poll_pending_empty :: "attachment_state \<Rightarrow> (client_error + unit) option" where
  "poll_pending_empty st =
     (if as_pending st = [] then Some (Inr ()) else if as_end st \<noteq> None then Some (Inl ClosedError) else None)"

definition poll_detached :: "attachment_state \<Rightarrow> (client_error + unit) option" where
  "poll_detached st = map_option (\<lambda>ended. case ended of EndDetached \<Rightarrow> Inr () | EndTerminated \<Rightarrow> Inl ClosedError) (as_end st)"

definition finish_detach :: "attachment_shared \<Rightarrow> string + attachment_shared" where
  "finish_detach s =
     (let st = sh_state s
      in if \<not> as_detaching st then Inl ''daemon acknowledged a detach the client did not request''
         else if as_pending st \<noteq> [] then Inl ''daemon acknowledged detach while commands were unresolved''
         else Inr (s\<lparr>sh_state := st\<lparr>as_end := Some EndDetached, as_fence := Some ClosedReason\<rparr>, sh_events := inbox_close None (sh_events s)\<rparr>))"

type_synonym settlements = "(command_id \<times> pending_resolution) list"

definition terminate :: "attachment_unknown_reason \<Rightarrow> client_error option \<Rightarrow> attachment_shared \<Rightarrow> attachment_shared \<times> settlements" where
  "terminate reason event_error s =
     (let st = sh_state s
      in if as_end st \<noteq> None then (s, [])
         else (s\<lparr>sh_state := st\<lparr>as_end := Some EndTerminated, as_fence := Some ClosedReason, as_pending_inputs := 0, as_pending_input_bytes := 0, as_pending := []\<rparr>,
                 sh_events := inbox_close event_error (sh_events s)\<rparr>,
               map (\<lambda>(command_id, _). (command_id, ResolutionUnknown reason)) (as_pending st)))"

section \<open>Issuing a command\<close>

text \<open>
  The rest of \<^verbatim>\<open>issue_command\<close> once the command is registered, under the issue lock: encoding the frame and offering it to
  the writer task.  \<open>Inl\<close> is the error returned to the caller; \<open>Inr\<close> says that the command now awaits its result.
\<close>

datatype offer_answer = EncodeFailed string | WriterFull | WriterClosed | Offered

definition issue_offer ::
  "offer_answer \<Rightarrow> command_id \<Rightarrow> attachment_shared \<Rightarrow> ((client_error + unit) \<times> attachment_shared \<times> settlements) option" where
  "issue_offer answer command_id s =
     (case answer of
        EncodeFailed failure \<Rightarrow>
          map_option (\<lambda>st. (Inl (control_not_applied (FrameError failure)), s\<lparr>sh_state := st\<rparr>, [])) (cancel_unsent_command command_id (sh_state s))
      | WriterFull \<Rightarrow>
          map_option (\<lambda>st. (Inl (AttachmentBackpressure ''64 queued writer commands''), s\<lparr>sh_state := st\<rparr>, [])) (cancel_unsent_command command_id (sh_state s))
      | WriterClosed \<Rightarrow>
          map_option (\<lambda>st. (Inl (control_not_applied ClosedError), terminate TransportTerminated (Some ClosedError) (s\<lparr>sh_state := st\<rparr>)))
            (cancel_unsent_command command_id (sh_state s))
      | Offered \<Rightarrow> Some (Inr (), s, []))"

text \<open>What the awaited result becomes; \<open>None\<close> is a sender dropped without one.\<close>

definition issue_result :: "command_id \<Rightarrow> pending_resolution option \<Rightarrow> client_error + command_id \<times> validated_receipt" where
  "issue_result command_id answer =
     (case answer of
        Some (ResolutionAccepted receipt) \<Rightarrow> Inr (command_id, receipt)
      | Some (ResolutionRejected failure) \<Rightarrow> Inl (ControlRejectedError failure)
      | Some (ResolutionUnknown reason) \<Rightarrow> Inl (AttachmentCommandUnknown command_id reason)
      | None \<Rightarrow> Inl (AttachmentCommandUnknown command_id TransportTerminated))"

definition attachment_input :: "command_id \<Rightarrow> pending_resolution option \<Rightarrow> client_error + command_id \<times> nat" where
  "attachment_input command_id answer = and_then (issue_result command_id answer) (\<lambda>(i, receipt).
     case receipt of ValidInput r \<Rightarrow> Inr (i, r)
     | _ \<Rightarrow> Inl (ProtocolContractViolation ''validated input command resolved with another receipt kind''))"

definition attachment_resize :: "command_id \<Rightarrow> pending_resolution option \<Rightarrow> client_error + command_id \<times> terminal_size" where
  "attachment_resize command_id answer = and_then (issue_result command_id answer) (\<lambda>(i, receipt).
     case receipt of ValidResize r \<Rightarrow> Inr (i, r)
     | _ \<Rightarrow> Inl (ProtocolContractViolation ''validated resize command resolved with another receipt kind''))"

definition attachment_interrupt :: "command_id \<Rightarrow> pending_resolution option \<Rightarrow> client_error + command_id \<times> nat" where
  "attachment_interrupt command_id answer = and_then (issue_result command_id answer) (\<lambda>(i, receipt).
     case receipt of ValidSignal r \<Rightarrow> Inr (i, r)
     | _ \<Rightarrow> Inl (ProtocolContractViolation ''validated signal command resolved with another receipt kind''))"

definition attachment_stop :: "command_id \<Rightarrow> pending_resolution option \<Rightarrow> client_error + command_id \<times> stop_disposition" where
  "attachment_stop command_id answer = and_then (issue_result command_id answer) (\<lambda>(i, receipt).
     case receipt of ValidStop r \<Rightarrow> Inr (i, r)
     | _ \<Rightarrow> Inl (ProtocolContractViolation ''validated stop command resolved with another receipt kind''))"

section \<open>The reader task\<close>

datatype wire_item = WireEof | WireUndecodable string | WireFailed string | WireFrame server_frame

text \<open>One turn of the reader loop; the last component tells whether the loop goes on.\<close>

definition violated :: "string \<Rightarrow> attachment_shared \<Rightarrow> attachment_shared \<times> settlements \<times> bool" where
  "violated message s = (let (s', resolutions) = terminate ProtocolViolation (Some (ProtocolContractViolation message)) s in (s', resolutions, False))"

definition reader_frame ::
  "layout \<Rightarrow> attachment_event_limits \<Rightarrow> (nat \<Rightarrow> nat option) \<Rightarrow> nat \<Rightarrow> server_frame \<Rightarrow> attachment_shared \<Rightarrow> (attachment_shared \<times> settlements \<times> bool) option" where
  "reader_frame lay lim grow spare received s =
     (case received of
        EventFrame event \<Rightarrow>
          (case inbox_push lay lim grow \<lparr>ve_event = event, ve_spare = spare\<rparr> (sh_events s) of
             Inl message \<Rightarrow> Some (violated message s)
           | Inr events \<Rightarrow> Some (s\<lparr>sh_events := events\<rparr>, [], True))
      | CommandResultFrame command_id outcome \<Rightarrow>
          map_option (\<lambda>resolved. case resolved of
              Inl message \<Rightarrow> violated message s
            | Inr (resolution, st) \<Rightarrow> (s\<lparr>sh_state := st\<rparr>, [(command_id, resolution)], True))
            (resolve_command command_id outcome (sh_state s))
      | DetachedFrame \<Rightarrow>
          (case finish_detach s of Inl message \<Rightarrow> Some (violated message s) | Inr s' \<Rightarrow> Some (s', [], False))
      | ErrorFrame failure \<Rightarrow>
          (let (s', resolutions) = terminate ProtocolViolation (Some (ProtocolErr failure)) s in Some (s', resolutions, False))
      | _ \<Rightarrow> Some (violated ''daemon sent a non-attachment frame after attach'' s))"

definition reader_turn ::
  "layout \<Rightarrow> attachment_event_limits \<Rightarrow> (nat \<Rightarrow> nat option) \<Rightarrow> nat \<Rightarrow> wire_item \<Rightarrow> attachment_shared \<Rightarrow> (attachment_shared \<times> settlements \<times> bool) option" where
  "reader_turn lay lim grow spare item s =
     (case item of
        WireFrame received \<Rightarrow> reader_frame lay lim grow spare received s
      | WireUndecodable failure \<Rightarrow>
          (let (s', resolutions) = terminate ProtocolViolation (Some (FrameError failure)) s in Some (s', resolutions, False))
      | WireFailed failure \<Rightarrow>
          (let (s', resolutions) = terminate TransportTerminated (Some (TransportError failure)) s in Some (s', resolutions, False))
      | WireEof \<Rightarrow>
          (let (s', resolutions) = terminate TransportTerminated (if accepts_clean_eof (sh_events s) then None else Some ClosedError) s
           in Some (s', resolutions, False)))"

text \<open>One turn of the writer loop, by what sending the command answered.\<close>

definition writer_turn :: "client_error option \<Rightarrow> attachment_shared \<Rightarrow> attachment_shared \<times> settlements" where
  "writer_turn failure s = (case failure of None \<Rightarrow> (s, []) | Some e \<Rightarrow> terminate TransportTerminated (Some e) s)"

definition attachment_drop :: "attachment_shared \<Rightarrow> attachment_shared \<times> settlements" where
  "attachment_drop s = terminate ClosedLocally None s"


section \<open>The life of an attachment\<close>

text \<open>
  The shared state with what happened through it: the command between its registration and its offer to the writer (the
  holder of the issue lock), the commands that took an identity and kept it, those handed to the writer, and the results
  sent to their callers.
\<close>

record attachment_world =
  aw_shared :: attachment_shared
  aw_issuing :: "command_id option"
  aw_commands :: "(command_id \<times> pending_kind) list"
  aw_sent :: "command_id list"
  aw_results :: settlements

definition attachment_opened :: attachment_world where
  "attachment_opened = \<lparr>aw_shared = shared_with_event_limits, aw_issuing = None, aw_commands = [], aw_sent = [], aw_results = []\<rparr>"

definition rolled_back :: "attachment_shared \<Rightarrow> command_id \<Rightarrow> (command_id \<times> pending_kind) list \<Rightarrow> (command_id \<times> pending_kind) list" where
  "rolled_back s command_id commands = (if command_id \<in> fst ` set (as_pending (sh_state s)) then AList.delete command_id commands else commands)"

inductive attachment_step :: "layout \<Rightarrow> attachment_event_limits \<Rightarrow> attachment_world \<Rightarrow> attachment_world \<Rightarrow> bool"
  for lay :: layout and lim :: attachment_event_limits where
  step_register: "aw_issuing w = None
    \<Longrightarrow> register_command kind (ib_observation_unavailable (sh_events (aw_shared w))) (sh_state (aw_shared w)) = Some (Inr (i, st))
    \<Longrightarrow> attachment_step lay lim w (w\<lparr>aw_shared := (aw_shared w)\<lparr>sh_state := st\<rparr>, aw_issuing := Some i, aw_commands := AList.update i kind (aw_commands w)\<rparr>)"
| step_unsent: "aw_issuing w = Some i \<Longrightarrow> issue_offer answer i (aw_shared w) = Some (Inl failure, s, results)
    \<Longrightarrow> attachment_step lay lim w (w\<lparr>aw_shared := s, aw_issuing := None, aw_commands := rolled_back (aw_shared w) i (aw_commands w),
          aw_results := aw_results w @ results\<rparr>)"
| step_sent: "aw_issuing w = Some i \<Longrightarrow> issue_offer answer i (aw_shared w) = Some (Inr (), s, results)
    \<Longrightarrow> attachment_step lay lim w (w\<lparr>aw_shared := s, aw_issuing := None, aw_sent := aw_sent w @ [i], aw_results := aw_results w @ results\<rparr>)"
| step_read: "reader_turn lay lim grow spare item (aw_shared w) = Some (s, results, goes_on)
    \<Longrightarrow> attachment_step lay lim w (w\<lparr>aw_shared := s, aw_results := aw_results w @ results\<rparr>)"
| step_write: "writer_turn failure (aw_shared w) = (s, results)
    \<Longrightarrow> attachment_step lay lim w (w\<lparr>aw_shared := s, aw_results := aw_results w @ results\<rparr>)"
| step_detach: "begin_detach (sh_state (aw_shared w)) = Inr st
    \<Longrightarrow> attachment_step lay lim w (w\<lparr>aw_shared := (aw_shared w)\<lparr>sh_state := st\<rparr>\<rparr>)"
| step_drop: "attachment_drop (aw_shared w) = (s, results)
    \<Longrightarrow> attachment_step lay lim w (w\<lparr>aw_shared := s, aw_results := aw_results w @ results\<rparr>)"
| step_next: "next_poll (sh_events (aw_shared w)) = (answer, events)
    \<Longrightarrow> attachment_step lay lim w (w\<lparr>aw_shared := (aw_shared w)\<lparr>sh_events := events\<rparr>\<rparr>)"

definition attachment_reachable :: "layout \<Rightarrow> attachment_event_limits \<Rightarrow> attachment_world \<Rightarrow> bool" where
  "attachment_reachable lay lim w \<longleftrightarrow> (attachment_step lay lim)\<^sup>*\<^sup>* attachment_opened w"

section \<open>Invariant\<close>

text \<open>A result has the type of its command.\<close>

fun resolution_fits :: "pending_kind \<Rightarrow> pending_resolution \<Rightarrow> bool" where
  "resolution_fits kind (ResolutionAccepted (ValidInput written_bytes)) \<longleftrightarrow> kind = PendingInput written_bytes"
| "resolution_fits kind (ResolutionAccepted (ValidResize applied)) \<longleftrightarrow> kind = PendingResize \<and> cols applied \<noteq> 0 \<and> rows applied \<noteq> 0"
| "resolution_fits kind (ResolutionAccepted (ValidSignal signal)) \<longleftrightarrow> kind = PendingSignal signal"
| "resolution_fits kind (ResolutionAccepted (ValidStop _)) \<longleftrightarrow> kind = PendingStop"
| "resolution_fits kind (ResolutionRejected failure) \<longleftrightarrow> validate_control_failure failure = Inr ()
     \<and> (\<forall>confirmed. cf_confirmed_input_bytes failure = Some confirmed \<longrightarrow> is_input kind \<and> confirmed \<le> input_bytes kind)"
| "resolution_fits kind (ResolutionUnknown _) \<longleftrightarrow> True"

text \<open>Every command is pending or has its one result.\<close>

definition ledger_ok :: "(command_id \<times> pending_kind) list \<Rightarrow> (command_id \<times> pending_kind) list \<Rightarrow> settlements \<Rightarrow> bool" where
  "ledger_ok pending commands results \<longleftrightarrow>
     distinct (map fst pending) \<and> distinct (map fst commands) \<and> distinct (map fst results)
     \<and> (\<forall>i kind. map_of pending i = Some kind \<longrightarrow> map_of commands i = Some kind)
     \<and> (\<forall>i kind. map_of commands i = Some kind \<longrightarrow> (map_of pending i = None) \<noteq> (map_of results i = None))
     \<and> (\<forall>i r. map_of results i = Some r \<longrightarrow> (\<exists>kind. map_of commands i = Some kind \<and> resolution_fits kind r))"

definition input_count :: "pending_kind \<Rightarrow> nat" where
  "input_count kind = (if is_input kind then 1 else 0)"

definition command_windows_ok :: "attachment_state \<Rightarrow> bool" where
  "command_windows_ok st \<longleftrightarrow> as_pending_inputs st = asum input_count (as_pending st) \<and> as_pending_input_bytes st = asum input_bytes (as_pending st)
     \<and> length (as_pending st) \<le> MAX_PENDING_COMMANDS \<and> as_pending_inputs st \<le> MAX_PENDING_INPUT_COMMANDS
     \<and> as_pending_input_bytes st \<le> MAX_PENDING_INPUT_BYTES"

definition ids_ok :: "attachment_state \<Rightarrow> (command_id \<times> pending_kind) list \<Rightarrow> bool" where
  "ids_ok st commands \<longleftrightarrow> 1 \<le> as_next_command_id st \<and> as_next_command_id st \<le> COMMAND_ID_MAX
     \<and> (\<forall>i. map_of commands i \<noteq> None \<longrightarrow> 1 \<le> i
          \<and> (i < as_next_command_id st \<or> i = COMMAND_ID_MAX \<and> as_next_command_id st = COMMAND_ID_MAX \<and> as_fence st \<noteq> None))"

definition ended_ok :: "attachment_state \<Rightarrow> bool" where
  "ended_ok st \<longleftrightarrow> (as_end st \<noteq> None \<longrightarrow> as_pending st = [] \<and> as_fence st \<noteq> None)"

definition state_ok :: "attachment_state \<Rightarrow> (command_id \<times> pending_kind) list \<Rightarrow> settlements \<Rightarrow> bool" where
  "state_ok st commands results \<longleftrightarrow> ledger_ok (as_pending st) commands results \<and> command_windows_ok st \<and> ids_ok st commands \<and> ended_ok st"

definition latest_command :: "command_id \<Rightarrow> (command_id \<times> pending_kind) list \<Rightarrow> bool" where
  "latest_command i commands \<longleftrightarrow> (\<forall>j. map_of commands j \<noteq> None \<longrightarrow> j \<le> i)"

definition issuing_ok :: "attachment_world \<Rightarrow> bool" where
  "issuing_ok w \<longleftrightarrow> (\<forall>i. aw_issuing w = Some i \<longrightarrow> map_of (aw_commands w) i \<noteq> None \<and> i \<notin> set (aw_sent w)
     \<and> latest_command i (aw_commands w) \<and> as_next_command_id (sh_state (aw_shared w)) = (if i = COMMAND_ID_MAX then COMMAND_ID_MAX else i + 1))"

definition sent_ok :: "attachment_world \<Rightarrow> bool" where
  "sent_ok w \<longleftrightarrow> distinct (aw_sent w) \<and> (\<forall>i \<in> set (aw_sent w). map_of (aw_commands w) i \<noteq> None)"

definition attachment_ok :: "attachment_world \<Rightarrow> bool" where
  "attachment_ok w \<longleftrightarrow> state_ok (sh_state (aw_shared w)) (aw_commands w) (aw_results w) \<and> issuing_ok w \<and> sent_ok w"

lemmas state_ok_defs = state_ok_def command_windows_ok_def ids_ok_def ended_ok_def

subsection \<open>Operations\<close>

lemma ledger_fresh: "ledger_ok pending commands results \<Longrightarrow> map_of commands i = None \<Longrightarrow> map_of pending i = None \<and> map_of results i = None"
  unfolding ledger_ok_def by (metis not_None_eq)

lemma ledger_pending: "ledger_ok pending commands results \<Longrightarrow> map_of pending i = Some kind \<Longrightarrow> map_of commands i = Some kind \<and> map_of results i = None"
  unfolding ledger_ok_def by (metis option.distinct(1))

lemma ledger_result: "ledger_ok pending commands results \<Longrightarrow> (i, r) \<in> set results \<Longrightarrow> \<exists>kind. (i, kind) \<in> set commands \<and> resolution_fits kind r"
  unfolding ledger_ok_def by (metis map_of_eq_Some_iff)

lemma ledger_sets:
  assumes "ledger_ok pending commands results"
  shows "fst ` set results \<subseteq> fst ` set commands" "fst ` set commands - fst ` set results = fst ` set pending"
proof -
  have "i \<in> dom (map_of commands) - dom (map_of results) \<longleftrightarrow> i \<in> dom (map_of pending)" for i
    using assms ledger_pending [OF assms, of i] unfolding ledger_ok_def by (cases "map_of commands i"; cases "map_of pending i") (auto simp del: map_of_eq_Some_iff)
  moreover have "i \<in> dom (map_of results) \<Longrightarrow> i \<in> dom (map_of commands)" for i
    using assms unfolding ledger_ok_def by (metis domD domI)
  ultimately show "fst ` set results \<subseteq> fst ` set commands" "fst ` set commands - fst ` set results = fst ` set pending"
    unfolding dom_map_of_conv_image_fst by blast+
qed

lemma ledger_register:
  assumes "ledger_ok pending commands results" "map_of commands i = None"
  shows "ledger_ok (AList.update i kind pending) (AList.update i kind commands) results"
  using assms ledger_fresh [OF assms] unfolding ledger_ok_def by (auto simp: distinct_update update_conv' simp del: map_of_eq_Some_iff)

lemma ledger_resolve:
  assumes "ledger_ok pending commands results" "map_of pending i = Some kind" "resolution_fits kind r"
  shows "ledger_ok (AList.delete i pending) commands (results @ [(i, r)])"
proof -
  have "i \<notin> fst ` set results" using ledger_pending [OF assms(1,2)] by (simp add: map_of_notin)
  then show ?thesis using assms ledger_pending [OF assms(1,2)] unfolding ledger_ok_def
    by (auto simp: distinct_delete delete_conv' map_add_def split: option.splits simp del: map_of_eq_Some_iff)
qed

lemma ledger_cancel:
  assumes "ledger_ok pending commands results" "map_of pending i = Some kind"
  shows "ledger_ok (AList.delete i pending) (AList.delete i commands) results"
  using assms ledger_pending [OF assms] unfolding ledger_ok_def by (auto simp: distinct_delete delete_conv' simp del: map_of_eq_Some_iff)

lemma map_of_unknown: "map_of (map (\<lambda>(i, _). (i, r)) pending) i = map_option (\<lambda>_. r) (map_of pending i)"
  by (induction pending) auto

lemma keys_unknown: "map fst (map (\<lambda>(i, _). (i, r)) pending) = map fst pending"
  by (induction pending) auto

lemma ledger_terminate:
  assumes "ledger_ok pending commands results"
  shows "ledger_ok [] commands (results @ map (\<lambda>(i, _). (i, ResolutionUnknown reason)) pending)" (is "ledger_ok [] commands (results @ ?new)")
proof -
  have at: "map_of (results @ ?new) i = (case map_of pending i of Some _ \<Rightarrow> Some (ResolutionUnknown reason) | None \<Rightarrow> map_of results i)" for i
    using ledger_pending [OF assms, of i] by (cases "map_of pending i") (simp_all add: map_of_unknown map_add_def split: option.splits)
  have "fst ` set pending \<inter> fst ` set results = {}"
  proof -
    have "map_of results i = None" if "i \<in> fst ` set pending" for i
      using that ledger_pending [OF assms, of i] map_of_notin [of pending i] by (cases "map_of pending i") auto
    then show ?thesis using map_of_notin [of results] by blast
  qed
  then have "distinct (map fst (results @ ?new))" using assms unfolding ledger_ok_def map_append keys_unknown by (auto simp: distinct_append)
  moreover have "\<exists>kind. map_of commands i = Some kind \<and> resolution_fits kind r" if "map_of (results @ ?new) i = Some r" for i r
    using that assms ledger_pending [OF assms, of i] unfolding at ledger_ok_def by (cases "map_of pending i") auto
  moreover have "map_of (results @ ?new) i \<noteq> None" if "map_of commands i = Some kind" for i kind
    using that assms unfolding at ledger_ok_def by (cases "map_of pending i") (auto simp del: map_of_eq_Some_iff)
  ultimately show ?thesis using assms unfolding ledger_ok_def by simp
qed

lemma release_windows:
  assumes "command_windows_ok st" "distinct (map fst (as_pending st))" "map_of (as_pending st) i = Some kind"
  shows "\<exists>inputs bytes. release_pending_capacity kind (st\<lparr>as_pending := AList.delete i (as_pending st)\<rparr>)
       = Some (st\<lparr>as_pending := AList.delete i (as_pending st), as_pending_inputs := inputs, as_pending_input_bytes := bytes\<rparr>)
     \<and> command_windows_ok (st\<lparr>as_pending := AList.delete i (as_pending st), as_pending_inputs := inputs, as_pending_input_bytes := bytes\<rparr>)"
proof -
  let ?pending = "AList.delete i (as_pending st)"
  note move = asum_delete [OF assms(2,3)]
  have len: "length ?pending \<le> length (as_pending st)" using asum_delete [OF assms(2,3), of "\<lambda>_. Suc 0"] by (simp add: asum_length)
  have c: "asum input_count ?pending + input_count kind = as_pending_inputs st" "asum input_bytes ?pending + input_bytes kind = as_pending_input_bytes st"
    using move [of input_count] move [of input_bytes] assms(1) by (simp_all add: command_windows_ok_def)
  have "release_pending_capacity kind (st\<lparr>as_pending := ?pending\<rparr>)
      = Some (st\<lparr>as_pending := ?pending, as_pending_inputs := asum input_count ?pending, as_pending_input_bytes := asum input_bytes ?pending\<rparr>)"
    using c by (cases kind) (auto simp: release_pending_capacity_def input_count_def checked_sub_def split: if_splits)
  moreover have "command_windows_ok (st\<lparr>as_pending := ?pending, as_pending_inputs := asum input_count ?pending, as_pending_input_bytes := asum input_bytes ?pending\<rparr>)"
    using assms(1) len c by (simp add: command_windows_ok_def)
  ultimately show ?thesis by blast
qed


lemma admit_register_Inr:
  assumes "admit_register kind unavailable st = Inr ()"
  shows "as_end st = None" "as_fence st = None" "\<not> unavailable" "length (as_pending st) \<noteq> MAX_PENDING_COMMANDS"
    "is_input kind \<Longrightarrow> as_pending_inputs st \<noteq> MAX_PENDING_INPUT_COMMANDS" "as_pending_input_bytes st + input_bytes kind \<le> MAX_PENDING_INPUT_BYTES"
  using assms by (auto simp: admit_register_def require_def split: option.splits if_splits)

lemma register_fresh:
  "state_ok st commands results \<Longrightarrow> as_fence st = None \<Longrightarrow> map_of commands (as_next_command_id st) = None"
  by (rule ccontr) (auto simp: state_ok_def ids_ok_def simp del: map_of_eq_Some_iff)

lemma register_total: "state_ok st commands results \<Longrightarrow> register_command kind unavailable st \<noteq> None"
proof (cases "admit_register kind unavailable st")
  case (Inr u)
  assume ok: "state_ok st commands results"
  have "map_of (as_pending st) (as_next_command_id st) = None"
    using Inr ok ledger_fresh register_fresh [OF ok] admit_register_Inr(2) [of kind unavailable st] by (fastforce simp: state_ok_def)
  then show ?thesis using ok Inr by (simp add: register_command_def Let_def map_of_notin state_ok_def ids_ok_def)
qed (simp add: register_command_def)

lemma register_ok:
  assumes "state_ok st commands results" "register_command kind unavailable st = Some (Inr (i, st'))"
  shows "state_ok st' (AList.update i kind commands) results" and "map_of commands i = None" and "latest_command i commands"
    and "as_next_command_id st' = (if i = COMMAND_ID_MAX then COMMAND_ID_MAX else i + 1)"
proof -
  have adm: "admit_register kind unavailable st = Inr ()" using assms(2) by (auto simp: register_command_def split: sum.splits)
  note a = admit_register_Inr [OF adm]
  have r: "i = as_next_command_id st" "i \<noteq> 0"
    "st' = (if i = COMMAND_ID_MAX then st\<lparr>as_fence := Some CommandIdsExhausted\<rparr> else st\<lparr>as_next_command_id := i + 1\<rparr>)
       \<lparr>as_pending_inputs := as_pending_inputs st + input_count kind, as_pending_input_bytes := as_pending_input_bytes st + input_bytes kind,
        as_pending := AList.update i kind (as_pending st)\<rparr>"
    using assms(2) by (auto simp: register_command_def adm Let_def input_count_def split: if_splits)
  show fresh: "map_of commands i = None" using register_fresh [OF assms(1) a(2)] r(1) by simp
  show "as_next_command_id st' = (if i = COMMAND_ID_MAX then COMMAND_ID_MAX else i + 1)" using r by simp
  show "latest_command i commands" using assms(1) r(1) a(2) by (auto simp: latest_command_def state_ok_def ids_ok_def simp del: map_of_eq_Some_iff)
  have ledger: "ledger_ok (as_pending st) commands results" using assms(1) by (simp add: state_ok_def)
  have free: "i \<notin> fst ` set (as_pending st)" using ledger_fresh [OF ledger fresh] by (simp add: map_of_notin)
  have "length (AList.update i kind (as_pending st)) = Suc (length (as_pending st))"
    using asum_update [OF free, of "\<lambda>_. Suc 0" kind] by (simp add: asum_length)
  then have "command_windows_ok st'" using assms(1) a(4-6) free r(3)
    by (auto simp: state_ok_def command_windows_ok_def asum_update input_count_def split: if_splits)
  moreover have "ids_ok st' (AList.update i kind commands)"
    using assms(1) r a(2) by (auto simp: state_ok_def ids_ok_def update_conv' less_Suc_eq simp del: map_of_eq_Some_iff)
  moreover have "ledger_ok (as_pending st') (AList.update i kind commands) results" using ledger_register [OF ledger fresh] r(3) by simp
  moreover have "ended_ok st'" using a(1) r(3) by (simp add: ended_ok_def)
  ultimately show "state_ok st' (AList.update i kind commands) results" by (simp add: state_ok_def)
qed

lemma check_outcome_fits: "check_outcome kind outcome = Inr r \<Longrightarrow> resolution_fits kind r"
  by (cases kind; cases outcome)
     (auto simp: check_outcome_def decode_input_receipt_def decode_resize_receipt_def decode_signal_receipt_def decode_stop_receipt_def require_def
        split: control_receipt.splits if_splits option.splits)

lemma resolve_total:
  assumes "state_ok st commands results"
  shows "resolve_command i outcome st \<noteq> None"
proof (cases "map_of (as_pending st) i")
  case (Some kind)
  then show ?thesis using assms release_windows [of st i kind]
    by (auto simp: resolve_command_def state_ok_def ledger_ok_def split: sum.splits simp del: map_of_eq_Some_iff)
qed (simp add: resolve_command_def)

lemma resolve_ok:
  assumes "state_ok st commands results" "resolve_command i outcome st = Some (Inr (r, st'))"
  shows "state_ok st' commands (results @ [(i, r)])" and "as_next_command_id st' = as_next_command_id st"
proof -
  obtain kind where k: "map_of (as_pending st) i = Some kind" "check_outcome kind outcome = Inr r"
      "release_pending_capacity kind (st\<lparr>as_pending := AList.delete i (as_pending st)\<rparr>) = Some st'"
    using assms(2) by (auto simp: resolve_command_def split: option.splits sum.splits)
  have ledger: "ledger_ok (as_pending st) commands results" using assms(1) by (simp add: state_ok_def)
  have dist: "distinct (map fst (as_pending st))" using ledger by (simp add: ledger_ok_def)
  have "command_windows_ok st" using assms(1) by (simp add: state_ok_def)
  from release_windows [OF this dist k(1)] k(3) obtain inputs bytes where
    st': "st' = st\<lparr>as_pending := AList.delete i (as_pending st), as_pending_inputs := inputs, as_pending_input_bytes := bytes\<rparr>" "command_windows_ok st'" by auto
  show "as_next_command_id st' = as_next_command_id st" using st'(1) by simp
  show "state_ok st' commands (results @ [(i, r)])"
    using assms(1) ledger_resolve [OF ledger k(1) check_outcome_fits [OF k(2)]] st' by (auto simp: state_ok_def ids_ok_def ended_ok_def)
qed

lemma cancel_ok:
  assumes "state_ok st commands results" "as_next_command_id st = (if i = COMMAND_ID_MAX then COMMAND_ID_MAX else i + 1)" "latest_command i commands"
  shows "\<exists>st'. cancel_unsent_command i st = Some st'
     \<and> state_ok st' (if i \<in> fst ` set (as_pending st) then AList.delete i commands else commands) results"
proof (cases "map_of (as_pending st) i")
  case None
  then have "i \<notin> fst ` set (as_pending st)" "cancel_unsent_command i st = Some st" by (simp_all add: map_of_notin [symmetric] cancel_unsent_command_def)
  then show ?thesis using assms(1) by simp
next
  case (Some kind)
  have ledger: "ledger_ok (as_pending st) commands results" using assms(1) by (simp add: state_ok_def)
  have dist: "distinct (map fst (as_pending st))" using ledger by (simp add: ledger_ok_def)
  have "command_windows_ok st" using assms(1) by (simp add: state_ok_def)
  from release_windows [OF this dist Some] obtain inputs bytes where
    rel: "release_pending_capacity kind (st\<lparr>as_pending := AList.delete i (as_pending st)\<rparr>)
       = Some (st\<lparr>as_pending := AList.delete i (as_pending st), as_pending_inputs := inputs, as_pending_input_bytes := bytes\<rparr>)"
    and win: "command_windows_ok (st\<lparr>as_pending := AList.delete i (as_pending st), as_pending_inputs := inputs, as_pending_input_bytes := bytes\<rparr>)" by blast
  have mem: "i \<in> fst ` set (as_pending st)" using Some by (metis map_of_notin option.distinct(1))
  then have live: "as_end st = None" using assms(1) by (auto simp: state_ok_def ended_ok_def)
  have "1 \<le> i" using ledger_pending [OF ledger Some] assms(1) by (auto simp: state_ok_def ids_ok_def simp del: map_of_eq_Some_iff)
  have others: "1 \<le> j \<and> j < i" if "map_of commands j \<noteq> None" "j \<noteq> i" for j
    using that assms(1,3) by (auto simp: latest_command_def state_ok_def ids_ok_def le_less simp del: map_of_eq_Some_iff)
  let ?st = "st\<lparr>as_pending := AList.delete i (as_pending st), as_pending_inputs := inputs, as_pending_input_bytes := bytes\<rparr>"
  let ?st' = "if i = COMMAND_ID_MAX then (if as_fence st = Some CommandIdsExhausted then ?st\<lparr>as_fence := None\<rparr> else ?st) else ?st\<lparr>as_next_command_id := i\<rparr>"
  have "cancel_unsent_command i st = Some ?st'" using assms(2) Some rel by (simp add: cancel_unsent_command_def)
  moreover have "command_windows_ok ?st'" using win by (auto simp: command_windows_ok_def)
  moreover have "ids_ok ?st' (AList.delete i commands)"
    using assms(1,2) \<open>1 \<le> i\<close> others by (auto simp: state_ok_def ids_ok_def delete_conv' simp del: map_of_eq_Some_iff)
  moreover have "ledger_ok (as_pending ?st') (AList.delete i commands) results" using ledger_cancel [OF ledger Some] by auto
  moreover have "ended_ok ?st'" using live by (simp add: ended_ok_def)
  ultimately show ?thesis using mem by (simp add: state_ok_def)
qed

lemma terminate_ok:
  assumes "state_ok (sh_state s) commands results" "terminate reason failure s = (s', new)"
  shows "state_ok (sh_state s') commands (results @ new)" and "as_next_command_id (sh_state s') = as_next_command_id (sh_state s)"
proof -
  show "as_next_command_id (sh_state s') = as_next_command_id (sh_state s)" using assms(2) by (auto simp: terminate_def Let_def split: if_splits)
  show "state_ok (sh_state s') commands (results @ new)"
  proof (cases "as_end (sh_state s)")
    case None
    then show ?thesis using assms ledger_terminate [of "as_pending (sh_state s)" commands results reason]
      by (auto simp: terminate_def Let_def state_ok_def command_windows_ok_def ids_ok_def ended_ok_def)
  next
    case (Some e)
    then show ?thesis using assms by (simp add: terminate_def)
  qed
qed


lemma finish_detach_ok:
  assumes "state_ok (sh_state s) commands results" "finish_detach s = Inr s'"
  shows "state_ok (sh_state s') commands results" and "as_next_command_id (sh_state s') = as_next_command_id (sh_state s)"
  using assms by (auto simp: finish_detach_def Let_def state_ok_def command_windows_ok_def ids_ok_def ended_ok_def split: if_splits)

lemma begin_detach_ok:
  assumes "state_ok st commands results" "begin_detach st = Inr st'"
  shows "state_ok st' commands results" and "as_next_command_id st' = as_next_command_id st"
  using assms by (auto simp: begin_detach_def state_ok_def command_windows_ok_def ids_ok_def ended_ok_def split: if_splits)

lemma violated_ok:
  assumes "state_ok (sh_state s) commands results" "violated message s = (s', new, goes_on)"
  shows "state_ok (sh_state s') commands (results @ new) \<and> as_next_command_id (sh_state s') = as_next_command_id (sh_state s)"
  using terminate_ok [OF assms(1)] assms(2) by (auto simp: violated_def Let_def split: prod.splits)

lemma reader_frame_ok:
  assumes "state_ok (sh_state s) commands results" "reader_frame lay lim grow spare received s = Some (s', new, goes_on)"
  shows "state_ok (sh_state s') commands (results @ new) \<and> as_next_command_id (sh_state s') = as_next_command_id (sh_state s)"
proof (cases received)
  case (EventFrame event)
  then show ?thesis using assms violated_ok [OF assms(1)] by (auto simp: reader_frame_def split: sum.splits)
next
  case (CommandResultFrame i outcome)
  obtain resolved where res: "resolve_command i outcome (sh_state s) = Some resolved" using resolve_total [OF assms(1)] by blast
  show ?thesis
  proof (cases resolved)
    case (Inl message)
    then show ?thesis using assms(2) violated_ok [OF assms(1), of message] res CommandResultFrame by (simp add: reader_frame_def)
  next
    case (Inr p)
    obtain r st where p: "p = (r, st)" by force
    have "resolve_command i outcome (sh_state s) = Some (Inr (r, st))" using res Inr p by simp
    moreover from this have "s' = s\<lparr>sh_state := st\<rparr>" "new = [(i, r)]" using assms(2) CommandResultFrame by (simp_all add: reader_frame_def)
    ultimately show ?thesis using resolve_ok [OF assms(1)] by simp
  qed
next
  case DetachedFrame
  then show ?thesis using assms violated_ok [OF assms(1)] finish_detach_ok [OF assms(1)] by (auto simp: reader_frame_def split: sum.splits)
next
  case (ErrorFrame failure)
  then show ?thesis using assms(2) terminate_ok [OF assms(1)] by (auto simp: reader_frame_def Let_def split: prod.splits)
qed (use assms violated_ok [OF assms(1)] in \<open>auto simp: reader_frame_def\<close>)

lemma reader_turn_ok:
  assumes "state_ok (sh_state s) commands results" "reader_turn lay lim grow spare item s = Some (s', new, goes_on)"
  shows "state_ok (sh_state s') commands (results @ new) \<and> as_next_command_id (sh_state s') = as_next_command_id (sh_state s)"
proof (cases item)
  case (WireFrame received)
  then show ?thesis using assms reader_frame_ok by (auto simp: reader_turn_def)
qed (use assms(2) terminate_ok [OF assms(1)] in \<open>auto simp: reader_turn_def Let_def split: prod.splits\<close>)

lemma reader_turn_total:
  assumes "state_ok (sh_state s) commands results"
  shows "reader_turn lay lim grow spare item s \<noteq> None"
proof (cases item)
  case (WireFrame received)
  then show ?thesis using resolve_total [OF assms]
    by (cases received) (simp_all add: reader_turn_def reader_frame_def Let_def split_beta split: sum.split del: not_None_eq)
qed (simp_all add: reader_turn_def Let_def split_beta)

lemma issue_offer_ok:
  assumes "state_ok (sh_state s) commands results" "as_next_command_id (sh_state s) = (if i = COMMAND_ID_MAX then COMMAND_ID_MAX else i + 1)"
    "latest_command i commands"
  shows "\<exists>outcome s' new. issue_offer answer i s = Some (outcome, s', new)
     \<and> (case outcome of
          Inl failure \<Rightarrow> control_disposition failure = Some NotApplied \<and> state_ok (sh_state s') (rolled_back s i commands) (results @ new)
        | Inr _ \<Rightarrow> answer = Offered \<and> s' = s \<and> new = [])"
proof -
  obtain st where st: "cancel_unsent_command i (sh_state s) = Some st" "state_ok st (rolled_back s i commands) results"
    using cancel_ok [OF assms] by (auto simp: rolled_back_def)
  obtain s' new where t: "terminate TransportTerminated (Some ClosedError) (s\<lparr>sh_state := st\<rparr>) = (s', new)" by force
  have "state_ok (sh_state s') (rolled_back s i commands) (results @ new)" using terminate_ok(1) [of "s\<lparr>sh_state := st\<rparr>"] t st(2) by simp
  then show ?thesis using st t by (cases answer) (auto simp: issue_offer_def)
qed

lemma offered_unchanged: "issue_offer answer i s = Some (Inr (), s', new) \<Longrightarrow> s' = s \<and> new = []"
  by (cases answer) (auto simp: issue_offer_def)

subsection \<open>Steps\<close>

lemma shared_step_ok:
  "attachment_ok w \<Longrightarrow> state_ok (sh_state s) (aw_commands w) (aw_results w @ new) \<and> as_next_command_id (sh_state s) = as_next_command_id (sh_state (aw_shared w))
   \<Longrightarrow> attachment_ok (w\<lparr>aw_shared := s, aw_results := aw_results w @ new\<rparr>)"
  by (simp add: attachment_ok_def issuing_ok_def sent_ok_def)

lemma unsent_step_ok:
  assumes "attachment_ok w" "aw_issuing w = Some i" "issue_offer answer i (aw_shared w) = Some (Inl failure, s, new)"
  shows "attachment_ok (w\<lparr>aw_shared := s, aw_issuing := None, aw_commands := rolled_back (aw_shared w) i (aw_commands w), aw_results := aw_results w @ new\<rparr>)"
proof -
  have i: "i \<notin> set (aw_sent w)" "as_next_command_id (sh_state (aw_shared w)) = (if i = COMMAND_ID_MAX then COMMAND_ID_MAX else i + 1)"
    "latest_command i (aw_commands w)" and ok: "state_ok (sh_state (aw_shared w)) (aw_commands w) (aw_results w)"
    using assms(1,2) by (simp_all add: attachment_ok_def issuing_ok_def)
  have "state_ok (sh_state s) (rolled_back (aw_shared w) i (aw_commands w)) (aw_results w @ new)"
    using issue_offer_ok [OF ok i(2,3), of answer] assms(3) by auto
  moreover have "map_of (rolled_back (aw_shared w) i (aw_commands w)) j = map_of (aw_commands w) j" if "j \<in> set (aw_sent w)" for j
    using that i(1) by (auto simp: rolled_back_def delete_conv' simp del: map_of_eq_Some_iff)
  ultimately show ?thesis using assms(1) by (simp add: attachment_ok_def issuing_ok_def sent_ok_def)
qed

lemma attachment_step_ok: "attachment_step lay lim w w' \<Longrightarrow> attachment_ok w \<Longrightarrow> attachment_ok w'"
proof (induction rule: attachment_step.induct)
  case (step_register w kind i st)
  then have ok: "state_ok (sh_state (aw_shared w)) (aw_commands w) (aw_results w)" and "sent_ok w" by (simp_all add: attachment_ok_def)
  from register_ok [OF ok step_register(2)] have r: "state_ok st (AList.update i kind (aw_commands w)) (aw_results w)" "map_of (aw_commands w) i = None" "latest_command i (aw_commands w)"
    "as_next_command_id st = (if i = COMMAND_ID_MAX then COMMAND_ID_MAX else i + 1)" by blast+
  have "i \<notin> set (aw_sent w)" using \<open>sent_ok w\<close> r(2) by (auto simp: sent_ok_def)
  then show ?case using r \<open>sent_ok w\<close> by (simp add: attachment_ok_def issuing_ok_def sent_ok_def latest_command_def update_conv')
next
  case (step_unsent w i answer failure s results)
  then show ?case by (intro unsent_step_ok)
next
  case (step_sent w i answer s results)
  then show ?case using offered_unchanged [OF step_sent(2)] by (auto simp: attachment_ok_def issuing_ok_def sent_ok_def)
next
  case (step_read grow spare item w s results goes_on)
  then show ?case by (intro shared_step_ok reader_turn_ok [where goes_on = goes_on]) (simp_all add: attachment_ok_def)
next
  case (step_write failure w s results)
  then show ?case using terminate_ok [of "aw_shared w" "aw_commands w" "aw_results w"]
    by (intro shared_step_ok) (auto simp: attachment_ok_def writer_turn_def split: option.splits)
next
  case (step_detach w st)
  then show ?case using begin_detach_ok [of "sh_state (aw_shared w)" "aw_commands w" "aw_results w" st]
    by (auto simp: attachment_ok_def issuing_ok_def sent_ok_def)
next
  case (step_drop w s results)
  then show ?case using terminate_ok [of "aw_shared w" "aw_commands w" "aw_results w"]
    by (intro shared_step_ok) (auto simp: attachment_ok_def attachment_drop_def)
next
  case (step_next w answer events)
  then show ?case by (simp add: attachment_ok_def issuing_ok_def sent_ok_def)
qed

lemma attachment_opened_ok: "attachment_ok attachment_opened"
  by (simp add: attachment_ok_def attachment_opened_def shared_with_event_limits_def attachment_state_default_def issuing_ok_def sent_ok_def
      state_ok_def ledger_ok_def command_windows_ok_def ids_ok_def ended_ok_def COMMAND_ID_MAX_def)

lemma attachment_reachable_ok: "attachment_reachable lay lim w \<Longrightarrow> attachment_ok w"
  unfolding attachment_reachable_def by (induction rule: rtranclp_induct) (auto intro: attachment_opened_ok attachment_step_ok)


section \<open>Settlement and types\<close>

text \<open>What a public call may answer: a receipt of its own type, the daemon's own rejection, or that the result is unknown.\<close>

definition typed_answer :: "command_id \<Rightarrow> ('r \<Rightarrow> bool) \<Rightarrow> client_error + command_id \<times> 'r \<Rightarrow> bool" where
  "typed_answer i good answer \<longleftrightarrow> (\<exists>v. answer = Inr (i, v) \<and> good v)
     \<or> (\<exists>failure. answer = Inl (ControlRejectedError failure) \<and> validate_control_failure failure = Inr ())
     \<or> (\<exists>reason. answer = Inl (AttachmentCommandUnknown i reason))"

lemma resolution_typed:
  "resolution_fits (PendingInput n) r \<Longrightarrow> typed_answer i (\<lambda>v. v = n) (attachment_input i (Some r))"
  "resolution_fits PendingResize r \<Longrightarrow> typed_answer i (\<lambda>v. cols v \<noteq> 0 \<and> rows v \<noteq> 0) (attachment_resize i (Some r))"
  "resolution_fits (PendingSignal signal) r \<Longrightarrow> typed_answer i (\<lambda>v. v = signal) (attachment_interrupt i (Some r))"
  "resolution_fits PendingStop r \<Longrightarrow> typed_answer i (\<lambda>v. True) (attachment_stop i (Some r))"
  by (cases r; (rename_tac v, case_tac v)?;
      auto simp: typed_answer_def attachment_input_def attachment_resize_def attachment_interrupt_def attachment_stop_def issue_result_def)+

lemma results_fit:
  assumes "attachment_ok w" "(i, kind) \<in> set (aw_commands w)" "(i, r) \<in> set (aw_results w)"
  shows "resolution_fits kind r"
proof -
  have led: "ledger_ok (as_pending (sh_state (aw_shared w))) (aw_commands w) (aw_results w)" using assms(1) by (simp add: attachment_ok_def state_ok_def)
  obtain kind' where "(i, kind') \<in> set (aw_commands w)" "resolution_fits kind' r" using ledger_result [OF led assms(3)] by blast
  moreover have "distinct (map fst (aw_commands w))" using led by (simp add: ledger_ok_def)
  ultimately show ?thesis using eq_key_imp_eq_value assms(2) by metis
qed

text \<open>A three-byte input, handed to the writer and acknowledged by the daemon.\<close>

definition sample_attachment :: attachment_world where
  "sample_attachment = attachment_opened\<lparr>aw_shared := shared_with_event_limits\<lparr>sh_state := attachment_state_default\<lparr>as_next_command_id := 2\<rparr>\<rparr>,
     aw_commands := [(1, PendingInput 3)], aw_sent := [1], aw_results := [(1, ResolutionAccepted (ValidInput 3))]\<rparr>"

lemma sample_attachment_reachable: "attachment_reachable lay lim sample_attachment"
proof -
  let ?st = "attachment_state_default\<lparr>as_next_command_id := 2, as_pending := [(1, PendingInput 3)], as_pending_inputs := 1, as_pending_input_bytes := 3\<rparr>"
  let ?w1 = "attachment_opened\<lparr>aw_shared := shared_with_event_limits\<lparr>sh_state := ?st\<rparr>, aw_issuing := Some 1, aw_commands := [(1, PendingInput 3)]\<rparr>"
  let ?w2 = "?w1\<lparr>aw_issuing := None, aw_sent := [1]\<rparr>"
  note eval = attachment_opened_def shared_with_event_limits_def attachment_state_default_def inbox_with_limits_def
  have "register_command (PendingInput 3) False attachment_state_default = Some (Inr (1, ?st))"
    by (simp add: register_command_def admit_register_def require_def attachment_state_default_def checked_add_def max_values COMMAND_ID_MAX_def
        MAX_PENDING_COMMANDS_def MAX_PENDING_INPUT_COMMANDS_def MAX_PENDING_INPUT_BYTES_def)
  then have "attachment_step lay lim attachment_opened ?w1"
    using step_register [of attachment_opened "PendingInput 3" 1 ?st lay lim] by (simp add: eval)
  moreover have "attachment_step lay lim ?w1 ?w2"
    using step_sent [of ?w1 1 Offered "aw_shared ?w1" "[]" lay lim] by (simp add: eval issue_offer_def)
  moreover have "reader_turn lay lim (\<lambda>_. None) 0 (WireFrame (CommandResultFrame 1 (OutcomeAccepted (InputReceipt 3)))) (aw_shared ?w2)
      = Some (aw_shared sample_attachment, [(1, ResolutionAccepted (ValidInput 3))], True)"
    by (simp add: eval sample_attachment_def reader_turn_def reader_frame_def resolve_command_def check_outcome_def decode_input_receipt_def
        release_pending_capacity_def checked_sub_def)
  from step_read [OF this] have "attachment_step lay lim ?w2 sample_attachment" by (simp add: eval sample_attachment_def)
  ultimately show ?thesis unfolding attachment_reachable_def by (meson rtranclp.rtrancl_into_rtrancl rtranclp.rtrancl_refl)
qed

text \<open>
  C17 (type).  The result of a command has the type of the command.  However issuing, reading, writing, detaching and
  closing interleave, and whatever the daemon sends: a settled input answers the byte count it asked for, a resize a size
  with no zero dimension, an interrupt its own signal and a stop a stop receipt; otherwise the call answers the daemon's own
  well-formed rejection or that the result is unknown.  The answers reserved for a receipt of another kind never occur.
\<close>

theorem attachment_results_typed:
  assumes "attachment_reachable lay lim w" and "(i, r) \<in> set (aw_results w)"
  shows "((i, PendingInput n) \<in> set (aw_commands w) \<longrightarrow> typed_answer i (\<lambda>v. v = n) (attachment_input i (Some r)))
     \<and> ((i, PendingResize) \<in> set (aw_commands w) \<longrightarrow> typed_answer i (\<lambda>v. cols v \<noteq> 0 \<and> rows v \<noteq> 0) (attachment_resize i (Some r)))
     \<and> ((i, PendingSignal signal) \<in> set (aw_commands w) \<longrightarrow> typed_answer i (\<lambda>v. v = signal) (attachment_interrupt i (Some r)))
     \<and> ((i, PendingStop) \<in> set (aw_commands w) \<longrightarrow> typed_answer i (\<lambda>v. True) (attachment_stop i (Some r)))
     \<and> (\<exists>kind. (i, kind) \<in> set (aw_commands w))"
proof -
  note ok = attachment_reachable_ok [OF assms(1)]
  note fits = results_fit [OF ok _ assms(2)]
  have "\<exists>kind. (i, kind) \<in> set (aw_commands w)"
    using ok ledger_result [OF _ assms(2)] by (auto simp: attachment_ok_def state_ok_def)
  then show ?thesis using resolution_typed fits by blast
qed

theorem attachment_results_typed_witness:
  "typed_answer 1 (\<lambda>v. v = 3) (attachment_input 1 (Some (ResolutionAccepted (ValidInput 3))))"
  using attachment_results_typed [OF sample_attachment_reachable, of 1 "ResolutionAccepted (ValidInput 3)" 3] by (simp add: sample_attachment_def)

text \<open>
  C20 (safety).  Every command is settled once and under one identity.  In every reachable attachment: the identities are
  distinct, nonzero and of 32 bits; a command is handed to the writer once; a command that keeps its identity is either
  pending or has exactly one result, and no result names anything else; at most 64 commands, 32 inputs and 1 MiB of input
  are pending, and the counters are exact; once the attachment ended nothing is pending.  No assertion or subtraction of the
  owner can fail, and a command that could not be handed to the writer fails as not applied.
\<close>

theorem attachment_commands_settle_once:
  assumes "attachment_reachable lay lim w"
  shows "distinct (map fst (aw_commands w)) \<and> fst ` set (aw_commands w) \<subseteq> {1..COMMAND_ID_MAX}
     \<and> distinct (aw_sent w) \<and> set (aw_sent w) \<subseteq> fst ` set (aw_commands w)
     \<and> distinct (map fst (aw_results w)) \<and> fst ` set (aw_results w) \<subseteq> fst ` set (aw_commands w)
     \<and> fst ` set (aw_commands w) - fst ` set (aw_results w) = fst ` set (as_pending (sh_state (aw_shared w)))
     \<and> length (as_pending (sh_state (aw_shared w))) \<le> 64 \<and> asum input_count (as_pending (sh_state (aw_shared w))) \<le> 32
     \<and> asum input_bytes (as_pending (sh_state (aw_shared w))) \<le> 1048576
     \<and> as_pending_inputs (sh_state (aw_shared w)) = asum input_count (as_pending (sh_state (aw_shared w)))
     \<and> as_pending_input_bytes (sh_state (aw_shared w)) = asum input_bytes (as_pending (sh_state (aw_shared w)))
     \<and> (as_end (sh_state (aw_shared w)) \<noteq> None \<longrightarrow> as_pending (sh_state (aw_shared w)) = [])
     \<and> register_command kind unavailable (sh_state (aw_shared w)) \<noteq> None \<and> reader_turn lay lim grow spare item (aw_shared w) \<noteq> None
     \<and> (\<forall>i. aw_issuing w = Some i \<longrightarrow> issue_offer answer i (aw_shared w) \<noteq> None
          \<and> (\<forall>failure s results. issue_offer answer i (aw_shared w) = Some (Inl failure, s, results) \<longrightarrow> control_disposition failure = Some NotApplied))"
  (is "?distinct \<and> ?range \<and> ?sent \<and> ?subset \<and> ?once \<and> ?named \<and> ?open \<and> ?rest")
proof -
  have st: "state_ok (sh_state (aw_shared w)) (aw_commands w) (aw_results w)" and iss: "issuing_ok w" and sent: "sent_ok w"
    using attachment_reachable_ok [OF assms] by (simp_all add: attachment_ok_def)
  have led: "ledger_ok (as_pending (sh_state (aw_shared w))) (aw_commands w) (aw_results w)" using st by (simp add: state_ok_def)
  have ?distinct ?once using led by (simp_all add: ledger_ok_def)
  moreover have ?range using st map_of_notin [of "aw_commands w"] by (fastforce simp: state_ok_def ids_ok_def)
  moreover have ?sent ?subset using sent map_of_notin [of "aw_commands w"] by (auto simp: sent_ok_def)
  moreover have ?named ?open using ledger_sets [OF led] by simp_all
  moreover have ?rest
  proof -
    have "issue_offer answer i (aw_shared w) \<noteq> None
          \<and> (\<forall>failure s results. issue_offer answer i (aw_shared w) = Some (Inl failure, s, results) \<longrightarrow> control_disposition failure = Some NotApplied)"
      if "aw_issuing w = Some i" for i
      using issue_offer_ok [OF st, of i answer] iss that by (auto simp: issuing_ok_def)
    then show ?thesis using st register_total [OF st] reader_turn_total [OF st]
      by (auto simp: state_ok_def command_windows_ok_def ended_ok_def MAX_PENDING_COMMANDS_def MAX_PENDING_INPUT_COMMANDS_def MAX_PENDING_INPUT_BYTES_def
          simp del: not_None_eq)
  qed
  ultimately show ?thesis by blast
qed

theorem attachment_commands_settle_once_witness:
  "fst ` set (aw_commands sample_attachment) - fst ` set (aw_results sample_attachment) = {}
   \<and> register_command PendingStop False (sh_state (aw_shared sample_attachment)) \<noteq> None"
  using attachment_commands_settle_once [OF sample_attachment_reachable, where kind = PendingStop and unavailable = False]
  by (simp add: sample_attachment_def shared_with_event_limits_def attachment_state_default_def)

end
