(* ===== verification/Daemon_Attachment.thy ===== *)
theory Daemon_Attachment
  imports Event_Inbox Live_Events Upgrade_Gate
begin

text \<open>
  The live phase of an attachment in the daemon (\<^verbatim>\<open>handle_pinned\<close> of \<^verbatim>\<open>crates/ctxmux-daemon/src/attachment.rs\<close> after the snapshot): one loop
  that answers commands, admits them in order, forwards live events, recovers from lag, and holds the terminal event back
  until every command is answered.

  What other owners answer is an argument of the turn: the upgrade gate's admission, the Run's control capability and what its
  budgets still fund (\<open>session_owner\<close>), the outcome of an admitted command and the Run's current information.  Frames are
  handed to the codec in order; a failed send ends the session (\<open>turn_failed\<close>) and any prefix of them may reach the client.
\<close>

section \<open>State\<close>

record recoverable_stop =
  rs_daemon_instance :: nat
  rs_operation_key :: operation_key
  rs_id :: run_id

datatype client_frame =
    InputClientFrame command_id "byte list"
  | ResizeClientFrame command_id terminal_size
  | SignalClientFrame command_id nat
  | StopClientFrame command_id recoverable_stop
  | DetachClientFrame
  | HelloClientFrame
  | RequestClientFrame

text \<open>A command waiting for admission or for its result, and whether it is a Stop.\<close>

type_synonym session_command = "command_id \<times> bool"

text \<open>
  The last two fields are observations: the commands whose identity was accepted, and whether an observation discontinuity
  was ever received as a live event of its own.
\<close>

record session =
  ds_last_command_id :: "command_id option"
  ds_pending_stops :: usize
  ds_held_terminal :: "run_event option"
  ds_admissions :: "session_command list"
  ds_results :: "session_command list"
  ds_receiver_lagged :: bool
  ds_observation_closed :: bool
  ds_live_cursor :: live_event_cursor
  ds_sent_through_byte :: u64
  ds_sent_service_revision :: u64
  ds_sent_resize_revision :: u64
  ds_returned :: bool
  ds_wire :: "server_frame list"
  ds_accepted :: "command_id list"
  ds_live_discontinuity :: bool

definition send_frame :: "server_frame \<Rightarrow> session \<Rightarrow> session" where
  "send_frame f s = s\<lparr>ds_wire := ds_wire s @ [f]\<rparr>"

definition send_command_result :: "command_id \<Rightarrow> control_outcome \<Rightarrow> session \<Rightarrow> session" where
  "send_command_result command_id result s = send_frame (CommandResultFrame command_id result) s"

definition finished :: "session \<Rightarrow> session" where
  "finished s = s\<lparr>ds_returned := True\<rparr>"

definition session_idle :: "session \<Rightarrow> bool" where
  "session_idle s \<longleftrightarrow> ds_pending_stops s = 0 \<and> ds_admissions s = [] \<and> ds_results s = []"

section \<open>Commands\<close>

definition observe_command_id :: "command_id option \<Rightarrow> command_id \<Rightarrow> protocol_error + command_id option" where
  "observe_command_id last_id command_id =
     (if (case last_id of None \<Rightarrow> command_id = 1 | Some previous \<Rightarrow> command_id > previous) then Inr (Some command_id)
      else Inl \<lparr>pe_code = InvalidRequest, pe_message = ''attachment command ids must start at 1 and then increase strictly''\<rparr>)"

definition session_outcome :: "control_result \<Rightarrow> control_outcome" where
  "session_outcome result = (case result of Inr receipt \<Rightarrow> OutcomeAccepted receipt | Inl failure \<Rightarrow> OutcomeRejected failure)"

definition upgrade_retry_error :: protocol_error where
  "upgrade_retry_error = \<lparr>pe_code = BackendUnavailable, pe_message = ''ctxmux daemon is draining for an exec-in-place upgrade; reconnect and retry''\<rparr>"

definition observation_closed_failure :: "bool \<Rightarrow> control_failure" where
  "observation_closed_failure recoverable =
     (let failure = not_applied_error \<lparr>pe_code = BackendUnavailable, pe_message = ''attachment observation stream ended; reattach to resume observation''\<rparr>
      in if recoverable then failure\<lparr>cf_disposition := DispositionUnknown\<rparr> else failure)"

text \<open>The owners a command meets: the daemon, the attached Run, and whether their budgets fund a payload and a pending future.\<close>

record session_owner =
  ow_daemon_instance :: nat
  ow_run :: run_id
  ow_native_control :: "protocol_error + unit"
  ow_reserve_input_payload :: "usize \<Rightarrow> bool"
  ow_reserve_control_memory :: bool

definition push_admission :: "session_owner \<Rightarrow> command_id \<Rightarrow> bool \<Rightarrow> session \<Rightarrow> control_failure + session" where
  "push_admission owner command_id is_stop s =
     (case ow_native_control owner of
        Inl e \<Rightarrow> Inl (not_applied_error e)
      | Inr _ \<Rightarrow>
          if ow_reserve_control_memory owner then Inr (s\<lparr>ds_admissions := ds_admissions s @ [(command_id, is_stop)]\<rparr>)
          else Inl (not_applied ControlBackpressure ''daemon attachment admission-memory budget is full''))"

definition queue_input_admission :: "session_owner \<Rightarrow> command_id \<Rightarrow> byte list \<Rightarrow> session \<Rightarrow> control_failure + session" where
  "queue_input_admission owner command_id data s =
     (case ow_native_control owner of
        Inl e \<Rightarrow> Inl (not_applied_error e)
      | Inr _ \<Rightarrow>
          if ow_reserve_input_payload owner (length data) then push_admission owner command_id False s
          else Inl (not_applied ControlBackpressure ''daemon attachment waiting-payload budget is full''))"

definition validate_recoverable_stop :: "session_owner \<Rightarrow> recoverable_stop \<Rightarrow> run_id option \<Rightarrow> control_failure + unit" where
  "validate_recoverable_stop owner operation attached_run =
     (if rs_daemon_instance operation \<noteq> ow_daemon_instance owner
      then Inl (not_applied DaemonInstanceMismatch ''recoverable native Stop belongs to another daemon incarnation'')
      else if (case attached_run of None \<Rightarrow> False | Some i \<Rightarrow> i \<noteq> rs_id operation)
      then Inl (not_applied StopOperationConflict ''attachment Stop operation names another Run'')
      else Inr ())"

definition handle_stop_command :: "session_owner \<Rightarrow> command_id \<Rightarrow> recoverable_stop \<Rightarrow> session \<Rightarrow> session" where
  "handle_stop_command owner command_id operation s =
     (case validate_recoverable_stop owner operation (Some (ow_run owner)) of
        Inl failure \<Rightarrow> send_command_result command_id (OutcomeRejected failure) s
      | Inr _ \<Rightarrow>
          (case push_admission owner command_id True s of
             Inr s' \<Rightarrow> s'\<lparr>ds_pending_stops := ds_pending_stops s' + 1\<rparr>
           | Inl failure \<Rightarrow> send_command_result command_id (OutcomeRejected (failure\<lparr>cf_disposition := DispositionUnknown\<rparr>)) s))"

datatype control_command = InputCommand "byte list" | ResizeCommand terminal_size | SignalCommand nat | StopCommand recoverable_stop

fun command_of :: "client_frame \<Rightarrow> (command_id \<times> control_command) option" where
  "command_of (InputClientFrame i data) = Some (i, InputCommand data)"
| "command_of (ResizeClientFrame i z) = Some (i, ResizeCommand z)"
| "command_of (SignalClientFrame i signal) = Some (i, SignalCommand signal)"
| "command_of (StopClientFrame i operation) = Some (i, StopCommand operation)"
| "command_of _ = None"

fun is_stop_command :: "control_command \<Rightarrow> bool" where
  "is_stop_command (StopCommand _) = True"
| "is_stop_command _ = False"

definition invalid_frame :: server_frame where
  "invalid_frame = ErrorFrame \<lparr>pe_code = InvalidRequest, pe_message = ''frame is not valid during attachment''\<rparr>"

definition accept_command :: "command_id \<Rightarrow> session \<Rightarrow> session" where
  "accept_command i s = s\<lparr>ds_accepted := ds_accepted s @ [i]\<rparr>"

text \<open>A command that could not be queued is answered at once.\<close>

definition queued_or_rejected :: "command_id \<Rightarrow> session \<Rightarrow> control_failure + session \<Rightarrow> session" where
  "queued_or_rejected command_id s queued =
     (case queued of Inr s' \<Rightarrow> s' | Inl failure \<Rightarrow> send_command_result command_id (OutcomeRejected failure) s)"

definition execute_command :: "session_owner \<Rightarrow> command_id \<Rightarrow> control_command \<Rightarrow> session \<Rightarrow> session" where
  "execute_command owner command_id command s =
     (case command of
        StopCommand operation \<Rightarrow> handle_stop_command owner command_id operation s
      | InputCommand data \<Rightarrow> queued_or_rejected command_id s (queue_input_admission owner command_id data s)
      | ResizeCommand _ \<Rightarrow> queued_or_rejected command_id s (push_admission owner command_id False s)
      | SignalCommand _ \<Rightarrow> queued_or_rejected command_id s (push_admission owner command_id False s))"

definition handle_frame :: "admission \<Rightarrow> session_owner \<Rightarrow> client_frame \<Rightarrow> session \<Rightarrow> session" where
  "handle_frame gate owner received s =
     (case command_of received of
        None \<Rightarrow> if received = DetachClientFrame then finished (send_frame DetachedFrame s) else send_frame invalid_frame s
      | Some (command_id, command) \<Rightarrow>
          (case observe_command_id (ds_last_command_id s) command_id of
             Inl failure \<Rightarrow> finished (send_frame (ErrorFrame failure) s)
           | Inr last_id \<Rightarrow>
               (let s = s\<lparr>ds_last_command_id := last_id\<rparr>
                in case gate of
                     RefusedSealed \<Rightarrow> finished s
                   | Retry \<Rightarrow> send_command_result command_id (OutcomeRejected (not_applied_error upgrade_retry_error)) (accept_command command_id s)
                   | Execute \<Rightarrow> execute_command owner command_id command (accept_command command_id s))))"

definition reject_after_observation_close :: "client_frame \<Rightarrow> session \<Rightarrow> session" where
  "reject_after_observation_close received s =
     (case command_of received of
        None \<Rightarrow> if received = DetachClientFrame then finished (send_frame DetachedFrame s) else send_frame invalid_frame s
      | Some (command_id, command) \<Rightarrow>
          (case observe_command_id (ds_last_command_id s) command_id of
             Inl failure \<Rightarrow> finished (send_frame (ErrorFrame failure) s)
           | Inr last_id \<Rightarrow>
               send_command_result command_id (OutcomeRejected (observation_closed_failure (is_stop_command command)))
                 (accept_command command_id (s\<lparr>ds_last_command_id := last_id\<rparr>))))"

fun cancel_unadmitted :: "session_command list \<Rightarrow> session \<Rightarrow> session" where
  "cancel_unadmitted [] s = s"
| "cancel_unadmitted ((command_id, is_stop) # rest) s =
     cancel_unadmitted rest
       (let s = send_command_result command_id (OutcomeRejected (observation_closed_failure is_stop)) (s\<lparr>ds_admissions := rest\<rparr>)
        in if is_stop then s\<lparr>ds_pending_stops := ds_pending_stops s - 1\<rparr> else s)"

section \<open>Events\<close>

definition CAUSES_SUBSCRIBER_LAG :: output_gap_causes where
  "CAUSES_SUBSCRIBER_LAG = CAUSES_NONE\<lparr>subscriber_lag := True\<rparr>"
definition CAUSES_GEOMETRY_LAG :: output_gap_causes where
  "CAUSES_GEOMETRY_LAG = CAUSES_NONE\<lparr>geometry_lag := True\<rparr>"
definition CAUSES_TERMINAL_CATCHUP :: output_gap_causes where
  "CAUSES_TERMINAL_CATCHUP = CAUSES_NONE\<lparr>terminal_catchup := True\<rparr>"

text \<open>\<open>None\<close> is the unreachable case of a Run that still runs.\<close>

definition terminal_event :: "run_state \<Rightarrow> run_event option" where
  "terminal_event st =
     (case st of Running \<Rightarrow> None | Exited _ _ \<Rightarrow> Some (EvExited st) | Interrupted reason \<Rightarrow> Some (EvInterrupted reason))"

definition send_event :: "run_event \<Rightarrow> session \<Rightarrow> session" where
  "send_event event s = send_frame (EventFrame event) s"

definition finish_terminal_snapshot :: "live_event_cursor \<Rightarrow> live_event_cursor \<Rightarrow> u64 \<Rightarrow> run_event \<Rightarrow> run_event list" where
  "finish_terminal_snapshot now live_cursor sent_through_byte terminal =
     (let discontinuous = lc_observation_revision now > lc_observation_revision live_cursor
      in (if discontinuous then [EvObservationDiscontinuity] else [])
         @ (if \<not> discontinuous \<and> (lc_output_bytes now > sent_through_byte
                \<or> lc_output_discontinuity_revision now > lc_output_discontinuity_revision live_cursor)
            then [EvGap (max (lc_output_bytes now) (lc_latest_output_discontinuity_byte now))
                   (causes_union CAUSES_TERMINAL_CATCHUP (causes_since (lc_gap_causes now) (lc_gap_causes live_cursor)))]
            else [])
         @ [terminal])"

datatype lag_recovery = LagContinue | LagClose | LagTerminal run_event

definition recover_output :: "run_info \<Rightarrow> live_event_cursor \<Rightarrow> session \<Rightarrow> session" where
  "recover_output authoritative retained s =
     (let delivered = ds_live_cursor s;
          lost_output_marker = lc_output_discontinuity_revision retained > lc_output_discontinuity_revision delivered;
          lost_output_bytes = lc_output_bytes retained > ds_sent_through_byte s;
          lost_resize = lc_resize_revision retained > ds_sent_resize_revision s
      in if lost_output_marker \<or> lost_output_bytes \<or> lost_resize
         then let marker_head = (if lost_output_marker then lc_latest_output_discontinuity_byte retained else 0);
                  latest = max (max (lc_output_bytes retained) marker_head) (ri_latest_output_bytes authoritative)
              in send_event (EvGap latest (causes_union (causes_union CAUSES_SUBSCRIBER_LAG (if lost_resize then CAUSES_GEOMETRY_LAG else CAUSES_NONE))
                   (causes_since (lc_gap_causes retained) (lc_gap_causes delivered))))
                   (s\<lparr>ds_sent_through_byte := max (ds_sent_through_byte s) latest\<rparr>)
         else s)"

definition recover_service :: "run_info \<Rightarrow> live_event_cursor \<Rightarrow> session \<Rightarrow> session" where
  "recover_service authoritative retained s =
     (case ri_native_service authoritative of
        Some service \<Rightarrow>
          if lc_service_revision retained > lc_service_revision (ds_live_cursor s) \<and> sv_revision service > ds_sent_service_revision s
          then send_event (EvServiceChanged service) (s\<lparr>ds_sent_service_revision := sv_revision service\<rparr>)
          else s
      | None \<Rightarrow> s)"

definition recover_lagged_delivery :: "run_info \<Rightarrow> live_event_cursor \<Rightarrow> session \<Rightarrow> lag_recovery \<times> session" where
  "recover_lagged_delivery authoritative retained s0 =
     (let lost_observation = lc_observation_revision retained > lc_observation_revision (ds_live_cursor s0);
          lost_terminal = lc_terminal_revision retained > lc_terminal_revision (ds_live_cursor s0);
          s1 = (if lost_observation then send_event EvObservationDiscontinuity s0 else s0);
          s2 = (if \<not> lost_observation then recover_output authoritative retained s1 else s1)
      in if lost_observation \<and> ri_state authoritative = Running then (LagClose, s2)
         else let s3 = (if \<not> lost_observation then recover_service authoritative retained s2 else s2)
              in case terminal_event (ri_state authoritative) of
                   Some terminal \<Rightarrow> if lost_observation \<or> lost_terminal then (LagTerminal terminal, s3) else (LagContinue, s3)
                 | None \<Rightarrow> (LagContinue, s3))"

definition deliver_terminal :: "run_event \<Rightarrow> session \<Rightarrow> session" where
  "deliver_terminal terminal s = (if session_idle s then finished (send_event terminal s) else s\<lparr>ds_held_terminal := Some terminal\<rparr>)"

definition deliver_event :: "run_event \<Rightarrow> session \<Rightarrow> session" where
  "deliver_event event s =
     (case event of
        EvOutput chunk \<Rightarrow>
          if end_byte chunk \<le> ds_sent_through_byte s then s else send_event event (s\<lparr>ds_sent_through_byte := end_byte chunk\<rparr>)
      | EvResized _ _ resize_revision \<Rightarrow>
          if resize_revision \<le> ds_sent_resize_revision s then s else send_event event (s\<lparr>ds_sent_resize_revision := resize_revision\<rparr>)
      | EvServiceChanged service \<Rightarrow>
          if sv_revision service \<le> ds_sent_service_revision s then s else send_event event (s\<lparr>ds_sent_service_revision := sv_revision service\<rparr>)
      | EvExited _ \<Rightarrow> deliver_terminal event s
      | EvInterrupted _ \<Rightarrow> deliver_terminal event s
      | _ \<Rightarrow> send_event event s)"

text \<open>A lagged or unfunded delivery is recovered first; what the retained envelope adds is delivered after it.\<close>

definition recovered_of :: "run_info \<Rightarrow> live_run_event \<Rightarrow> session \<Rightarrow> lag_recovery \<times> session" where
  "recovered_of authoritative envelope s =
     (let needed = (le_published envelope = SnapshotNeeded)
      in if ds_receiver_lagged s \<or> needed
         then recover_lagged_delivery authoritative (if needed then le_after envelope else le_before envelope) (s\<lparr>ds_receiver_lagged := False\<rparr>)
         else (LagContinue, s))"

definition continue_envelope :: "live_run_event \<Rightarrow> session \<Rightarrow> session" where
  "continue_envelope envelope s =
     (if le_published envelope = SnapshotNeeded then s\<lparr>ds_live_cursor := le_after envelope\<rparr>
      else case le_event envelope of
             None \<Rightarrow> s\<lparr>ds_live_cursor := le_after envelope\<rparr>
           | Some event \<Rightarrow> deliver_event event (s\<lparr>ds_live_cursor := le_after envelope\<rparr>))"

definition receive_envelope :: "run_info \<Rightarrow> live_run_event \<Rightarrow> session \<Rightarrow> session" where
  "receive_envelope authoritative envelope s0 =
     (case recovered_of authoritative envelope s0 of (recovered, s) \<Rightarrow>
        (case recovered of
           LagClose \<Rightarrow> cancel_unadmitted (ds_admissions s) (s\<lparr>ds_observation_closed := True\<rparr>)
         | LagTerminal terminal \<Rightarrow> deliver_terminal terminal s
         | LagContinue \<Rightarrow> continue_envelope envelope s))"

section \<open>Turns of the loop\<close>

definition command_admitted :: "session \<Rightarrow> session" where
  "command_admitted s = (case ds_admissions s of [] \<Rightarrow> s | c # rest \<Rightarrow> s\<lparr>ds_admissions := rest, ds_results := ds_results s @ [c]\<rparr>)"

definition answer_completed :: "session_command \<Rightarrow> control_result \<Rightarrow> session \<Rightarrow> session" where
  "answer_completed c result s0 =
     (let s = send_command_result (fst c) (session_outcome result) (s0\<lparr>ds_results := remove1 c (ds_results s0)\<rparr>)
      in if snd c then s\<lparr>ds_pending_stops := ds_pending_stops s - 1\<rparr> else s)"

definition release_terminal :: "session \<Rightarrow> session" where
  "release_terminal s =
     (case ds_held_terminal s of
        Some event \<Rightarrow> if session_idle s then finished (send_event event (s\<lparr>ds_held_terminal := None\<rparr>)) else s
      | None \<Rightarrow> s)"

definition command_completed :: "session_command \<Rightarrow> control_result \<Rightarrow> session \<Rightarrow> session" where
  "command_completed c result s = release_terminal (answer_completed c result s)"

text \<open>The loop returns at its head once a closed view has nothing left to answer.\<close>

definition loop_head :: "session \<Rightarrow> session" where
  "loop_head s = (if ds_observation_closed s \<and> ds_admissions s = [] \<and> ds_results s = [] then finished s else s)"

inductive session_step :: "session \<Rightarrow> session \<Rightarrow> bool" where
  turn_completed: "\<not> ds_returned s \<Longrightarrow> c \<in> set (ds_results s) \<Longrightarrow> session_step s (loop_head (command_completed c result s))"
| turn_admitted: "\<not> ds_returned s \<Longrightarrow> ds_admissions s \<noteq> [] \<Longrightarrow> session_step s (loop_head (command_admitted s))"
| turn_frame: "\<not> ds_returned s \<Longrightarrow> \<not> ds_observation_closed s \<Longrightarrow> session_step s (loop_head (handle_frame gate owner received s))"
| turn_rejected: "\<not> ds_returned s \<Longrightarrow> ds_observation_closed s \<Longrightarrow> session_step s (loop_head (reject_after_observation_close received s))"
| turn_event: "\<not> ds_returned s \<Longrightarrow> ds_held_terminal s = None \<Longrightarrow> \<not> ds_observation_closed s
    \<Longrightarrow> session_step s (loop_head (receive_envelope authoritative envelope
          (s\<lparr>ds_live_discontinuity := (ds_live_discontinuity s \<or> le_event envelope = Some EvObservationDiscontinuity)\<rparr>)))"
| turn_lagged: "\<not> ds_returned s \<Longrightarrow> ds_held_terminal s = None \<Longrightarrow> \<not> ds_observation_closed s \<Longrightarrow> session_step s (s\<lparr>ds_receiver_lagged := True\<rparr>)"
| turn_failed: "\<not> ds_returned s \<Longrightarrow> session_step s (finished s)"


definition session_opened :: "live_event_cursor \<Rightarrow> u64 \<Rightarrow> u64 \<Rightarrow> u64 \<Rightarrow> session" where
  "session_opened cursor sent_through_byte service_revision resize_revision =
     \<lparr>ds_last_command_id = None, ds_pending_stops = 0, ds_held_terminal = None, ds_admissions = [], ds_results = [], ds_receiver_lagged = False,
      ds_observation_closed = False, ds_live_cursor = cursor, ds_sent_through_byte = sent_through_byte, ds_sent_service_revision = service_revision,
      ds_sent_resize_revision = resize_revision, ds_returned = False, ds_wire = [], ds_accepted = [], ds_live_discontinuity = False\<rparr>"

definition session_reachable :: "session \<Rightarrow> bool" where
  "session_reachable s \<longleftrightarrow> (\<exists>cursor b v r. session_step\<^sup>*\<^sup>* (session_opened cursor b v r) s)"

section \<open>Invariant\<close>

definition answered :: "session \<Rightarrow> command_id list" where
  "answered s = List.map_filter (\<lambda>f. case f of CommandResultFrame i _ \<Rightarrow> Some i | _ \<Rightarrow> None) (ds_wire s)"

definition wire_events :: "session \<Rightarrow> run_event list" where
  "wire_events s = List.map_filter (\<lambda>f. case f of EventFrame e \<Rightarrow> Some e | _ \<Rightarrow> None) (ds_wire s)"

definition commands_ok :: "session \<Rightarrow> bool" where
  "commands_ok s \<longleftrightarrow>
     mset (ds_accepted s) = mset (answered s) + mset (map fst (ds_admissions s)) + mset (map fst (ds_results s))
     \<and> sorted_wrt (<) (ds_accepted s)
     \<and> (\<forall>i \<in> set (ds_accepted s). \<exists>l. ds_last_command_id s = Some l \<and> i \<le> l)
     \<and> ds_pending_stops s = length (filter snd (ds_admissions s)) + length (filter snd (ds_results s))"

text \<open>No event follows a terminal one, and only a terminal one follows a discontinuity.\<close>

definition conforms :: "run_event list \<Rightarrow> bool" where
  "conforms es \<longleftrightarrow> (\<forall>before e after. es = before @ e # after \<longrightarrow>
     (\<forall>x \<in> set before. \<not> is_terminal_event x \<and> (x = EvObservationDiscontinuity \<longrightarrow> is_terminal_event e)))"

definition quiet :: "run_event list \<Rightarrow> bool" where
  "quiet es \<longleftrightarrow> (\<forall>e \<in> set es. \<not> is_terminal_event e \<and> e \<noteq> EvObservationDiscontinuity)"

definition unended :: "run_event list \<Rightarrow> bool" where
  "unended es \<longleftrightarrow> (\<forall>e \<in> set es. \<not> is_terminal_event e)"

definition events_ok :: "session \<Rightarrow> bool" where
  "events_ok s \<longleftrightarrow>
     conforms (wire_events s)
     \<and> (\<not> ds_returned s \<and> ds_held_terminal s = None \<and> \<not> ds_observation_closed s \<longrightarrow> quiet (wire_events s))
     \<and> (\<forall>t. ds_held_terminal s = Some t \<longrightarrow> is_terminal_event t \<and> \<not> ds_observation_closed s \<and> unended (wire_events s))
     \<and> (\<not> unended (wire_events s) \<longrightarrow> ds_returned s \<and> ds_admissions s = [] \<and> ds_results s = [])"

lemma conforms_snoc: "conforms (es @ [e]) \<longleftrightarrow> conforms es \<and> unended es \<and> (EvObservationDiscontinuity \<in> set es \<longrightarrow> is_terminal_event e)"
proof
  assume c: "conforms (es @ [e])"
  have "conforms es" unfolding conforms_def
  proof (intro allI impI)
    fix before x after assume "es = before @ x # after"
    then have "es @ [e] = before @ x # (after @ [e])" by simp
    then show "\<forall>y\<in>set before. \<not> is_terminal_event y \<and> (y = EvObservationDiscontinuity \<longrightarrow> is_terminal_event x)"
      using c unfolding conforms_def by blast
  qed
  moreover have "\<forall>x \<in> set es. \<not> is_terminal_event x \<and> (x = EvObservationDiscontinuity \<longrightarrow> is_terminal_event e)"
    using c unfolding conforms_def by blast
  ultimately show "conforms es \<and> unended es \<and> (EvObservationDiscontinuity \<in> set es \<longrightarrow> is_terminal_event e)" by (auto simp: unended_def)
next
  assume c: "conforms es \<and> unended es \<and> (EvObservationDiscontinuity \<in> set es \<longrightarrow> is_terminal_event e)"
  show "conforms (es @ [e])" unfolding conforms_def
  proof (intro allI impI)
    fix before x after assume eq: "es @ [e] = before @ x # after"
    show "\<forall>y\<in>set before. \<not> is_terminal_event y \<and> (y = EvObservationDiscontinuity \<longrightarrow> is_terminal_event x)"
    proof (cases after rule: rev_cases)
      case Nil
      then show ?thesis using eq c by (auto simp: unended_def)
    next
      case (snoc after' z)
      then have "es = before @ x # after'" using eq by simp
      then show ?thesis using c unfolding conforms_def by blast
    qed
  qed
qed

lemma quiet_snoc [simp]: "quiet (es @ [e]) \<longleftrightarrow> quiet es \<and> \<not> is_terminal_event e \<and> e \<noteq> EvObservationDiscontinuity"
  by (auto simp: quiet_def)

lemma unended_snoc [simp]: "unended (es @ [e]) \<longleftrightarrow> unended es \<and> \<not> is_terminal_event e"
  by (auto simp: unended_def)

lemma quiet_unended: "quiet es \<Longrightarrow> unended es \<and> EvObservationDiscontinuity \<notin> set es"
  by (auto simp: quiet_def unended_def)

lemma send_projections [simp]:
  "answered (send_frame f s) = answered s @ (case f of CommandResultFrame i _ \<Rightarrow> [i] | _ \<Rightarrow> [])"
  "wire_events (send_frame f s) = wire_events s @ (case f of EventFrame e \<Rightarrow> [e] | _ \<Rightarrow> [])"
  by (cases f; simp add: answered_def wire_events_def send_frame_def List.map_filter_def)+


lemma send_fields [simp]:
  "ds_last_command_id (send_frame f s) = ds_last_command_id s" "ds_pending_stops (send_frame f s) = ds_pending_stops s"
  "ds_held_terminal (send_frame f s) = ds_held_terminal s" "ds_admissions (send_frame f s) = ds_admissions s" "ds_results (send_frame f s) = ds_results s"
  "ds_observation_closed (send_frame f s) = ds_observation_closed s" "ds_returned (send_frame f s) = ds_returned s"
  "ds_accepted (send_frame f s) = ds_accepted s" "ds_live_discontinuity (send_frame f s) = ds_live_discontinuity s"
  "ds_sent_through_byte (send_frame f s) = ds_sent_through_byte s" "ds_sent_service_revision (send_frame f s) = ds_sent_service_revision s"
  by (simp_all add: send_frame_def)

lemma update_projections [simp]:
  "answered (s\<lparr>ds_last_command_id := a\<rparr>) = answered s" "answered (s\<lparr>ds_pending_stops := b\<rparr>) = answered s" "answered (s\<lparr>ds_held_terminal := c\<rparr>) = answered s"
  "answered (s\<lparr>ds_admissions := d\<rparr>) = answered s" "answered (s\<lparr>ds_results := e\<rparr>) = answered s" "answered (s\<lparr>ds_receiver_lagged := f\<rparr>) = answered s"
  "answered (s\<lparr>ds_observation_closed := g\<rparr>) = answered s" "answered (s\<lparr>ds_live_cursor := h\<rparr>) = answered s" "answered (s\<lparr>ds_sent_through_byte := i\<rparr>) = answered s"
  "answered (s\<lparr>ds_sent_service_revision := j\<rparr>) = answered s" "answered (s\<lparr>ds_sent_resize_revision := k\<rparr>) = answered s" "answered (s\<lparr>ds_returned := l\<rparr>) = answered s"
  "answered (s\<lparr>ds_accepted := m\<rparr>) = answered s" "answered (s\<lparr>ds_live_discontinuity := n\<rparr>) = answered s"
  "wire_events (s\<lparr>ds_last_command_id := a\<rparr>) = wire_events s" "wire_events (s\<lparr>ds_pending_stops := b\<rparr>) = wire_events s" "wire_events (s\<lparr>ds_held_terminal := c\<rparr>) = wire_events s"
  "wire_events (s\<lparr>ds_admissions := d\<rparr>) = wire_events s" "wire_events (s\<lparr>ds_results := e\<rparr>) = wire_events s" "wire_events (s\<lparr>ds_receiver_lagged := f\<rparr>) = wire_events s"
  "wire_events (s\<lparr>ds_observation_closed := g\<rparr>) = wire_events s" "wire_events (s\<lparr>ds_live_cursor := h\<rparr>) = wire_events s" "wire_events (s\<lparr>ds_sent_through_byte := i\<rparr>) = wire_events s"
  "wire_events (s\<lparr>ds_sent_service_revision := j\<rparr>) = wire_events s" "wire_events (s\<lparr>ds_sent_resize_revision := k\<rparr>) = wire_events s" "wire_events (s\<lparr>ds_returned := l\<rparr>) = wire_events s"
  "wire_events (s\<lparr>ds_accepted := m\<rparr>) = wire_events s" "wire_events (s\<lparr>ds_live_discontinuity := n\<rparr>) = wire_events s"
  by (simp_all add: answered_def wire_events_def)

lemmas session_ops = finished_def accept_command_def send_command_result_def send_event_def

text \<open>Sessions that agree on the commands, and on the events.\<close>

lemma commands_cong:
  "commands_ok s \<Longrightarrow> answered s' = answered s \<Longrightarrow> ds_accepted s' = ds_accepted s \<Longrightarrow> ds_admissions s' = ds_admissions s \<Longrightarrow> ds_results s' = ds_results s
   \<Longrightarrow> ds_pending_stops s' = ds_pending_stops s \<Longrightarrow> ds_last_command_id s' = ds_last_command_id s \<Longrightarrow> commands_ok s'"
  by (simp add: commands_ok_def)

lemma events_cong:
  "events_ok s \<Longrightarrow> \<not> ds_returned s \<Longrightarrow> wire_events s' = wire_events s \<Longrightarrow> ds_held_terminal s' = ds_held_terminal s
   \<Longrightarrow> ds_observation_closed s' = ds_observation_closed s \<Longrightarrow> events_ok s'"
  by (auto simp: events_ok_def)

subsection \<open>Commands\<close>

definition owing :: "command_id \<Rightarrow> session \<Rightarrow> bool" where
  "owing i s \<longleftrightarrow>
     mset (ds_accepted s) = add_mset i (mset (answered s) + mset (map fst (ds_admissions s)) + mset (map fst (ds_results s)))
     \<and> sorted_wrt (<) (ds_accepted s)
     \<and> (\<forall>i \<in> set (ds_accepted s). \<exists>l. ds_last_command_id s = Some l \<and> i \<le> l)
     \<and> ds_pending_stops s = length (filter snd (ds_admissions s)) + length (filter snd (ds_results s))"

lemma owing_accept:
  assumes "commands_ok s" "observe_command_id (ds_last_command_id s) i = Inr l"
  shows "owing i (accept_command i (s\<lparr>ds_last_command_id := l\<rparr>))"
proof -
  have l: "l = Some i" using assms(2) by (auto simp: observe_command_id_def split: if_splits)
  have "j < i" if j: "j \<in> set (ds_accepted s)" for j
  proof -
    obtain k where "ds_last_command_id s = Some k" "j \<le> k" using assms(1) j unfolding commands_ok_def by blast
    then show ?thesis using assms(2) by (auto simp: observe_command_id_def split: if_splits)
  qed
  then show ?thesis using assms(1) l by (auto simp: owing_def commands_ok_def accept_command_def sorted_wrt_append less_imp_le)
qed

lemma owing_answer: "owing i s \<Longrightarrow> commands_ok (send_command_result i r s)"
  by (simp add: owing_def commands_ok_def session_ops)

lemma owing_admit: "owing i s \<Longrightarrow> commands_ok (s\<lparr>ds_admissions := ds_admissions s @ [(i, b)], ds_pending_stops := ds_pending_stops s + (if b then 1 else 0)\<rparr>)"
  by (simp add: owing_def commands_ok_def)

lemma push_commands:
  assumes "owing i s" "push_admission owner i b s = Inr s'"
  shows "commands_ok (s'\<lparr>ds_pending_stops := ds_pending_stops s' + (if b then 1 else 0)\<rparr>)"
proof -
  have "s' = s\<lparr>ds_admissions := ds_admissions s @ [(i, b)]\<rparr>" using assms(2) by (auto simp: push_admission_def split: sum.splits if_splits)
  then show ?thesis using owing_admit [OF assms(1), of b] by simp
qed

lemma execute_commands:
  assumes "owing i s"
  shows "commands_ok (execute_command owner i command s)"
proof -
  have queued: "commands_ok (queued_or_rejected i s (push_admission owner i False s))"
    using push_commands [OF assms, of owner False] owing_answer [OF assms] by (simp add: queued_or_rejected_def split: sum.split)
  moreover have "commands_ok (queued_or_rejected i s (queue_input_admission owner i data s))" for data
    using queued owing_answer [OF assms] by (auto simp: queue_input_admission_def queued_or_rejected_def split: sum.splits)
  moreover have "commands_ok (handle_stop_command owner i operation s)" for operation
    using push_commands [OF assms, of owner True] owing_answer [OF assms] by (simp add: handle_stop_command_def split: sum.split)
  ultimately show ?thesis by (simp add: execute_command_def split: control_command.split)
qed

lemma execute_keeps:
  "wire_events (execute_command owner i command s) = wire_events s" "ds_held_terminal (execute_command owner i command s) = ds_held_terminal s"
  "ds_observation_closed (execute_command owner i command s) = ds_observation_closed s"
  "ds_live_discontinuity (execute_command owner i command s) = ds_live_discontinuity s"
  by (simp_all add: execute_command_def handle_stop_command_def queued_or_rejected_def queue_input_admission_def push_admission_def session_ops
      split: control_command.split sum.split)

lemma handle_frame_commands:
  assumes "commands_ok s"
  shows "commands_ok (handle_frame gate owner received s)"
proof (cases "command_of received")
  case None
  then show ?thesis using assms by (auto simp: handle_frame_def session_ops invalid_frame_def intro!: commands_cong [OF assms])
next
  case (Some c)
  obtain i b where c: "c = (i, b)" by force
  show ?thesis
  proof (cases "observe_command_id (ds_last_command_id s) i")
    case (Inl failure)
    then show ?thesis using Some c by (simp add: handle_frame_def session_ops commands_cong [OF assms])
  next
    case (Inr l)
    have bound: "commands_ok (finished (s\<lparr>ds_last_command_id := l\<rparr>))"
      using owing_accept [OF assms Inr] assms by (auto simp: owing_def commands_ok_def accept_command_def finished_def sorted_wrt_append)
    have owe: "owing i (accept_command i (s\<lparr>ds_last_command_id := l\<rparr>))" by (rule owing_accept [OF assms Inr])
    show ?thesis using Some c Inr bound owing_answer [OF owe] execute_commands [OF owe]
      by (simp add: handle_frame_def Let_def split: admission.split)
  qed
qed

lemma rejected_commands:
  assumes "commands_ok s"
  shows "commands_ok (reject_after_observation_close received s)"
proof (cases "command_of received")
  case None
  then show ?thesis using assms by (auto simp: reject_after_observation_close_def session_ops invalid_frame_def intro!: commands_cong [OF assms])
next
  case (Some c)
  obtain i b where c: "c = (i, b)" by force
  show ?thesis
  proof (cases "observe_command_id (ds_last_command_id s) i")
    case (Inl failure)
    then show ?thesis using Some c by (simp add: reject_after_observation_close_def session_ops commands_cong [OF assms])
  next
    case (Inr l)
    then show ?thesis using Some c owing_answer [OF owing_accept [OF assms Inr]] by (simp add: reject_after_observation_close_def)
  qed
qed

lemma cancel_commands:
  "ds_admissions s = cs \<Longrightarrow> commands_ok s \<Longrightarrow> commands_ok (cancel_unadmitted cs s) \<and> ds_admissions (cancel_unadmitted cs s) = []
     \<and> wire_events (cancel_unadmitted cs s) = wire_events s \<and> ds_held_terminal (cancel_unadmitted cs s) = ds_held_terminal s
     \<and> ds_observation_closed (cancel_unadmitted cs s) = ds_observation_closed s \<and> ds_returned (cancel_unadmitted cs s) = ds_returned s"
proof (induction cs s rule: cancel_unadmitted.induct)
  case (2 i b rest s)
  let ?s = "let s = send_command_result i (OutcomeRejected (observation_closed_failure b)) (s\<lparr>ds_admissions := rest\<rparr>)
        in if b then s\<lparr>ds_pending_stops := ds_pending_stops s - 1\<rparr> else s"
  have "commands_ok ?s" "ds_admissions ?s = rest" using 2(2,3) by (auto simp: commands_ok_def Let_def session_ops)
  then show ?case using 2(1) by (simp add: Let_def session_ops)
qed simp

lemma admitted_commands: "commands_ok s \<Longrightarrow> commands_ok (command_admitted s)"
  by (cases "ds_admissions s") (auto simp: command_admitted_def commands_ok_def)

lemma completed_commands:
  assumes "commands_ok s" "c \<in> set (ds_results s)"
  shows "commands_ok (command_completed c result s)"
proof -
  obtain xs ys where r: "ds_results s = xs @ c # ys" "c \<notin> set xs" using split_list_first [OF assms(2)] by blast
  then have "remove1 c (ds_results s) = xs @ ys" by (simp add: remove1_append)
  then have "commands_ok (answer_completed c result s)" using assms(1) r(1) by (auto simp: commands_ok_def answer_completed_def Let_def session_ops)
  then show ?thesis by (auto simp: command_completed_def release_terminal_def session_ops commands_ok_def split: option.split)
qed

subsection \<open>Events\<close>

lemma terminal_event_terminal: "terminal_event st = Some t \<Longrightarrow> is_terminal_event t"
  by (cases st) (auto simp: terminal_event_def)

text \<open>The part of a session that the delivery of events leaves alone.\<close>

definition same_commands :: "session \<Rightarrow> session \<Rightarrow> bool" where
  "same_commands s s' \<longleftrightarrow> answered s' = answered s \<and> ds_accepted s' = ds_accepted s \<and> ds_admissions s' = ds_admissions s \<and> ds_results s' = ds_results s
     \<and> ds_pending_stops s' = ds_pending_stops s \<and> ds_last_command_id s' = ds_last_command_id s"

lemma same_commands_ok: "same_commands s s' \<Longrightarrow> commands_ok s \<Longrightarrow> commands_ok s'"
  by (auto simp: same_commands_def intro: commands_cong)

definition same_session :: "session \<Rightarrow> session \<Rightarrow> bool" where
  "same_session s s' \<longleftrightarrow> same_commands s s' \<and> ds_held_terminal s' = ds_held_terminal s \<and> ds_observation_closed s' = ds_observation_closed s
     \<and> ds_returned s' = ds_returned s \<and> ds_live_discontinuity s' = ds_live_discontinuity s"

lemma same_session_trans: "same_session s s' \<Longrightarrow> same_session s' s'' \<Longrightarrow> same_session s s''"
  by (simp add: same_session_def same_commands_def)

lemma recover_output_session: "same_session s (recover_output authoritative retained s)" "quiet (wire_events s) \<Longrightarrow> quiet (wire_events (recover_output authoritative retained s))"
  by (auto simp: recover_output_def Let_def same_session_def same_commands_def session_ops)

lemma recover_service_session: "same_session s (recover_service authoritative retained s)" "quiet (wire_events s) \<Longrightarrow> quiet (wire_events (recover_service authoritative retained s))"
  by (auto simp: recover_service_def same_session_def same_commands_def session_ops split: option.split)

lemma send_event_session: "same_session s (send_event e s)" "wire_events (send_event e s) = wire_events s @ [e]"
  by (simp_all add: same_session_def same_commands_def session_ops)

lemma recover_session: "same_session s (snd (recover_lagged_delivery authoritative retained s))"
  using recover_output_session(1) recover_service_session(1) send_event_session(1) same_session_trans
  by (auto simp: recover_lagged_delivery_def Let_def split: option.split) blast+

lemma recover_cases:
  assumes "recover_lagged_delivery authoritative retained s = (recovered, s')" "quiet (wire_events s)"
  shows "recovered = LagContinue \<Longrightarrow> quiet (wire_events s')"
    "recovered = LagClose \<Longrightarrow> wire_events s' = wire_events s @ [EvObservationDiscontinuity]"
    "recovered = LagTerminal t \<Longrightarrow> is_terminal_event t \<and> (quiet (wire_events s') \<or> wire_events s' = wire_events s @ [EvObservationDiscontinuity])"
proof -
  let ?lost = "lc_observation_revision retained > lc_observation_revision (ds_live_cursor s)"
  let ?disc = "send_event EvObservationDiscontinuity s" and ?out = "recover_service authoritative retained (recover_output authoritative retained s)"
  have out: "quiet (wire_events ?out)" using recover_output_session(2) recover_service_session(2) assms(2) by blast
  have running: "ri_state authoritative = Running \<longleftrightarrow> terminal_event (ri_state authoritative) = None"
    by (cases "ri_state authoritative") (auto simp: terminal_event_def)
  have lost: "(recovered, s') = (case terminal_event (ri_state authoritative) of None \<Rightarrow> (LagClose, ?disc) | Some terminal \<Rightarrow> (LagTerminal terminal, ?disc))" if ?lost
    using assms(1) that running by (auto simp: recover_lagged_delivery_def Let_def split: option.splits)
  have kept: "s' = ?out \<and> recovered \<noteq> LagClose \<and> (recovered = LagTerminal t \<longrightarrow> terminal_event (ri_state authoritative) = Some t)" if "\<not> ?lost" for t
    using assms(1) that by (auto simp: recover_lagged_delivery_def Let_def split: option.splits if_splits)
  show "recovered = LagContinue \<Longrightarrow> quiet (wire_events s')" using lost kept out by (cases ?lost) (auto split: option.splits)
  show "recovered = LagClose \<Longrightarrow> wire_events s' = wire_events s @ [EvObservationDiscontinuity]"
    using lost kept send_event_session(2) by (cases ?lost) (auto split: option.splits)
  show "recovered = LagTerminal t \<Longrightarrow> is_terminal_event t \<and> (quiet (wire_events s') \<or> wire_events s' = wire_events s @ [EvObservationDiscontinuity])"
    using lost kept [of t] out send_event_session(2) terminal_event_terminal by (cases ?lost) (auto split: option.splits)
qed

lemma deliver_terminal_ok:
  assumes "is_terminal_event t" "conforms (wire_events s)" "unended (wire_events s)" "\<not> ds_observation_closed s" "ds_held_terminal s = None"
  shows "events_ok (deliver_terminal t s)"
  using assms by (auto simp: deliver_terminal_def session_idle_def events_ok_def session_ops conforms_snoc)

lemma quiet_conforms: "quiet es \<Longrightarrow> conforms es"
  unfolding conforms_def quiet_def by auto

lemma disc_conforms: "quiet es \<Longrightarrow> conforms (es @ [EvObservationDiscontinuity]) \<and> unended (es @ [EvObservationDiscontinuity])"
  using quiet_conforms [of es] quiet_unended [of es] by (simp add: conforms_snoc)

lemma quiet_event_ok:
  "quiet (wire_events s) \<Longrightarrow> ds_held_terminal s = None \<Longrightarrow> events_ok s"
  using quiet_conforms quiet_unended by (auto simp: events_ok_def)

lemma deliver_event_ok:
  assumes "quiet (wire_events s)" "ds_held_terminal s = None" "\<not> ds_observation_closed s" "event \<noteq> EvObservationDiscontinuity"
  shows "events_ok (deliver_event event s)"
proof (cases "is_terminal_event event")
  case True
  then have "deliver_event event s = deliver_terminal event s" by (cases event) (simp_all add: deliver_event_def)
  then show ?thesis using deliver_terminal_ok [OF True] assms quiet_conforms quiet_unended by metis
next
  case False
  have "quiet (wire_events (deliver_event event s))" "ds_held_terminal (deliver_event event s) = None"
    using assms False by (cases event; simp add: deliver_event_def session_ops)+
  then show ?thesis by (rule quiet_event_ok)
qed

lemma deliver_commands: "same_commands s (deliver_event event s)" "same_commands s (deliver_terminal event s)"
  by (cases event; auto simp: deliver_event_def deliver_terminal_def same_commands_def session_ops)+

lemma cancel_discontinuity: "ds_live_discontinuity (cancel_unadmitted cs s) = ds_live_discontinuity s"
  by (induction cs s rule: cancel_unadmitted.induct) (simp_all add: Let_def session_ops)

lemma deliver_discontinuity:
  "ds_live_discontinuity (deliver_terminal e s) = ds_live_discontinuity s" "ds_live_discontinuity (deliver_event e s) = ds_live_discontinuity s"
  by (cases e; simp add: deliver_terminal_def deliver_event_def session_ops)+

lemma recovered_session: "same_session s (snd (recovered_of authoritative envelope s))"
  using recover_session [of "s\<lparr>ds_receiver_lagged := False\<rparr>"] by (auto simp: recovered_of_def Let_def same_session_def same_commands_def)

lemma receive_envelope_commands:
  assumes "commands_ok s"
  shows "commands_ok (receive_envelope authoritative envelope s)" "ds_live_discontinuity (receive_envelope authoritative envelope s) = ds_live_discontinuity s"
proof -
  obtain recovered s1 where r: "recovered_of authoritative envelope s = (recovered, s1)" by force
  have same: "same_session s s1" using recovered_session [of s authoritative envelope] r by simp
  have ok1: "commands_ok s1" using same same_commands_ok assms by (auto simp: same_session_def)
  have closed: "commands_ok (s1\<lparr>ds_observation_closed := True\<rparr>)" by (rule commands_cong [OF ok1]) simp_all
  have cursor: "commands_ok (s1\<lparr>ds_live_cursor := le_after envelope\<rparr>)" by (rule commands_cong [OF ok1]) simp_all
  show "commands_ok (receive_envelope authoritative envelope s)"
    using cancel_commands [of "s1\<lparr>ds_observation_closed := True\<rparr>" "ds_admissions s1"] closed cursor same_commands_ok [OF deliver_commands(1)]
      same_commands_ok [OF deliver_commands(2)] ok1
    by (cases recovered) (simp_all add: receive_envelope_def r continue_envelope_def split: option.split)
  show "ds_live_discontinuity (receive_envelope authoritative envelope s) = ds_live_discontinuity s"
    using same by (cases recovered) (simp_all add: receive_envelope_def r continue_envelope_def cancel_discontinuity deliver_discontinuity same_session_def split: option.split)
qed

lemma receive_envelope_events:
  assumes "commands_ok s" "quiet (wire_events s)" "ds_held_terminal s = None" "\<not> ds_observation_closed s" "le_event envelope \<noteq> Some EvObservationDiscontinuity"
  shows "events_ok (receive_envelope authoritative envelope s)"
proof -
  obtain recovered s1 where r: "recovered_of authoritative envelope s = (recovered, s1)" by force
  have same: "same_session s s1" using recovered_session [of s authoritative envelope] r by simp
  have ok1: "commands_ok s1" using same same_commands_ok assms(1) by (auto simp: same_session_def)
  have closed: "commands_ok (s1\<lparr>ds_observation_closed := True\<rparr>)" by (rule commands_cong [OF ok1]) simp_all
  have q: "quiet (wire_events (s\<lparr>ds_receiver_lagged := False\<rparr>))" using assms(2) by simp
  have facts: "ds_held_terminal s1 = None" "\<not> ds_observation_closed s1" using same assms(3,4) by (simp_all add: same_session_def)
  have events: "recovered = LagContinue \<Longrightarrow> quiet (wire_events s1)" "recovered = LagClose \<Longrightarrow> wire_events s1 = wire_events s @ [EvObservationDiscontinuity]"
    "recovered = LagTerminal t \<Longrightarrow> is_terminal_event t \<and> (quiet (wire_events s1) \<or> wire_events s1 = wire_events s @ [EvObservationDiscontinuity])" for t
    using r recover_cases [OF _ q] assms(2) by (auto simp: recovered_of_def Let_def split: if_splits)
  show ?thesis
  proof (cases recovered)
    case LagContinue
    let ?s = "s1\<lparr>ds_live_cursor := le_after envelope\<rparr>"
    have q1: "quiet (wire_events ?s)" "ds_held_terminal ?s = None" "\<not> ds_observation_closed ?s" using events(1) LagContinue facts by simp_all
    have "events_ok (continue_envelope envelope s1)"
      using assms(5) quiet_event_ok [OF q1(1,2)] deliver_event_ok [OF q1] by (auto simp: continue_envelope_def split: option.split)
    then show ?thesis using LagContinue by (simp add: receive_envelope_def r)
  next
    case LagClose
    then show ?thesis using facts(1) events(2) disc_conforms [OF assms(2)] cancel_commands [OF _ closed, of "ds_admissions s1"]
      by (simp add: receive_envelope_def r events_ok_def)
  next
    case (LagTerminal t)
    then have "conforms (wire_events s1) \<and> unended (wire_events s1)" using events(3) disc_conforms [OF assms(2)] quiet_conforms quiet_unended by metis
    then show ?thesis using LagTerminal facts events(3) deliver_terminal_ok [of t s1] by (simp add: receive_envelope_def r)
  qed
qed

lemma finished_ok: "commands_ok s \<Longrightarrow> commands_ok (finished s)" "events_ok s \<Longrightarrow> events_ok (finished s)"
  by (auto simp: finished_def commands_ok_def events_ok_def)

lemma loop_head_ok: "commands_ok s \<Longrightarrow> commands_ok (loop_head s)" "events_ok s \<Longrightarrow> events_ok (loop_head s)"
  by (simp_all add: loop_head_def finished_ok)

lemma frame_events:
  assumes "events_ok s" "\<not> ds_returned s"
  shows "events_ok (handle_frame gate owner received s)" "events_ok (reject_after_observation_close received s)"
proof -
  have "wire_events (handle_frame gate owner received s) = wire_events s \<and> ds_held_terminal (handle_frame gate owner received s) = ds_held_terminal s
     \<and> ds_observation_closed (handle_frame gate owner received s) = ds_observation_closed s"
    by (simp add: handle_frame_def execute_keeps session_ops invalid_frame_def Let_def
        split: option.split sum.split prod.split admission.split)
  then show "events_ok (handle_frame gate owner received s)" by (intro events_cong [OF assms]) simp_all
  have "wire_events (reject_after_observation_close received s) = wire_events s \<and> ds_held_terminal (reject_after_observation_close received s) = ds_held_terminal s
     \<and> ds_observation_closed (reject_after_observation_close received s) = ds_observation_closed s"
    by (simp add: reject_after_observation_close_def session_ops invalid_frame_def split: option.split sum.split prod.split)
  then show "events_ok (reject_after_observation_close received s)" by (intro events_cong [OF assms]) simp_all
qed

lemma release_events:
  assumes "events_ok s"
  shows "events_ok (release_terminal s)"
proof (cases "ds_held_terminal s")
  case (Some t)
  have "is_terminal_event t" "conforms (wire_events s)" "unended (wire_events s)" using assms Some by (auto simp: events_ok_def)
  then show ?thesis using assms Some by (simp add: release_terminal_def session_idle_def events_ok_def finished_def send_event_def conforms_snoc)
qed (simp add: release_terminal_def assms)

lemma completed_events:
  assumes "events_ok s" "\<not> ds_returned s"
  shows "events_ok (command_completed c result s)"
proof -
  have "events_ok (answer_completed c result s)" by (rule events_cong [OF assms]) (simp_all add: answer_completed_def Let_def session_ops)
  then show ?thesis unfolding command_completed_def by (rule release_events)
qed

subsection \<open>Steps\<close>

definition session_ok :: "session \<Rightarrow> bool" where
  "session_ok s \<longleftrightarrow> commands_ok s \<and> (\<not> ds_live_discontinuity s \<longrightarrow> events_ok s)"

lemma live_discontinuity_kept:
  "ds_live_discontinuity (loop_head s) = ds_live_discontinuity s" "ds_live_discontinuity (command_completed c result s) = ds_live_discontinuity s"
  "ds_live_discontinuity (command_admitted s) = ds_live_discontinuity s" "ds_live_discontinuity (handle_frame gate owner received s) = ds_live_discontinuity s"
  "ds_live_discontinuity (reject_after_observation_close received s) = ds_live_discontinuity s"
  by (simp_all add: loop_head_def command_completed_def answer_completed_def release_terminal_def command_admitted_def handle_frame_def execute_keeps
      reject_after_observation_close_def session_ops Let_def split: option.split sum.split prod.split admission.split list.split)

lemma session_step_ok:
  assumes "session_step s s'" "session_ok s"
  shows "session_ok s'"
  using assms
proof induction
  case (turn_completed s c result)
  then show ?case by (simp add: session_ok_def live_discontinuity_kept loop_head_ok completed_commands completed_events)
next
  case (turn_admitted s)
  then have "events_ok s \<Longrightarrow> events_ok (command_admitted s)" using events_cong [of s "command_admitted s"]
    by (cases "ds_admissions s") (auto simp: command_admitted_def)
  then show ?case using turn_admitted by (simp add: session_ok_def live_discontinuity_kept loop_head_ok admitted_commands)
next
  case (turn_frame s gate owner received)
  then show ?case by (simp add: session_ok_def live_discontinuity_kept loop_head_ok handle_frame_commands frame_events)
next
  case (turn_rejected s received)
  then show ?case by (simp add: session_ok_def live_discontinuity_kept loop_head_ok rejected_commands frame_events)
next
  case (turn_event s authoritative envelope)
  let ?s = "s\<lparr>ds_live_discontinuity := (ds_live_discontinuity s \<or> le_event envelope = Some EvObservationDiscontinuity)\<rparr>"
  let ?s' = "receive_envelope authoritative envelope ?s"
  have cmd: "commands_ok ?s" using turn_event(4) by (auto simp: session_ok_def intro: commands_cong)
  have held: "ds_held_terminal ?s = None" "\<not> ds_observation_closed ?s" using turn_event(2,3) by simp_all
  have "events_ok ?s'" if live: "\<not> ds_live_discontinuity ?s"
  proof -
    have "quiet (wire_events ?s)" "le_event envelope \<noteq> Some EvObservationDiscontinuity"
      using turn_event live by (simp_all add: session_ok_def events_ok_def)
    then show ?thesis using receive_envelope_events [OF cmd _ held] by blast
  qed
  then show ?case unfolding session_ok_def live_discontinuity_kept
    using receive_envelope_commands [OF cmd, of authoritative envelope] loop_head_ok by metis
next
  case (turn_lagged s)
  then show ?case using events_cong [of s "s\<lparr>ds_receiver_lagged := True\<rparr>"] commands_cong [of s "s\<lparr>ds_receiver_lagged := True\<rparr>"] by (simp add: session_ok_def)
next
  case (turn_failed s)
  then show ?case using finished_ok by (simp add: session_ok_def finished_def)
qed


lemma session_opened_ok: "session_ok (session_opened cursor b v r)"
  by (simp add: session_ok_def session_opened_def commands_ok_def events_ok_def answered_def wire_events_def conforms_def quiet_def unended_def List.map_filter_def)

lemma session_reachable_ok: "session_reachable s \<Longrightarrow> session_ok s"
proof -
  assume "session_reachable s"
  then obtain cursor b v r where "session_step\<^sup>*\<^sup>* (session_opened cursor b v r) s" by (auto simp: session_reachable_def)
  then show ?thesis by (induction rule: rtranclp_induct) (auto intro: session_opened_ok session_step_ok)
qed

section \<open>The client's view of a session\<close>

definition saw :: "inbox \<Rightarrow> bool \<times> bool" where
  "saw ib = (ib_saw_terminal ib, ib_saw_discontinuity ib)"

lemma saw_updates [simp]:
  "saw (ib\<lparr>ib_queue := a\<rparr>) = saw ib" "saw (ib\<lparr>ib_capacity := b\<rparr>) = saw ib" "saw (ib\<lparr>ib_queued_bytes := c\<rparr>) = saw ib"
  "saw (ib\<lparr>ib_envelope_payload_bytes := c\<rparr>) = saw ib" "saw (ib\<lparr>ib_pending_gap := d\<rparr>) = saw ib" "saw (ib\<lparr>ib_local_observation := e\<rparr>) = saw ib"
  "saw (ib\<lparr>ib_terminal := f\<rparr>) = saw ib" "saw (ib\<lparr>ib_closed := g\<rparr>) = saw ib" "saw (ib\<lparr>ib_error := h\<rparr>) = saw ib"
  "saw (ib\<lparr>ib_observation_unavailable := i\<rparr>) = saw ib" "saw (ib\<lparr>ib_consumer_active := j\<rparr>) = saw ib"
  "saw (ib\<lparr>ib_saw_terminal := True\<rparr>) = (True, snd (saw ib))" "saw (ib\<lparr>ib_saw_discontinuity := True\<rparr>) = (fst (saw ib), True)"
  by (simp_all add: saw_def)

lemma saw_reserve: "saw (snd (reserve_slots lay lim grow n m ib)) = saw ib"
  by (simp add: reserve_slots_def split: option.split)

lemma saw_admit: "saw (snd (admit_event lay lim grow e ib)) = saw ib"
  by (simp add: admit_event_def saw_reserve)

lemma saw_parts:
  "saw (retain_pending_gap ib) = saw ib" "saw (append_event e ib) = saw ib" "saw (note_gap n c ib) = saw ib" "saw (mark_observation_loss lim ib) = saw ib"
  by (simp_all add: retain_pending_gap_def append_event_def note_gap_def mark_observation_loss_def split_beta split: option.split)

lemma saw_terminal: "saw (retain_terminal lay lim grow e ib) = (True, snd (saw ib))"
  using saw_reserve [of lay lim grow 1 "event_envelope_payload_bytes e" "ib\<lparr>ib_saw_terminal := True\<rparr>"]
  by (auto simp: retain_terminal_def Let_def saw_parts split: prod.split if_splits)

lemma saw_retained:
  "saw (push_retained lay lim grow e ib) = (fst (saw ib) \<or> is_terminal_event (ve_event e), snd (saw ib) \<or> ve_event e = EvObservationDiscontinuity)"
proof -
  have kept: "saw (case admit_event lay lim grow e ib1 of (admitted, ib') \<Rightarrow> if admitted then append_event e (retain_pending_gap ib') else f ib') = saw ib1"
    if "\<And>ib. saw (f ib) = saw ib" for f ib1
    using saw_admit [of lay lim grow e ib1] that by (cases "admit_event lay lim grow e ib1") (simp add: saw_parts)
  show ?thesis using kept [OF saw_parts(3)] kept [OF saw_parts(4)] saw_terminal
    by (cases "ve_event e") (simp_all add: push_retained_def Let_def saw_parts)
qed

lemma saw_push:
  assumes "inbox_push lay lim grow e ib = Inr ib'"
  shows "saw ib' = (fst (saw ib) \<or> is_terminal_event (ve_event e), snd (saw ib) \<or> ve_event e = EvObservationDiscontinuity)"
proof (cases "ib_local_observation ib = ObservationAvailable")
  case False
  then have "ib' = push_lost (ve_event e) ib" using assms by (auto simp: inbox_push_def split: if_splits)
  then show ?thesis by (auto simp: push_lost_def prod_eq_iff)
next
  case True
  consider "replace_input_progress (ve_event e) ib = Some ib'" | "ib' = push_retained lay lim grow e ib"
    using assms True by (auto simp: inbox_push_def split: if_splits option.splits)
  then show ?thesis
  proof cases
    case 1
    then show ?thesis using replace_input_progress_Some [OF 1] by (auto simp: prod_eq_iff)
  qed (simp add: saw_retained)
qed

lemma inbox_run_saw:
  "inbox_run lay lim sent seen ib \<Longrightarrow> saw ib = ((\<exists>e \<in> set sent. is_terminal_event e), EvObservationDiscontinuity \<in> set sent)"
proof (induction rule: inbox_run.induct)
  case (run_push sent seen ib grow e ib')
  then show ?case using saw_push [OF run_push(3)] by (auto simp: prod_eq_iff)
qed (auto simp: inbox_with_limits_def saw_def inbox_close_def consumer_acquire_def consumer_release_def next_poll_def split: if_splits list.splits option.splits)

lemma conforming_push:
  assumes "conforms es" "k < length es" "inbox_run lay lim (take k es) seen ib" "\<not> (ib_closed ib \<and> ib_local_observation ib = ObservationAvailable)"
  shows "\<exists>ib'. inbox_push lay lim grow \<lparr>ve_event = es ! k, ve_spare = spare\<rparr> ib = Inr ib'"
proof -
  have "es = take k es @ es ! k # drop (Suc k) es" using assms(2) by (rule id_take_nth_drop)
  then have "\<forall>x \<in> set (take k es). \<not> is_terminal_event x \<and> (x = EvObservationDiscontinuity \<longrightarrow> is_terminal_event (es ! k))"
    using assms(1) unfolding conforms_def by blast
  then have "\<not> ib_saw_terminal ib" "ib_saw_discontinuity ib \<longrightarrow> is_terminal_event (es ! k)"
    using inbox_run_saw [OF assms(3)] by (auto simp: saw_def)
  then show ?thesis using assms(4) by (auto simp: inbox_push_def split: option.split)
qed

section \<open>What a session promises its client\<close>

lemma accepted_distinct:
  assumes "commands_ok s"
  shows "distinct (answered s)"
proof -
  have "distinct (ds_accepted s)" using assms by (auto simp: commands_ok_def strict_sorted_iff)
  moreover have "mset (ds_accepted s) = mset (answered s @ map fst (ds_admissions s) @ map fst (ds_results s))"
    using assms by (simp add: commands_ok_def)
  ultimately have "distinct (answered s @ map fst (ds_admissions s) @ map fst (ds_results s))" by (metis mset_eq_imp_distinct_iff)
  then show ?thesis by simp
qed

lemma terminal_answers_everything:
  assumes "session_ok s" "\<not> ds_live_discontinuity s" "e \<in> set (wire_events s)" "is_terminal_event e"
  shows "mset (answered s) = mset (ds_accepted s)"
proof -
  have "\<not> unended (wire_events s)" using assms(3,4) by (auto simp: unended_def)
  then have "ds_admissions s = [] \<and> ds_results s = []" using assms(1,2) by (auto simp: session_ok_def events_ok_def)
  then show ?thesis using assms(1) by (simp add: session_ok_def commands_ok_def)
qed

text \<open>
  C31.  A session answers and closes as its client expects, over every interleaving of commands, admissions, results, live
  events and lag: a command is answered at most once, accepted identities increase strictly, an accepted command is either
  answered or still waiting for admission or its result, and the Stop barrier counts exactly the Stops still waiting.  Unless
  an observation discontinuity arrived as a live event of its own, a terminal event is sent only when every accepted command
  has its answer, and a client inbox that was fed the events sent so far and is still open accepts the next one.
\<close>

theorem daemon_session_conforms:
  assumes "session_reachable s"
  shows "distinct (answered s) \<and> sorted_wrt (<) (ds_accepted s)
    \<and> mset (ds_accepted s) = mset (answered s) + mset (map fst (ds_admissions s)) + mset (map fst (ds_results s))
    \<and> ds_pending_stops s = length (filter snd (ds_admissions s)) + length (filter snd (ds_results s))
    \<and> (\<not> ds_live_discontinuity s \<longrightarrow>
         (\<forall>e \<in> set (wire_events s). is_terminal_event e \<longrightarrow> mset (answered s) = mset (ds_accepted s))
         \<and> (\<forall>k lay lim seen ib grow spare.
              k < length (wire_events s) \<and> inbox_run lay lim (take k (wire_events s)) seen ib
              \<and> \<not> (ib_closed ib \<and> ib_local_observation ib = ObservationAvailable)
              \<longrightarrow> (\<exists>ib'. inbox_push lay lim grow \<lparr>ve_event = wire_events s ! k, ve_spare = spare\<rparr> ib = Inr ib')))"
proof -
  have ok: "session_ok s" using assms by (rule session_reachable_ok)
  then have commands: "commands_ok s" and events: "\<not> ds_live_discontinuity s \<Longrightarrow> conforms (wire_events s)"
    by (auto simp: session_ok_def events_ok_def)
  show ?thesis
    using accepted_distinct [OF commands] commands terminal_answers_everything [OF ok] conforming_push [OF events]
    unfolding commands_ok_def by blast
qed

text \<open>A resize that is received, admitted and completed.\<close>

definition sample_owner :: session_owner where
  "sample_owner = \<lparr>ow_daemon_instance = 1, ow_run = 7, ow_native_control = Inr (), ow_reserve_input_payload = (\<lambda>n. n \<le> 4096), ow_reserve_control_memory = True\<rparr>"

definition sample_session :: session where
  "sample_session = loop_head (command_completed (1, False) (Inr (ResizeReceipt \<lparr>rows = 24, cols = 80\<rparr>))
     (loop_head (command_admitted (loop_head (handle_frame Execute sample_owner (ResizeClientFrame 1 \<lparr>rows = 24, cols = 80\<rparr>) (session_opened CURSOR_ZERO 0 0 0))))))"

lemmas sample_session_simps = sample_owner_def session_opened_def handle_frame_def execute_command_def queued_or_rejected_def observe_command_id_def push_admission_def accept_command_def loop_head_def command_admitted_def
  command_completed_def answer_completed_def release_terminal_def send_command_result_def send_frame_def

lemma sample_session_reachable: "session_reachable sample_session"
proof -
  let ?s0 = "session_opened CURSOR_ZERO 0 0 0"
  let ?s1 = "loop_head (handle_frame Execute sample_owner (ResizeClientFrame 1 \<lparr>rows = 24, cols = 80\<rparr>) ?s0)"
  let ?s2 = "loop_head (command_admitted ?s1)"
  have "session_step ?s0 ?s1" by (rule turn_frame) (simp_all add: session_opened_def)
  moreover have "session_step ?s1 ?s2" by (rule turn_admitted) (simp_all add: sample_session_simps)
  moreover have "session_step ?s2 sample_session" unfolding sample_session_def by (rule turn_completed) (simp_all add: sample_session_simps)
  ultimately have "session_step\<^sup>*\<^sup>* ?s0 sample_session" by (meson converse_rtranclp_into_rtranclp rtranclp.rtrancl_refl)
  then show ?thesis unfolding session_reachable_def by blast
qed

theorem daemon_session_conforms_witness:
  "session_reachable sample_session \<and> answered sample_session = [1] \<and> mset (ds_accepted sample_session) = {#1#} \<and> distinct (answered sample_session)"
proof -
  have "answered sample_session = [1]" "ds_admissions sample_session = []" "ds_results sample_session = []"
    by (simp_all add: sample_session_def sample_session_simps answered_def List.map_filter_def session_outcome_def)
  then show ?thesis using daemon_session_conforms [OF sample_session_reachable] sample_session_reachable by simp
qed

text \<open>
  The exception is real.  When an event of a tmux source cannot be funded its place is taken by an observation discontinuity,
  also for a receiver that never lagged.  The session forwards it, keeps the view open and goes on with the next output, which the
  client inbox then refuses.
\<close>

theorem live_discontinuity_forwarded:
  assumes "\<not> ds_receiver_lagged s" "le_published lost = PubObservationDiscontinuity" "le_published following = Funded lease (EvOutput chunk)"
    "ds_sent_through_byte s < end_byte chunk"
  shows "wire_events (receive_envelope info following (receive_envelope info lost s)) = wire_events s @ [EvObservationDiscontinuity, EvOutput chunk]
    \<and> ds_returned (receive_envelope info following (receive_envelope info lost s)) = ds_returned s
    \<and> (inbox_run lay lim (wire_events s @ [EvObservationDiscontinuity]) seen ib
        \<and> unended (wire_events s) \<and> \<not> (ib_closed ib \<and> ib_local_observation ib = ObservationAvailable)
       \<longrightarrow> inbox_push lay lim grow \<lparr>ve_event = EvOutput chunk, ve_spare = spare\<rparr> ib
           = Inl ''daemon sent a non-terminal event after observation discontinuity'')"
proof -
  have "saw ib = (False, True)" if "inbox_run lay lim (wire_events s @ [EvObservationDiscontinuity]) seen ib" "unended (wire_events s)"
    using inbox_run_saw [OF that(1)] that(2) by (auto simp: unended_def)
  then have "inbox_push lay lim grow \<lparr>ve_event = EvOutput chunk, ve_spare = spare\<rparr> ib = Inl ''daemon sent a non-terminal event after observation discontinuity''"
    if "inbox_run lay lim (wire_events s @ [EvObservationDiscontinuity]) seen ib" "unended (wire_events s)"
      "\<not> (ib_closed ib \<and> ib_local_observation ib = ObservationAvailable)"
    using that by (simp add: inbox_push_def saw_def)
  then show ?thesis using assms
    by (auto simp: receive_envelope_def recovered_of_def continue_envelope_def deliver_event_def send_event_def le_event_def send_frame_def wire_events_def List.map_filter_def)
qed

end
