(* ===== verification/Creation_Owners.thy ===== *)
theory Creation_Owners
  imports Run_Registry "HOL-Library.List_Lexorder" "HOL-Library.Char_ord"
begin

text \<open>
  The owners of a creation in progress (\<^verbatim>\<open>crates/ctxmux-daemon/src/creation.rs\<close> before the registry): the terminal order, the
  creation flights, the physical-overlap budget with its cleanup fences, and the armed owners of a started child that is not
  published yet (\<^verbatim>\<open>PendingPublication\<close>, and \<^verbatim>\<open>PendingTmuxPublication\<close> of \<^verbatim>\<open>lib.rs\<close>).  A step relation composes them the way
  \<^verbatim>\<open>create_inner\<close>, \<^verbatim>\<open>create_unique\<close> and \<^verbatim>\<open>import_tmux\<close> of a memory-only daemon do, over every interleaving of creations.

  What a Run answers about its own cleanup is an argument (\<open>cleanup_view\<close>), as are the semaphore's answer, clock readings and the
  outcome of a spawn.  \<open>None\<close> as a result is a panic.
\<close>

section \<open>Terminal order\<close>

text \<open>A Run's write-once ordinal and its state; the owner's only state is the last ordinal.\<close>

type_synonym terminal_cell = "u64 option \<times> run_state"

definition terminal_recover :: "u64 \<Rightarrow> terminal_cell \<Rightarrow> (u64 \<times> terminal_cell) option" where
  "terminal_recover next_ordinal cell =
     (case (checked_add next_ordinal 1, fst cell) of
        (Some n, None) \<Rightarrow> Some (n, Some n, snd cell)
      | _ \<Rightarrow> None)"

definition terminal_publish :: "u64 \<Rightarrow> terminal_cell \<Rightarrow> run_state \<Rightarrow> (u64 \<times> terminal_cell) option" where
  "terminal_publish next_ordinal cell terminal =
     (case (checked_add next_ordinal 1, fst cell) of
        (Some n, None) \<Rightarrow> Some (n, Some n, terminal)
      | _ \<Rightarrow> None)"

section \<open>Creation flights\<close>

definition MAX_CREATION_OWNER_SLOTS :: usize where
  "MAX_CREATION_OWNER_SLOTS = 8"

record creation_flights =
  fl_accepting :: bool
  fl_active :: usize

definition flights_new :: creation_flights where
  "flights_new = \<lparr>fl_accepting = True, fl_active = 0\<rparr>"

definition try_begin :: "creation_flights \<Rightarrow> (bool \<times> creation_flights) option" where
  "try_begin fl =
     (if \<not> fl_accepting fl then Some (False, fl)
      else map_option (\<lambda>n. (True, fl\<lparr>fl_active := n\<rparr>)) (checked_add (fl_active fl) 1))"

definition flights_fence :: "creation_flights \<Rightarrow> creation_flights" where
  "flights_fence fl = fl\<lparr>fl_accepting := False\<rparr>"

definition flight_drop :: "creation_flights \<Rightarrow> creation_flights option" where
  "flight_drop fl = map_option (\<lambda>n. fl\<lparr>fl_active := n\<rparr>) (checked_sub (fl_active fl) 1)"

text \<open>
  The wait reads the active count once, then at each turn the clock, the count after the wait and whether the wait timed out.
  \<open>None\<close> is a wait that has not returned yet.
\<close>

fun flights_wait_until :: "nat \<Rightarrow> usize \<Rightarrow> (nat \<times> usize \<times> bool) list \<Rightarrow> bool option" where
  "flights_wait_until deadline active [] = (if active = 0 then Some True else None)"
| "flights_wait_until deadline active ((now, after, timed_out) # turns) =
     (if active = 0 then Some True
      else if now \<ge> deadline then Some False
      else if timed_out \<and> after \<noteq> 0 then Some False
      else flights_wait_until deadline after turns)"

section \<open>Unpublished cleanup\<close>

record cleanup_entry =
  ue_run :: run_id
  ue_transfer_reason :: string

record pending_cleanup_owners =
  pc_request :: creation_request
  pc_owners :: "cleanup_entry list"

record cleanup_state =
  uc_max_owned :: usize
  uc_owned :: usize
  uc_entries :: "(operation_key \<times> pending_cleanup_owners) list"
  uc_tmux_entries :: "cleanup_entry list"

definition cleanup_with_slots :: "usize \<Rightarrow> cleanup_state" where
  "cleanup_with_slots slots = \<lparr>uc_max_owned = slots, uc_owned = 0, uc_entries = [], uc_tmux_entries = []\<rparr>"

text \<open>The native control's and the tmux control's own cleanup result, the number of owners of the Run, and its name in reports.\<close>

record cleanup_view =
  cv_native :: "run_id \<Rightarrow> string + unit"
  cv_tmux :: "run_id \<Rightarrow> string + unit"
  cv_strong :: "run_id \<Rightarrow> nat"
  cv_name :: "run_id \<Rightarrow> string"

definition unpublished_cleanup_result :: "cleanup_view \<Rightarrow> run_id \<Rightarrow> string + unit" where
  "unpublished_cleanup_result v i =
     and_then (cv_native v i) (\<lambda>_. require (cv_strong v i = 1) (''unpublished Run '' @ cv_name v i @ '' retains reader, waiter, or external owners''))"

definition tmux_cleanup_result :: "cleanup_view \<Rightarrow> run_id \<Rightarrow> string + unit" where
  "tmux_cleanup_result v i =
     and_then (cv_tmux v i) (\<lambda>_. require (cv_strong v i = 1) ''tmux cleanup completion is recorded but Run owners remain'')"

definition unresolved :: "cleanup_view \<Rightarrow> cleanup_entry \<Rightarrow> bool" where
  "unresolved v e \<longleftrightarrow> unpublished_cleanup_result v (ue_run e) \<noteq> Inr ()"

definition tmux_unresolved :: "cleanup_view \<Rightarrow> cleanup_entry \<Rightarrow> bool" where
  "tmux_unresolved v e \<longleftrightarrow> tmux_cleanup_result v (ue_run e) \<noteq> Inr ()"

definition retain_unresolved :: "cleanup_view \<Rightarrow> pending_cleanup_owners \<Rightarrow> pending_cleanup_owners" where
  "retain_unresolved v f = f\<lparr>pc_owners := filter (unresolved v) (pc_owners f)\<rparr>"

definition retained_entries :: "cleanup_view \<Rightarrow> (operation_key \<times> pending_cleanup_owners) list \<Rightarrow> (operation_key \<times> pending_cleanup_owners) list" where
  "retained_entries v es = filter (\<lambda>(_, f). pc_owners f \<noteq> []) (map (\<lambda>(k, f). (k, retain_unresolved v f)) es)"

definition prune_reaped :: "cleanup_view \<Rightarrow> cleanup_state \<Rightarrow> cleanup_state option" where
  "prune_reaped v s =
     (let reaped = sum_list (map (\<lambda>(_, f). length (pc_owners f) - length (pc_owners (retain_unresolved v f))) (uc_entries s));
          tmux = filter (tmux_unresolved v) (uc_tmux_entries s);
          reaped = reaped + (length (uc_tmux_entries s) - length tmux)
      in map_option (\<lambda>n. s\<lparr>uc_owned := n, uc_entries := retained_entries v (uc_entries s), uc_tmux_entries := tmux\<rparr>)
           (checked_sub (uc_owned s) reaped))"

definition resolve_fence :: "cleanup_view \<Rightarrow> operation_key \<Rightarrow> creation_request \<Rightarrow> cleanup_state \<Rightarrow> ((protocol_error + unit) \<times> cleanup_state) option" where
  "resolve_fence v key request s0 =
     map_option (\<lambda>s.
       (case map_of (uc_entries s) key of
          Some f \<Rightarrow>
            Inl (if pc_request f = request
                 then \<lparr>pe_code = BackendUnavailable, pe_message = ''Run creation is fenced while unpublished native owners remain active''\<rparr>
                 else \<lparr>pe_code = CreationConflict, pe_message = ''Run creation operation key is fenced for a different request''\<rparr>)
        | None \<Rightarrow> Inr (), s)) (prune_reaped v s0)"

datatype cleanup_reservation = NativeReservation operation_key | TmuxReservation

definition take_slot :: "cleanup_reservation \<Rightarrow> cleanup_view \<Rightarrow> cleanup_state \<Rightarrow> ((protocol_error + cleanup_reservation) \<times> cleanup_state) option" where
  "take_slot reservation v s0 =
     map_option (\<lambda>s.
       if uc_owned s \<ge> uc_max_owned s
       then (Inl \<lparr>pe_code = BackendUnavailable, pe_message = ''Run publication cleanup capacity is exhausted''\<rparr>, s)
       else (Inr reservation, s\<lparr>uc_owned := uc_owned s + 1\<rparr>)) (prune_reaped v s0)"

definition cleanup_reserve :: "operation_key \<Rightarrow> cleanup_view \<Rightarrow> cleanup_state \<Rightarrow> ((protocol_error + cleanup_reservation) \<times> cleanup_state) option" where
  "cleanup_reserve key = take_slot (NativeReservation key)"

definition reserve_tmux :: "cleanup_view \<Rightarrow> cleanup_state \<Rightarrow> ((protocol_error + cleanup_reservation) \<times> cleanup_state) option" where
  "reserve_tmux = take_slot TmuxReservation"

definition reservation_drop :: "cleanup_state \<Rightarrow> cleanup_state option" where
  "reservation_drop s = map_option (\<lambda>n. s\<lparr>uc_owned := n\<rparr>) (checked_sub (uc_owned s) 1)"

definition reservation_transfer :: "operation_key \<Rightarrow> creation_request \<Rightarrow> run_id \<Rightarrow> string \<Rightarrow> cleanup_state \<Rightarrow> cleanup_state" where
  "reservation_transfer key request i reason s =
     (let owner = \<lparr>ue_run = i, ue_transfer_reason = reason\<rparr>
      in case map_of (uc_entries s) key of
           None \<Rightarrow> s\<lparr>uc_entries := uc_entries s @ [(key, \<lparr>pc_request = request, pc_owners = [owner]\<rparr>)]\<rparr>
         | Some f \<Rightarrow> s\<lparr>uc_entries := AList.update key (f\<lparr>pc_owners := pc_owners f @ [owner]\<rparr>) (uc_entries s)\<rparr>)"

definition tmux_transfer :: "run_id \<Rightarrow> string \<Rightarrow> cleanup_state \<Rightarrow> cleanup_state" where
  "tmux_transfer i reason s = s\<lparr>uc_tmux_entries := uc_tmux_entries s @ [\<lparr>ue_run = i, ue_transfer_reason = reason\<rparr>]\<rparr>"

text \<open>The reports, sorted, so that the iteration order of the table does not show.\<close>

definition fence_report :: "cleanup_view \<Rightarrow> cleanup_entry \<Rightarrow> string list" where
  "fence_report v e =
     (case unpublished_cleanup_result v (ue_run e) of
        Inr _ \<Rightarrow> []
      | Inl current \<Rightarrow> [''unpublished Run '' @ cv_name v (ue_run e) @ '' exact-key fence: '' @ ue_transfer_reason e @ ''; '' @ current])"

definition tmux_report :: "cleanup_view \<Rightarrow> cleanup_entry \<Rightarrow> string list" where
  "tmux_report v e =
     (case tmux_cleanup_result v (ue_run e) of
        Inr _ \<Rightarrow> []
      | Inl current \<Rightarrow> [''unpublished tmux Run '' @ cv_name v (ue_run e) @ '' cleanup: '' @ ue_transfer_reason e @ ''; '' @ current])"

definition prune_and_report :: "cleanup_view \<Rightarrow> cleanup_state \<Rightarrow> (string list \<times> cleanup_state) option" where
  "prune_and_report v s =
     map_option (\<lambda>s'. (sort (concat (map (\<lambda>(_, f). concat (map (fence_report v) (pc_owners f))) (uc_entries s))
         @ concat (map (tmux_report v) (uc_tmux_entries s))), s')) (prune_reaped v s)"

text \<open>Each turn of the wait prunes under what the Runs answer then, and reads the clock; \<open>None\<close> with turns left is a panic.\<close>

fun cleanup_wait_until :: "nat \<Rightarrow> (cleanup_view \<times> nat) list \<Rightarrow> cleanup_state \<Rightarrow> (string list option \<times> cleanup_state) option" where
  "cleanup_wait_until deadline [] s = Some (None, s)"
| "cleanup_wait_until deadline ((v, now) # turns) s =
     (case prune_and_report v s of
        None \<Rightarrow> None
      | Some (pending, s') \<Rightarrow> if pending = [] \<or> now \<ge> deadline then Some (Some pending, s') else cleanup_wait_until deadline turns s')"

section \<open>Armed owners of an unpublished Run\<close>

record pending_publication =
  pp_request :: "creation_request option"
  pp_run :: "run_id option"
  pp_reservation :: "operation_key option"

definition pending_new :: "creation_request \<Rightarrow> run_id \<Rightarrow> operation_key \<Rightarrow> pending_publication" where
  "pending_new request i key = \<lparr>pp_request = Some request, pp_run = Some i, pp_reservation = Some key\<rparr>"

definition PENDING_TAKEN :: pending_publication where
  "PENDING_TAKEN = \<lparr>pp_request = None, pp_run = None, pp_reservation = None\<rparr>"

definition pending_transfer :: "string \<Rightarrow> pending_publication \<Rightarrow> cleanup_state \<Rightarrow> (pending_publication \<times> cleanup_state) option" where
  "pending_transfer reason p s =
     (case (pp_request p, pp_run p, pp_reservation p) of
        (Some request, Some i, Some key) \<Rightarrow> Some (PENDING_TAKEN, reservation_transfer key request i reason s)
      | _ \<Rightarrow> None)"

text \<open>The outcome of \<^verbatim>\<open>terminate_unpublished\<close> is an argument.\<close>

definition pending_cleanup_unpublished :: "string + unit \<Rightarrow> pending_publication \<Rightarrow> cleanup_state \<Rightarrow> ((string + unit) \<times> cleanup_state) option" where
  "pending_cleanup_unpublished terminated p s =
     (case (pp_run p, terminated) of
        (None, _) \<Rightarrow> None
      | (Some _, Inr _) \<Rightarrow> map_option (\<lambda>s. (Inr (), s)) (case pp_reservation p of None \<Rightarrow> Some s | Some _ \<Rightarrow> reservation_drop s)
      | (Some _, Inl error) \<Rightarrow> map_option (\<lambda>(_, s). (Inl error, s)) (pending_transfer error p s))"

definition into_published_reservation :: "pending_publication \<Rightarrow> operation_key option" where
  "into_published_reservation p = pp_reservation p"

definition pending_drop :: "string + unit \<Rightarrow> pending_publication \<Rightarrow> cleanup_state \<Rightarrow> cleanup_state option" where
  "pending_drop requested p s =
     (if pp_run p = None then Some s
      else map_option snd (pending_transfer
        (case requested of
           Inr _ \<Rightarrow> ''creation owner unwound after requesting unpublished child cleanup''
         | Inl error \<Rightarrow> ''creation owner unwound; cleanup request failed: '' @ error) p s))"

record pending_tmux_publication =
  pt_run :: "run_id option"
  pt_reservation :: bool

definition pending_tmux_new :: "run_id \<Rightarrow> pending_tmux_publication" where
  "pending_tmux_new i = \<lparr>pt_run = Some i, pt_reservation = True\<rparr>"

definition tmux_into_published :: "pending_tmux_publication \<Rightarrow> run_id option" where
  "tmux_into_published p = (if pt_reservation p then pt_run p else None)"

definition pending_tmux_drop :: "pending_tmux_publication \<Rightarrow> cleanup_state \<Rightarrow> cleanup_state option" where
  "pending_tmux_drop p s =
     (case pt_run p of
        None \<Rightarrow> Some s
      | Some i \<Rightarrow> if pt_reservation p then Some (tmux_transfer i ''tmux import owner unwound before publication'' s) else None)"

section \<open>Creations in progress\<close>

datatype creation_claim =
    NoClaim
  | Holding cleanup_reservation
  | Armed pending_publication
  | ArmedTmux pending_tmux_publication

text \<open>
  One creation from the moment it holds its key's stripe: its key and request (\<open>None\<close> for a tmux import), whether its fence is
  resolved and its launch still lies ahead, whether it holds a flight, and what it owns of the overlap budget.
\<close>

record creation_work =
  wk_subject :: "(operation_key \<times> creation_request) option"
  wk_cleared :: bool
  wk_flight :: bool
  wk_claim :: creation_claim

text \<open>The last three fields are observations: the Runs started, published, and proven clean by an owner.\<close>

record creation_world =
  cw_flights :: creation_flights
  cw_cleanup :: cleanup_state
  cw_works :: "creation_work list"
  cw_spawned :: "run_id list"
  cw_published :: "run_id list"
  cw_proven :: "run_id list"

definition world_new :: "usize \<Rightarrow> creation_world" where
  "world_new slots = \<lparr>cw_flights = flights_new, cw_cleanup = cleanup_with_slots slots, cw_works = [], cw_spawned = [], cw_published = [], cw_proven = []\<rparr>"

definition work_new :: "(operation_key \<times> creation_request) option \<Rightarrow> creation_work" where
  "work_new subject = \<lparr>wk_subject = subject, wk_cleared = (subject = None), wk_flight = False, wk_claim = NoClaim\<rparr>"

definition reaped_runs :: "cleanup_view \<Rightarrow> cleanup_state \<Rightarrow> run_id list" where
  "reaped_runs v s = map ue_run (concat (map (\<lambda>(_, f). filter (\<lambda>e. \<not> unresolved v e) (pc_owners f)) (uc_entries s))
     @ filter (\<lambda>e. \<not> tmux_unresolved v e) (uc_tmux_entries s))"

text \<open>A turn of one creation that consulted the cleanup owner under a view: what it reaped is proven clean.\<close>

definition consulted :: "cleanup_view \<Rightarrow> cleanup_state \<Rightarrow> creation_work list \<Rightarrow> creation_world \<Rightarrow> creation_world" where
  "consulted v s works w = w\<lparr>cw_cleanup := s, cw_works := works, cw_proven := cw_proven w @ reaped_runs v (cw_cleanup w)\<rparr>"

definition reserve_for :: "creation_work \<Rightarrow> cleanup_view \<Rightarrow> cleanup_state \<Rightarrow> ((protocol_error + cleanup_reservation) \<times> cleanup_state) option" where
  "reserve_for k = (case wk_subject k of Some (key, _) \<Rightarrow> cleanup_reserve key | None \<Rightarrow> reserve_tmux)"

definition disposed :: "creation_work \<Rightarrow> creation_work" where
  "disposed k = k\<lparr>wk_claim := NoClaim, wk_cleared := False\<rparr>"

definition work_key :: "creation_work \<Rightarrow> operation_key option" where
  "work_key k = map_option fst (wk_subject k)"

inductive creation_step :: "creation_world \<Rightarrow> creation_world \<Rightarrow> bool" where
  create_locked: "Some key \<notin> work_key ` set (cw_works w) \<Longrightarrow> creation_step w (w\<lparr>cw_works := cw_works w @ [work_new (Some (key, request))]\<rparr>)"
| import_started: "creation_step w (w\<lparr>cw_works := cw_works w @ [work_new None]\<rparr>)"
| fence_resolved: "cw_works w = xs @ k # ys \<Longrightarrow> wk_subject k = Some (key, request) \<Longrightarrow> wk_claim k = NoClaim
    \<Longrightarrow> resolve_fence v key request (cw_cleanup w) = Some (Inr (), s) \<Longrightarrow> creation_step w (consulted v s (xs @ k\<lparr>wk_cleared := True\<rparr> # ys) w)"
| fence_refused: "cw_works w = xs @ k # ys \<Longrightarrow> wk_subject k = Some (key, request) \<Longrightarrow> wk_claim k = NoClaim
    \<Longrightarrow> resolve_fence v key request (cw_cleanup w) = Some (Inl e, s) \<Longrightarrow> creation_step w (consulted v s (xs @ k\<lparr>wk_cleared := False\<rparr> # ys) w)"
| flight_began: "cw_works w = xs @ k # ys \<Longrightarrow> wk_cleared k \<Longrightarrow> \<not> wk_flight k \<Longrightarrow> try_begin (cw_flights w) = Some (True, fl)
    \<Longrightarrow> creation_step w (w\<lparr>cw_flights := fl, cw_works := xs @ k\<lparr>wk_flight := True\<rparr> # ys\<rparr>)"
| flight_refused: "cw_works w = xs @ k # ys \<Longrightarrow> wk_cleared k \<Longrightarrow> \<not> wk_flight k \<Longrightarrow> wk_claim k = NoClaim \<Longrightarrow> try_begin (cw_flights w) = Some (False, fl)
    \<Longrightarrow> creation_step w (w\<lparr>cw_flights := fl, cw_works := xs @ disposed k # ys\<rparr>)"
| slot_reserved: "cw_works w = xs @ k # ys \<Longrightarrow> wk_cleared k \<Longrightarrow> wk_flight k \<Longrightarrow> wk_claim k = NoClaim
    \<Longrightarrow> reserve_for k v (cw_cleanup w) = Some (Inr r, s) \<Longrightarrow> creation_step w (consulted v s (xs @ k\<lparr>wk_claim := Holding r\<rparr> # ys) w)"
| slot_refused: "cw_works w = xs @ k # ys \<Longrightarrow> wk_cleared k \<Longrightarrow> wk_flight k \<Longrightarrow> wk_claim k = NoClaim
    \<Longrightarrow> reserve_for k v (cw_cleanup w) = Some (Inl e, s) \<Longrightarrow> creation_step w (consulted v s (xs @ disposed k # ys) w)"
| launch_failed: "cw_works w = xs @ k # ys \<Longrightarrow> wk_claim k = Holding r \<Longrightarrow> reservation_drop (cw_cleanup w) = Some s
    \<Longrightarrow> creation_step w (w\<lparr>cw_cleanup := s, cw_works := xs @ disposed k # ys\<rparr>)"
| spawned: "cw_works w = xs @ k # ys \<Longrightarrow> wk_subject k = Some (key', request) \<Longrightarrow> wk_claim k = Holding (NativeReservation key) \<Longrightarrow> i \<notin> set (cw_spawned w)
    \<Longrightarrow> creation_step w (w\<lparr>cw_works := xs @ k\<lparr>wk_claim := Armed (pending_new request i key)\<rparr> # ys, cw_spawned := cw_spawned w @ [i]\<rparr>)"
| imported: "cw_works w = xs @ k # ys \<Longrightarrow> wk_claim k = Holding TmuxReservation \<Longrightarrow> i \<notin> set (cw_spawned w)
    \<Longrightarrow> creation_step w (w\<lparr>cw_works := xs @ k\<lparr>wk_claim := ArmedTmux (pending_tmux_new i)\<rparr> # ys, cw_spawned := cw_spawned w @ [i]\<rparr>)"
| published: "cw_works w = xs @ k # ys \<Longrightarrow> wk_claim k = Armed p \<Longrightarrow> pp_run p = Some i \<Longrightarrow> into_published_reservation p \<noteq> None
    \<Longrightarrow> reservation_drop (cw_cleanup w) = Some s
    \<Longrightarrow> creation_step w (w\<lparr>cw_cleanup := s, cw_works := xs @ disposed k # ys, cw_published := cw_published w @ [i]\<rparr>)"
| tmux_published: "cw_works w = xs @ k # ys \<Longrightarrow> wk_claim k = ArmedTmux p \<Longrightarrow> tmux_into_published p = Some i
    \<Longrightarrow> reservation_drop (cw_cleanup w) = Some s
    \<Longrightarrow> creation_step w (w\<lparr>cw_cleanup := s, cw_works := xs @ disposed k # ys, cw_published := cw_published w @ [i]\<rparr>)"
| rolled_back: "cw_works w = xs @ k # ys \<Longrightarrow> wk_claim k = Armed p \<Longrightarrow> pp_run p = Some i
    \<Longrightarrow> pending_cleanup_unpublished (Inr ()) p (cw_cleanup w) = Some (Inr (), s)
    \<Longrightarrow> creation_step w (w\<lparr>cw_cleanup := s, cw_works := xs @ disposed k # ys, cw_proven := cw_proven w @ [i]\<rparr>)"
| rollback_pending: "cw_works w = xs @ k # ys \<Longrightarrow> wk_claim k = Armed p \<Longrightarrow> pending_cleanup_unpublished (Inl e) p (cw_cleanup w) = Some (r, s)
    \<Longrightarrow> creation_step w (w\<lparr>cw_cleanup := s, cw_works := xs @ disposed k # ys\<rparr>)"
| unwound: "cw_works w = xs @ k # ys \<Longrightarrow> wk_claim k = Armed p \<Longrightarrow> pending_drop requested p (cw_cleanup w) = Some s
    \<Longrightarrow> creation_step w (w\<lparr>cw_cleanup := s, cw_works := xs @ disposed k # ys\<rparr>)"
| tmux_unwound: "cw_works w = xs @ k # ys \<Longrightarrow> wk_claim k = ArmedTmux p \<Longrightarrow> pending_tmux_drop p (cw_cleanup w) = Some s
    \<Longrightarrow> creation_step w (w\<lparr>cw_cleanup := s, cw_works := xs @ disposed k # ys\<rparr>)"
| flight_ended: "cw_works w = xs @ k # ys \<Longrightarrow> wk_flight k \<Longrightarrow> wk_claim k = NoClaim \<Longrightarrow> flight_drop (cw_flights w) = Some fl
    \<Longrightarrow> creation_step w (w\<lparr>cw_flights := fl, cw_works := xs @ k\<lparr>wk_flight := False, wk_cleared := False\<rparr> # ys\<rparr>)"
| work_ended: "cw_works w = xs @ k # ys \<Longrightarrow> \<not> wk_flight k \<Longrightarrow> wk_claim k = NoClaim \<Longrightarrow> creation_step w (w\<lparr>cw_works := xs @ ys\<rparr>)"
| reported: "prune_and_report v (cw_cleanup w) = Some (reports, s) \<Longrightarrow> creation_step w (consulted v s (cw_works w) w)"
| fenced: "creation_step w (w\<lparr>cw_flights := flights_fence (cw_flights w)\<rparr>)"

definition creation_reachable :: "usize \<Rightarrow> creation_world \<Rightarrow> bool" where
  "creation_reachable slots = creation_step\<^sup>*\<^sup>* (world_new slots)"

section \<open>Invariant\<close>

definition entry_runs :: "cleanup_state \<Rightarrow> run_id list" where
  "entry_runs s = concat (map (\<lambda>(_, f). map ue_run (pc_owners f)) (uc_entries s))"

definition tmux_runs :: "cleanup_state \<Rightarrow> run_id list" where
  "tmux_runs s = map ue_run (uc_tmux_entries s)"

definition cleanup_runs :: "cleanup_state \<Rightarrow> run_id multiset" where
  "cleanup_runs s = mset (entry_runs s) + mset (tmux_runs s)"

fun claim_runs :: "creation_claim \<Rightarrow> run_id list" where
  "claim_runs (Armed p) = (case pp_run p of Some i \<Rightarrow> [i] | None \<Rightarrow> [])"
| "claim_runs (ArmedTmux p) = (case pt_run p of Some i \<Rightarrow> [i] | None \<Rightarrow> [])"
| "claim_runs _ = []"

definition armed_runs :: "creation_work list \<Rightarrow> run_id list" where
  "armed_runs works = concat (map (claim_runs \<circ> wk_claim) works)"

definition claims :: "creation_work list \<Rightarrow> nat" where
  "claims works = length (filter (\<lambda>k. wk_claim k \<noteq> NoClaim) works)"

definition flights :: "creation_work list \<Rightarrow> nat" where
  "flights works = length (filter wk_flight works)"

definition claim_ok :: "creation_work \<Rightarrow> bool" where
  "claim_ok k \<longleftrightarrow>
     (case wk_claim k of
        NoClaim \<Rightarrow> True
      | Holding r \<Rightarrow> wk_cleared k \<and> r = (case wk_subject k of Some (key, _) \<Rightarrow> NativeReservation key | None \<Rightarrow> TmuxReservation)
      | Armed p \<Rightarrow> wk_cleared k \<and> (\<exists>key request i. wk_subject k = Some (key, request) \<and> p = pending_new request i key)
      | ArmedTmux p \<Rightarrow> wk_subject k = None \<and> (\<exists>i. p = pending_tmux_new i))"

definition clear_of :: "cleanup_state \<Rightarrow> creation_work \<Rightarrow> bool" where
  "clear_of s k \<longleftrightarrow> (\<forall>key request. wk_cleared k \<and> wk_subject k = Some (key, request) \<longrightarrow> map_of (uc_entries s) key = None)"

definition fences_ok :: "cleanup_state \<Rightarrow> bool" where
  "fences_ok s \<longleftrightarrow> distinct (map fst (uc_entries s)) \<and> (\<forall>(_, f) \<in> set (uc_entries s). length (pc_owners f) = 1)"

definition work_keys :: "creation_work list \<Rightarrow> operation_key list" where
  "work_keys works = List.map_filter work_key works"

definition creation_ok :: "creation_world \<Rightarrow> bool" where
  "creation_ok w \<longleftrightarrow>
     fences_ok (cw_cleanup w) \<and> distinct (work_keys (cw_works w)) \<and> list_all claim_ok (cw_works w) \<and> list_all (clear_of (cw_cleanup w)) (cw_works w)
     \<and> uc_owned (cw_cleanup w) = claims (cw_works w) + size (cleanup_runs (cw_cleanup w)) \<and> uc_owned (cw_cleanup w) \<le> uc_max_owned (cw_cleanup w)
     \<and> fl_active (cw_flights w) = flights (cw_works w)
     \<and> mset (cw_spawned w) = mset (cw_published w) + mset (cw_proven w) + mset (armed_runs (cw_works w)) + cleanup_runs (cw_cleanup w)
     \<and> distinct (cw_spawned w)"

subsection \<open>Pruning\<close>

lemma retained_concat:
  "concat (map (\<lambda>(_, f). map ue_run (pc_owners f)) (retained_entries v es)) = concat (map (\<lambda>(_, f). map ue_run (filter (unresolved v) (pc_owners f))) es)"
  by (induction es) (auto simp: retained_entries_def retain_unresolved_def)

lemma mset_split_map: "mset (map f (filter P xs)) + mset (map f (filter (\<lambda>x. \<not> P x) xs)) = mset (map f xs)"
  by (induction xs) auto

lemma retained_runs:
  "mset (concat (map (\<lambda>(_, f). map ue_run (pc_owners f)) (retained_entries v es)))
   + mset (map ue_run (concat (map (\<lambda>(_, f). filter (\<lambda>e. \<not> unresolved v e) (pc_owners f)) es)))
   = mset (concat (map (\<lambda>(_, f). map ue_run (pc_owners f)) es))"
proof (induction es)
  case (Cons x es)
  obtain k f where x: "x = (k, f)" by force
  have "mset (concat (map (\<lambda>(_, f). map ue_run (pc_owners f)) (retained_entries v (x # es))))
      + mset (map ue_run (concat (map (\<lambda>(_, f). filter (\<lambda>e. \<not> unresolved v e) (pc_owners f)) (x # es))))
    = (mset (map ue_run (filter (unresolved v) (pc_owners f))) + mset (map ue_run (filter (\<lambda>e. \<not> unresolved v e) (pc_owners f))))
      + (mset (concat (map (\<lambda>(_, f). map ue_run (pc_owners f)) (retained_entries v es)))
         + mset (map ue_run (concat (map (\<lambda>(_, f). filter (\<lambda>e. \<not> unresolved v e) (pc_owners f)) es))))"
    by (simp add: x retained_concat ac_simps)
  then show ?case unfolding Cons mset_split_map by (simp add: x)
qed (simp add: retained_concat)

lemma retained_keys: "map fst (retained_entries v es) = map fst (filter (\<lambda>(_, f). filter (unresolved v) (pc_owners f) \<noteq> []) es)"
  by (induction es) (auto simp: retained_entries_def retain_unresolved_def)

lemma retained_subset: "(k, f') \<in> set (retained_entries v es) \<Longrightarrow> \<exists>f. (k, f) \<in> set es \<and> f' = retain_unresolved v f \<and> pc_owners f' \<noteq> []"
  by (auto simp: retained_entries_def)

lemma reaped_count:
  "sum_list (map (\<lambda>(_, f). length (pc_owners f) - length (pc_owners (retain_unresolved v f))) es)
   = length (concat (map (\<lambda>(_, f). filter (\<lambda>e. \<not> unresolved v e) (pc_owners f)) es))"
proof (induction es)
  case (Cons x es)
  have "length xs - length (filter P xs) = length (filter (\<lambda>e. \<not> P e) xs)" for xs :: "cleanup_entry list" and P
    using sum_length_filter_compl [of P xs] by linarith
  then show ?case using Cons by (simp add: case_prod_beta retain_unresolved_def)
qed simp

lemma prune_reaped_some:
  assumes "size (cleanup_runs s) \<le> uc_owned s"
  obtains s' where "prune_reaped v s = Some s'" "uc_owned s' + length (reaped_runs v s) = uc_owned s" "uc_max_owned s' = uc_max_owned s"
    "cleanup_runs s' + mset (reaped_runs v s) = cleanup_runs s" "uc_entries s' = retained_entries v (uc_entries s)"
proof -
  have tmux: "length (uc_tmux_entries s) - length (filter (tmux_unresolved v) (uc_tmux_entries s)) = length (filter (\<lambda>e. \<not> tmux_unresolved v e) (uc_tmux_entries s))"
    using sum_length_filter_compl [of "tmux_unresolved v" "uc_tmux_entries s"] by linarith
  let ?s' = "s\<lparr>uc_owned := uc_owned s - length (reaped_runs v s), uc_entries := retained_entries v (uc_entries s), uc_tmux_entries := filter (tmux_unresolved v) (uc_tmux_entries s)\<rparr>"
  have runs: "cleanup_runs ?s' + mset (reaped_runs v s) = cleanup_runs s"
    using retained_runs [of v "uc_entries s"] mset_split_map [of ue_run "tmux_unresolved v" "uc_tmux_entries s"]
    by (simp add: cleanup_runs_def entry_runs_def tmux_runs_def reaped_runs_def ac_simps)
  then have "length (reaped_runs v s) \<le> size (cleanup_runs s)" by (metis add.commute le_add1 size_mset size_union)
  then have le: "length (reaped_runs v s) \<le> uc_owned s" using assms by simp
  then have "prune_reaped v s = Some ?s'"
    by (simp add: prune_reaped_def Let_def checked_sub_def reaped_count tmux reaped_runs_def)
  then show ?thesis using that [of ?s'] runs le by simp
qed

lemma retained_None: "map_of es key = None \<Longrightarrow> map_of (retained_entries v es) key = None"
  by (auto simp: map_of_eq_None_iff dest!: retained_subset) (metis fst_conv image_eqI)

lemma retained_fences:
  assumes "distinct (map fst es)" "\<forall>(_, f) \<in> set es. length (pc_owners f) = 1"
  shows "distinct (map fst (retained_entries v es))" "\<forall>(_, f) \<in> set (retained_entries v es). length (pc_owners f) = 1"
proof -
  show "distinct (map fst (retained_entries v es))" using assms(1) by (simp add: retained_keys distinct_map_filter)
  have "length (pc_owners f') = 1" if "(k, f') \<in> set (retained_entries v es)" for k f'
  proof -
    obtain f where f: "(k, f) \<in> set es" "f' = retain_unresolved v f" "pc_owners f' \<noteq> []" using retained_subset [OF \<open>(k, f') \<in> _\<close>] by blast
    have "length (pc_owners f) = 1" using f(1) assms(2) by auto
    then have "length (pc_owners f') \<le> 1" using f(2) length_filter_le [of "unresolved v" "pc_owners f"] by (simp add: retain_unresolved_def)
    then show ?thesis using f(3) by (cases "pc_owners f'") auto
  qed
  then show "\<forall>(_, f) \<in> set (retained_entries v es). length (pc_owners f) = 1" by auto
qed

subsection \<open>Works\<close>

lemma work_parts:
  "claims (k # ys) = of_bool (wk_claim k \<noteq> NoClaim) + claims ys" "flights (k # ys) = of_bool (wk_flight k) + flights ys"
  "mset (armed_runs (k # ys)) = mset (claim_runs (wk_claim k)) + mset (armed_runs ys)"
  "claims (xs @ ys) = claims xs + claims ys" "flights (xs @ ys) = flights xs + flights ys" "mset (armed_runs (xs @ ys)) = mset (armed_runs xs) + mset (armed_runs ys)"
  "claims [] = 0" "flights [] = 0" "armed_runs [] = []"
  by (auto simp: claims_def flights_def armed_runs_def)

lemma work_keys_parts:
  "work_keys (k # ys) = (case work_key k of Some key \<Rightarrow> [key] | None \<Rightarrow> []) @ work_keys ys"
  "work_keys (xs @ ys) = work_keys xs @ work_keys ys" "work_keys [] = []"
  by (simp_all add: work_keys_def List.map_filter_def split: option.split)

lemma set_work_keys: "key \<in> set (work_keys works) \<longleftrightarrow> Some key \<in> work_key ` set works"
  by (induction works) (auto simp: work_keys_parts split: option.split)

lemma owned_update [simp]:
  "clear_of (s\<lparr>uc_owned := n\<rparr>) = clear_of s" "fences_ok (s\<lparr>uc_owned := n\<rparr>) = fences_ok s" "cleanup_runs (s\<lparr>uc_owned := n\<rparr>) = cleanup_runs s"
  by (simp_all add: clear_of_def fences_ok_def cleanup_runs_def entry_runs_def tmux_runs_def fun_eq_iff)

lemma same_key [simp]:
  "work_key (k\<lparr>wk_cleared := a\<rparr>) = work_key k" "work_key (k\<lparr>wk_flight := b\<rparr>) = work_key k" "work_key (k\<lparr>wk_claim := c\<rparr>) = work_key k" "work_key (disposed k) = work_key k"
  by (simp_all add: work_key_def disposed_def)

lemma same_claim [simp]: "claim_ok (k\<lparr>wk_flight := b\<rparr>) = claim_ok k" "clear_of s (k\<lparr>wk_flight := b\<rparr>) = clear_of s k"
  by (cases "wk_claim k"; simp add: claim_ok_def) (simp add: clear_of_def)

lemma disposed_ok [simp]:
  "claim_ok (disposed k)" "clear_of s (disposed k)" "wk_claim (disposed k) = NoClaim" "wk_flight (disposed k) = wk_flight k"
  by (simp_all add: claim_ok_def clear_of_def disposed_def)

subsection \<open>What the operations keep\<close>

text \<open>The part of the invariant that concerns the cleanup owner and the works.\<close>

definition owners_ok :: "cleanup_state \<Rightarrow> creation_work list \<Rightarrow> bool" where
  "owners_ok s works \<longleftrightarrow>
     fences_ok s \<and> distinct (work_keys works) \<and> list_all claim_ok works \<and> list_all (clear_of s) works
     \<and> uc_owned s = claims works + size (cleanup_runs s) \<and> uc_owned s \<le> uc_max_owned s"

lemma creation_ok_alt:
  "creation_ok w \<longleftrightarrow> owners_ok (cw_cleanup w) (cw_works w) \<and> fl_active (cw_flights w) = flights (cw_works w)
     \<and> mset (cw_spawned w) = mset (cw_published w) + mset (cw_proven w) + mset (armed_runs (cw_works w)) + cleanup_runs (cw_cleanup w)
     \<and> distinct (cw_spawned w)"
  by (auto simp: creation_ok_def owners_ok_def)

lemma prune_owners:
  assumes "owners_ok s works"
  obtains s' where "prune_reaped v s = Some s'" "owners_ok s' works" "cleanup_runs s' + mset (reaped_runs v s) = cleanup_runs s"
    "uc_entries s' = retained_entries v (uc_entries s)"
proof -
  have "size (cleanup_runs s) \<le> uc_owned s" using assms by (simp add: owners_ok_def)
  then obtain s' where s': "prune_reaped v s = Some s'" "uc_owned s' + length (reaped_runs v s) = uc_owned s" "uc_max_owned s' = uc_max_owned s"
    "cleanup_runs s' + mset (reaped_runs v s) = cleanup_runs s" "uc_entries s' = retained_entries v (uc_entries s)"
    by (rule prune_reaped_some)
  have "size (cleanup_runs s') + length (reaped_runs v s) = size (cleanup_runs s)" using s'(4) by (metis size_mset size_union)
  moreover have "clear_of s' k" if "clear_of s k" for k using that retained_None by (auto simp: clear_of_def s'(5))
  then have "list_all (clear_of s') works" using assms by (auto simp: owners_ok_def list_all_iff)
  moreover have "fences_ok s'" using assms retained_fences [of "uc_entries s" v] by (simp add: owners_ok_def fences_ok_def s'(5))
  ultimately have "owners_ok s' works" using assms s'(2,3) by (auto simp: owners_ok_def)
  then show ?thesis using that s' by blast
qed

lemma consulted_ok:
  assumes "creation_ok w" "owners_ok s works" "flights works = flights (cw_works w)" "mset (armed_runs works) = mset (armed_runs (cw_works w))"
    "cleanup_runs s + mset (reaped_runs v (cw_cleanup w)) = cleanup_runs (cw_cleanup w)"
  shows "creation_ok (consulted v s works w)"
  using assms(1-4) unfolding creation_ok_alt consulted_def by (simp add: assms(5) [symmetric] ac_simps)

lemma drop_owners:
  assumes "owners_ok s (xs @ k # ys)" "wk_claim k \<noteq> NoClaim" "reservation_drop s = Some s'"
  shows "owners_ok s' (xs @ disposed k # ys)" "cleanup_runs s' = cleanup_runs s"
proof -
  have s': "s' = s\<lparr>uc_owned := uc_owned s - 1\<rparr>" using assms(3) by (auto simp: reservation_drop_def checked_sub_def split: if_splits)
  then show "cleanup_runs s' = cleanup_runs s" by simp
  show "owners_ok s' (xs @ disposed k # ys)" using assms(1,2) by (simp add: owners_ok_def s' work_parts work_keys_parts)
qed

lemma transfer_owners:
  assumes "owners_ok s (xs @ k # ys)" "wk_claim k = Armed (pending_new request i key)"
  shows "owners_ok (reservation_transfer key request i reason s) (xs @ disposed k # ys)"
    "cleanup_runs (reservation_transfer key request i reason s) = add_mset i (cleanup_runs s)"
proof -
  have k: "wk_cleared k" "wk_subject k = Some (key, request)" using assms by (auto simp: owners_ok_def claim_ok_def pending_new_def)
  then have free: "map_of (uc_entries s) key = None" using assms(1) by (auto simp: owners_ok_def clear_of_def)
  then have s': "reservation_transfer key request i reason s
      = s\<lparr>uc_entries := uc_entries s @ [(key, \<lparr>pc_request = request, pc_owners = [\<lparr>ue_run = i, ue_transfer_reason = reason\<rparr>]\<rparr>)]\<rparr>"
    by (simp add: reservation_transfer_def)
  show runs: "cleanup_runs (reservation_transfer key request i reason s) = add_mset i (cleanup_runs s)"
    unfolding s' by (simp add: cleanup_runs_def entry_runs_def tmux_runs_def)
  have others: "clear_of (reservation_transfer key request i reason s) j" if "j \<in> set (xs @ ys)" for j
  proof -
    have "Some key \<notin> work_key ` set (xs @ ys)" using assms(1) k(2) set_work_keys by (auto simp: owners_ok_def work_keys_parts work_key_def)
    then have "work_key j \<noteq> Some key" using that by (metis image_eqI)
    then show ?thesis using assms(1) that by (auto simp: owners_ok_def list_all_iff clear_of_def s' work_key_def map_add_def)
  qed
  have "fences_ok (reservation_transfer key request i reason s)" using assms(1) free by (auto simp: owners_ok_def fences_ok_def s' map_of_eq_None_iff)
  then show "owners_ok (reservation_transfer key request i reason s) (xs @ disposed k # ys)"
    using assms others unfolding owners_ok_def runs by (auto simp: work_parts work_keys_parts list_all_iff s')
qed

lemma tmux_transfer_owners:
  assumes "owners_ok s (xs @ k # ys)" "wk_claim k \<noteq> NoClaim"
  shows "owners_ok (tmux_transfer i reason s) (xs @ disposed k # ys)" "cleanup_runs (tmux_transfer i reason s) = add_mset i (cleanup_runs s)"
proof -
  show runs: "cleanup_runs (tmux_transfer i reason s) = add_mset i (cleanup_runs s)"
    by (simp add: cleanup_runs_def entry_runs_def tmux_runs_def tmux_transfer_def)
  have "clear_of (tmux_transfer i reason s) = clear_of s" "fences_ok (tmux_transfer i reason s) = fences_ok s"
    by (simp_all add: clear_of_def fences_ok_def tmux_transfer_def fun_eq_iff)
  then show "owners_ok (tmux_transfer i reason s) (xs @ disposed k # ys)"
    using assms by (simp add: owners_ok_def runs work_parts work_keys_parts) (simp add: tmux_transfer_def)
qed

lemma replace_owners:
  assumes "owners_ok s (xs @ k # ys)" "work_key k' = work_key k" "claim_ok k'" "clear_of s k'" "wk_claim k' = NoClaim \<longleftrightarrow> wk_claim k = NoClaim"
  shows "owners_ok s (xs @ k' # ys)"
  using assms by (simp add: owners_ok_def work_parts work_keys_parts)

lemma refused_owners:
  assumes "owners_ok s works" "reserve_for k v s = Some (Inl e, s')"
  shows "owners_ok s' works" "cleanup_runs s' + mset (reaped_runs v s) = cleanup_runs s"
proof -
  obtain s1 where s1: "prune_reaped v s = Some s1" "owners_ok s1 works" "cleanup_runs s1 + mset (reaped_runs v s) = cleanup_runs s" by (rule prune_owners [OF assms(1)])
  have "s' = s1" using assms(2) s1(1) by (auto simp: reserve_for_def cleanup_reserve_def reserve_tmux_def take_slot_def split: option.splits if_splits)
  then show "owners_ok s' works" "cleanup_runs s' + mset (reaped_runs v s) = cleanup_runs s" using s1 by simp_all
qed

lemma reserved_owners:
  assumes "owners_ok s (xs @ k # ys)" "wk_cleared k" "wk_claim k = NoClaim" "reserve_for k v s = Some (Inr r, s')"
  shows "owners_ok s' (xs @ k\<lparr>wk_claim := Holding r\<rparr> # ys)" "cleanup_runs s' + mset (reaped_runs v s) = cleanup_runs s"
proof -
  obtain s1 where s1: "prune_reaped v s = Some s1" "owners_ok s1 (xs @ k # ys)" "cleanup_runs s1 + mset (reaped_runs v s) = cleanup_runs s"
    by (rule prune_owners [OF assms(1)])
  have s': "s' = s1\<lparr>uc_owned := uc_owned s1 + 1\<rparr>" "uc_owned s1 < uc_max_owned s1"
    and r: "r = (case wk_subject k of Some (key, _) \<Rightarrow> NativeReservation key | None \<Rightarrow> TmuxReservation)"
    using assms(4) s1(1) by (auto simp: reserve_for_def cleanup_reserve_def reserve_tmux_def take_slot_def split: option.splits if_splits)
  show "cleanup_runs s' + mset (reaped_runs v s) = cleanup_runs s" using s1(3) s' by simp
  have "claim_ok (k\<lparr>wk_claim := Holding r\<rparr>)" using assms(2) r by (simp add: claim_ok_def)
  moreover have "clear_of s1 (k\<lparr>wk_claim := Holding r\<rparr>)" using s1(2) by (simp add: owners_ok_def clear_of_def)
  ultimately show "owners_ok s' (xs @ k\<lparr>wk_claim := Holding r\<rparr> # ys)"
    using s1(2) s'(2) assms(3) by (simp add: owners_ok_def s'(1) work_parts work_keys_parts)
qed

lemma resolved_owners:
  assumes "owners_ok s (xs @ k # ys)" "wk_subject k = Some (key, request)" "wk_claim k = NoClaim" "resolve_fence v key request s = Some (r, s')"
  shows "owners_ok s' (xs @ k\<lparr>wk_cleared := r = Inr ()\<rparr> # ys)" "cleanup_runs s' + mset (reaped_runs v s) = cleanup_runs s"
proof -
  obtain s1 where s1: "prune_reaped v s = Some s1" "owners_ok s1 (xs @ k # ys)" "cleanup_runs s1 + mset (reaped_runs v s) = cleanup_runs s"
    by (rule prune_owners [OF assms(1)])
  have s': "s' = s1" "r = Inr () \<Longrightarrow> map_of (uc_entries s1) key = None" using assms(4) s1(1) by (auto simp: resolve_fence_def split: option.splits)
  show "cleanup_runs s' + mset (reaped_runs v s) = cleanup_runs s" using s1(3) s' by simp
  show "owners_ok s' (xs @ k\<lparr>wk_cleared := r = Inr ()\<rparr> # ys)" unfolding s'(1)
    by (rule replace_owners [OF s1(2)]) (use s'(2) assms(2,3) in \<open>simp_all add: claim_ok_def clear_of_def\<close>)
qed

lemma reported_owners:
  assumes "owners_ok s works" "prune_and_report v s = Some (reports, s')"
  shows "owners_ok s' works" "cleanup_runs s' + mset (reaped_runs v s) = cleanup_runs s"
proof -
  obtain s1 where s1: "prune_reaped v s = Some s1" "owners_ok s1 works" "cleanup_runs s1 + mset (reaped_runs v s) = cleanup_runs s" by (rule prune_owners [OF assms(1)])
  then show "owners_ok s' works" "cleanup_runs s' + mset (reaped_runs v s) = cleanup_runs s" using assms(2) by (simp_all add: prune_and_report_def)
qed

lemma armed_run:
  assumes "owners_ok s (xs @ k # ys)" "wk_claim k = Armed p"
  obtains key request i where "p = pending_new request i key" "wk_subject k = Some (key, request)"
  using assms by (auto simp: owners_ok_def claim_ok_def)

lemma armed_tmux_run:
  assumes "owners_ok s (xs @ k # ys)" "wk_claim k = ArmedTmux p"
  obtains i where "p = pending_tmux_new i"
  using assms by (auto simp: owners_ok_def claim_ok_def)

subsection \<open>Steps\<close>

text \<open>A claim that ends leaves its Run with whoever takes it over.\<close>

lemma ended_claim_ok:
  assumes "creation_ok w" "cw_works w = xs @ k # ys" "owners_ok s (xs @ disposed k # ys)" "mset (claim_runs (wk_claim k)) = P + Q + R" "cleanup_runs s = cleanup_runs (cw_cleanup w) + R"
    "mset (cw_published w') = mset (cw_published w) + P" "mset (cw_proven w') = mset (cw_proven w) + Q"
    "cw_works w' = xs @ disposed k # ys" "cw_cleanup w' = s" "cw_flights w' = cw_flights w" "cw_spawned w' = cw_spawned w"
  shows "creation_ok w'"
  using assms by (simp add: creation_ok_alt work_parts ac_simps)

lemma work_step_ok:
  assumes "creation_ok w" "cw_works w = xs @ k # ys"
  shows "wk_claim k = Holding r \<Longrightarrow> reservation_drop (cw_cleanup w) = Some s \<Longrightarrow> creation_ok (w\<lparr>cw_cleanup := s, cw_works := xs @ disposed k # ys\<rparr>)"
    and "wk_claim k = Armed p \<Longrightarrow> pp_run p = Some i \<Longrightarrow> reservation_drop (cw_cleanup w) = Some s
      \<Longrightarrow> creation_ok (w\<lparr>cw_cleanup := s, cw_works := xs @ disposed k # ys, cw_published := cw_published w @ [i]\<rparr>)"
    and "wk_claim k = Armed p \<Longrightarrow> pp_run p = Some i \<Longrightarrow> reservation_drop (cw_cleanup w) = Some s
      \<Longrightarrow> creation_ok (w\<lparr>cw_cleanup := s, cw_works := xs @ disposed k # ys, cw_proven := cw_proven w @ [i]\<rparr>)"
    and "wk_claim k = ArmedTmux q \<Longrightarrow> pt_run q = Some i \<Longrightarrow> reservation_drop (cw_cleanup w) = Some s
      \<Longrightarrow> creation_ok (w\<lparr>cw_cleanup := s, cw_works := xs @ disposed k # ys, cw_published := cw_published w @ [i]\<rparr>)"
    and "wk_claim k = Armed p \<Longrightarrow> pending_transfer reason p (cw_cleanup w) = Some (p', s) \<Longrightarrow> creation_ok (w\<lparr>cw_cleanup := s, cw_works := xs @ disposed k # ys\<rparr>)"
    and "wk_claim k = ArmedTmux q \<Longrightarrow> pending_tmux_drop q (cw_cleanup w) = Some s \<Longrightarrow> creation_ok (w\<lparr>cw_cleanup := s, cw_works := xs @ disposed k # ys\<rparr>)"
proof -
  have own: "owners_ok (cw_cleanup w) (xs @ k # ys)" using assms by (simp add: creation_ok_alt)
  note drop = drop_owners [OF own] and ended = ended_claim_ok [OF assms]
  show "creation_ok (w\<lparr>cw_cleanup := s, cw_works := xs @ disposed k # ys\<rparr>)" if "wk_claim k = Holding r" "reservation_drop (cw_cleanup w) = Some s"
    by (rule ended [where P = "{#}" and Q = "{#}" and R = "{#}" and s = s]) (use drop [of s] that in simp_all)
  show "creation_ok (w\<lparr>cw_cleanup := s, cw_works := xs @ disposed k # ys, cw_published := cw_published w @ [i]\<rparr>)"
    if "wk_claim k = Armed p" "pp_run p = Some i" "reservation_drop (cw_cleanup w) = Some s"
    by (rule ended [where P = "{#i#}" and Q = "{#}" and R = "{#}" and s = s]) (use drop [of s] that in simp_all)
  show "creation_ok (w\<lparr>cw_cleanup := s, cw_works := xs @ disposed k # ys, cw_proven := cw_proven w @ [i]\<rparr>)"
    if "wk_claim k = Armed p" "pp_run p = Some i" "reservation_drop (cw_cleanup w) = Some s"
    by (rule ended [where P = "{#}" and Q = "{#i#}" and R = "{#}" and s = s]) (use drop [of s] that in simp_all)
  show "creation_ok (w\<lparr>cw_cleanup := s, cw_works := xs @ disposed k # ys, cw_published := cw_published w @ [i]\<rparr>)"
    if "wk_claim k = ArmedTmux q" "pt_run q = Some i" "reservation_drop (cw_cleanup w) = Some s"
    by (rule ended [where P = "{#i#}" and Q = "{#}" and R = "{#}" and s = s]) (use drop [of s] that in simp_all)
  show "creation_ok (w\<lparr>cw_cleanup := s, cw_works := xs @ disposed k # ys\<rparr>)"
    if p: "wk_claim k = Armed p" and transfer: "pending_transfer reason p (cw_cleanup w) = Some (p', s)"
  proof -
    obtain key request i where new: "p = pending_new request i key" by (rule armed_run [OF own p])
    then have s: "s = reservation_transfer key request i reason (cw_cleanup w)" using transfer by (simp add: pending_transfer_def pending_new_def)
    show ?thesis by (rule ended [where P = "{#}" and Q = "{#}" and R = "{#i#}" and s = s])
      (use transfer_owners [OF own, of request i key reason] p new s in \<open>simp_all add: pending_new_def\<close>)
  qed
  show "creation_ok (w\<lparr>cw_cleanup := s, cw_works := xs @ disposed k # ys\<rparr>)"
    if q: "wk_claim k = ArmedTmux q" and dropped: "pending_tmux_drop q (cw_cleanup w) = Some s"
  proof -
    obtain i where new: "q = pending_tmux_new i" by (rule armed_tmux_run [OF own q])
    then have s: "s = tmux_transfer i ''tmux import owner unwound before publication'' (cw_cleanup w)" using dropped by (simp add: pending_tmux_drop_def pending_tmux_new_def)
    show ?thesis by (rule ended [where P = "{#}" and Q = "{#}" and R = "{#i#}" and s = s])
      (use tmux_transfer_owners [OF own, of i "''tmux import owner unwound before publication''"] q new s in \<open>simp_all add: pending_tmux_new_def\<close>)
  qed
qed

lemma creation_step_ok:
  assumes "creation_step w w'" "creation_ok w"
  shows "creation_ok w'"
  using assms
proof induction
  case (create_locked key w request)
  then have "key \<notin> set (work_keys (cw_works w))" by (simp add: set_work_keys)
  then show ?case using create_locked(2)
    by (simp add: creation_ok_def work_parts work_keys_parts work_new_def work_key_def claim_ok_def clear_of_def)
next
  case (import_started w)
  then show ?case by (simp add: creation_ok_def work_parts work_keys_parts work_new_def work_key_def claim_ok_def clear_of_def)
next
  case (fence_resolved w xs k ys key request v s)
  then have "owners_ok (cw_cleanup w) (xs @ k # ys)" by (simp add: creation_ok_alt)
  from resolved_owners [OF this fence_resolved(2-4)] show ?case
    by (intro consulted_ok [OF fence_resolved(5)]) (simp_all add: fence_resolved(1) work_parts)
next
  case (fence_refused w xs k ys key request v e s)
  then have "owners_ok (cw_cleanup w) (xs @ k # ys)" by (simp add: creation_ok_alt)
  from resolved_owners [OF this fence_refused(2-4)] show ?case
    by (intro consulted_ok [OF fence_refused(5)]) (simp_all add: fence_refused(1) work_parts)
next
  case (flight_began w xs k ys fl)
  have "owners_ok (cw_cleanup w) (xs @ k\<lparr>wk_flight := True\<rparr> # ys)"
    by (rule replace_owners [where k = k]) (use flight_began in \<open>simp_all add: creation_ok_alt owners_ok_def\<close>)
  then show ?case using flight_began
    by (auto simp: creation_ok_alt work_parts try_begin_def checked_add_def split: if_splits)
next
  case (flight_refused w xs k ys fl)
  have "owners_ok (cw_cleanup w) (xs @ disposed k # ys)" by (rule replace_owners [where k = k]) (use flight_refused in \<open>auto simp: creation_ok_alt\<close>)
  then show ?case using flight_refused by (auto simp: creation_ok_alt work_parts try_begin_def split: if_splits)
next
  case (slot_reserved w xs k ys v r s)
  then have "owners_ok (cw_cleanup w) (xs @ k # ys)" by (simp add: creation_ok_alt)
  from reserved_owners [OF this slot_reserved(2,4,5)] show ?case
    by (intro consulted_ok [OF slot_reserved(6)]) (simp_all add: slot_reserved(1,4) work_parts)
next
  case (slot_refused w xs k ys v e s)
  then have own: "owners_ok (cw_cleanup w) (xs @ k # ys)" by (simp add: creation_ok_alt)
  note refused = refused_owners [OF own slot_refused(5)]
  have "owners_ok s (xs @ disposed k # ys)" by (rule replace_owners [OF refused(1)]) (simp_all add: slot_refused(4))
  then show ?case by (intro consulted_ok [OF slot_refused(6)]) (use refused(2) in \<open>simp_all add: slot_refused(1,4) work_parts\<close>)
next
  case (launch_failed w xs k ys r s)
  then show ?case by (intro work_step_ok(1))
next
  case (spawned w xs k ys key' request key i)
  have own: "owners_ok (cw_cleanup w) (xs @ k # ys)" using spawned by (simp add: creation_ok_alt)
  have "owners_ok (cw_cleanup w) (xs @ k\<lparr>wk_claim := Armed (pending_new request i key)\<rparr> # ys)"
    by (rule replace_owners [OF own]) (use spawned own in \<open>auto simp: owners_ok_def claim_ok_def clear_of_def\<close>)
  then show ?case using spawned by (simp add: creation_ok_alt work_parts pending_new_def)
next
  case (imported w xs k ys i)
  have own: "owners_ok (cw_cleanup w) (xs @ k # ys)" using imported by (simp add: creation_ok_alt)
  have "owners_ok (cw_cleanup w) (xs @ k\<lparr>wk_claim := ArmedTmux (pending_tmux_new i)\<rparr> # ys)"
    by (rule replace_owners [OF own]) (use imported own in \<open>auto simp: owners_ok_def claim_ok_def clear_of_def split: option.splits\<close>)
  then show ?case using imported by (simp add: creation_ok_alt work_parts pending_tmux_new_def)
next
  case (published w xs k ys p i s)
  then show ?case by (intro work_step_ok(2))
next
  case (tmux_published w xs k ys p i s)
  then show ?case by (intro work_step_ok(4)) (auto simp: tmux_into_published_def split: if_splits)
next
  case (rolled_back w xs k ys p i s)
  have "owners_ok (cw_cleanup w) (xs @ k # ys)" using rolled_back by (simp add: creation_ok_alt)
  then obtain key request j where "p = pending_new request j key" using armed_run [OF _ rolled_back(2)] by blast
  then have "reservation_drop (cw_cleanup w) = Some s" using rolled_back(4) by (auto simp: pending_cleanup_unpublished_def pending_new_def)
  then show ?case using rolled_back work_step_ok(3) by blast
next
  case (rollback_pending w xs k ys p e r s)
  then obtain p' where "pending_transfer e p (cw_cleanup w) = Some (p', s)" by (auto simp: pending_cleanup_unpublished_def split: option.splits)
  then show ?case using rollback_pending work_step_ok(5) by blast
next
  case (unwound w xs k ys p requested s)
  have "owners_ok (cw_cleanup w) (xs @ k # ys)" using unwound by (simp add: creation_ok_alt)
  then have "pp_run p \<noteq> None" using armed_run [OF _ unwound(2)] by (metis option.distinct(1) pending_new_def pending_publication.select_convs(2))
  then obtain reason p' where "pending_transfer reason p (cw_cleanup w) = Some (p', s)" using unwound(3) by (auto simp: pending_drop_def)
  then show ?case using unwound work_step_ok(5) by blast
next
  case (tmux_unwound w xs k ys p s)
  then show ?case using work_step_ok(6) by blast
next
  case (flight_ended w xs k ys fl)
  have "owners_ok (cw_cleanup w) (xs @ k\<lparr>wk_flight := False, wk_cleared := False\<rparr> # ys)"
    by (rule replace_owners [where k = k]) (use flight_ended in \<open>auto simp: creation_ok_alt claim_ok_def clear_of_def\<close>)
  then show ?case using flight_ended by (auto simp: creation_ok_alt work_parts flight_drop_def checked_sub_def split: if_splits)
next
  case (work_ended w xs k ys)
  then show ?case by (auto simp: creation_ok_def work_parts work_keys_parts split: option.splits)
next
  case (reported v w reports s)
  then have "owners_ok (cw_cleanup w) (cw_works w)" by (simp add: creation_ok_alt)
  from reported_owners [OF this reported(1)] show ?case by (intro consulted_ok [OF reported(2)]) simp_all
next
  case (fenced w)
  then show ?case by (simp add: creation_ok_def flights_fence_def)
qed

lemma creation_reachable_ok: "creation_reachable slots w \<Longrightarrow> creation_ok w"
  unfolding creation_reachable_def
proof (induction rule: rtranclp_induct)
  case base
  then show ?case
    by (simp add: creation_ok_def world_new_def cleanup_with_slots_def flights_new_def fences_ok_def work_keys_parts work_parts cleanup_runs_def entry_runs_def tmux_runs_def)
qed (auto intro: creation_step_ok)

section \<open>Ownership of a started Run\<close>

lemma prune_max: "prune_reaped v s = Some s' \<Longrightarrow> uc_max_owned s' = uc_max_owned s"
  by (auto simp: prune_reaped_def Let_def)

lemma take_slot_max: "take_slot r v s = Some (q, s') \<Longrightarrow> uc_max_owned s' = uc_max_owned s"
  by (auto simp: take_slot_def dest: prune_max split: if_splits)

lemma reserve_for_max: "reserve_for k v s = Some (q, s') \<Longrightarrow> uc_max_owned s' = uc_max_owned s"
  by (cases "wk_subject k") (auto simp: reserve_for_def cleanup_reserve_def reserve_tmux_def dest: take_slot_max)

lemma operation_max:
  "resolve_fence v key request s = Some (r, s') \<Longrightarrow> uc_max_owned s' = uc_max_owned s"
  "reservation_drop s = Some s' \<Longrightarrow> uc_max_owned s' = uc_max_owned s" "pending_transfer reason p s = Some (p', s') \<Longrightarrow> uc_max_owned s' = uc_max_owned s"
  "pending_tmux_drop t s = Some s' \<Longrightarrow> uc_max_owned s' = uc_max_owned s" "prune_and_report v s = Some (reports, s') \<Longrightarrow> uc_max_owned s' = uc_max_owned s"
  by (auto simp: resolve_fence_def reservation_drop_def pending_transfer_def reservation_transfer_def
      pending_tmux_drop_def tmux_transfer_def prune_and_report_def Let_def dest: prune_max split: option.splits if_splits)

lemma pending_max:
  "pending_cleanup_unpublished terminated p s = Some (r, s') \<Longrightarrow> uc_max_owned s' = uc_max_owned s" "pending_drop requested p s = Some s' \<Longrightarrow> uc_max_owned s' = uc_max_owned s"
  by (auto simp: pending_cleanup_unpublished_def pending_drop_def dest: operation_max(2,3) split: option.splits sum.splits if_splits)

lemma creation_step_max: "creation_step w w' \<Longrightarrow> uc_max_owned (cw_cleanup w') = uc_max_owned (cw_cleanup w)"
  by (induction rule: creation_step.induct) (auto simp: consulted_def dest: operation_max pending_max reserve_for_max)

text \<open>Whoever owns a part of the overlap budget holds a flight.\<close>

definition in_flight :: "creation_work \<Rightarrow> bool" where
  "in_flight k \<longleftrightarrow> (wk_claim k \<noteq> NoClaim \<longrightarrow> wk_flight k)"

lemma creation_step_in_flight: "creation_step w w' \<Longrightarrow> list_all in_flight (cw_works w) \<Longrightarrow> list_all in_flight (cw_works w')"
  by (induction rule: creation_step.induct) (auto simp: consulted_def in_flight_def work_new_def disposed_def)

lemma creation_reachable_bounds: "creation_reachable slots w \<Longrightarrow> uc_max_owned (cw_cleanup w) = slots \<and> list_all in_flight (cw_works w)"
  unfolding creation_reachable_def
  by (induction rule: rtranclp_induct) (simp_all add: world_new_def cleanup_with_slots_def creation_step_max creation_step_in_flight)

lemma no_flight_no_claim: "list_all in_flight works \<Longrightarrow> flights works = 0 \<Longrightarrow> claims works = 0 \<and> armed_runs works = []"
  by (induction works) (auto simp: flights_def claims_def armed_runs_def in_flight_def split: if_splits)

text \<open>The unpublished Runs started under a key: armed by a creation, or fenced.\<close>

definition key_children :: "operation_key \<Rightarrow> creation_world \<Rightarrow> run_id list" where
  "key_children key w = armed_runs (filter (\<lambda>k. work_key k = Some key) (cw_works w))
     @ (case map_of (uc_entries (cw_cleanup w)) key of None \<Rightarrow> [] | Some f \<Rightarrow> map ue_run (pc_owners f))"

lemma one_work: "distinct (work_keys works) \<Longrightarrow> length (filter (\<lambda>k. work_key k = Some key) works) \<le> 1"
proof (induction works)
  case (Cons k works)
  have "filter (\<lambda>k. work_key k = Some key) works = []" if "key \<notin> set (work_keys works)"
    using that by (auto simp: set_work_keys filter_empty_conv) (metis image_eqI)
  then show ?case using Cons by (auto simp: work_keys_parts split: option.splits)
qed simp

lemma one_child:
  assumes "creation_ok w"
  shows "length (key_children key w) \<le> 1"
proof -
  let ?s = "cw_cleanup w" and ?mine = "filter (\<lambda>k. work_key k = Some key) (cw_works w)"
  have own: "owners_ok ?s (cw_works w)" using assms by (simp add: creation_ok_alt)
  have fence: "length (pc_owners f) = 1" if "map_of (uc_entries ?s) key = Some f" for f
    using own map_of_SomeD [OF that] by (auto simp: owners_ok_def fences_ok_def)
  have armed: "claim_runs (wk_claim k) = [] \<or> (length (claim_runs (wk_claim k)) = 1 \<and> map_of (uc_entries ?s) key = None)" if k: "k \<in> set ?mine" for k
  proof -
    have "claim_ok k" "clear_of ?s k" "work_key k = Some key" using k own by (auto simp: owners_ok_def list_all_iff)
    then show ?thesis by (cases "wk_claim k") (auto simp: claim_ok_def clear_of_def work_key_def pending_new_def)
  qed
  have "length ?mine \<le> 1" using own by (intro one_work) (simp add: owners_ok_def)
  then consider "?mine = []" | k where "?mine = [k]" by (cases ?mine) auto
  then show ?thesis
  proof cases
    case 1
    then show ?thesis using fence by (simp add: key_children_def work_parts split: option.split)
  next
    case (2 k)
    then show ?thesis using fence armed [of k] by (auto simp: key_children_def armed_runs_def split: option.split)
  qed
qed

lemma fence_refuses:
  assumes "owners_ok s works" "map_of (uc_entries s) key = Some f" "e \<in> set (pc_owners f)" "unresolved v e"
  shows "\<exists>failure s'. resolve_fence v key request s = Some (Inl failure, s')"
proof -
  obtain s' where s': "prune_reaped v s = Some s'" "owners_ok s' works" "uc_entries s' = retained_entries v (uc_entries s)" by (rule prune_owners [OF assms(1)])
  have "(key, retain_unresolved v f) \<in> set (uc_entries s')" using map_of_SomeD [OF assms(2)] assms(3,4)
    by (force simp: s'(3) retained_entries_def retain_unresolved_def filter_empty_conv)
  then have "map_of (uc_entries s') key \<noteq> None" by (metis map_of_eq_None_iff fst_conv image_eqI)
  then show ?thesis using s'(1) by (auto simp: resolve_fence_def)
qed

lemma clean_report:
  assumes "owners_ok s works" "prune_and_report v s = Some ([], s')"
  shows "cleanup_runs s = mset (reaped_runs v s)"
proof -
  let ?reports = "concat (map (\<lambda>(_, f). concat (map (fence_report v) (pc_owners f))) (uc_entries s)) @ concat (map (tmux_report v) (uc_tmux_entries s))"
  have "sort ?reports = []" using assms(2) unfolding prune_and_report_def by (cases "prune_reaped v s") simp_all
  then have "set (sort ?reports) = {}" by simp
  then have none: "?reports = []" by (simp only: set_sort set_empty)
  have "\<not> unresolved v e" if "(k, f) \<in> set (uc_entries s)" "e \<in> set (pc_owners f)" for k f e
  proof -
    have "fence_report v e = []" using none that by (auto simp: split_beta)
    then show ?thesis by (cases "unpublished_cleanup_result v (ue_run e)") (simp_all add: unresolved_def fence_report_def)
  qed
  then have entries: "concat (map (\<lambda>(_, f). filter (\<lambda>e. \<not> unresolved v e) (pc_owners f)) (uc_entries s)) = concat (map (\<lambda>(_, f). pc_owners f) (uc_entries s))"
    by (intro arg_cong [where f = concat] map_cong) (auto intro!: filter_True)
  have "\<not> tmux_unresolved v e" if "e \<in> set (uc_tmux_entries s)" for e
  proof -
    have "tmux_report v e = []" using none that by auto
    then show ?thesis by (cases "tmux_cleanup_result v (ue_run e)") (simp_all add: tmux_unresolved_def tmux_report_def)
  qed
  then have "filter (\<lambda>e. \<not> tmux_unresolved v e) (uc_tmux_entries s) = uc_tmux_entries s" by (auto intro!: filter_True)
  then show ?thesis unfolding cleanup_runs_def reaped_runs_def entries entry_runs_def tmux_runs_def
    by (simp add: map_concat comp_def case_prod_beta')
qed

text \<open>
  C16.  A daemon never abandons a child it started.  Over every interleaving of creations, imports, failures, rollbacks, unwinds,
  prunings and the shutdown fence, each started Run is exactly one of: published, proven clean, armed by its creation, or held by
  the cleanup owner.  The overlap budget counts exactly the creations that own a part of it and the Runs held for cleanup, and
  stays within its slots; the flight count is exact.  Under one key at most one unpublished Run exists, so a fence never has two
  owners, and while that Run is unresolved every further creation under the key is refused.  No accounting subtraction panics.  When
  the flights have drained and the cleanup owner reports nothing, every Run ever started is published or proven clean.
\<close>

theorem started_runs_always_owned:
  assumes "creation_reachable slots w"
  shows "mset (cw_spawned w) = mset (cw_published w) + mset (cw_proven w) + mset (armed_runs (cw_works w)) + cleanup_runs (cw_cleanup w)
    \<and> distinct (cw_spawned w)
    \<and> uc_owned (cw_cleanup w) = claims (cw_works w) + size (cleanup_runs (cw_cleanup w)) \<and> uc_owned (cw_cleanup w) \<le> slots
    \<and> fl_active (cw_flights w) = flights (cw_works w)
    \<and> (\<forall>key. length (key_children key w) \<le> 1)
    \<and> (\<forall>v key f e request. map_of (uc_entries (cw_cleanup w)) key = Some f \<and> e \<in> set (pc_owners f) \<and> unresolved v e
        \<longrightarrow> (\<exists>failure s. resolve_fence v key request (cw_cleanup w) = Some (Inl failure, s)))
    \<and> (\<forall>v. prune_reaped v (cw_cleanup w) \<noteq> None)
    \<and> (0 < claims (cw_works w) \<longrightarrow> reservation_drop (cw_cleanup w) \<noteq> None) \<and> (0 < flights (cw_works w) \<longrightarrow> flight_drop (cw_flights w) \<noteq> None)
    \<and> (\<forall>v s. fl_active (cw_flights w) = 0 \<and> prune_and_report v (cw_cleanup w) = Some ([], s)
        \<longrightarrow> mset (cw_spawned w) = mset (cw_published w) + mset (cw_proven w @ reaped_runs v (cw_cleanup w)))"
proof -
  have ok: "creation_ok w" and max: "uc_max_owned (cw_cleanup w) = slots" and fl: "list_all in_flight (cw_works w)"
    using creation_reachable_ok creation_reachable_bounds assms by blast+
  then have own: "owners_ok (cw_cleanup w) (cw_works w)" by (simp add: creation_ok_alt)
  have prune: "prune_reaped v (cw_cleanup w) \<noteq> None" for v by (metis prune_owners [OF own] option.distinct(1))
  have drops: "0 < claims (cw_works w) \<Longrightarrow> reservation_drop (cw_cleanup w) \<noteq> None" "0 < flights (cw_works w) \<Longrightarrow> flight_drop (cw_flights w) \<noteq> None"
    using ok by (auto simp: creation_ok_def reservation_drop_def flight_drop_def checked_sub_def)
  have quiet: "mset (cw_spawned w) = mset (cw_published w) + mset (cw_proven w @ reaped_runs v (cw_cleanup w))"
    if "fl_active (cw_flights w) = 0" "prune_and_report v (cw_cleanup w) = Some ([], s)" for v s
    using clean_report [OF own that(2)] no_flight_no_claim [OF fl] that(1) ok by (simp add: creation_ok_def)
  show ?thesis
    using ok max one_child [OF ok] fence_refuses [OF own] prune drops quiet unfolding creation_ok_def by blast
qed

text \<open>A creation whose thread unwinds after the spawn: the child is held, and its key refused.\<close>

definition sample_request :: creation_request where
  "sample_request = ForkRequest 1 PlanLevelA"

definition busy_view :: cleanup_view where
  "busy_view = \<lparr>cv_native = (\<lambda>_. Inl ''child is still alive''), cv_tmux = (\<lambda>_. Inr ()), cv_strong = (\<lambda>_. 1), cv_name = (\<lambda>_. ''7'')\<rparr>"

definition sample_work :: creation_work where
  "sample_work = work_new (Some (''k'', sample_request))"

definition sample_world :: creation_world where
  "sample_world = \<lparr>cw_flights = \<lparr>fl_accepting = True, fl_active = 1\<rparr>,
     cw_cleanup = \<lparr>uc_max_owned = 8, uc_owned = 1, uc_entries = [(''k'', \<lparr>pc_request = sample_request,
       pc_owners = [\<lparr>ue_run = 7, ue_transfer_reason = ''creation owner unwound after requesting unpublished child cleanup''\<rparr>]\<rparr>)], uc_tmux_entries = []\<rparr>,
     cw_works = [sample_work\<lparr>wk_flight := True\<rparr>], cw_spawned = [7], cw_published = [], cw_proven = []\<rparr>"

lemma sample_world_reachable: "creation_reachable MAX_CREATION_OWNER_SLOTS sample_world"
proof -
  let ?w0 = "world_new MAX_CREATION_OWNER_SLOTS"
  let ?w1 = "?w0\<lparr>cw_works := [sample_work]\<rparr>"
  let ?w2 = "?w0\<lparr>cw_works := [sample_work\<lparr>wk_cleared := True\<rparr>]\<rparr>"
  let ?w3 = "?w0\<lparr>cw_flights := \<lparr>fl_accepting = True, fl_active = 1\<rparr>, cw_works := [sample_work\<lparr>wk_cleared := True, wk_flight := True\<rparr>]\<rparr>"
  let ?s4 = "(cleanup_with_slots MAX_CREATION_OWNER_SLOTS)\<lparr>uc_owned := 1\<rparr>"
  let ?w4 = "?w3\<lparr>cw_cleanup := ?s4, cw_works := [sample_work\<lparr>wk_cleared := True, wk_flight := True, wk_claim := Holding (NativeReservation ''k'')\<rparr>]\<rparr>"
  let ?w5 = "?w4\<lparr>cw_works := [sample_work\<lparr>wk_cleared := True, wk_flight := True, wk_claim := Armed (pending_new sample_request 7 ''k'')\<rparr>], cw_spawned := [7]\<rparr>"
  note defs = world_new_def cleanup_with_slots_def flights_new_def sample_work_def work_new_def consulted_def reaped_runs_def prune_reaped_def Let_def checked_sub_def
    checked_add_def retained_entries_def max_values
  have "creation_step ?w0 ?w1" using create_locked [of "''k''" ?w0 sample_request] by (simp add: defs)
  moreover have "creation_step ?w1 ?w2"
    using fence_resolved [of ?w1 "[]" sample_work "[]" "''k''" sample_request busy_view "cleanup_with_slots MAX_CREATION_OWNER_SLOTS"] by (simp add: defs resolve_fence_def)
  moreover have "creation_step ?w2 ?w3"
    using flight_began [of ?w2 "[]" "sample_work\<lparr>wk_cleared := True\<rparr>" "[]" "\<lparr>fl_accepting = True, fl_active = 1\<rparr>"] by (simp add: defs try_begin_def)
  moreover have "creation_step ?w3 ?w4"
    using slot_reserved [of ?w3 "[]" "sample_work\<lparr>wk_cleared := True, wk_flight := True\<rparr>" "[]" busy_view "NativeReservation ''k''" ?s4]
    by (simp add: defs reserve_for_def cleanup_reserve_def take_slot_def MAX_CREATION_OWNER_SLOTS_def)
  moreover have "creation_step ?w4 ?w5"
    using spawned [of ?w4 "[]" "sample_work\<lparr>wk_cleared := True, wk_flight := True, wk_claim := Holding (NativeReservation ''k'')\<rparr>" "[]" "''k''" sample_request "''k''" 7]
    by (simp add: defs)
  moreover have "creation_step ?w5 sample_world"
    using unwound [of ?w5 "[]" "sample_work\<lparr>wk_cleared := True, wk_flight := True, wk_claim := Armed (pending_new sample_request 7 ''k'')\<rparr>" "[]"
        "pending_new sample_request 7 ''k''" "Inr ()" "cw_cleanup sample_world"]
    by (simp add: defs sample_world_def disposed_def pending_drop_def pending_transfer_def pending_new_def reservation_transfer_def MAX_CREATION_OWNER_SLOTS_def)
  ultimately show ?thesis unfolding creation_reachable_def by (meson converse_rtranclp_into_rtranclp rtranclp.rtrancl_refl)
qed

theorem started_runs_always_owned_witness:
  "creation_reachable MAX_CREATION_OWNER_SLOTS sample_world \<and> cleanup_runs (cw_cleanup sample_world) = {#7#}
   \<and> (\<exists>failure s. resolve_fence busy_view ''k'' sample_request (cw_cleanup sample_world) = Some (Inl failure, s))"
proof -
  let ?e = "\<lparr>ue_run = 7, ue_transfer_reason = ''creation owner unwound after requesting unpublished child cleanup''\<rparr>"
  have entry: "map_of (uc_entries (cw_cleanup sample_world)) ''k'' = Some \<lparr>pc_request = sample_request, pc_owners = [?e]\<rparr>" by (simp add: sample_world_def)
  have "unresolved busy_view ?e" by (simp add: unresolved_def unpublished_cleanup_result_def busy_view_def and_then_def)
  then show ?thesis using started_runs_always_owned [OF sample_world_reachable] sample_world_reachable entry
    by (auto simp: sample_world_def armed_runs_def sample_work_def work_new_def)
qed

section \<open>Order and waits\<close>

text \<open>A sequence of terminal publications of Runs that have none yet.\<close>

fun terminal_run :: "u64 \<Rightarrow> run_state list \<Rightarrow> terminal_cell list \<Rightarrow> terminal_cell list option" where
  "terminal_run n (st # sts) (c # cs) =
     (case terminal_publish n c st of None \<Rightarrow> None | Some (n', c') \<Rightarrow> map_option ((#) c') (terminal_run n' sts cs))"
| "terminal_run n _ _ = Some []"

text \<open>Ordinals are assigned in the order the states become visible, and an ordinal belongs to the state it was assigned with.\<close>

theorem terminal_order_exact:
  assumes "length sts = length cs" "\<forall>c \<in> set cs. fst c = None" "n + length sts \<le> U64_MAX"
  shows "terminal_run n sts cs = Some (zip (map Some [n + 1 ..< n + 1 + length sts]) sts)"
  using assms
proof (induction sts cs arbitrary: n rule: list_induct2)
  case (Cons st sts c cs)
  have "terminal_publish n c st = Some (n + 1, Some (n + 1), st)" using Cons.prems by (simp add: terminal_publish_def checked_add_def)
  then show ?case using Cons.IH [of "n + 1"] Cons.prems by (simp add: upt_conv_Cons del: upt_Suc)
qed simp

text \<open>A wait for the flights says yes only after it saw none, and returns once the clock passes the deadline.\<close>

theorem flights_wait_sound:
  "(flights_wait_until deadline active turns = Some True \<longrightarrow> 0 \<in> set (active # map (fst \<circ> snd) turns))
   \<and> ((\<exists>t \<in> set turns. deadline \<le> fst t) \<longrightarrow> flights_wait_until deadline active turns \<noteq> None)"
  by (induction deadline active turns rule: flights_wait_until.induct) (auto split: if_splits)

text \<open>A wait for cleanup never panics on an owner that keeps its books, and returns once the clock passes the deadline.\<close>

theorem cleanup_wait_returns:
  assumes "owners_ok s works" "\<exists>t \<in> set turns. deadline \<le> snd t"
  shows "\<exists>reports s'. cleanup_wait_until deadline turns s = Some (Some reports, s') \<and> owners_ok s' works"
  using assms
proof (induction deadline turns s rule: cleanup_wait_until.induct)
  case (2 deadline v now turns s)
  obtain s1 where "prune_reaped v s = Some s1" by (rule prune_owners [OF 2(2)])
  then obtain reports where r: "prune_and_report v s = Some (reports, s1)" by (simp add: prune_and_report_def)
  note own = reported_owners(1) [OF 2(2) r]
  show ?case
  proof (cases "reports = [] \<or> deadline \<le> now")
    case False
    then show ?thesis using 2(1) [OF r refl False own] 2(3) r by auto
  qed (use r own in auto)
qed simp

end
