(* ===== verification/Spec2Isabelle.thy ===== *)
theory Spec2Isabelle
  imports Prelude Resources Fd_Budget Protocol_Types Terminal_Model Native_Service Output_Log
    Persistent_Run Retention Output_Turn Live_Events Upgrade_Gate Tmux_Control Tmux_Parser Tmux_Reader Native_Input
    Input_Ledger Native_Control Input_Handoff Replay_Store Replay_Window Replay_Quota Replay_Pages Replay_Transactions
    Assoc_Lists Run_Registry Registry_Invariant Registry_Steps Registry_Properties Stop_Handoff Run_Listing
    Client_Types Attach_Replay Attach_Roundtrip Event_Inbox Client_Attachment Daemon_Attachment
    Creation_Owners
begin

text \<open>
  \<^bold>\<open>ctxmux: a verification development.\<close>

  ctxmux keeps long-lived terminal processes (\<^emph>\<open>Runs\<close>) alive behind a daemon.  The daemon reads each
  Run's PTY, retains a bounded window of its output in memory, offers it to a persistence actor,
  derives a terminal checkpoint from it, publishes live events to attached clients, and writes the
  input clients send.  Every one of these owners has a byte budget, and the daemon can be upgraded in
  place without losing Runs.

  \<^bold>\<open>Theories and the code they model\<close> (paths under \<^verbatim>\<open>src/crates/ctxmux-daemon/src\<close> unless said otherwise).

  \<^item> \<open>Prelude\<close>: Rust's checked, saturating and wrapping arithmetic at 64 bits, the error monad.
  \<^item> \<open>Resources\<close> (\<^verbatim>\<open>resources.rs\<close>): the resource policy, its defaults, resolution and validation, and
    \<^verbatim>\<open>ByteBudget\<close> with its permits (C1 to C4).  The locale \<open>byte_ledger\<close> states what a counter of
    outstanding permits promises and is interpreted on \<^verbatim>\<open>reserve\<close> and \<^verbatim>\<open>BytePermit::drop\<close>.
  \<^item> \<open>Fd_Budget\<close> (\<^verbatim>\<open>fd_budget.rs\<close>): the descriptor limit and the live-Run ceiling (C6); the kernel's
    \<^verbatim>\<open>setrlimit\<close> is a parameter.
  \<^item> \<open>Protocol_Types\<close> (\<^verbatim>\<open>ctxmux-protocol/src/lib.rs\<close>): the data the owners exchange.
  \<^item> \<open>Terminal_Model\<close> (\<^verbatim>\<open>terminal_checkpoint.rs\<close>): the derived terminal, its checkpoint and recovery (C8);
    the vt100 emulator is a record of functions.
  \<^item> \<open>Native_Service\<close> (\<^verbatim>\<open>native_service.rs\<close>): the service snapshot cell; revisions count the published transitions and
    a lost owner stays lost.
  \<^item> \<open>Output_Log\<close> (\<^verbatim>\<open>lib.rs\<close>, \<^verbatim>\<open>OutputLog\<close>): the retained window, paging, replay, trimming and resize
    receipts (C11, C12).
  \<^item> \<open>Persistent_Run\<close> (\<^verbatim>\<open>persistence.rs\<close>): one Run's handle on the persistence actor's queue.
  \<^item> \<open>Retention\<close> (\<^verbatim>\<open>retention.rs\<close>): daemon-wide retained-output accounting and reclamation (C15).
    The locale \<open>retention_victim\<close> is the \<^verbatim>\<open>RetentionVictim\<close> trait, interpreted on the Run.
  \<^item> \<open>Output_Turn\<close> (\<^verbatim>\<open>native_output.rs\<close>): one read turn, composing the three above (C18, C19).
  \<^item> \<open>Live_Events\<close> (\<^verbatim>\<open>live_event_journal.rs\<close>, \<^verbatim>\<open>lib.rs\<close>): the funded journal, its receivers and the
    event owner (C21, C22).
  \<^item> \<open>Upgrade_Gate\<close> (\<^verbatim>\<open>lib.rs\<close>): the request gate of the in-place upgrade (C23); a committed fence is final.
  \<^item> \<open>Tmux_Control\<close> (\<^verbatim>\<open>lib.rs\<close>): correlation of tmux control commands (C25) and their one-shot completion receipt.
  \<^item> \<open>Tmux_Parser\<close> (\<^verbatim>\<open>tmux.rs\<close>): the bounded line reader and the Control Mode parser over bytes, versions, pane lines and the target
    probe.  The locale \<open>record_codec\<close> states what a line parser promises of the records it reads back and is interpreted
    on \<^verbatim>\<open>ControlParser::parse_line\<close> with tmux's wire format.  \<open>Tmux_Reader\<close> (\<^verbatim>\<open>lib.rs\<close>) is the reader thread; it loses and adds no byte
    of its pane, however the pipe fragments the stream (C9).
  \<^item> \<open>Native_Input\<close> (\<^verbatim>\<open>native_control.rs\<close>): the input queue, the physical write turn and the ledger of
    recoverable input.  \<open>Input_Ledger\<close> holds its invariant: bytes reach the PTY exactly once and in order
    (C27) and a keyed operation is applied at most once (C28).
  \<^item> \<open>Native_Control\<close> (\<^verbatim>\<open>native_control.rs\<close>): the fences that end a Run's input, resize, reap authority
    and the published input status (C29, C30, C32).
  \<^item> \<open>Input_Handoff\<close> (\<^verbatim>\<open>native_control.rs\<close>): the input ledger across an in-place upgrade (C33).
  \<^item> \<open>Replay_Store\<close> (\<^verbatim>\<open>persistence.rs\<close>): the durable tables, the payload files and the operations on them.
    \<open>Replay_Window\<close> shows that an append refines an abstract window update (C34), \<open>Replay_Quota\<close> that the
    daemon-wide quota is met (C35), \<open>Replay_Pages\<close> that a page is a slice of the window (C36), and
    \<open>Replay_Transactions\<close> models the transactions that use them: exact replacement stays within capacity
    (C37) and every reachable store revalidates (C38).
  \<^item> \<open>Creation_Owners\<close> (\<^verbatim>\<open>creation.rs\<close>): what owns a creation before the registry does: terminal order, creation flights, the overlap budget
    with its cleanup fences, and the armed owner of a child that is not published.  Composed over interleaved creations: every
    started Run has exactly one owner, and a key has at most one unpublished Run (C16).
  \<^item> \<open>Run_Registry\<close> (\<^verbatim>\<open>creation.rs\<close>): the daemon's table of Runs with its creation-key and Stop-key indexes, the publication
    reservations that fence the Runs they will replace, live-resource permits, metadata funding, removal, recoverable Stop
    and recovery.  \<open>Assoc_Lists\<close> holds the lemmas on keyed sums and reverse indexes; \<open>Registry_Invariant\<close> and \<open>Registry_Steps\<close>
    show that every operation keeps the invariant, with the owners that hold a reservation, a removal fence or a Stop
    settlement as part of the state; \<open>Registry_Properties\<close> concludes that every reachable registry stays within its record,
    live and metadata capacities (C39), that a creation key names at most one Run (C40) and that a Stop settles once
    (C26).  \<open>Stop_Handoff\<close> carries the Stop receipts across an in-place upgrade (C14).
  \<^item> \<open>Run_Listing\<close> (\<^verbatim>\<open>lib.rs\<close>, \<^verbatim>\<open>ctxmux-client/src/lib.rs\<close>): a listing page equals the page of a full sort (C24) and the
    client's walk over the pages ends and misses no stable Run (C10).
  \<^item> \<open>Client_Types\<close> (\<^verbatim>\<open>ctxmux-client/src/lib.rs\<close>): the client's errors, frames, capability checks, receipts and short control
    requests; what a failed control call says about retrying is never wrong (C7).
  \<^item> \<open>Attach_Replay\<close> (\<^verbatim>\<open>attachment.rs\<close>, \<^verbatim>\<open>lib.rs\<close>, \<^verbatim>\<open>ctxmux-client/src/lib.rs\<close>): the attachment snapshot, its pages, the frames the daemon
    streams and the client's reassembly.  \<open>Attach_Roundtrip\<close> composes the output log, the durable store, the terminal model
    and the client: the client holds the exact tail of the Run's output (C5), with one exception it exhibits.
  \<^item> \<open>Event_Inbox\<close> (\<^verbatim>\<open>ctxmux-client/src/attachment.rs\<close>, \<^verbatim>\<open>EventInbox\<close>): the two windows between the reader task and the event consumer;
    the relation \<open>accounts\<close> says what a consumer must be told, and no event is lost without it (C13).
  \<^item> \<open>Client_Attachment\<close> (\<^verbatim>\<open>ctxmux-client/src/attachment.rs\<close>): the commands of a live attachment, its reader and writer tasks, detach and
    close, as a step relation; results have the type of their command (C17) and every command settles once (C20).
  \<^item> \<open>Daemon_Attachment\<close> (\<^verbatim>\<open>attachment.rs\<close>): the daemon's loop over a live attachment, as a step relation, composed with the client's
    inbox: commands are answered once, the terminal event waits for them, and the inbox accepts what the session sends (C31),
    with one exception it exhibits.

  \<^bold>\<open>Conventions.\<close>  \<^verbatim>\<open>u64\<close> and \<^verbatim>\<open>usize\<close> are naturals with every checked, saturating or wrapping
  operation written out at the 64-bit bound; a result \<open>None\<close> of an operation whose Rust type has no
  option is a panic (a failed \<^verbatim>\<open>expect\<close>, \<^verbatim>\<open>assert\<close> or index), and the theorems show it does not happen.
  Loops that are not structural are \<open>function\<close>s with a termination proof or, for the journal's
  retirement loop and the client's walk, a \<open>partial_function (option)\<close> shown to return.  Mutexes are atomic steps; where
  interleaving matters the steps form an inductive relation.  Error messages keep their constant
  text.

  \<^bold>\<open>Not modelled.\<close>  Operating-system I/O (the reactor, PTY creation, signals), the actor loop
  behind the persistence queue with its WAL admission, payload compaction and reconciliation of uncertain
  commits, tokio scheduling, serde encodings, sockets, the remote transport and the command line; test-only code.
\<close>

end
